(* ===== verification/Prelude.thy ===== *)
theory Prelude
  imports Main "HOL-Library.Word"
begin

text \<open>
  Shared vocabulary of the development: the outcome type of a kernel operation (a value, or the
  reason the kernel stops), its sequencing operator, addresses with the null pointer, the machine
  integers of the 32-bit target, and the generic lemmas on lists that several components use.
\<close>

section \<open>Outcomes\<close>

text \<open>
  \<open>ASSERT\<close> (\<^verbatim>\<open>lib/debug.h\<close>) and \<open>PANIC\<close> halt the kernel, and so does an access through a null or
  unmapped pointer. \<open>Blocked\<close> is the outcome of a wait that nothing in a sequential model would end.
  \<open>Out_of_fuel\<close> is the outcome of a loop that has not finished within the
  number of iterations it was given; every loop comes with a lemma on how much is enough.
\<close>

datatype fault = Assertion_failure | Invalid_access | Kernel_panic | Divide_error | Blocked | Out_of_fuel

type_synonym 'a res = "fault + 'a"

definition bindR :: "'a res \<Rightarrow> ('a \<Rightarrow> 'b res) \<Rightarrow> 'b res" where
  "bindR m f = (case m of Inl e \<Rightarrow> Inl e | Inr x \<Rightarrow> f x)"

definition ASSERT :: "bool \<Rightarrow> unit res" where
  "ASSERT b = (if b then Inr () else Inl Assertion_failure)"

named_theorems res_simps "evaluation of outcomes"

lemma bindR_Inl [simp, res_simps]: "bindR (Inl e) f = Inl e"
  by (simp add: bindR_def)

lemma bindR_Inr [simp, res_simps]: "bindR (Inr x) f = f x"
  by (simp add: bindR_def)

lemma bindR_eq_Inr: "bindR m f = Inr y \<longleftrightarrow> (\<exists>x. m = Inr x \<and> f x = Inr y)"
  by (cases m) (auto simp: bindR_def)

lemma bindR_eq_Inl: "bindR m f = Inl e \<longleftrightarrow> m = Inl e \<or> (\<exists>x. m = Inr x \<and> f x = Inl e)"
  by (cases m) (auto simp: bindR_def)

lemma ASSERT_True [simp, res_simps]: "ASSERT True = Inr ()"
  by (simp add: ASSERT_def)

lemma ASSERT_False [simp, res_simps]: "ASSERT False = Inl Assertion_failure"
  by (simp add: ASSERT_def)

lemma ASSERT_eq_Inr [simp]: "ASSERT b = Inr u \<longleftrightarrow> b"
  by (simp add: ASSERT_def)

section \<open>Addresses and machine integers\<close>

type_synonym addr = nat

abbreviation (input) NULL :: addr where
  "NULL \<equiv> 0"

type_synonym u8 = "8 word"
type_synonym u32 = "32 word"
type_synonym u64 = "64 word"

lemma unat_of_nat_below: "i < unat (w :: u32) \<Longrightarrow> unat (of_nat i :: u32) = i"
proof -
  assume "i < unat w"
  moreover have "unat w < 2 ^ 32" using unsigned_less [of w] by simp
  ultimately show ?thesis by (simp add: unat_of_nat)
qed

lemma sint_eq_unat:
  fixes w :: u32
  assumes "unat w < 2147483648"
  shows "sint w = int (unat w)"
proof -
  have u: "uint w = int (unat w)" by simp
  have "int (unat w) < 2147483648" using assms by linarith
  then have "uint w < 2 ^ 31" by simp
  moreover have "- (2 ^ 31) \<le> uint w" by (rule order_trans [of _ 0]) simp_all
  ultimately have "signed_take_bit 31 (uint w) = uint w" by (intro signed_take_bit_int_eq_self)
  then have "sint w = uint w" by (simp add: sint_uint)
  then show ?thesis by (simp only: u)
qed

section \<open>Lists\<close>

lemma hd_snoc_split: "hd (ys @ [t]) # tl (ys @ [t]) = ys @ [t]"
  by simp

lemma successively_cong_links:
  assumes "\<And>a b. a \<in> set (butlast ns) \<Longrightarrow> b \<in> set (tl ns) \<Longrightarrow> P a b \<longleftrightarrow> Q a b"
  shows "successively P ns \<longleftrightarrow> successively Q ns"
  using assms
proof (induction ns rule: induct_list012)
  case (3 x y zs)
  have "successively P (y # zs) \<longleftrightarrow> successively Q (y # zs)"
    by (rule 3(2)) (use 3(3) in \<open>auto split: if_splits dest: list.set_sel(2)\<close>)
  moreover have "P x y \<longleftrightarrow> Q x y"
    by (rule 3(3)) simp_all
  ultimately show ?case by simp
qed simp_all

end
