(* ===== verification/Kernel_List.thy ===== *)
theory Kernel_List
  imports Prelude "HOL-Library.Multiset"
begin

text \<open>
  \<^verbatim>\<open>lib/kernel/list.c\<close>: the intrusive doubly linked lists that every kernel queue is made of.
  The heap maps the address of a \<^verbatim>\<open>struct list_elem\<close> to its two links; a \<^verbatim>\<open>struct list\<close> is given
  by the addresses of its two embedded header elements. Each C function is one definition that
  performs the same reads and writes in the same order, with its \<open>ASSERT\<close>s, over an explicit heap.
  A \<^verbatim>\<open>struct list *\<close> argument is a value of type \<open>list_struct\<close>, so it is never null; the one
  argument that may be null, \<open>duplicates\<close> of \<open>list_unique\<close>, is an option. Comparison functions
  read only the enclosing structures, so they are functions of the two element addresses.
  Loops over a list take the number of iterations they may run; an exhausted bound is
  \<open>Out_of_fuel\<close>.
\<close>

section \<open>Model\<close>

subsection \<open>Data\<close>

record list_elem =
  elem_prev :: addr
  elem_next :: addr

record list_struct =
  head :: addr
  tail :: addr

type_synonym heap = "addr \<rightharpoonup> list_elem"

type_synonym less_fun = "addr \<Rightarrow> addr \<Rightarrow> bool"

definition load :: "heap \<Rightarrow> addr \<Rightarrow> list_elem res" where
  "load h p = (if p = NULL then Inl Invalid_access
     else case h p of None \<Rightarrow> Inl Invalid_access | Some e \<Rightarrow> Inr e)"

definition get_prev :: "heap \<Rightarrow> addr \<Rightarrow> addr res" where
  "get_prev h p = bindR (load h p) (\<lambda>e. Inr (elem_prev e))"

definition get_next :: "heap \<Rightarrow> addr \<Rightarrow> addr res" where
  "get_next h p = bindR (load h p) (\<lambda>e. Inr (elem_next e))"

definition set_prev :: "heap \<Rightarrow> addr \<Rightarrow> addr \<Rightarrow> heap res" where
  "set_prev h p v = bindR (load h p) (\<lambda>e. Inr (h(p \<mapsto> e\<lparr>elem_prev := v\<rparr>)))"

definition set_next :: "heap \<Rightarrow> addr \<Rightarrow> addr \<Rightarrow> heap res" where
  "set_next h p v = bindR (load h p) (\<lambda>e. Inr (h(p \<mapsto> e\<lparr>elem_next := v\<rparr>)))"

subsection \<open>Classification and traversal\<close>

definition is_head :: "heap \<Rightarrow> addr \<Rightarrow> bool res" where
  "is_head h elem = (if elem = NULL then Inr False
     else bindR (load h elem) (\<lambda>e. Inr (elem_prev e = NULL \<and> elem_next e \<noteq> NULL)))"

definition is_interior :: "heap \<Rightarrow> addr \<Rightarrow> bool res" where
  "is_interior h elem = (if elem = NULL then Inr False
     else bindR (load h elem) (\<lambda>e. Inr (elem_prev e \<noteq> NULL \<and> elem_next e \<noteq> NULL)))"

definition is_tail :: "heap \<Rightarrow> addr \<Rightarrow> bool res" where
  "is_tail h elem = (if elem = NULL then Inr False
     else bindR (load h elem) (\<lambda>e. Inr (elem_prev e \<noteq> NULL \<and> elem_next e = NULL)))"

definition list_init :: "heap \<Rightarrow> list_struct \<Rightarrow> heap res" where
  "list_init h l =
     bindR (set_prev h (head l) NULL) (\<lambda>h.
     bindR (set_next h (head l) (tail l)) (\<lambda>h.
     bindR (set_prev h (tail l) (head l)) (\<lambda>h.
     set_next h (tail l) NULL)))"

definition list_begin :: "heap \<Rightarrow> list_struct \<Rightarrow> addr res" where
  "list_begin h l = get_next h (head l)"

definition list_next :: "heap \<Rightarrow> addr \<Rightarrow> addr res" where
  "list_next h elem =
     bindR (is_head h elem) (\<lambda>a. bindR (is_interior h elem) (\<lambda>b.
     bindR (ASSERT (a \<or> b)) (\<lambda>_. get_next h elem)))"

definition list_end :: "list_struct \<Rightarrow> addr" where
  "list_end l = tail l"

definition list_rbegin :: "heap \<Rightarrow> list_struct \<Rightarrow> addr res" where
  "list_rbegin h l = get_prev h (tail l)"

definition list_prev :: "heap \<Rightarrow> addr \<Rightarrow> addr res" where
  "list_prev h elem =
     bindR (is_interior h elem) (\<lambda>a. bindR (is_tail h elem) (\<lambda>b.
     bindR (ASSERT (a \<or> b)) (\<lambda>_. get_prev h elem)))"

definition list_rend :: "list_struct \<Rightarrow> addr" where
  "list_rend l = head l"

definition list_head :: "list_struct \<Rightarrow> addr" where
  "list_head l = head l"

definition list_tail :: "list_struct \<Rightarrow> addr" where
  "list_tail l = tail l"

subsection \<open>Insertion and removal\<close>

definition list_insert :: "heap \<Rightarrow> addr \<Rightarrow> addr \<Rightarrow> heap res" where
  "list_insert h before elem =
     bindR (is_interior h before) (\<lambda>a. bindR (is_tail h before) (\<lambda>b.
     bindR (ASSERT (a \<or> b)) (\<lambda>_.
     bindR (ASSERT (elem \<noteq> NULL)) (\<lambda>_.
     bindR (get_prev h before) (\<lambda>p.
     bindR (set_prev h elem p) (\<lambda>h.
     bindR (set_next h elem before) (\<lambda>h.
     bindR (get_prev h before) (\<lambda>p.
     bindR (set_next h p elem) (\<lambda>h.
     set_prev h before elem)))))))))"

definition list_splice :: "heap \<Rightarrow> addr \<Rightarrow> addr \<Rightarrow> addr \<Rightarrow> heap res" where
  "list_splice h before first last0 =
     bindR (is_interior h before) (\<lambda>a. bindR (is_tail h before) (\<lambda>b.
     bindR (ASSERT (a \<or> b)) (\<lambda>_.
     if first = last0 then Inr h else
     bindR (list_prev h last0) (\<lambda>lst.
     bindR (is_interior h first) (\<lambda>a. bindR (ASSERT a) (\<lambda>_.
     bindR (is_interior h lst) (\<lambda>a. bindR (ASSERT a) (\<lambda>_.
     bindR (get_prev h first) (\<lambda>fp. bindR (get_next h lst) (\<lambda>ln.
     bindR (set_next h fp ln) (\<lambda>h.
     bindR (get_next h lst) (\<lambda>ln. bindR (get_prev h first) (\<lambda>fp.
     bindR (set_prev h ln fp) (\<lambda>h.
     bindR (get_prev h before) (\<lambda>bp.
     bindR (set_prev h first bp) (\<lambda>h.
     bindR (set_next h lst before) (\<lambda>h.
     bindR (get_prev h before) (\<lambda>bp.
     bindR (set_next h bp first) (\<lambda>h.
     set_prev h before lst)))))))))))))))))))"

definition list_push_front :: "heap \<Rightarrow> list_struct \<Rightarrow> addr \<Rightarrow> heap res" where
  "list_push_front h l elem = bindR (list_begin h l) (\<lambda>b. list_insert h b elem)"

definition list_push_back :: "heap \<Rightarrow> list_struct \<Rightarrow> addr \<Rightarrow> heap res" where
  "list_push_back h l elem = list_insert h (list_end l) elem"

definition list_remove :: "heap \<Rightarrow> addr \<Rightarrow> (heap \<times> addr) res" where
  "list_remove h elem =
     bindR (is_interior h elem) (\<lambda>a. bindR (ASSERT a) (\<lambda>_.
     bindR (get_prev h elem) (\<lambda>p. bindR (get_next h elem) (\<lambda>n.
     bindR (set_next h p n) (\<lambda>h.
     bindR (get_next h elem) (\<lambda>n. bindR (get_prev h elem) (\<lambda>p.
     bindR (set_prev h n p) (\<lambda>h.
     bindR (get_next h elem) (\<lambda>n. Inr (h, n))))))))))"

definition list_empty :: "heap \<Rightarrow> list_struct \<Rightarrow> bool res" where
  "list_empty h l = bindR (list_begin h l) (\<lambda>b. Inr (b = list_end l))"

definition list_front :: "heap \<Rightarrow> list_struct \<Rightarrow> addr res" where
  "list_front h l = bindR (list_empty h l) (\<lambda>e. bindR (ASSERT (\<not> e)) (\<lambda>_. get_next h (head l)))"

definition list_back :: "heap \<Rightarrow> list_struct \<Rightarrow> addr res" where
  "list_back h l = bindR (list_empty h l) (\<lambda>e. bindR (ASSERT (\<not> e)) (\<lambda>_. get_prev h (tail l)))"

definition list_pop_front :: "heap \<Rightarrow> list_struct \<Rightarrow> (heap \<times> addr) res" where
  "list_pop_front h l =
     bindR (list_front h l) (\<lambda>front. bindR (list_remove h front) (\<lambda>(h, _). Inr (h, front)))"

definition list_pop_back :: "heap \<Rightarrow> list_struct \<Rightarrow> (heap \<times> addr) res" where
  "list_pop_back h l =
     bindR (list_back h l) (\<lambda>back. bindR (list_remove h back) (\<lambda>(h, _). Inr (h, back)))"

fun list_size_loop :: "nat \<Rightarrow> heap \<Rightarrow> list_struct \<Rightarrow> addr \<Rightarrow> nat \<Rightarrow> nat res" where
  "list_size_loop 0 h l e cnt = Inl Out_of_fuel"
| "list_size_loop (Suc n) h l e cnt =
     (if e \<noteq> list_end l then bindR (list_next h e) (\<lambda>e. list_size_loop n h l e (Suc cnt))
      else Inr cnt)"

definition list_size :: "nat \<Rightarrow> heap \<Rightarrow> list_struct \<Rightarrow> nat res" where
  "list_size fuel h l = bindR (list_begin h l) (\<lambda>e. list_size_loop fuel h l e 0)"

subsection \<open>Reversal\<close>

text \<open>\<open>swap\<close> takes the addresses of two link fields.\<close>

datatype cell = Prev_of addr | Next_of addr

fun get_cell :: "heap \<Rightarrow> cell \<Rightarrow> addr res" where
  "get_cell h (Prev_of p) = get_prev h p"
| "get_cell h (Next_of p) = get_next h p"

fun set_cell :: "heap \<Rightarrow> cell \<Rightarrow> addr \<Rightarrow> heap res" where
  "set_cell h (Prev_of p) v = set_prev h p v"
| "set_cell h (Next_of p) v = set_next h p v"

definition swap_cells :: "heap \<Rightarrow> cell \<Rightarrow> cell \<Rightarrow> heap res" where
  "swap_cells h a b =
     bindR (get_cell h a) (\<lambda>t. bindR (get_cell h b) (\<lambda>v.
     bindR (set_cell h a v) (\<lambda>h. set_cell h b t)))"

fun list_reverse_loop :: "nat \<Rightarrow> heap \<Rightarrow> list_struct \<Rightarrow> addr \<Rightarrow> heap res" where
  "list_reverse_loop 0 h l e = Inl Out_of_fuel"
| "list_reverse_loop (Suc n) h l e =
     (if e \<noteq> list_end l then
        bindR (swap_cells h (Prev_of e) (Next_of e)) (\<lambda>h.
        bindR (get_prev h e) (\<lambda>e. list_reverse_loop n h l e))
      else Inr h)"

definition list_reverse :: "nat \<Rightarrow> heap \<Rightarrow> list_struct \<Rightarrow> heap res" where
  "list_reverse fuel h l =
     bindR (list_empty h l) (\<lambda>e. if e then Inr h else
     bindR (list_begin h l) (\<lambda>b.
     bindR (list_reverse_loop fuel h l b) (\<lambda>h.
     bindR (swap_cells h (Next_of (head l)) (Prev_of (tail l))) (\<lambda>h.
     bindR (get_next h (head l)) (\<lambda>f. bindR (get_prev h (tail l)) (\<lambda>b.
     swap_cells h (Prev_of f) (Next_of b)))))))"

subsection \<open>Ordered lists\<close>

fun is_sorted_loop :: "nat \<Rightarrow> heap \<Rightarrow> less_fun \<Rightarrow> addr \<Rightarrow> addr \<Rightarrow> bool res" where
  "is_sorted_loop 0 h lt a b = Inl Out_of_fuel"
| "is_sorted_loop (Suc n) h lt a b =
     bindR (list_next h a) (\<lambda>a. if a \<noteq> b then
       bindR (list_prev h a) (\<lambda>p. if lt a p then Inr False else is_sorted_loop n h lt a b)
     else Inr True)"

definition is_sorted :: "nat \<Rightarrow> heap \<Rightarrow> less_fun \<Rightarrow> addr \<Rightarrow> addr \<Rightarrow> bool res" where
  "is_sorted fuel h lt a b = (if a \<noteq> b then is_sorted_loop fuel h lt a b else Inr True)"

fun find_end_of_run_loop :: "nat \<Rightarrow> heap \<Rightarrow> less_fun \<Rightarrow> addr \<Rightarrow> addr \<Rightarrow> addr res" where
  "find_end_of_run_loop 0 h lt a b = Inl Out_of_fuel"
| "find_end_of_run_loop (Suc n) h lt a b =
     bindR (list_next h a) (\<lambda>a. if a \<noteq> b then
       bindR (list_prev h a) (\<lambda>p. if \<not> lt a p then find_end_of_run_loop n h lt a b else Inr a)
     else Inr a)"

definition find_end_of_run :: "nat \<Rightarrow> heap \<Rightarrow> less_fun \<Rightarrow> addr \<Rightarrow> addr \<Rightarrow> addr res" where
  "find_end_of_run fuel h lt a b =
     bindR (ASSERT (a \<noteq> NULL)) (\<lambda>_. bindR (ASSERT (b \<noteq> NULL)) (\<lambda>_.
     bindR (ASSERT (a \<noteq> b)) (\<lambda>_. find_end_of_run_loop fuel h lt a b)))"

fun inplace_merge_loop :: "nat \<Rightarrow> heap \<Rightarrow> less_fun \<Rightarrow> addr \<Rightarrow> addr \<Rightarrow> addr \<Rightarrow> heap res" where
  "inplace_merge_loop 0 h lt a0 a1b0 b1 = Inl Out_of_fuel"
| "inplace_merge_loop (Suc n) h lt a0 a1b0 b1 =
     (if a0 \<noteq> a1b0 \<and> a1b0 \<noteq> b1 then
        if \<not> lt a1b0 a0 then
          bindR (list_next h a0) (\<lambda>a0. inplace_merge_loop n h lt a0 a1b0 b1)
        else
          bindR (list_next h a1b0) (\<lambda>a1b0.
          bindR (list_prev h a1b0) (\<lambda>p.
          bindR (list_splice h a0 p a1b0) (\<lambda>h. inplace_merge_loop n h lt a0 a1b0 b1)))
      else Inr h)"

definition inplace_merge :: "nat \<Rightarrow> heap \<Rightarrow> less_fun \<Rightarrow> addr \<Rightarrow> addr \<Rightarrow> addr \<Rightarrow> heap res" where
  "inplace_merge fuel h lt a0 a1b0 b1 =
     bindR (ASSERT (a0 \<noteq> NULL)) (\<lambda>_. bindR (ASSERT (a1b0 \<noteq> NULL)) (\<lambda>_.
     bindR (ASSERT (b1 \<noteq> NULL)) (\<lambda>_.
     bindR (is_sorted fuel h lt a0 a1b0) (\<lambda>s. bindR (ASSERT s) (\<lambda>_.
     bindR (is_sorted fuel h lt a1b0 b1) (\<lambda>s. bindR (ASSERT s) (\<lambda>_.
     inplace_merge_loop fuel h lt a0 a1b0 b1)))))))"

text \<open>One pass of the \<open>for\<close> loop of \<open>list_sort\<close> from \<open>a0\<close>, with the number of runs output so far.\<close>

fun list_sort_pass ::
    "nat \<Rightarrow> nat \<Rightarrow> heap \<Rightarrow> list_struct \<Rightarrow> less_fun \<Rightarrow> addr \<Rightarrow> nat \<Rightarrow> (heap \<times> nat) res" where
  "list_sort_pass fuel 0 h l lt a0 cnt = Inl Out_of_fuel"
| "list_sort_pass fuel (Suc n) h l lt a0 cnt =
     (if a0 \<noteq> list_end l then
        bindR (find_end_of_run fuel h lt a0 (list_end l)) (\<lambda>a1b0.
        if a1b0 = list_end l then Inr (h, Suc cnt) else
        bindR (find_end_of_run fuel h lt a1b0 (list_end l)) (\<lambda>b1.
        bindR (inplace_merge fuel h lt a0 a1b0 b1) (\<lambda>h.
        list_sort_pass fuel n h l lt b1 (Suc cnt))))
      else Inr (h, cnt))"

fun list_sort_loop :: "nat \<Rightarrow> nat \<Rightarrow> heap \<Rightarrow> list_struct \<Rightarrow> less_fun \<Rightarrow> heap res" where
  "list_sort_loop fuel 0 h l lt = Inl Out_of_fuel"
| "list_sort_loop fuel (Suc n) h l lt =
     bindR (list_begin h l) (\<lambda>a0.
     bindR (list_sort_pass fuel fuel h l lt a0 0) (\<lambda>(h, output_run_cnt).
     if output_run_cnt > 1 then list_sort_loop fuel n h l lt else Inr h))"

definition list_sort :: "nat \<Rightarrow> heap \<Rightarrow> list_struct \<Rightarrow> less_fun \<Rightarrow> heap res" where
  "list_sort fuel h l lt =
     bindR (list_sort_loop fuel fuel h l lt) (\<lambda>h.
     bindR (list_begin h l) (\<lambda>b.
     bindR (is_sorted fuel h lt b (list_end l)) (\<lambda>s. bindR (ASSERT s) (\<lambda>_. Inr h))))"

fun insert_ordered_loop ::
    "nat \<Rightarrow> heap \<Rightarrow> list_struct \<Rightarrow> less_fun \<Rightarrow> addr \<Rightarrow> addr \<Rightarrow> addr res" where
  "insert_ordered_loop 0 h l lt elem e = Inl Out_of_fuel"
| "insert_ordered_loop (Suc n) h l lt elem e =
     (if e \<noteq> list_end l then
        if lt elem e then Inr e
        else bindR (list_next h e) (\<lambda>e. insert_ordered_loop n h l lt elem e)
      else Inr e)"

definition list_insert_ordered ::
    "nat \<Rightarrow> heap \<Rightarrow> list_struct \<Rightarrow> addr \<Rightarrow> less_fun \<Rightarrow> heap res" where
  "list_insert_ordered fuel h l elem lt =
     bindR (ASSERT (elem \<noteq> NULL)) (\<lambda>_.
     bindR (list_begin h l) (\<lambda>b.
     bindR (insert_ordered_loop fuel h l lt elem b) (\<lambda>e. list_insert h e elem)))"

fun list_unique_loop ::
    "nat \<Rightarrow> heap \<Rightarrow> list_struct \<Rightarrow> list_struct option \<Rightarrow> less_fun \<Rightarrow> addr \<Rightarrow> heap res" where
  "list_unique_loop 0 h l dups lt elem = Inl Out_of_fuel"
| "list_unique_loop (Suc n) h l dups lt elem =
     bindR (list_next h elem) (\<lambda>nxt. if nxt \<noteq> list_end l then
       if \<not> lt elem nxt \<and> \<not> lt nxt elem then
         bindR (list_remove h nxt) (\<lambda>(h, _).
         bindR (case dups of None \<Rightarrow> Inr h | Some d \<Rightarrow> list_push_back h d nxt) (\<lambda>h.
         list_unique_loop n h l dups lt elem))
       else list_unique_loop n h l dups lt nxt
     else Inr h)"

definition list_unique ::
    "nat \<Rightarrow> heap \<Rightarrow> list_struct \<Rightarrow> list_struct option \<Rightarrow> less_fun \<Rightarrow> heap res" where
  "list_unique fuel h l dups lt =
     bindR (list_empty h l) (\<lambda>e. if e then Inr h else
     bindR (list_begin h l) (\<lambda>elem. list_unique_loop fuel h l dups lt elem))"

fun list_max_loop :: "nat \<Rightarrow> heap \<Rightarrow> list_struct \<Rightarrow> less_fun \<Rightarrow> addr \<Rightarrow> addr \<Rightarrow> addr res" where
  "list_max_loop 0 h l lt mx e = Inl Out_of_fuel"
| "list_max_loop (Suc n) h l lt mx e =
     (if e \<noteq> list_end l then
        bindR (list_next h e) (\<lambda>e'. list_max_loop n h l lt (if lt mx e then e else mx) e')
      else Inr mx)"

definition list_max :: "nat \<Rightarrow> heap \<Rightarrow> list_struct \<Rightarrow> less_fun \<Rightarrow> addr res" where
  "list_max fuel h l lt =
     bindR (list_begin h l) (\<lambda>mx. if mx \<noteq> list_end l then
       bindR (list_next h mx) (\<lambda>e. list_max_loop fuel h l lt mx e)
     else Inr mx)"

fun list_min_loop :: "nat \<Rightarrow> heap \<Rightarrow> list_struct \<Rightarrow> less_fun \<Rightarrow> addr \<Rightarrow> addr \<Rightarrow> addr res" where
  "list_min_loop 0 h l lt mn e = Inl Out_of_fuel"
| "list_min_loop (Suc n) h l lt mn e =
     (if e \<noteq> list_end l then
        bindR (list_next h e) (\<lambda>e'. list_min_loop n h l lt (if lt e mn then e else mn) e')
      else Inr mn)"

definition list_min :: "nat \<Rightarrow> heap \<Rightarrow> list_struct \<Rightarrow> less_fun \<Rightarrow> addr res" where
  "list_min fuel h l lt =
     bindR (list_begin h l) (\<lambda>mn. if mn \<noteq> list_end l then
       bindR (list_next h mn) (\<lambda>e. list_min_loop fuel h l lt mn e)
     else Inr mn)"

section \<open>Heap views\<close>

declare neq0_conv [iff del] bot_nat_0.not_eq_extremum [simp del]

text \<open>The two link fields as partial functions, and the effect of a store on each.\<close>

definition nxt :: "heap \<Rightarrow> addr \<rightharpoonup> addr" where
  "nxt h p = map_option elem_next (h p)"

definition prv :: "heap \<Rightarrow> addr \<rightharpoonup> addr" where
  "prv h p = map_option elem_prev (h p)"

definition upd_next :: "heap \<Rightarrow> addr \<Rightarrow> addr \<Rightarrow> heap" where
  "upd_next h p v = h(p := map_option (elem_next_update (\<lambda>_. v)) (h p))"

definition upd_prev :: "heap \<Rightarrow> addr \<Rightarrow> addr \<Rightarrow> heap" where
  "upd_prev h p v = h(p := map_option (elem_prev_update (\<lambda>_. v)) (h p))"

named_theorems heap_eval "evaluation of heap accesses"

lemma nxt_upd_next [simp]: "nxt (upd_next h p v) q = (if q = p \<and> p \<in> dom h then Some v else nxt h q)"
  by (cases "h p") (auto simp: nxt_def upd_next_def)

lemma nxt_upd_prev [simp]: "nxt (upd_prev h p v) = nxt h"
  by (auto simp: nxt_def upd_prev_def option.map_comp comp_def fun_eq_iff intro: option.map_cong)

lemma prv_upd_prev [simp]: "prv (upd_prev h p v) q = (if q = p \<and> p \<in> dom h then Some v else prv h q)"
  by (cases "h p") (auto simp: prv_def upd_prev_def)

lemma prv_upd_next [simp]: "prv (upd_next h p v) = prv h"
  by (auto simp: prv_def upd_next_def option.map_comp comp_def fun_eq_iff intro: option.map_cong)

lemma dom_upd_next [simp]: "dom (upd_next h p v) = dom h"
  by (auto simp: upd_next_def)

lemma dom_upd_prev [simp]: "dom (upd_prev h p v) = dom h"
  by (auto simp: upd_prev_def)

lemma upd_next_other [simp]: "q \<noteq> p \<Longrightarrow> upd_next h p v q = h q"
  by (simp add: upd_next_def)

lemma upd_prev_other [simp]: "q \<noteq> p \<Longrightarrow> upd_prev h p v q = h q"
  by (simp add: upd_prev_def)

lemma nxt_dom: "nxt h p = Some q \<Longrightarrow> p \<in> dom h"
  by (auto simp: nxt_def)

lemma prv_dom: "prv h p = Some q \<Longrightarrow> p \<in> dom h"
  by (auto simp: prv_def)

lemma get_next_eval [heap_eval]: "p \<noteq> NULL \<Longrightarrow> nxt h p = Some q \<Longrightarrow> get_next h p = Inr q"
  by (auto simp: get_next_def load_def nxt_def)

lemma get_prev_eval [heap_eval]: "p \<noteq> NULL \<Longrightarrow> prv h p = Some q \<Longrightarrow> get_prev h p = Inr q"
  by (auto simp: get_prev_def load_def prv_def)

lemma set_next_eval [heap_eval]:
  "p \<noteq> NULL \<Longrightarrow> p \<in> dom h \<Longrightarrow> set_next h p v = Inr (upd_next h p v)"
  by (auto simp: set_next_def load_def upd_next_def)

lemma set_prev_eval [heap_eval]:
  "p \<noteq> NULL \<Longrightarrow> p \<in> dom h \<Longrightarrow> set_prev h p v = Inr (upd_prev h p v)"
  by (auto simp: set_prev_def load_def upd_prev_def)

lemma is_head_eval [heap_eval]:
  "p \<noteq> NULL \<Longrightarrow> prv h p = Some a \<Longrightarrow> nxt h p = Some b \<Longrightarrow>
   is_head h p = Inr (a = NULL \<and> b \<noteq> NULL)"
  by (auto simp: is_head_def load_def prv_def nxt_def)

lemma is_interior_eval [heap_eval]:
  "p \<noteq> NULL \<Longrightarrow> prv h p = Some a \<Longrightarrow> nxt h p = Some b \<Longrightarrow>
   is_interior h p = Inr (a \<noteq> NULL \<and> b \<noteq> NULL)"
  by (auto simp: is_interior_def load_def prv_def nxt_def)

lemma is_tail_eval [heap_eval]:
  "p \<noteq> NULL \<Longrightarrow> prv h p = Some a \<Longrightarrow> nxt h p = Some b \<Longrightarrow>
   is_tail h p = Inr (a \<noteq> NULL \<and> b = NULL)"
  by (auto simp: is_tail_def load_def prv_def nxt_def)

lemma list_next_eval [heap_eval]:
  assumes "p \<noteq> NULL" "nxt h p = Some q" "q \<noteq> NULL"
  shows "list_next h p = Inr q"
proof -
  obtain a where "prv h p = Some a" using nxt_dom [OF assms(2)] by (auto simp: prv_def)
  then show ?thesis using assms by (cases "a = NULL") (simp_all add: list_next_def heap_eval)
qed

lemma list_prev_eval [heap_eval]:
  assumes "p \<noteq> NULL" "prv h p = Some q" "q \<noteq> NULL"
  shows "list_prev h p = Inr q"
proof -
  obtain a where "nxt h p = Some a" using prv_dom [OF assms(2)] by (auto simp: nxt_def)
  then show ?thesis using assms by (cases "a = NULL") (simp_all add: list_prev_def heap_eval)
qed

section \<open>Well-formed lists\<close>

text \<open>
  \<open>links h a b\<close>: the two nodes point at each other. \<open>dlist h ns\<close>: the nodes \<open>ns\<close>, headers included,
  are a doubly linked list, null at both ends. \<open>wf_list h l xs\<close>: the list \<open>l\<close> holds the elements
  \<open>xs\<close> in this order; it is the abstraction relation of the component.
\<close>

definition links :: "heap \<Rightarrow> addr \<Rightarrow> addr \<Rightarrow> bool" where
  "links h a b \<longleftrightarrow> nxt h a = Some b \<and> prv h b = Some a"

definition dlist :: "heap \<Rightarrow> addr list \<Rightarrow> bool" where
  "dlist h ns \<longleftrightarrow> distinct ns \<and> NULL \<notin> set ns \<and> set ns \<subseteq> dom h \<and> successively (links h) ns
     \<and> prv h (hd ns) = Some NULL \<and> nxt h (last ns) = Some NULL"

definition wf_list :: "heap \<Rightarrow> list_struct \<Rightarrow> addr list \<Rightarrow> bool" where
  "wf_list h l xs \<longleftrightarrow> dlist h (head l # xs @ [tail l])"

text \<open>A step changes only the nodes in \<open>S\<close> and maps no new address.\<close>

definition frame :: "addr set \<Rightarrow> heap \<Rightarrow> heap \<Rightarrow> bool" where
  "frame S h h' \<longleftrightarrow> dom h' = dom h \<and> (\<forall>a. a \<notin> S \<longrightarrow> h' a = h a)"

lemma frame_refl [simp]: "frame S h h"
  by (simp add: frame_def)

lemma frame_trans: "frame S h h' \<Longrightarrow> frame S h' h'' \<Longrightarrow> frame S h h''"
  by (simp add: frame_def)

lemma frame_mono: "frame S h h' \<Longrightarrow> S \<subseteq> T \<Longrightarrow> frame T h h'"
  by (auto simp: frame_def)

lemma frame_dom: "frame S h h' \<Longrightarrow> dom h' = dom h"
  by (simp add: frame_def)

lemma links_cong: "nxt h' a = nxt h a \<Longrightarrow> prv h' b = prv h b \<Longrightarrow> links h' a b = links h a b"
  by (simp add: links_def)

lemma chain_cong:
  assumes "\<And>a. a \<in> set (butlast ns) \<Longrightarrow> nxt h' a = nxt h a"
    and "\<And>b. b \<in> set (tl ns) \<Longrightarrow> prv h' b = prv h b"
  shows "successively (links h') ns \<longleftrightarrow> successively (links h) ns"
  by (rule successively_cong_links) (rule links_cong, simp_all add: assms)

lemma chain_keep:
  assumes "successively (links h) ns"
    and "\<forall>a\<in>set (butlast ns). nxt h' a = nxt h a" and "\<forall>b\<in>set (tl ns). prv h' b = prv h b"
  shows "successively (links h') ns"
  using chain_cong [of ns h' h] assms by blast

lemma in_set_tlD: "x \<in> set (tl xs) \<Longrightarrow> x \<in> set xs"
  by (cases xs) auto

lemma dlist_cong:
  assumes "frame S h h'" "S \<inter> set ns = {}" "ns \<noteq> []"
  shows "dlist h' ns \<longleftrightarrow> dlist h ns"
proof -
  have same: "h' a = h a" if "a \<in> set ns" for a
    using assms that by (auto simp: frame_def)
  then have nx: "nxt h' a = nxt h a" and pv: "prv h' a = prv h a" if "a \<in> set ns" for a
    using that by (simp_all add: nxt_def prv_def)
  have "successively (links h') ns \<longleftrightarrow> successively (links h) ns"
  proof (rule chain_cong)
    show "nxt h' a = nxt h a" if "a \<in> set (butlast ns)" for a
      using nx [OF in_set_butlastD [OF that]] .
    show "prv h' b = prv h b" if "b \<in> set (tl ns)" for b
      using pv [OF list.set_sel(2) [OF assms(3) that]] .
  qed
  then show ?thesis
    using assms nx[of "last ns"] pv[of "hd ns"] by (simp add: dlist_def frame_dom)
qed

lemma wf_list_frame:
  assumes "frame S h h'" "S \<inter> set (head l # xs @ [tail l]) = {}"
  shows "wf_list h' l xs \<longleftrightarrow> wf_list h l xs"
  unfolding wf_list_def by (rule dlist_cong [OF assms]) simp

lemma dlist_middle:
  "dlist h (as @ a # b # bs) \<Longrightarrow>
     nxt h a = Some b \<and> prv h b = Some a \<and> a \<noteq> NULL \<and> b \<noteq> NULL \<and> a \<in> dom h \<and> b \<in> dom h \<and> a \<noteq> b"
  by (auto simp: dlist_def successively_append_iff links_def)

lemma dlist_last: "dlist h (as @ [a]) \<Longrightarrow> nxt h a = Some NULL"
  by (simp add: dlist_def)

lemma dlist_hd: "dlist h (a # as) \<Longrightarrow> prv h a = Some NULL"
  by (simp add: dlist_def)

section \<open>Linking and unlinking nodes\<close>

lemma frame_upds [simp]:
  "p \<in> S \<Longrightarrow> frame S h (upd_next h' p v) \<longleftrightarrow> frame S h h'"
  "p \<in> S \<Longrightarrow> frame S h (upd_prev h' p v) \<longleftrightarrow> frame S h h'"
  by (auto simp: frame_def) (metis upd_next_other upd_prev_other)+

lemma list_insert_eval:
  assumes "b \<noteq> NULL" "prv h b = Some p" "p \<noteq> NULL" "p \<in> dom h" "e \<noteq> NULL" "e \<in> dom h" "e \<noteq> b"
  shows "list_insert h b e = Inr (upd_prev (upd_next (upd_next (upd_prev h e p) e b) p e) b e)"
proof -
  obtain n where n: "nxt h b = Some n" using prv_dom [OF assms(2)] by (auto simp: nxt_def)
  have b: "b \<in> dom h" using assms(2) by (rule prv_dom)
  show ?thesis
    using assms n b by (cases "n = NULL") (simp_all add: list_insert_def heap_eval)
qed

lemma list_remove_eval:
  assumes "e \<noteq> NULL" "prv h e = Some p" "nxt h e = Some q" "p \<noteq> NULL" "q \<noteq> NULL"
    "p \<in> dom h" "q \<in> dom h" "p \<noteq> e" "q \<noteq> e"
  shows "list_remove h e = Inr (upd_prev (upd_next h p q) q p, q)"
  using assms by (simp add: list_remove_def heap_eval)

lemma dlist_insert:
  assumes wf: "dlist h (as @ p # b # bs)"
    and e: "e \<notin> set (as @ p # b # bs)" "e \<noteq> NULL" "e \<in> dom h"
  shows "\<exists>h'. list_insert h b e = Inr h' \<and> dlist h' (as @ p # e # b # bs) \<and> frame {p, e, b} h h'"
proof -
  define h' where "h' = upd_prev (upd_next (upd_next (upd_prev h e p) e b) p e) b e"
  note m = dlist_middle [OF wf]
  have run: "list_insert h b e = Inr h'"
    using m e by (auto simp: h'_def intro!: list_insert_eval)
  have left: "successively (links h') (as @ [p])"
    and right: "successively (links h') (b # bs)"
    by (rule chain_keep [of h], use wf e in
        \<open>auto simp: h'_def dlist_def successively_append_iff dest!: in_set_butlastD in_set_tlD\<close>)+
  have "links h' p e" "links h' e b"
    using m e wf by (auto simp: links_def h'_def dlist_def)
  with left right have "successively (links h') (as @ p # e # b # bs)"
    by (auto simp: successively_append_iff)
  moreover have "prv h' (hd (as @ p # e # b # bs)) = Some NULL"
    using wf e by (cases as) (auto simp: h'_def dlist_def)
  moreover have "nxt h' (last (as @ p # e # b # bs)) = Some NULL"
    using wf e by (auto simp: h'_def dlist_def)
  ultimately have "dlist h' (as @ p # e # b # bs)"
    using wf e by (auto simp: dlist_def h'_def)
  then show ?thesis using run by (auto simp: h'_def)
qed

lemma dlist_remove:
  assumes wf: "dlist h (as @ p # e # q # bs)"
  shows "\<exists>h'. list_remove h e = Inr (h', q) \<and> dlist h' (as @ p # q # bs) \<and> frame {p, q} h h'"
proof -
  define h' where "h' = upd_prev (upd_next h p q) q p"
  note m1 = dlist_middle [of h as p e "q # bs", OF wf]
  note m2 = dlist_middle [of h "as @ [p]" e q bs]
  have m2: "nxt h e = Some q \<and> prv h q = Some e \<and> q \<noteq> NULL \<and> q \<in> dom h \<and> e \<noteq> q"
    using m2 wf by auto
  have run: "list_remove h e = Inr (h', q)"
    unfolding h'_def by (rule list_remove_eval) (use m1 m2 in auto)
  have left: "successively (links h') (as @ [p])"
    and right: "successively (links h') (q # bs)"
    by (rule chain_keep [of h], use wf in
        \<open>auto simp: h'_def dlist_def successively_append_iff dest!: in_set_butlastD in_set_tlD\<close>)+
  have "links h' p q"
    using m1 m2 by (auto simp: links_def h'_def)
  with left right have "successively (links h') (as @ p # q # bs)"
    by (auto simp: successively_append_iff)
  moreover have "prv h' (hd (as @ p # q # bs)) = Some NULL"
    using wf by (cases as) (auto simp: h'_def dlist_def)
  moreover have "nxt h' (last (as @ p # q # bs)) = Some NULL"
    using wf by (auto simp: h'_def dlist_def)
  ultimately have "dlist h' (as @ p # q # bs)"
    using wf by (auto simp: dlist_def h'_def)
  then show ?thesis using run by (auto simp: h'_def)
qed

lemma distinct_butlast_last: "distinct xs \<Longrightarrow> x \<in> set (butlast xs) \<Longrightarrow> x \<noteq> last xs"
  by (cases xs rule: rev_cases) auto

lemma distinct_tl_hd: "distinct xs \<Longrightarrow> x \<in> set (tl xs) \<Longrightarrow> x \<noteq> hd xs"
  by (cases xs) auto

lemma list_splice_eval:
  assumes "b \<noteq> NULL" "prv h b = Some p" "p \<noteq> NULL" "p \<in> dom h"
    and "prv h q = Some z" "nxt h z = Some q" "prv h f = Some y"
    and "q \<noteq> NULL" "z \<noteq> NULL" "f \<noteq> NULL" "y \<noteq> NULL" "y \<in> dom h" "f \<noteq> q" "b \<noteq> q" "b \<noteq> f" "y \<noteq> z"
    and "nxt h f = Some g" "g \<noteq> NULL" "prv h z = Some w" "w \<noteq> NULL"
  shows "list_splice h b f q =
    Inr (upd_prev (upd_next (upd_next (upd_prev (upd_prev (upd_next h y q) q y) f p) z b) p f) b z)"
proof -
  obtain n where n: "nxt h b = Some n" using prv_dom [OF assms(2)] by (auto simp: nxt_def)
  have "b \<in> dom h" "q \<in> dom h" "f \<in> dom h" "z \<in> dom h"
    using prv_dom [OF assms(2)] prv_dom [OF assms(5)] prv_dom [OF assms(7)] nxt_dom [OF assms(6)]
    by simp_all
  with n assms show ?thesis
    by (cases "n = NULL") (simp_all add: list_splice_def heap_eval)
qed

lemma dlist_nodes: "dlist h ns \<Longrightarrow> x \<in> set ns \<Longrightarrow> x \<noteq> NULL \<and> x \<in> dom h"
  by (auto simp: dlist_def dest: subsetD)

lemma dlist_block:
  assumes wf: "dlist h (as @ zs @ bs)" and "as \<noteq> []" "zs \<noteq> []" "bs \<noteq> []"
  shows "prv h (hd zs) = Some (last as)" "nxt h (last as) = Some (hd zs)"
    "nxt h (last zs) = Some (hd bs)" "prv h (hd bs) = Some (last zs)"
    "\<exists>g. nxt h (hd zs) = Some g \<and> g \<noteq> NULL" "\<exists>w. prv h (last zs) = Some w \<and> w \<noteq> NULL"
proof -
  have L: "links h (last as) (hd zs)" "links h (last zs) (hd bs)"
    using assms by (auto simp: dlist_def successively_append_iff)
  then show "prv h (hd zs) = Some (last as)" "nxt h (last as) = Some (hd zs)"
    "nxt h (last zs) = Some (hd bs)" "prv h (hd bs) = Some (last zs)"
    by (auto simp: links_def)
  have nn: "x \<noteq> NULL" if "x \<in> set (as @ zs @ bs)" for x
    using dlist_nodes [OF wf that] by simp
  show "\<exists>g. nxt h (hd zs) = Some g \<and> g \<noteq> NULL"
  proof (cases "tl zs")
    case Nil
    then have "last zs = hd zs" using assms(3) by (cases zs) auto
    then show ?thesis using L(2) assms(4) nn by (auto simp: links_def)
  next
    case (Cons g gs)
    then obtain f where zs: "zs = f # g # gs" using assms(3) by (cases zs) auto
    have "nxt h f = Some g"
      using wf by (auto simp: zs dlist_def successively_append_iff links_def)
    then show ?thesis using nn [of g] by (simp add: zs)
  qed
  show "\<exists>w. prv h (last zs) = Some w \<and> w \<noteq> NULL"
  proof (cases "butlast zs" rule: rev_cases)
    case Nil
    then have "last zs = hd zs" using assms(3) by (cases zs rule: rev_cases) auto
    then show ?thesis using L(1) assms(2) nn by (auto simp: links_def)
  next
    case (snoc ws w)
    then obtain z where zs: "zs = ws @ [w, z]" using assms(3) by (cases zs rule: rev_cases) auto
    have "prv h z = Some w"
      using wf by (auto simp: zs dlist_def successively_append_iff links_def)
    then show ?thesis using nn [of w] by (simp add: zs)
  qed
qed

text \<open>Moving a block of a list in front of an earlier element of the same list.\<close>

lemma dlist_splice:
  assumes wf: "dlist h (as @ ys @ zs @ bs)" and ne: "as \<noteq> []" "ys \<noteq> []" "zs \<noteq> []" "bs \<noteq> []"
  shows "\<exists>h'. list_splice h (hd ys) (hd zs) (hd bs) = Inr h' \<and> dlist h' (as @ zs @ ys @ bs)
     \<and> frame (set (as @ zs @ ys @ bs)) h h'"
proof -
  define p y z b f q where d: "p = last as" "y = last ys" "z = last zs" "b = hd ys" "f = hd zs" "q = hd bs"
  define h' where "h' = upd_prev (upd_next (upd_next (upd_prev (upd_prev (upd_next h y q) q y) f p) z b) p f) b z"
  have inn: "p \<in> set as" "y \<in> set ys" "z \<in> set zs" "b \<in> set ys" "f \<in> set zs" "q \<in> set bs"
    using ne by (simp_all add: d)
  have dst: "distinct (as @ ys @ zs @ bs)" using wf by (simp add: dlist_def)
  have nd: "x \<noteq> NULL \<and> x \<in> dom h" if "x \<in> set as \<union> set ys \<union> set zs \<union> set bs" for x
    using dlist_nodes [OF wf] that by simp
  note B1 = dlist_block [of h as ys "zs @ bs"] and B2 = dlist_block [of h "as @ ys" zs bs]
  have run: "list_splice h b f q = Inr h'"
  proof -
    obtain g w where "nxt h f = Some g" "g \<noteq> NULL" "prv h z = Some w" "w \<noteq> NULL"
      using B2 wf ne by (auto simp: d)
    moreover have "prv h b = Some p" "prv h q = Some z" "nxt h z = Some q" "prv h f = Some y"
      using B1 B2 wf ne by (simp_all add: d)
    moreover have "f \<noteq> q" "b \<noteq> q" "b \<noteq> f" "y \<noteq> z"
      using dst inn by auto
    ultimately show ?thesis
      unfolding h'_def by (intro list_splice_eval [where g = g and w = w]) (use nd inn in auto)
  qed
  have seg: "successively (links h) as" "successively (links h) ys"
      "successively (links h) zs" "successively (links h) bs"
    using wf by (auto simp: dlist_def successively_append_iff)
  note ups = h'_def in_set_butlastD in_set_tlD
  have keep: "successively (links h') xs"
    if "successively (links h) xs" "p \<notin> set (butlast xs)" "y \<notin> set (butlast xs)" "z \<notin> set (butlast xs)"
      "b \<notin> set (tl xs)" "f \<notin> set (tl xs)" "q \<notin> set (tl xs)" for xs
    by (rule chain_keep [OF that(1)]) (use that in \<open>auto simp: h'_def\<close>)
  have "successively (links h') as" "successively (links h') ys"
      "successively (links h') zs" "successively (links h') bs"
    using dst inn by (intro keep; auto simp: seg d dest: in_set_butlastD in_set_tlD
        distinct_butlast_last distinct_tl_hd)+
  moreover have "links h' p f" "links h' z b" "links h' y q"
    using dst inn nd by (auto simp: links_def h'_def)
  ultimately have "successively (links h') (as @ zs @ ys @ bs)"
    using ne by (simp add: successively_append_iff d)
  moreover have "prv h' (hd (as @ zs @ ys @ bs)) = Some NULL"
    using wf ne dst inn by (cases as) (auto simp: h'_def dlist_def)
  moreover have "nxt h' (last (as @ zs @ ys @ bs)) = Some NULL"
    using wf ne dst inn by (cases bs rule: rev_cases) (auto simp: h'_def dlist_def)
  ultimately have "dlist h' (as @ zs @ ys @ bs)"
    using wf dst nd by (auto simp: dlist_def h'_def)
  then show ?thesis using run inn by (auto simp: h'_def d)
qed

section \<open>Operations on well-formed lists\<close>

abbreviation nodes :: "list_struct \<Rightarrow> addr list \<Rightarrow> addr set" where
  "nodes l xs \<equiv> set (head l # xs @ [tail l])"

text \<open>An element that may be put on the list: allocated and not on it.\<close>

definition detached :: "heap \<Rightarrow> list_struct \<Rightarrow> addr list \<Rightarrow> addr \<Rightarrow> bool" where
  "detached h l xs e \<longleftrightarrow> e \<noteq> NULL \<and> e \<in> dom h \<and> e \<notin> nodes l xs"

lemma wf_list_nodes: "wf_list h l xs \<Longrightarrow> a \<in> nodes l xs \<Longrightarrow> a \<noteq> NULL \<and> a \<in> dom h"
  unfolding wf_list_def by (rule dlist_nodes)

lemma wf_list_distinct: "wf_list h l xs \<Longrightarrow> distinct (head l # xs @ [tail l])"
  by (simp add: wf_list_def dlist_def)

lemma wf_list_hd_eq_tail [simp]:
  "wf_list h l (xs @ ys) \<Longrightarrow> hd (ys @ [tail l]) = tail l \<longleftrightarrow> ys = []"
  by (cases ys) (auto dest: wf_list_distinct)

lemma wf_list_begin_eq_tail [simp]:
  "wf_list h l ys \<Longrightarrow> hd (ys @ [tail l]) = tail l \<longleftrightarrow> ys = []"
  using wf_list_hd_eq_tail [of h l "[]" ys] by simp

lemma wf_list_next:
  assumes "wf_list h l (xs @ a # ys)"
  shows "nxt h a = Some (hd (ys @ [tail l]))" "list_next h a = Inr (hd (ys @ [tail l]))"
    "prv h (hd (ys @ [tail l])) = Some a" "list_prev h (hd (ys @ [tail l])) = Inr a"
proof -
  obtain b bs where b: "ys @ [tail l] = b # bs" by (cases ys) auto
  with assms have "dlist h ((head l # xs) @ a # b # bs)" by (simp add: wf_list_def)
  note m = dlist_middle [OF this]
  then show "nxt h a = Some (hd (ys @ [tail l]))" "list_next h a = Inr (hd (ys @ [tail l]))"
    "prv h (hd (ys @ [tail l])) = Some a" "list_prev h (hd (ys @ [tail l])) = Inr a"
    by (auto simp: b heap_eval)
qed

lemma list_begin_wf:
  assumes "wf_list h l xs" shows "list_begin h l = Inr (hd (xs @ [tail l]))"
proof -
  obtain b bs where b: "xs @ [tail l] = b # bs" by (cases xs) auto
  with assms have "dlist h ([] @ head l # b # bs)" by (simp add: wf_list_def)
  from dlist_middle [OF this] show ?thesis by (simp add: b list_begin_def heap_eval)
qed

lemma list_rbegin_wf:
  assumes "wf_list h l xs" shows "get_prev h (tail l) = Inr (last (head l # xs))"
proof -
  obtain as a where a: "head l # xs = as @ [a]" by (cases "head l # xs" rule: rev_cases) auto
  then have "head l # xs @ [tail l] = as @ a # tail l # []"
    by (metis append.assoc append_Cons append_Nil)
  with assms have "dlist h (as @ a # tail l # [])" by (simp only: wf_list_def)
  from dlist_middle [OF this] show ?thesis by (simp add: a heap_eval)
qed

lemma list_empty_wf: "wf_list h l xs \<Longrightarrow> list_empty h l = Inr (xs = [])"
  by (simp add: list_empty_def list_begin_wf list_end_def)

text \<open>The two neighbours of a position of the list, whatever stands between them.\<close>

lemma list_split:
  obtains as p bs where
    "\<And>zs. head l # (xs @ zs @ ys) @ [tail l] = as @ p # zs @ hd (ys @ [tail l]) # bs"
    "{p, hd (ys @ [tail l])} \<subseteq> nodes l (xs @ ys)"
proof -
  obtain as p where p: "head l # xs = as @ [p]" by (cases "head l # xs" rule: rev_cases) auto
  obtain b bs where b: "ys @ [tail l] = b # bs" by (cases ys) auto
  have eq: "head l # (xs @ zs @ ys) @ [tail l] = as @ p # zs @ hd (ys @ [tail l]) # bs" for zs
    using p b by (metis append.assoc append_Cons append_Nil list.sel(1))
  have "{p, hd (ys @ [tail l])} \<subseteq> set (as @ p # hd (ys @ [tail l]) # bs)" by simp
  also have "\<dots> = nodes l (xs @ ys)" by (metis eq [of "[]"] append_Nil)
  finally show thesis using that [OF eq] by blast
qed

lemma list_insert_wf:
  assumes wf: "wf_list h l (xs @ ys)" and e: "detached h l (xs @ ys) e"
  shows "\<exists>h'. list_insert h (hd (ys @ [tail l])) e = Inr h' \<and> wf_list h' l (xs @ e # ys)
     \<and> frame (insert e (nodes l (xs @ ys))) h h'"
proof -
  obtain as p bs where eq: "\<And>zs. head l # (xs @ zs @ ys) @ [tail l] = as @ p # zs @ hd (ys @ [tail l]) # bs"
      and sub: "{p, hd (ys @ [tail l])} \<subseteq> nodes l (xs @ ys)"
    using list_split [of l xs ys] by metis
  have eq0: "head l # (xs @ ys) @ [tail l] = as @ p # hd (ys @ [tail l]) # bs"
    using eq [of "[]"] by (simp only: append_Nil)
  have "dlist h (as @ p # hd (ys @ [tail l]) # bs)" using wf by (simp only: wf_list_def eq0)
  moreover have "e \<notin> set (as @ p # hd (ys @ [tail l]) # bs)"
    using e by (simp only: detached_def eq0 not_False_eq_True)
  ultimately obtain h' where h': "list_insert h (hd (ys @ [tail l])) e = Inr h'"
      "dlist h' (as @ p # e # hd (ys @ [tail l]) # bs)" "frame {p, e, hd (ys @ [tail l])} h h'"
    using dlist_insert e by (metis detached_def)
  have "wf_list h' l (xs @ e # ys)" using h'(2) eq [of "[e]"] by (simp add: wf_list_def)
  moreover have "frame (insert e (nodes l (xs @ ys))) h h'"
    by (rule frame_mono [OF h'(3)]) (use sub in auto)
  ultimately show ?thesis using h'(1) by blast
qed

lemma list_remove_wf:
  assumes wf: "wf_list h l (xs @ e # ys)"
  shows "\<exists>h'. list_remove h e = Inr (h', hd (ys @ [tail l])) \<and> wf_list h' l (xs @ ys)
     \<and> frame (nodes l (xs @ ys)) h h'"
proof -
  obtain as p bs where eq: "\<And>zs. head l # (xs @ zs @ ys) @ [tail l] = as @ p # zs @ hd (ys @ [tail l]) # bs"
      and sub: "{p, hd (ys @ [tail l])} \<subseteq> nodes l (xs @ ys)"
    using list_split [of l xs ys] by metis
  have "dlist h (as @ p # e # hd (ys @ [tail l]) # bs)"
    using wf eq [of "[e]"] by (simp add: wf_list_def)
  from dlist_remove [OF this] obtain h' where h': "list_remove h e = Inr (h', hd (ys @ [tail l]))"
      "dlist h' (as @ p # hd (ys @ [tail l]) # bs)" "frame {p, hd (ys @ [tail l])} h h'" by blast
  have "wf_list h' l (xs @ ys)" using h'(2) eq [of "[]"] by (simp add: wf_list_def)
  then show ?thesis using h'(1) frame_mono [OF h'(3) sub] by blast
qed

lemma list_init_wf:
  assumes "head l \<noteq> NULL" "tail l \<noteq> NULL" "head l \<noteq> tail l" "head l \<in> dom h" "tail l \<in> dom h"
  shows "\<exists>h'. list_init h l = Inr h' \<and> wf_list h' l [] \<and> frame {head l, tail l} h h'"
  using assms by (simp add: list_init_def heap_eval wf_list_def dlist_def links_def)

lemma list_push_back_wf:
  "wf_list h l xs \<Longrightarrow> detached h l xs e \<Longrightarrow>
   \<exists>h'. list_push_back h l e = Inr h' \<and> wf_list h' l (xs @ [e]) \<and> frame (insert e (nodes l xs)) h h'"
  using list_insert_wf [of h l xs "[]" e] by (simp add: list_push_back_def list_end_def)

lemma list_push_front_wf:
  "wf_list h l xs \<Longrightarrow> detached h l xs e \<Longrightarrow>
   \<exists>h'. list_push_front h l e = Inr h' \<and> wf_list h' l (e # xs) \<and> frame (insert e (nodes l xs)) h h'"
  using list_insert_wf [of h l "[]" xs e] by (simp add: list_push_front_def list_begin_wf)

lemma list_front_wf: "wf_list h l (x # xs) \<Longrightarrow> list_front h l = Inr x"
  using list_begin_wf [of h l "x # xs"]
  by (simp add: list_front_def list_empty_wf list_begin_def)

lemma list_back_wf: "wf_list h l (xs @ [x]) \<Longrightarrow> list_back h l = Inr x"
  using list_rbegin_wf [of h l "xs @ [x]"] by (simp add: list_back_def list_empty_wf)

lemma list_front_empty: "wf_list h l [] \<Longrightarrow> list_front h l = Inl Assertion_failure"
  by (simp add: list_front_def list_empty_wf)

lemma list_pop_front_wf:
  "wf_list h l (x # xs) \<Longrightarrow>
   \<exists>h'. list_pop_front h l = Inr (h', x) \<and> wf_list h' l xs \<and> frame (nodes l xs) h h'"
  using list_remove_wf [of h l "[]" x xs] by (auto simp: list_pop_front_def list_front_wf)

lemma list_pop_front_empty: "wf_list h l [] \<Longrightarrow> list_pop_front h l = Inl Assertion_failure"
  by (simp add: list_pop_front_def list_front_empty)

lemma list_pop_back_wf:
  "wf_list h l (xs @ [x]) \<Longrightarrow>
   \<exists>h'. list_pop_back h l = Inr (h', x) \<and> wf_list h' l xs \<and> frame (nodes l xs) h h'"
  using list_remove_wf [of h l xs x "[]"] by (auto simp: list_pop_back_def list_back_wf)

text \<open>
  Induction along a traversal: \<open>xs\<close> has been visited, the cursor is at the first element of \<open>ys\<close>
  (or at the tail), and \<open>n\<close> iterations may still run.
\<close>

lemma list_traverse [consumes 2, case_names finish advance]:
  assumes "wf_list h l (xs @ ys)" "length ys < n"
    and "\<And>xs n. wf_list h l xs \<Longrightarrow> P xs [] (Suc n)"
    and "\<And>xs y ys n. \<lbrakk>wf_list h l (xs @ y # ys); y \<noteq> tail l; length ys < n;
           list_next h y = Inr (hd (ys @ [tail l])); list_prev h (hd (ys @ [tail l])) = Inr y;
           P (xs @ [y]) ys n\<rbrakk> \<Longrightarrow> P xs (y # ys) (Suc n)"
  shows "P xs ys n"
  using assms(1,2)
proof (induction ys arbitrary: xs n)
  case Nil
  then show ?case by (cases n) (simp_all add: assms(3))
next
  case (Cons y ys)
  then obtain m where n: "n = Suc m" "length ys < m" by (cases n) auto
  have "y \<noteq> tail l" using wf_list_hd_eq_tail [OF Cons.prems(1)] by simp
  moreover have "P (xs @ [y]) ys m"
    by (rule Cons.IH) (use Cons.prems n in simp_all)
  ultimately show ?case
    using wf_list_next(2,4) [OF Cons.prems(1)] Cons.prems n by (auto intro: assms(4))
qed

lemma list_size_loop_wf:
  assumes "wf_list h l (xs @ ys)" "length ys < n"
  shows "list_size_loop n h l (hd (ys @ [tail l])) cnt = Inr (cnt + length ys)"
  using assms by (induction arbitrary: cnt rule: list_traverse) (simp_all add: list_end_def)

lemma list_size_wf: "wf_list h l xs \<Longrightarrow> length xs < fuel \<Longrightarrow> list_size fuel h l = Inr (length xs)"
  using list_size_loop_wf [of h l "[]" xs fuel 0] by (simp add: list_size_def list_begin_wf)

section \<open>The queue interface\<close>

text \<open>
  What the scheduler, the semaphores and the frame table rely on: appending at the back and
  taking from the front. \<open>rep h q xs\<close> says that queue \<open>q\<close> holds \<open>xs\<close> in heap \<open>h\<close>;
  \<open>addable\<close> is the proviso of an insertion.
\<close>

fun enq_all :: "('h \<Rightarrow> 'q \<Rightarrow> 'e \<Rightarrow> 'h res) \<Rightarrow> 'h \<Rightarrow> 'q \<Rightarrow> 'e list \<Rightarrow> 'h res" where
  "enq_all enq h q [] = Inr h"
| "enq_all enq h q (e # es) = bindR (enq h q e) (\<lambda>h. enq_all enq h q es)"

fun deq_many :: "('h \<Rightarrow> 'q \<Rightarrow> ('h \<times> 'e) res) \<Rightarrow> nat \<Rightarrow> 'h \<Rightarrow> 'q \<Rightarrow> ('h \<times> 'e list) res" where
  "deq_many deq 0 h q = Inr (h, [])"
| "deq_many deq (Suc n) h q =
     bindR (deq h q) (\<lambda>(h, e). bindR (deq_many deq n h q) (\<lambda>(h, es). Inr (h, e # es)))"

locale kernel_queue =
  fixes rep :: "'h \<Rightarrow> 'q \<Rightarrow> 'e list \<Rightarrow> bool"
    and addable :: "'h \<Rightarrow> 'q \<Rightarrow> 'e list \<Rightarrow> 'e \<Rightarrow> bool"
    and enq :: "'h \<Rightarrow> 'q \<Rightarrow> 'e \<Rightarrow> 'h res"
    and deq :: "'h \<Rightarrow> 'q \<Rightarrow> ('h \<times> 'e) res"
  assumes enq_rep: "rep h q xs \<Longrightarrow> addable h q xs e \<Longrightarrow>
      \<exists>h'. enq h q e = Inr h' \<and> rep h' q (xs @ [e]) \<and>
        (\<forall>x. x \<noteq> e \<longrightarrow> addable h q xs x \<longrightarrow> addable h' q (xs @ [e]) x)"
    and deq_rep: "rep h q (x # xs) \<Longrightarrow> \<exists>h'. deq h q = Inr (h', x) \<and> rep h' q xs"
    and deq_empty: "rep h q [] \<Longrightarrow> \<exists>f. deq h q = Inl f"
begin

lemma enq_all_rep:
  "rep h q xs \<Longrightarrow> distinct es \<Longrightarrow> (\<And>e. e \<in> set es \<Longrightarrow> addable h q xs e) \<Longrightarrow>
   \<exists>h'. enq_all enq h q es = Inr h' \<and> rep h' q (xs @ es)"
proof (induction es arbitrary: h xs)
  case Nil
  then show ?case by simp
next
  case (Cons e es)
  from enq_rep [OF Cons.prems(1)] Cons.prems(3) obtain h1 where
    h1: "enq h q e = Inr h1" "rep h1 q (xs @ [e])"
      "\<And>x. x \<noteq> e \<Longrightarrow> addable h q xs x \<Longrightarrow> addable h1 q (xs @ [e]) x"
    by (metis list.set_intros(1))
  have "\<exists>h'. enq_all enq h1 q es = Inr h' \<and> rep h' q ((xs @ [e]) @ es)"
  proof (rule Cons.IH)
    show "addable h1 q (xs @ [e]) x" if "x \<in> set es" for x
      using that Cons.prems(2,3) by (intro h1(3)) auto
  qed (use Cons.prems h1 in auto)
  then show ?case using h1(1) by simp
qed

lemma deq_many_rep:
  "rep h q (es @ ys) \<Longrightarrow> \<exists>h'. deq_many deq (length es) h q = Inr (h', es) \<and> rep h' q ys"
proof (induction es arbitrary: h)
  case Nil
  then show ?case by simp
next
  case (Cons e es)
  from deq_rep [of h q e "es @ ys"] Cons.prems obtain h1 where
    "deq h q = Inr (h1, e)" "rep h1 q (es @ ys)" by auto
  with Cons.IH show ?case by fastforce
qed

lemma fifo:
  assumes "rep h q xs" "distinct es" "\<And>e. e \<in> set es \<Longrightarrow> addable h q xs e"
  shows "\<exists>h1 h2. enq_all enq h q es = Inr h1 \<and>
     deq_many deq (length xs + length es) h1 q = Inr (h2, xs @ es) \<and> rep h2 q []"
  using enq_all_rep [OF assms] deq_many_rep [of _ q "xs @ es" "[]"] by auto

end

interpretation klist: kernel_queue wf_list detached list_push_back list_pop_front
proof
  fix h l xs e
  assume "wf_list h l xs" and e: "detached h l xs e"
  from list_push_back_wf [OF this] obtain h' where h': "list_push_back h l e = Inr h'"
    "wf_list h' l (xs @ [e])" "frame (insert e (nodes l xs)) h h'" by blast
  then show "\<exists>h'. list_push_back h l e = Inr h' \<and> wf_list h' l (xs @ [e]) \<and>
      (\<forall>x. x \<noteq> e \<longrightarrow> detached h l xs x \<longrightarrow> detached h' l (xs @ [e]) x)"
    using frame_dom [OF h'(3)] by (auto simp: detached_def)
next
  show "wf_list h l (x # xs) \<Longrightarrow> \<exists>h'. list_pop_front h l = Inr (h', x) \<and> wf_list h' l xs" for h l x xs
    using list_pop_front_wf by blast
next
  show "wf_list h l [] \<Longrightarrow> \<exists>f. list_pop_front h l = Inl f" for h l
    using list_pop_front_empty by blast
qed

section \<open>Comparison functions\<close>

text \<open>
  The contract of a \<open>list_less_func\<close> (\<^verbatim>\<open>lib/kernel/list.h\<close>): a strict weak order. Two elements
  neither of which is less are equal for the list functions.
\<close>

locale strict_weak_order =
  fixes lt :: "'a \<Rightarrow> 'a \<Rightarrow> bool"
  assumes asym: "lt a b \<Longrightarrow> \<not> lt b a"
    and negtrans: "\<not> lt a b \<Longrightarrow> \<not> lt b c \<Longrightarrow> \<not> lt a c"
begin

lemma irrefl: "\<not> lt a a"
  using asym by blast

lemma lt_trans: "lt a b \<Longrightarrow> lt b c \<Longrightarrow> lt a c"
  using asym negtrans by blast

lemma lt_negtrans1: "lt a b \<Longrightarrow> \<not> lt c b \<Longrightarrow> lt a c"
  using negtrans by blast

lemma sorted_adjacent:
  "successively (\<lambda>a b. \<not> lt b a) xs \<Longrightarrow> sorted_wrt (\<lambda>a b. \<not> lt b a) xs"
proof (induction xs rule: induct_list012)
  case (3 x y zs)
  then have "sorted_wrt (\<lambda>a b. \<not> lt b a) (y # zs)" "\<not> lt y x" by simp_all
  then show ?case using negtrans [of _ y x] by auto
qed simp_all

lemma behind_greater:
  assumes "sorted_wrt (\<lambda>a b. \<not> lt b a) xs"
  shows "\<forall>v\<in>set (dropWhile (\<lambda>x. \<not> lt e x) xs). lt e v"
  using assms
proof (induction xs)
  case (Cons x xs)
  show ?case
  proof (cases "lt e x")
    case True
    then have "lt e z" if "z \<in> set xs" for z using that Cons.prems by (simp add: lt_negtrans1 [OF True])
    with True show ?thesis by simp
  next
    case False
    have "sorted_wrt (\<lambda>a b. \<not> lt b a) xs" using Cons.prems by simp
    from Cons.IH [OF this] show ?thesis by (simp only: dropWhile.simps False not_False_eq_True if_True)
  qed
qed simp

lemma sorted_insert:
  assumes "sorted_wrt (\<lambda>a b. \<not> lt b a) xs"
  shows "sorted_wrt (\<lambda>a b. \<not> lt b a)
     (takeWhile (\<lambda>x. \<not> lt e x) xs @ e # dropWhile (\<lambda>x. \<not> lt e x) xs)"
  using assms
proof (induction xs)
  case (Cons x xs)
  show ?case
  proof (cases "lt e x")
    case True
    then have "\<not> lt z e" if "z \<in> set xs" for z
      using that Cons.prems by (auto dest: lt_trans)
    with True Cons.prems show ?thesis by (auto dest: asym)
  next
    case False
    moreover have "\<not> lt z x" if "z \<in> set (takeWhile (\<lambda>x. \<not> lt e x) xs) \<union> set (dropWhile (\<lambda>x. \<not> lt e x) xs)" for z
      using that Cons.prems by (auto dest: set_takeWhileD set_dropWhileD)
    ultimately show ?thesis using Cons by auto
  qed
qed simp

end

end
