(* ===== verification/Kernel_List_Order.thy ===== *)
theory Kernel_List_Order
  imports Kernel_List "HOL-Library.Sublist"
begin

text \<open>
  The list functions that compare elements (\<open>list_max\<close>, \<open>list_min\<close>, \<open>list_insert_ordered\<close>,
  \<open>list_unique\<close>, \<open>list_sort\<close>) and \<open>list_reverse\<close>: each pointer loop of \<open>Kernel_List\<close> computes a
  function on the list of elements, and under the contract of a comparison function that function
  has the documented result.
\<close>

section \<open>Maximum, minimum, ordered insertion\<close>

lemma list_max_loop_wf:
  assumes "wf_list h l (xs @ ys)" "length ys < n"
  shows "list_max_loop n h l lt m (hd (ys @ [tail l]))
     = Inr (foldl (\<lambda>m e. if lt m e then e else m) m ys)"
  using assms by (induction arbitrary: m rule: list_traverse) (simp_all add: list_end_def)

lemma list_min_loop_wf:
  assumes "wf_list h l (xs @ ys)" "length ys < n"
  shows "list_min_loop n h l lt m (hd (ys @ [tail l]))
     = Inr (foldl (\<lambda>m e. if lt e m then e else m) m ys)"
  using assms by (induction arbitrary: m rule: list_traverse) (simp_all add: list_end_def)

lemma list_max_wf:
  assumes "wf_list h l (x # xs)" "length xs < fuel"
  shows "list_max fuel h l lt = Inr (foldl (\<lambda>m e. if lt m e then e else m) x xs)"
proof -
  have wf: "wf_list h l ([] @ x # xs)" using assms(1) by simp
  have "list_max_loop fuel h l lt x (hd (xs @ [tail l])) = Inr (foldl (\<lambda>m e. if lt m e then e else m) x xs)"
    by (rule list_max_loop_wf [of h l "[x]"]) (use assms in simp_all)
  then show ?thesis
    using list_begin_wf [OF assms(1)] wf_list_next(2) [OF wf] wf_list_hd_eq_tail [OF wf]
    by (simp add: list_max_def list_end_def)
qed

lemma list_min_wf:
  assumes "wf_list h l (x # xs)" "length xs < fuel"
  shows "list_min fuel h l lt = Inr (foldl (\<lambda>m e. if lt e m then e else m) x xs)"
proof -
  have wf: "wf_list h l ([] @ x # xs)" using assms(1) by simp
  have "list_min_loop fuel h l lt x (hd (xs @ [tail l])) = Inr (foldl (\<lambda>m e. if lt e m then e else m) x xs)"
    by (rule list_min_loop_wf [of h l "[x]"]) (use assms in simp_all)
  then show ?thesis
    using list_begin_wf [OF assms(1)] wf_list_next(2) [OF wf] wf_list_hd_eq_tail [OF wf]
    by (simp add: list_min_def list_end_def)
qed

context strict_weak_order
begin

lemma foldl_max_first:
  "\<exists>ys zs. m # xs = ys @ foldl (\<lambda>m e. if lt m e then e else m) m xs # zs
     \<and> (\<forall>y\<in>set ys. lt y (foldl (\<lambda>m e. if lt m e then e else m) m xs))
     \<and> (\<forall>z\<in>set zs. \<not> lt (foldl (\<lambda>m e. if lt m e then e else m) m xs) z)"
proof (induction xs rule: rev_induct)
  case Nil
  show ?case by (intro exI [of _ "[]"]) simp
next
  case (snoc x xs)
  define r where "r = foldl (\<lambda>m e. if lt m e then e else m) m xs"
  from snoc obtain ys zs where IH: "m # xs = ys @ r # zs" "\<forall>y\<in>set ys. lt y r" "\<forall>z\<in>set zs. \<not> lt r z"
    by (auto simp: r_def)
  show ?case
  proof (cases "lt r x")
    case True
    have "lt y x" if "y \<in> set (ys @ r # zs)" for y
      using that True IH(2,3) by (auto intro: lt_trans lt_negtrans1 [of r] dest: negtrans)
    with IH(1) True show ?thesis
      by (intro exI [of _ "ys @ r # zs"] exI [of _ "[]"]) (auto simp: r_def [symmetric])
  next
    case False
    with IH show ?thesis
      by (intro exI [of _ ys] exI [of _ "zs @ [x]"]) (auto simp: r_def [symmetric])
  qed
qed

text \<open>The reversed order satisfies the same contract, which turns maxima into minima.\<close>

sublocale dual: strict_weak_order "\<lambda>a b. lt b a"
  by unfold_locales (use asym negtrans in blast)+

lemmas foldl_min_first = dual.foldl_max_first

end

lemma insert_ordered_loop_wf:
  assumes "wf_list h l (xs @ ys)" "length ys < n"
  shows "insert_ordered_loop n h l lt elem (hd (ys @ [tail l]))
     = Inr (hd (dropWhile (\<lambda>x. \<not> lt elem x) ys @ [tail l]))"
  using assms by (induction rule: list_traverse) (simp_all add: list_end_def)

lemma list_insert_ordered_wf:
  assumes wf: "wf_list h l xs" and "detached h l xs e" "length xs < fuel"
  shows "\<exists>h'. list_insert_ordered fuel h l e lt = Inr h' \<and>
     wf_list h' l (takeWhile (\<lambda>x. \<not> lt e x) xs @ e # dropWhile (\<lambda>x. \<not> lt e x) xs) \<and>
     frame (insert e (nodes l xs)) h h'"
proof -
  let ?ys = "takeWhile (\<lambda>x. \<not> lt e x) xs" and ?zs = "dropWhile (\<lambda>x. \<not> lt e x) xs"
  have "\<exists>h'. list_insert h (hd (?zs @ [tail l])) e = Inr h' \<and> wf_list h' l (?ys @ e # ?zs) \<and> frame (insert e (nodes l xs)) h h'"
    using list_insert_wf [of h l ?ys ?zs e] assms by auto
  moreover have "insert_ordered_loop fuel h l lt e (hd (xs @ [tail l])) = Inr (hd (?zs @ [tail l]))"
    using insert_ordered_loop_wf [of h l "[]" xs fuel lt e] assms by simp
  moreover have "e \<noteq> NULL" using assms by (simp add: detached_def)
  ultimately show ?thesis
    using list_begin_wf [OF wf] by (auto simp: list_insert_ordered_def)
qed

section \<open>Removing duplicates\<close>

text \<open>The elements kept after \<open>x\<close>, and the ones removed, in order.\<close>

fun uniq_from :: "less_fun \<Rightarrow> addr \<Rightarrow> addr list \<Rightarrow> addr list \<times> addr list" where
  "uniq_from lt x [] = ([], [])"
| "uniq_from lt x (y # ys) =
     (if \<not> lt x y \<and> \<not> lt y x then (let (k, d) = uniq_from lt x ys in (k, y # d))
      else (let (k, d) = uniq_from lt y ys in (y # k, d)))"

text \<open>The list of duplicates, when there is one, is a list apart from the one traversed.\<close>

definition dups_rep :: "heap \<Rightarrow> list_struct \<Rightarrow> addr list \<Rightarrow> list_struct option \<Rightarrow> addr list \<Rightarrow> bool" where
  "dups_rep h l xs dups ds \<longleftrightarrow> (case dups of None \<Rightarrow> True
     | Some d \<Rightarrow> wf_list h d ds \<and> nodes l xs \<inter> nodes d ds = {})"

lemma unique_step:
  assumes wf: "wf_list h l (xs @ y # ys)" and d: "dups_rep h l (xs @ y # ys) dups ds"
  shows "\<exists>h1 h2. list_remove h y = Inr (h1, hd (ys @ [tail l])) \<and>
     (case dups of None \<Rightarrow> Inr h1 | Some d \<Rightarrow> list_push_back h1 d y) = Inr h2 \<and>
     wf_list h2 l (xs @ ys) \<and> dups_rep h2 l (xs @ ys) dups (ds @ [y])"
proof -
  obtain h1 where h1: "list_remove h y = Inr (h1, hd (ys @ [tail l]))" "wf_list h1 l (xs @ ys)"
      "frame (nodes l (xs @ ys)) h h1"
    using list_remove_wf [OF wf] by blast
  show ?thesis
  proof (cases dups)
    case None
    then show ?thesis using h1 by (simp add: dups_rep_def)
  next
    case (Some dl)
    with d have dl: "wf_list h dl ds" "nodes l (xs @ y # ys) \<inter> nodes dl ds = {}"
      by (simp_all add: dups_rep_def)
    have "wf_list h1 dl ds"
      by (rule wf_list_frame [OF h1(3), THEN iffD2]) (use dl in auto)
    moreover have "detached h1 dl ds y"
      using wf_list_nodes [OF wf, of y] dl(2) frame_dom [OF h1(3)] by (auto simp: detached_def)
    ultimately obtain h2 where h2: "list_push_back h1 dl y = Inr h2" "wf_list h2 dl (ds @ [y])"
        "frame (insert y (nodes dl ds)) h1 h2"
      using list_push_back_wf by blast
    have "y \<notin> nodes l (xs @ ys)" using wf_list_distinct [OF wf] by auto
    then have "wf_list h2 l (xs @ ys)" and "nodes l (xs @ ys) \<inter> nodes dl (ds @ [y]) = {}"
      using dl h1(2) by (auto intro!: wf_list_frame [OF h2(3), THEN iffD2])
    then show ?thesis using h1 h2 Some by (simp add: dups_rep_def)
  qed
qed

lemma list_unique_loop_wf:
  "wf_list h l (xs @ x # ys) \<Longrightarrow> dups_rep h l (xs @ x # ys) dups ds \<Longrightarrow> length ys < n \<Longrightarrow>
   \<exists>h'. list_unique_loop n h l dups lt x = Inr h' \<and>
     wf_list h' l (xs @ x # fst (uniq_from lt x ys)) \<and>
     dups_rep h' l (xs @ x # fst (uniq_from lt x ys)) dups (ds @ snd (uniq_from lt x ys))"
proof (induction ys arbitrary: xs x h ds n)
  case Nil
  then obtain m where "n = Suc m" by (cases n) auto
  then show ?case using wf_list_next(2) [OF Nil(1)] Nil by (simp add: list_end_def)
next
  case (Cons y ys)
  obtain m where n: "n = Suc m" "length ys < m" using Cons.prems(3) by (cases n) auto
  have nx: "list_next h x = Inr y" using wf_list_next(2) [OF Cons.prems(1)] by simp
  have "y \<noteq> tail l" using wf_list_distinct [OF Cons.prems(1)] by auto
  note loop = nx this
  show ?case
  proof (cases "\<not> lt x y \<and> \<not> lt y x")
    case True
    have "\<exists>h1 h2. list_remove h y = Inr (h1, hd (ys @ [tail l])) \<and>
       (case dups of None \<Rightarrow> Inr h1 | Some d \<Rightarrow> list_push_back h1 d y) = Inr h2 \<and>
       wf_list h2 l (xs @ x # ys) \<and> dups_rep h2 l (xs @ x # ys) dups (ds @ [y])"
      using unique_step [of h l "xs @ [x]" y ys dups ds] Cons.prems by simp
    then obtain h1 h2 where s: "list_remove h y = Inr (h1, hd (ys @ [tail l]))"
       "(case dups of None \<Rightarrow> Inr h1 | Some d \<Rightarrow> list_push_back h1 d y) = Inr h2"
       "wf_list h2 l (xs @ x # ys)" "dups_rep h2 l (xs @ x # ys) dups (ds @ [y])" by blast
    from Cons.IH [OF s(3,4) n(2)] True s(1,2) loop show ?thesis
      by (cases dups) (auto simp: n list_end_def split_beta)
  next
    case False
    have "wf_list h l ((xs @ [x]) @ y # ys)" "dups_rep h l ((xs @ [x]) @ y # ys) dups ds"
      using Cons.prems by simp_all
    from Cons.IH [OF this n(2)] False loop show ?thesis
      by (auto simp: n list_end_def split_beta)
  qed
qed

text \<open>What the two results of \<open>uniq_from\<close> are.\<close>

lemma uniq_from_mset: "mset (fst (uniq_from lt x ys)) + mset (snd (uniq_from lt x ys)) = mset ys"
  by (induction ys arbitrary: x) (auto simp: split_beta)

lemma uniq_from_adjacent:
  "successively (\<lambda>a b. lt a b \<or> lt b a) (x # fst (uniq_from lt x ys))"
  by (induction ys arbitrary: x) (auto simp: split_beta)

lemma uniq_from_subseq:
  "subseq (fst (uniq_from lt x ys)) ys \<and> subseq (snd (uniq_from lt x ys)) ys"
  by (induction ys arbitrary: x) (auto simp: split_beta)

section \<open>Reversal\<close>

definition swap_links :: "addr set \<Rightarrow> heap \<Rightarrow> heap" where
  "swap_links S h p = (if p \<in> S then map_option (\<lambda>e. \<lparr>elem_prev = elem_next e, elem_next = elem_prev e\<rparr>) (h p)
     else h p)"

lemma swap_links_views [simp]:
  "nxt (swap_links S h) p = (if p \<in> S then prv h p else nxt h p)"
  "prv (swap_links S h) p = (if p \<in> S then nxt h p else prv h p)"
  "dom (swap_links S h) = dom h"
  by (auto simp: nxt_def prv_def swap_links_def option.map_comp comp_def split: if_splits)

lemma swap_cells_eval:
  assumes "e \<noteq> NULL" "e \<in> dom h" "e \<notin> S"
  shows "swap_cells (swap_links S h) (Prev_of e) (Next_of e) = Inr (swap_links (insert e S) h)"
proof -
  obtain x where "h e = Some x" using assms by auto
  with assms show ?thesis
    by (auto simp: swap_cells_def get_prev_def get_next_def set_prev_def set_next_def load_def
        swap_links_def fun_eq_iff)
qed

lemma list_reverse_loop_wf:
  assumes "wf_list h l (xs @ ys)" "length ys < n"
  shows "list_reverse_loop n (swap_links (set xs) h) l (hd (ys @ [tail l]))
    = Inr (swap_links (set (xs @ ys)) h)"
  using assms
proof (induction rule: list_traverse)
  case (finish xs n)
  then show ?case by (simp add: list_end_def)
next
  case (advance xs y ys n)
  have y: "y \<noteq> NULL" "y \<in> dom h" "y \<notin> set xs"
    using wf_list_nodes [OF advance(1), of y] wf_list_distinct [OF advance(1)] by auto
  have "nxt h y = Some (hd (ys @ [tail l]))" by (rule wf_list_next [OF advance(1)])
  then have "get_prev (swap_links (insert y (set xs)) h) y = Inr (hd (ys @ [tail l]))"
    using y by (simp add: heap_eval)
  with advance y show ?case
    by (simp add: list_end_def swap_cells_eval)
qed

lemma swap_cells_heads:
  assumes "a \<noteq> NULL" "b \<noteq> NULL" "nxt h a = Some x" "prv h b = Some y"
  shows "swap_cells h (Next_of a) (Prev_of b) = Inr (upd_prev (upd_next h a y) b x)"
  using assms nxt_dom [OF assms(3)] prv_dom [OF assms(4)] by (simp add: swap_cells_def heap_eval)

lemma swap_cells_ends:
  assumes "a \<noteq> NULL" "b \<noteq> NULL" "prv h a = Some x" "nxt h b = Some y"
  shows "swap_cells h (Prev_of a) (Next_of b) = Inr (upd_next (upd_prev h a y) b x)"
  using assms prv_dom [OF assms(3)] nxt_dom [OF assms(4)] by (simp add: swap_cells_def heap_eval)

lemma list_reverse_wf:
  assumes wf: "wf_list h l xs" and fuel: "length xs < fuel"
  shows "\<exists>h'. list_reverse fuel h l = Inr h' \<and> wf_list h' l (rev xs) \<and> frame (nodes l xs) h h'"
proof (cases "xs = []")
  case True
  then show ?thesis using wf by (simp add: list_reverse_def list_empty_wf)
next
  case ne: False
  define H T f z where d: "H = head l" "T = tail l" "f = hd xs" "z = last xs"
  define h1 where "h1 = swap_links (set xs) h"
  define h2 where "h2 = upd_prev (upd_next h1 H z) T f"
  define h3 where "h3 = upd_next (upd_prev h2 z H) f T"
  have dl: "dlist h ([H] @ xs @ [T])" using wf by (simp add: wf_list_def d)
  have dst: "H \<notin> set xs" "T \<notin> set xs" "H \<noteq> T" "distinct xs" "f \<in> set xs" "z \<in> set xs"
    using wf_list_distinct [OF wf] ne by (auto simp: d)
  have nd: "x \<noteq> NULL \<and> x \<in> dom h" if "x \<in> insert H (insert T (set xs))" for x
    using wf_list_nodes [OF wf] that by (simp add: d)
  have vw: "prv h f = Some H" "nxt h H = Some f" "nxt h z = Some T" "prv h T = Some z"
    using dlist_block [OF dl] ne by (auto simp: d)
  have loop: "list_reverse_loop fuel h l (hd (xs @ [T])) = Inr h1"
    using list_reverse_loop_wf [of h l "[]" xs fuel] wf fuel
    by (simp add: h1_def d swap_links_def [abs_def])
  have s2: "swap_cells h1 (Next_of H) (Prev_of T) = Inr h2"
    unfolding h2_def by (rule swap_cells_heads) (use nd vw dst in \<open>auto simp: h1_def\<close>)
  have g: "get_next h2 H = Inr z" "get_prev h2 T = Inr f"
    using nd dst by (auto simp: h2_def h1_def heap_eval)
  have s3: "swap_cells h2 (Prev_of z) (Next_of f) = Inr h3"
    unfolding h3_def by (rule swap_cells_ends) (use nd vw dst in \<open>auto simp: h2_def h1_def\<close>)
  have run: "list_reverse fuel h l = Inr h3"
    using ne wf loop s2 s3 g list_begin_wf [OF wf]
    by (simp add: list_reverse_def list_empty_wf d [symmetric])
  have "successively (links h) xs"
    using dl ne by (auto simp: dlist_def successively_Cons successively_append_iff)
  then have "successively (links h1) (rev xs)"
    unfolding successively_rev
    by (rule successively_mono) (auto simp: links_def h1_def)
  then have "successively (links h3) (rev xs)"
  proof (rule chain_keep)
    have "f \<notin> set (butlast (rev xs))" "H \<notin> set (butlast (rev xs))"
      using dst ne by (auto simp: d butlast_rev dest: distinct_tl_hd in_set_tlD)
    then show "\<forall>a\<in>set (butlast (rev xs)). nxt h3 a = nxt h1 a"
      by (auto simp: h3_def h2_def)
    have "z \<notin> set (tl (rev xs))" "T \<notin> set (tl (rev xs))"
      using dst ne by (cases xs rule: rev_cases; auto simp: d)+
    then show "\<forall>a\<in>set (tl (rev xs)). prv h3 a = prv h1 a"
      by (auto simp: h3_def h2_def)
  qed
  moreover have "links h3 H z" "links h3 f T"
    using dst nd by (auto simp: links_def h3_def h2_def h1_def)
  ultimately have "successively (links h3) (H # rev xs @ [T])"
    using ne by (auto simp: successively_Cons successively_append_iff d hd_rev last_rev)
  moreover have "prv h3 H = Some NULL" "nxt h3 T = Some NULL"
    using dl dst by (auto simp: dlist_def h3_def h2_def h1_def)
  ultimately have "wf_list h3 l (rev xs)"
    using wf by (simp add: wf_list_def dlist_def h3_def h2_def h1_def d [symmetric])
  moreover have "frame (nodes l xs) h h1"
    by (auto simp: frame_def h1_def swap_links_def split: if_splits)
  then have "frame (nodes l xs) h h3"
    using dst by (simp add: h3_def h2_def d [symmetric])
  ultimately show ?thesis using run by blast
qed

end
