(* ===== verification/Kernel_List_Sort.thy ===== *)
theory Kernel_List_Sort
  imports Kernel_List_Order
begin

text \<open>
  \<open>list_sort\<close> of \<^verbatim>\<open>lib/kernel/list.c\<close>, a natural merge sort by pointer splicing. The pointer
  functions are shown to compute three list functions (the end of a run, the merge of two runs,
  one pass over the list), and these to sort: a pass at least halves the number of runs, so the
  outer loop ends, and what it leaves is a sorted and stable permutation.
\<close>

section \<open>The list functions behind the pointer loops\<close>

fun take_run :: "('a \<Rightarrow> 'a \<Rightarrow> bool) \<Rightarrow> 'a \<Rightarrow> 'a list \<Rightarrow> 'a list \<times> 'a list" where
  "take_run lt a [] = ([], [])"
| "take_run lt a (x # xs) = (if lt x a then ([], x # xs)
     else (x # fst (take_run lt x xs), snd (take_run lt x xs)))"

fun amerge :: "('a \<Rightarrow> 'a \<Rightarrow> bool) \<Rightarrow> 'a list \<Rightarrow> 'a list \<Rightarrow> 'a list" where
  "amerge lt [] ys = ys"
| "amerge lt xs [] = xs"
| "amerge lt (x # xs) (y # ys) =
     (if \<not> lt y x then x # amerge lt xs (y # ys) else y # amerge lt (x # xs) ys)"

lemma take_run_append: "fst (take_run lt a xs) @ snd (take_run lt a xs) = xs"
  by (induction xs arbitrary: a) auto

lemma take_run_length: "length (snd (take_run lt a xs)) \<le> length xs"
  by (metis take_run_append length_append le_add2)

lemma take_run_sorted: "successively (\<lambda>x y. \<not> lt y x) (a # fst (take_run lt a xs))"
  by (induction xs arbitrary: a) auto

lemma take_run_twice:
  "snd (take_run lt x xs) = y # ys \<Longrightarrow> length (snd (take_run lt y ys)) < Suc (length xs)"
  using take_run_length [of lt x xs] take_run_length [of lt y ys] by simp

function apass :: "('a \<Rightarrow> 'a \<Rightarrow> bool) \<Rightarrow> 'a list \<Rightarrow> 'a list \<times> nat" where
  "apass lt [] = ([], 0)"
| "apass lt (x # xs) = (case snd (take_run lt x xs) of
       [] \<Rightarrow> (x # xs, 1)
     | y # ys \<Rightarrow>
         (amerge lt (x # fst (take_run lt x xs)) (y # fst (take_run lt y ys))
            @ fst (apass lt (snd (take_run lt y ys))),
          Suc (snd (apass lt (snd (take_run lt y ys))))))"
  by pat_completeness auto
termination
  by (relation "measure (\<lambda>(lt, xs). length xs)") (auto simp: take_run_twice)

fun nruns :: "('a \<Rightarrow> 'a \<Rightarrow> bool) \<Rightarrow> 'a list \<Rightarrow> nat" where
  "nruns lt [] = 0"
| "nruns lt [x] = 1"
| "nruns lt (x # y # zs) = (if lt y x then 1 else 0) + nruns lt (y # zs)"

section \<open>The pointer loops compute them\<close>

lemma find_end_of_run_wf:
  assumes wf: "wf_list h l (xs @ a # ys)" and "length ys < n"
  shows "find_end_of_run n h lt a (tail l) = Inr (hd (snd (take_run lt a ys) @ [tail l]))"
proof -
  have "find_end_of_run_loop n h lt a (tail l) = Inr (hd (snd (take_run lt a ys) @ [tail l]))"
    using assms
  proof (induction ys arbitrary: xs a n)
    case Nil
    then show ?case using wf_list_next [OF Nil(1)] by (cases n) simp_all
  next
    case (Cons y ys)
    obtain m where n: "n = Suc m" "length ys < m" using Cons.prems(2) by (cases n) auto
    have wf': "wf_list h l ((xs @ [a]) @ y # ys)" using Cons.prems by simp
    have "y \<noteq> tail l" using wf_list_hd_eq_tail [OF wf'] by simp
    then show ?case
      using wf_list_next(2,4) [OF Cons.prems(1)] Cons.IH [OF wf' n(2)] by (simp add: n)
  qed
  moreover have "a \<noteq> NULL" "tail l \<noteq> NULL" using wf_list_nodes [OF wf] by auto
  moreover have "a \<noteq> tail l" using wf_list_hd_eq_tail [OF wf] by simp
  ultimately show ?thesis by (simp add: find_end_of_run_def)
qed

lemma is_sorted_loop_wf:
  assumes "wf_list h l (xs @ a # rs @ zs)" "length rs < n"
  shows "is_sorted_loop n h lt a (hd (zs @ [tail l])) = Inr (successively (\<lambda>x y. \<not> lt y x) (a # rs))"
  using assms
proof (induction rs arbitrary: xs a n)
  case Nil
  then show ?case using wf_list_next(2) [of h l xs a zs] by (cases n) simp_all
next
  case (Cons y rs)
  obtain m where n: "n = Suc m" "length rs < m" using Cons.prems(2) by (cases n) auto
  have wf': "wf_list h l ((xs @ [a]) @ y # rs @ zs)" using Cons.prems by simp
  have "y \<noteq> hd (zs @ [tail l])" using wf_list_distinct [OF wf'] by (cases zs) auto
  then show ?case
    using wf_list_next(2,4) [of h l xs a "y # rs @ zs"] Cons.prems Cons.IH [OF wf' n(2)] by (simp add: n)
qed

lemma is_sorted_wf:
  assumes "wf_list h l (xs @ rs @ zs)" "length rs \<le> n"
  shows "is_sorted n h lt (hd (rs @ zs @ [tail l])) (hd (zs @ [tail l]))
     = Inr (successively (\<lambda>x y. \<not> lt y x) rs)"
proof (cases rs)
  case Nil
  then show ?thesis by (simp add: is_sorted_def)
next
  case (Cons a rs')
  then have "a \<noteq> hd (zs @ [tail l])" using wf_list_distinct [OF assms(1)] by (cases zs) auto
  then show ?thesis using is_sorted_loop_wf [of h l xs a rs' zs n lt] assms Cons
    by (simp add: is_sorted_def)
qed

lemma set_amerge: "set (amerge lt xs ys) = set xs \<union> set ys"
  by (induction lt xs ys rule: amerge.induct) auto

lemma splice_step:
  assumes "wf_list h l (pre @ as @ b # post)" "as \<noteq> []"
  shows "\<exists>h'. list_splice h (hd as) b (hd (post @ [tail l])) = Inr h' \<and>
     wf_list h' l (pre @ b # as @ post) \<and> frame (nodes l (pre @ as @ b # post)) h h'"
proof -
  have "dlist h ((head l # pre) @ as @ [b] @ (post @ [tail l]))"
    using assms by (simp add: wf_list_def)
  from dlist_splice [OF this] assms obtain h' where
    "list_splice h (hd as) b (hd (post @ [tail l])) = Inr h'"
    "dlist h' ((head l # pre) @ [b] @ as @ post @ [tail l])"
    "frame (set ((head l # pre) @ [b] @ as @ post @ [tail l])) h h'" by auto
  moreover have "set ((head l # pre) @ [b] @ as @ post @ [tail l]) = nodes l (pre @ as @ b # post)"
    by auto
  ultimately show ?thesis by (simp add: wf_list_def)
qed

lemma inplace_merge_loop_wf:
  "wf_list h l (pre @ as @ bs @ post) \<Longrightarrow> length as + length bs < n \<Longrightarrow>
   \<exists>h'. inplace_merge_loop n h lt (hd (as @ bs @ post @ [tail l])) (hd (bs @ post @ [tail l]))
         (hd (post @ [tail l])) = Inr h' \<and>
     wf_list h' l (pre @ amerge lt as bs @ post) \<and> frame (nodes l (pre @ as @ bs @ post)) h h'"
proof (induction lt as bs arbitrary: pre h n rule: amerge.induct)
  case (1 lt ys)
  then show ?case by (cases n) simp_all
next
  case (2 lt x xs)
  then show ?case by (cases n) simp_all
next
  case (3 lt x xs y ys)
  obtain m where n: "n = Suc m" using "3.prems" by (cases n) auto
  let ?e = "hd (post @ [tail l])"
  have ne: "x \<noteq> y" "y \<noteq> ?e"
    using wf_list_distinct [OF "3.prems"(1)] by (cases post; auto)+
  show ?case
  proof (cases "lt y x")
    case False
    have "list_next h x = Inr (hd (xs @ y # ys @ post @ [tail l]))"
      using wf_list_next(2) [of h l pre x "xs @ y # ys @ post"] "3.prems" by simp
    with False "3.IH"(1) [of h "pre @ [x]" m] "3.prems" ne show ?thesis by (auto simp: n)
  next
    case True
    have wf: "wf_list h l ((pre @ x # xs) @ y # (ys @ post))" using "3.prems" by simp
    obtain h1 where h1: "list_splice h x y (hd ((ys @ post) @ [tail l])) = Inr h1"
        "wf_list h1 l (pre @ y # (x # xs) @ ys @ post)" "frame (nodes l (pre @ (x # xs) @ y # ys @ post)) h h1"
      using splice_step [of h l pre "x # xs" y "ys @ post"] "3.prems" by auto
    have wf1: "wf_list h1 l ((pre @ [y]) @ (x # xs) @ ys @ post)" using h1(2) by simp
    obtain h2 where h2: "inplace_merge_loop m h1 lt x (hd (ys @ post @ [tail l])) ?e = Inr h2"
        "wf_list h2 l ((pre @ [y]) @ amerge lt (x # xs) ys @ post)"
        "frame (nodes l ((pre @ [y]) @ (x # xs) @ ys @ post)) h1 h2"
      using "3.IH"(2) [OF _ wf1, of m] True "3.prems"(2) by (auto simp: n)
    have "nodes l ((pre @ [y]) @ (x # xs) @ ys @ post) = nodes l (pre @ (x # xs) @ y # ys @ post)"
      by auto
    then have "frame (nodes l (pre @ (x # xs) @ (y # ys) @ post)) h h2"
      using frame_trans [OF h1(3)] h2(3) by simp
    then show ?thesis
      using True ne h1(1) h2 wf_list_next(2,4) [OF wf] by (simp add: n)
  qed
qed

lemma inplace_merge_wf:
  assumes wf: "wf_list h l (pre @ as @ bs @ post)" and fuel: "length as + length bs < n"
    and "as \<noteq> []" "bs \<noteq> []"
    and "successively (\<lambda>x y. \<not> lt y x) as" "successively (\<lambda>x y. \<not> lt y x) bs"
  shows "\<exists>h'. inplace_merge n h lt (hd as) (hd bs) (hd (post @ [tail l])) = Inr h' \<and>
     wf_list h' l (pre @ amerge lt as bs @ post) \<and> frame (nodes l (pre @ as @ bs @ post)) h h'"
proof -
  have "hd as \<noteq> NULL" "hd bs \<noteq> NULL" "hd (post @ [tail l]) \<noteq> NULL"
    using wf_list_nodes [OF wf] assms(3,4) by (cases post; auto)+
  moreover have "is_sorted n h lt (hd as) (hd bs) = Inr True"
    using is_sorted_wf [of h l pre as "bs @ post" n lt] assms by simp
  moreover have "is_sorted n h lt (hd bs) (hd (post @ [tail l])) = Inr True"
    using is_sorted_wf [of h l "pre @ as" bs post n lt] assms by simp
  ultimately show ?thesis
    using inplace_merge_loop_wf [OF wf fuel] assms(3,4) by (simp add: inplace_merge_def)
qed

lemma list_sort_pass_wf:
  "wf_list h l (pre @ xs) \<Longrightarrow> length xs < fuel \<Longrightarrow> length xs < n \<Longrightarrow>
   \<exists>h'. list_sort_pass fuel n h l lt (hd (xs @ [tail l])) cnt = Inr (h', cnt + snd (apass lt xs)) \<and>
     wf_list h' l (pre @ fst (apass lt xs)) \<and> frame (nodes l (pre @ xs)) h h'"
proof (induction lt xs arbitrary: h pre n cnt rule: apass.induct)
  case (1 lt)
  then show ?case by (cases n) (simp_all add: list_end_def)
next
  case (2 lt x xs)
  obtain m where n: "n = Suc m" "length xs < m" using "2.prems"(3) by (cases n) auto
  have wf: "wf_list h l (pre @ x # xs)" using "2.prems" by simp
  have xT: "x \<noteq> tail l" using wf_list_hd_eq_tail [OF wf] by simp
  define r1 rest1 where d1: "r1 = fst (take_run lt x xs)" "rest1 = snd (take_run lt x xs)"
  have xs: "xs = r1 @ rest1" using take_run_append [of lt x xs] by (simp add: d1)
  have end1: "find_end_of_run fuel h lt x (tail l) = Inr (hd (rest1 @ [tail l]))"
    using find_end_of_run_wf [OF wf, of fuel lt] "2.prems"(2) by (simp add: d1)
  show ?case
  proof (cases rest1)
    case Nil
    then show ?thesis using end1 xT wf by (simp add: n list_end_def d1)
  next
    case (Cons y ys)
    define r2 rest2 where d2: "r2 = fst (take_run lt y ys)" "rest2 = snd (take_run lt y ys)"
    have ys: "ys = r2 @ rest2" using take_run_append [of lt y ys] by (simp add: d2)
    have wf2: "wf_list h l ((pre @ x # r1) @ y # ys)" using wf xs Cons by simp
    have yT: "y \<noteq> tail l" using wf_list_hd_eq_tail [OF wf2] by simp
    have end2: "find_end_of_run fuel h lt y (tail l) = Inr (hd (rest2 @ [tail l]))"
      using find_end_of_run_wf [OF wf2, of fuel lt] "2.prems"(2) xs Cons by (simp add: d2)
    have "wf_list h l (pre @ (x # r1) @ (y # r2) @ rest2)" using wf xs Cons ys by simp
    moreover have "successively (\<lambda>a b. \<not> lt b a) (x # r1)" "successively (\<lambda>a b. \<not> lt b a) (y # r2)"
      unfolding d1 d2 by (rule take_run_sorted)+
    moreover have len: "length (x # r1) + length (y # r2) < fuel" "length rest2 < fuel" "length rest2 < m"
      using "2.prems"(2) arg_cong [OF xs, of length] arg_cong [OF ys, of length] Cons n(2) by simp_all
    ultimately
    obtain h1 where h1: "inplace_merge fuel h lt x y (hd (rest2 @ [tail l])) = Inr h1"
        "wf_list h1 l (pre @ amerge lt (x # r1) (y # r2) @ rest2)"
        "frame (nodes l (pre @ (x # r1) @ (y # r2) @ rest2)) h h1"
      using inplace_merge_wf [of h l pre "x # r1" "y # r2" rest2 fuel lt] by auto
    have IH: "\<exists>h'. list_sort_pass fuel m h1 l lt (hd (rest2 @ [tail l])) (Suc cnt)
          = Inr (h', Suc cnt + snd (apass lt rest2)) \<and>
        wf_list h' l ((pre @ amerge lt (x # r1) (y # r2)) @ fst (apass lt rest2)) \<and>
        frame (nodes l ((pre @ amerge lt (x # r1) (y # r2)) @ rest2)) h1 h'"
      by (rule "2.IH" [OF Cons [unfolded d1], folded d2]) (use h1(2) len in simp_all)
    have same: "nodes l ((pre @ amerge lt (x # r1) (y # r2)) @ rest2) = nodes l (pre @ x # xs)"
      "nodes l (pre @ (x # r1) @ (y # r2) @ rest2) = nodes l (pre @ x # xs)"
      using xs Cons ys by (auto simp: set_amerge)
    have ap: "fst (apass lt (x # xs)) = amerge lt (x # r1) (y # r2) @ fst (apass lt rest2)"
      "snd (apass lt (x # xs)) = Suc (snd (apass lt rest2))"
      using Cons by (simp_all add: d1 d2)
    from IH obtain h2 where h2: "list_sort_pass fuel m h1 l lt (hd (rest2 @ [tail l])) (Suc cnt)
          = Inr (h2, Suc cnt + snd (apass lt rest2))"
        "wf_list h2 l (pre @ fst (apass lt (x # xs)))" "frame (nodes l (pre @ x # xs)) h1 h2"
      unfolding same ap by auto
    have "frame (nodes l (pre @ x # xs)) h h2"
      using frame_trans [OF h1(3) [unfolded same] h2(3)] .
    then show ?thesis
      using h1(1) h2 end1 end2 xT yT Cons by (simp add: n list_end_def ap(2) del: apass.simps)
  qed
qed

section \<open>The list functions sort\<close>

lemma mset_amerge: "mset (amerge lt xs ys) = mset xs + mset ys"
  by (induction lt xs ys rule: amerge.induct) auto

lemma mset_take_run: "mset (fst (take_run lt a xs)) + mset (snd (take_run lt a xs)) = mset xs"
  by (metis mset_append take_run_append)

lemma mset_apass: "mset (fst (apass lt xs)) = mset xs"
proof (induction lt xs rule: apass.induct)
  case (2 lt x xs)
  show ?case
  proof (cases "snd (take_run lt x xs)")
    case (Cons y ys)
    have "mset xs = mset (fst (take_run lt x xs)) + mset (y # fst (take_run lt y ys) @ snd (take_run lt y ys))"
      using mset_take_run [of lt x xs] Cons by (simp add: take_run_append)
    with 2 [OF Cons] Cons show ?thesis by (simp add: mset_amerge)
  qed simp
qed simp

lemma nruns_Cons: "nruns lt (x # xs) = (if xs = [] then 1 else (if lt (hd xs) x then 1 else 0) + nruns lt xs)"
  by (cases xs) auto

lemma nruns_append: "nruns lt (xs @ ys) \<le> nruns lt xs + nruns lt ys"
  by (induction xs) (auto simp: nruns_Cons)

lemma nruns_le_length: "nruns lt xs \<le> length xs"
  by (induction xs) (auto simp: nruns_Cons)

lemma nruns_pos: "xs \<noteq> [] \<Longrightarrow> 1 \<le> nruns lt xs"
  by (induction xs) (auto simp: nruns_Cons)

lemma nruns_sorted: "nruns lt xs \<le> 1 \<longleftrightarrow> successively (\<lambda>x y. \<not> lt y x) xs"
proof (induction xs rule: induct_list012)
  case (3 x y zs)
  then show ?case using nruns_pos [of "y # zs" lt] by auto
qed simp_all

lemma nruns_take_run: "nruns lt (x # xs) = Suc (nruns lt (snd (take_run lt x xs)))"
  by (induction xs arbitrary: x) auto

lemma apass_count: "snd (apass lt xs) = (nruns lt xs + 1) div 2"
proof (induction lt xs rule: apass.induct)
  case (2 lt x xs)
  show ?case
  proof (cases "snd (take_run lt x xs)")
    case Nil
    then show ?thesis by (simp add: nruns_take_run)
  next
    case (Cons y ys)
    with 2 [OF Cons] show ?thesis by (simp add: nruns_take_run)
  qed
qed simp

context strict_weak_order
begin

lemma amerge_sorted:
  "sorted_wrt (\<lambda>a b. \<not> lt b a) xs \<Longrightarrow> sorted_wrt (\<lambda>a b. \<not> lt b a) ys \<Longrightarrow>
   sorted_wrt (\<lambda>a b. \<not> lt b a) (amerge lt xs ys)"
proof (induction xs arbitrary: ys)
  case outer: (Cons x xs)
  show ?case using outer.prems(2)
  proof (induction ys)
    case Nil
    then show ?case using outer.prems by simp
  next
    case (Cons y ys)
    show ?case
    proof (cases "lt y x")
      case True
      then have "\<not> lt a y" if "a \<in> set (x # xs) \<union> set ys" for a
        using that outer.prems(1) Cons.prems negtrans [of a x y] by (auto dest: asym)
      then show ?thesis using True Cons by (auto simp: set_amerge)
    next
      case False
      then have "\<not> lt a x" if "a \<in> set xs \<union> set (y # ys)" for a
        using that outer.prems(1) Cons.prems negtrans [of a y x] by auto
      moreover have "sorted_wrt (\<lambda>a b. \<not> lt b a) (amerge lt xs (y # ys))"
        using outer.prems(1) Cons.prems by (intro outer.IH) auto
      ultimately show ?thesis using False by (auto simp: set_amerge)
    qed
  qed
qed simp

lemma amerge_stable:
  "sorted_wrt (\<lambda>a b. \<not> lt b a) xs \<Longrightarrow>
   filter (\<lambda>a. \<not> lt a k \<and> \<not> lt k a) (amerge lt xs ys)
     = filter (\<lambda>a. \<not> lt a k \<and> \<not> lt k a) xs @ filter (\<lambda>a. \<not> lt a k \<and> \<not> lt k a) ys"
proof (induction xs arbitrary: ys)
  case outer: (Cons x xs)
  show ?case
  proof (induction ys)
    case (Cons y ys)
    show ?case
    proof (cases "lt y x")
      case True
      then have "lt y a" if "a \<in> set (x # xs)" for a
        using that outer.prems(1) negtrans [of y a x] by auto
      then have "filter (\<lambda>a. \<not> lt a k \<and> \<not> lt k a) (x # xs) = []" if "\<not> lt y k" "\<not> lt k y"
        using that negtrans [of y k] by (auto simp: filter_empty_conv)
      then show ?thesis using True Cons by auto
    next
      case False
      moreover have "sorted_wrt (\<lambda>a b. \<not> lt b a) xs" using outer.prems by simp
      ultimately show ?thesis using outer.IH [of "y # ys"] by simp
    qed
  qed simp
qed simp

lemma take_run_swo: "sorted_wrt (\<lambda>a b. \<not> lt b a) (a # fst (take_run lt a xs))"
  by (rule sorted_adjacent) (rule take_run_sorted)

lemma apass_runs: "nruns lt (fst (apass lt xs)) \<le> snd (apass lt xs)"
proof (induction "length xs" arbitrary: xs rule: less_induct)
  case less
  show ?case
  proof (cases xs)
    case (Cons x xs')
    show ?thesis
    proof (cases "snd (take_run lt x xs')")
      case Nil
      then show ?thesis using nruns_take_run [of lt x xs'] Cons by simp
    next
      case r: (Cons y ys)
      let ?m = "amerge lt (x # fst (take_run lt x xs')) (y # fst (take_run lt y ys))"
      let ?rest = "snd (take_run lt y ys)"
      have "sorted_wrt (\<lambda>a b. \<not> lt b a) ?m"
        by (rule amerge_sorted) (rule take_run_swo)+
      then have "nruns lt ?m \<le> 1"
        unfolding nruns_sorted by (rule successively_if_sorted_wrt)
      moreover have "nruns lt (fst (apass lt ?rest)) \<le> snd (apass lt ?rest)"
        by (rule less) (use take_run_twice [OF r] Cons in simp)
      ultimately show ?thesis
        using nruns_append [of lt ?m "fst (apass lt ?rest)"] r Cons by simp
    qed
  qed simp
qed

lemma apass_stable:
  "filter (\<lambda>a. \<not> lt a k \<and> \<not> lt k a) (fst (apass lt xs)) = filter (\<lambda>a. \<not> lt a k \<and> \<not> lt k a) xs"
proof (induction "length xs" arbitrary: xs rule: less_induct)
  case less
  let ?f = "filter (\<lambda>a. \<not> lt a k \<and> \<not> lt k a)"
  show ?case
  proof (cases xs)
    case (Cons x xs')
    show ?thesis
    proof (cases "snd (take_run lt x xs')")
      case Nil
      then show ?thesis using Cons by simp
    next
      case r: (Cons y ys)
      let ?r1 = "x # fst (take_run lt x xs')" and ?r2 = "y # fst (take_run lt y ys)"
      let ?rest = "snd (take_run lt y ys)"
      have "?f (fst (apass lt ?rest)) = ?f ?rest"
        by (rule less) (use take_run_twice [OF r] Cons in simp)
      then have "?f (fst (apass lt xs)) = ?f ?r1 @ ?f ?r2 @ ?f ?rest"
        using amerge_stable [OF take_run_swo] r Cons by (simp del: filter.simps amerge.simps)
      also have "\<dots> = ?f (?r1 @ ?r2 @ ?rest)" by (simp only: filter_append)
      also have "?r1 @ ?r2 @ ?rest = xs"
        using take_run_append [of lt x xs'] take_run_append [of lt y ys] r Cons by simp
      finally show ?thesis .
    qed
  qed simp
qed

end

section \<open>\<open>list_sort\<close>\<close>

lemma list_sort_loop_wf:
  assumes "strict_weak_order lt"
  shows "wf_list h l xs \<Longrightarrow> length xs < fuel \<Longrightarrow> nruns lt xs < n \<Longrightarrow>
   \<exists>h' ys. list_sort_loop fuel n h l lt = Inr h' \<and> wf_list h' l ys \<and> mset ys = mset xs \<and>
     nruns lt ys \<le> 1 \<and> frame (nodes l xs) h h' \<and>
     (\<forall>k. filter (\<lambda>a. \<not> lt a k \<and> \<not> lt k a) ys = filter (\<lambda>a. \<not> lt a k \<and> \<not> lt k a) xs)"
proof (induction n arbitrary: h xs)
  case (Suc n)
  note apass_runs = strict_weak_order.apass_runs [OF assms]
    and apass_stable = strict_weak_order.apass_stable [OF assms]
  obtain h1 where h1: "list_sort_pass fuel fuel h l lt (hd (xs @ [tail l])) 0 = Inr (h1, snd (apass lt xs))"
      "wf_list h1 l (fst (apass lt xs))" "frame (nodes l xs) h h1"
    using list_sort_pass_wf [of h l "[]" xs fuel fuel lt 0] Suc.prems by auto
  have loop: "list_sort_loop fuel (Suc n) h l lt =
      (if snd (apass lt xs) > 1 then list_sort_loop fuel n h1 l lt else Inr h1)"
    using h1(1) list_begin_wf [OF Suc.prems(1)] by simp
  have ms: "mset (fst (apass lt xs)) = mset xs" by (rule mset_apass)
  show ?case
  proof (cases "snd (apass lt xs) > 1")
    case False
    then show ?thesis using loop h1 apass_runs [of xs] ms by (auto simp: apass_stable)
  next
    case True
    have "length (fst (apass lt xs)) = length xs" using ms by (rule mset_eq_length)
    moreover have "nruns lt (fst (apass lt xs)) < n"
      using True apass_runs [of xs] Suc.prems(3) by (simp add: apass_count)
    ultimately obtain h2 ys where h2: "list_sort_loop fuel n h1 l lt = Inr h2" "wf_list h2 l ys"
        "mset ys = mset xs" "nruns lt ys \<le> 1" "frame (nodes l (fst (apass lt xs))) h1 h2"
        "\<And>k. filter (\<lambda>a. \<not> lt a k \<and> \<not> lt k a) ys = filter (\<lambda>a. \<not> lt a k \<and> \<not> lt k a) xs"
      using Suc.IH [OF h1(2)] Suc.prems(2) ms by (auto simp: apass_stable)
    have "set (fst (apass lt xs)) = set xs" using ms by (rule mset_eq_setD)
    then have "frame (nodes l xs) h h2" using frame_trans [OF h1(3)] h2(5) by simp
    then show ?thesis using True loop h2 by auto
  qed
qed simp

lemma list_sort_wf:
  assumes "strict_weak_order lt" "wf_list h l xs" "length xs < fuel"
  shows "\<exists>h' ys. list_sort fuel h l lt = Inr h' \<and> wf_list h' l ys \<and> mset ys = mset xs \<and>
     sorted_wrt (\<lambda>a b. \<not> lt b a) ys \<and> frame (nodes l xs) h h' \<and>
     (\<forall>k. filter (\<lambda>a. \<not> lt a k \<and> \<not> lt k a) ys = filter (\<lambda>a. \<not> lt a k \<and> \<not> lt k a) xs)"
proof -
  have "nruns lt xs < fuel" using nruns_le_length [of lt xs] assms(3) by simp
  then obtain h' ys where h': "list_sort_loop fuel fuel h l lt = Inr h'" "wf_list h' l ys"
      "mset ys = mset xs" "nruns lt ys \<le> 1" "frame (nodes l xs) h h'"
      "\<And>k. filter (\<lambda>a. \<not> lt a k \<and> \<not> lt k a) ys = filter (\<lambda>a. \<not> lt a k \<and> \<not> lt k a) xs"
    using list_sort_loop_wf [OF assms] by blast
  have "length ys \<le> fuel" using assms(3) mset_eq_length [OF h'(3)] by simp
  moreover have adj: "successively (\<lambda>a b. \<not> lt b a) ys" using h'(4) by (simp only: nruns_sorted)
  ultimately have "list_sort fuel h l lt = Inr h'"
    using h'(1) list_begin_wf [OF h'(2)] is_sorted_wf [of h' l "[]" ys "[]" fuel lt] h'(2)
    by (simp add: list_sort_def list_end_def)
  moreover have "sorted_wrt (\<lambda>a b. \<not> lt b a) ys"
    using strict_weak_order.sorted_adjacent [OF assms(1) adj] .
  ultimately show ?thesis using h' by blast
qed

end
