(* ===== verification/Kernel_List_Properties.thy ===== *)
theory Kernel_List_Properties
  imports Kernel_List_Sort
begin

text \<open>
  The properties of \<^verbatim>\<open>lib/kernel/list.c\<close>, gathered from the lemmas of the three theories on it,
  and a small list in memory on which each of them is exercised.
\<close>

section \<open>A list is determined by its sequence of nodes\<close>

lemma dlist_determines:
  assumes "dlist h ns" "dlist h' ns" "a \<in> set ns"
  shows "h a = h' a"
proof -
  have nx: "nxt h a = nxt h' a"
  proof -
    obtain us vs where ns: "ns = us @ a # vs" using assms(3) by (auto simp: in_set_conv_decomp)
    show ?thesis
    proof (cases vs)
      case Nil
      then show ?thesis using assms(1,2) ns by (simp add: dlist_def)
    next
      case (Cons v vs')
      then have "links h a v" "links h' a v"
        using assms(1,2) ns by (simp_all add: dlist_def successively_append_iff)
      then show ?thesis by (simp add: links_def)
    qed
  qed
  have pv: "prv h a = prv h' a"
  proof -
    obtain us vs where ns: "ns = us @ a # vs" using assms(3) by (auto simp: in_set_conv_decomp)
    show ?thesis
    proof (cases us rule: rev_cases)
      case Nil
      then show ?thesis using assms(1,2) ns by (simp add: dlist_def)
    next
      case (snoc us' u)
      then have "links h u a" "links h' u a"
        using assms(1,2) ns by (simp_all add: dlist_def successively_append_iff)
      then show ?thesis by (simp add: links_def)
    qed
  qed
  have "a \<in> dom h" "a \<in> dom h'" using assms by (auto simp: dlist_def)
  then obtain x y where xy: "h a = Some x" "h' a = Some y" by blast
  with nx pv have "elem_next x = elem_next y" "elem_prev x = elem_prev y"
    by (simp_all add: nxt_def prv_def)
  then show ?thesis using xy by simp
qed

section \<open>A sample list\<close>

text \<open>Head 1, tail 2, the elements 5, 3 and 4 in this order, a free node 6, and an
  empty list with head 7 and tail 8.\<close>

definition sample_list :: list_struct where
  "sample_list = \<lparr>head = 1, tail = 2\<rparr>"

definition sample_dups :: list_struct where
  "sample_dups = \<lparr>head = 7, tail = 8\<rparr>"

definition sample_heap :: heap where
  "sample_heap = [1 \<mapsto> \<lparr>elem_prev = 0, elem_next = 5\<rparr>, 5 \<mapsto> \<lparr>elem_prev = 1, elem_next = 3\<rparr>,
     3 \<mapsto> \<lparr>elem_prev = 5, elem_next = 4\<rparr>, 4 \<mapsto> \<lparr>elem_prev = 3, elem_next = 2\<rparr>,
     2 \<mapsto> \<lparr>elem_prev = 4, elem_next = 0\<rparr>, 6 \<mapsto> \<lparr>elem_prev = 0, elem_next = 0\<rparr>,
     7 \<mapsto> \<lparr>elem_prev = 0, elem_next = 8\<rparr>, 8 \<mapsto> \<lparr>elem_prev = 7, elem_next = 0\<rparr>]"

lemma sample_wf: "wf_list sample_heap sample_list [5, 3, 4]"
  by (simp add: wf_list_def dlist_def links_def nxt_def prv_def sample_heap_def sample_list_def)

lemma sample_dups_wf: "wf_list sample_heap sample_dups []"
  by (simp add: wf_list_def dlist_def links_def nxt_def prv_def sample_heap_def sample_dups_def)

lemma sample_detached: "detached sample_heap sample_list [5, 3, 4] 6"
  by (simp add: detached_def sample_heap_def sample_list_def)

lemma nat_strict_weak_order: "strict_weak_order ((<) :: nat \<Rightarrow> nat \<Rightarrow> bool)"
  by unfold_locales auto

section \<open>Properties\<close>

text \<open>
  C4. \<open>list_sort\<close>, the natural merge sort on linked nodes, terminates on every well-formed list for
  every strict weak order: the same nodes are linked again into a well-formed list that is in
  non-decreasing order, equivalent elements keep their relative order, and no node outside the list
  is touched. As many iterations as the list has nodes suffice for each of its loops.
\<close>

theorem list_sort_correct:
  assumes "strict_weak_order lt" "wf_list h l xs" "length xs < fuel"
  shows "\<exists>h' ys. list_sort fuel h l lt = Inr h' \<and> wf_list h' l ys \<and> mset ys = mset xs \<and>
     sorted_wrt (\<lambda>a b. \<not> lt b a) ys \<and> frame (nodes l xs) h h' \<and>
     (\<forall>k. filter (\<lambda>a. \<not> lt a k \<and> \<not> lt k a) ys = filter (\<lambda>a. \<not> lt a k \<and> \<not> lt k a) xs)"
  by (rule list_sort_wf [OF assms])

theorem list_sort_correct_witness:
  "\<exists>h' ys. list_sort 4 sample_heap sample_list (<) = Inr h' \<and> wf_list h' sample_list ys \<and>
     mset ys = {#5, 3, 4#}"
  using list_sort_correct [OF nat_strict_weak_order sample_wf, of 4] by auto

text \<open>
  Inserting an element in front of a position and removing it again succeed and restore the
  whole heap except for the links of the element itself; in between, the element is in the list at
  that position. \<open>list_remove\<close> returns the element that followed.
\<close>

theorem list_insert_remove:
  assumes "wf_list h l (xs @ ys)" "detached h l (xs @ ys) e"
  shows "\<exists>h1 h2. list_insert h (hd (ys @ [tail l])) e = Inr h1 \<and> wf_list h1 l (xs @ e # ys) \<and>
     list_remove h1 e = Inr (h2, hd (ys @ [tail l])) \<and> wf_list h2 l (xs @ ys) \<and> frame {e} h h2"
proof -
  obtain h1 where h1: "list_insert h (hd (ys @ [tail l])) e = Inr h1" "wf_list h1 l (xs @ e # ys)"
      "frame (insert e (nodes l (xs @ ys))) h h1"
    using list_insert_wf [OF assms] by blast
  obtain h2 where h2: "list_remove h1 e = Inr (h2, hd (ys @ [tail l]))" "wf_list h2 l (xs @ ys)"
      "frame (nodes l (xs @ ys)) h1 h2"
    using list_remove_wf [OF h1(2)] by blast
  have "h2 a = h a" if "a \<noteq> e" for a
  proof (cases "a \<in> nodes l (xs @ ys)")
    case True
    then show ?thesis using dlist_determines assms(1) h2(2) unfolding wf_list_def by blast
  next
    case False
    then show ?thesis using that h1(3) h2(3) by (auto simp: frame_def)
  qed
  then have "frame {e} h h2" using h1(3) h2(3) by (simp add: frame_def)
  then show ?thesis using h1 h2 by blast
qed

theorem list_insert_remove_witness:
  "\<exists>h1 h2. list_insert sample_heap 4 6 = Inr h1 \<and> wf_list h1 sample_list [5, 3, 6, 4] \<and>
     list_remove h1 6 = Inr (h2, 4) \<and> wf_list h2 sample_list [5, 3, 4]"
  using list_insert_remove [of sample_heap sample_list "[5, 3]" "[4]" 6] sample_wf sample_detached
  by auto

text \<open>
  C19. A kernel list used with \<open>list_push_back\<close> and \<open>list_pop_front\<close> is a first-in first-out queue:
  appending any distinct elements that are not in the list and then popping as often as there are
  elements returns the old elements followed by the new ones, in order, and leaves the list empty.
\<close>

theorem list_queue_fifo:
  assumes "wf_list h l xs" "distinct es" "\<And>e. e \<in> set es \<Longrightarrow> detached h l xs e"
  shows "\<exists>h1 h2. enq_all list_push_back h l es = Inr h1 \<and>
     deq_many list_pop_front (length xs + length es) h1 l = Inr (h2, xs @ es) \<and> wf_list h2 l []"
  using assms by (rule klist.fifo)

theorem list_queue_fifo_witness:
  "\<exists>h1 h2. enq_all list_push_back sample_heap sample_list [6] = Inr h1 \<and>
     deq_many list_pop_front (length [5, 3, 4 :: nat] + length [6 :: nat]) h1 sample_list
       = Inr (h2, [5, 3, 4] @ [6]) \<and> wf_list h2 sample_list []"
  by (rule list_queue_fifo [OF sample_wf]) (simp_all add: sample_detached)

text \<open>
  C20. \<open>list_insert_ordered\<close> on a list in non-decreasing order puts the new element behind every
  element that is not greater, those equivalent to it included, and in front of the greater ones, and the
  list stays in order. No node but the element and those of the list is touched.
\<close>

theorem list_insert_ordered_correct:
  assumes "strict_weak_order lt" "wf_list h l xs" "sorted_wrt (\<lambda>a b. \<not> lt b a) xs"
    and "detached h l xs e" "length xs < fuel"
  shows "\<exists>h' us vs. list_insert_ordered fuel h l e lt = Inr h' \<and> wf_list h' l (us @ e # vs) \<and>
     us @ vs = xs \<and> (\<forall>u\<in>set us. \<not> lt e u) \<and> (\<forall>v\<in>set vs. lt e v) \<and>
     sorted_wrt (\<lambda>a b. \<not> lt b a) (us @ e # vs) \<and> frame (insert e (nodes l xs)) h h'"
proof -
  let ?us = "takeWhile (\<lambda>x. \<not> lt e x) xs" and ?vs = "dropWhile (\<lambda>x. \<not> lt e x) xs"
  obtain h' where "list_insert_ordered fuel h l e lt = Inr h'" "wf_list h' l (?us @ e # ?vs)" "frame (insert e (nodes l xs)) h h'"
    using list_insert_ordered_wf [OF assms(2,4,5)] by blast
  moreover have "sorted_wrt (\<lambda>a b. \<not> lt b a) (?us @ e # ?vs)"
    by (rule strict_weak_order.sorted_insert [OF assms(1,3)])
  moreover have "\<forall>u\<in>set ?us. \<not> lt e u" by (auto dest: set_takeWhileD)
  moreover have "\<forall>v\<in>set ?vs. lt e v" by (rule strict_weak_order.behind_greater [OF assms(1,3)])
  moreover have "?us @ ?vs = xs" by (rule takeWhile_dropWhile_id)
  ultimately show ?thesis by blast
qed

theorem list_insert_ordered_correct_witness:
  "\<exists>h'. list_insert_ordered 4 sample_heap sample_list 6 (\<lambda>a b. a = 5 \<and> b \<noteq> 5) = Inr h' \<and>
     wf_list h' sample_list [5, 3, 4, 6]"
proof -
  have "strict_weak_order (\<lambda>a b. a = (5::nat) \<and> b \<noteq> 5)" by unfold_locales auto
  from list_insert_ordered_correct [OF this sample_wf _ sample_detached, of 4]
  obtain h' us vs where "list_insert_ordered 4 sample_heap sample_list 6 (\<lambda>a b. a = 5 \<and> b \<noteq> 5) = Inr h'"
      "wf_list h' sample_list (us @ 6 # vs)" "us @ vs = [5, 3, 4]" "vs = []" by auto
  then show ?thesis by simp
qed

text \<open>
  \<open>list_unique\<close> keeps the first element and removes exactly the elements equivalent to the one
  kept before them: no two neighbours of the result are equivalent, and the elements removed are
  appended, in order, to the list of duplicates when one is given. Nothing is lost.
\<close>

theorem list_unique_correct:
  assumes "wf_list h l (x # xs)" "wf_list h d ds" "nodes l (x # xs) \<inter> nodes d ds = {}"
    and "length xs < fuel"
  shows "\<exists>h' kept removed. list_unique fuel h l (Some d) lt = Inr h' \<and>
     wf_list h' l (x # kept) \<and> wf_list h' d (ds @ removed) \<and>
     mset kept + mset removed = mset xs \<and> subseq kept xs \<and> subseq removed xs \<and>
     successively (\<lambda>a b. lt a b \<or> lt b a) (x # kept)"
proof -
  have "dups_rep h l ([] @ x # xs) (Some d) ds" using assms(2,3) by (simp add: dups_rep_def)
  with list_unique_loop_wf [of h l "[]" x xs "Some d" ds fuel lt] obtain h' where
    "list_unique_loop fuel h l (Some d) lt x = Inr h'" "wf_list h' l (x # fst (uniq_from lt x xs))"
    "wf_list h' d (ds @ snd (uniq_from lt x xs))"
    using assms(1,4) by (auto simp: dups_rep_def)
  moreover have "list_begin h l = Inr x" "list_empty h l = Inr False"
    using list_begin_wf [OF assms(1)] list_empty_wf [OF assms(1)] by simp_all
  ultimately show ?thesis
    using uniq_from_mset [of lt x xs] uniq_from_adjacent [of lt x xs] uniq_from_subseq [of lt x xs]
    by (auto simp: list_unique_def)
qed

theorem list_unique_correct_witness:
  "\<exists>h' kept removed. list_unique 3 sample_heap sample_list (Some sample_dups) (\<lambda>a b. a = 5 \<and> b \<noteq> 5) = Inr h' \<and>
     wf_list h' sample_list (5 # kept) \<and> mset kept + mset removed = {#3, 4#}"
  using list_unique_correct [OF sample_wf sample_dups_wf, of 3 "\<lambda>a b. a = 5 \<and> b \<noteq> 5"]
  by (auto simp: sample_list_def sample_dups_def)

text \<open>
  \<open>list_reverse\<close> reverses the list in place: the nodes are linked in the opposite order and
  nothing else in memory changes, and reversing twice restores every node.
\<close>

theorem list_reverse_involutive:
  assumes "wf_list h l xs" "length xs < fuel"
  shows "\<exists>h1. list_reverse fuel h l = Inr h1 \<and> wf_list h1 l (rev xs) \<and> list_reverse fuel h1 l = Inr h"
proof -
  obtain h1 where h1: "list_reverse fuel h l = Inr h1" "wf_list h1 l (rev xs)" "frame (nodes l xs) h h1"
    using list_reverse_wf [OF assms] by blast
  moreover obtain h2 where h2: "list_reverse fuel h1 l = Inr h2" "wf_list h2 l xs"
      "frame (nodes l (rev xs)) h1 h2"
    using list_reverse_wf [OF h1(2)] assms(2) by auto
  moreover have "h2 = h"
  proof
    fix a
    show "h2 a = h a"
    proof (cases "a \<in> nodes l xs")
      case True
      then show ?thesis using dlist_determines h2(2) assms(1) unfolding wf_list_def by blast
    next
      case False
      then show ?thesis using h1(3) h2(3) by (auto simp: frame_def)
    qed
  qed
  ultimately show ?thesis by blast
qed

theorem list_reverse_involutive_witness:
  "\<exists>h1. list_reverse 4 sample_heap sample_list = Inr h1 \<and> wf_list h1 sample_list [4, 3, 5] \<and>
     list_reverse 4 h1 sample_list = Inr sample_heap"
  using list_reverse_involutive [OF sample_wf, of 4] by simp

text \<open>
  \<open>list_max\<close> returns the first of the greatest elements of a non-empty list: everything in
  front of it is smaller, nothing behind it is greater. \<open>list_min\<close> returns the first of the
  smallest elements.
\<close>

theorem list_max_min_first:
  assumes "strict_weak_order lt" "wf_list h l xs" "xs \<noteq> []" "length xs \<le> fuel"
  shows "(\<exists>us m vs. list_max fuel h l lt = Inr m \<and> xs = us @ m # vs \<and>
       (\<forall>u\<in>set us. lt u m) \<and> (\<forall>v\<in>set vs. \<not> lt m v)) \<and>
     (\<exists>us m vs. list_min fuel h l lt = Inr m \<and> xs = us @ m # vs \<and>
       (\<forall>u\<in>set us. lt m u) \<and> (\<forall>v\<in>set vs. \<not> lt v m))"
proof -
  obtain x ys where xs: "xs = x # ys" using assms(3) by (cases xs) auto
  show ?thesis
    using strict_weak_order.foldl_max_first [OF assms(1), of x ys]
      strict_weak_order.foldl_min_first [OF assms(1), of x ys] assms(2,4)
      list_max_wf [of h l x ys fuel lt] list_min_wf [of h l x ys fuel lt]
    by (simp add: xs)
qed

theorem list_max_min_first_witness:
  "\<exists>us m vs. list_max 3 sample_heap sample_list (<) = Inr m \<and> [5, 3, 4] = us @ m # vs \<and>
     (\<forall>u\<in>set us. u < m) \<and> (\<forall>v\<in>set vs. \<not> m < v)"
  using list_max_min_first [OF nat_strict_weak_order sample_wf, of 3] by simp

text \<open>
  Removing an element a second time, before the list around it has changed, does nothing:
  \<open>frame_evict\<close> in \<^verbatim>\<open>vm/frame.c\<close> frees a frame that \<open>frame_choose_victim\<close> has already popped.
\<close>

lemma list_remove_twice:
  assumes wf: "wf_list h l (xs @ e # ys)" and r: "list_remove h e = Inr (h1, q)"
  shows "list_remove h1 e = Inr (h1, q)"
proof -
  obtain as p bs where eq: "\<And>zs. head l # (xs @ zs @ ys) @ [tail l] = as @ p # zs @ hd (ys @ [tail l]) # bs"
    using list_split [of l xs ys] by metis
  let ?q = "hd (ys @ [tail l])"
  have d: "dlist h (as @ p # e # ?q # bs)" using wf eq [of "[e]"] by (simp add: wf_list_def)
  note m1 = dlist_middle [OF d]
  have m2: "nxt h e = Some ?q \<and> ?q \<noteq> NULL \<and> ?q \<in> dom h \<and> e \<noteq> ?q"
    using dlist_middle [of h "as @ [p]" e ?q bs] d by auto
  have pq: "p \<noteq> ?q" using d by (auto simp: dlist_def)
  let ?h = "upd_prev (upd_next h p ?q) ?q p"
  have "list_remove h e = Inr (?h, ?q)" by (rule list_remove_eval) (use m1 m2 in auto)
  then have h1: "h1 = ?h" "q = ?q" using r by simp_all
  have "list_remove ?h e = Inr (upd_prev (upd_next ?h p ?q) ?q p, ?q)"
    by (rule list_remove_eval) (use m1 m2 in auto)
  moreover have "upd_prev (upd_next ?h p ?q) ?q p = ?h"
    using pq by (auto simp: fun_eq_iff upd_next_def upd_prev_def option.map_comp comp_def)
  ultimately show ?thesis using h1 by simp
qed

end
