(* ===== verification/Bitmap.thy ===== *)
theory Bitmap
  imports Prelude
begin

text \<open>
  \<^verbatim>\<open>lib/kernel/bitmap.c\<close>: an array of bits packed into 32-bit words, used by the page allocator and
  by the free map of the file system. \<open>size_t\<close> and \<open>elem_type\<close> are 32-bit words on the target, so
  the index arithmetic wraps as it does in C. A write past the word array is \<open>Invalid_access\<close>.
  The component is shown to implement a plain list of booleans.
\<close>

unbundle bit_operations_syntax

section \<open>Model\<close>

record bitmap =
  bit_cnt :: u32
  bits :: "u32 list"

definition BITMAP_ERROR :: u32 where
  "BITMAP_ERROR = 4294967295"

definition elem_idx :: "u32 \<Rightarrow> u32" where
  "elem_idx bit_idx = bit_idx div 32"

definition bit_mask :: "u32 \<Rightarrow> u32" where
  "bit_mask bit_idx = push_bit (unat (bit_idx mod 32)) 1"

definition elem_cnt :: "u32 \<Rightarrow> u32" where
  "elem_cnt cnt = (cnt + 32 - 1) div 32"

definition byte_cnt :: "u32 \<Rightarrow> u32" where
  "byte_cnt cnt = 4 * elem_cnt cnt"

definition last_mask :: "bitmap \<Rightarrow> u32" where
  "last_mask b = (let last_bits = bit_cnt b mod 32
     in if last_bits \<noteq> 0 then push_bit (unat last_bits) 1 - 1 else - 1)"

text \<open>Read-modify-write of one element (\<open>orl\<close>, \<open>andl\<close>, \<open>xorl\<close> on memory).\<close>

definition modify_elem :: "bitmap \<Rightarrow> u32 \<Rightarrow> (u32 \<Rightarrow> u32) \<Rightarrow> bitmap res" where
  "modify_elem b idx f = (if unat idx < length (bits b)
     then Inr (b\<lparr>bits := (bits b)[unat idx := f (bits b ! unat idx)]\<rparr>)
     else Inl Invalid_access)"

definition bitmap_mark :: "bitmap \<Rightarrow> u32 \<Rightarrow> bitmap res" where
  "bitmap_mark b bit_idx = modify_elem b (elem_idx bit_idx) (\<lambda>w. w OR bit_mask bit_idx)"

definition bitmap_reset :: "bitmap \<Rightarrow> u32 \<Rightarrow> bitmap res" where
  "bitmap_reset b bit_idx = modify_elem b (elem_idx bit_idx) (\<lambda>w. w AND NOT (bit_mask bit_idx))"

definition bitmap_flip :: "bitmap \<Rightarrow> u32 \<Rightarrow> bitmap res" where
  "bitmap_flip b bit_idx = modify_elem b (elem_idx bit_idx) (\<lambda>w. w XOR bit_mask bit_idx)"

definition bitmap_size :: "bitmap \<Rightarrow> u32" where
  "bitmap_size b = bit_cnt b"

definition bitmap_set :: "bitmap \<Rightarrow> u32 \<Rightarrow> bool \<Rightarrow> bitmap res" where
  "bitmap_set b idx value =
     bindR (ASSERT (idx < bit_cnt b)) (\<lambda>_.
     if value then bitmap_mark b idx else bitmap_reset b idx)"

definition bitmap_test :: "bitmap \<Rightarrow> u32 \<Rightarrow> bool res" where
  "bitmap_test b idx =
     bindR (ASSERT (idx < bit_cnt b)) (\<lambda>_.
     if unat (elem_idx idx) < length (bits b)
     then Inr (bits b ! unat (elem_idx idx) AND bit_mask idx \<noteq> 0) else Inl Invalid_access)"

text \<open>A loop \<open>for (i = 0; i < cnt; i++)\<close> runs exactly \<open>cnt\<close> times: the first argument counts down.\<close>

fun set_multiple_loop :: "nat \<Rightarrow> bitmap \<Rightarrow> u32 \<Rightarrow> u32 \<Rightarrow> bool \<Rightarrow> bitmap res" where
  "set_multiple_loop 0 b start i value = Inr b"
| "set_multiple_loop (Suc n) b start i value =
     bindR (bitmap_set b (start + i) value) (\<lambda>b. set_multiple_loop n b start (i + 1) value)"

definition bitmap_set_multiple :: "bitmap \<Rightarrow> u32 \<Rightarrow> u32 \<Rightarrow> bool \<Rightarrow> bitmap res" where
  "bitmap_set_multiple b start cnt value =
     bindR (ASSERT (start \<le> bit_cnt b)) (\<lambda>_.
     bindR (ASSERT (start + cnt \<le> bit_cnt b)) (\<lambda>_.
     set_multiple_loop (unat cnt) b start 0 value))"

definition bitmap_set_all :: "bitmap \<Rightarrow> bool \<Rightarrow> bitmap res" where
  "bitmap_set_all b value = bitmap_set_multiple b 0 (bitmap_size b) value"

text \<open>
  \<open>bitmap_create\<close>: the two calls of \<open>malloc\<close> are given by their outcomes, whether the header could
  be allocated and the words found in the storage for the elements, if any.
\<close>

definition bitmap_create :: "bool \<Rightarrow> u32 list option \<Rightarrow> u32 \<Rightarrow> bitmap option res" where
  "bitmap_create header_ok storage cnt =
     (if header_ok then
        if storage \<noteq> None \<or> cnt = 0 then
          bindR (bitmap_set_all \<lparr>bit_cnt = cnt, bits = (case storage of None \<Rightarrow> [] | Some ws \<Rightarrow> ws)\<rparr> False)
            (\<lambda>b. Inr (Some b))
        else Inr None
      else Inr None)"

definition bitmap_buf_size :: "u32 \<Rightarrow> u32" where
  "bitmap_buf_size cnt = 8 + byte_cnt cnt"

definition bitmap_create_in_buf :: "u32 \<Rightarrow> u32 list \<Rightarrow> u32 \<Rightarrow> bitmap res" where
  "bitmap_create_in_buf cnt storage block_size =
     bindR (ASSERT (bitmap_buf_size cnt \<le> block_size)) (\<lambda>_.
     bitmap_set_all \<lparr>bit_cnt = cnt, bits = storage\<rparr> False)"

fun count_loop :: "nat \<Rightarrow> bitmap \<Rightarrow> u32 \<Rightarrow> u32 \<Rightarrow> bool \<Rightarrow> u32 \<Rightarrow> u32 res" where
  "count_loop 0 b start i value value_cnt = Inr value_cnt"
| "count_loop (Suc n) b start i value value_cnt =
     bindR (bitmap_test b (start + i)) (\<lambda>t.
     count_loop n b start (i + 1) value (if t = value then value_cnt + 1 else value_cnt))"

definition bitmap_count :: "bitmap \<Rightarrow> u32 \<Rightarrow> u32 \<Rightarrow> bool \<Rightarrow> u32 res" where
  "bitmap_count b start cnt value =
     bindR (ASSERT (start \<le> bit_cnt b)) (\<lambda>_.
     bindR (ASSERT (start + cnt \<le> bit_cnt b)) (\<lambda>_.
     count_loop (unat cnt) b start 0 value 0))"

fun contains_loop :: "nat \<Rightarrow> bitmap \<Rightarrow> u32 \<Rightarrow> u32 \<Rightarrow> bool \<Rightarrow> bool res" where
  "contains_loop 0 b start i value = Inr False"
| "contains_loop (Suc n) b start i value =
     bindR (bitmap_test b (start + i)) (\<lambda>t.
     if t = value then Inr True else contains_loop n b start (i + 1) value)"

definition bitmap_contains :: "bitmap \<Rightarrow> u32 \<Rightarrow> u32 \<Rightarrow> bool \<Rightarrow> bool res" where
  "bitmap_contains b start cnt value =
     bindR (ASSERT (start \<le> bit_cnt b)) (\<lambda>_.
     bindR (ASSERT (start + cnt \<le> bit_cnt b)) (\<lambda>_.
     contains_loop (unat cnt) b start 0 value))"

definition bitmap_any :: "bitmap \<Rightarrow> u32 \<Rightarrow> u32 \<Rightarrow> bool res" where
  "bitmap_any b start cnt = bitmap_contains b start cnt True"

definition bitmap_none :: "bitmap \<Rightarrow> u32 \<Rightarrow> u32 \<Rightarrow> bool res" where
  "bitmap_none b start cnt = bindR (bitmap_contains b start cnt True) (\<lambda>c. Inr (\<not> c))"

definition bitmap_all :: "bitmap \<Rightarrow> u32 \<Rightarrow> u32 \<Rightarrow> bool res" where
  "bitmap_all b start cnt = bindR (bitmap_contains b start cnt False) (\<lambda>c. Inr (\<not> c))"

text \<open>
  \<open>for (i = start; i <= last; i++)\<close> runs at most \<open>last - start + 1\<close> times. (For \<open>last\<close> the largest
  \<open>size_t\<close> the condition is always true, but then \<open>cnt\<close> is 0 and the first iteration returns.)
\<close>

fun scan_loop :: "nat \<Rightarrow> bitmap \<Rightarrow> u32 \<Rightarrow> u32 \<Rightarrow> bool \<Rightarrow> u32 res" where
  "scan_loop 0 b i cnt value = Inr BITMAP_ERROR"
| "scan_loop (Suc n) b i cnt value =
     bindR (bitmap_contains b i cnt (\<not> value)) (\<lambda>c.
     if \<not> c then Inr i else scan_loop n b (i + 1) cnt value)"

definition bitmap_scan :: "bitmap \<Rightarrow> u32 \<Rightarrow> u32 \<Rightarrow> bool \<Rightarrow> u32 res" where
  "bitmap_scan b start cnt value =
     bindR (ASSERT (start \<le> bit_cnt b)) (\<lambda>_.
     if cnt \<le> bit_cnt b then
       let last = bit_cnt b - cnt
       in scan_loop (if start \<le> last then unat last - unat start + 1 else 0) b start cnt value
     else Inr BITMAP_ERROR)"

definition bitmap_scan_and_flip :: "bitmap \<Rightarrow> u32 \<Rightarrow> u32 \<Rightarrow> bool \<Rightarrow> (bitmap \<times> u32) res" where
  "bitmap_scan_and_flip b start cnt value =
     bindR (bitmap_scan b start cnt value) (\<lambda>idx.
     if idx \<noteq> BITMAP_ERROR
     then bindR (bitmap_set_multiple b idx cnt (\<not> value)) (\<lambda>b. Inr (b, idx))
     else Inr (b, idx))"

definition bitmap_file_size :: "bitmap \<Rightarrow> u32" where
  "bitmap_file_size b = byte_cnt (bit_cnt b)"

section \<open>The list of bits a bitmap stands for\<close>

definition wf_bitmap :: "bitmap \<Rightarrow> bool" where
  "wf_bitmap b \<longleftrightarrow> unat (bit_cnt b) \<le> 32 * length (bits b)"

definition bit_at :: "bitmap \<Rightarrow> nat \<Rightarrow> bool" where
  "bit_at b i = bit (bits b ! (i div 32)) (i mod 32)"

definition abs_bits :: "bitmap \<Rightarrow> bool list" where
  "abs_bits b = map (bit_at b) [0..<unat (bit_cnt b)]"

named_theorems bitmap_unat "index arithmetic read as natural numbers"

lemma length_abs_bits [simp]: "length (abs_bits b) = unat (bit_cnt b)"
  by (simp add: abs_bits_def)

lemma nth_abs_bits [simp]: "i < unat (bit_cnt b) \<Longrightarrow> abs_bits b ! i = bit_at b i"
  by (simp add: abs_bits_def)

lemma unat_elem_idx [bitmap_unat]: "unat (elem_idx i) = unat i div 32"
  by (simp add: elem_idx_def unat_div)

lemma unat_mod_32 [bitmap_unat]: "unat (i mod 32 :: u32) = unat i mod 32"
  by (simp add: unat_mod)

lemma bit_bit_mask: "bit (bit_mask i) n \<longleftrightarrow> n = unat i mod 32"
proof -
  have "unat i mod 32 < 32" by simp
  then show ?thesis
    by (auto simp: bit_mask_def unat_mod_32 bit_exp_iff)
qed

lemma and_bit_mask: "w AND bit_mask i \<noteq> 0 \<longleftrightarrow> bit w (unat i mod 32)"
proof
  assume "w AND bit_mask i \<noteq> 0"
  then obtain n where "bit (w AND bit_mask i) n"
    by (metis bit_eqI bit_0_eq bot_fun_def bot_bool_def)
  then show "bit w (unat i mod 32)" by (auto simp: bit_and_iff bit_bit_mask)
next
  assume "bit w (unat i mod 32)"
  then have "bit (w AND bit_mask i) (unat i mod 32)" by (simp add: bit_and_iff bit_bit_mask)
  then show "w AND bit_mask i \<noteq> 0" by (metis bit_0_eq bot_fun_def bot_bool_def)
qed

lemma wf_bitmap_idx: "wf_bitmap b \<Longrightarrow> i < bit_cnt b \<Longrightarrow> unat (elem_idx i) < length (bits b)"
  by (simp add: wf_bitmap_def unat_elem_idx word_less_nat_alt less_mult_imp_div_less mult.commute)

text \<open>
  One lemma for the three single-bit updates: a word operation that changes only the masked bit
  updates one entry of the list.
\<close>

lemma modify_elem_bits:
  assumes wf: "wf_bitmap b" and i: "i < bit_cnt b"
    and f: "\<And>w n. n < 32 \<Longrightarrow> bit (f w) n = (if n = unat i mod 32 then g (bit w n) else bit w n)"
  shows "\<exists>b'. modify_elem b (elem_idx i) f = Inr b' \<and> wf_bitmap b' \<and> bit_cnt b' = bit_cnt b \<and>
     abs_bits b' = (abs_bits b)[unat i := g (abs_bits b ! unat i)]"
proof -
  define b' where "b' = b\<lparr>bits := (bits b)[unat (elem_idx i) := f (bits b ! unat (elem_idx i))]\<rparr>"
  have idx: "unat (elem_idx i) < length (bits b)" by (rule wf_bitmap_idx [OF wf i])
  have i': "unat i < unat (bit_cnt b)" using i by (simp add: word_less_nat_alt)
  have "bit_at b' j = (if j = unat i then g (bit_at b j) else bit_at b j)" for j
  proof (cases "j div 32 = unat i div 32")
    case True
    then have "j = unat i \<longleftrightarrow> j mod 32 = unat i mod 32" by (metis mod_div_mult_eq)
    with True idx show ?thesis by (simp add: b'_def bit_at_def unat_elem_idx f)
  next
    case False
    then show ?thesis by (auto simp: b'_def bit_at_def unat_elem_idx)
  qed
  then have "abs_bits b' = (abs_bits b)[unat i := g (abs_bits b ! unat i)]"
    using i' by (intro nth_equalityI) (auto simp: b'_def nth_list_update)
  then show ?thesis using wf idx by (simp add: modify_elem_def b'_def wf_bitmap_def)
qed

lemma bitmap_mark_bits:
  assumes "wf_bitmap b" "i < bit_cnt b"
  shows "\<exists>b'. bitmap_mark b i = Inr b' \<and> wf_bitmap b' \<and> bit_cnt b' = bit_cnt b \<and>
     abs_bits b' = (abs_bits b)[unat i := True]"
  unfolding bitmap_mark_def
  by (rule modify_elem_bits [OF assms, where g = "\<lambda>_. True"]) (simp add: bit_or_iff bit_bit_mask)

lemma bitmap_reset_bits:
  assumes "wf_bitmap b" "i < bit_cnt b"
  shows "\<exists>b'. bitmap_reset b i = Inr b' \<and> wf_bitmap b' \<and> bit_cnt b' = bit_cnt b \<and>
     abs_bits b' = (abs_bits b)[unat i := False]"
  unfolding bitmap_reset_def
  by (rule modify_elem_bits [OF assms, where g = "\<lambda>_. False"])
    (simp add: bit_and_iff bit_not_iff bit_bit_mask)

lemma bitmap_flip_bits:
  assumes "wf_bitmap b" "i < bit_cnt b"
  shows "\<exists>b'. bitmap_flip b i = Inr b' \<and> wf_bitmap b' \<and> bit_cnt b' = bit_cnt b \<and>
     abs_bits b' = (abs_bits b)[unat i := \<not> abs_bits b ! unat i]"
  unfolding bitmap_flip_def
  by (rule modify_elem_bits [OF assms, where g = Not]) (auto simp: bit_xor_iff bit_bit_mask)

lemma bitmap_set_bits:
  assumes "wf_bitmap b" "i < bit_cnt b"
  shows "\<exists>b'. bitmap_set b i v = Inr b' \<and> wf_bitmap b' \<and> bit_cnt b' = bit_cnt b \<and>
     abs_bits b' = (abs_bits b)[unat i := v]"
  using assms bitmap_mark_bits [OF assms] bitmap_reset_bits [OF assms]
  by (cases v) (auto simp: bitmap_set_def)

lemma bitmap_test_bits:
  assumes "wf_bitmap b" "i < bit_cnt b"
  shows "bitmap_test b i = Inr (abs_bits b ! unat i)"
  using assms wf_bitmap_idx [OF assms]
  by (simp add: bitmap_test_def and_bit_mask bit_at_def unat_elem_idx word_less_nat_alt)

lemma bitmap_test_out_of_range: "bit_cnt b \<le> i \<Longrightarrow> bitmap_test b i = Inl Assertion_failure"
  by (simp add: bitmap_test_def leD)

section \<open>Ranges of bits\<close>

text \<open>
  In all range operations \<open>start\<close> and \<open>cnt\<close> denote a range inside the bitmap; then the sums
  \<open>start + i\<close> do not wrap.
\<close>

definition in_range :: "bitmap \<Rightarrow> u32 \<Rightarrow> u32 \<Rightarrow> bool" where
  "in_range b start cnt \<longleftrightarrow> unat start + unat cnt \<le> unat (bit_cnt b)"

lemma unat_add_small:
  assumes "unat (a :: u32) + unat b < 2 ^ 32"
  shows "unat (a + b) = unat a + unat b"
  using assms by (simp add: unat_word_ariths)

lemma in_range_asserts:
  assumes "in_range b start cnt"
  shows "start \<le> bit_cnt b" "start + cnt \<le> bit_cnt b"
proof -
  have "unat (bit_cnt b) < 2 ^ 32" using unsigned_less [of "bit_cnt b"] by simp
  then have "unat (start + cnt) = unat start + unat cnt"
    using assms by (intro unat_add_small) (simp add: in_range_def)
  then show "start \<le> bit_cnt b" "start + cnt \<le> bit_cnt b"
    using assms by (simp_all add: in_range_def word_le_nat_alt)
qed

text \<open>The cursor of a range loop: \<open>n\<close> bits are left, \<open>start + i\<close> is the next one.\<close>

lemma loop_cursor:
  assumes "unat start + unat i + Suc n \<le> unat (bit_cnt b)"
  shows "unat (start + i) = unat start + unat i" "start + i < bit_cnt b"
    "unat start + unat (i + 1) + n \<le> unat (bit_cnt b)" "unat (i + 1) = unat i + 1"
proof -
  have lim: "unat (bit_cnt b) < 2 ^ 32" using unsigned_less [of "bit_cnt b"] by simp
  show s: "unat (start + i) = unat start + unat i"
    using assms lim by (intro unat_add_small) simp
  show "start + i < bit_cnt b" using s assms by (simp add: word_less_nat_alt)
  show t: "unat (i + 1) = unat i + 1"
    using assms lim unat_add_small [of i 1] by simp
  show "unat start + unat (i + 1) + n \<le> unat (bit_cnt b)" using t assms by simp
qed

lemma set_multiple_loop_bits:
  "wf_bitmap b \<Longrightarrow> unat start + unat i + n \<le> unat (bit_cnt b) \<Longrightarrow>
   \<exists>b'. set_multiple_loop n b start i v = Inr b' \<and> wf_bitmap b' \<and> bit_cnt b' = bit_cnt b \<and>
     (\<forall>j < unat (bit_cnt b). abs_bits b' ! j =
        (if unat start + unat i \<le> j \<and> j < unat start + unat i + n then v else abs_bits b ! j))"
proof (induction n arbitrary: b i)
  case 0
  then show ?case by auto
next
  case (Suc n)
  note c = loop_cursor [OF Suc.prems(2)]
  obtain b1 where b1: "bitmap_set b (start + i) v = Inr b1" "wf_bitmap b1" "bit_cnt b1 = bit_cnt b"
      "abs_bits b1 = (abs_bits b)[unat (start + i) := v]"
    using bitmap_set_bits [OF Suc.prems(1) c(2)] by blast
  obtain b2 where b2: "set_multiple_loop n b1 start (i + 1) v = Inr b2" "wf_bitmap b2"
      "bit_cnt b2 = bit_cnt b"
      "\<And>j. j < unat (bit_cnt b) \<Longrightarrow> abs_bits b2 ! j =
        (if unat start + unat (i + 1) \<le> j \<and> j < unat start + unat (i + 1) + n then v else abs_bits b1 ! j)"
    using Suc.IH [of b1 "i + 1"] b1 c(3) by auto
  have "abs_bits b2 ! j =
      (if unat start + unat i \<le> j \<and> j < unat start + unat i + Suc n then v else abs_bits b ! j)"
    if "j < unat (bit_cnt b)" for j
    using b2(4) [OF that] that c(1,4) by (auto simp: b1(4) nth_list_update simp del: nth_abs_bits)
  then show ?case using b1(1) b2 by simp
qed

lemma bitmap_set_multiple_bits:
  assumes "wf_bitmap b" "in_range b start cnt"
  shows "\<exists>b'. bitmap_set_multiple b start cnt v = Inr b' \<and> wf_bitmap b' \<and> bit_cnt b' = bit_cnt b \<and>
     abs_bits b' = take (unat start) (abs_bits b) @ replicate (unat cnt) v
        @ drop (unat start + unat cnt) (abs_bits b)"
proof -
  obtain b' where b': "set_multiple_loop (unat cnt) b start 0 v = Inr b'" "wf_bitmap b'"
      "bit_cnt b' = bit_cnt b"
      "\<And>j. j < unat (bit_cnt b) \<Longrightarrow> abs_bits b' ! j =
        (if unat start \<le> j \<and> j < unat start + unat cnt then v else abs_bits b ! j)"
    using set_multiple_loop_bits [OF assms(1), of start 0 "unat cnt" v] assms(2)
    by (auto simp: in_range_def)
  have "abs_bits b' = take (unat start) (abs_bits b) @ replicate (unat cnt) v
        @ drop (unat start + unat cnt) (abs_bits b)"
    using assms(2) b'(3) by (intro nth_equalityI)
      (auto simp: b'(4) nth_append in_range_def simp del: nth_abs_bits)
  then show ?thesis using b' in_range_asserts [OF assms(2)] by (simp add: bitmap_set_multiple_def)
qed

lemma contains_loop_bits:
  "wf_bitmap b \<Longrightarrow> unat start + unat i + n \<le> unat (bit_cnt b) \<Longrightarrow>
   contains_loop n b start i v
     = Inr (\<exists>j. unat start + unat i \<le> j \<and> j < unat start + unat i + n \<and> abs_bits b ! j = v)"
proof (induction n arbitrary: i)
  case 0
  then show ?case by simp
next
  case (Suc n)
  note c = loop_cursor [OF Suc.prems(2)]
  have IH: "contains_loop n b start (i + 1) v
     = Inr (\<exists>j. Suc (unat start + unat i) \<le> j \<and> j < Suc (unat start + unat i + n) \<and> abs_bits b ! j = v)"
    using Suc.IH [OF Suc.prems(1) c(3)] c(4) by simp
  have t: "bitmap_test b (start + i) = Inr (abs_bits b ! (unat start + unat i))"
    using bitmap_test_bits [OF Suc.prems(1) c(2)] c(1) by simp
  show ?case
  proof (cases "abs_bits b ! (unat start + unat i) = v")
    case True
    then show ?thesis using t by (auto intro!: exI [of _ "unat start + unat i"] simp del: nth_abs_bits)
  next
    case False
    then have "(\<exists>j. unat start + unat i \<le> j \<and> j < unat start + unat i + Suc n \<and> abs_bits b ! j = v)
      \<longleftrightarrow> (\<exists>j. Suc (unat start + unat i) \<le> j \<and> j < Suc (unat start + unat i + n) \<and> abs_bits b ! j = v)"
      by (metis Suc_leD add_Suc_right le_antisym not_less_eq_eq)
    then show ?thesis using False t IH by simp
  qed
qed

lemma bitmap_contains_bits:
  assumes "wf_bitmap b" "in_range b start cnt"
  shows "bitmap_contains b start cnt v = Inr (\<exists>j. unat start \<le> j \<and> j < unat start + unat cnt \<and> abs_bits b ! j = v)"
  using contains_loop_bits [OF assms(1), of start 0 "unat cnt" v] assms(2) in_range_asserts [OF assms(2)]
  by (simp add: bitmap_contains_def in_range_def)

lemma count_loop_bits:
  "wf_bitmap b \<Longrightarrow> unat start + unat i + n \<le> unat (bit_cnt b) \<Longrightarrow>
   count_loop n b start i v c
     = Inr (c + of_nat (card {j. unat start + unat i \<le> j \<and> j < unat start + unat i + n \<and> abs_bits b ! j = v}))"
proof (induction n arbitrary: i c)
  case 0
  have "{j. unat start + unat i \<le> j \<and> j < unat start + unat i + 0 \<and> abs_bits b ! j = v} = {}"
    by auto
  then show ?case by (simp only: count_loop.simps card.empty) simp
next
  case (Suc n)
  note cu = loop_cursor [OF Suc.prems(2)]
  let ?s = "unat start + unat i"
  let ?R = "{j. Suc ?s \<le> j \<and> j < Suc (?s + n) \<and> abs_bits b ! j = v}"
  have t: "bitmap_test b (start + i) = Inr (abs_bits b ! ?s)"
    using bitmap_test_bits [OF Suc.prems(1) cu(2)] cu(1) by simp
  have IH: "count_loop n b start (i + 1) v c' = Inr (c' + of_nat (card ?R))" for c'
    using Suc.IH [OF Suc.prems(1) cu(3)] cu(4) by simp
  have "{j. ?s \<le> j \<and> j < ?s + Suc n \<and> abs_bits b ! j = v} = (if abs_bits b ! ?s = v then insert ?s ?R else ?R)"
    by (auto simp: le_eq_less_or_eq Suc_le_eq simp del: nth_abs_bits)
  moreover have "finite ?R" by (rule finite_subset [of _ "{..< Suc (?s + n)}"]) auto
  ultimately show ?case using t IH by (simp add: add.assoc del: nth_abs_bits)
qed

section \<open>First fit\<close>

text \<open>The reference for \<open>bitmap_scan\<close>: the first position of a run of \<open>cnt\<close> bits equal to \<open>v\<close>.\<close>

lemma card_filter_range:
  "card {j. a \<le> j \<and> j < a + n \<and> P (xs ! j)} = length (filter P (take n (drop a xs)))"
  if "a + n \<le> length xs"
proof -
  have len: "length (take n (drop a xs)) = n" using that by simp
  have "length (filter P (take n (drop a xs))) = card {i. i < n \<and> P (take n (drop a xs) ! i)}"
    unfolding length_filter_conv_card len ..
  also have "\<dots> = card ((\<lambda>i. a + i) ` {i. i < n \<and> P (take n (drop a xs) ! i)})"
    by (rule card_image [symmetric]) (simp add: inj_on_def)
  also have "(\<lambda>i. a + i) ` {i. i < n \<and> P (take n (drop a xs) ! i)} = {j. a \<le> j \<and> j < a + n \<and> P (xs ! j)}"
    (is "?f ` ?A = ?B")
  proof
    show "?f ` ?A \<subseteq> ?B" using that by auto
    show "?B \<subseteq> ?f ` ?A"
    proof
      fix j assume "j \<in> ?B"
      then have "j = a + (j - a)" "j - a \<in> ?A" using that by auto
      then show "j \<in> ?f ` ?A" by blast
    qed
  qed
  finally show ?thesis ..
qed

lemma bitmap_count_bits:
  assumes "wf_bitmap b" "in_range b start cnt"
  shows "bitmap_count b start cnt v = Inr (of_nat (length (filter (\<lambda>x. x = v)
     (take (unat cnt) (drop (unat start) (abs_bits b))))))"
  using count_loop_bits [OF assms(1), of start 0 "unat cnt" v 0] assms(2) in_range_asserts [OF assms(2)]
    card_filter_range [of "unat start" "unat cnt" "abs_bits b" "\<lambda>x. x = v"]
  by (simp add: bitmap_count_def in_range_def)

definition run_at :: "bool list \<Rightarrow> nat \<Rightarrow> bool \<Rightarrow> nat \<Rightarrow> bool" where
  "run_at xs cnt v i \<longleftrightarrow> (\<forall>j\<in>{i..<i + cnt}. xs ! j = v)"

definition first_fit :: "bool list \<Rightarrow> nat \<Rightarrow> nat \<Rightarrow> bool \<Rightarrow> nat option" where
  "first_fit xs start cnt v = (if cnt \<le> length xs
     then find (run_at xs cnt v) [start..<Suc (length xs - cnt)] else None)"

lemma find_upt_Some:
  "find P [a..<b] = Some i \<longleftrightarrow> a \<le> i \<and> i < b \<and> P i \<and> (\<forall>j. a \<le> j \<and> j < i \<longrightarrow> \<not> P j)"
proof (induction "b - a" arbitrary: a)
  case 0
  then show ?case by auto
next
  case (Suc n)
  then have "a < b" by simp
  then have "[a..<b] = a # [Suc a..<b]" by (rule upt_conv_Cons)
  moreover have "find P [Suc a..<b] = Some i \<longleftrightarrow>
      Suc a \<le> i \<and> i < b \<and> P i \<and> (\<forall>j. Suc a \<le> j \<and> j < i \<longrightarrow> \<not> P j)"
    using Suc.hyps(1) [of "Suc a"] Suc.hyps(2) by simp
  ultimately show ?case
    using \<open>a < b\<close> by (cases "P a") (auto, (metis Suc_leD Suc_leI le_neq_implies_less order_refl)+)
qed

lemma find_upt_None: "find P [a..<b] = None \<longleftrightarrow> (\<forall>j. a \<le> j \<and> j < b \<longrightarrow> \<not> P j)"
  by (auto simp: find_None_iff)

lemma first_fit_Some:
  "first_fit xs start cnt v = Some i \<longleftrightarrow>
     start \<le> i \<and> i + cnt \<le> length xs \<and> run_at xs cnt v i \<and>
     (\<forall>j. start \<le> j \<and> j < i \<longrightarrow> \<not> run_at xs cnt v j)"
  by (auto simp: first_fit_def find_upt_Some simp del: upt_Suc)

lemma first_fit_None:
  "first_fit xs start cnt v = None \<longleftrightarrow>
     (\<forall>j. start \<le> j \<and> j + cnt \<le> length xs \<longrightarrow> \<not> run_at xs cnt v j)"
  by (auto simp: first_fit_def find_upt_None simp del: upt_Suc)

lemma scan_loop_bits:
  "wf_bitmap b \<Longrightarrow> unat i + n + unat cnt \<le> Suc (unat (bit_cnt b)) \<Longrightarrow>
   scan_loop n b i cnt v = Inr (case find (run_at (abs_bits b) (unat cnt) v) [unat i..<unat i + n] of
       None \<Rightarrow> BITMAP_ERROR | Some k \<Rightarrow> of_nat k)"
proof (induction n arbitrary: i)
  case 0
  then show ?case by simp
next
  case (Suc n)
  have r: "in_range b i cnt" using Suc.prems by (simp add: in_range_def)
  have up: "[unat i..<unat i + Suc n] = unat i # [Suc (unat i)..<Suc (unat i) + n]"
    by (simp add: upt_conv_Cons)
  have c: "bitmap_contains b i cnt (\<not> v) = Inr (\<not> run_at (abs_bits b) (unat cnt) v (unat i))"
    using bitmap_contains_bits [OF Suc.prems(1) r, of "\<not> v"]
    by (auto simp: run_at_def simp del: nth_abs_bits)
  show ?case
  proof (cases "run_at (abs_bits b) (unat cnt) v (unat i)")
    case True
    then show ?thesis using c unfolding up by simp
  next
    case False
    have "scan_loop n b (i + 1) cnt v =
        Inr (case find (run_at (abs_bits b) (unat cnt) v) [Suc (unat i)..<Suc (unat i) + n] of
          None \<Rightarrow> BITMAP_ERROR | Some k \<Rightarrow> of_nat k)"
    proof (cases n)
      case 0
      then show ?thesis by simp
    next
      case (Suc m)
      have "unat (bit_cnt b) < 2 ^ 32" using unsigned_less [of "bit_cnt b"] by simp
      then have "unat (i + 1) = Suc (unat i)"
        using Suc.prems(2) Suc unat_add_small [of i 1] by simp
      then show ?thesis using Suc.IH [of "i + 1"] Suc.prems by simp
    qed
    then show ?thesis using c False unfolding up by simp
  qed
qed

lemma bitmap_scan_bits:
  assumes wf: "wf_bitmap b" and start: "start \<le> bit_cnt b"
  shows "bitmap_scan b start cnt v = Inr (case first_fit (abs_bits b) (unat start) (unat cnt) v of
     None \<Rightarrow> BITMAP_ERROR | Some k \<Rightarrow> of_nat k)"
proof (cases "cnt \<le> bit_cnt b")
  case False
  then show ?thesis using start
    by (simp add: bitmap_scan_def first_fit_def word_le_nat_alt)
next
  case True
  define e where "e = bit_cnt b - cnt"
  have e: "unat e = unat (bit_cnt b) - unat cnt" and le: "unat cnt \<le> unat (bit_cnt b)"
    using True by (simp_all add: e_def unat_sub word_le_nat_alt)
  define n where "n = (if start \<le> e then unat e - unat start + 1 else 0)"
  have n: "n = Suc (unat (bit_cnt b) - unat cnt) - unat start"
    using e by (auto simp: n_def word_le_nat_alt)
  have rng: "[unat start..<Suc (length (abs_bits b) - unat cnt)] = [unat start..<unat start + n]"
    using n by (cases "unat start \<le> Suc (unat (bit_cnt b) - unat cnt)") auto
  have "scan_loop n b start cnt v = Inr (case find (run_at (abs_bits b) (unat cnt) v) [unat start..<unat start + n] of
       None \<Rightarrow> BITMAP_ERROR | Some k \<Rightarrow> of_nat k)"
  proof (cases "n = 0")
    case False
    then show ?thesis using n le by (intro scan_loop_bits [OF wf]) simp
  qed simp
  then show ?thesis
    using start True le rng by (simp add: bitmap_scan_def first_fit_def e_def [symmetric] n_def [symmetric])
qed

lemma bitmap_scan_and_flip_None:
  assumes "wf_bitmap b" "start \<le> bit_cnt b" "first_fit (abs_bits b) (unat start) (unat cnt) v = None"
  shows "bitmap_scan_and_flip b start cnt v = Inr (b, BITMAP_ERROR)"
  using bitmap_scan_bits [OF assms(1,2), of cnt v] assms(3) by (simp add: bitmap_scan_and_flip_def)

lemma bitmap_scan_and_flip_Some:
  assumes wf: "wf_bitmap b" "start \<le> bit_cnt b"
    and fit: "first_fit (abs_bits b) (unat start) (unat cnt) v = Some i"
    and lim: "0 < cnt"
  shows "\<exists>b'. bitmap_scan_and_flip b start cnt v = Inr (b', of_nat i) \<and> wf_bitmap b' \<and>
     bit_cnt b' = bit_cnt b \<and> (of_nat i :: u32) \<noteq> BITMAP_ERROR \<and> unat (of_nat i :: u32) = i \<and>
     abs_bits b' = take i (abs_bits b) @ replicate (unat cnt) (\<not> v) @ drop (i + unat cnt) (abs_bits b)"
proof -
  have "unat (bit_cnt b) < 2 ^ 32" using unsigned_less [of "bit_cnt b"] by simp
  moreover have le: "i + unat cnt \<le> unat (bit_cnt b)" using fit by (simp add: first_fit_Some)
  moreover have "0 < unat cnt" using lim by (simp add: word_less_nat_alt)
  ultimately have i: "unat (of_nat i :: u32) = i" and i': "i < 4294967295"
    by (simp_all add: unat_of_nat)
  have ne: "(of_nat i :: u32) \<noteq> BITMAP_ERROR"
    using i i' by (auto simp: BITMAP_ERROR_def)
  have "in_range b (of_nat i) cnt" using le i by (simp add: in_range_def)
  from bitmap_set_multiple_bits [OF wf(1) this, of "\<not> v"] i ne
  show ?thesis
    using bitmap_scan_bits [OF wf, of cnt v] fit by (auto simp: bitmap_scan_and_flip_def)
qed

text \<open>The case of a single bit.\<close>

lemma run_at_one: "run_at xs (Suc 0) v i \<longleftrightarrow> xs ! i = v"
  by (simp add: run_at_def)

lemma update_one_bit:
  assumes "i < length xs"
  shows "take i xs @ replicate 1 v @ drop (i + 1) xs = xs[i := v]"
  using assms by (simp add: upd_conv_take_nth_drop)

lemma bitmap_set_one:
  assumes "wf_bitmap b" "i < unat (bit_cnt b)"
  shows "\<exists>b'. bitmap_set_multiple b (of_nat i) 1 v = Inr b' \<and> wf_bitmap b' \<and> bit_cnt b' = bit_cnt b \<and>
     abs_bits b' = (abs_bits b)[i := v]"
proof -
  have i: "unat (of_nat i :: u32) = i" using assms(2) by (rule unat_of_nat_below)
  then have "in_range b (of_nat i) 1" using assms(2) by (simp add: in_range_def)
  from bitmap_set_multiple_bits [OF assms(1) this, of v] show ?thesis
    using update_one_bit [of i "abs_bits b" v] assms(2) by (simp add: i)
qed

section \<open>The allocator interface\<close>

text \<open>
  What the free map and the page allocator rely on: a set of slots in use over a store; allocating
  returns a slot that was free and marks it, or fails only when every slot is in use; releasing
  a slot in use makes it free again; neither touches another slot.
\<close>

fun alloc_many :: "('s \<Rightarrow> ('s \<times> nat option) res) \<Rightarrow> nat \<Rightarrow> 's \<Rightarrow> ('s \<times> nat list) res" where
  "alloc_many alloc 0 s = Inr (s, [])"
| "alloc_many alloc (Suc n) s = bindR (alloc s) (\<lambda>(s, i). case i of None \<Rightarrow> Inr (s, [])
     | Some i \<Rightarrow> bindR (alloc_many alloc n s) (\<lambda>(s, is). Inr (s, i # is)))"

locale slot_allocator =
  fixes inv :: "'s \<Rightarrow> bool"
    and slots :: "'s \<Rightarrow> nat"
    and used :: "'s \<Rightarrow> nat set"
    and alloc :: "'s \<Rightarrow> ('s \<times> nat option) res"
    and release :: "'s \<Rightarrow> nat \<Rightarrow> 's res"
  assumes used_slots: "inv s \<Longrightarrow> used s \<subseteq> {..<slots s}"
    and alloc_ok: "inv s \<Longrightarrow> used s \<noteq> {..<slots s} \<Longrightarrow>
      \<exists>s' i. alloc s = Inr (s', Some i) \<and> inv s' \<and> slots s' = slots s \<and>
        i < slots s \<and> i \<notin> used s \<and> used s' = insert i (used s)"
    and alloc_full: "inv s \<Longrightarrow> used s = {..<slots s} \<Longrightarrow> alloc s = Inr (s, None)"
    and release_ok: "inv s \<Longrightarrow> i \<in> used s \<Longrightarrow>
      \<exists>s'. release s i = Inr s' \<and> inv s' \<and> slots s' = slots s \<and> used s' = used s - {i}"
begin

text \<open>Allocating \<open>n\<close> times from a store with at least \<open>n\<close> free slots gives \<open>n\<close> different free slots.\<close>

lemma alloc_many_distinct:
  "inv s \<Longrightarrow> n \<le> slots s - card (used s) \<Longrightarrow>
   \<exists>s' is. alloc_many alloc n s = Inr (s', is) \<and> length is = n \<and> distinct is \<and>
     set is \<inter> used s = {} \<and> inv s' \<and> slots s' = slots s \<and> used s' = used s \<union> set is"
proof (induction n arbitrary: s)
  case 0
  then show ?case by simp
next
  case (Suc n)
  have "used s \<noteq> {..<slots s}"
  proof
    assume "used s = {..<slots s}"
    then have "card (used s) = slots s" by (metis card_lessThan)
    with Suc.prems(2) show False by simp
  qed
  then obtain s1 i where s1: "alloc s = Inr (s1, Some i)" "inv s1" "slots s1 = slots s"
      "i < slots s" "i \<notin> used s" "used s1 = insert i (used s)"
    using alloc_ok [OF Suc.prems(1)] by blast
  have "finite (used s)" using used_slots [OF Suc.prems(1)] finite_subset by blast
  then have "card (used s1) = Suc (card (used s))" using s1 by simp
  then have "n \<le> slots s1 - card (used s1)" using Suc.prems(2) s1(3) by simp
  from Suc.IH [OF s1(2) this] obtain s2 "is" where "alloc_many alloc n s1 = Inr (s2, is)"
      "length is = n" "distinct is" "set is \<inter> used s1 = {}" "inv s2" "slots s2 = slots s1"
      "used s2 = used s1 \<union> set is" by blast
  then show ?case using s1 by (intro exI [of _ s2] exI [of _ "i # is"]) auto
qed

lemma alloc_release: 
  assumes "inv s" "used s \<noteq> {..<slots s}"
  shows "\<exists>s1 s2 i. alloc s = Inr (s1, Some i) \<and> release s1 i = Inr s2 \<and> used s2 = used s \<and> inv s2"
proof -
  obtain s1 i where s1: "alloc s = Inr (s1, Some i)" "inv s1" "i \<notin> used s" "used s1 = insert i (used s)"
    using alloc_ok [OF assms] by blast
  with release_ok [of s1 i] show ?thesis by auto
qed

end

section \<open>Properties\<close>

definition sample_bitmap :: bitmap where
  "sample_bitmap = \<lparr>bit_cnt = 40, bits = [0xFFFFFFF7, 0x0000000F]\<rparr>"

lemma sample_bitmap_wf: "wf_bitmap sample_bitmap"
  by (simp add: wf_bitmap_def sample_bitmap_def)

text \<open>
  C24. \<open>bitmap_scan\<close> finds the first run: when it returns an index, the \<open>cnt\<close> bits from there are all
  equal to the value asked for and inside the bitmap, and no earlier index at or after \<open>start\<close> has
  such a run; it returns \<open>BITMAP_ERROR\<close> exactly when there is none.
\<close>

theorem bitmap_scan_first_run:
  assumes "wf_bitmap b" "start \<le> bit_cnt b" "0 < cnt"
  shows "\<exists>r. bitmap_scan b start cnt v = Inr r \<and>
     (if r = BITMAP_ERROR
      then \<forall>j. unat start \<le> j \<and> j + unat cnt \<le> unat (bit_cnt b) \<longrightarrow> \<not> run_at (abs_bits b) (unat cnt) v j
      else start \<le> r \<and> unat r + unat cnt \<le> unat (bit_cnt b) \<and> run_at (abs_bits b) (unat cnt) v (unat r) \<and>
        (\<forall>j. unat start \<le> j \<and> j < unat r \<longrightarrow> \<not> run_at (abs_bits b) (unat cnt) v j))"
proof (cases "first_fit (abs_bits b) (unat start) (unat cnt) v")
  case None
  then show ?thesis
    using bitmap_scan_bits [OF assms(1,2), of cnt v] None [unfolded first_fit_None] by simp
next
  case (Some i)
  then have i: "unat start \<le> i" "i + unat cnt \<le> unat (bit_cnt b)" "run_at (abs_bits b) (unat cnt) v i"
      "\<forall>j. unat start \<le> j \<and> j < i \<longrightarrow> \<not> run_at (abs_bits b) (unat cnt) v j"
    by (simp_all add: first_fit_Some)
  moreover have "unat (of_nat i :: u32) = i" "(of_nat i :: u32) \<noteq> BITMAP_ERROR"
    using bitmap_scan_and_flip_Some [OF assms(1,2) Some assms(3)] by auto
  ultimately show ?thesis
    using bitmap_scan_bits [OF assms(1,2), of cnt v] Some by (simp add: word_le_nat_alt)
qed

theorem bitmap_scan_first_run_witness:
  "\<exists>r. bitmap_scan sample_bitmap 4 2 False = Inr r"
  using bitmap_scan_first_run [OF sample_bitmap_wf, of 4 2 False] by (auto simp: sample_bitmap_def)

text \<open>
  Setting a range of bits and counting: \<open>bitmap_set_multiple\<close> makes all bits of the range equal
  to the value and changes no other bit, and \<open>bitmap_count\<close> over a range returns the number of bits
  in it that have the value asked for.
\<close>

theorem bitmap_set_multiple_count:
  assumes "wf_bitmap b" "unat start + unat cnt \<le> unat (bit_cnt b)"
  shows "\<exists>b'. bitmap_set_multiple b start cnt v = Inr b' \<and> wf_bitmap b' \<and> bit_cnt b' = bit_cnt b \<and>
     (\<forall>j < unat (bit_cnt b). abs_bits b' ! j =
        (if unat start \<le> j \<and> j < unat start + unat cnt then v else abs_bits b ! j)) \<and>
     bitmap_count b' start cnt v = Inr cnt \<and>
     bitmap_count b start cnt w = Inr (of_nat (length (filter (\<lambda>x. x = w)
        (take (unat cnt) (drop (unat start) (abs_bits b))))))"
proof -
  have r: "in_range b start cnt" using assms(2) by (simp add: in_range_def)
  obtain b' where b': "bitmap_set_multiple b start cnt v = Inr b'" "wf_bitmap b'" "bit_cnt b' = bit_cnt b"
      "abs_bits b' = take (unat start) (abs_bits b) @ replicate (unat cnt) v
        @ drop (unat start + unat cnt) (abs_bits b)"
    using bitmap_set_multiple_bits [OF assms(1) r] by blast
  have r': "in_range b' start cnt" using r b'(3) by (simp add: in_range_def)
  have "bitmap_count b' start cnt v = Inr cnt"
    using bitmap_count_bits [OF b'(2) r', of v] assms(2) by (simp add: b'(4))
  moreover have "\<forall>j < unat (bit_cnt b). abs_bits b' ! j =
        (if unat start \<le> j \<and> j < unat start + unat cnt then v else abs_bits b ! j)"
    using assms(2) by (auto simp: b'(4) nth_append simp del: nth_abs_bits)
  ultimately show ?thesis using b' bitmap_count_bits [OF assms(1) r, of w] by blast
qed

theorem bitmap_set_multiple_count_witness:
  "\<exists>b'. bitmap_set_multiple sample_bitmap 30 5 False = Inr b' \<and> bitmap_count b' 30 5 False = Inr 5"
  using bitmap_set_multiple_count [OF sample_bitmap_wf, of 30 5 False] by (auto simp: sample_bitmap_def)

text \<open>
  The single-bit operations act on the list of bits as the list update does: \<open>bitmap_set\<close> writes
  one bit, \<open>bitmap_flip\<close> negates one, \<open>bitmap_test\<close> reads one; and \<open>bitmap_flip\<close> twice is the
  identity on the bits. \<open>bitmap_test\<close> outside the bitmap halts the kernel.
\<close>

theorem bitmap_single_bit:
  assumes "wf_bitmap b" "i < bit_cnt b" "bit_cnt b \<le> k"
  shows "(\<exists>b1. bitmap_set b i v = Inr b1 \<and> abs_bits b1 = (abs_bits b)[unat i := v] \<and>
       bitmap_test b1 i = Inr v) \<and>
     (\<exists>b1 b2. bitmap_flip b i = Inr b1 \<and> abs_bits b1 = (abs_bits b)[unat i := \<not> abs_bits b ! unat i] \<and>
       bitmap_flip b1 i = Inr b2 \<and> abs_bits b2 = abs_bits b) \<and>
     bitmap_test b k = Inl Assertion_failure"
proof (intro conjI)
  have il: "unat i < unat (bit_cnt b)" using assms(2) by (simp add: word_less_nat_alt)
  obtain b1 where "bitmap_set b i v = Inr b1" "wf_bitmap b1" "bit_cnt b1 = bit_cnt b"
      "abs_bits b1 = (abs_bits b)[unat i := v]"
    using bitmap_set_bits [OF assms(1,2)] by blast
  then show "\<exists>b1. bitmap_set b i v = Inr b1 \<and> abs_bits b1 = (abs_bits b)[unat i := v] \<and>
       bitmap_test b1 i = Inr v"
    using bitmap_test_bits [of b1 i] assms(2) il by auto
  obtain b1 where b1: "bitmap_flip b i = Inr b1" "wf_bitmap b1" "bit_cnt b1 = bit_cnt b"
      "abs_bits b1 = (abs_bits b)[unat i := \<not> abs_bits b ! unat i]"
    using bitmap_flip_bits [OF assms(1,2)] by blast
  moreover obtain b2 where "bitmap_flip b1 i = Inr b2" "abs_bits b2 = (abs_bits b1)[unat i := \<not> abs_bits b1 ! unat i]"
    using bitmap_flip_bits [OF b1(2)] b1(3) assms(2) by auto
  ultimately show "\<exists>b1 b2. bitmap_flip b i = Inr b1 \<and>
       abs_bits b1 = (abs_bits b)[unat i := \<not> abs_bits b ! unat i] \<and>
       bitmap_flip b1 i = Inr b2 \<and> abs_bits b2 = abs_bits b"
    using il by (auto simp del: nth_abs_bits)
  show "bitmap_test b k = Inl Assertion_failure" by (rule bitmap_test_out_of_range [OF assms(3)])
qed

theorem bitmap_single_bit_witness:
  "(\<exists>b1. bitmap_set sample_bitmap 35 False = Inr b1 \<and> bitmap_test b1 35 = Inr False) \<and>
   bitmap_test sample_bitmap 40 = Inl Assertion_failure"
  using bitmap_single_bit [OF sample_bitmap_wf, of 35 40 False] by (auto simp: sample_bitmap_def)

end
