(* ===== verification/Free_Map.thy ===== *)
theory Free_Map
  imports Bitmap
begin

text \<open>
  \<^verbatim>\<open>filesys/free-map.c\<close>: the sectors in use, one bit each, and their allocation. Whether
  \<open>bitmap_write\<close> reaches the free-map file is an outcome of the file system, passed to the
  operations as \<open>write_ok\<close>; so are the outcomes of the two allocations of
  \<open>bitmap_create\<close>.
\<close>

section \<open>Model\<close>

definition DEBUG_SECTOR :: u32 where "DEBUG_SECTOR = 0"
definition FREE_MAP_SECTOR :: u32 where "FREE_MAP_SECTOR = 1"
definition ROOT_DIR_SECTOR :: u32 where "ROOT_DIR_SECTOR = 2"

record free_map_state =
  free_map :: bitmap
  free_map_file :: "addr option"

definition free_map_init :: "bool \<Rightarrow> u32 list option \<Rightarrow> u32 \<Rightarrow> free_map_state res" where
  "free_map_init header_ok storage device_size =
     bindR (bitmap_create header_ok storage (device_size * 4)) (\<lambda>b. case b of
       None \<Rightarrow> Inl Kernel_panic
     | Some b \<Rightarrow>
         bindR (bitmap_mark b DEBUG_SECTOR) (\<lambda>b.
         bindR (bitmap_mark b FREE_MAP_SECTOR) (\<lambda>b.
         bindR (bitmap_mark b ROOT_DIR_SECTOR) (\<lambda>b.
         Inr \<lparr>free_map = b, free_map_file = None\<rparr>))))"

definition free_map_allocate :: "bool \<Rightarrow> free_map_state \<Rightarrow> (free_map_state \<times> u32 option) res" where
  "free_map_allocate write_ok fm =
     bindR (bitmap_scan_and_flip (free_map fm) 0 1 False) (\<lambda>(b, sector).
     bindR (if sector \<noteq> BITMAP_ERROR \<and> free_map_file fm \<noteq> None \<and> \<not> write_ok
            then bindR (bitmap_set_multiple b sector 1 False) (\<lambda>b. Inr (b, BITMAP_ERROR))
            else Inr (b, sector)) (\<lambda>(b, sector).
     Inr (fm\<lparr>free_map := b\<rparr>, if sector \<noteq> BITMAP_ERROR then Some sector else None)))"

text \<open>Writing through the null file pointer of an unopened map is an invalid access.\<close>

definition free_map_release :: "free_map_state \<Rightarrow> u32 \<Rightarrow> free_map_state res" where
  "free_map_release fm sector =
     bindR (bitmap_all (free_map fm) sector 1) (\<lambda>a.
     bindR (ASSERT a) (\<lambda>_.
     bindR (bitmap_set_multiple (free_map fm) sector 1 False) (\<lambda>b.
     if free_map_file fm = None then Inl Invalid_access else Inr (fm\<lparr>free_map := b\<rparr>))))"

section \<open>The free map as an allocator of slots\<close>

definition fm_inv :: "free_map_state \<Rightarrow> bool" where
  "fm_inv fm \<longleftrightarrow> wf_bitmap (free_map fm) \<and> free_map_file fm \<noteq> None"

definition fm_slots :: "free_map_state \<Rightarrow> nat" where
  "fm_slots fm = unat (bit_cnt (free_map fm))"

definition fm_used :: "free_map_state \<Rightarrow> nat set" where
  "fm_used fm = {i. i < fm_slots fm \<and> abs_bits (free_map fm) ! i}"

definition fm_alloc :: "free_map_state \<Rightarrow> (free_map_state \<times> nat option) res" where
  "fm_alloc fm = bindR (free_map_allocate True fm) (\<lambda>(fm, s). Inr (fm, map_option unat s))"

definition fm_release :: "free_map_state \<Rightarrow> nat \<Rightarrow> free_map_state res" where
  "fm_release fm i = free_map_release fm (of_nat i)"

lemmas fm_defs = fm_inv_def fm_slots_def fm_used_def

lemma free_map_full:
  assumes "fm_inv fm" "fm_used fm = {..<fm_slots fm}"
  shows "free_map_allocate write_ok fm = Inr (fm, None)"
proof -
  have "first_fit (abs_bits (free_map fm)) (unat (0::u32)) (unat (1::u32)) False = None"
    using assms(2) unfolding first_fit_None fm_used_def fm_slots_def
    by (simp add: run_at_one set_eq_iff Suc_le_eq del: nth_abs_bits) blast
  then show ?thesis
    using bitmap_scan_and_flip_None [of "free_map fm" 0 1 False] assms(1)
    by (simp add: free_map_allocate_def fm_defs)
qed

text \<open>
  The first free sector is taken; when the map cannot be written back the bit is cleared again and
  nothing has changed.
\<close>

lemma free_map_allocate_first:
  assumes "fm_inv fm" "fm_used fm \<noteq> {..<fm_slots fm}"
  shows "\<exists>i b. i < fm_slots fm \<and> i \<notin> fm_used fm \<and> {..<i} \<subseteq> fm_used fm \<and> unat (of_nat i :: u32) = i \<and>
     free_map_allocate True fm = Inr (fm\<lparr>free_map := b\<rparr>, Some (of_nat i)) \<and> wf_bitmap b \<and>
     bit_cnt b = bit_cnt (free_map fm) \<and> abs_bits b = (abs_bits (free_map fm))[i := True] \<and>
     (\<exists>b'. free_map_allocate False fm = Inr (fm\<lparr>free_map := b'\<rparr>, None) \<and> wf_bitmap b' \<and>
       bit_cnt b' = bit_cnt (free_map fm) \<and> abs_bits b' = abs_bits (free_map fm))"
proof -
  let ?bm = "free_map fm"
  have "first_fit (abs_bits ?bm) (unat (0::u32)) (unat (1::u32)) False \<noteq> None"
    using assms(2) by (auto simp: first_fit_None run_at_one fm_defs)
  then obtain i where fit: "first_fit (abs_bits ?bm) (unat (0::u32)) (unat (1::u32)) False = Some i" by blast
  then have i: "i < unat (bit_cnt ?bm)" "\<not> abs_bits ?bm ! i" "\<forall>j<i. abs_bits ?bm ! j"
    by (auto simp: first_fit_Some run_at_one)
  obtain b where b: "bitmap_scan_and_flip ?bm 0 1 False = Inr (b, of_nat i)" "wf_bitmap b"
      "bit_cnt b = bit_cnt ?bm" "(of_nat i :: u32) \<noteq> BITMAP_ERROR" "unat (of_nat i :: u32) = i"
      "abs_bits b = (abs_bits ?bm)[i := True]"
    using bitmap_scan_and_flip_Some [OF _ _ fit] assms(1) i(1) update_one_bit [of i "abs_bits ?bm" True]
    by (auto simp: fm_inv_def)
  obtain b' where b': "bitmap_set_multiple b (of_nat i) 1 False = Inr b'" "wf_bitmap b'"
      "bit_cnt b' = bit_cnt b" "abs_bits b' = (abs_bits b)[i := False]"
    using bitmap_set_one [OF b(2), of i False] i(1) b(3) by auto
  have "abs_bits b' = abs_bits ?bm"
    using b(6) b'(4) i by (metis list_update_id list_update_overwrite)
  then show ?thesis
    using i b b' assms(1)
    by (intro exI [of _ i] exI [of _ b]) (auto simp: fm_defs free_map_allocate_def)
qed

lemma free_map_release_used:
  assumes "fm_inv fm" "i \<in> fm_used fm"
  shows "\<exists>b. free_map_release fm (of_nat i) = Inr (fm\<lparr>free_map := b\<rparr>) \<and> wf_bitmap b \<and>
     bit_cnt b = bit_cnt (free_map fm) \<and> abs_bits b = (abs_bits (free_map fm))[i := False]"
proof -
  let ?bm = "free_map fm"
  have i: "i < unat (bit_cnt ?bm)" "abs_bits ?bm ! i" and wf: "wf_bitmap ?bm"
    using assms by (auto simp: fm_defs)
  have ui: "unat (of_nat i :: u32) = i" using i(1) by (rule unat_of_nat_below)
  then have "in_range ?bm (of_nat i) 1" using i(1) by (simp add: in_range_def)
  from bitmap_contains_bits [OF wf this, of False] i(2)
  have "bitmap_all ?bm (of_nat i) 1 = Inr True"
    by (auto simp: bitmap_all_def ui less_Suc_eq_le dest: le_antisym)
  then show ?thesis
    using bitmap_set_one [OF wf i(1), of False] assms(1) by (auto simp: free_map_release_def fm_inv_def)
qed

interpretation fm: slot_allocator fm_inv fm_slots fm_used fm_alloc fm_release
proof
  show "fm_used s \<subseteq> {..<fm_slots s}" for s by (auto simp: fm_used_def)
  show "fm_inv s \<Longrightarrow> fm_used s = {..<fm_slots s} \<Longrightarrow> fm_alloc s = Inr (s, None)" for s
    by (simp add: fm_alloc_def free_map_full)
next
  fix s assume s: "fm_inv s" "fm_used s \<noteq> {..<fm_slots s}"
  from free_map_allocate_first [OF s] obtain i b where i: "i < fm_slots s" "i \<notin> fm_used s"
      "unat (of_nat i :: u32) = i" "free_map_allocate True s = Inr (s\<lparr>free_map := b\<rparr>, Some (of_nat i))"
      "wf_bitmap b" "bit_cnt b = bit_cnt (free_map s)" "abs_bits b = (abs_bits (free_map s))[i := True]"
    by blast
  moreover have "fm_used (s\<lparr>free_map := b\<rparr>) = insert i (fm_used s)"
    using i by (auto simp: fm_defs nth_list_update)
  ultimately show "\<exists>s' i. fm_alloc s = Inr (s', Some i) \<and> fm_inv s' \<and> fm_slots s' = fm_slots s \<and>
        i < fm_slots s \<and> i \<notin> fm_used s \<and> fm_used s' = insert i (fm_used s)"
    using s(1) by (intro exI [of _ "s\<lparr>free_map := b\<rparr>"] exI [of _ i]) (simp add: fm_alloc_def fm_inv_def fm_slots_def)
next
  fix s i assume s: "fm_inv s" "i \<in> fm_used s"
  from free_map_release_used [OF s] obtain b where b: "free_map_release s (of_nat i) = Inr (s\<lparr>free_map := b\<rparr>)"
      "wf_bitmap b" "bit_cnt b = bit_cnt (free_map s)" "abs_bits b = (abs_bits (free_map s))[i := False]"
    by blast
  then have "fm_used (s\<lparr>free_map := b\<rparr>) = fm_used s - {i}"
    using s(2) by (auto simp: fm_defs nth_list_update)
  then show "\<exists>s'. fm_release s i = Inr s' \<and> fm_inv s' \<and> fm_slots s' = fm_slots s \<and> fm_used s' = fm_used s - {i}"
    using b s(1) by (auto simp: fm_release_def fm_inv_def fm_slots_def)
qed

lemma bitmap_mark_size: "bitmap_mark b i = Inr b' \<Longrightarrow> bit_cnt b' = bit_cnt b"
  by (auto simp: bitmap_mark_def modify_elem_def split: if_splits)

lemma set_multiple_loop_size: "set_multiple_loop n b start i v = Inr b' \<Longrightarrow> bit_cnt b' = bit_cnt b"
  by (induction n arbitrary: b i)
    (auto simp: bindR_eq_Inr bitmap_set_def bitmap_mark_def bitmap_reset_def modify_elem_def split: if_splits)

lemma free_map_init_size: "free_map_init header_ok ws n = Inr fm \<Longrightarrow> bit_cnt (free_map fm) = n * 4"
  by (auto simp: free_map_init_def bitmap_create_def bitmap_set_all_def bitmap_set_multiple_def
      bitmap_size_def bindR_eq_Inr dest!: bitmap_mark_size set_multiple_loop_size split: if_splits option.splits)

lemma free_map_init_ok:
  assumes "unat (n * 4) \<le> 32 * length ws" "2 < n * 4"
  shows "\<exists>fm. free_map_init True (Some ws) n = Inr fm \<and> wf_bitmap (free_map fm) \<and> fm_used fm = {..<3}"
proof -
  let ?b0 = "\<lparr>bit_cnt = n * 4, bits = ws\<rparr>"
  have "wf_bitmap ?b0" using assms(1) by (simp add: wf_bitmap_def)
  then obtain b1 where b1: "bitmap_set_all ?b0 False = Inr b1" "wf_bitmap b1" "bit_cnt b1 = n * 4"
      "abs_bits b1 = replicate (unat (n * 4)) False"
    using bitmap_set_multiple_bits [of ?b0 0 "n * 4" False]
    by (auto simp: bitmap_set_all_def bitmap_size_def in_range_def)
  have lt: "0 < n * 4" "1 < n * 4" "2 < n * 4" using assms(2) by (simp_all add: word_less_nat_alt)
  obtain b2 where b2: "bitmap_mark b1 0 = Inr b2" "wf_bitmap b2" "bit_cnt b2 = n * 4"
      "abs_bits b2 = (abs_bits b1)[0 := True]"
    using bitmap_mark_bits [of b1 0] b1 lt by auto
  obtain b3 where b3: "bitmap_mark b2 1 = Inr b3" "wf_bitmap b3" "bit_cnt b3 = n * 4"
      "abs_bits b3 = (abs_bits b2)[1 := True]"
    using bitmap_mark_bits [of b2 1] b2 lt by auto
  obtain b4 where b4: "bitmap_mark b3 2 = Inr b4" "wf_bitmap b4" "bit_cnt b4 = n * 4"
      "abs_bits b4 = (abs_bits b3)[2 := True]"
    using bitmap_mark_bits [of b3 2] b3 lt by auto
  have "unat (n * 4) > 2" using assms(2) by (simp add: word_less_nat_alt)
  then have "fm_used \<lparr>free_map = b4, free_map_file = None\<rparr> = {..<3}"
    unfolding fm_used_def fm_slots_def
    by (auto simp: b4(3,4) b3(4) b2(4) b1(4) nth_list_update simp del: nth_abs_bits)
  then show ?thesis
    using b1(1) b2(1) b3(1) b4(1,2)
    by (simp add: free_map_init_def bitmap_create_def DEBUG_SECTOR_def FREE_MAP_SECTOR_def ROOT_DIR_SECTOR_def)
qed

section \<open>Properties\<close>

text \<open>A map of eight sectors, the first three of them in use.\<close>

definition sample_free_map :: free_map_state where
  "sample_free_map = \<lparr>free_map = \<lparr>bit_cnt = 8, bits = [7]\<rparr>, free_map_file = Some 1\<rparr>"

lemma sample_free_map_inv: "fm_inv sample_free_map"
  by (simp add: fm_inv_def sample_free_map_def wf_bitmap_def)

lemma sample_free_map_slots: "fm_slots sample_free_map = 8"
  by (simp add: fm_slots_def sample_free_map_def)

lemma sample_free_map_used: "fm_used sample_free_map = {..<3}"
proof -
  have "bit (7 :: u32) i \<longleftrightarrow> i < 3" if "i < 8" for i
    using that by (auto simp: numeral_eq_Suc less_Suc_eq bit_Suc)
  then show ?thesis
    by (auto simp: fm_used_def fm_slots_def sample_free_map_def bit_at_def)
qed

text \<open>
  C25. Allocation hands out distinct sectors: from any state of the open free map, allocating as many
  sectors as are free succeeds every time, no sector is returned twice and none that was in use, and
  afterwards exactly the old and the new sectors are in use.
\<close>

theorem free_map_allocate_distinct:
  assumes "fm_inv fm" "n \<le> fm_slots fm - card (fm_used fm)"
  shows "\<exists>fm' is. alloc_many fm_alloc n fm = Inr (fm', is) \<and> length is = n \<and> distinct is \<and>
     set is \<inter> fm_used fm = {} \<and> set is \<subseteq> {..<fm_slots fm} \<and> fm_inv fm' \<and> fm_used fm' = fm_used fm \<union> set is"
  using fm.alloc_many_distinct [OF assms] by (metis fm.used_slots le_sup_iff)

theorem free_map_allocate_distinct_witness:
  "\<exists>fm' is. alloc_many fm_alloc 5 sample_free_map = Inr (fm', is) \<and> distinct is \<and> length is = 5 \<and>
     set is \<inter> {..<3} = {}"
  using free_map_allocate_distinct [OF sample_free_map_inv, of 5]
  by (auto simp: sample_free_map_slots sample_free_map_used)

text \<open>
  \<open>free_map_allocate\<close> takes the lowest free sector; when the free-map file cannot be written it
  reports failure and leaves every bit as it was; when no sector is free it reports failure. What is
  released can be allocated again.
\<close>

theorem free_map_allocate_cases:
  assumes "fm_inv fm"
  shows "(fm_used fm = {..<fm_slots fm} \<and> free_map_allocate w fm = Inr (fm, None)) \<or>
     (\<exists>i fm1 fm2 fm3. i < fm_slots fm \<and> i \<notin> fm_used fm \<and> {..<i} \<subseteq> fm_used fm \<and>
       free_map_allocate True fm = Inr (fm1, Some (of_nat i)) \<and> fm_used fm1 = insert i (fm_used fm) \<and>
       free_map_allocate False fm = Inr (fm2, None) \<and> fm_used fm2 = fm_used fm \<and>
       free_map_release fm1 (of_nat i) = Inr fm3 \<and> fm_used fm3 = fm_used fm)"
proof (cases "fm_used fm = {..<fm_slots fm}")
  case True
  then show ?thesis using free_map_full [OF assms True] by simp
next
  case False
  obtain i b b' where i: "i < fm_slots fm" "i \<notin> fm_used fm" "{..<i} \<subseteq> fm_used fm"
      "free_map_allocate True fm = Inr (fm\<lparr>free_map := b\<rparr>, Some (of_nat i))"
      "wf_bitmap b" "bit_cnt b = bit_cnt (free_map fm)" "abs_bits b = (abs_bits (free_map fm))[i := True]"
    and f: "free_map_allocate False fm = Inr (fm\<lparr>free_map := b'\<rparr>, None)"
      "bit_cnt b' = bit_cnt (free_map fm)" "abs_bits b' = abs_bits (free_map fm)"
    using free_map_allocate_first [OF assms False] by blast
  let ?fm1 = "fm\<lparr>free_map := b\<rparr>"
  have u1: "fm_used ?fm1 = insert i (fm_used fm)" using i by (auto simp: fm_defs nth_list_update)
  have "fm_inv ?fm1" using assms i(5) by (simp add: fm_inv_def)
  then obtain fm3 where "fm_release ?fm1 i = Inr fm3" "fm_used fm3 = fm_used ?fm1 - {i}"
    using fm.release_ok [of ?fm1 i] u1 by auto
  moreover have "fm_used (fm\<lparr>free_map := b'\<rparr>) = fm_used fm"
    using f by (simp add: fm_used_def fm_slots_def)
  ultimately show ?thesis
    using i f u1 by (intro disjI2 exI [of _ i] exI [of _ ?fm1] exI [of _ "fm\<lparr>free_map := b'\<rparr>"] exI [of _ fm3])
      (auto simp: fm_release_def)
qed

theorem free_map_allocate_cases_witness:
  "\<exists>fm1 fm2. free_map_allocate True sample_free_map = Inr (fm1, Some 3) \<and>
     free_map_allocate False sample_free_map = Inr (fm2, None)"
proof -
  have ne: "{..<3} \<noteq> {..<8 :: nat}" by simp
  have "i = 3" if "i \<notin> {..<3}" "{..<i} \<subseteq> {..<3 :: nat}" for i using that by auto
  with free_map_allocate_cases [OF sample_free_map_inv] show ?thesis
    unfolding sample_free_map_slots sample_free_map_used using ne by fastforce
qed

text \<open>
  C26. The free map has four bits for every sector of the file system device, so once all sectors of
  the device are in use, \<open>free_map_allocate\<close> reports success and returns the number of the device,
  a sector that lies past its end and that \<open>block_read\<close> and \<open>block_write\<close> panic on.
\<close>

theorem free_map_allocates_past_device:
  assumes "free_map_init True (Some ws) device_size = Inr fm0"
    and "bit_cnt (free_map fm) = bit_cnt (free_map fm0)" "fm_inv fm"
    and "fm_used fm = {..<unat device_size}" "0 < device_size" "unat device_size < 2 ^ 30"
  shows "\<exists>fm'. free_map_allocate True fm = Inr (fm', Some device_size)"
proof -
  have "bit_cnt (free_map fm) = device_size * 4"
    using assms(1,2) free_map_init_size by metis
  then have n: "fm_slots fm = unat device_size * 4"
    using assms(6) by (simp add: fm_slots_def unat_word_ariths)
  have pos: "0 < unat device_size" using assms(5) by (simp add: word_less_nat_alt)
  then have "fm_used fm \<noteq> {..<fm_slots fm}" using n assms(4) by auto
  from free_map_allocate_first [OF assms(3) this] obtain i fm' where
    i: "i \<notin> fm_used fm" "{..<i} \<subseteq> fm_used fm" "free_map_allocate True fm = Inr (fm', Some (of_nat i))"
    by blast
  then have "i = unat device_size" using assms(4) by auto
  then show ?thesis using i(3) by simp
qed

theorem free_map_allocates_past_device_witness:
  "\<exists>fm'. free_map_allocate True \<lparr>free_map = \<lparr>bit_cnt = 12, bits = [7]\<rparr>, free_map_file = Some 1\<rparr>
     = Inr (fm', Some 3)"
proof -
  let ?fm = "\<lparr>free_map = \<lparr>bit_cnt = 12, bits = [7]\<rparr>, free_map_file = Some 1\<rparr>"
  obtain fm0 where "free_map_init True (Some [0]) 3 = Inr fm0"
    using free_map_init_ok [of 3 "[0]"] by auto
  moreover have "fm_inv ?fm" by (simp add: fm_inv_def wf_bitmap_def)
  moreover have "bit (7 :: u32) i \<longleftrightarrow> i < 3" if "i < 12" for i
    using that by (auto simp: numeral_eq_Suc less_Suc_eq bit_Suc)
  then have "fm_used ?fm = {..<3}" by (auto simp: fm_used_def fm_slots_def bit_at_def)
  ultimately show ?thesis
    using free_map_allocates_past_device [of "[0]" 3 fm0 ?fm] free_map_init_size by auto
qed

end
