(* ===== verification/Block_Device.thy ===== *)
theory Block_Device
  imports Prelude
begin

text \<open>
  \<^verbatim>\<open>devices/block.c\<close> and the sector transfer of \<^verbatim>\<open>devices/partition.c\<close>. A block device carries the table
  of its driver's operations and the driver's private data (\<open>aux\<close>); a partition is a driver whose
  private data is another block device. What lies below the lowest driver is a \<open>medium\<close>: a function
  from sectors to their contents, which stands for the platters behind the IDE controller.
  The locale \<open>sector_store\<close> is the contract of a driver.
\<close>

section \<open>Model\<close>

definition BLOCK_SECTOR_SIZE :: nat where
  "BLOCK_SECTOR_SIZE = 512"

datatype block_type = BLOCK_KERNEL | BLOCK_FILESYS | BLOCK_SCRATCH | BLOCK_SWAP | BLOCK_RAW | BLOCK_FOREIGN

record 'd block_operations =
  op_read :: "'d \<Rightarrow> u32 \<Rightarrow> ('d \<times> u8 list) res"
  op_write :: "'d \<Rightarrow> u32 \<Rightarrow> u8 list \<Rightarrow> 'd res"

record 'd block =
  blk_type :: block_type
  blk_size :: u32
  blk_ops :: "'d block_operations"
  blk_aux :: 'd
  read_cnt :: u64
  write_cnt :: u64

definition check_sector :: "'d block \<Rightarrow> u32 \<Rightarrow> unit res" where
  "check_sector b sector = (if sector \<ge> blk_size b then Inl Kernel_panic else Inr ())"

definition block_read :: "'d block \<Rightarrow> u32 \<Rightarrow> ('d block \<times> u8 list) res" where
  "block_read b sector =
     bindR (check_sector b sector) (\<lambda>_.
     bindR (op_read (blk_ops b) (blk_aux b) sector) (\<lambda>(d, buffer).
     Inr (b\<lparr>blk_aux := d, read_cnt := read_cnt b + 1\<rparr>, buffer)))"

definition block_write :: "'d block \<Rightarrow> u32 \<Rightarrow> u8 list \<Rightarrow> 'd block res" where
  "block_write b sector buffer =
     bindR (check_sector b sector) (\<lambda>_.
     bindR (ASSERT (blk_type b \<noteq> BLOCK_FOREIGN)) (\<lambda>_.
     bindR (op_write (blk_ops b) (blk_aux b) sector buffer) (\<lambda>d.
     Inr (b\<lparr>blk_aux := d, write_cnt := write_cnt b + 1\<rparr>))))"

definition block_clear :: "'d block \<Rightarrow> u32 \<Rightarrow> 'd block res" where
  "block_clear b sector = block_write b sector (replicate BLOCK_SECTOR_SIZE 0)"

definition block_register :: "block_type \<Rightarrow> u32 \<Rightarrow> 'd block_operations \<Rightarrow> 'd \<Rightarrow> bool \<Rightarrow> 'd block res" where
  "block_register type sz ops aux malloc_ok =
     (if \<not> malloc_ok then Inl Kernel_panic
      else Inr \<lparr>blk_type = type, blk_size = sz, blk_ops = ops, blk_aux = aux, read_cnt = 0, write_cnt = 0\<rparr>)"

text \<open>The roles: \<open>block_by_role\<close> has a slot for each of the first four types.\<close>

definition is_role :: "block_type \<Rightarrow> bool" where
  "is_role t \<longleftrightarrow> t \<in> {BLOCK_KERNEL, BLOCK_FILESYS, BLOCK_SCRATCH, BLOCK_SWAP}"

definition block_get_role :: "(block_type \<Rightarrow> 'b option) \<Rightarrow> block_type \<Rightarrow> 'b option res" where
  "block_get_role by_role role = bindR (ASSERT (is_role role)) (\<lambda>_. Inr (by_role role))"

definition block_set_role ::
    "(block_type \<Rightarrow> 'b option) \<Rightarrow> block_type \<Rightarrow> 'b option \<Rightarrow> (block_type \<Rightarrow> 'b option) res" where
  "block_set_role by_role role b = bindR (ASSERT (is_role role)) (\<lambda>_. Inr (by_role(role := b)))"

record 'd partition =
  p_block :: "'d block"
  p_start :: u32

definition partition_read :: "'d partition \<Rightarrow> u32 \<Rightarrow> ('d partition \<times> u8 list) res" where
  "partition_read p sector =
     bindR (block_read (p_block p) (p_start p + sector)) (\<lambda>(b, buffer). Inr (p\<lparr>p_block := b\<rparr>, buffer))"

definition partition_write :: "'d partition \<Rightarrow> u32 \<Rightarrow> u8 list \<Rightarrow> 'd partition res" where
  "partition_write p sector buffer =
     bindR (block_write (p_block p) (p_start p + sector) buffer) (\<lambda>b. Inr (p\<lparr>p_block := b\<rparr>))"

definition partition_operations :: "'d partition block_operations" where
  "partition_operations = \<lparr>op_read = partition_read, op_write = partition_write\<rparr>"

text \<open>The medium.\<close>

type_synonym medium = "u32 \<Rightarrow> u8 list"

definition medium_operations :: "medium block_operations" where
  "medium_operations = \<lparr>op_read = (\<lambda>m s. Inr (m, m s)), op_write = (\<lambda>m s buf. Inr (m(s := buf)))\<rparr>"

section \<open>The contract of a driver\<close>

text \<open>
  \<open>ok d s\<close>: sector \<open>s\<close> may be transferred in state \<open>d\<close>; \<open>sector d s\<close>: what it holds. A read returns
  it and changes no sector, a write changes the one sector, neither changes what is accessible.
\<close>

locale sector_store =
  fixes ops :: "'d block_operations"
    and ok :: "'d \<Rightarrow> u32 \<Rightarrow> bool"
    and sector :: "'d \<Rightarrow> u32 \<Rightarrow> u8 list"
  assumes read_ok: "ok d s \<Longrightarrow> \<exists>d'. op_read ops d s = Inr (d', sector d s) \<and> ok d' = ok d \<and>
      (\<forall>t. ok d t \<longrightarrow> sector d' t = sector d t)"
    and write_ok: "ok d s \<Longrightarrow> length buf = BLOCK_SECTOR_SIZE \<Longrightarrow>
      \<exists>d'. op_write ops d s buf = Inr d' \<and> ok d' = ok d \<and>
      (\<forall>t. ok d t \<longrightarrow> sector d' t = (if t = s then buf else sector d t))"
begin

text \<open>A device on top of the driver: a sector can be accessed when it is inside the device as well.\<close>

definition blk_ok :: "'d block \<Rightarrow> u32 \<Rightarrow> bool" where
  "blk_ok b s \<longleftrightarrow> blk_ops b = ops \<and> blk_type b \<noteq> BLOCK_FOREIGN \<and> s < blk_size b \<and> ok (blk_aux b) s"

definition blk_sector :: "'d block \<Rightarrow> u32 \<Rightarrow> u8 list" where
  "blk_sector b s = sector (blk_aux b) s"

lemma block_read_ok:
  assumes "blk_ok b s"
  shows "\<exists>b'. block_read b s = Inr (b', blk_sector b s) \<and> blk_ok b' = blk_ok b \<and> blk_size b' = blk_size b \<and>
      (\<forall>t. blk_ok b t \<longrightarrow> blk_sector b' t = blk_sector b t)"
proof -
  obtain d' where d': "op_read ops (blk_aux b) s = Inr (d', sector (blk_aux b) s)" "ok d' = ok (blk_aux b)"
      "\<forall>t. ok (blk_aux b) t \<longrightarrow> sector d' t = sector (blk_aux b) t"
    using read_ok [of "blk_aux b" s] assms by (auto simp: blk_ok_def)
  then show ?thesis using assms
    by (auto simp: block_read_def check_sector_def blk_ok_def blk_sector_def fun_eq_iff)
qed

lemma block_write_ok:
  assumes "blk_ok b s" "length buf = BLOCK_SECTOR_SIZE"
  shows "\<exists>b'. block_write b s buf = Inr b' \<and> blk_ok b' = blk_ok b \<and> blk_size b' = blk_size b \<and>
      (\<forall>t. blk_ok b t \<longrightarrow> blk_sector b' t = (if t = s then buf else blk_sector b t))"
proof -
  obtain d' where d': "op_write ops (blk_aux b) s buf = Inr d'" "ok d' = ok (blk_aux b)"
      "\<forall>t. ok (blk_aux b) t \<longrightarrow> sector d' t = (if t = s then buf else sector (blk_aux b) t)"
    using write_ok [of "blk_aux b" s buf] assms by (auto simp: blk_ok_def)
  then show ?thesis using assms
    by (auto simp: block_write_def check_sector_def blk_ok_def blk_sector_def fun_eq_iff)
qed

lemma block_read_past_end: "blk_size b \<le> s \<Longrightarrow> block_read b s = Inl Kernel_panic"
  by (simp add: block_read_def check_sector_def)

text \<open>A partition of such a device is a driver again, for the sectors that do not leave it.\<close>

definition part_ok :: "'d partition \<Rightarrow> u32 \<Rightarrow> bool" where
  "part_ok p s \<longleftrightarrow> blk_ok (p_block p) (p_start p + s)"

definition part_sector :: "'d partition \<Rightarrow> u32 \<Rightarrow> u8 list" where
  "part_sector p s = blk_sector (p_block p) (p_start p + s)"

lemma partition_store: "sector_store partition_operations part_ok part_sector"
proof
  fix p s assume "part_ok p s"
  then show "\<exists>p'. op_read partition_operations p s = Inr (p', part_sector p s) \<and> part_ok p' = part_ok p \<and>
      (\<forall>t. part_ok p t \<longrightarrow> part_sector p' t = part_sector p t)"
    using block_read_ok [of "p_block p" "p_start p + s"]
    by (auto simp: partition_operations_def partition_read_def part_ok_def part_sector_def fun_eq_iff)
next
  fix p s and buf :: "u8 list" assume "part_ok p s" "length buf = BLOCK_SECTOR_SIZE"
  then show "\<exists>p'. op_write partition_operations p s buf = Inr p' \<and> part_ok p' = part_ok p \<and>
      (\<forall>t. part_ok p t \<longrightarrow> part_sector p' t = (if t = s then buf else part_sector p t))"
    using block_write_ok [of "p_block p" "p_start p + s" buf]
    by (auto simp: partition_operations_def partition_write_def part_ok_def part_sector_def fun_eq_iff)
qed

end

interpretation disk: sector_store medium_operations "\<lambda>m s. True" "\<lambda>m s. m s"
  by unfold_locales (auto simp: medium_operations_def)

interpretation part: sector_store partition_operations disk.part_ok disk.part_sector
  by (rule disk.partition_store)

section \<open>Properties\<close>

text \<open>
  C27. A sector written through a partition is read back through it, whatever sector of the partition
  it is, and on the disk underneath exactly the sector at the partition's offset changes: no access
  through one partition reaches another.
\<close>

theorem partition_write_read:
  assumes "blk_ops b = partition_operations" "blk_type b \<noteq> BLOCK_FOREIGN" "s < blk_size b"
    and "p_block (blk_aux b) = dk" "p_start (blk_aux b) = start"
    and "blk_ops dk = medium_operations" "blk_type dk \<noteq> BLOCK_FOREIGN"
    and "unat start + unat (blk_size b) \<le> unat (blk_size dk)" "length buf = BLOCK_SECTOR_SIZE"
  shows "\<exists>b' b''. block_write b s buf = Inr b' \<and> block_read b' s = Inr (b'', buf) \<and>
     (\<forall>t. blk_aux (p_block (blk_aux b')) t = (if t = start + s then buf else blk_aux dk t))"
proof -
  have "unat s < unat (blk_size b)" "unat (blk_size dk) < 2 ^ 32"
    using assms(3) unsigned_less [of "blk_size dk"] by (simp_all add: word_less_nat_alt)
  then have "unat (start + s) = unat start + unat s" "unat (start + s) < unat (blk_size dk)"
    using assms(8) by (simp_all add: unat_word_ariths)
  then have "start + s < blk_size dk" by (simp add: word_less_nat_alt)
  then show ?thesis using assms(1-7)
    by (auto simp: block_write_def block_read_def check_sector_def partition_operations_def
        partition_write_def partition_read_def medium_operations_def)
qed

theorem partition_write_read_witness:
  "\<exists>b' b''. block_write \<lparr>blk_type = BLOCK_SWAP, blk_size = 8, blk_ops = partition_operations,
       blk_aux = \<lparr>p_block = \<lparr>blk_type = BLOCK_RAW, blk_size = 100, blk_ops = medium_operations,
         blk_aux = (\<lambda>_. []), read_cnt = 0, write_cnt = 0\<rparr>, p_start = 63\<rparr>, read_cnt = 0, write_cnt = 0\<rparr>
       7 (replicate 512 3) = Inr b' \<and> block_read b' 7 = Inr (b'', replicate 512 3)"
  using partition_write_read [of "\<lparr>blk_type = BLOCK_SWAP, blk_size = 8, blk_ops = partition_operations,
       blk_aux = \<lparr>p_block = \<lparr>blk_type = BLOCK_RAW, blk_size = 100, blk_ops = medium_operations,
         blk_aux = (\<lambda>_. []), read_cnt = 0, write_cnt = 0\<rparr>, p_start = 63\<rparr>, read_cnt = 0, write_cnt = 0\<rparr>"
      7 _ 63 "replicate 512 3"]
  by (auto simp: BLOCK_SECTOR_SIZE_def)

end
