(* ===== verification/Memory.thy ===== *)
theory Memory
  imports Prelude
begin

text \<open>
  Memory as the kernel sees it: bytes at 32-bit addresses, words in little-endian order, and the
  address arithmetic of \<^verbatim>\<open>threads/vaddr.h\<close> and \<^verbatim>\<open>threads/pte.h\<close>. The lemmas show that the 1024 words of
  distinct pages do not overlap.
\<close>

unbundle bit_operations_syntax

section \<open>Bytes and words\<close>

definition word_bytes :: "u32 \<Rightarrow> u8 list" where
  "word_bytes w = [ucast w, ucast (drop_bit 8 w), ucast (drop_bit 16 w), ucast (drop_bit 24 w)]"

definition le_word :: "u8 list \<Rightarrow> u32" where
  "le_word bs = foldr (\<lambda>b w. ucast b OR push_bit 8 w) bs 0"

lemma length_word_bytes [simp]: "length (word_bytes w) = 4"
  by (simp add: word_bytes_def)

lemma bit_le_word:
  "n < 32 \<Longrightarrow> bit (le_word [a, b, c, d]) n \<longleftrightarrow>
     (if n < 8 then bit a n else if n < 16 then bit b (n - 8) else if n < 24 then bit c (n - 16) else bit d (n - 24))"
  by (auto simp: le_word_def bit_or_iff bit_push_bit_iff bit_ucast_iff not_less dest: bit_imp_le_length)

lemma le_word_bytes [simp]: "le_word (word_bytes w) = w"
  by (rule bit_word_eqI) (auto simp: word_bytes_def bit_le_word bit_ucast_iff bit_drop_bit_eq)

lemma word_bytes_le:
  assumes "length bs = 4"
  shows "word_bytes (le_word bs) = bs"
proof -
  obtain a b c d where "bs = [a, b, c, d]" using assms by (auto simp: length_Suc_conv numeral_eq_Suc)
  then show ?thesis
    by (simp add: word_bytes_def)
      (intro conjI bit_word_eqI; simp add: bit_ucast_iff bit_drop_bit_eq bit_le_word)
qed

section \<open>Memory\<close>

type_synonym ram = "u32 \<Rightarrow> u8"

definition load_bytes :: "ram \<Rightarrow> u32 \<Rightarrow> nat \<Rightarrow> u8 list" where
  "load_bytes m a n = map (\<lambda>i. m (a + of_nat i)) [0..<n]"

definition store_bytes :: "ram \<Rightarrow> u32 \<Rightarrow> u8 list \<Rightarrow> ram" where
  "store_bytes m a bs = (\<lambda>x. if unat (x - a) < length bs then bs ! unat (x - a) else m x)"

definition load32 :: "ram \<Rightarrow> u32 \<Rightarrow> u32" where
  "load32 m a = le_word (load_bytes m a 4)"

definition store32 :: "ram \<Rightarrow> u32 \<Rightarrow> u32 \<Rightarrow> ram" where
  "store32 m a w = store_bytes m a (word_bytes w)"

lemma length_load_bytes [simp]: "length (load_bytes m a n) = n"
  by (simp add: load_bytes_def)

lemma load_store_bytes:
  assumes "length bs \<le> 2 ^ 32"
  shows "load_bytes (store_bytes m a bs) a (length bs) = bs"
proof (rule nth_equalityI)
  fix i assume i: "i < length (load_bytes (store_bytes m a bs) a (length bs))"
  then have "i < 2 ^ 32" using assms by simp
  then have "unat (of_nat i :: u32) = i" by (simp add: unat_of_nat)
  then show "load_bytes (store_bytes m a bs) a (length bs) ! i = bs ! i"
    using i by (simp add: load_bytes_def store_bytes_def)
qed simp

lemma store_bytes_nat:
  assumes "unat a + length bs \<le> 2 ^ 32"
  shows "store_bytes m a bs x =
     (if unat a \<le> unat x \<and> unat x < unat a + length bs then bs ! (unat x - unat a) else m x)"
proof -
  have "unat (x - a) = (if unat a \<le> unat x then unat x - unat a else unat x + 2 ^ 32 - unat a)"
    using unat_sub_if' [of x a] by simp
  moreover have "unat a < 2 ^ 32" "unat x < 2 ^ 32"
    using unsigned_less [of a, where 'a = nat] unsigned_less [of x, where 'a = nat] by simp_all
  ultimately show ?thesis using assms by (auto simp: store_bytes_def)
qed

lemma load_bytes_cong:
  assumes "\<And>i. i < n \<Longrightarrow> m (a + of_nat i) = m' (a + of_nat i)"
  shows "load_bytes m a n = load_bytes m' a n"
  using assms by (simp add: load_bytes_def)

section \<open>Addresses\<close>

definition PGSIZE :: nat where
  "PGSIZE = 4096"

definition PGMASK :: u32 where
  "PGMASK = 0xfff"

definition pg_ofs :: "u32 \<Rightarrow> u32" where
  "pg_ofs va = va AND PGMASK"

definition pg_no :: "u32 \<Rightarrow> u32" where
  "pg_no va = drop_bit 12 va"

definition pg_round_up :: "u32 \<Rightarrow> u32" where
  "pg_round_up va = (va + 4096 - 1) AND NOT PGMASK"

definition pg_round_down :: "u32 \<Rightarrow> u32" where
  "pg_round_down va = va AND NOT PGMASK"

definition PHYS_BASE :: u32 where
  "PHYS_BASE = 0xc0000000"

definition is_user_vaddr :: "u32 \<Rightarrow> bool" where
  "is_user_vaddr va \<longleftrightarrow> va < PHYS_BASE"

definition is_kernel_vaddr :: "u32 \<Rightarrow> bool" where
  "is_kernel_vaddr va \<longleftrightarrow> PHYS_BASE \<le> va"

definition ptov :: "u32 \<Rightarrow> u32 res" where
  "ptov paddr = bindR (ASSERT (paddr < PHYS_BASE)) (\<lambda>_. Inr (paddr + PHYS_BASE))"

definition vtop :: "u32 \<Rightarrow> u32 res" where
  "vtop vaddr = bindR (ASSERT (is_kernel_vaddr vaddr)) (\<lambda>_. Inr (vaddr - PHYS_BASE))"

definition PTMASK :: u32 where
  "PTMASK = 0x3ff000"

definition pt_no :: "u32 \<Rightarrow> u32" where
  "pt_no va = drop_bit 12 (va AND PTMASK)"

definition pd_no :: "u32 \<Rightarrow> u32" where
  "pd_no va = drop_bit 22 va"

definition PTE_ADDR :: u32 where "PTE_ADDR = 0xfffff000"
definition PTE_P :: u32 where "PTE_P = 0x1"
definition PTE_W :: u32 where "PTE_W = 0x2"
definition PTE_U :: u32 where "PTE_U = 0x4"
definition PTE_A :: u32 where "PTE_A = 0x20"
definition PTE_D :: u32 where "PTE_D = 0x40"

definition pde_create :: "u32 \<Rightarrow> u32 res" where
  "pde_create pt =
     bindR (ASSERT (pg_ofs pt = 0)) (\<lambda>_.
     bindR (vtop pt) (\<lambda>p. Inr (p OR PTE_U OR PTE_P OR PTE_W)))"

definition pde_get_pt :: "u32 \<Rightarrow> u32 res" where
  "pde_get_pt pde = bindR (ASSERT (pde AND PTE_P \<noteq> 0)) (\<lambda>_. ptov (pde AND PTE_ADDR))"

definition pte_create_kernel :: "u32 \<Rightarrow> bool \<Rightarrow> u32 res" where
  "pte_create_kernel page writable =
     bindR (ASSERT (pg_ofs page = 0)) (\<lambda>_.
     bindR (vtop page) (\<lambda>p. Inr (p OR PTE_P OR (if writable then PTE_W else 0))))"

definition pte_create_user :: "u32 \<Rightarrow> bool \<Rightarrow> u32 res" where
  "pte_create_user page writable = bindR (pte_create_kernel page writable) (\<lambda>p. Inr (p OR PTE_U))"

definition pte_get_page :: "u32 \<Rightarrow> u32 res" where
  "pte_get_page pte = ptov (pte AND PTE_ADDR)"

lemma bit_PGMASK: "bit PGMASK n \<longleftrightarrow> n < 12"
proof -
  have "PGMASK = mask 12" by (simp add: PGMASK_def mask_eq_exp_minus_1)
  moreover have "bit (mask 12 :: u32) n \<longleftrightarrow> n < 12" by (auto simp: bit_mask_iff)
  ultimately show ?thesis by simp
qed

lemma pg_ofs_mask: "pg_ofs va = take_bit 12 va"
  by (rule bit_word_eqI) (auto simp: pg_ofs_def bit_and_iff bit_PGMASK bit_take_bit_iff)

lemma unat_pg_ofs: "unat (pg_ofs va) = unat va mod 4096"
  by (simp add: pg_ofs_mask take_bit_eq_mod unat_mod)

lemma unat_pg_no: "unat (pg_no va) = unat va div 4096"
  by (simp add: pg_no_def drop_bit_eq_div unat_div)

lemma unat_pg_round_down: "unat (pg_round_down va) = unat va - unat va mod 4096"
proof -
  have "pg_round_down va = va - pg_ofs va"
  proof -
    have "NOT va AND pg_ofs va = 0" by (rule bit_word_eqI) (simp add: pg_ofs_def bit_simps)
    then have "va - pg_ofs va = va AND NOT (pg_ofs va)" by (rule disjunctive_diff_eq_and_not)
    also have "\<dots> = va AND NOT PGMASK" by (rule bit_word_eqI) (auto simp: pg_ofs_def bit_simps)
    finally show ?thesis by (simp add: pg_round_down_def)
  qed
  moreover have "pg_ofs va \<le> va" by (simp add: word_le_nat_alt unat_pg_ofs)
  ultimately show ?thesis by (simp add: unat_sub unat_pg_ofs)
qed

lemma unat_pt_no: "unat (pt_no va) = unat va div 4096 mod 1024"
proof -
  have m: "bit PTMASK (12 + n) \<longleftrightarrow> n < 10" if "12 + n < 32" for n
  proof -
    have "PTMASK = push_bit 12 (mask 10)" by (simp add: PTMASK_def mask_eq_exp_minus_1)
    moreover have "bit (push_bit 12 (mask 10) :: u32) (12 + n) \<longleftrightarrow> n < 10"
      using that by (auto simp: bit_push_bit_iff bit_mask_iff)
    ultimately show ?thesis by simp
  qed
  have "pt_no va = take_bit 10 (drop_bit 12 va)"
    unfolding pt_no_def
    by (intro bit_word_eqI) (auto simp: bit_and_iff bit_drop_bit_eq bit_take_bit_iff m dest: bit_imp_le_length)
  then show ?thesis
    by (simp add: drop_bit_eq_div take_bit_eq_mod unat_div unat_mod)
qed

lemma unat_pd_no: "unat (pd_no va) = unat va div 4194304"
  by (simp add: pd_no_def drop_bit_eq_div unat_div)

section \<open>The words of a page\<close>

lemma unat_in_page: "pg_ofs p = 0 \<Longrightarrow> i < 4096 \<Longrightarrow> unat (p + of_nat i) = unat p + i"
proof -
  assume p: "pg_ofs p = 0" and i: "i < 4096"
  have "unat p mod 4096 = 0" using unat_pg_ofs [of p] p by simp
  moreover have "unat p < 4096 * 2 ^ 20" using unsigned_less [of p, where 'a = nat] by simp
  ultimately have "unat p + i < 2 ^ 32" using i by auto
  moreover from this have "unat (of_nat i :: u32) = i" by (simp add: unat_of_nat)
  ultimately show ?thesis by (simp add: unat_word_ariths)
qed

lemma page_end: "pg_ofs p = 0 \<Longrightarrow> unat p + 4096 \<le> 2 ^ 32"
  using unat_in_page [of p 4095] unsigned_less [of "p + of_nat 4095", where 'a = nat] by simp

lemma pages_apart:
  assumes "pg_ofs p = 0" "pg_ofs q = 0" "p \<noteq> q"
  shows "unat p + 4096 \<le> unat q \<or> unat q + 4096 \<le> unat p"
proof -
  have "unat p mod 4096 = 0" "unat q mod 4096 = 0" "unat p \<noteq> unat q"
    using assms unat_pg_ofs [of p] unat_pg_ofs [of q] by (simp_all add: word_unat_eq_iff)
  then show ?thesis by (auto elim!: dvdE simp: mod_eq_0_iff_dvd)
qed

lemma load_store_apart:
  assumes "unat a + length bs \<le> 2 ^ 32" "unat x + n \<le> 2 ^ 32"
    and "unat x + n \<le> unat a \<or> unat a + length bs \<le> unat x"
  shows "load_bytes (store_bytes m a bs) x n = load_bytes m x n"
proof (rule load_bytes_cong)
  fix i assume i: "i < n"
  then have "unat x + i < 2 ^ 32" using assms(2) by linarith
  moreover from this have "unat (of_nat i :: u32) = i" by (simp add: unat_of_nat)
  ultimately have "unat (x + of_nat i) = unat x + i" by (simp add: unat_word_ariths)
  then show "store_bytes m a bs (x + of_nat i) = m (x + of_nat i)"
    using store_bytes_nat [OF assms(1)] assms(3) i by auto
qed

text \<open>Entry \<open>n\<close> of the page at \<open>p\<close>, read as an array of words.\<close>

definition entry :: "ram \<Rightarrow> u32 \<Rightarrow> nat \<Rightarrow> u32" where
  "entry m p n = load32 m (p + 4 * of_nat n)"

definition set_entry :: "ram \<Rightarrow> u32 \<Rightarrow> nat \<Rightarrow> u32 \<Rightarrow> ram" where
  "set_entry m p n w = store32 m (p + 4 * of_nat n) w"

lemma unat_entry: "pg_ofs p = 0 \<Longrightarrow> n < 1024 \<Longrightarrow> unat (p + 4 * of_nat n) = unat p + 4 * n"
  using unat_in_page [of p "4 * n"] by simp

lemma entry_set:
  assumes "pg_ofs p = 0" "pg_ofs q = 0" "n < 1024" "k < 1024"
  shows "entry (set_entry m p n w) q k = (if p = q \<and> n = k then w else entry m q k)"
proof (cases "p = q \<and> n = k")
  case True
  then show ?thesis
    using load_store_bytes [of "word_bytes w" m "q + 4 * of_nat k"]
    by (simp add: entry_def set_entry_def load32_def store32_def)
next
  case False
  note u = unat_entry [OF assms(1,3)] unat_entry [OF assms(2,4)]
  have "unat q + 4 * k + 4 \<le> unat p + 4 * n \<or> unat p + 4 * n + 4 \<le> unat q + 4 * k"
    using False pages_apart [OF assms(1,2)] assms(3,4) by (cases "p = q") auto
  then show ?thesis
    using load_store_apart [of "p + 4 * of_nat n" "word_bytes w" "q + 4 * of_nat k" 4 m]
      False page_end [OF assms(1)] page_end [OF assms(2)] assms(3,4) u
    by (auto simp: entry_def set_entry_def load32_def store32_def)
qed

lemma entry_store_apart:
  assumes "pg_ofs q = 0" "k < 1024" "unat a + length bs \<le> 2 ^ 32"
    and "unat a + length bs \<le> unat q \<or> unat q + 4096 \<le> unat a"
  shows "entry (store_bytes m a bs) q k = entry m q k"
  using load_store_apart [OF assms(3), of "q + 4 * of_nat k" 4 m] unat_entry [OF assms(1,2)] assms
    page_end [OF assms(1)] by (auto simp: entry_def load32_def)

lemma page_set_entry:
  assumes "pg_ofs p = 0" "pg_ofs q = 0" "n < 1024" "p \<noteq> q"
  shows "load_bytes (set_entry m p n w) q 4096 = load_bytes m q 4096"
  using load_store_apart [of "p + 4 * of_nat n" "word_bytes w" q 4096 m] unat_entry [OF assms(1,3)]
    page_end [OF assms(1)] page_end [OF assms(2)] pages_apart [OF assms(1,2,4)] assms(3)
  by (auto simp: set_entry_def store32_def)

text \<open>A zeroed page has zero entries.\<close>

lemma entry_zero:
  assumes "pg_ofs p = 0" "unat p + n \<le> 2 ^ 32" "4096 \<le> n" "k < 1024"
  shows "entry (store_bytes m p (replicate n 0)) p k = 0"
proof -
  have b: "store_bytes m p (replicate n 0) (p + 4 * of_nat k + of_nat i) = 0" if "i < 4" for i
  proof -
    have "unat (p + of_nat (4 * k + i)) = unat p + (4 * k + i)"
      using assms(1,4) that by (intro unat_in_page) auto
    then have "unat (p + 4 * of_nat k + of_nat i) = unat p + (4 * k + i)" by (simp add: add.assoc)
    then show ?thesis using store_bytes_nat [of p "replicate n 0"] assms(2-4) that by simp
  qed
  have "load_bytes (store_bytes m p (replicate n 0)) (p + 4 * of_nat k) 4 = replicate 4 0"
    by (rule nth_equalityI) (simp_all add: load_bytes_def b)
  then show ?thesis by (simp add: entry_def load32_def le_word_def numeral_eq_Suc)
qed


end
