(* ===== verification/Swap.thy ===== *)
theory Swap
  imports Block_Device Bitmap Memory
begin

text \<open>
  \<^verbatim>\<open>vm/swap.c\<close>: pages evicted to the swap device. A slot is eight consecutive sectors; the table
  \<open>swap_slots\<close> records which slots are in use. A pointer to a slot is its index in the table, a page
  in memory is the list of its 4096 bytes.
\<close>

section \<open>Model\<close>

record swap_slot =
  slot_num :: int
  in_use :: bool

record 'd swap_state =
  swap_table :: "'d block"
  swap_slots :: "swap_slot list"

definition block_sector_num :: "int \<Rightarrow> u32" where
  "block_sector_num swap_index = of_int (8 * swap_index)"

text \<open>The unsigned 32-bit product of \<open>init_swap_table\<close> and \<open>swap_find_empty\<close>, converted to
  \<open>int\<close>. \<open>init_swap_table\<close> stores through the result of \<open>malloc\<close> without a check.\<close>

definition num_slots :: "'d block \<Rightarrow> int" where
  "num_slots b = sint ((blk_size b * 512) div 4096)"

definition init_swap_table :: "bool \<Rightarrow> 'd block \<Rightarrow> 'd swap_state res" where
  "init_swap_table malloc_ok dev =
     (if \<not> malloc_ok \<and> 0 < num_slots dev then Inl Invalid_access
      else Inr \<lparr>swap_table = dev,
        swap_slots = map (\<lambda>i. \<lparr>slot_num = int i, in_use = False\<rparr>) [0..<nat (num_slots dev)]\<rparr>)"

fun swap_find_empty_loop :: "nat \<Rightarrow> nat \<Rightarrow> swap_slot list \<Rightarrow> (swap_slot list \<times> nat option) res" where
  "swap_find_empty_loop 0 i slots = Inr (slots, None)"
| "swap_find_empty_loop (Suc n) i slots =
     (if i < length slots then
        if \<not> in_use (slots ! i) then Inr (slots[i := (slots ! i)\<lparr>in_use := True\<rparr>], Some i)
        else swap_find_empty_loop n (i + 1) slots
      else Inl Invalid_access)"

definition swap_find_empty :: "'d swap_state \<Rightarrow> ('d swap_state \<times> nat option) res" where
  "swap_find_empty st =
     bindR (swap_find_empty_loop (nat (num_slots (swap_table st))) 0 (swap_slots st)) (\<lambda>(slots, r).
     Inr (st\<lparr>swap_slots := slots\<rparr>, r))"

definition swap_remove_page :: "'d swap_state \<Rightarrow> nat option \<Rightarrow> 'd swap_state res" where
  "swap_remove_page st swap =
     bindR (ASSERT (swap \<noteq> None)) (\<lambda>_.
     if the swap < length (swap_slots st)
     then Inr (st\<lparr>swap_slots := (swap_slots st)[the swap := (swap_slots st ! the swap)\<lparr>in_use := False\<rparr>]\<rparr>)
     else Inl Invalid_access)"

fun read_sectors :: "nat \<Rightarrow> nat \<Rightarrow> 'd block \<Rightarrow> u32 \<Rightarrow> u8 list \<Rightarrow> ('d block \<times> u8 list) res" where
  "read_sectors 0 i dev base dest = Inr (dev, dest)"
| "read_sectors (Suc n) i dev base dest =
     bindR (block_read dev (base + of_nat i)) (\<lambda>(dev, buf).
     read_sectors n (i + 1) dev base
       (take (512 * i) dest @ buf @ drop (512 * i + length buf) dest))"

fun write_sectors :: "nat \<Rightarrow> nat \<Rightarrow> 'd block \<Rightarrow> u32 \<Rightarrow> u8 list \<Rightarrow> 'd block res" where
  "write_sectors 0 i dev base page = Inr dev"
| "write_sectors (Suc n) i dev base page =
     bindR (block_write dev (base + of_nat i) (take 512 (drop (512 * i) page))) (\<lambda>dev.
     write_sectors n (i + 1) dev base page)"

definition swap_retrieve_page ::
    "'d swap_state \<Rightarrow> u8 list \<Rightarrow> nat option \<Rightarrow> ('d swap_state \<times> u8 list \<times> nat) res" where
  "swap_retrieve_page st dest swap =
     bindR (ASSERT (swap \<noteq> None)) (\<lambda>_.
     if the swap < length (swap_slots st) then
       bindR (read_sectors 8 0 (swap_table st) (block_sector_num (slot_num (swap_slots st ! the swap))) dest)
         (\<lambda>(dev, dest).
       bindR (swap_remove_page (st\<lparr>swap_table := dev\<rparr>) swap) (\<lambda>st. Inr (st, dest, PGSIZE)))
     else Inl Invalid_access)"

definition swap_put_page :: "'d swap_state \<Rightarrow> u8 list \<Rightarrow> ('d swap_state \<times> nat) res" where
  "swap_put_page st page =
     bindR (swap_find_empty st) (\<lambda>(st, swap).
     bindR (ASSERT (swap \<noteq> None)) (\<lambda>_.
     bindR (write_sectors 8 0 (swap_table st) (block_sector_num (slot_num (swap_slots st ! the swap))) page)
       (\<lambda>dev. Inr (st\<lparr>swap_table := dev\<rparr>, the swap))))"

section \<open>What the swap device holds\<close>

text \<open>
  \<open>swap_rep acc sec st pages\<close>: the slots in use are those of the finite map \<open>pages\<close>, and the eight
  sectors of such a slot hold its page. \<open>acc\<close> and \<open>sec\<close> are the accessible sectors of the device
  and their contents.
\<close>

definition chunk :: "nat \<Rightarrow> u8 list \<Rightarrow> u8 list" where
  "chunk k page = take 512 (drop (512 * k) page)"

definition slot_sector :: "nat \<Rightarrow> nat \<Rightarrow> u32" where
  "slot_sector i k = of_nat (8 * i + k)"

definition swap_rep :: "('d block \<Rightarrow> u32 \<Rightarrow> bool) \<Rightarrow> ('d block \<Rightarrow> u32 \<Rightarrow> u8 list)
    \<Rightarrow> 'd swap_state \<Rightarrow> (nat \<rightharpoonup> u8 list) \<Rightarrow> bool" where
  "swap_rep acc sec st pages \<longleftrightarrow>
     length (swap_slots st) = nat (num_slots (swap_table st)) \<and>
     8 * length (swap_slots st) \<le> 2 ^ 32 \<and>
     dom pages \<subseteq> {..<length (swap_slots st)} \<and>
     (\<forall>i<length (swap_slots st). slot_num (swap_slots st ! i) = int i \<and>
        (in_use (swap_slots st ! i) \<longleftrightarrow> i \<in> dom pages)) \<and>
     (\<forall>i k. i < length (swap_slots st) \<longrightarrow> k < 8 \<longrightarrow> acc (swap_table st) (slot_sector i k)) \<and>
     (\<forall>i p. pages i = Some p \<longrightarrow> length p = PGSIZE \<and>
        (\<forall>k<8. sec (swap_table st) (slot_sector i k) = chunk k p))"

lemma block_sector_num_slot: "block_sector_num (int i) + of_nat k = slot_sector i k"
  by (simp add: block_sector_num_def slot_sector_def)

lemma slot_sector_inj:
  assumes "8 * n \<le> 2 ^ 32" "i < n" "j < n" "k < 8" "l < 8"
  shows "slot_sector i k = slot_sector j l \<longleftrightarrow> i = j \<and> k = l"
proof -
  have "8 * i + k < 2 ^ 32" "8 * j + l < 2 ^ 32" using assms by linarith+
  then have "slot_sector i k = slot_sector j l \<longleftrightarrow> 8 * i + k = 8 * j + l"
    unfolding slot_sector_def word_of_nat_eq_iff by (simp add: take_bit_nat_eq_self)
  also have "\<dots> \<longleftrightarrow> i = j \<and> k = l" using assms(4,5) by presburger
  finally show ?thesis .
qed

lemma swap_find_empty_loop_found:
  assumes "i + n \<le> length slots"
  shows "swap_find_empty_loop n i slots = Inr (case find (\<lambda>j. \<not> in_use (slots ! j)) [i..<i + n] of
      None \<Rightarrow> (slots, None) | Some j \<Rightarrow> (slots[j := (slots ! j)\<lparr>in_use := True\<rparr>], Some j))"
  using assms
proof (induction n arbitrary: i)
  case (Suc n)
  then show ?case by (simp add: upt_conv_Cons del: upt_Suc)
qed simp

lemma chunks_page: "length page = PGSIZE \<Longrightarrow> concat (map (\<lambda>k. chunk k page) [0..<n]) = take (512 * n) page"
proof (induction n)
  case (Suc n)
  then show ?case by (simp add: chunk_def take_add [symmetric] add.commute)
qed simp

context sector_store
begin

lemma write_sectors_ok:
  assumes "length page = PGSIZE" "\<And>k. k < 8 \<Longrightarrow> blk_ok dev (base + of_nat k)" "i + n \<le> 8"
    and inj: "\<And>k l. k < 8 \<Longrightarrow> l < 8 \<Longrightarrow> base + of_nat k = base + of_nat l \<Longrightarrow> k = l"
  shows "\<exists>dev'. write_sectors n i dev base page = Inr dev' \<and> blk_ok dev' = blk_ok dev \<and>
     blk_size dev' = blk_size dev \<and>
     (\<forall>t. blk_ok dev t \<longrightarrow> (\<forall>k. i \<le> k \<longrightarrow> k < i + n \<longrightarrow> t \<noteq> base + of_nat k) \<longrightarrow>
        blk_sector dev' t = blk_sector dev t) \<and>
     (\<forall>k. i \<le> k \<longrightarrow> k < i + n \<longrightarrow> blk_sector dev' (base + of_nat k) = chunk k page)"
  using assms(2,3)
proof (induction n arbitrary: i dev)
  case (Suc n)
  let ?s = "base + of_nat i"
  have ok: "blk_ok dev ?s" using Suc.prems by simp
  moreover have len: "length (chunk i page) = BLOCK_SECTOR_SIZE"
    using Suc.prems(2) assms(1) by (simp add: chunk_def BLOCK_SECTOR_SIZE_def PGSIZE_def)
  ultimately obtain d1 where d1: "block_write dev ?s (chunk i page) = Inr d1" "blk_ok d1 = blk_ok dev"
      "blk_size d1 = blk_size dev"
      "\<forall>t. blk_ok dev t \<longrightarrow> blk_sector d1 t = (if t = ?s then chunk i page else blk_sector dev t)"
    using block_write_ok by blast
  obtain d2 where d2: "write_sectors n (i + 1) d1 base page = Inr d2" "blk_ok d2 = blk_ok dev"
      "blk_size d2 = blk_size dev"
      "\<forall>t. blk_ok dev t \<longrightarrow> (\<forall>k. i + 1 \<le> k \<longrightarrow> k < i + 1 + n \<longrightarrow> t \<noteq> base + of_nat k) \<longrightarrow>
         blk_sector d2 t = blk_sector d1 t"
      "\<forall>k. i + 1 \<le> k \<longrightarrow> k < i + 1 + n \<longrightarrow> blk_sector d2 (base + of_nat k) = chunk k page"
    using Suc.IH [of d1 "i + 1"] Suc.prems d1(2,3) by auto
  have "blk_sector d2 ?s = chunk i page"
  proof -
    have "?s \<noteq> base + of_nat k" if "i + 1 \<le> k" "k < i + 1 + n" for k
      using inj [of i k] that Suc.prems(2) by auto
    then show ?thesis using d2(4) d1(4) ok by simp
  qed
  then have "blk_sector d2 (base + of_nat k) = chunk k page" if "i \<le> k" "k < i + Suc n" for k
    using that d2(5) by (cases "k = i") simp_all
  moreover have "blk_sector d2 t = blk_sector dev t"
    if "blk_ok dev t" "\<forall>k. i \<le> k \<longrightarrow> k < i + Suc n \<longrightarrow> t \<noteq> base + of_nat k" for t
    using that d2(4) d1(4) by simp
  ultimately show ?case
    using d1(1) d2(1-3) by (simp add: chunk_def)
qed simp

lemma read_sectors_ok:
  assumes "\<And>k. k < 8 \<Longrightarrow> blk_ok dev (base + of_nat k)" "i + n \<le> 8" "length dest = PGSIZE"
    and "\<And>k. k < 8 \<Longrightarrow> length (blk_sector dev (base + of_nat k)) = 512"
  shows "\<exists>dev'. read_sectors n i dev base dest = Inr (dev', take (512 * i) dest @
       concat (map (\<lambda>k. blk_sector dev (base + of_nat k)) [i..<i + n]) @ drop (512 * (i + n)) dest) \<and>
     blk_ok dev' = blk_ok dev \<and> blk_size dev' = blk_size dev \<and>
     (\<forall>t. blk_ok dev t \<longrightarrow> blk_sector dev' t = blk_sector dev t)"
  using assms
proof (induction n arbitrary: i dev dest)
  case (Suc n)
  let ?s = "base + of_nat i"
  obtain d1 where d1: "block_read dev ?s = Inr (d1, blk_sector dev ?s)" "blk_ok d1 = blk_ok dev"
      "blk_size d1 = blk_size dev" "\<forall>t. blk_ok dev t \<longrightarrow> blk_sector d1 t = blk_sector dev t"
    using block_read_ok [of dev ?s] Suc.prems(1) [of i] Suc.prems(2) by auto
  let ?dest = "take (512 * i) dest @ blk_sector dev ?s @ drop (512 * i + 512) dest"
  have len: "length (blk_sector dev ?s) = 512" using Suc.prems(2,4) by simp
  have same: "blk_sector d1 (base + of_nat k) = blk_sector dev (base + of_nat k)" if "k < 8" for k
    using d1(4) Suc.prems(1) that by simp
  have le: "512 * i + 512 \<le> length dest" using Suc.prems(2,3) by (simp add: PGSIZE_def)
  have "\<exists>d2. read_sectors n (i + 1) d1 base ?dest = Inr (d2, take (512 * (i + 1)) ?dest @
       concat (map (\<lambda>k. blk_sector d1 (base + of_nat k)) [i + 1..<i + 1 + n]) @
       drop (512 * (i + 1 + n)) ?dest) \<and> blk_ok d2 = blk_ok d1 \<and> blk_size d2 = blk_size d1 \<and>
     (\<forall>t. blk_ok d1 t \<longrightarrow> blk_sector d2 t = blk_sector d1 t)"
    by (rule Suc.IH) (use Suc.prems len le same d1(2) in \<open>simp_all\<close>)
  moreover have "take (512 * (i + 1)) ?dest = take (512 * i) dest @ blk_sector dev ?s"
    using le len by simp
  moreover have "drop (512 * (i + 1 + n)) ?dest = drop (512 * (i + 1 + n)) dest"
    using le len by (simp add: ac_simps)
  moreover have "concat (map (\<lambda>k. blk_sector d1 (base + of_nat k)) [i + 1..<i + 1 + n])
      = concat (map (\<lambda>k. blk_sector dev (base + of_nat k)) [i + 1..<i + 1 + n])"
  proof (intro arg_cong [of _ _ concat] map_cong refl)
    fix k assume "k \<in> set [i + 1..<i + 1 + n]"
    then have "k < 8" using Suc.prems(2) by auto
    then show "blk_sector d1 (base + of_nat k) = blk_sector dev (base + of_nat k)" by (rule same)
  qed
  ultimately show ?case
    using d1 len by (auto simp: upt_conv_Cons simp del: upt_Suc)
qed simp

text \<open>The two operations on a device of this driver.\<close>

lemma swap_rep_slot:
  assumes "swap_rep blk_ok blk_sector st pages" "i < length (swap_slots st)"
  shows "block_sector_num (slot_num (swap_slots st ! i)) + of_nat k = slot_sector i k"
    and "k < 8 \<Longrightarrow> blk_ok (swap_table st) (slot_sector i k)"
  using assms block_sector_num_slot by (simp_all add: swap_rep_def)

lemma swap_put_page_rep:
  assumes rep: "swap_rep blk_ok blk_sector st pages" and len: "length page = PGSIZE"
    and free: "dom pages \<noteq> {..<length (swap_slots st)}"
  shows "\<exists>st' i. swap_put_page st page = Inr (st', i) \<and> i < length (swap_slots st) \<and> pages i = None \<and>
     {..<i} \<subseteq> dom pages \<and> length (swap_slots st') = length (swap_slots st) \<and>
     swap_rep blk_ok blk_sector st' (pages(i \<mapsto> page))"
proof -
  let ?n = "length (swap_slots st)" and ?sl = "swap_slots st"
  have used: "in_use (?sl ! j) \<longleftrightarrow> j \<in> dom pages" if "j < ?n" for j
    using rep that by (simp add: swap_rep_def)
  have "find (\<lambda>j. \<not> in_use (?sl ! j)) [0..<?n] \<noteq> None"
    using free rep used by (auto simp: find_None_iff swap_rep_def)
  then obtain i where fi: "find (\<lambda>j. \<not> in_use (?sl ! j)) [0..<?n] = Some i" by blast
  then have i: "i < ?n" "i \<notin> dom pages" "{..<i} \<subseteq> dom pages"
    using used by (auto simp: find_upt_Some)
  let ?sl' = "?sl[i := (?sl ! i)\<lparr>in_use := True\<rparr>]"
  have "nat (num_slots (swap_table st)) = ?n" using rep by (simp add: swap_rep_def)
  then have fe: "swap_find_empty st = Inr (st\<lparr>swap_slots := ?sl'\<rparr>, Some i)"
    using swap_find_empty_loop_found [of 0 ?n ?sl] fi by (simp add: swap_find_empty_def)
  let ?base = "block_sector_num (slot_num (?sl ! i))"
  note sec = swap_rep_slot [OF rep i(1)]
  have inj: "slot_sector i k = slot_sector i l \<longleftrightarrow> k = l" if "k < 8" "l < 8" for k l
    using slot_sector_inj [of ?n i i k l] i(1) that rep by (simp add: swap_rep_def)
  obtain dev where dev: "write_sectors 8 0 (swap_table st) ?base page = Inr dev"
      "blk_ok dev = blk_ok (swap_table st)" "blk_size dev = blk_size (swap_table st)"
      "\<And>t. blk_ok (swap_table st) t \<Longrightarrow> (\<And>k. k < 8 \<Longrightarrow> t \<noteq> slot_sector i k) \<Longrightarrow>
         blk_sector dev t = blk_sector (swap_table st) t"
      "\<And>k. k < 8 \<Longrightarrow> blk_sector dev (slot_sector i k) = chunk k page"
    using write_sectors_ok [OF len, of "swap_table st" ?base 0 8] by (auto simp: sec inj)
  have other: "blk_sector dev (slot_sector j k) = blk_sector (swap_table st) (slot_sector j k)"
    if "j < ?n" "j \<noteq> i" "k < 8" for j k
    using dev(4) [of "slot_sector j k"] swap_rep_slot(2) [OF rep that(1,3)] that i(1) rep
      slot_sector_inj [of ?n j i k] by (auto simp: swap_rep_def)
  let ?st = "st\<lparr>swap_slots := ?sl', swap_table := dev\<rparr>"
  have put: "swap_put_page st page = Inr (?st, i)" using fe dev(1) i(1) by (simp add: swap_put_page_def)
  have "swap_rep blk_ok blk_sector ?st (pages(i \<mapsto> page))"
    using rep i(1) dev(2,3,5) other len unfolding swap_rep_def num_slots_def
    by (auto simp: nth_list_update)
  then show ?thesis using put i by auto
qed

lemma swap_retrieve_page_rep:
  assumes rep: "swap_rep blk_ok blk_sector st pages" and i: "pages i = Some page"
    and len: "length dest = PGSIZE"
  shows "\<exists>st'. swap_retrieve_page st dest (Some i) = Inr (st', page, PGSIZE) \<and>
     length (swap_slots st') = length (swap_slots st) \<and> swap_rep blk_ok blk_sector st' (pages(i := None))"
proof -
  let ?n = "length (swap_slots st)" and ?sl = "swap_slots st"
  have il: "i < ?n" and pl: "length page = PGSIZE"
      and pg: "\<And>k. k < 8 \<Longrightarrow> blk_sector (swap_table st) (slot_sector i k) = chunk k page"
    using rep i by (auto simp: swap_rep_def)
  note sec = swap_rep_slot [OF rep il]
  let ?base = "block_sector_num (slot_num (?sl ! i))"
  have mp: "map (\<lambda>k. blk_sector (swap_table st) (slot_sector i k)) [0..<8] = map (\<lambda>k. chunk k page) [0..<8]"
    using pg by (intro map_cong) auto
  have cc: "concat (map (\<lambda>k. blk_sector (swap_table st) (slot_sector i k)) [0..<8]) = page"
    unfolding mp using chunks_page [OF pl, of 8] pl by (simp add: PGSIZE_def)
  have "length (blk_sector (swap_table st) (slot_sector i k)) = 512" if "k < 8" for k
    using pg [OF that] that pl by (simp add: chunk_def PGSIZE_def)
  then obtain dev where dev: "read_sectors 8 0 (swap_table st) ?base dest = Inr (dev, page)"
      "blk_ok dev = blk_ok (swap_table st)" "blk_size dev = blk_size (swap_table st)"
      "\<And>t. blk_ok (swap_table st) t \<Longrightarrow> blk_sector dev t = blk_sector (swap_table st) t"
    using read_sectors_ok [of "swap_table st" ?base 0 8 dest] sec(2) len cc by (auto simp: sec(1) PGSIZE_def)
  let ?sl' = "?sl[i := (?sl ! i)\<lparr>in_use := False\<rparr>]"
  let ?st = "st\<lparr>swap_table := dev, swap_slots := ?sl'\<rparr>"
  have "swap_retrieve_page st dest (Some i) = Inr (?st, page, PGSIZE)"
    using dev(1) il by (simp add: swap_retrieve_page_def swap_remove_page_def)
  moreover have "swap_rep blk_ok blk_sector ?st (pages(i := None))"
    using rep il dev(2,3) dev(4) [OF swap_rep_slot(2) [OF rep]] unfolding swap_rep_def num_slots_def
    by (auto simp: nth_list_update)
  ultimately show ?thesis by simp
qed

lemma init_swap_table_rep:
  assumes "\<And>s. s < blk_size dev \<Longrightarrow> blk_ok dev s" "unat (blk_size dev) \<le> 2 ^ 23 - 1"
  shows "\<exists>st. init_swap_table True dev = Inr st \<and> swap_table st = dev \<and>
     length (swap_slots st) = unat (blk_size dev) div 8 \<and> swap_rep blk_ok blk_sector st Map.empty"
proof -
  have u: "unat (blk_size dev * 512) = unat (blk_size dev) * 512"
    using assms(2) by (simp add: unat_word_ariths)
  have u8: "unat ((blk_size dev * 512) div 4096) = unat (blk_size dev) div 8"
    unfolding unat_div using u by simp
  from sint_eq_unat [of "(blk_size dev * 512) div 4096"] have n: "num_slots dev = int (unat (blk_size dev) div 8)"
    unfolding num_slots_def u8 using assms(2) by fastforce
  have "slot_sector i k < blk_size dev" if "i < unat (blk_size dev) div 8" "k < 8" for i k
  proof -
    have "8 * i + k < unat (blk_size dev)" using that by linarith
    then show ?thesis
      using unat_of_nat_below by (simp only: slot_sector_def word_less_nat_alt)
  qed
  then show ?thesis
    using assms n by (auto simp: init_swap_table_def swap_rep_def)
qed

end

section \<open>Properties\<close>

text \<open>
  C9. The swap device is a store of pages. While a slot is free, \<open>swap_put_page\<close> takes the first free
  one, never a slot in use, and copies the page to it; afterwards \<open>swap_retrieve_page\<close> returns
  exactly that page from it and frees it, and returns from every other slot in use the page that was
  put there before. Stated for a swap partition of a disk.
\<close>

theorem swap_put_retrieve:
  fixes st :: "medium partition swap_state"
  assumes "swap_rep part.blk_ok part.blk_sector st pages" "length page = PGSIZE" "length dest = PGSIZE"
    and "dom pages \<noteq> {..<length (swap_slots st)}"
  shows "\<exists>st1 i. swap_put_page st page = Inr (st1, i) \<and> pages i = None \<and> {..<i} \<subseteq> dom pages \<and>
     (\<exists>st2. swap_retrieve_page st1 dest (Some i) = Inr (st2, page, PGSIZE) \<and>
        swap_rep part.blk_ok part.blk_sector st2 pages) \<and>
     (\<forall>j p. pages j = Some p \<longrightarrow> (\<exists>st2. swap_retrieve_page st1 dest (Some j) = Inr (st2, p, PGSIZE) \<and>
        swap_rep part.blk_ok part.blk_sector st2 (pages(i \<mapsto> page, j := None))))"
proof -
  obtain st1 i where st1: "swap_put_page st page = Inr (st1, i)" "pages i = None" "{..<i} \<subseteq> dom pages"
      "swap_rep part.blk_ok part.blk_sector st1 (pages(i \<mapsto> page))"
    using part.swap_put_page_rep [OF assms(1,2,4)] by blast
  moreover have "pages(i \<mapsto> page, i := None) = pages" using st1(2) by auto
  then have "\<exists>st2. swap_retrieve_page st1 dest (Some i) = Inr (st2, page, PGSIZE) \<and>
      swap_rep part.blk_ok part.blk_sector st2 pages"
    using part.swap_retrieve_page_rep [OF st1(4) _ assms(3), of i page] by auto
  moreover have "\<exists>st2. swap_retrieve_page st1 dest (Some j) = Inr (st2, p, PGSIZE) \<and>
        swap_rep part.blk_ok part.blk_sector st2 (pages(i \<mapsto> page, j := None))" if "pages j = Some p" for j p
  proof -
    have "j \<noteq> i" using that st1(2) by auto
    then show ?thesis using part.swap_retrieve_page_rep [OF st1(4) _ assms(3), of j p] that by auto
  qed
  ultimately show ?thesis by blast
qed

definition sample_swap :: "medium partition block" where
  "sample_swap = \<lparr>blk_type = BLOCK_SWAP, blk_size = 8, blk_ops = partition_operations,
     blk_aux = \<lparr>p_block = \<lparr>blk_type = BLOCK_RAW, blk_size = 100, blk_ops = medium_operations,
       blk_aux = (\<lambda>_. []), read_cnt = 0, write_cnt = 0\<rparr>, p_start = 63\<rparr>, read_cnt = 0, write_cnt = 0\<rparr>"

lemma sample_swap_ok: "s < 8 \<Longrightarrow> part.blk_ok sample_swap s"
proof -
  assume "s < (8 :: u32)"
  then have "unat s < 8" by (simp add: word_less_nat_alt)
  then have "63 + s < (100 :: u32)" by (simp add: word_less_nat_alt unat_word_ariths)
  with \<open>s < 8\<close> show ?thesis
    by (simp add: part.blk_ok_def disk.part_ok_def disk.blk_ok_def sample_swap_def)
qed

theorem swap_put_retrieve_witness:
  "\<exists>st st1 st2 i. init_swap_table True sample_swap = Inr st \<and>
     swap_put_page st (replicate 4096 7) = Inr (st1, i) \<and>
     swap_retrieve_page st1 (replicate 4096 0) (Some i) = Inr (st2, replicate 4096 7, PGSIZE)"
proof -
  obtain st where st: "init_swap_table True sample_swap = Inr st" "length (swap_slots st) = 1"
      "swap_rep part.blk_ok part.blk_sector st Map.empty"
    using part.init_swap_table_rep [of sample_swap] sample_swap_ok by (auto simp: sample_swap_def)
  then show ?thesis
    using swap_put_retrieve [OF st(3), of "replicate 4096 7" "replicate 4096 0"] by (auto simp: PGSIZE_def)
qed

end
