(* ===== verification/Fixed_Point.thy ===== *)
theory Fixed_Point
  imports Prelude "HOL-Library.Signed_Division"
begin

text \<open>
  \<^verbatim>\<open>threads/fixed_point.c\<close>: the 17.14 fixed-point numbers of the multi-level feedback queue
  scheduler. An \<open>int\<close> or \<open>fixed_point\<close> of the source is a 32-bit two's complement number; it is
  kept as an \<open>int\<close> with the reduction to 32 bits written out (\<open>wrap32\<close>), and C's division, which
  truncates towards zero, is \<open>sdiv\<close>. The products of \<open>multiply\<close> and \<open>divide\<close> are formed in 64 bits,
  which hold them exactly.
\<close>

section \<open>Model\<close>

definition wrap32 :: "int \<Rightarrow> int" where
  "wrap32 x = signed_take_bit 31 x"

definition FIXED_POINT_MULTIPLIER :: int where
  "FIXED_POINT_MULTIPLIER = 16384"

definition to_fp :: "int \<Rightarrow> int" where
  "to_fp n = wrap32 (n * FIXED_POINT_MULTIPLIER)"

definition to_int_fp :: "int \<Rightarrow> int" where
  "to_int_fp x = x sdiv FIXED_POINT_MULTIPLIER"

definition round_fp :: "int \<Rightarrow> int" where
  "round_fp x = (if x > 0 then wrap32 (x + FIXED_POINT_MULTIPLIER sdiv 2) sdiv FIXED_POINT_MULTIPLIER
     else wrap32 (x - FIXED_POINT_MULTIPLIER sdiv 2) sdiv FIXED_POINT_MULTIPLIER)"

definition add_fp :: "int \<Rightarrow> int \<Rightarrow> int" where
  "add_fp x n = wrap32 (x + to_fp n)"

definition multiply :: "int \<Rightarrow> int \<Rightarrow> int" where
  "multiply x y = wrap32 ((x * y) sdiv FIXED_POINT_MULTIPLIER)"

definition divide_fp :: "int \<Rightarrow> int \<Rightarrow> int res" where
  "divide_fp x y = (if y = 0 then Inl Divide_error
     else Inr (wrap32 ((x * FIXED_POINT_MULTIPLIER) sdiv y)))"

section \<open>Ranges\<close>

definition is_int32 :: "int \<Rightarrow> bool" where
  "is_int32 x \<longleftrightarrow> - 2147483648 \<le> x \<and> x < 2147483648"

lemma wrap32_id [simp]: "is_int32 x \<Longrightarrow> wrap32 x = x"
  by (simp add: is_int32_def wrap32_def signed_take_bit_int_eq_self)

lemma wrap32_range: "is_int32 (wrap32 x)"
  using signed_take_bit_int_less_exp [of 31 x] signed_take_bit_int_greater_eq_minus_exp [of 31 x]
  by (simp add: is_int32_def wrap32_def)

lemma sdiv_bounds:
  assumes "0 < (m::int)"
  shows "0 \<le> x \<Longrightarrow> x sdiv m = x div m" "x \<le> 0 \<Longrightarrow> x sdiv m = - ((- x) div m)"
  using assms by (auto simp: signed_divide_int_def sgn_if)

lemma sdiv_error:
  assumes "0 < (m::int)"
  shows "\<bar>x sdiv m * m - x\<bar> < m" "\<bar>x sdiv m * m\<bar> \<le> \<bar>x\<bar>"
proof -
  have "\<bar>x sdiv m * m - x\<bar> < m \<and> \<bar>x sdiv m * m\<bar> \<le> \<bar>x\<bar>"
  proof (cases "0 \<le> x")
    case True
    have "x - x div m * m = x mod m" by (simp add: minus_div_mult_eq_mod)
    moreover have "0 \<le> x div m * m" using assms True by (simp add: pos_imp_zdiv_nonneg_iff)
    ultimately show ?thesis
      using assms True pos_mod_bound [OF assms, of x] pos_mod_sign [OF assms, of x] by (simp add: sdiv_bounds)
  next
    case False
    have "- x - (- x) div m * m = (- x) mod m" by (simp add: minus_div_mult_eq_mod)
    moreover have "0 \<le> (- x) div m * m" using assms False by (simp add: pos_imp_zdiv_nonneg_iff)
    ultimately show ?thesis
      using assms False pos_mod_bound [OF assms, of "- x"] pos_mod_sign [OF assms, of "- x"]
      by (simp add: sdiv_bounds)
  qed
  then show "\<bar>x sdiv m * m - x\<bar> < m" "\<bar>x sdiv m * m\<bar> \<le> \<bar>x\<bar>" by simp_all
qed

lemma to_fp_eq: "- 131072 \<le> n \<Longrightarrow> n < 131072 \<Longrightarrow> to_fp n = n * 16384"
  by (simp add: to_fp_def FIXED_POINT_MULTIPLIER_def is_int32_def)

lemma multiply_error:
  assumes "is_int32 ((x * y) sdiv 16384)"
  shows "\<bar>multiply x y * 16384 - x * y\<bar> < 16384"
  using assms sdiv_error(1) [of 16384 "x * y"] by (simp add: multiply_def FIXED_POINT_MULTIPLIER_def)

section \<open>Properties\<close>

text \<open>
  Converting an integer of 17 bits to fixed point and back, by truncation or by rounding,
  gives the integer.
\<close>

theorem fp_roundtrip:
  assumes "- 131072 < n" "n < 131072"
  shows "to_int_fp (to_fp n) = n \<and> round_fp (to_fp n) = n"
  using assms
  by (auto simp: to_fp_eq to_int_fp_def round_fp_def FIXED_POINT_MULTIPLIER_def is_int32_def
      signed_divide_int_def sgn_if)

theorem fp_roundtrip_witness: "to_int_fp (to_fp (-5)) = -5 \<and> round_fp (to_fp (-5)) = -5"
  using fp_roundtrip [of "-5"] by simp

text \<open>
  Rounding returns a nearest integer: the error is at most one half, for every fixed-point
  number from which adding or subtracting one half does not leave the 32-bit range.
\<close>

theorem round_fp_nearest:
  assumes "- 2147483648 + 8192 \<le> x" "x < 2147483648 - 8192"
  shows "\<bar>round_fp x * FIXED_POINT_MULTIPLIER - x\<bar> \<le> FIXED_POINT_MULTIPLIER div 2"
proof (cases "0 < x")
  case True
  have "round_fp x = (x + 8192) div 16384"
    using True assms by (simp add: round_fp_def FIXED_POINT_MULTIPLIER_def is_int32_def
        signed_divide_int_def sgn_if)
  then show ?thesis by (simp add: FIXED_POINT_MULTIPLIER_def)
next
  case False
  have "round_fp x = - ((8192 - x) div 16384)"
    using False assms by (simp add: round_fp_def FIXED_POINT_MULTIPLIER_def is_int32_def
        signed_divide_int_def sgn_if)
  then show ?thesis by (simp add: FIXED_POINT_MULTIPLIER_def)
qed

theorem round_fp_nearest_witness:
  "\<bar>round_fp 24577 * FIXED_POINT_MULTIPLIER - 24577\<bar> \<le> FIXED_POINT_MULTIPLIER div 2"
  using round_fp_nearest [of 24577] by simp

end
