(* ===== verification/Thread_Model.thy ===== *)
theory Thread_Model
  imports Fixed_Point
begin

text \<open>
  Threads, interrupts and synchronisation: \<^verbatim>\<open>threads/thread.c\<close>, \<^verbatim>\<open>threads/synch.c\<close>, the interrupt
  flag and \<open>intr_handler\<close> of \<^verbatim>\<open>threads/interrupt.c\<close>, and the sleeping and the tick of
  \<^verbatim>\<open>devices/timer.c\<close>, as one state machine.

  The state is the record \<open>kernel\<close>. A pointer to a thread is its address; the kernel's lists are the
  lists of the threads they link. \<open>current\<close> is the thread on whose stack the processor runs.

  A function that reaches \<open>schedule\<close> goes on in its own thread much later, after other threads have
  run. What is left of it is a list of instructions kept with the thread (\<open>code\<close>, its kernel stack):
  a function that may switch first pushes what follows the call, and \<open>resume\<close> executes the topmost
  instruction of the running thread. A thread whose \<open>code\<close> is empty is in its thread function and
  may call any function of the interface.
\<close>

section \<open>State\<close>

datatype thread_status = THREAD_RUNNING | THREAD_READY | THREAD_BLOCKED | THREAD_DYING

text \<open>
  The function a thread is created with: \<open>idle\<close> with its semaphore, or another one, which may call
  whatever it likes.
\<close>

datatype thread_func = Idle addr | Other_function

text \<open>
  The continuations. \<open>Set_level\<close>: \<open>intr_set_level (old_level)\<close> behind a switch. \<open>Sema_loop\<close>: the
  loop of \<open>sema_down\<close>. \<open>Lock_own\<close>: the assignment of the holder at the end of \<open>lock_acquire\<close>.
  \<open>Sema_down_call\<close>, \<open>Lock_acquire_call\<close>: the last two calls of \<open>cond_wait\<close>. \<open>Broadcast_loop\<close>: the
  loop of \<open>cond_broadcast\<close>. \<open>Create_pid\<close>: \<open>thread_create_ptr\<close> behind \<open>init_thread\<close>.
  \<open>Tid_next\<close>: \<open>allocate_tid\<close> with the lock held; \<open>Tid_set\<close>: the assignment of its result;
  \<open>Create_unblock\<close>: the end of \<open>thread_create_ptr\<close>. \<open>Sleep_from\<close>: \<open>timer_sleep\<close>
  behind \<open>timer_ticks\<close>. \<open>Iret\<close>: the return from an interrupt, which turns interrupts on again.
  \<open>Idle_start\<close>, \<open>Idle_loop\<close>, \<open>Idle_halt\<close>: the body of \<open>idle\<close>.
\<close>

datatype instr =
    Set_level bool
  | Sema_loop addr bool
  | Lock_own addr
  | Sema_down_call addr
  | Lock_acquire_call addr
  | Broadcast_loop addr addr
  | Create_pid addr int thread_func
  | Tid_next addr
  | Tid_set addr int
  | Create_unblock addr thread_func
  | Sleep_from int int
  | Iret
  | Idle_start addr
  | Idle_loop
  | Idle_halt

record thread =
  tid :: int
  pid :: int
  status :: thread_status
  priority :: int
  wake_time :: int
  nice :: int
  recent_cpu :: int
  priority_donations :: "addr list"
  orig_priority :: int
  lock_needed :: addr
  pagedir_set :: bool
  code :: "instr list"

record semaphore =
  sema_value :: u32
  waiters :: "addr list"

record kernel =
  thr :: "addr \<rightharpoonup> thread"
  ready_list :: "addr list"
  all_list :: "addr list"
  sleeping_list :: "addr list"
  idle_thread :: addr
  initial_thread :: addr
  current :: addr
  intr_on :: bool
  in_external_intr :: bool
  yield_on_return :: bool
  thread_waiting :: bool
  thread_ticks :: u32
  idle_ticks :: int
  kernel_ticks :: int
  user_ticks :: int
  ticks :: int
  next_tid :: int
  thread_mlfqs :: bool
  load_avg :: int
  load_coefficient :: int
  semas :: "addr \<rightharpoonup> semaphore"
  holder :: "addr \<rightharpoonup> addr"
  conds :: "addr \<rightharpoonup> addr list"

definition PRI_MIN :: int where "PRI_MIN = 0"
definition PRI_DEFAULT :: int where "PRI_DEFAULT = 31"
definition PRI_MAX :: int where "PRI_MAX = 63"
definition TIME_SLICE :: u32 where "TIME_SLICE = 4"
definition TIMER_FREQ :: int where "TIMER_FREQ = 100"

text \<open>The semaphore inside a lock, behind the holder field; the lock of \<open>allocate_tid\<close>.\<close>

definition lock_sema :: "addr \<Rightarrow> addr" where
  "lock_sema l = l + 4"

definition tid_lock :: addr where
  "tid_lock = 16"

section \<open>Access to the state\<close>

definition get_thr :: "kernel \<Rightarrow> addr \<Rightarrow> thread res" where
  "get_thr k t = (case thr k t of None \<Rightarrow> Inl Invalid_access | Some x \<Rightarrow> Inr x)"

definition upd_thr :: "addr \<Rightarrow> (thread \<Rightarrow> thread) \<Rightarrow> kernel \<Rightarrow> kernel res" where
  "upd_thr t f k = bindR (get_thr k t) (\<lambda>x. Inr (k\<lparr>thr := (thr k)(t \<mapsto> f x)\<rparr>))"

definition get_sema :: "kernel \<Rightarrow> addr \<Rightarrow> semaphore res" where
  "get_sema k p = (case semas k p of None \<Rightarrow> Inl Invalid_access | Some s \<Rightarrow> Inr s)"

definition set_sema :: "addr \<Rightarrow> semaphore \<Rightarrow> kernel \<Rightarrow> kernel" where
  "set_sema p s k = k\<lparr>semas := (semas k)(p \<mapsto> s)\<rparr>"

definition get_holder :: "kernel \<Rightarrow> addr \<Rightarrow> addr res" where
  "get_holder k l = (case holder k l of None \<Rightarrow> Inl Invalid_access | Some t \<Rightarrow> Inr t)"

definition get_cond :: "kernel \<Rightarrow> addr \<Rightarrow> addr list res" where
  "get_cond k c = (case conds k c of None \<Rightarrow> Inl Invalid_access | Some ws \<Rightarrow> Inr ws)"

definition push_code :: "instr \<Rightarrow> kernel \<Rightarrow> kernel res" where
  "push_code i k = upd_thr (current k) (\<lambda>x. x\<lparr>code := i # code x\<rparr>) k"

definition is_thread :: "kernel \<Rightarrow> addr \<Rightarrow> bool" where
  "is_thread k t \<longleftrightarrow> t \<noteq> NULL \<and> thr k t \<noteq> None"

definition thread_current :: "kernel \<Rightarrow> addr res" where
  "thread_current k =
     bindR (ASSERT (is_thread k (current k))) (\<lambda>_.
     bindR (get_thr k (current k)) (\<lambda>x.
     bindR (ASSERT (status x = THREAD_RUNNING)) (\<lambda>_. Inr (current k))))"

section \<open>Choosing and switching threads\<close>

text \<open>Priorities are compared as \<open>int8_t\<close>.\<close>

definition int8 :: "int \<Rightarrow> int" where
  "int8 x = signed_take_bit 7 x"

fun highest_loop :: "kernel \<Rightarrow> addr list \<Rightarrow> int \<Rightarrow> addr option \<Rightarrow> addr option res" where
  "highest_loop k [] max_priority nxt = Inr nxt"
| "highest_loop k (e # es) max_priority nxt =
     bindR (get_thr k e) (\<lambda>x.
     let pri = int8 (priority x) in
     if pri > max_priority then highest_loop k es pri (Some e)
     else highest_loop k es max_priority nxt)"

definition list_highest_priority :: "kernel \<Rightarrow> addr list \<Rightarrow> addr option res" where
  "list_highest_priority k in_list =
     (if in_list = [] then Inr None else highest_loop k in_list (-1) None)"

definition next_thread_to_run :: "kernel \<Rightarrow> (kernel \<times> addr) res" where
  "next_thread_to_run k =
     (if ready_list k = [] then Inr (k, idle_thread k)
      else bindR (list_highest_priority k (ready_list k)) (\<lambda>nxt. case nxt of
        Some t \<Rightarrow> Inr (k\<lparr>ready_list := remove1 t (ready_list k)\<rparr>, t)
      | None \<Rightarrow> Inr (k, idle_thread k)))"

definition thread_schedule_tail :: "addr \<Rightarrow> kernel \<Rightarrow> kernel res" where
  "thread_schedule_tail prev k =
     bindR (ASSERT (\<not> intr_on k)) (\<lambda>_.
     bindR (upd_thr (current k) (\<lambda>x. x\<lparr>status := THREAD_RUNNING\<rparr>) k) (\<lambda>k.
     let k = k\<lparr>thread_ticks := 0\<rparr> in
     if prev = NULL then Inr k else
     bindR (get_thr k prev) (\<lambda>x.
     if status x = THREAD_DYING \<and> prev \<noteq> initial_thread k
     then bindR (ASSERT (prev \<noteq> current k)) (\<lambda>_. Inr (k\<lparr>thr := (thr k)(prev := None)\<rparr>))
     else Inr k)))"

definition schedule :: "kernel \<Rightarrow> kernel res" where
  "schedule k =
     (let cur = current k in
     bindR (next_thread_to_run k) (\<lambda>(k, nxt).
     bindR (ASSERT (\<not> intr_on k)) (\<lambda>_.
     bindR (get_thr k cur) (\<lambda>x.
     bindR (ASSERT (status x \<noteq> THREAD_RUNNING)) (\<lambda>_.
     bindR (ASSERT (is_thread k nxt)) (\<lambda>_.
     if cur \<noteq> nxt then thread_schedule_tail cur (k\<lparr>current := nxt\<rparr>)
     else thread_schedule_tail NULL k))))))"

definition thread_yield :: "kernel \<Rightarrow> kernel res" where
  "thread_yield k =
     bindR (thread_current k) (\<lambda>cur.
     bindR (ASSERT (\<not> in_external_intr k)) (\<lambda>_.
     let old_level = intr_on k; k = k\<lparr>intr_on := False\<rparr>;
         k = (if cur \<noteq> idle_thread k then k\<lparr>ready_list := ready_list k @ [cur]\<rparr> else k) in
     bindR (upd_thr cur (\<lambda>x. x\<lparr>status := THREAD_READY\<rparr>) k) (\<lambda>k.
     bindR (push_code (Set_level old_level) k) (\<lambda>k.
     schedule k))))"

definition intr_disable :: "kernel \<Rightarrow> kernel" where
  "intr_disable k = k\<lparr>intr_on := False\<rparr>"

definition intr_enable :: "kernel \<Rightarrow> kernel res" where
  "intr_enable k =
     bindR (ASSERT (\<not> in_external_intr k)) (\<lambda>_.
     let k = k\<lparr>intr_on := True\<rparr> in
     if thread_waiting k then thread_yield (k\<lparr>thread_waiting := False\<rparr>) else Inr k)"

definition intr_set_level :: "bool \<Rightarrow> kernel \<Rightarrow> kernel res" where
  "intr_set_level level k = (if level then intr_enable k else Inr (intr_disable k))"

definition intr_yield_on_return :: "kernel \<Rightarrow> kernel res" where
  "intr_yield_on_return k = bindR (ASSERT (in_external_intr k)) (\<lambda>_. Inr (k\<lparr>yield_on_return := True\<rparr>))"

text \<open>The caller of \<open>thread_block\<close> has pushed what it does after being woken.\<close>

definition thread_block :: "kernel \<Rightarrow> kernel res" where
  "thread_block k =
     bindR (ASSERT (\<not> in_external_intr k)) (\<lambda>_.
     bindR (ASSERT (\<not> intr_on k)) (\<lambda>_.
     bindR (thread_current k) (\<lambda>cur.
     bindR (upd_thr cur (\<lambda>x. x\<lparr>status := THREAD_BLOCKED\<rparr>) k) (\<lambda>k.
     schedule k))))"

definition thread_unblock :: "addr \<Rightarrow> kernel \<Rightarrow> kernel res" where
  "thread_unblock t k =
     bindR (ASSERT (is_thread k t)) (\<lambda>_.
     let old_level = intr_on k; k = intr_disable k in
     bindR (get_thr k t) (\<lambda>x.
     bindR (ASSERT (status x = THREAD_BLOCKED)) (\<lambda>_.
     bindR (upd_thr t (\<lambda>x. x\<lparr>status := THREAD_READY\<rparr>) (k\<lparr>ready_list := ready_list k @ [t]\<rparr>)) (\<lambda>k.
     bindR (thread_current k) (\<lambda>cur.
     bindR (get_thr k cur) (\<lambda>c.
     intr_set_level old_level (if priority x > priority c then k\<lparr>thread_waiting := True\<rparr> else k)))))))"

text \<open>
  \<open>process_exit\<close>, which a process runs first, belongs to the process table; here is what follows it.
\<close>

definition thread_exit :: "kernel \<Rightarrow> kernel res" where
  "thread_exit k =
     bindR (ASSERT (\<not> in_external_intr k)) (\<lambda>_.
     let k = intr_disable k in
     bindR (thread_current k) (\<lambda>cur.
     let k = k\<lparr>all_list := remove1 cur (all_list k)\<rparr> in
     bindR (upd_thr cur (\<lambda>x. x\<lparr>status := THREAD_DYING\<rparr>) k) (\<lambda>k.
     schedule k)))"

section \<open>Priority donation\<close>

text \<open>
  The loop of \<open>thread_donate_priority\<close> follows the chain of locks from \<open>donee\<close>; nothing in the code
  bounds its length.
\<close>

fun donate_loop :: "nat \<Rightarrow> addr \<Rightarrow> addr \<Rightarrow> kernel \<Rightarrow> kernel res" where
  "donate_loop 0 donee next_lock k = (if next_lock = NULL then Inr k else Inl Out_of_fuel)"
| "donate_loop (Suc n) donee next_lock k =
     (if next_lock = NULL then Inr k else
      bindR (get_holder k next_lock) (\<lambda>h.
      bindR (ASSERT (h \<noteq> NULL)) (\<lambda>_.
      bindR (get_thr k donee) (\<lambda>c.
      bindR (upd_thr h (\<lambda>x. x\<lparr>priority := priority c\<rparr>) k) (\<lambda>k.
      bindR (get_thr k h) (\<lambda>x.
      donate_loop n h (lock_needed x) k))))))"

definition thread_get_priority :: "kernel \<Rightarrow> int res" where
  "thread_get_priority k =
     bindR (thread_current k) (\<lambda>cur. bindR (get_thr k cur) (\<lambda>x. Inr (priority x)))"

definition thread_donate_priority :: "nat \<Rightarrow> addr \<Rightarrow> kernel \<Rightarrow> kernel res" where
  "thread_donate_priority fuel donate_to k =
     bindR (thread_current k) (\<lambda>cur.
     bindR (upd_thr donate_to (\<lambda>x. x\<lparr>priority_donations := priority_donations x @ [cur]\<rparr>) k) (\<lambda>k.
     bindR (thread_get_priority k) (\<lambda>p.
     bindR (upd_thr donate_to (\<lambda>x. x\<lparr>priority := p\<rparr>) k) (\<lambda>k.
     bindR (get_thr k donate_to) (\<lambda>x.
     donate_loop fuel donate_to (lock_needed x) k)))))"

definition thread_set_priority :: "int \<Rightarrow> kernel \<Rightarrow> kernel res" where
  "thread_set_priority new_priority k =
     bindR (thread_current k) (\<lambda>cur.
     bindR (upd_thr cur (\<lambda>x. x\<lparr>orig_priority := new_priority\<rparr>) k) (\<lambda>k.
     bindR (upd_thr cur (\<lambda>x. if priority_donations x = [] then x\<lparr>priority := new_priority\<rparr>
         else if new_priority > priority x then x\<lparr>priority := new_priority\<rparr> else x) k) (\<lambda>k.
     thread_yield k)))"

section \<open>Semaphores\<close>

definition sema_init :: "addr \<Rightarrow> u32 \<Rightarrow> kernel \<Rightarrow> kernel res" where
  "sema_init sema v k =
     bindR (ASSERT (sema \<noteq> NULL)) (\<lambda>_. Inr (set_sema sema \<lparr>sema_value = v, waiters = []\<rparr> k))"

text \<open>One evaluation of the loop condition of \<open>sema_down\<close> and what follows it, interrupts off.\<close>

definition sema_loop :: "addr \<Rightarrow> bool \<Rightarrow> kernel \<Rightarrow> kernel res" where
  "sema_loop sema old_level k =
     bindR (get_sema k sema) (\<lambda>s.
     if sema_value s = 0 then
       bindR (thread_current k) (\<lambda>cur.
       let k = set_sema sema (s\<lparr>waiters := waiters s @ [cur]\<rparr>) k in
       bindR (push_code (Sema_loop sema old_level) k) (\<lambda>k.
       thread_block k))
     else intr_set_level old_level (set_sema sema (s\<lparr>sema_value := sema_value s - 1\<rparr>) k))"

definition sema_down :: "addr \<Rightarrow> kernel \<Rightarrow> kernel res" where
  "sema_down sema k =
     bindR (ASSERT (sema \<noteq> NULL)) (\<lambda>_.
     bindR (ASSERT (\<not> in_external_intr k)) (\<lambda>_.
     sema_loop sema (intr_on k) (intr_disable k)))"

definition sema_try_down :: "addr \<Rightarrow> kernel \<Rightarrow> (kernel \<times> bool) res" where
  "sema_try_down sema k =
     bindR (ASSERT (sema \<noteq> NULL)) (\<lambda>_.
     let old_level = intr_on k; k = intr_disable k in
     bindR (get_sema k sema) (\<lambda>s.
     if sema_value s > 0
     then bindR (intr_set_level old_level (set_sema sema (s\<lparr>sema_value := sema_value s - 1\<rparr>) k))
            (\<lambda>k. Inr (k, True))
     else bindR (intr_set_level old_level k) (\<lambda>k. Inr (k, False))))"

text \<open>\<open>list_remove\<close> of the null pointer that \<open>list_highest_priority\<close> returns is an invalid access.\<close>

definition sema_up :: "addr \<Rightarrow> kernel \<Rightarrow> kernel res" where
  "sema_up sema k =
     bindR (ASSERT (sema \<noteq> NULL)) (\<lambda>_.
     let old_level = intr_on k; k = intr_disable k in
     bindR (get_sema k sema) (\<lambda>s.
     bindR (if waiters s = [] then Inr k
            else bindR (list_highest_priority k (waiters s)) (\<lambda>high. case high of
              None \<Rightarrow> Inl Invalid_access
            | Some t \<Rightarrow> thread_unblock t (set_sema sema (s\<lparr>waiters := remove1 t (waiters s)\<rparr>) k))) (\<lambda>k.
     bindR (get_sema k sema) (\<lambda>s.
     intr_set_level old_level (set_sema sema (s\<lparr>sema_value := sema_value s + 1\<rparr>) k)))))"

section \<open>Locks\<close>

definition lock_init :: "addr \<Rightarrow> kernel \<Rightarrow> kernel res" where
  "lock_init lock k =
     bindR (ASSERT (lock \<noteq> NULL)) (\<lambda>_.
     sema_init (lock_sema lock) 1 (k\<lparr>holder := (holder k)(lock \<mapsto> NULL)\<rparr>))"

definition lock_held_by_current_thread :: "addr \<Rightarrow> kernel \<Rightarrow> bool res" where
  "lock_held_by_current_thread lock k =
     bindR (ASSERT (lock \<noteq> NULL)) (\<lambda>_.
     bindR (get_holder k lock) (\<lambda>h.
     bindR (thread_current k) (\<lambda>cur. Inr (h = cur))))"

definition lock_acquire :: "nat \<Rightarrow> addr \<Rightarrow> kernel \<Rightarrow> kernel res" where
  "lock_acquire fuel lock k =
     bindR (ASSERT (lock \<noteq> NULL)) (\<lambda>_.
     bindR (ASSERT (\<not> in_external_intr k)) (\<lambda>_.
     bindR (lock_held_by_current_thread lock k) (\<lambda>held.
     bindR (ASSERT (\<not> held)) (\<lambda>_.
     bindR (get_holder k lock) (\<lambda>h.
     bindR (if h \<noteq> NULL then
              bindR (get_thr k h) (\<lambda>x.
              bindR (thread_get_priority k) (\<lambda>p.
              if priority x < p then
                bindR (thread_donate_priority fuel h k) (\<lambda>k.
                upd_thr (current k) (\<lambda>x. x\<lparr>lock_needed := lock\<rparr>) k)
              else Inr k))
            else Inr k) (\<lambda>k.
     bindR (push_code (Lock_own lock) k) (\<lambda>k.
     sema_down (lock_sema lock) k)))))))"

text \<open>
  \<open>lock_try_acquire\<close> leaves the assignment of the holder to the continuation when it succeeds.
\<close>

definition lock_try_acquire :: "addr \<Rightarrow> kernel \<Rightarrow> (kernel \<times> bool) res" where
  "lock_try_acquire lock k =
     bindR (ASSERT (lock \<noteq> NULL)) (\<lambda>_.
     bindR (lock_held_by_current_thread lock k) (\<lambda>held.
     bindR (ASSERT (\<not> held)) (\<lambda>_.
     bindR (get_sema k (lock_sema lock)) (\<lambda>s.
     bindR (if sema_value s > 0 then push_code (Lock_own lock) k else Inr k) (\<lambda>k.
     sema_try_down (lock_sema lock) k)))))"

text \<open>
  The loop over the donations of the holder in \<open>lock_release\<close>. It removes the donors that wait for
  this lock and keeps the highest priority of the others; \<open>p\<close> is the holder's priority so far.
\<close>

fun release_loop :: "kernel \<Rightarrow> addr \<Rightarrow> addr list \<Rightarrow> int \<Rightarrow> (addr list \<times> int) res" where
  "release_loop k lock [] p = Inr ([], p)"
| "release_loop k lock (d # ds) p =
     bindR (get_thr k d) (\<lambda>x.
     if lock_needed x = lock then release_loop k lock ds p
     else bindR (release_loop k lock ds (if priority x > p then priority x else p)) (\<lambda>(ds, p).
       Inr (d # ds, p)))"

text \<open>Clearing the holder and upping the semaphore are one step here; interrupts may be on between the two in the code.\<close>

definition lock_release :: "addr \<Rightarrow> kernel \<Rightarrow> kernel res" where
  "lock_release lock k =
     bindR (ASSERT (lock \<noteq> NULL)) (\<lambda>_.
     bindR (lock_held_by_current_thread lock k) (\<lambda>held.
     bindR (ASSERT held) (\<lambda>_.
     bindR (get_holder k lock) (\<lambda>h.
     bindR (upd_thr h (\<lambda>x. x\<lparr>priority := orig_priority x\<rparr>) k) (\<lambda>k.
     bindR (get_thr k h) (\<lambda>x.
     bindR (release_loop k lock (priority_donations x) (priority x)) (\<lambda>(ds, p).
     bindR (upd_thr h (\<lambda>x. x\<lparr>priority_donations := ds, priority := p\<rparr>) k) (\<lambda>k.
     sema_up (lock_sema lock) (k\<lparr>holder := (holder k)(lock \<mapsto> NULL)\<rparr>)))))))))"

section \<open>Condition variables\<close>

definition cond_init :: "addr \<Rightarrow> kernel \<Rightarrow> kernel res" where
  "cond_init cond k =
     bindR (ASSERT (cond \<noteq> NULL)) (\<lambda>_. Inr (k\<lparr>conds := (conds k)(cond \<mapsto> [])\<rparr>))"

text \<open>\<open>waiter\<close> is the address of the semaphore in the stack frame of the call.\<close>

definition cond_wait :: "addr \<Rightarrow> addr \<Rightarrow> addr \<Rightarrow> kernel \<Rightarrow> kernel res" where
  "cond_wait waiter cond lock k =
     bindR (ASSERT (cond \<noteq> NULL)) (\<lambda>_.
     bindR (ASSERT (lock \<noteq> NULL)) (\<lambda>_.
     bindR (ASSERT (\<not> in_external_intr k)) (\<lambda>_.
     bindR (lock_held_by_current_thread lock k) (\<lambda>held.
     bindR (ASSERT held) (\<lambda>_.
     bindR (sema_init waiter 0 k) (\<lambda>k.
     bindR (get_cond k cond) (\<lambda>ws.
     let k = k\<lparr>conds := (conds k)(cond \<mapsto> ws @ [waiter])\<rparr> in
     bindR (push_code (Lock_acquire_call lock) k) (\<lambda>k.
     bindR (push_code (Sema_down_call waiter) k) (\<lambda>k.
     lock_release lock k)))))))))"

fun signal_loop :: "kernel \<Rightarrow> addr list \<Rightarrow> int \<Rightarrow> addr option \<Rightarrow> addr option res" where
  "signal_loop k [] max_priority nxt = Inr nxt"
| "signal_loop k (w # ws) max_priority nxt =
     bindR (get_sema k w) (\<lambda>s.
     bindR (if waiters s \<noteq> [] then
              bindR (list_highest_priority k (waiters s)) (\<lambda>h. case h of
                None \<Rightarrow> Inl Invalid_access
              | Some t \<Rightarrow> bindR (get_thr k t) (\<lambda>x. Inr (int8 (priority x))))
            else Inr (-1)) (\<lambda>pri.
     if pri > max_priority then signal_loop k ws pri (Some w)
     else signal_loop k ws max_priority nxt))"

definition cond_signal :: "addr \<Rightarrow> addr \<Rightarrow> kernel \<Rightarrow> kernel res" where
  "cond_signal cond lock k =
     bindR (ASSERT (cond \<noteq> NULL)) (\<lambda>_.
     bindR (ASSERT (lock \<noteq> NULL)) (\<lambda>_.
     bindR (ASSERT (\<not> in_external_intr k)) (\<lambda>_.
     bindR (lock_held_by_current_thread lock k) (\<lambda>held.
     bindR (ASSERT held) (\<lambda>_.
     bindR (get_cond k cond) (\<lambda>ws.
     if ws = [] then Inr k else
     bindR (signal_loop k ws (-1) None) (\<lambda>nxt. case nxt of
       None \<Rightarrow> Inl Assertion_failure
     | Some w \<Rightarrow> sema_up w (k\<lparr>conds := (conds k)(cond \<mapsto> remove1 w ws)\<rparr>))))))))"

definition cond_broadcast :: "addr \<Rightarrow> addr \<Rightarrow> kernel \<Rightarrow> kernel res" where
  "cond_broadcast cond lock k =
     bindR (ASSERT (cond \<noteq> NULL)) (\<lambda>_.
     bindR (ASSERT (lock \<noteq> NULL)) (\<lambda>_.
     bindR (get_cond k cond) (\<lambda>ws.
     if ws = [] then Inr k else
     bindR (push_code (Broadcast_loop cond lock) k) (\<lambda>k.
     cond_signal cond lock k))))"

section \<open>Creating threads\<close>

definition init_thread :: "addr \<Rightarrow> int \<Rightarrow> kernel \<Rightarrow> kernel res" where
  "init_thread t prio k =
     bindR (ASSERT (t \<noteq> NULL)) (\<lambda>_.
     bindR (ASSERT (PRI_MIN \<le> prio \<and> prio \<le> PRI_MAX)) (\<lambda>_.
     let k = k\<lparr>thr := (thr k)(t \<mapsto> \<lparr>tid = 0, pid = -1, status = THREAD_BLOCKED, priority = prio,
           wake_time = -1, nice = 0, recent_cpu = 0, priority_donations = [], orig_priority = prio,
           lock_needed = NULL, pagedir_set = False, code = []\<rparr>)\<rparr>;
         old_level = intr_on k; k = intr_disable k;
         k = k\<lparr>all_list := all_list k @ [t]\<rparr> in
     intr_set_level old_level k))"

text \<open>
  \<open>page\<close> is what \<open>palloc_get_page\<close> returns. \<open>thread_create_ptr\<close> runs in four pieces, since
  \<open>init_thread\<close>, the acquisition of \<open>tid_lock\<close> and its release may switch to another thread.
\<close>

definition thread_create_ptr :: "addr \<Rightarrow> int \<Rightarrow> thread_func \<Rightarrow> int \<Rightarrow> kernel \<Rightarrow> kernel res" where
  "thread_create_ptr page prio function0 pid0 k =
     (if page = NULL then Inr k else
      bindR (push_code (Create_pid page pid0 function0) k) (\<lambda>k.
      init_thread page prio k))"

definition create_pid :: "nat \<Rightarrow> addr \<Rightarrow> int \<Rightarrow> thread_func \<Rightarrow> kernel \<Rightarrow> kernel res" where
  "create_pid fuel t pid0 function0 k =
     bindR (upd_thr t (\<lambda>x. x\<lparr>pid := pid0\<rparr>) k) (\<lambda>k.
     bindR (push_code (Create_unblock t function0) k) (\<lambda>k.
     bindR (push_code (Tid_next t) k) (\<lambda>k.
     lock_acquire fuel tid_lock k)))"

definition allocate_tid :: "addr \<Rightarrow> kernel \<Rightarrow> kernel res" where
  "allocate_tid t k =
     (let n = next_tid k; k = k\<lparr>next_tid := wrap32 (n + 1)\<rparr> in
     bindR (push_code (Tid_set t n) k) (\<lambda>k.
     lock_release tid_lock k))"

text \<open>
  The frames put on the new stack make the thread start in \<open>kernel_thread\<close>, which turns interrupts on
  and calls the function.
\<close>

definition kernel_thread :: "thread_func \<Rightarrow> instr list" where
  "kernel_thread function0 = Set_level True # (case function0 of Idle p \<Rightarrow> [Idle_start p] | Other_function \<Rightarrow> [])"

definition create_unblock :: "addr \<Rightarrow> thread_func \<Rightarrow> kernel \<Rightarrow> kernel res" where
  "create_unblock t function0 k =
     bindR (upd_thr t (\<lambda>x. x\<lparr>code := kernel_thread function0 @ code x\<rparr>) k) (\<lambda>k.
     thread_unblock t k)"

definition thread_init :: "nat \<Rightarrow> addr \<Rightarrow> kernel \<Rightarrow> kernel res" where
  "thread_init fuel main k =
     bindR (ASSERT (\<not> intr_on k)) (\<lambda>_.
     bindR (lock_init tid_lock k) (\<lambda>k.
     let k = k\<lparr>ready_list := [], all_list := [], sleeping_list := []\<rparr>;
         k = (if thread_mlfqs k then k\<lparr>load_avg := 0\<rparr> else k);
         k = k\<lparr>thread_waiting := False, initial_thread := main, current := main\<rparr> in
     bindR (init_thread main PRI_DEFAULT k) (\<lambda>k.
     bindR (upd_thr main (\<lambda>x. x\<lparr>status := THREAD_RUNNING\<rparr>) k) (\<lambda>k.
     bindR (push_code (Tid_next main) k) (\<lambda>k.
     lock_acquire fuel tid_lock k)))))"

text \<open>
  \<open>thread_start\<close>: create the idle thread, enable interrupts, wait for it. \<open>idle_started\<close> is the
  semaphore in its stack frame, \<open>page\<close> the page of the idle thread.
\<close>

definition thread_start :: "addr \<Rightarrow> addr \<Rightarrow> kernel \<Rightarrow> kernel res" where
  "thread_start idle_started page k =
     bindR (sema_init idle_started 0 k) (\<lambda>k.
     bindR (push_code (Sema_down_call idle_started) k) (\<lambda>k.
     bindR (push_code (Set_level True) k) (\<lambda>k.
     thread_create_ptr page PRI_MIN (Idle idle_started) (-1) k)))"

section \<open>The multi-level feedback queue\<close>

definition mlfqs_priority :: "thread \<Rightarrow> int" where
  "mlfqs_priority x =
     (let update = wrap32 (PRI_MAX - round_fp (recent_cpu x sdiv 4) - wrap32 (nice x * 2)) in
      if update < PRI_MIN then PRI_MIN else if update > PRI_MAX then PRI_MAX else update)"

definition thread_update_mlfqs_priority :: "addr \<Rightarrow> kernel \<Rightarrow> kernel res" where
  "thread_update_mlfqs_priority t k =
     (if t = idle_thread k then Inr k else upd_thr t (\<lambda>x. x\<lparr>priority := mlfqs_priority x\<rparr>) k)"

definition update_recent_cpu :: "addr \<Rightarrow> kernel \<Rightarrow> kernel res" where
  "update_recent_cpu t k =
     bindR (divide_fp (wrap32 (2 * load_avg k)) (wrap32 (wrap32 (2 * load_avg k) + to_fp 1))) (\<lambda>a.
     upd_thr t (\<lambda>x. x\<lparr>recent_cpu := wrap32 (multiply (recent_cpu x) a + to_fp (nice x))\<rparr>) k)"

definition update_load_avg :: "kernel \<Rightarrow> kernel res" where
  "update_load_avg k =
     bindR (thread_current k) (\<lambda>cur.
     Inr (k\<lparr>load_avg := wrap32 (multiply (to_fp 59 sdiv 60) (load_avg k)
        + to_fp 1 sdiv 60 * (int (length (ready_list k)) + (if cur \<noteq> idle_thread k then 1 else 0)))\<rparr>))"

fun foreach_loop :: "(addr \<Rightarrow> kernel \<Rightarrow> kernel res) \<Rightarrow> addr list \<Rightarrow> kernel \<Rightarrow> kernel res" where
  "foreach_loop func [] k = Inr k"
| "foreach_loop func (t # ts) k = bindR (func t k) (\<lambda>k. foreach_loop func ts k)"

definition thread_foreach :: "(addr \<Rightarrow> kernel \<Rightarrow> kernel res) \<Rightarrow> kernel \<Rightarrow> kernel res" where
  "thread_foreach func k =
     bindR (ASSERT (\<not> intr_on k)) (\<lambda>_. foreach_loop func (all_list k) k)"

definition thread_set_nice :: "int \<Rightarrow> kernel \<Rightarrow> kernel res" where
  "thread_set_nice n k =
     bindR (thread_current k) (\<lambda>t.
     bindR (upd_thr t (\<lambda>x. x\<lparr>nice := n\<rparr>) k) (\<lambda>k.
     bindR (thread_update_mlfqs_priority t k) (\<lambda>k.
     thread_yield k)))"

definition thread_get_load_avg :: "kernel \<Rightarrow> int" where
  "thread_get_load_avg k = round_fp (multiply (to_fp 100) (load_avg k))"

definition thread_get_recent_cpu :: "kernel \<Rightarrow> int res" where
  "thread_get_recent_cpu k =
     bindR (thread_current k) (\<lambda>cur. bindR (get_thr k cur) (\<lambda>x.
     Inr (round_fp (multiply (to_fp 100) (recent_cpu x)))))"

section \<open>Sleeping and the timer tick\<close>

definition wrap64 :: "int \<Rightarrow> int" where
  "wrap64 x = signed_take_bit 63 x"

fun wake_loop :: "int \<Rightarrow> addr list \<Rightarrow> kernel \<Rightarrow> kernel res" where
  "wake_loop cur_time [] k = Inr k"
| "wake_loop cur_time (t # ts) k =
     bindR (get_thr k t) (\<lambda>x.
     if cur_time \<ge> wake_time x then
       bindR (upd_thr t (\<lambda>x. x\<lparr>wake_time := -1\<rparr>) k) (\<lambda>k.
       bindR (thread_unblock t (k\<lparr>sleeping_list := remove1 t (sleeping_list k)\<rparr>)) (\<lambda>k.
       wake_loop cur_time ts k))
     else wake_loop cur_time ts k)"

definition wake_sleeping_threads :: "int \<Rightarrow> kernel \<Rightarrow> kernel res" where
  "wake_sleeping_threads cur_time k =
     bindR (ASSERT (\<not> intr_on k)) (\<lambda>_. wake_loop cur_time (sleeping_list k) k)"

definition thread_sleep :: "kernel \<Rightarrow> kernel res" where
  "thread_sleep k =
     bindR (thread_current k) (\<lambda>cur. Inr (k\<lparr>sleeping_list := sleeping_list k @ [cur]\<rparr>))"

definition count_tick :: "addr \<Rightarrow> thread \<Rightarrow> kernel \<Rightarrow> kernel" where
  "count_tick t x k =
     (if t = idle_thread k then k\<lparr>idle_ticks := wrap64 (idle_ticks k + 1)\<rparr>
      else if pagedir_set x then k\<lparr>user_ticks := wrap64 (user_ticks k + 1)\<rparr>
      else k\<lparr>kernel_ticks := wrap64 (kernel_ticks k + 1)\<rparr>)"

definition mlfqs_tick :: "addr \<Rightarrow> kernel \<Rightarrow> kernel res" where
  "mlfqs_tick t k =
     bindR (upd_thr t (\<lambda>x. x\<lparr>recent_cpu := add_fp (recent_cpu x) 1\<rparr>) k) (\<lambda>k.
     let tk = wrap32 (idle_ticks k + user_ticks k + kernel_ticks k) in
     bindR (if tk mod TIMER_FREQ = 0 then
              bindR (update_load_avg k) (\<lambda>k.
              bindR (divide_fp (wrap32 (2 * load_avg k)) (add_fp (wrap32 (2 * load_avg k)) 1)) (\<lambda>c.
              thread_foreach update_recent_cpu (k\<lparr>load_coefficient := c\<rparr>)))
            else Inr k) (\<lambda>k.
     if tk mod 4 = 0 then
       bindR (thread_foreach thread_update_mlfqs_priority k) intr_yield_on_return
     else Inr k))"

definition preempt_tick :: "addr \<Rightarrow> kernel \<Rightarrow> kernel res" where
  "preempt_tick t k =
     (if thread_mlfqs k then mlfqs_tick t k
      else let k = k\<lparr>thread_ticks := thread_ticks k + 1\<rparr> in
        if thread_ticks k \<ge> TIME_SLICE then intr_yield_on_return k else Inr k)"

definition thread_tick :: "kernel \<Rightarrow> kernel res" where
  "thread_tick k =
     bindR (thread_current k) (\<lambda>t.
     bindR (get_thr k t) (\<lambda>x.
     bindR (preempt_tick t (count_tick t x k)) (\<lambda>k.
     wake_sleeping_threads (ticks k) k)))"

definition timer_interrupt :: "kernel \<Rightarrow> kernel res" where
  "timer_interrupt k = thread_tick (k\<lparr>ticks := wrap64 (ticks k + 1)\<rparr>)"

text \<open>
  \<open>intr_handler\<close> for an external interrupt with the given handler. The processor has cleared the
  interrupt flag on entry; the return from the interrupt restores it.
\<close>

definition intr_handler :: "(kernel \<Rightarrow> kernel res) \<Rightarrow> kernel \<Rightarrow> kernel res" where
  "intr_handler handler k =
     bindR (push_code Iret k) (\<lambda>k.
     let k = k\<lparr>intr_on := False\<rparr> in
     bindR (ASSERT (\<not> in_external_intr k)) (\<lambda>_.
     let k = k\<lparr>in_external_intr := True, yield_on_return := False\<rparr> in
     bindR (handler k) (\<lambda>k.
     bindR (ASSERT (\<not> intr_on k)) (\<lambda>_.
     bindR (ASSERT (in_external_intr k)) (\<lambda>_.
     let k = k\<lparr>in_external_intr := False\<rparr> in
     if yield_on_return k then thread_yield k else Inr k)))))"

definition timer_sleep :: "int \<Rightarrow> kernel \<Rightarrow> kernel res" where
  "timer_sleep n k =
     bindR (push_code (Sleep_from (ticks k) n) k) (\<lambda>k.
     let old_level = intr_on k in intr_set_level old_level (intr_disable k))"

definition sleep_from :: "int \<Rightarrow> int \<Rightarrow> kernel \<Rightarrow> kernel res" where
  "sleep_from start n k =
     bindR (ASSERT (intr_on k)) (\<lambda>_.
     let k = intr_disable k in
     bindR (thread_sleep k) (\<lambda>k.
     bindR (upd_thr (current k) (\<lambda>x. x\<lparr>wake_time := wrap64 (start + n)\<rparr>) k) (\<lambda>k.
     bindR (push_code (Set_level True) k) (\<lambda>k.
     thread_block k))))"

section \<open>Continuing a thread\<close>

definition exec :: "nat \<Rightarrow> instr \<Rightarrow> kernel \<Rightarrow> kernel res" where
  "exec fuel i k = (case i of
     Set_level level \<Rightarrow> intr_set_level level k
   | Sema_loop p old_level \<Rightarrow> sema_loop p old_level k
   | Lock_own l \<Rightarrow> bindR (thread_current k) (\<lambda>cur. Inr (k\<lparr>holder := (holder k)(l \<mapsto> cur)\<rparr>))
   | Sema_down_call p \<Rightarrow> sema_down p k
   | Lock_acquire_call l \<Rightarrow> lock_acquire fuel l k
   | Broadcast_loop c l \<Rightarrow> cond_broadcast c l k
   | Create_pid t p f \<Rightarrow> create_pid fuel t p f k
   | Tid_next t \<Rightarrow> allocate_tid t k
   | Tid_set t n \<Rightarrow> upd_thr t (\<lambda>x. x\<lparr>tid := n\<rparr>) k
   | Create_unblock t f \<Rightarrow> create_unblock t f k
   | Sleep_from start n \<Rightarrow> sleep_from start n k
   | Iret \<Rightarrow> Inr (k\<lparr>intr_on := True\<rparr>)
   | Idle_start p \<Rightarrow> bindR (thread_current k) (\<lambda>cur.
       bindR (push_code Idle_loop (k\<lparr>idle_thread := cur\<rparr>)) (\<lambda>k. sema_up p k))
   | Idle_loop \<Rightarrow> bindR (push_code Idle_halt (intr_disable k)) thread_block
   | Idle_halt \<Rightarrow> push_code Idle_loop (k\<lparr>intr_on := True\<rparr>))"

definition resume :: "nat \<Rightarrow> kernel \<Rightarrow> kernel res" where
  "resume fuel k =
     bindR (get_thr k (current k)) (\<lambda>x. case code x of
       [] \<Rightarrow> Inr k
     | i # is \<Rightarrow> bindR (upd_thr (current k) (\<lambda>x. x\<lparr>code := is\<rparr>) k) (exec fuel i))"

text \<open>Continue until the running thread is in its thread function, at most \<open>n\<close> instructions.\<close>

fun run :: "nat \<Rightarrow> nat \<Rightarrow> kernel \<Rightarrow> kernel res" where
  "run 0 fuel k = Inr k"
| "run (Suc n) fuel k = bindR (resume fuel k) (run n fuel)"

end
