(* ===== verification/Thread_Invariant.thy ===== *)
theory Thread_Invariant
  imports Thread_Model
begin

text \<open>
  The scheduler's invariant: every thread is in one place. A thread's \<open>elem\<close> member links it into the
  ready list, the sleeping list or the waiting list of a semaphore, and nothing in the code checks
  that it is in at most one of them, or that the status agrees; this theory shows that every
  operation keeps it so. A thread under construction is a fourth kind of place.
\<close>

text \<open>A pointer different from null stays an inequality.\<close>

declare neq0_conv [iff del] bot_nat_0.not_eq_extremum [simp del]

section \<open>Places\<close>

datatype place = Ready | Sleeping | Waiting addr | Creating addr

fun target :: "instr \<Rightarrow> addr list" where
  "target (Create_pid t p f) = [t]"
| "target (Create_unblock t f) = [t]"
| "target i = []"

definition targets :: "instr list \<Rightarrow> addr list" where
  "targets is = concat (map target is)"

lemma targets_simps [simp]: "targets [] = []" "targets (i # is) = target i @ targets is"
  by (simp_all add: targets_def)

definition st :: "kernel \<Rightarrow> addr \<Rightarrow> thread_status option" where
  "st k t = map_option status (thr k t)"

definition plc :: "kernel \<Rightarrow> place \<Rightarrow> addr list" where
  "plc k pl = (case pl of
     Ready \<Rightarrow> ready_list k
   | Sleeping \<Rightarrow> sleeping_list k
   | Waiting p \<Rightarrow> (case semas k p of None \<Rightarrow> [] | Some s \<Rightarrow> waiters s)
   | Creating u \<Rightarrow> (case thr k u of None \<Rightarrow> [] | Some x \<Rightarrow> targets (code x)))"

definition status_of :: "place \<Rightarrow> thread_status" where
  "status_of pl = (if pl = Ready then THREAD_READY else THREAD_BLOCKED)"

text \<open>
  \<open>placed st pl idle al\<close>: the threads of a place are distinct, have its status and are in no other
  place; every ready thread but the idle one is in the ready list; the list of all threads has the
  threads that have not exited.
\<close>

definition placed ::
    "(addr \<Rightarrow> thread_status option) \<Rightarrow> (place \<Rightarrow> addr list) \<Rightarrow> addr \<Rightarrow> addr list \<Rightarrow> bool" where
  "placed s pl idle al \<longleftrightarrow>
     (\<forall>p. distinct (pl p)) \<and>
     (\<forall>p t. t \<in> set (pl p) \<longrightarrow> s t = Some (status_of p) \<and> t \<noteq> idle) \<and>
     (\<forall>p q t. t \<in> set (pl p) \<longrightarrow> t \<in> set (pl q) \<longrightarrow> p = q) \<and>
     (\<forall>t. s t = Some THREAD_READY \<longrightarrow> t \<noteq> idle \<longrightarrow> t \<in> set (pl Ready)) \<and>
     distinct al \<and> set al = {t. s t \<noteq> None \<and> s t \<noteq> Some THREAD_DYING}"

lemma placedI:
  assumes "\<And>p. distinct (pl p)"
    and "\<And>p t. t \<in> set (pl p) \<Longrightarrow> s t = Some (status_of p)"
    and "\<And>p t. t \<in> set (pl p) \<Longrightarrow> t \<noteq> idle"
    and "\<And>p q t. p \<noteq> q \<Longrightarrow> t \<in> set (pl p) \<Longrightarrow> t \<notin> set (pl q)"
    and "\<And>t. s t = Some THREAD_READY \<Longrightarrow> t \<noteq> idle \<Longrightarrow> t \<in> set (pl Ready)"
    and "distinct al" "\<And>t. t \<in> set al \<longleftrightarrow> s t \<noteq> None \<and> s t \<noteq> Some THREAD_DYING"
  shows "placed s pl idle al"
  unfolding placed_def using assms by (intro conjI allI impI) blast+

lemma placedD:
  assumes "placed s pl idle al"
  shows "distinct (pl p)" "t \<in> set (pl p) \<Longrightarrow> s t = Some (status_of p)" "t \<in> set (pl p) \<Longrightarrow> t \<noteq> idle"
    and "p \<noteq> q \<Longrightarrow> t \<in> set (pl p) \<Longrightarrow> t \<notin> set (pl q)"
    and "s t = Some THREAD_READY \<Longrightarrow> t \<noteq> idle \<Longrightarrow> t \<in> set (pl Ready)"
    and "distinct al" "t \<in> set al \<longleftrightarrow> s t \<noteq> None \<and> s t \<noteq> Some THREAD_DYING"
  using assms unfolding placed_def by blast+

lemma placed_unplaced:
  assumes "placed s pl idle al" "s t = Some THREAD_RUNNING"
  shows "t \<notin> set (pl p)"
  using placedD(2) [OF assms(1), of t p] assms(2) by (auto simp: status_of_def split: if_splits)

text \<open>The moves.\<close>

lemma placed_enter:
  assumes pd: "placed s pl idle al" and un: "\<And>q. t \<notin> set (pl q)"
    and "t \<noteq> idle" "s t \<noteq> None" "s t \<noteq> Some THREAD_DYING"
  shows "placed (s(t \<mapsto> status_of p)) (pl(p := pl p @ [t])) idle al"
proof (rule placedI)
  note D = placedD [OF pd]
  show "distinct ((pl(p := pl p @ [t])) q)" for q using D(1) un by simp
  show "u \<in> set ((pl(p := pl p @ [t])) q) \<Longrightarrow> (s(t \<mapsto> status_of p)) u = Some (status_of q)" for q u
    using D(2) un by (auto split: if_splits)
  show "u \<in> set ((pl(p := pl p @ [t])) q) \<Longrightarrow> u \<noteq> idle" for q u
    using D(3) assms(3) by (auto split: if_splits)
  show "q \<noteq> r \<Longrightarrow> u \<in> set ((pl(p := pl p @ [t])) q) \<Longrightarrow> u \<notin> set ((pl(p := pl p @ [t])) r)" for q r u
    using D(4) [of q r u] un by (auto split: if_splits)
  show "(s(t \<mapsto> status_of p)) u = Some THREAD_READY \<Longrightarrow> u \<noteq> idle \<Longrightarrow> u \<in> set ((pl(p := pl p @ [t])) Ready)" for u
    using D(5) [of u] by (auto simp: status_of_def split: if_splits)
  show "distinct al" by (rule D(6))
  show "u \<in> set al \<longleftrightarrow> (s(t \<mapsto> status_of p)) u \<noteq> None \<and> (s(t \<mapsto> status_of p)) u \<noteq> Some THREAD_DYING" for u
    using D(7) [of u] assms(4,5) by (simp add: status_of_def)
qed

lemma placed_status:
  assumes pd: "placed s pl idle al" and un: "\<And>q. t \<notin> set (pl q)"
    and "s t \<noteq> None" "s t \<noteq> Some THREAD_DYING" "x \<noteq> THREAD_DYING" "x = THREAD_READY \<Longrightarrow> t = idle"
  shows "placed (s(t \<mapsto> x)) pl idle al"
proof (rule placedI)
  note D = placedD [OF pd]
  show "distinct (pl q)" "distinct al" for q by (rule D)+
  show "u \<in> set (pl q) \<Longrightarrow> (s(t \<mapsto> x)) u = Some (status_of q)" for q u using D(2) un by auto
  show "u \<in> set (pl q) \<Longrightarrow> u \<noteq> idle" for q u by (rule D(3))
  show "q \<noteq> r \<Longrightarrow> u \<in> set (pl q) \<Longrightarrow> u \<notin> set (pl r)" for q r u by (rule D(4))
  show "(s(t \<mapsto> x)) u = Some THREAD_READY \<Longrightarrow> u \<noteq> idle \<Longrightarrow> u \<in> set (pl Ready)" for u
    using D(5) [of u] assms(6) by (cases "u = t") auto
  show "u \<in> set al \<longleftrightarrow> (s(t \<mapsto> x)) u \<noteq> None \<and> (s(t \<mapsto> x)) u \<noteq> Some THREAD_DYING" for u
    using D(7) [of u] assms(3-5) by simp
qed

lemma placed_leave:
  assumes pd: "placed s pl idle al" and t: "t \<in> set (pl p)" and "x \<noteq> THREAD_READY" "x \<noteq> THREAD_DYING"
  shows "placed (s(t \<mapsto> x)) (pl(p := remove1 t (pl p))) idle al"
proof (rule placedI)
  note D = placedD [OF pd]
  let ?pl = "pl(p := remove1 t (pl p))"
  have sub: "u \<in> set (pl q) \<and> u \<noteq> t" if "u \<in> set (?pl q)" for q u
    using that D(1) [of p] D(4) [of p q t] t by (auto split: if_splits)
  show "distinct (?pl q)" "distinct al" for q using D(1,6) by simp_all
  show "u \<in> set (?pl q) \<Longrightarrow> (s(t \<mapsto> x)) u = Some (status_of q)" for q u
    using D(2) [of u q] sub [of u q] by (simp only: fun_upd_apply if_False simp_thms)
  show "u \<in> set (?pl q) \<Longrightarrow> u \<noteq> idle" for q u using D(3) sub by blast
  show "q \<noteq> r \<Longrightarrow> u \<in> set (?pl q) \<Longrightarrow> u \<notin> set (?pl r)" for q r u using D(4) sub by blast
  show "(s(t \<mapsto> x)) u = Some THREAD_READY \<Longrightarrow> u \<noteq> idle \<Longrightarrow> u \<in> set (?pl Ready)" for u
    using D(5) [of u] assms(3) by (auto split: if_splits)
  show "u \<in> set al \<longleftrightarrow> (s(t \<mapsto> x)) u \<noteq> None \<and> (s(t \<mapsto> x)) u \<noteq> Some THREAD_DYING" for u
    using D(7) [of u] D(2) [OF t] assms(4) by (simp add: status_of_def)
qed

lemma placed_leave_out:
  assumes "placed s pl idle al" "t \<in> set (pl p)"
  shows "t \<notin> set ((pl(p := remove1 t (pl p))) q)"
  using placedD(4) [OF assms(1) _ assms(2)] placedD(1) [OF assms(1), of p] by auto

lemma placed_move_ready:
  assumes "placed s pl idle al" "t \<in> set (pl p)" "p \<noteq> Ready"
  shows "placed (s(t \<mapsto> THREAD_READY)) (pl(p := remove1 t (pl p), Ready := pl Ready @ [t])) idle al"
proof -
  let ?pl = "pl(p := remove1 t (pl p))"
  have 1: "placed (s(t \<mapsto> THREAD_BLOCKED)) ?pl idle al" by (rule placed_leave [OF assms(1,2)]) simp_all
  have "placed (s(t \<mapsto> THREAD_BLOCKED, t \<mapsto> status_of Ready)) (?pl(Ready := ?pl Ready @ [t])) idle al"
    by (rule placed_enter [OF 1 placed_leave_out [OF assms(1,2)]]) (use placedD(3) [OF assms(1,2)] in simp_all)
  then show ?thesis using assms(3) by (simp add: status_of_def)
qed

lemma placed_exit:
  assumes pd: "placed s pl idle al" and un: "\<And>q. t \<notin> set (pl q)"
  shows "placed (s(t \<mapsto> THREAD_DYING)) pl idle (remove1 t al)"
proof (rule placedI)
  note D = placedD [OF pd]
  show "distinct (pl q)" "distinct (remove1 t al)" for q using D(1,6) by simp_all
  show "u \<in> set (pl q) \<Longrightarrow> (s(t \<mapsto> THREAD_DYING)) u = Some (status_of q)" for q u using D(2) un by auto
  show "u \<in> set (pl q) \<Longrightarrow> u \<noteq> idle" for q u by (rule D(3))
  show "q \<noteq> r \<Longrightarrow> u \<in> set (pl q) \<Longrightarrow> u \<notin> set (pl r)" for q r u by (rule D(4))
  show "(s(t \<mapsto> THREAD_DYING)) u = Some THREAD_READY \<Longrightarrow> u \<noteq> idle \<Longrightarrow> u \<in> set (pl Ready)" for u
    using D(5) [of u] by (auto split: if_splits)
  show "u \<in> set (remove1 t al) \<longleftrightarrow>
      (s(t \<mapsto> THREAD_DYING)) u \<noteq> None \<and> (s(t \<mapsto> THREAD_DYING)) u \<noteq> Some THREAD_DYING" for u
    using D(6,7) by simp
qed

lemma placed_free:
  assumes pd: "placed s pl idle al" and dy: "s t = Some THREAD_DYING"
  shows "placed (s(t := None)) pl idle al"
proof (rule placedI)
  note D = placedD [OF pd]
  show "distinct (pl q)" "distinct al" for q by (rule D)+
  show "u \<in> set (pl q) \<Longrightarrow> (s(t := None)) u = Some (status_of q)" for q u
    using D(2) [of u q] dy by (auto simp: status_of_def split: if_splits)
  show "u \<in> set (pl q) \<Longrightarrow> u \<noteq> idle" for q u by (rule D(3))
  show "q \<noteq> r \<Longrightarrow> u \<in> set (pl q) \<Longrightarrow> u \<notin> set (pl r)" for q r u by (rule D(4))
  show "(s(t := None)) u = Some THREAD_READY \<Longrightarrow> u \<noteq> idle \<Longrightarrow> u \<in> set (pl Ready)" for u
    using D(5) [of u] by (auto split: if_splits)
  show "u \<in> set al \<longleftrightarrow> (s(t := None)) u \<noteq> None \<and> (s(t := None)) u \<noteq> Some THREAD_DYING" for u
    using D(7) [of u] dy by simp
qed

lemma placed_shrink:
  assumes pd: "placed s pl idle al" and "set xs \<subseteq> set (pl p)" "distinct xs" "p \<noteq> Ready"
  shows "placed s (pl(p := xs)) idle al"
proof (rule placedI)
  note D = placedD [OF pd]
  have sub: "u \<in> set (pl q)" if "u \<in> set ((pl(p := xs)) q)" for q u
    using that assms(2) by (auto split: if_splits)
  show "distinct ((pl(p := xs)) q)" "distinct al" for q using D(1,6) assms(3) by simp_all
  show "u \<in> set ((pl(p := xs)) q) \<Longrightarrow> s u = Some (status_of q)" for q u using D(2) sub by blast
  show "u \<in> set ((pl(p := xs)) q) \<Longrightarrow> u \<noteq> idle" for q u using D(3) sub by blast
  show "q \<noteq> r \<Longrightarrow> u \<in> set ((pl(p := xs)) q) \<Longrightarrow> u \<notin> set ((pl(p := xs)) r)" for q r u using D(4) sub by blast
  show "s u = Some THREAD_READY \<Longrightarrow> u \<noteq> idle \<Longrightarrow> u \<in> set ((pl(p := xs)) Ready)" for u
    using D(5) [of u] assms(4) by simp
  show "u \<in> set al \<longleftrightarrow> s u \<noteq> None \<and> s u \<noteq> Some THREAD_DYING" for u by (rule D(7))
qed

lemma placed_create:
  assumes pd: "placed s pl idle al" and t: "s t = None" "t \<noteq> idle" and p: "p \<noteq> Ready"
  shows "placed (s(t \<mapsto> THREAD_BLOCKED)) (pl(p := t # pl p)) idle (al @ [t])"
proof (rule placedI)
  note D = placedD [OF pd]
  have un: "t \<notin> set (pl q)" for q using D(2) [of t q] t by auto
  have al: "t \<notin> set al" using D(7) t by simp
  show "distinct ((pl(p := t # pl p)) q)" "distinct (al @ [t])" for q using D(1,6) un al by simp_all
  show "u \<in> set ((pl(p := t # pl p)) q) \<Longrightarrow> (s(t \<mapsto> THREAD_BLOCKED)) u = Some (status_of q)" for q u
    using D(2) un p by (auto simp: status_of_def [of p] split: if_splits)
  show "u \<in> set ((pl(p := t # pl p)) q) \<Longrightarrow> u \<noteq> idle" for q u using D(3) t by (auto split: if_splits)
  show "q \<noteq> r \<Longrightarrow> u \<in> set ((pl(p := t # pl p)) q) \<Longrightarrow> u \<notin> set ((pl(p := t # pl p)) r)" for q r u
    using D(4) [of q r u] un by (auto split: if_splits)
  show "(s(t \<mapsto> THREAD_BLOCKED)) u = Some THREAD_READY \<Longrightarrow> u \<noteq> idle \<Longrightarrow> u \<in> set ((pl(p := t # pl p)) Ready)" for u
    using D(5) [of u] p by (auto split: if_splits)
  show "u \<in> set (al @ [t]) \<longleftrightarrow>
      (s(t \<mapsto> THREAD_BLOCKED)) u \<noteq> None \<and> (s(t \<mapsto> THREAD_BLOCKED)) u \<noteq> Some THREAD_DYING" for u
    using D(7) [of u] by auto
qed

section \<open>The invariant\<close>

fun idle_instr :: "instr \<Rightarrow> bool" where
  "idle_instr (Set_level b) = True"
| "idle_instr Iret = True"
| "idle_instr Idle_loop = True"
| "idle_instr Idle_halt = True"
| "idle_instr i = False"

fun other_instr :: "instr \<Rightarrow> bool" where
  "other_instr (Idle_start p) = False"
| "other_instr Idle_loop = False"
| "other_instr Idle_halt = False"
| "other_instr (Create_pid t p f) = (f = Other_function)"
| "other_instr (Create_unblock t f) = (f = Other_function)"
| "other_instr i = True"

text \<open>The idle thread only runs its loop; no other thread does.\<close>

definition ok_instr :: "kernel \<Rightarrow> addr \<Rightarrow> instr \<Rightarrow> bool" where
  "ok_instr k t i = (if t = idle_thread k then idle_instr i else other_instr i)"

definition codes_ok :: "kernel \<Rightarrow> bool" where
  "codes_ok k \<longleftrightarrow> (\<forall>t x. thr k t = Some x \<longrightarrow> (\<forall>i\<in>set (code x). ok_instr k t i))"

definition inv_core :: "kernel \<Rightarrow> bool" where
  "inv_core k \<longleftrightarrow> placed (st k) (plc k) (idle_thread k) (all_list k) \<and> thr k NULL = None \<and> codes_ok k \<and>
     st k (idle_thread k) \<noteq> None \<and> st k (idle_thread k) \<noteq> Some THREAD_DYING"

definition sched_inv :: "kernel \<Rightarrow> bool" where
  "sched_inv k \<longleftrightarrow> inv_core k \<and> (\<forall>t. st k t = Some THREAD_RUNNING \<longleftrightarrow> t = current k)"

definition switch_inv :: "kernel \<Rightarrow> bool" where
  "switch_inv k \<longleftrightarrow> inv_core k \<and> (\<forall>t. st k t \<noteq> Some THREAD_RUNNING)"

named_theorems views "how an update of the state changes statuses, places and the invariant"

lemma view_cong [views]:
  "st (k\<lparr>ready_list := a\<rparr>) = st k" "st (k\<lparr>all_list := a\<rparr>) = st k" "st (k\<lparr>sleeping_list := a\<rparr>) = st k"
  "st (k\<lparr>semas := c\<rparr>) = st k" "st (k\<lparr>thr := m\<rparr>) = (\<lambda>t. map_option status (m t))"
  by (simp_all add: st_def fun_eq_iff)

lemma plc_thr: "plc (k\<lparr>thr := (thr k)(t \<mapsto> x)\<rparr>) = (plc k)(Creating t := targets (code x))"
  by (auto simp: plc_def fun_eq_iff split: place.splits)

lemma plc_thr_free: "plc (k\<lparr>thr := (thr k)(t := None)\<rparr>) = (plc k)(Creating t := [])"
  by (auto simp: plc_def fun_eq_iff split: place.splits)

lemma st_thr: "st (k\<lparr>thr := (thr k)(t \<mapsto> x)\<rparr>) = (st k)(t \<mapsto> status x)"
  by (auto simp: st_def fun_eq_iff)

lemma st_thr_free: "st (k\<lparr>thr := (thr k)(t := None)\<rparr>) = (st k)(t := None)"
  by (auto simp: st_def fun_eq_iff)

lemma plc_lists:
  "plc (k\<lparr>ready_list := a\<rparr>) = (plc k)(Ready := a)" "plc (k\<lparr>sleeping_list := a\<rparr>) = (plc k)(Sleeping := a)"
  "plc (set_sema p s k) = (plc k)(Waiting p := waiters s)" "plc (k\<lparr>all_list := a\<rparr>) = plc k"
  by (auto simp: plc_def set_sema_def fun_eq_iff split: place.splits)

lemma st_set_sema: "st (set_sema p s k) = st k"
  by (simp add: st_def set_sema_def fun_eq_iff)

lemma set_sema_fields:
  "thr (set_sema p s k) = thr k" "idle_thread (set_sema p s k) = idle_thread k" "current (set_sema p s k) = current k"
  "ready_list (set_sema p s k) = ready_list k" "all_list (set_sema p s k) = all_list k"
  "intr_on (set_sema p s k) = intr_on k" "in_external_intr (set_sema p s k) = in_external_intr k"
  "sleeping_list (set_sema p s k) = sleeping_list k" "holder (set_sema p s k) = holder k"
  "semas (set_sema p s k) = (semas k)(p \<mapsto> s)"
  by (simp_all add: set_sema_def)

lemma upd_thr_eq:
  "upd_thr t f k = Inr k' \<longleftrightarrow> (\<exists>x. thr k t = Some x \<and> k' = k\<lparr>thr := (thr k)(t \<mapsto> f x)\<rparr>)"
  by (auto simp: upd_thr_def get_thr_def bindR_eq_Inr split: option.splits)

lemma get_thr_eq: "get_thr k t = Inr x \<longleftrightarrow> thr k t = Some x"
  by (simp add: get_thr_def split: option.splits)

lemma get_sema_eq: "get_sema k p = Inr s \<longleftrightarrow> semas k p = Some s"
  by (simp add: get_sema_def split: option.splits)

lemma get_holder_eq: "get_holder k l = Inr t \<longleftrightarrow> holder k l = Some t"
  by (simp add: get_holder_def split: option.splits)

lemma get_cond_eq: "get_cond k l = Inr t \<longleftrightarrow> conds k l = Some t"
  by (simp add: get_cond_def split: option.splits)

lemma push_code_eq:
  "push_code i k = Inr k' \<longleftrightarrow> (\<exists>x. thr k (current k) = Some x \<and>
     k' = k\<lparr>thr := (thr k)(current k \<mapsto> x\<lparr>code := i # code x\<rparr>)\<rparr>)"
  by (simp add: push_code_def upd_thr_eq)

lemma thread_current_eq:
  "thread_current k = Inr t \<longleftrightarrow> t = current k \<and> t \<noteq> NULL \<and> (\<exists>x. thr k t = Some x \<and> status x = THREAD_RUNNING)"
  by (auto simp: thread_current_def bindR_eq_Inr get_thr_eq is_thread_def)

lemmas acc_eqs = bindR_eq_Inr upd_thr_eq get_thr_eq get_sema_eq get_holder_eq get_cond_eq push_code_eq
  thread_current_eq

text \<open>Updates the invariant does not depend on.\<close>

lemma inv_core_cong:
  assumes "thr k' = thr k" "ready_list k' = ready_list k" "sleeping_list k' = sleeping_list k"
    "semas k' = semas k" "idle_thread k' = idle_thread k" "all_list k' = all_list k"
  shows "inv_core k' = inv_core k"
proof -
  have "st k' = st k" "plc k' = plc k"
    using assms by (auto simp: st_def plc_def fun_eq_iff split: place.splits)
  then show ?thesis using assms by (simp add: inv_core_def codes_ok_def ok_instr_def)
qed

lemma inv_core_irrelevant [simp]:
  "inv_core (k\<lparr>intr_on := b\<rparr>) = inv_core k" "inv_core (k\<lparr>in_external_intr := b\<rparr>) = inv_core k"
  "inv_core (k\<lparr>yield_on_return := b\<rparr>) = inv_core k" "inv_core (k\<lparr>thread_waiting := b\<rparr>) = inv_core k"
  "inv_core (k\<lparr>thread_ticks := w\<rparr>) = inv_core k" "inv_core (k\<lparr>idle_ticks := n\<rparr>) = inv_core k"
  "inv_core (k\<lparr>kernel_ticks := n\<rparr>) = inv_core k" "inv_core (k\<lparr>user_ticks := n\<rparr>) = inv_core k"
  "inv_core (k\<lparr>ticks := n\<rparr>) = inv_core k" "inv_core (k\<lparr>next_tid := n\<rparr>) = inv_core k"
  "inv_core (k\<lparr>load_avg := n\<rparr>) = inv_core k" "inv_core (k\<lparr>load_coefficient := n\<rparr>) = inv_core k"
  "inv_core (k\<lparr>holder := h\<rparr>) = inv_core k" "inv_core (k\<lparr>conds := c\<rparr>) = inv_core k"
  "inv_core (k\<lparr>current := t\<rparr>) = inv_core k"
  by (rule inv_core_cong; simp)+

lemma st_irrelevant [simp]:
  "st (k\<lparr>intr_on := b\<rparr>) = st k" "st (k\<lparr>in_external_intr := b\<rparr>) = st k"
  "st (k\<lparr>yield_on_return := b\<rparr>) = st k" "st (k\<lparr>thread_waiting := b\<rparr>) = st k"
  "st (k\<lparr>thread_ticks := w\<rparr>) = st k" "st (k\<lparr>idle_ticks := n\<rparr>) = st k"
  "st (k\<lparr>kernel_ticks := n\<rparr>) = st k" "st (k\<lparr>user_ticks := n\<rparr>) = st k"
  "st (k\<lparr>ticks := n\<rparr>) = st k" "st (k\<lparr>next_tid := n\<rparr>) = st k"
  "st (k\<lparr>load_avg := n\<rparr>) = st k" "st (k\<lparr>load_coefficient := n\<rparr>) = st k"
  "st (k\<lparr>holder := h\<rparr>) = st k" "st (k\<lparr>conds := c\<rparr>) = st k" "st (k\<lparr>current := t\<rparr>) = st k"
  by (simp_all add: st_def fun_eq_iff)

text \<open>A change of a thread that keeps its status and changes its code to one that creates the same threads.\<close>

lemma inv_core_upd:
  assumes "inv_core k" "thr k t = Some x" "status y = status x"
    and "targets (code y) = targets (code x)" "\<forall>i\<in>set (code y). i \<in> set (code x) \<or> ok_instr k t i"
  shows "inv_core (k\<lparr>thr := (thr k)(t \<mapsto> y)\<rparr>)"
proof -
  let ?k = "k\<lparr>thr := (thr k)(t \<mapsto> y)\<rparr>"
  have "st ?k = st k" unfolding st_thr using assms(2,3) by (auto simp: st_def fun_eq_iff)
  moreover have "plc ?k = plc k" unfolding plc_thr using assms(2,4) by (auto simp: plc_def fun_eq_iff)
  moreover have "codes_ok ?k" using assms by (auto simp: codes_ok_def inv_core_def ok_instr_def)
  moreover have "t \<noteq> NULL" using assms(1,2) by (auto simp: inv_core_def)
  ultimately show ?thesis using assms(1) by (auto simp: inv_core_def)
qed

lemma st_upd:
  "thr k t = Some x \<Longrightarrow> status y = status x \<Longrightarrow> st (k\<lparr>thr := (thr k)(t \<mapsto> y)\<rparr>) = st k"
  unfolding st_thr by (auto simp: st_def fun_eq_iff)

end
