(* ===== verification/Thread_Steps.thy ===== *)
theory Thread_Steps
  imports Thread_Invariant
begin

text \<open>
  Every operation of \<open>Thread_Model\<close> keeps the scheduler's invariant, one lemma per operation, and the
  step relation of the kernel: a call of the interface by the running thread, the continuation of a
  call, or a timer interrupt.
\<close>

declare neq0_conv [iff del] bot_nat_0.not_eq_extremum [simp del]

section \<open>Switching threads\<close>

lemma highest_loop_in: "highest_loop k ts m n0 = Inr (Some t) \<Longrightarrow> t \<in> set ts \<or> n0 = Some t"
  by (induction ts arbitrary: m n0) (auto simp: acc_eqs Let_def split: if_splits)

lemma list_highest_priority_in: "list_highest_priority k ts = Inr (Some t) \<Longrightarrow> t \<in> set ts"
  by (auto simp: list_highest_priority_def dest: highest_loop_in split: if_splits)

lemma next_thread_cases:
  assumes "next_thread_to_run k = Inr (k', t)"
  obtains "k' = k" "t = idle_thread k"
  | "t \<in> set (ready_list k)" "k' = k\<lparr>ready_list := remove1 t (ready_list k)\<rparr>"
  using assms by (auto simp: next_thread_to_run_def acc_eqs dest: list_highest_priority_in
      split: if_splits option.splits)

text \<open>
  What a switch does to the rest of the state: the threads keep everything but their status, a dying
  thread disappears, the fields of the other components stay.
\<close>

definition same_thread :: "thread option \<Rightarrow> thread option \<Rightarrow> bool" where
  "same_thread a b \<longleftrightarrow> map_option (\<lambda>x. x\<lparr>status := THREAD_READY\<rparr>) a = map_option (\<lambda>x. x\<lparr>status := THREAD_READY\<rparr>) b"

definition switched :: "kernel \<Rightarrow> kernel \<Rightarrow> bool" where
  "switched k k' \<longleftrightarrow> semas k' = semas k \<and> holder k' = holder k \<and> conds k' = conds k \<and>
     sleeping_list k' = sleeping_list k \<and> idle_thread k' = idle_thread k \<and> all_list k' = all_list k \<and>
     intr_on k' = intr_on k \<and> in_external_intr k' = in_external_intr k \<and> ticks k' = ticks k \<and>
     next_tid k' = next_tid k \<and> thread_waiting k' = thread_waiting k \<and>
     (\<forall>t. same_thread (thr k' t) (thr k t) \<or> st k t = Some THREAD_DYING \<and> thr k' t = None)"

lemma schedule_Inr:
  assumes "schedule k = Inr k'"
  obtains nxt x k1 where "nxt \<noteq> NULL" "thr k nxt = Some x" "\<not> intr_on k"
    "k1 = k\<lparr>current := nxt, thr := (thr k)(nxt \<mapsto> x\<lparr>status := THREAD_RUNNING\<rparr>), thread_ticks := 0\<rparr> \<and>
        nxt = idle_thread k \<or>
     k1 = k\<lparr>ready_list := remove1 nxt (ready_list k), current := nxt,
        thr := (thr k)(nxt \<mapsto> x\<lparr>status := THREAD_RUNNING\<rparr>), thread_ticks := 0\<rparr> \<and> nxt \<in> set (ready_list k)"
    "k' = k1 \<or> st k (current k) = Some THREAD_DYING \<and> current k \<noteq> nxt \<and>
       k' = k1\<lparr>thr := (thr k1)(current k := None)\<rparr>"
proof -
  from assms obtain k0 nxt where n: "next_thread_to_run k = Inr (k0, nxt)"
    and rest: "\<not> intr_on k0" "is_thread k0 nxt"
      "(if current k \<noteq> nxt then thread_schedule_tail (current k) (k0\<lparr>current := nxt\<rparr>)
        else thread_schedule_tail NULL k0) = Inr k'"
    by (auto simp: schedule_def acc_eqs Let_def)
  have same: "thr k0 = thr k" "intr_on k0 = intr_on k" "current k0 = current k"
    using n by (auto elim!: next_thread_cases)
  obtain x where x: "thr k nxt = Some x" "nxt \<noteq> NULL" using rest(2) same by (auto simp: is_thread_def)
  let ?k1 = "k0\<lparr>current := nxt, thr := (thr k)(nxt \<mapsto> x\<lparr>status := THREAD_RUNNING\<rparr>), thread_ticks := 0\<rparr>"
  have tail: "k' = ?k1 \<or> st k (current k) = Some THREAD_DYING \<and> current k \<noteq> nxt \<and>
       k' = ?k1\<lparr>thr := (thr ?k1)(current k := None)\<rparr>"
    using rest(3) x same by (auto simp: thread_schedule_tail_def acc_eqs Let_def st_def split: if_splits)
  show ?thesis
    using n
  proof (cases rule: next_thread_cases)
    case 1
    then show ?thesis using that [OF x(2,1) _ _ tail] rest(1) same by simp
  next
    case 2
    then show ?thesis using that [OF x(2,1) _ _ tail] rest(1) same by simp
  qed
qed

lemma schedule_switched: "schedule k = Inr k' \<Longrightarrow> switched k k'"
  by (erule schedule_Inr) (auto simp: switched_def same_thread_def split: if_splits)

lemma codes_ok_upd:
  assumes "codes_ok k" "thr k t = Some x" "thr k' = (thr k)(t \<mapsto> y)" "idle_thread k' = idle_thread k"
    and "\<forall>i\<in>set (code y). i \<in> set (code x) \<or> ok_instr k t i"
  shows "codes_ok k'"
  using assms by (auto simp: codes_ok_def ok_instr_def split: if_splits)

lemma schedule_inv:
  assumes inv: "switch_inv k" and sch: "schedule k = Inr k'"
  shows "sched_inv k'"
  using sch
proof (cases rule: schedule_Inr)
  case (1 nxt x k1)
  have core: "inv_core k" and norun: "\<And>t. st k t \<noteq> Some THREAD_RUNNING"
    using inv by (auto simp: switch_inv_def)
  note pd = core [unfolded inv_core_def, THEN conjunct1]
  have stx: "st k nxt = Some (status x)" using 1(2) by (simp add: st_def)
  let ?pl = "plc k1"
  have st1: "st k1 = (st k)(nxt \<mapsto> THREAD_RUNNING)" using 1(4) by (auto simp: st_def fun_eq_iff)
  have "placed (st k1) (plc k1) (idle_thread k1) (all_list k1)"
    using 1(4)
  proof
    assume k1: "k1 = k\<lparr>current := nxt, thr := (thr k)(nxt \<mapsto> x\<lparr>status := THREAD_RUNNING\<rparr>), thread_ticks := 0\<rparr> \<and>
        nxt = idle_thread k"
    then have "plc k1 = plc k" using 1(2) by (auto simp: plc_def fun_eq_iff split: place.splits)
    then show ?thesis
      using k1 placedD(3) [OF pd, of nxt] core stx unfolding st1
      by (auto simp: inv_core_def intro!: placed_status [OF pd])
  next
    assume k1: "k1 = k\<lparr>ready_list := remove1 nxt (ready_list k), current := nxt,
        thr := (thr k)(nxt \<mapsto> x\<lparr>status := THREAD_RUNNING\<rparr>), thread_ticks := 0\<rparr> \<and> nxt \<in> set (ready_list k)"
    then have "plc k1 = (plc k)(Ready := remove1 nxt (plc k Ready))"
      using 1(2) by (auto simp: plc_def fun_eq_iff split: place.splits)
    moreover have "nxt \<in> set (plc k Ready)" using k1 by (simp add: plc_def)
    ultimately show ?thesis
      using k1 placed_leave [OF pd, of nxt Ready THREAD_RUNNING] unfolding st1 by simp
  qed
  moreover have th1: "thr k1 = (thr k)(nxt \<mapsto> x\<lparr>status := THREAD_RUNNING\<rparr>)"
      and id1: "idle_thread k1 = idle_thread k" and "current k1 = nxt"
    using 1(4) by auto
  moreover have "codes_ok k1" "thr k1 NULL = None"
    using codes_ok_upd [OF _ 1(2) th1 id1] core 1(1) th1 by (auto simp: inv_core_def)
  moreover have "st k1 (idle_thread k) \<noteq> None" "st k1 (idle_thread k) \<noteq> Some THREAD_DYING"
    using core st1 by (auto simp: inv_core_def)
  ultimately have i1: "inv_core k1" by (simp add: inv_core_def)
  have run1: "st k1 t = Some THREAD_RUNNING \<longleftrightarrow> t = nxt" for t using norun st1 by auto
  show ?thesis
    using 1(5)
  proof
    assume "k' = k1"
    then show ?thesis using i1 run1 \<open>current k1 = nxt\<close> by (simp add: sched_inv_def)
  next
    let ?c = "current k"
    assume k': "st k ?c = Some THREAD_DYING \<and> ?c \<noteq> nxt \<and> k' = k1\<lparr>thr := (thr k1)(?c := None)\<rparr>"
    have dy: "st k1 ?c = Some THREAD_DYING" using k' st1 by simp
    have ne: "?c \<noteq> idle_thread k1" using dy i1 by (auto simp: inv_core_def)
    have "placed (st k') (plc k') (idle_thread k1) (all_list k1)"
      using k' placed_shrink [OF placed_free [OF i1 [unfolded inv_core_def, THEN conjunct1] dy], of "[]" "Creating ?c"]
      by (simp add: st_thr_free plc_thr_free)
    moreover have "codes_ok k'" using i1 k' by (auto simp: inv_core_def codes_ok_def ok_instr_def)
    ultimately have "inv_core k'"
      using i1 k' ne by (auto simp: inv_core_def st_thr_free)
    moreover have "st k' t = Some THREAD_RUNNING \<longleftrightarrow> t = current k'" for t
      using run1 [of t] k' \<open>current k1 = nxt\<close> by (auto simp: st_thr_free)
    ultimately show ?thesis by (simp add: sched_inv_def)
  qed
qed

section \<open>Operations that do not leave the running thread\<close>

lemma sched_invD:
  assumes "sched_inv k"
  shows "inv_core k" "placed (st k) (plc k) (idle_thread k) (all_list k)" "thr k NULL = None" "codes_ok k"
    "st k t = Some THREAD_RUNNING \<longleftrightarrow> t = current k" "current k \<noteq> NULL" "t \<in> set (plc k p) \<Longrightarrow> t \<noteq> current k"
    "\<exists>x. thr k (current k) = Some x \<and> status x = THREAD_RUNNING"
proof -
  show 1: "inv_core k" "placed (st k) (plc k) (idle_thread k) (all_list k)" "thr k NULL = None" "codes_ok k"
    "st k t = Some THREAD_RUNNING \<longleftrightarrow> t = current k" for t
    using assms by (auto simp: sched_inv_def inv_core_def)
  have "st k (current k) = Some THREAD_RUNNING" using assms by (simp add: sched_inv_def)
  then show "current k \<noteq> NULL" "t \<in> set (plc k p) \<Longrightarrow> t \<noteq> current k"
      "\<exists>x. thr k (current k) = Some x \<and> status x = THREAD_RUNNING"
    using 1(3) placed_unplaced [OF 1(2)] by (auto simp: st_def)
qed

lemma current_unplaced: "sched_inv k \<Longrightarrow> current k \<notin> set (plc k p)"
  using sched_invD(7) by blast

lemma sched_inv_irrelevant [simp]:
  "sched_inv (k\<lparr>intr_on := b\<rparr>) = sched_inv k" "sched_inv (k\<lparr>in_external_intr := b\<rparr>) = sched_inv k"
  "sched_inv (k\<lparr>yield_on_return := b\<rparr>) = sched_inv k" "sched_inv (k\<lparr>thread_waiting := b\<rparr>) = sched_inv k"
  "sched_inv (k\<lparr>thread_ticks := w\<rparr>) = sched_inv k" "sched_inv (k\<lparr>idle_ticks := n\<rparr>) = sched_inv k"
  "sched_inv (k\<lparr>kernel_ticks := n\<rparr>) = sched_inv k" "sched_inv (k\<lparr>user_ticks := n\<rparr>) = sched_inv k"
  "sched_inv (k\<lparr>ticks := n\<rparr>) = sched_inv k" "sched_inv (k\<lparr>next_tid := n\<rparr>) = sched_inv k"
  "sched_inv (k\<lparr>load_avg := n\<rparr>) = sched_inv k" "sched_inv (k\<lparr>load_coefficient := n\<rparr>) = sched_inv k"
  "sched_inv (k\<lparr>holder := h\<rparr>) = sched_inv k" "sched_inv (k\<lparr>conds := c\<rparr>) = sched_inv k"
  "sched_inv (intr_disable k) = sched_inv k"
  by (simp_all add: sched_inv_def intr_disable_def)

lemma sched_inv_thr:
  assumes "sched_inv k" "thr k t = Some x" "status y = status x" "targets (code y) = targets (code x)"
    and "\<forall>i\<in>set (code y). i \<in> set (code x) \<or> ok_instr k t i"
  shows "sched_inv (k\<lparr>thr := (thr k)(t \<mapsto> y)\<rparr>)"
  using inv_core_upd [OF sched_invD(1) [OF assms(1)] assms(2-5)] st_upd [OF assms(2,3)] assms(1)
  by (simp add: sched_inv_def)

lemma upd_thr_inv:
  assumes "upd_thr t f k = Inr k'" "sched_inv k" "\<And>x. status (f x) = status x" "\<And>x. code (f x) = code x"
  shows "sched_inv k'" "current k' = current k" "idle_thread k' = idle_thread k"
    "plc k' = plc k" "st k' = st k" "semas k' = semas k" "intr_on k' = intr_on k"
proof -
  from assms(1) obtain x where x: "thr k t = Some x" "k' = k\<lparr>thr := (thr k)(t \<mapsto> f x)\<rparr>"
    by (auto simp: upd_thr_eq)
  show "sched_inv k'" using sched_inv_thr [OF assms(2) x(1), of "f x"] assms(3,4) x(2) by simp
  show "plc k' = plc k" unfolding x(2) plc_thr using x(1) assms(4) by (auto simp: plc_def fun_eq_iff)
  show "st k' = st k" unfolding x(2) using st_upd [OF x(1)] assms(3) by simp
  show "current k' = current k" "idle_thread k' = idle_thread k" "semas k' = semas k" "intr_on k' = intr_on k"
    using x(2) by simp_all
qed

lemma push_code_inv:
  assumes "push_code i k = Inr k'" "sched_inv k" "target i = []" "ok_instr k (current k) i"
  shows "sched_inv k'" "current k' = current k" "idle_thread k' = idle_thread k"
    "plc k' = plc k" "st k' = st k" "semas k' = semas k" "intr_on k' = intr_on k"
proof -
  from assms(1) obtain x where x: "thr k (current k) = Some x"
      "k' = k\<lparr>thr := (thr k)(current k \<mapsto> x\<lparr>code := i # code x\<rparr>)\<rparr>"
    by (auto simp: push_code_eq)
  show "sched_inv k'"
    using sched_inv_thr [OF assms(2) x(1), of "x\<lparr>code := i # code x\<rparr>"] assms(3,4) x(2) by auto
  show "plc k' = plc k" unfolding x(2) plc_thr using x(1) assms(3) by (auto simp: plc_def fun_eq_iff)
  show "st k' = st k" unfolding x(2) using st_upd [OF x(1)] by simp
  show "current k' = current k" "idle_thread k' = idle_thread k" "semas k' = semas k" "intr_on k' = intr_on k"
    using x(2) by simp_all
qed

lemma sched_inv_places:
  assumes "sched_inv k" "thr k' = thr k" "idle_thread k' = idle_thread k" "current k' = current k"
    "placed (st k) (plc k') (idle_thread k) (all_list k')"
  shows "sched_inv k'"
proof -
  have "st k' = st k" using assms(2) by (simp add: st_def fun_eq_iff)
  then show ?thesis using assms by (auto simp: sched_inv_def inv_core_def codes_ok_def ok_instr_def)
qed

text \<open>A semaphore may lose waiters or change its value.\<close>

lemma set_sema_inv:
  assumes "sched_inv k" "set (waiters s) \<subseteq> set (plc k (Waiting p))" "distinct (waiters s)"
  shows "sched_inv (set_sema p s k)"
  using placed_shrink [OF sched_invD(2) [OF assms(1)] assms(2,3)]
  by (intro sched_inv_places [OF assms(1)]) (simp_all add: set_sema_fields plc_lists)

lemma waiters_plc: "semas k p = Some s \<Longrightarrow> plc k (Waiting p) = waiters s"
  by (simp add: plc_def)

section \<open>Yielding and the interrupt flag\<close>

text \<open>The running thread gives up the processor: its new place and status fit together.\<close>

lemma stop_running:
  assumes inv: "sched_inv k" and x: "thr k (current k) = Some x" "thr k' = (thr k)(current k \<mapsto> y)"
    and y: "status y \<noteq> THREAD_RUNNING" "\<forall>i\<in>set (code y). i \<in> set (code x) \<or> ok_instr k (current k) i"
    and k': "idle_thread k' = idle_thread k"
      "placed ((st k)(current k \<mapsto> status y)) (plc k') (idle_thread k) (all_list k')"
    and dy: "status y = THREAD_DYING \<Longrightarrow> current k \<noteq> idle_thread k"
  shows "switch_inv k'"
proof -
  have st': "st k' = (st k)(current k \<mapsto> status y)" using x(2) by (auto simp: st_def fun_eq_iff)
  have "codes_ok k'" using codes_ok_upd [OF sched_invD(4) [OF inv] x k'(1) y(2)] .
  moreover have "thr k' NULL = None" using x(2) sched_invD(3,6) [OF inv] by simp
  moreover have "st k' (idle_thread k) \<noteq> None \<and> st k' (idle_thread k) \<noteq> Some THREAD_DYING"
    using st' sched_invD(1) [OF inv] dy by (auto simp: inv_core_def)
  ultimately have "inv_core k'" using k' st' by (simp add: inv_core_def)
  then show ?thesis using st' y(1) sched_invD(5) [OF inv] by (auto simp: switch_inv_def)
qed

lemma ok_Set_level [simp]: "ok_instr k t (Set_level b)" "ok_instr k t Iret"
  by (simp_all add: ok_instr_def)

definition yielded :: "kernel \<Rightarrow> thread \<Rightarrow> kernel" where
  "yielded k x = k\<lparr>intr_on := False,
     ready_list := (if current k \<noteq> idle_thread k then ready_list k @ [current k] else ready_list k),
     thr := (thr k)(current k \<mapsto> x\<lparr>status := THREAD_READY, code := Set_level (intr_on k) # code x\<rparr>)\<rparr>"

lemma thread_yield_eq:
  "thread_yield k = Inr k' \<longleftrightarrow> (\<exists>x. thr k (current k) = Some x \<and> status x = THREAD_RUNNING \<and>
     current k \<noteq> NULL \<and> \<not> in_external_intr k \<and> schedule (yielded k x) = Inr k')"
  by (auto simp: thread_yield_def yielded_def acc_eqs Let_def)

lemma yielded_inv:
  assumes inv: "sched_inv k" and x: "thr k (current k) = Some x"
  shows "switch_inv (yielded k x)"
proof -
  define k1 where "k1 = yielded k x"
  have k1: "thr k1 = (thr k)(current k \<mapsto> x\<lparr>status := THREAD_READY, code := Set_level (intr_on k) # code x\<rparr>)"
      "idle_thread k1 = idle_thread k" "all_list k1 = all_list k" "sleeping_list k1 = sleeping_list k"
      "semas k1 = semas k"
      "ready_list k1 = (if current k \<noteq> idle_thread k then ready_list k @ [current k] else ready_list k)"
    by (simp_all add: k1_def yielded_def)
  note pd = sched_invD(2) [OF inv]
  have run: "st k (current k) = Some THREAD_RUNNING" using sched_invD(5) [OF inv] by simp
  have "placed ((st k)(current k \<mapsto> THREAD_READY)) (plc k1) (idle_thread k) (all_list k)"
  proof (cases "current k = idle_thread k")
    case True
    then have "plc k1 = plc k" using k1 x by (auto simp: plc_def fun_eq_iff split: place.splits)
    then show ?thesis using placed_status [OF pd current_unplaced [OF inv]] run True by simp
  next
    case False
    then have "plc k1 = (plc k)(Ready := plc k Ready @ [current k])"
      using k1 x by (auto simp: plc_def fun_eq_iff split: place.splits)
    then show ?thesis
      using placed_enter [OF pd current_unplaced [OF inv] False, of Ready] run by (simp add: status_of_def)
  qed
  then have "switch_inv k1" using k1(2,3) by (intro stop_running [OF inv x k1(1)]) auto
  then show ?thesis by (simp add: k1_def)
qed

lemma thread_yield_inv: "sched_inv k \<Longrightarrow> thread_yield k = Inr k' \<Longrightarrow> sched_inv k'"
  by (auto simp: thread_yield_eq intro: schedule_inv [OF yielded_inv])

lemma intr_set_level_inv:
  "sched_inv k \<Longrightarrow> intr_set_level b k = Inr k' \<Longrightarrow> sched_inv k'"
  using thread_yield_inv [of "k\<lparr>intr_on := True, thread_waiting := False\<rparr>"]
  by (auto simp: intr_set_level_def intr_enable_def Let_def acc_eqs split: if_splits)

lemma intr_set_level_off [simp]: "intr_set_level False k = Inr (intr_disable k)"
  by (simp add: intr_set_level_def)

section \<open>Blocking and unblocking\<close>

text \<open>The state \<open>thread_unblock\<close> has built when it restores the interrupt flag.\<close>

definition unblocked :: "kernel \<Rightarrow> addr \<Rightarrow> thread \<Rightarrow> bool \<Rightarrow> kernel" where
  "unblocked k t x w = k\<lparr>intr_on := False, ready_list := ready_list k @ [t],
     thr := (thr k)(t \<mapsto> x\<lparr>status := THREAD_READY\<rparr>), thread_waiting := w\<rparr>"

lemma thread_unblock_eq:
  "thread_unblock t k = Inr k' \<longleftrightarrow> t \<noteq> NULL \<and> (\<exists>x c. thr k t = Some x \<and> status x = THREAD_BLOCKED \<and>
     current k \<noteq> NULL \<and> current k \<noteq> t \<and> thr k (current k) = Some c \<and> status c = THREAD_RUNNING \<and>
     intr_set_level (intr_on k)
       (unblocked k t x (if priority x > priority c then True else thread_waiting k)) = Inr k')"
  by (auto simp: thread_unblock_def unblocked_def is_thread_def acc_eqs Let_def intr_disable_def
      split: if_splits cong: conj_cong)

definition parked :: "kernel \<Rightarrow> addr \<Rightarrow> bool" where
  "parked k t \<longleftrightarrow> st k t = Some THREAD_BLOCKED \<and> t \<noteq> idle_thread k \<and> (\<forall>p. t \<notin> set (plc k p))"

lemma unblocked_inv:
  assumes inv: "sched_inv k" and t: "parked k t" "thr k t = Some x"
  shows "sched_inv (unblocked k t x w)"
proof -
  let ?k = "unblocked k t x w"
  have st': "st ?k = (st k)(t \<mapsto> THREAD_READY)" by (auto simp: unblocked_def st_def fun_eq_iff)
  have "plc ?k = (plc k)(Ready := plc k Ready @ [t])"
    using t(2) by (auto simp: unblocked_def plc_def fun_eq_iff split: place.splits)
  then have "placed (st ?k) (plc ?k) (idle_thread k) (all_list k)"
    using placed_enter [OF sched_invD(2) [OF inv], of t Ready] t(1) st' by (auto simp: parked_def status_of_def)
  moreover have "codes_ok ?k"
    by (rule codes_ok_upd [OF sched_invD(4) [OF inv] t(2), of _ "x\<lparr>status := THREAD_READY\<rparr>"])
      (auto simp: unblocked_def)
  moreover have "st ?k (idle_thread k) = st k (idle_thread k)" using st' t(1) by (simp add: parked_def)
  moreover have "t \<noteq> NULL" using t(2) sched_invD(3) [OF inv] by auto
  ultimately have "inv_core ?k"
    using sched_invD(1) [OF inv] by (auto simp: inv_core_def unblocked_def)
  moreover have "st k t \<noteq> Some THREAD_RUNNING" using t(1) by (simp add: parked_def)
  ultimately show ?thesis
    using st' sched_invD(5) [OF inv] by (auto simp: sched_inv_def unblocked_def)
qed

lemma thread_unblock_inv:
  "sched_inv k \<Longrightarrow> parked k t \<Longrightarrow> thread_unblock t k = Inr k' \<Longrightarrow> sched_inv k'"
  by (auto simp: thread_unblock_eq intro: intr_set_level_inv [OF unblocked_inv])

lemma parked_leave:
  assumes "sched_inv k" "t \<in> set (plc k p)" "p \<noteq> Ready" "st k' = st k" "idle_thread k' = idle_thread k"
    "plc k' = (plc k)(p := remove1 t (plc k p))"
  shows "parked k' t"
  using assms placed_leave_out [OF sched_invD(2) [OF assms(1)] assms(2)]
    placedD(2,3) [OF sched_invD(2) [OF assms(1)] assms(2)]
  by (simp add: parked_def status_of_def)

text \<open>The running thread blocks in a place of its own or in none.\<close>

lemma thread_block_inv:
  assumes "sched_inv k" "thread_block k = Inr k'"
  shows "sched_inv k'"
proof -
  from assms(2) obtain x where x: "thr k (current k) = Some x"
    and s: "schedule (k\<lparr>thr := (thr k)(current k \<mapsto> x\<lparr>status := THREAD_BLOCKED\<rparr>)\<rparr>) = Inr k'"
    by (auto simp: thread_block_def acc_eqs)
  let ?k = "k\<lparr>thr := (thr k)(current k \<mapsto> x\<lparr>status := THREAD_BLOCKED\<rparr>)\<rparr>"
  have "plc ?k = plc k" unfolding plc_thr using x by (auto simp: plc_def fun_eq_iff)
  moreover have "st k (current k) = Some THREAD_RUNNING" using sched_invD(5) [OF assms(1)] by simp
  ultimately have "placed ((st k)(current k \<mapsto> THREAD_BLOCKED)) (plc ?k) (idle_thread k) (all_list k)"
    using placed_status [OF sched_invD(2) [OF assms(1)] current_unplaced [OF assms(1)], of THREAD_BLOCKED] by simp
  then have "switch_inv ?k" by (intro stop_running [OF assms(1) x]) auto
  then show ?thesis using schedule_inv s by blast
qed

lemma block_in_place:
  assumes inv: "sched_inv k" and x: "thr k (current k) = Some x" and ne: "current k \<noteq> idle_thread k"
    and p: "p \<noteq> Ready" "plc k1 = (plc k)(p := plc k p @ [current k])"
    and k1: "thr k1 = (thr k)(current k \<mapsto> y)" "idle_thread k1 = idle_thread k" "all_list k1 = all_list k"
      "current k1 = current k"
    and y: "targets (code y) = targets (code x)" "\<forall>i\<in>set (code y). i \<in> set (code x) \<or> ok_instr k (current k) i"
    and b: "thread_block k1 = Inr k'"
  shows "sched_inv k'"
proof -
  let ?k = "k1\<lparr>thr := (thr k)(current k \<mapsto> y\<lparr>status := THREAD_BLOCKED\<rparr>)\<rparr>"
  have s: "schedule ?k = Inr k'" using b k1 by (auto simp: thread_block_def acc_eqs)
  have "plc ?k = (plc k)(p := plc k p @ [current k])"
    unfolding p(2) [symmetric] using k1(1) by (auto simp: plc_def fun_eq_iff split: place.splits)
  moreover have "st k (current k) = Some THREAD_RUNNING" using sched_invD(5) [OF inv] by simp
  ultimately have "placed ((st k)(current k \<mapsto> THREAD_BLOCKED)) (plc ?k) (idle_thread k) (all_list k)"
    using placed_enter [OF sched_invD(2) [OF inv] current_unplaced [OF inv] ne, of p] p(1)
    by (simp add: status_of_def)
  then have "switch_inv ?k"
    using k1 y(2) by (intro stop_running [OF inv x, where y = "y\<lparr>status := THREAD_BLOCKED\<rparr>"]) auto
  then show ?thesis using schedule_inv s by blast
qed

lemma thread_exit_inv:
  assumes inv: "sched_inv k" and ne: "current k \<noteq> idle_thread k" and e: "thread_exit k = Inr k'"
  shows "sched_inv k'"
proof -
  let ?k = "\<lambda>x. k\<lparr>intr_on := False, all_list := remove1 (current k) (all_list k),
      thr := (thr k)(current k \<mapsto> x\<lparr>status := THREAD_DYING\<rparr>)\<rparr>"
  from e obtain x where x: "thr k (current k) = Some x" and s: "schedule (?k x) = Inr k'"
    by (auto simp: thread_exit_def acc_eqs Let_def intr_disable_def)
  have "plc (?k x) = plc k" using x by (auto simp: plc_def fun_eq_iff split: place.splits)
  then have "placed ((st k)(current k \<mapsto> THREAD_DYING)) (plc (?k x)) (idle_thread k) (all_list (?k x))"
    using placed_exit [OF sched_invD(2) [OF inv] current_unplaced [OF inv]] by simp
  then have "switch_inv (?k x)" using ne by (intro stop_running [OF inv x]) auto
  then show ?thesis using schedule_inv s by blast
qed

section \<open>Semaphores\<close>

lemma sema_loop_inv:
  assumes inv: "sched_inv k" and ne: "current k \<noteq> idle_thread k" and s: "sema_loop p b k = Inr k'"
  shows "sched_inv k'"
proof -
  from s obtain sm where sm: "semas k p = Some sm" by (auto simp: sema_loop_def acc_eqs)
  show ?thesis
  proof (cases "sema_value sm = 0")
    case True
    let ?k = "\<lambda>x. (set_sema p (sm\<lparr>waiters := waiters sm @ [current k]\<rparr>) k)
      \<lparr>thr := (thr k)(current k \<mapsto> x\<lparr>code := Sema_loop p b # code x\<rparr>)\<rparr>"
    from s True sm obtain x where x: "thr k (current k) = Some x" and b: "thread_block (?k x) = Inr k'"
      by (auto simp: sema_loop_def acc_eqs Let_def set_sema_fields)
    have "plc (?k x) = (plc k)(Waiting p := plc k (Waiting p) @ [current k])"
      using sm x by (auto simp: plc_def set_sema_def fun_eq_iff split: place.splits)
    then show ?thesis
      using ne by (intro block_in_place [OF inv x ne _ _ _ _ _ _ _ _ b, of "Waiting p"
          "x\<lparr>code := Sema_loop p b # code x\<rparr>"]) (auto simp: set_sema_fields ok_instr_def)
  next
    case False
    have "sched_inv (set_sema p (sm\<lparr>sema_value := sema_value sm - 1\<rparr>) k)"
      using placedD(1) [OF sched_invD(2) [OF inv], of "Waiting p"] waiters_plc [of k p, OF sm]
      by (intro set_sema_inv [OF inv]) simp_all
    then show ?thesis using s False sm by (auto simp: sema_loop_def acc_eqs intro: intr_set_level_inv)
  qed
qed

lemma sema_down_inv:
  "sched_inv k \<Longrightarrow> current k \<noteq> idle_thread k \<Longrightarrow> sema_down p k = Inr k' \<Longrightarrow> sched_inv k'"
  using sema_loop_inv [of "intr_disable k" p "intr_on k" k']
  by (auto simp: sema_down_def acc_eqs intr_disable_def)

lemma sema_value_inv:
  assumes "sched_inv k" "semas k p = Some s"
  shows "sched_inv (set_sema p (s\<lparr>sema_value := v\<rparr>) k)"
  using assms placedD(1) [OF sched_invD(2) [OF assms(1)], of "Waiting p"] waiters_plc [of k p, OF assms(2)]
  by (intro set_sema_inv) simp_all

lemma sema_try_down_inv:
  assumes "sched_inv k" "sema_try_down p k = Inr (k', b)"
  shows "sched_inv k'"
proof -
  have "sched_inv (intr_disable k)" using assms(1) by simp
  then show ?thesis
    using assms(2) sema_value_inv [of "intr_disable k" p] intr_set_level_inv [of "intr_disable k"]
    by (auto simp: sema_try_down_def acc_eqs Let_def intro: intr_set_level_inv split: if_splits)
qed

lemma sema_up_inv:
  assumes inv: "sched_inv k" and u: "sema_up p k = Inr k'"
  shows "sched_inv k'"
proof -
  let ?k = "intr_disable k"
  have inv0: "sched_inv ?k" using inv by simp
  from u obtain s k1 s1 where s: "semas ?k p = Some s"
    and k1: "(if waiters s = [] then Inr ?k
            else bindR (list_highest_priority ?k (waiters s)) (\<lambda>high. case high of
              None \<Rightarrow> Inl Invalid_access
            | Some t \<Rightarrow> thread_unblock t (set_sema p (s\<lparr>waiters := remove1 t (waiters s)\<rparr>) ?k))) = Inr k1"
    and s1: "semas k1 p = Some s1"
    and l: "intr_set_level (intr_on k) (set_sema p (s1\<lparr>sema_value := sema_value s1 + 1\<rparr>) k1) = Inr k'"
    by (auto simp: sema_up_def acc_eqs Let_def)
  have "sched_inv k1"
  proof (cases "waiters s = []")
    case True
    then show ?thesis using k1 inv0 by simp
  next
    case False
    then obtain t where t: "list_highest_priority ?k (waiters s) = Inr (Some t)"
      and un: "thread_unblock t (set_sema p (s\<lparr>waiters := remove1 t (waiters s)\<rparr>) ?k) = Inr k1"
      using k1 by (auto simp: acc_eqs split: option.splits)
    let ?k2 = "set_sema p (s\<lparr>waiters := remove1 t (waiters s)\<rparr>) ?k"
    have pw: "plc ?k (Waiting p) = waiters s" using s by (rule waiters_plc)
    have tin: "t \<in> set (plc ?k (Waiting p))" using list_highest_priority_in [OF t] pw by simp
    have "distinct (waiters s)" using placedD(1) [OF sched_invD(2) [OF inv0], of "Waiting p"] pw by simp
    then have inv2: "sched_inv ?k2"
      using pw by (intro set_sema_inv [OF inv0]) (auto dest: notin_set_remove1 simp: set_remove1_subset)
    have "parked ?k2 t"
      by (rule parked_leave [OF inv0 tin]) (simp_all add: st_set_sema set_sema_fields plc_lists pw)
    then show ?thesis using thread_unblock_inv [OF inv2 _ un] by blast
  qed
  then show ?thesis using sema_value_inv [OF _ s1] l by (auto intro: intr_set_level_inv)
qed

section \<open>Priorities and locks\<close>

lemma donate_loop_inv:
  "sched_inv k \<Longrightarrow> donate_loop n c l k = Inr k' \<Longrightarrow>
   sched_inv k' \<and> current k' = current k \<and> idle_thread k' = idle_thread k"
proof (induction n arbitrary: c l k)
  case (Suc n)
  show ?case
  proof (cases "l = NULL")
    case False
    with Suc.prems(2) obtain h k1 and x y :: thread where u: "upd_thr h (\<lambda>x. x\<lparr>priority := priority y\<rparr>) k = Inr k1"
      and d: "donate_loop n h (lock_needed x) k1 = Inr k'"
      by (auto simp: bindR_eq_Inr)
    note k1 = upd_thr_inv [OF u Suc.prems(1)]
    from Suc.IH [OF _ d] k1(1-3) show ?thesis by simp
  qed (use Suc.prems in simp)
qed (simp split: if_splits)

lemma thread_donate_priority_inv:
  assumes "sched_inv k" "thread_donate_priority fuel t k = Inr k'"
  shows "sched_inv k' \<and> current k' = current k \<and> idle_thread k' = idle_thread k"
proof -
  from assms(2) obtain k1 p k2 and x :: thread where
    u1: "upd_thr t (\<lambda>x. x\<lparr>priority_donations := priority_donations x @ [current k]\<rparr>) k = Inr k1"
    and u2: "upd_thr t (\<lambda>x. x\<lparr>priority := p\<rparr>) k1 = Inr k2"
    and d: "donate_loop fuel t (lock_needed x) k2 = Inr k'"
    by (auto simp: thread_donate_priority_def bindR_eq_Inr thread_current_eq)
  note k1 = upd_thr_inv [OF u1 assms(1)]
  note k2 = upd_thr_inv [OF u2 k1(1)]
  from donate_loop_inv [OF k2(1) d] k1 k2 show ?thesis by simp
qed

lemma lock_acquire_inv:
  assumes inv: "sched_inv k" "current k \<noteq> idle_thread k" and a: "lock_acquire fuel l k = Inr k'"
  shows "sched_inv k'"
proof -
  from a obtain k1 k2 h where
    d: "(if h \<noteq> NULL then bindR (get_thr k h) (\<lambda>x. bindR (thread_get_priority k) (\<lambda>p.
              if priority x < p then bindR (thread_donate_priority fuel h k) (\<lambda>k.
                upd_thr (current k) (\<lambda>x. x\<lparr>lock_needed := l\<rparr>) k)
              else Inr k)) else Inr k) = Inr k1"
    and p: "push_code (Lock_own l) k1 = Inr k2" and s: "sema_down (lock_sema l) k2 = Inr k'"
    by (auto simp: lock_acquire_def bindR_eq_Inr)
  have k1: "sched_inv k1 \<and> current k1 = current k \<and> idle_thread k1 = idle_thread k"
  proof (cases "k1 = k")
    case True
    then show ?thesis using inv by simp
  next
    case False
    with d obtain k0 where k0: "thread_donate_priority fuel h k = Inr k0"
      and u: "upd_thr (current k0) (\<lambda>x. x\<lparr>lock_needed := l\<rparr>) k0 = Inr k1"
      by (auto simp: bindR_eq_Inr split: if_splits)
    note i = thread_donate_priority_inv [OF inv(1) k0]
    then have "sched_inv k0" by simp
    from upd_thr_inv [OF u this] i show ?thesis by simp
  qed
  then have "ok_instr k1 (current k1) (Lock_own l)" using inv(2) by (simp add: ok_instr_def)
  note k2 = push_code_inv [OF p conjunct1 [OF k1] _ this]
  show ?thesis using sema_down_inv [OF _ _ s] k2(1-3) k1 inv(2) by simp
qed

lemma lock_try_acquire_inv:
  assumes inv: "sched_inv k" "current k \<noteq> idle_thread k" and a: "lock_try_acquire l k = Inr (k', b)"
  shows "sched_inv k'"
proof -
  from a obtain s :: semaphore and k1 where p: "(if sema_value s > 0 then push_code (Lock_own l) k else Inr k) = Inr k1"
    and t: "sema_try_down (lock_sema l) k1 = Inr (k', b)"
    by (auto simp: lock_try_acquire_def bindR_eq_Inr)
  have "sched_inv k1"
    using p push_code_inv(1) [of "Lock_own l" k k1] inv by (auto simp: ok_instr_def split: if_splits)
  then show ?thesis using sema_try_down_inv t by blast
qed

lemma lock_release_inv:
  assumes inv: "sched_inv k" and r: "lock_release l k = Inr k'"
  shows "sched_inv k'"
proof -
  from r obtain h k1 ds p k2 where u1: "upd_thr h (\<lambda>x. x\<lparr>priority := orig_priority x\<rparr>) k = Inr k1"
    and u2: "upd_thr h (\<lambda>x. x\<lparr>priority_donations := ds, priority := p\<rparr>) k1 = Inr k2"
    and s: "sema_up (lock_sema l) (k2\<lparr>holder := (holder k2)(l \<mapsto> NULL)\<rparr>) = Inr k'"
    by (auto simp: lock_release_def bindR_eq_Inr)
  note k1 = upd_thr_inv [OF u1 inv]
  note k2 = upd_thr_inv [OF u2 k1(1)]
  from sema_up_inv [OF _ s] k2(1) show ?thesis by simp
qed

lemma sema_init_inv: "sched_inv k \<Longrightarrow> sema_init p v k = Inr k' \<Longrightarrow> sched_inv k'"
  by (auto simp: sema_init_def bindR_eq_Inr intro: set_sema_inv)

lemma cond_wait_inv:
  assumes inv: "sched_inv k" "current k \<noteq> idle_thread k" and w: "cond_wait w c l k = Inr k'"
  shows "sched_inv k'"
proof -
  from w obtain k1 ws k2 k3 where i: "sema_init w 0 k = Inr k1"
    and p2: "push_code (Lock_acquire_call l) (k1\<lparr>conds := (conds k1)(c \<mapsto> ws @ [w])\<rparr>) = Inr k2"
    and p3: "push_code (Sema_down_call w) k2 = Inr k3" and r: "lock_release l k3 = Inr k'"
    by (auto simp: cond_wait_def bindR_eq_Inr Let_def)
  have "sched_inv (k1\<lparr>conds := (conds k1)(c \<mapsto> ws @ [w])\<rparr>)" using sema_init_inv [OF inv(1) i] by simp
  moreover have "current k1 = current k" "idle_thread k1 = idle_thread k"
    using i by (auto simp: sema_init_def bindR_eq_Inr set_sema_fields)
  ultimately have "sched_inv k2" "current k2 = current k" "idle_thread k2 = idle_thread k"
    using push_code_inv(1-3) [OF p2] inv(2) by (simp_all add: ok_instr_def)
  then have "sched_inv k3" using push_code_inv(1) [OF p3] inv(2) by (simp add: ok_instr_def)
  then show ?thesis using lock_release_inv r by blast
qed

lemma cond_signal_inv:
  "sched_inv k \<Longrightarrow> cond_signal c l k = Inr k' \<Longrightarrow> sched_inv k'"
  by (auto simp: cond_signal_def bindR_eq_Inr intro: sema_up_inv [rotated] split: if_splits option.splits)

lemma cond_broadcast_inv:
  assumes inv: "sched_inv k" "current k \<noteq> idle_thread k" and b: "cond_broadcast c l k = Inr k'"
  shows "sched_inv k'"
proof (cases "k' = k")
  case False
  with b obtain k1 where p: "push_code (Broadcast_loop c l) k = Inr k1" and s: "cond_signal c l k1 = Inr k'"
    by (auto simp: cond_broadcast_def bindR_eq_Inr split: if_splits)
  have "sched_inv k1" using push_code_inv(1) [OF p inv(1)] inv(2) by (simp add: ok_instr_def)
  then show ?thesis using cond_signal_inv s by blast
qed (use inv in simp)

lemma thread_set_priority_inv:
  assumes inv: "sched_inv k" and s: "thread_set_priority n k = Inr k'"
  shows "sched_inv k'"
proof -
  from s obtain k1 k2 where u1: "upd_thr (current k) (\<lambda>x. x\<lparr>orig_priority := n\<rparr>) k = Inr k1"
    and u2: "upd_thr (current k) (\<lambda>x. if priority_donations x = [] then x\<lparr>priority := n\<rparr>
         else if n > priority x then x\<lparr>priority := n\<rparr> else x) k1 = Inr k2"
    and y: "thread_yield k2 = Inr k'"
    by (auto simp: thread_set_priority_def bindR_eq_Inr thread_current_eq)
  note k1 = upd_thr_inv [OF u1 inv]
  have "sched_inv k1" using k1 by simp
  from upd_thr_inv(1) [OF u2 this] have "sched_inv k2" by simp
  then show ?thesis using thread_yield_inv y by blast
qed

section \<open>Creating threads\<close>

lemma placed_park:
  assumes pd: "placed s pl idle al" and t: "s t = Some THREAD_BLOCKED" "t \<noteq> idle" "\<And>q. t \<notin> set (pl q)"
    and p: "p \<noteq> Ready"
  shows "placed s (pl(p := t # pl p)) idle al"
proof (rule placedI)
  note D = placedD [OF pd]
  show "distinct ((pl(p := t # pl p)) q)" "distinct al" for q using D(1,6) t(3) by simp_all
  show "u \<in> set ((pl(p := t # pl p)) q) \<Longrightarrow> s u = Some (status_of q)" for q u
    using D(2) t(1) p by (auto simp: status_of_def [of p] split: if_splits)
  show "u \<in> set ((pl(p := t # pl p)) q) \<Longrightarrow> u \<noteq> idle" for q u using D(3) t(2) by (auto split: if_splits)
  show "q \<noteq> r \<Longrightarrow> u \<in> set ((pl(p := t # pl p)) q) \<Longrightarrow> u \<notin> set ((pl(p := t # pl p)) r)" for q r u
    using D(4) [of q r u] t(3) by (auto split: if_splits)
  show "s u = Some THREAD_READY \<Longrightarrow> u \<noteq> idle \<Longrightarrow> u \<in> set ((pl(p := t # pl p)) Ready)" for u
    using D(5) [of u] p by simp
  show "u \<in> set al \<longleftrightarrow> s u \<noteq> None \<and> s u \<noteq> Some THREAD_DYING" for u by (rule D(7))
qed

lemma thread_create_ptr_inv:
  assumes inv: "sched_inv k" "current k \<noteq> idle_thread k" and page: "page \<notin> dom (thr k)"
    and c: "thread_create_ptr page prio Other_function pid0 k = Inr k'"
  shows "sched_inv k'"
proof (cases "page = NULL")
  case True
  then show ?thesis using c inv by (simp add: thread_create_ptr_def)
next
  case False
  let ?new = "\<lparr>tid = 0, pid = -1, status = THREAD_BLOCKED, priority = prio, wake_time = -1, nice = 0,
     recent_cpu = 0, priority_donations = [], orig_priority = prio, lock_needed = NULL, pagedir_set = False,
     code = []\<rparr>"
  let ?y = "\<lambda>x. x\<lparr>code := Create_pid page pid0 Other_function # code x\<rparr>"
  let ?k = "\<lambda>x. k\<lparr>thr := (thr k)(current k \<mapsto> ?y x, page \<mapsto> ?new), intr_on := False,
     all_list := all_list k @ [page]\<rparr>"
  from c False obtain x where x: "thr k (current k) = Some x" and l: "intr_set_level (intr_on k) (?k x) = Inr k'"
    by (auto simp: thread_create_ptr_def init_thread_def acc_eqs Let_def intr_disable_def)
  have ne: "current k \<noteq> page" using x page by auto
  have st0: "st k page = None" using page by (auto simp: st_def)
  have st': "st (?k x) = (st k)(page \<mapsto> THREAD_BLOCKED)" using x ne by (auto simp: st_def fun_eq_iff)
  have "plc (?k x) = (plc k)(Creating (current k) := page # plc k (Creating (current k)))"
    using x page ne by (auto simp: plc_def fun_eq_iff domIff split: place.splits)
  moreover have "page \<noteq> idle_thread k" using sched_invD(1) [OF inv(1)] st0 by (auto simp: inv_core_def)
  ultimately have "placed (st (?k x)) (plc (?k x)) (idle_thread k) (all_list (?k x))"
    using placed_create [OF sched_invD(2) [OF inv(1)] st0, of "Creating (current k)"] st' by simp
  moreover have "codes_ok (?k x)"
    using sched_invD(4) [OF inv(1)] x inv(2) by (auto simp: codes_ok_def ok_instr_def split: if_splits)
  ultimately have "inv_core (?k x)"
    using sched_invD(1) [OF inv(1)] False sched_invD(6) [OF inv(1)] st' by (auto simp: inv_core_def)
  then have "sched_inv (?k x)" using st' sched_invD(5) [OF inv(1)] ne by (auto simp: sched_inv_def)
  then show ?thesis using l by (rule intr_set_level_inv)
qed

lemma create_pid_inv:
  assumes inv: "sched_inv k" "current k \<noteq> idle_thread k" and t: "parked k t"
    and c: "create_pid fuel t p Other_function k = Inr k'"
  shows "sched_inv k'"
proof -
  from c obtain k1 k2 k3 where u: "upd_thr t (\<lambda>x. x\<lparr>pid := p\<rparr>) k = Inr k1"
    and p2: "push_code (Create_unblock t Other_function) k1 = Inr k2"
    and p3: "push_code (Tid_next t) k2 = Inr k3" and a: "lock_acquire fuel tid_lock k3 = Inr k'"
    by (auto simp: create_pid_def bindR_eq_Inr)
  note k1 = upd_thr_inv [OF u inv(1)]
  have i1: "sched_inv k1" "current k1 = current k" "idle_thread k1 = idle_thread k" "parked k1 t"
    using k1 t by (auto simp: parked_def)
  from p2 obtain x where x: "thr k1 (current k1) = Some x"
      "k2 = k1\<lparr>thr := (thr k1)(current k1 \<mapsto> x\<lparr>code := Create_unblock t Other_function # code x\<rparr>)\<rparr>"
    by (auto simp: push_code_eq)
  have "st k2 = st k1" unfolding x(2) by (rule st_upd [OF x(1)]) simp
  moreover have "plc k2 = (plc k1)(Creating (current k1) := t # plc k1 (Creating (current k1)))"
    unfolding x(2) plc_thr using x(1) by (auto simp: plc_def fun_eq_iff)
  moreover have "codes_ok k2"
    by (rule codes_ok_upd [OF sched_invD(4) [OF i1(1)] x(1), of _ "x\<lparr>code := Create_unblock t Other_function # code x\<rparr>"])
      (use inv(2) i1 x(2) in \<open>auto simp: ok_instr_def\<close>)
  moreover have "placed (st k1) ((plc k1)(Creating (current k1) := t # plc k1 (Creating (current k1))))
      (idle_thread k1) (all_list k1)"
    using i1(4) by (intro placed_park sched_invD(2) [OF i1(1)]) (auto simp: parked_def)
  ultimately have "inv_core k2"
    using sched_invD(1,6) [OF i1(1)] x(2) by (auto simp: inv_core_def)
  then have i2: "sched_inv k2" using \<open>st k2 = st k1\<close> sched_invD(5) [OF i1(1)] x(2) by (simp add: sched_inv_def)
  have "current k2 \<noteq> idle_thread k2" using x(2) i1 inv(2) by simp
  with push_code_inv(1-3) [OF p3 i2] have "sched_inv k3" "current k3 \<noteq> idle_thread k3"
    by (simp_all add: ok_instr_def)
  then show ?thesis using lock_acquire_inv a by blast
qed

lemma allocate_tid_inv:
  assumes inv: "sched_inv k" "current k \<noteq> idle_thread k" and c: "allocate_tid t k = Inr k'"
  shows "sched_inv k'"
proof -
  let ?k = "k\<lparr>next_tid := wrap32 (next_tid k + 1)\<rparr>"
  from c obtain k1 where p: "push_code (Tid_set t (next_tid k)) ?k = Inr k1"
    and r: "lock_release tid_lock k1 = Inr k'"
    by (auto simp: allocate_tid_def bindR_eq_Inr Let_def)
  have "sched_inv k1" using push_code_inv(1) [OF p] inv by (simp add: ok_instr_def)
  then show ?thesis using lock_release_inv r by blast
qed

lemma create_unblock_inv:
  assumes inv: "sched_inv k" and t: "parked k t" and c: "create_unblock t Other_function k = Inr k'"
  shows "sched_inv k'"
proof -
  let ?f = "\<lambda>x. x\<lparr>code := kernel_thread Other_function @ code x\<rparr>"
  from c obtain x where x: "thr k t = Some x" and u: "thread_unblock t (k\<lparr>thr := (thr k)(t \<mapsto> ?f x)\<rparr>) = Inr k'"
    by (auto simp: create_unblock_def acc_eqs)
  let ?k = "k\<lparr>thr := (thr k)(t \<mapsto> ?f x)\<rparr>"
  have st': "st ?k = st k" by (rule st_upd [OF x]) simp
  have pl: "plc ?k = plc k"
    unfolding plc_thr using x by (auto simp: kernel_thread_def plc_def fun_eq_iff)
  have "sched_inv ?k" by (rule sched_inv_thr [OF inv x]) (auto simp: kernel_thread_def)
  moreover have "parked ?k t" using t st' pl by (simp add: parked_def)
  ultimately show ?thesis using thread_unblock_inv u by blast
qed

section \<open>The timer\<close>

lemma foreach_loop_inv:
  assumes "\<And>t k k'. P k \<Longrightarrow> f t k = Inr k' \<Longrightarrow> P k'"
  shows "P k \<Longrightarrow> foreach_loop f ts k = Inr k' \<Longrightarrow> P k'"
  by (induction ts arbitrary: k) (auto simp: bindR_eq_Inr dest: assms)

text \<open>What every step inside the interrupt handler keeps.\<close>

definition in_handler :: "kernel \<Rightarrow> kernel \<Rightarrow> bool" where
  "in_handler k0 k \<longleftrightarrow> sched_inv k \<and> current k = current k0 \<and> idle_thread k = idle_thread k0 \<and> \<not> intr_on k"

lemma in_handler_upd:
  assumes "in_handler k0 k" "upd_thr t f k = Inr k'" "\<And>x. status (f x) = status x" "\<And>x. code (f x) = code x"
  shows "in_handler k0 k'"
  using upd_thr_inv [OF assms(2) _ assms(3,4)] assms(1) by (simp add: in_handler_def)

lemma update_priority_handler:
  assumes "in_handler k0 k" "thread_update_mlfqs_priority t k = Inr k'"
  shows "in_handler k0 k'"
  using assms in_handler_upd [OF assms(1), of t "\<lambda>x. x\<lparr>priority := mlfqs_priority x\<rparr>"]
  by (auto simp: thread_update_mlfqs_priority_def split: if_splits)

lemma update_recent_cpu_handler:
  assumes "in_handler k0 k" "update_recent_cpu t k = Inr k'"
  shows "in_handler k0 k'"
proof -
  from assms(2) obtain a where u:
    "upd_thr t (\<lambda>x. x\<lparr>recent_cpu := wrap32 (multiply (recent_cpu x) a + to_fp (nice x))\<rparr>) k = Inr k'"
    by (auto simp: update_recent_cpu_def bindR_eq_Inr)
  show ?thesis by (rule in_handler_upd [OF assms(1) u]) simp_all
qed

lemma mlfqs_tick_handler:
  assumes "in_handler k0 k" "mlfqs_tick t k = Inr k'"
  shows "in_handler k0 k'"
proof -
  define tk where "tk k = wrap32 (idle_ticks k + user_ticks k + kernel_ticks k)" for k :: kernel
  from assms(2) obtain k1 k2 where u: "upd_thr t (\<lambda>x. x\<lparr>recent_cpu := add_fp (recent_cpu x) 1\<rparr>) k = Inr k1"
    and s: "(if tk k1 mod TIMER_FREQ = 0 then
              bindR (update_load_avg k1) (\<lambda>k.
              bindR (divide_fp (wrap32 (2 * load_avg k)) (add_fp (wrap32 (2 * load_avg k)) 1)) (\<lambda>c.
              thread_foreach update_recent_cpu (k\<lparr>load_coefficient := c\<rparr>)))
            else Inr k1) = Inr k2"
    and e: "(if tk k1 mod 4 = 0 then bindR (thread_foreach thread_update_mlfqs_priority k2) intr_yield_on_return
            else Inr k2) = Inr k'"
    by (auto simp: mlfqs_tick_def bindR_eq_Inr Let_def tk_def)
  have k1: "in_handler k0 k1" by (rule in_handler_upd [OF assms(1) u]) simp_all
  have k2: "in_handler k0 k2"
  proof (cases "k2 = k1")
    case False
    with s obtain ka c where "update_load_avg k1 = Inr ka"
      and f: "foreach_loop update_recent_cpu (all_list ka) (ka\<lparr>load_coefficient := c\<rparr>) = Inr k2"
      by (auto simp: bindR_eq_Inr thread_foreach_def split: if_splits)
    then have "in_handler k0 (ka\<lparr>load_coefficient := c\<rparr>)"
      using k1 by (auto simp: update_load_avg_def bindR_eq_Inr in_handler_def)
    from foreach_loop_inv [where P = "in_handler k0", OF _ this f] show ?thesis
      using update_recent_cpu_handler by blast
  qed (use k1 in simp)
  show ?thesis
  proof (cases "k' = k2")
    case False
    with e obtain ka where f: "foreach_loop thread_update_mlfqs_priority (all_list k2) k2 = Inr ka"
      and k': "k' = ka\<lparr>yield_on_return := True\<rparr>"
      by (auto simp: bindR_eq_Inr thread_foreach_def intr_yield_on_return_def split: if_splits)
    from foreach_loop_inv [where P = "in_handler k0", OF _ k2 f] have "in_handler k0 ka"
      using update_priority_handler by blast
    then show ?thesis using k' by (simp add: in_handler_def)
  qed (use k2 in simp)
qed

lemma unblock_off:
  assumes "thread_unblock t k = Inr k'" "\<not> intr_on k"
  shows "\<exists>x w. thr k t = Some x \<and> k' = unblocked k t x w"
proof -
  have "intr_disable (unblocked k t x w) = unblocked k t x w" for x w
    by (simp add: intr_disable_def unblocked_def)
  then show ?thesis using assms by (auto simp: thread_unblock_eq)
qed

lemma wake_loop_handler:
  "in_handler k0 k \<Longrightarrow> distinct ts \<Longrightarrow> set ts \<subseteq> set (sleeping_list k) \<Longrightarrow> wake_loop c ts k = Inr k' \<Longrightarrow>
   in_handler k0 k'"
proof (induction ts arbitrary: k)
  case (Cons t ts)
  from Cons.prems(4) obtain x where x: "thr k t = Some x" by (auto simp: acc_eqs)
  show ?case
  proof (cases "c \<ge> wake_time x")
    case True
    let ?k1 = "k\<lparr>thr := (thr k)(t \<mapsto> x\<lparr>wake_time := -1\<rparr>)\<rparr>"
    let ?k2 = "?k1\<lparr>sleeping_list := remove1 t (sleeping_list k)\<rparr>"
    from Cons.prems(4) True x obtain k3 where u: "thread_unblock t ?k2 = Inr k3"
      and w: "wake_loop c ts k3 = Inr k'"
      by (auto simp: acc_eqs)
    have inv: "sched_inv k" and off: "\<not> intr_on k" using Cons.prems(1) by (simp_all add: in_handler_def)
    have st2: "st ?k2 = st k" using st_upd [OF x] by (simp add: view_cong st_def)
    have pl2: "plc ?k2 = (plc k)(Sleeping := remove1 t (plc k Sleeping))"
      using x by (auto simp: plc_def fun_eq_iff split: place.splits)
    have tin: "t \<in> set (plc k Sleeping)" using Cons.prems(3) by (simp add: plc_def)
    have inv1: "sched_inv ?k1" by (rule sched_inv_thr [OF inv x]) simp_all
    have "st ?k1 = st k" by (rule st_upd [OF x]) simp
    then have inv2: "sched_inv ?k2"
      using placed_shrink [OF sched_invD(2) [OF inv], of "remove1 t (plc k Sleeping)" Sleeping]
        placedD(1) [OF sched_invD(2) [OF inv], of Sleeping] pl2
      by (intro sched_inv_places [OF inv1]) (simp_all add: set_remove1_subset)
    have "parked ?k2 t" by (rule parked_leave [OF inv tin _ st2 _ pl2]) simp_all
    then have inv3: "sched_inv k3" using thread_unblock_inv [OF inv2 _ u] by blast
    from unblock_off [OF u] off obtain y v where k3: "k3 = unblocked ?k2 t y v" by auto
    have "in_handler k0 k3" using inv3 k3 Cons.prems(1) by (simp add: in_handler_def unblocked_def)
    moreover have "set ts \<subseteq> set (sleeping_list k3)"
      using Cons.prems(2,3) k3 placedD(1) [OF sched_invD(2) [OF inv], of Sleeping]
      by (auto simp: unblocked_def plc_def)
    ultimately show ?thesis using Cons.IH Cons.prems(2) w by simp
  next
    case False
    then show ?thesis using Cons x by (simp add: acc_eqs get_thr_def)
  qed
qed simp

lemma preempt_tick_handler:
  "in_handler k0 k \<Longrightarrow> preempt_tick t k = Inr k' \<Longrightarrow> in_handler k0 k'"
  using mlfqs_tick_handler [of k0 k t k']
  by (auto simp: preempt_tick_def Let_def intr_yield_on_return_def bindR_eq_Inr in_handler_def split: if_splits)

lemma thread_tick_handler:
  assumes "in_handler k0 k" "thread_tick k = Inr k'"
  shows "in_handler k0 k'"
proof -
  from assms(2) obtain x k1 where s: "preempt_tick (current k) (count_tick (current k) x k) = Inr k1"
    and w: "wake_loop (ticks k1) (sleeping_list k1) k1 = Inr k'"
    by (auto simp: thread_tick_def bindR_eq_Inr thread_current_eq wake_sleeping_threads_def)
  have "in_handler k0 (count_tick (current k) x k)"
    using assms(1) by (auto simp: in_handler_def count_tick_def)
  then have k1: "in_handler k0 k1" using s by (rule preempt_tick_handler)
  have "distinct (sleeping_list k1)"
    using placedD(1) [OF sched_invD(2), of k1 Sleeping] k1 by (simp add: in_handler_def plc_def)
  then show ?thesis using wake_loop_handler [OF k1 _ _ w] by simp
qed

lemma timer_handler_inv:
  assumes inv: "sched_inv k" and h: "intr_handler timer_interrupt k = Inr k'"
  shows "sched_inv k'"
proof -
  from h obtain k1 k2 where p: "push_code Iret k = Inr k1"
    and t: "thread_tick (k1\<lparr>intr_on := False, in_external_intr := True, yield_on_return := False,
       ticks := wrap64 (ticks k1 + 1)\<rparr>) = Inr k2"
    and y: "(if yield_on_return k2 then thread_yield (k2\<lparr>in_external_intr := False\<rparr>)
       else Inr (k2\<lparr>in_external_intr := False\<rparr>)) = Inr k'"
    by (auto simp: intr_handler_def timer_interrupt_def bindR_eq_Inr Let_def)
  have "sched_inv k1" using push_code_inv(1) [OF p inv] by simp
  then have "in_handler k1 (k1\<lparr>intr_on := False, in_external_intr := True, yield_on_return := False,
       ticks := wrap64 (ticks k1 + 1)\<rparr>)" by (simp add: in_handler_def)
  from thread_tick_handler [OF this t] have "sched_inv (k2\<lparr>in_external_intr := False\<rparr>)"
    by (simp add: in_handler_def)
  then show ?thesis using y thread_yield_inv [of "k2\<lparr>in_external_intr := False\<rparr>"] by (auto split: if_splits)
qed

section \<open>Continuations\<close>

lemma thread_set_nice_inv:
  assumes inv: "sched_inv k" and s: "thread_set_nice n k = Inr k'"
  shows "sched_inv k'"
proof -
  from s obtain k1 k2 where u: "upd_thr (current k) (\<lambda>x. x\<lparr>nice := n\<rparr>) k = Inr k1"
    and p: "thread_update_mlfqs_priority (current k) k1 = Inr k2" and y: "thread_yield k2 = Inr k'"
    by (auto simp: thread_set_nice_def bindR_eq_Inr thread_current_eq)
  have "sched_inv k1" using upd_thr_inv(1) [OF u inv] by simp
  then have "sched_inv k2"
    using p upd_thr_inv(1) [of "current k" "\<lambda>x. x\<lparr>priority := mlfqs_priority x\<rparr>" k1 k2]
    by (auto simp: thread_update_mlfqs_priority_def split: if_splits)
  then show ?thesis using y by (rule thread_yield_inv)
qed

lemma sleep_from_inv:
  assumes inv: "sched_inv k" and ne: "current k \<noteq> idle_thread k" and s: "sleep_from start n k = Inr k'"
  shows "sched_inv k'"
proof -
  let ?y = "\<lambda>x. x\<lparr>wake_time := wrap64 (start + n), code := Set_level True # code x\<rparr>"
  let ?k = "\<lambda>x. k\<lparr>intr_on := False, sleeping_list := sleeping_list k @ [current k],
     thr := (thr k)(current k \<mapsto> ?y x)\<rparr>"
  from s obtain x where x: "thr k (current k) = Some x" and b: "thread_block (?k x) = Inr k'"
    by (auto simp: sleep_from_def thread_sleep_def acc_eqs Let_def intr_disable_def)
  have "plc (?k x) = (plc k)(Sleeping := plc k Sleeping @ [current k])"
    using x by (auto simp: plc_def fun_eq_iff split: place.splits)
  then show ?thesis
    using ne by (intro block_in_place [OF inv x ne _ _ _ _ _ _ _ _ b, of Sleeping "?y x"]) auto
qed

lemma timer_sleep_inv:
  assumes inv: "sched_inv k" "current k \<noteq> idle_thread k" and s: "timer_sleep n k = Inr k'"
  shows "sched_inv k'"
proof -
  from s obtain k1 where p: "push_code (Sleep_from (ticks k) n) k = Inr k1"
    and l: "intr_set_level (intr_on k1) (intr_disable k1) = Inr k'"
    by (auto simp: timer_sleep_def bindR_eq_Inr Let_def)
  have "sched_inv (intr_disable k1)" using push_code_inv(1) [OF p inv(1)] inv(2) by (simp add: ok_instr_def)
  then show ?thesis using l by (rule intr_set_level_inv)
qed

text \<open>Taking the next instruction off the running thread leaves a thread it was creating parked.\<close>

lemma pop_code_inv:
  assumes inv: "sched_inv k" and x: "thr k (current k) = Some x" "code x = i # is"
  defines "k1 \<equiv> k\<lparr>thr := (thr k)(current k \<mapsto> x\<lparr>code := is\<rparr>)\<rparr>"
  shows "sched_inv k1" "ok_instr k1 (current k1) i" "t \<in> set (target i) \<Longrightarrow> parked k1 t"
proof -
  have st1: "st k1 = st k" unfolding k1_def by (rule st_upd [OF x(1)]) simp
  have pl1: "plc k1 = (plc k)(Creating (current k) := targets is)" unfolding k1_def plc_thr by simp
  have pl: "plc k (Creating (current k)) = target i @ targets is" using x by (simp add: plc_def)
  note D = placedD [OF sched_invD(2) [OF inv]]
  have "placed (st k) (plc k1) (idle_thread k) (all_list k)"
    unfolding pl1 using D(1) [of "Creating (current k)"] pl
    by (intro placed_shrink [OF sched_invD(2) [OF inv]]) auto
  moreover have "codes_ok k1"
    by (rule codes_ok_upd [OF sched_invD(4) [OF inv] x(1), of _ "x\<lparr>code := is\<rparr>"]) (auto simp: k1_def x(2))
  ultimately have "inv_core k1"
    using sched_invD(1,6) [OF inv] st1 by (auto simp: inv_core_def k1_def)
  then show "sched_inv k1" using st1 sched_invD(5) [OF inv] by (simp add: sched_inv_def k1_def)
  show "ok_instr k1 (current k1) i"
    using sched_invD(4) [OF inv] x by (auto simp: codes_ok_def ok_instr_def k1_def)
  assume t: "t \<in> set (target i)"
  then have tin: "t \<in> set (plc k (Creating (current k)))" using pl by simp
  have "t \<notin> set (plc k1 p)" for p
    using D(1) [of "Creating (current k)"] D(4) [OF _ tin, of p] t pl by (auto simp: pl1)
  then show "parked k1 t" using D(2,3) [OF tin] st1 by (simp add: parked_def status_of_def k1_def)
qed

lemma exec_inv:
  assumes inv: "sched_inv k" and ok: "ok_instr k (current k) i"
    and tg: "\<And>t. t \<in> set (target i) \<Longrightarrow> parked k t" and e: "exec fuel i k = Inr k'"
  shows "sched_inv k'"
proof (cases "current k = idle_thread k")
  case True
  then have "idle_instr i" using ok by (simp add: ok_instr_def)
  then show ?thesis
  proof (cases i)
    case Idle_loop
    then obtain k1 where p: "push_code Idle_halt (intr_disable k) = Inr k1" and b: "thread_block k1 = Inr k'"
      using e by (auto simp: exec_def bindR_eq_Inr)
    have "sched_inv k1"
      using push_code_inv(1) [OF p] inv True by (simp add: ok_instr_def intr_disable_def)
    then show ?thesis using b thread_block_inv by blast
  next
    case Idle_halt
    then show ?thesis
      using e push_code_inv(1) [of Idle_loop "k\<lparr>intr_on := True\<rparr>" k'] inv True by (simp add: exec_def ok_instr_def)
  qed (use e inv in \<open>auto simp: exec_def intro: intr_set_level_inv\<close>)
next
  case False
  then have o: "other_instr i" using ok by (simp add: ok_instr_def)
  show ?thesis
  proof (cases i)
    case (Create_pid t p f)
    then show ?thesis using e o tg create_pid_inv [OF inv False, of t] by (simp add: exec_def)
  next
    case (Create_unblock t f)
    then show ?thesis using e o tg create_unblock_inv [OF inv, of t] by (simp add: exec_def)
  next
    case (Tid_set t n)
    then show ?thesis using e upd_thr_inv(1) [OF _ inv] by (simp add: exec_def)
  qed (use e o inv in \<open>auto simp: exec_def bindR_eq_Inr
      intro: intr_set_level_inv sema_loop_inv [OF inv False] sema_down_inv [OF inv False]
        lock_acquire_inv [OF inv False] cond_broadcast_inv [OF inv False] allocate_tid_inv [OF inv False]
        sleep_from_inv [OF inv False]\<close>)
qed

lemma resume_inv:
  assumes inv: "sched_inv k" and r: "resume fuel k = Inr k'"
  shows "sched_inv k'"
proof -
  obtain x where x: "thr k (current k) = Some x" using sched_invD(8) [OF inv] by blast
  show ?thesis
  proof (cases "code x")
    case Nil
    then show ?thesis using r x inv by (simp add: resume_def get_thr_def)
  next
    case (Cons i "is")
    note p = pop_code_inv [OF inv x Cons]
    show ?thesis using exec_inv [OF p] r x Cons by (auto simp: resume_def acc_eqs upd_thr_def get_thr_def)
  qed
qed

section \<open>The kernel as a step relation\<close>

text \<open>
  The functions a thread may call. The semaphore of a lock is only operated on through the lock, a
  lock is initialised once, pages handed out by the allocator are not in use, and a thread is
  unblocked directly only if it blocked directly.
\<close>

datatype call =
    Yield_call | Exit_call | Set_priority_call int | Set_nice_call int | Create_call addr int int
  | Block_call | Unblock_call addr | Timer_sleep_call int | Set_level_call bool
  | Sema_init_call addr u32 | Sema_down_c addr | Sema_try_down_call addr | Sema_up_call addr
  | Lock_init_call addr | Lock_acquire_c addr | Lock_try_acquire_call addr | Lock_release_call addr
  | Cond_init_call addr | Cond_wait_call addr addr addr | Cond_signal_call addr addr | Cond_broadcast_call addr addr

definition do_call :: "nat \<Rightarrow> call \<Rightarrow> kernel \<Rightarrow> kernel res" where
  "do_call fuel c k = (case c of
     Yield_call \<Rightarrow> thread_yield k
   | Exit_call \<Rightarrow> thread_exit k
   | Set_priority_call n \<Rightarrow> thread_set_priority n k
   | Set_nice_call n \<Rightarrow> thread_set_nice n k
   | Create_call page prio p \<Rightarrow> thread_create_ptr page prio Other_function p k
   | Block_call \<Rightarrow> thread_block k
   | Unblock_call t \<Rightarrow> thread_unblock t k
   | Timer_sleep_call n \<Rightarrow> timer_sleep n k
   | Set_level_call b \<Rightarrow> intr_set_level b k
   | Sema_init_call p v \<Rightarrow> sema_init p v k
   | Sema_down_c p \<Rightarrow> sema_down p k
   | Sema_try_down_call p \<Rightarrow> bindR (sema_try_down p k) (\<lambda>(k, b). Inr k)
   | Sema_up_call p \<Rightarrow> sema_up p k
   | Lock_init_call l \<Rightarrow> lock_init l k
   | Lock_acquire_c l \<Rightarrow> lock_acquire fuel l k
   | Lock_try_acquire_call l \<Rightarrow> bindR (lock_try_acquire l k) (\<lambda>(k, b). Inr k)
   | Lock_release_call l \<Rightarrow> lock_release l k
   | Cond_init_call c \<Rightarrow> cond_init c k
   | Cond_wait_call w c l \<Rightarrow> cond_wait w c l k
   | Cond_signal_call c l \<Rightarrow> cond_signal c l k
   | Cond_broadcast_call c l \<Rightarrow> cond_broadcast c l k)"

definition lock_semas :: "kernel \<Rightarrow> addr set" where
  "lock_semas k = {lock_sema l | l. holder k l \<noteq> None}"

definition may_call :: "kernel \<Rightarrow> call \<Rightarrow> bool" where
  "may_call k c \<longleftrightarrow> (case c of
     Create_call page prio p \<Rightarrow> page \<notin> dom (thr k)
   | Unblock_call t \<Rightarrow> parked k t
   | Sema_init_call p v \<Rightarrow> p \<notin> lock_semas k
   | Sema_down_c p \<Rightarrow> p \<notin> lock_semas k
   | Sema_try_down_call p \<Rightarrow> p \<notin> lock_semas k
   | Sema_up_call p \<Rightarrow> p \<notin> lock_semas k
   | Lock_init_call l \<Rightarrow> holder k l = None \<and> semas k (lock_sema l) = None
   | Cond_wait_call w c l \<Rightarrow> w \<notin> lock_semas k
   | _ \<Rightarrow> True)"

inductive kstep :: "nat \<Rightarrow> kernel \<Rightarrow> kernel \<Rightarrow> bool" for fuel where
  kstep_call: "\<lbrakk>thr k (current k) = Some x; code x = []; current k \<noteq> idle_thread k; may_call k c;
      do_call fuel c k = Inr k'\<rbrakk> \<Longrightarrow> kstep fuel k k'"
| kstep_resume: "\<lbrakk>thr k (current k) = Some x; code x \<noteq> []; resume fuel k = Inr k'\<rbrakk> \<Longrightarrow> kstep fuel k k'"
| kstep_tick: "\<lbrakk>intr_on k; intr_handler timer_interrupt k = Inr k'\<rbrakk> \<Longrightarrow> kstep fuel k k'"

inductive_cases kstepE: "kstep fuel k k'"

lemma do_call_inv:
  assumes inv: "sched_inv k" and ne: "current k \<noteq> idle_thread k" and m: "may_call k c"
    and d: "do_call fuel c k = Inr k'"
  shows "sched_inv k'"
proof (cases c)
  case (Create_call page prio p)
  then show ?thesis using d m thread_create_ptr_inv [OF inv ne, of page] by (simp add: do_call_def may_call_def)
next
  case (Unblock_call t)
  then show ?thesis using d m thread_unblock_inv [OF inv, of t] by (simp add: do_call_def may_call_def)
next
  case (Lock_init_call l)
  then show ?thesis
    using d sema_init_inv [of "k\<lparr>holder := (holder k)(l \<mapsto> NULL)\<rparr>"] inv
    by (auto simp: do_call_def lock_init_def bindR_eq_Inr)
next
  case (Cond_init_call c)
  then show ?thesis using d inv by (auto simp: do_call_def cond_init_def bindR_eq_Inr)
qed (use d in \<open>auto simp: do_call_def bindR_eq_Inr intro: intr_set_level_inv [OF inv] thread_yield_inv [OF inv]
    thread_exit_inv [OF inv ne] thread_set_priority_inv [OF inv] thread_set_nice_inv [OF inv]
    thread_block_inv [OF inv] timer_sleep_inv [OF inv ne] sema_init_inv [OF inv] sema_down_inv [OF inv ne]
    sema_try_down_inv [OF inv] sema_up_inv [OF inv] lock_acquire_inv [OF inv ne] lock_try_acquire_inv [OF inv ne]
    lock_release_inv [OF inv] cond_wait_inv [OF inv ne] cond_signal_inv [OF inv] cond_broadcast_inv [OF inv ne]\<close>)

lemma kstep_inv: "kstep fuel k k' \<Longrightarrow> sched_inv k \<Longrightarrow> sched_inv k'"
  by (erule kstepE) (blast intro: do_call_inv resume_inv timer_handler_inv)+

lemma ksteps_inv: "(kstep fuel)\<^sup>*\<^sup>* k k' \<Longrightarrow> sched_inv k \<Longrightarrow> sched_inv k'"
  by (induction rule: rtranclp_induct) (auto intro: kstep_inv)

end
