(* ===== verification/Thread_Properties.thy ===== *)
theory Thread_Properties
  imports Thread_Steps Kernel_List_Order
begin

text \<open>
  The properties of the scheduler, the interrupt-driven preemption and the sleeping of threads; the
  boot sequence, which establishes the invariant; and two executions in which the kernel fails.
\<close>

declare neq0_conv [iff del] bot_nat_0.not_eq_extremum [simp del]

section \<open>Booting\<close>

text \<open>
  The zeroed data of the kernel image, and \<open>main\<close>'s calls of \<open>thread_init\<close> and \<open>thread_start\<close>, with
  the initial thread's page at 4096, the idle thread's at 8192, and \<open>idle_started\<close> in the stack frame
  of \<open>thread_start\<close> at 5000. The option \<^verbatim>\<open>-mlfqs\<close> is not given on the kernel's command line.
\<close>

definition power_on :: kernel where
  "power_on = \<lparr>thr = Map.empty, ready_list = [], all_list = [], sleeping_list = [], idle_thread = NULL,
     initial_thread = NULL, current = NULL, intr_on = False, in_external_intr = False, yield_on_return = False,
     thread_waiting = False, thread_ticks = 0, idle_ticks = 0, kernel_ticks = 0, user_ticks = 0, ticks = 0,
     next_tid = 1, thread_mlfqs = False, load_avg = 0, load_coefficient = 0,
     semas = Map.empty, holder = Map.empty, conds = Map.empty\<rparr>"

definition boot :: "kernel res" where
  "boot = bindR (thread_init 0 4096 power_on) (\<lambda>k.
     bindR (run 3 0 k) (\<lambda>k.
     bindR (thread_start 5000 8192 k) (run 12 0)))"

lemma run_numeral [simp]: "run (numeral n) fuel k = bindR (resume fuel k) (run (pred_numeral n) fuel)"
  by (simp add: numeral_eq_Suc)

lemmas kernel_eval = thread_init_def lock_init_def sema_init_def set_sema_def init_thread_def upd_thr_def
  get_thr_def push_code_def get_sema_def get_holder_def get_cond_def lock_acquire_def
  lock_held_by_current_thread_def thread_current_def is_thread_def sema_down_def sema_loop_def
  intr_set_level_def intr_disable_def intr_enable_def Let_def PRI_DEFAULT_def PRI_MIN_def PRI_MAX_def
  tid_lock_def lock_sema_def resume_def exec_def allocate_tid_def lock_release_def sema_up_def thread_start_def
  thread_create_ptr_def create_pid_def create_unblock_def kernel_thread_def thread_unblock_def
  thread_yield_def schedule_def next_thread_to_run_def list_highest_priority_def thread_schedule_tail_def
  thread_block_def int8_def thread_get_priority_def thread_donate_priority_def cond_wait_def cond_signal_def
  cond_init_def do_call_def signed_take_bit_int_eq_self

text \<open>What \<open>boot\<close> leaves behind.\<close>

definition booted :: kernel where
  "booted = \<lparr>thr = [8192 \<mapsto> \<lparr>tid = wrap32 2, pid = -1, status = THREAD_READY, priority = 0, wake_time = -1,
        nice = 0, recent_cpu = 0, priority_donations = [], orig_priority = 0, lock_needed = NULL,
        pagedir_set = False, code = [Set_level True, Idle_loop]\<rparr>,
       4096 \<mapsto> \<lparr>tid = 1, pid = -1, status = THREAD_RUNNING, priority = 31, wake_time = -1, nice = 0,
        recent_cpu = 0, priority_donations = [], orig_priority = 31, lock_needed = NULL, pagedir_set = False,
        code = []\<rparr>],
     ready_list = [], all_list = [4096, 8192], sleeping_list = [], idle_thread = 8192,
     initial_thread = 4096, current = 4096, intr_on = True, in_external_intr = False, yield_on_return = False,
     thread_waiting = False, thread_ticks = 0, idle_ticks = 0, kernel_ticks = 0, user_ticks = 0, ticks = 0,
     next_tid = wrap32 (wrap32 2 + 1), thread_mlfqs = False, load_avg = 0, load_coefficient = 0,
     semas = [20 \<mapsto> \<lparr>sema_value = 1, waiters = []\<rparr>, 5000 \<mapsto> \<lparr>sema_value = 0, waiters = []\<rparr>],
     holder = [16 \<mapsto> NULL], conds = Map.empty\<rparr>"

lemma boot_booted: "boot = Inr booted"
  by (simp add: boot_def power_on_def kernel_eval booted_def)

lemma booted_inv: "sched_inv booted"
proof -
  have st: "st booted = [8192 \<mapsto> THREAD_READY, 4096 \<mapsto> THREAD_RUNNING]"
    by (auto simp: st_def booted_def fun_eq_iff)
  have pl: "plc booted = (\<lambda>_. [])"
    by (auto simp: plc_def booted_def fun_eq_iff split: place.splits)
  have "placed (st booted) (plc booted) 8192 [4096, 8192]"
    unfolding st pl by (rule placedI) (auto split: if_splits)
  then show ?thesis
    by (auto simp: sched_inv_def inv_core_def st codes_ok_def ok_instr_def) (auto simp: booted_def split: if_splits)
qed

section \<open>Scenarios\<close>

text \<open>A sequence of calls, each by the thread that is running when the one before has come to rest.\<close>

fun calls :: "nat \<Rightarrow> call list \<Rightarrow> kernel \<Rightarrow> kernel res" where
  "calls fuel [] k = Inr k"
| "calls fuel (c # cs) k = bindR (do_call fuel c k) (\<lambda>k. bindR (run 12 fuel k) (calls fuel cs))"

lemma donate_cycle:
  "l \<noteq> NULL \<Longrightarrow> holder k l = Some h \<Longrightarrow> h \<noteq> NULL \<Longrightarrow> thr k h = Some x \<Longrightarrow> lock_needed x = l \<Longrightarrow>
   donate_loop n h l k = Inl Out_of_fuel"
  by (induction n arbitrary: k x) (simp_all add: get_holder_def get_thr_def upd_thr_def)

text \<open>
  C31. \<open>lock_acquire\<close> can run forever with nothing done. A thread that has waited for a lock keeps
  \<open>lock_needed\<close> pointing to it after it has got it. When a thread of higher priority then tries to
  acquire that lock, the loop of \<open>thread_donate_priority\<close> goes from the holder to the lock it is
  recorded as needing, whose holder is the same thread, and never ends, however long it runs.
\<close>

theorem lock_acquire_hangs:
  "\<exists>k. bindR boot (calls 1 [Lock_init_call 100, Lock_acquire_c 100, Create_call 12288 40 (-1), Lock_acquire_c 100,
       Lock_release_call 100, Create_call 16384 50 (-1)]) = Inr k \<and>
     current k = 16384 \<and> holder k 100 = Some 12288 \<and>
     (\<forall>fuel. do_call fuel (Lock_acquire_c 100) k = Inl Out_of_fuel)"
  by (simp add: boot_booted booted_def kernel_eval donate_cycle)

section \<open>The choice of the next thread\<close>

text \<open>The priority comparison of two threads is a strict weak order, so the lemmas on first maxima apply.\<close>

definition pri :: "kernel \<Rightarrow> addr \<Rightarrow> int" where
  "pri k t = (case thr k t of None \<Rightarrow> 0 | Some x \<Rightarrow> priority x)"

definition lower_priority :: "kernel \<Rightarrow> addr \<Rightarrow> addr \<Rightarrow> bool" where
  "lower_priority k a b \<longleftrightarrow> pri k a < pri k b"

interpretation prio: strict_weak_order "lower_priority k" for k
  by unfold_locales (auto simp: lower_priority_def)

definition pri_ok :: "kernel \<Rightarrow> addr \<Rightarrow> bool" where
  "pri_ok k t \<longleftrightarrow> thr k t \<noteq> None \<and> PRI_MIN \<le> pri k t \<and> pri k t \<le> PRI_MAX"

lemma highest_loop_step:
  assumes "pri_ok k t"
  shows "highest_loop k (t # ts) m n0 = (if m < pri k t then highest_loop k ts (pri k t) (Some t)
     else highest_loop k ts m n0)"
proof -
  obtain x where x: "thr k t = Some x" "0 \<le> priority x" "priority x \<le> 63" "pri k t = priority x"
    using assms by (auto simp: pri_ok_def pri_def PRI_MIN_def PRI_MAX_def)
  then have "int8 (priority x) = priority x" by (simp add: int8_def signed_take_bit_int_eq_self)
  then show ?thesis using x by (simp add: get_thr_def Let_def)
qed

lemma highest_loop_foldl:
  "\<forall>t\<in>set ts. pri_ok k t \<Longrightarrow>
   highest_loop k ts (pri k m) (Some m)
     = Inr (Some (foldl (\<lambda>m e. if lower_priority k m e then e else m) m ts))"
  by (induction ts arbitrary: m) (simp_all add: highest_loop_step lower_priority_def del: highest_loop.simps(2))

lemma list_highest_priority_first:
  assumes "\<forall>t\<in>set ts. pri_ok k t" "ts \<noteq> []"
  shows "\<exists>us t vs. list_highest_priority k ts = Inr (Some t) \<and> ts = us @ t # vs \<and>
     (\<forall>u\<in>set us. pri k u < pri k t) \<and> (\<forall>v\<in>set vs. pri k v \<le> pri k t)"
proof -
  obtain m ts' where ts: "ts = m # ts'" using assms(2) by (cases ts) auto
  define f where "f = foldl (\<lambda>m e. if lower_priority k m e then e else m) m ts'"
  have "list_highest_priority k ts = Inr (Some f)"
    using ts assms(1) highest_loop_foldl [of ts' k m]
    by (simp add: f_def list_highest_priority_def highest_loop_step pri_ok_def PRI_MIN_def del: highest_loop.simps(2))
  moreover obtain us vs where "ts = us @ f # vs" "\<forall>u\<in>set us. lower_priority k u f"
      "\<forall>v\<in>set vs. \<not> lower_priority k f v"
    using prio.foldl_max_first [of m ts' k] unfolding f_def ts by blast
  moreover from this have "\<forall>u\<in>set us. pri k u < pri k f" "\<forall>v\<in>set vs. pri k v \<le> pri k f"
    by (auto simp: lower_priority_def not_less)
  ultimately show ?thesis by blast
qed

text \<open>
  C28. Scheduling by priority: as long as priorities are in range, \<open>schedule\<close> with a non-empty ready
  list always succeeds in a state of the scheduler's invariant, and it runs the thread of highest
  priority that has been in the ready list for the longest time; that thread is taken out of the
  list, the others stay in order. With an empty ready list it runs the idle thread.
\<close>

theorem schedule_highest_priority:
  assumes inv: "switch_inv k" and off: "\<not> intr_on k" and cur: "thr k (current k) \<noteq> None"
    and pr: "\<forall>t\<in>set (ready_list k). pri_ok k t"
  shows "\<exists>k'. schedule k = Inr k' \<and> sched_inv k' \<and>
     (if ready_list k = [] then current k' = idle_thread k \<and> ready_list k' = []
      else \<exists>us vs. ready_list k = us @ current k' # vs \<and> ready_list k' = us @ vs \<and>
        (\<forall>u\<in>set us. pri k u < pri k (current k')) \<and> (\<forall>v\<in>set vs. pri k v \<le> pri k (current k')))"
proof -
  have core: "inv_core k" and norun: "\<And>t. st k t \<noteq> Some THREAD_RUNNING" using inv by (auto simp: switch_inv_def)
  obtain c where c: "thr k (current k) = Some c" using cur by blast
  have cs: "status c \<noteq> THREAD_RUNNING" using norun [of "current k"] c by (simp add: st_def)
  have tail: "\<exists>k'. schedule k = Inr k' \<and> current k' = t \<and> ready_list k' = rl"
    if n: "next_thread_to_run k = Inr (k\<lparr>ready_list := rl\<rparr>, t)" and t: "thr k t = Some x" "t \<noteq> NULL" for t x rl
    using n t c cs off
    by (auto simp: schedule_def thread_schedule_tail_def acc_eqs is_thread_def upd_thr_def get_thr_def Let_def)
  show ?thesis
  proof (cases "ready_list k = []")
    case True
    obtain x where x: "thr k (idle_thread k) = Some x" using core by (auto simp: inv_core_def st_def)
    then have x0: "idle_thread k \<noteq> NULL" using core by (auto simp: inv_core_def)
    have "next_thread_to_run k = Inr (k\<lparr>ready_list := []\<rparr>, idle_thread k)"
      using True by (simp add: next_thread_to_run_def)
    from tail [OF this x x0] True show ?thesis using schedule_inv [OF inv] by auto
  next
    case False
    from list_highest_priority_first [OF pr False] obtain us t vs where
      t: "list_highest_priority k (ready_list k) = Inr (Some t)" "ready_list k = us @ t # vs"
        "\<forall>u\<in>set us. pri k u < pri k t" "\<forall>v\<in>set vs. pri k v \<le> pri k t" by blast
    have "t \<notin> set us" using t(3) by auto
    then have rm: "remove1 t (ready_list k) = us @ vs" using t(2) by (simp add: remove1_append)
    obtain x where x: "thr k t = Some x" using pr t(2) by (auto simp: pri_ok_def)
    then have x0: "t \<noteq> NULL" using core by (auto simp: inv_core_def)
    have "next_thread_to_run k = Inr (k\<lparr>ready_list := us @ vs\<rparr>, t)"
      using False t(1) rm by (simp add: next_thread_to_run_def)
    from tail [OF this x x0] t False show ?thesis using schedule_inv [OF inv] by auto
  qed
qed

text \<open>The initial thread has just made itself ready.\<close>

definition sample_switch :: kernel where
  "sample_switch = booted\<lparr>intr_on := False, ready_list := [4096],
     thr := (thr booted)(4096 \<mapsto> (the (thr booted 4096))\<lparr>status := THREAD_READY\<rparr>)\<rparr>"

lemma sample_switch_inv: "switch_inv sample_switch"
proof -
  let ?y = "(the (thr booted 4096))\<lparr>status := THREAD_READY\<rparr>"
  have plb: "plc booted = (\<lambda>_. [])"
    by (auto simp: plc_def booted_def fun_eq_iff split: place.splits)
  have pls: "plc sample_switch = (plc booted)(Ready := plc booted Ready @ [4096])"
    by (auto simp: plc_def sample_switch_def booted_def fun_eq_iff split: place.splits)
  have "placed ((st booted)(4096 \<mapsto> status_of Ready)) (plc sample_switch) (idle_thread booted) (all_list booted)"
    unfolding pls by (rule placed_enter [OF sched_invD(2) [OF booted_inv]]) (simp_all add: plb, simp_all add: booted_def st_def)
  then show ?thesis
    by (intro stop_running [OF booted_inv, where y = ?y]) (simp_all add: sample_switch_def booted_def status_of_def)
qed

theorem schedule_highest_priority_witness:
  "\<exists>k'. schedule sample_switch = Inr k' \<and> current k' = 4096 \<and> ready_list k' = []"
proof -
  have "\<forall>t\<in>set (ready_list sample_switch). pri_ok sample_switch t"
    by (simp add: sample_switch_def pri_ok_def pri_def PRI_MIN_def PRI_MAX_def booted_def)
  from schedule_highest_priority [OF sample_switch_inv _ _ this]
  show ?thesis by (auto simp: sample_switch_def booted_def Cons_eq_append_conv)
qed

section \<open>The invariant of the scheduler\<close>

text \<open>
  C2. In every state the booted kernel can reach by calls of its interface, by the continuation of
  calls and by timer interrupts, in any order: exactly the current thread is running; the ready list
  has no repetition and holds exactly the ready threads other than the idle thread; the threads in
  the sleeping list and in the waiting list of any semaphore are blocked, and none of them is in two
  of these lists or twice in one, so the \<open>elem\<close> member of a thread is never linked into two lists.
\<close>

theorem scheduler_invariant:
  assumes "boot = Inr k0" "(kstep fuel)\<^sup>*\<^sup>* k0 k"
  shows "(\<forall>t. st k t = Some THREAD_RUNNING \<longleftrightarrow> t = current k) \<and>
     distinct (ready_list k) \<and> set (ready_list k) = {t. st k t = Some THREAD_READY \<and> t \<noteq> idle_thread k} \<and>
     distinct (sleeping_list k) \<and> (\<forall>t\<in>set (sleeping_list k). st k t = Some THREAD_BLOCKED) \<and>
     (\<forall>p s. semas k p = Some s \<longrightarrow> distinct (waiters s) \<and>
        (\<forall>t\<in>set (waiters s). st k t = Some THREAD_BLOCKED \<and> t \<notin> set (sleeping_list k) \<and>
           (\<forall>q r. semas k q = Some r \<longrightarrow> q \<noteq> p \<longrightarrow> t \<notin> set (waiters r))))"
proof -
  have "k0 = booted" using assms(1) by (simp add: boot_booted)
  then have inv: "sched_inv k" using ksteps_inv [OF assms(2)] booted_inv by simp
  note D = placedD [OF sched_invD(2) [OF inv]]
  have pl: "plc k Ready = ready_list k" "plc k Sleeping = sleeping_list k"
    "\<And>p s. semas k p = Some s \<Longrightarrow> plc k (Waiting p) = waiters s" by (simp_all add: plc_def)
  have "set (ready_list k) = {t. st k t = Some THREAD_READY \<and> t \<noteq> idle_thread k}"
    using D(2,3) [of _ Ready] D(5) by (auto simp: pl status_of_def)
  moreover have "st k t = Some THREAD_BLOCKED" if "t \<in> set (sleeping_list k)" for t
    using D(2) [of t Sleeping] that by (simp add: pl status_of_def)
  moreover have "st k t = Some THREAD_BLOCKED \<and> t \<notin> set (sleeping_list k) \<and>
      (\<forall>q r. semas k q = Some r \<longrightarrow> q \<noteq> p \<longrightarrow> t \<notin> set (waiters r))"
    if "semas k p = Some s" "t \<in> set (waiters s)" for p s t
  proof -
    have t: "t \<in> set (plc k (Waiting p))" using that pl(3) by simp
    have "t \<notin> set (waiters r)" if "semas k q = Some r" "q \<noteq> p" for q r
      using D(4) [OF _ t, of "Waiting q"] that pl(3) by auto
    then show ?thesis using D(2) [OF t] D(4) [OF _ t, of Sleeping] by (simp add: pl(2) status_of_def)
  qed
  moreover have "distinct (waiters s)" if "semas k p = Some s" for p s
    using D(1) [of "Waiting p"] pl(3) [OF that] by simp
  ultimately show ?thesis
    using sched_invD(5) [OF inv] D(1) [of Ready] D(1) [of Sleeping] by (simp add: pl(1,2))
qed

theorem scheduler_invariant_witness:
  "\<exists>k0. boot = Inr k0 \<and> st k0 4096 = Some THREAD_RUNNING"
  using scheduler_invariant [OF boot_booted rtranclp.rtrancl_refl] boot_booted
  by (auto simp: booted_def)

section \<open>Signalling a condition\<close>

text \<open>The highest priority of the threads asleep on a semaphore, -1 when there is none.\<close>

definition wake_pri :: "kernel \<Rightarrow> addr \<Rightarrow> int" where
  "wake_pri k w = (case semas k w of None \<Rightarrow> -1
     | Some s \<Rightarrow> if waiters s = [] then -1 else Max (pri k ` set (waiters s)))"

definition sema_ok :: "kernel \<Rightarrow> addr \<Rightarrow> bool" where
  "sema_ok k w \<longleftrightarrow> (\<exists>s. semas k w = Some s \<and> (\<forall>t\<in>set (waiters s). pri_ok k t))"

lemma wake_pri_none:
  assumes "sema_ok k w"
  shows "wake_pri k w \<le> -1 \<longleftrightarrow> waiters (the (semas k w)) = []"
proof -
  obtain s where s: "semas k w = Some s" "\<forall>t\<in>set (waiters s). pri_ok k t" using assms by (auto simp: sema_ok_def)
  have m: "0 \<le> wake_pri k w" if "waiters s \<noteq> []"
  proof -
    have "wake_pri k w = Max (pri k ` set (waiters s))" using that s(1) by (simp add: wake_pri_def)
    moreover have "Max (pri k ` set (waiters s)) \<in> pri k ` set (waiters s)" using that by (intro Max_in) simp_all
    ultimately show ?thesis using s(2) by (auto simp: pri_ok_def PRI_MIN_def)
  qed
  have e: "wake_pri k w = -1" if "waiters s = []" using that s(1) by (simp add: wake_pri_def)
  show "wake_pri k w \<le> -1 \<longleftrightarrow> waiters (the (semas k w)) = []" using m e s(1) by (cases "waiters s = []") auto
qed

lemma signal_loop_step:
  assumes "sema_ok k w"
  shows "signal_loop k (w # ws) m n0 = (if m < wake_pri k w then signal_loop k ws (wake_pri k w) (Some w) else signal_loop k ws m n0)"
proof -
  obtain s where s: "semas k w = Some s" "\<forall>t\<in>set (waiters s). pri_ok k t" using assms by (auto simp: sema_ok_def)
  show ?thesis
  proof (cases "waiters s = []")
    case False
    from list_highest_priority_first [OF s(2) False] obtain us t vs where
      t: "list_highest_priority k (waiters s) = Inr (Some t)" "waiters s = us @ t # vs"
        "\<forall>u\<in>set us. pri k u < pri k t" "\<forall>v\<in>set vs. pri k v \<le> pri k t" by blast
    obtain x where x: "thr k t = Some x" "int8 (priority x) = pri k t"
      using s(2) t(2) by (auto simp: pri_ok_def pri_def PRI_MIN_def PRI_MAX_def int8_def signed_take_bit_int_eq_self)
    have "Max (pri k ` set (waiters s)) = pri k t" using t(2-4) by (intro Max_eqI) auto
    then have "wake_pri k w = pri k t" using False s(1) by (simp add: wake_pri_def)
    then show ?thesis using s(1) False t(1) x by (simp add: get_sema_def get_thr_def)
  qed (use s(1) in \<open>simp add: get_sema_def wake_pri_def\<close>)
qed

lemma signal_loop_none:
  "\<forall>w\<in>set ws. sema_ok k w \<and> wake_pri k w \<le> m \<Longrightarrow> signal_loop k ws m n0 = Inr n0"
  by (induction ws) (simp_all add: signal_loop_step del: signal_loop.simps(2))

lemma signal_loop_first:
  assumes "\<forall>w\<in>set ws. sema_ok k w" "\<exists>w\<in>set ws. m < wake_pri k w"
  shows "\<exists>us w vs. signal_loop k ws m n0 = Inr (Some w) \<and> ws = us @ w # vs \<and> m < wake_pri k w \<and>
     (\<forall>u\<in>set us. wake_pri k u < wake_pri k w) \<and> (\<forall>v\<in>set vs. wake_pri k v \<le> wake_pri k w)"
  using assms
proof (induction ws arbitrary: m n0)
  case (Cons w ws)
  note st = signal_loop_step [of k w ws m n0]
  show ?case
  proof (cases "\<exists>v\<in>set ws. max m (wake_pri k w) < wake_pri k v")
    case True
    let ?n = "if m < wake_pri k w then Some w else n0"
    from Cons.IH [OF _ True, of ?n] Cons.prems(1) obtain us z vs where
      z: "signal_loop k ws (max m (wake_pri k w)) ?n = Inr (Some z)" "ws = us @ z # vs" "max m (wake_pri k w) < wake_pri k z"
        "\<forall>u\<in>set us. wake_pri k u < wake_pri k z" "\<forall>v\<in>set vs. wake_pri k v \<le> wake_pri k z" by auto
    have "signal_loop k (w # ws) m n0 = Inr (Some z)" using st z(1) Cons.prems(1) by (auto simp: max_def split: if_splits)
    then show ?thesis using z by (intro exI [of _ "w # us"] exI [of _ z] exI [of _ vs]) simp
  next
    case False
    then have le: "\<forall>v\<in>set ws. wake_pri k v \<le> max m (wake_pri k w)" by (auto simp only: not_less bex_simps)
    have w: "m < wake_pri k w"
    proof (rule ccontr)
      assume n: "\<not> m < wake_pri k w"
      then have "\<forall>v\<in>set (w # ws). wake_pri k v \<le> m" using le by (simp add: max_def)
      then show False using Cons.prems(2) by (meson not_less)
    qed
    then have l: "\<forall>v\<in>set ws. wake_pri k v \<le> wake_pri k w" using le by (simp add: max_def)
    have "signal_loop k (w # ws) m n0 = Inr (Some w)"
      using st w l Cons.prems(1) signal_loop_none [of ws k "wake_pri k w" "Some w"] by simp
    then show ?thesis using w l by (intro exI [of _ "[]"] exI [of _ w] exI [of _ ws]) simp
  qed
qed simp

text \<open>
  C36. What \<open>cond_signal\<close> does, in any state in which the current thread holds the lock. It returns at
  once when the condition has no waiters. When threads are asleep on semaphores of the condition, it
  takes the first semaphore with a thread of the highest priority out of the condition and ups it.
  But when the condition has waiters and none of them has gone to sleep yet, which \<open>cond_wait\<close> allows
  because it releases the lock before it waits, the assertion \<open>next != NULL\<close> fails and the kernel
  halts. The witness is an execution from boot that gets there: the initial thread (priority 31) holds a
  lock that a thread of priority 40 waits for and calls \<open>cond_wait\<close>, which releases the lock and is
  preempted by the other thread, which signals.
\<close>

theorem cond_signal_cases:
  assumes "cond \<noteq> NULL" "lock \<noteq> NULL" "\<not> in_external_intr k" "thread_current k = Inr (current k)"
    and held: "holder k lock = Some (current k)" and ws: "conds k cond = Some ws" "\<forall>w\<in>set ws. sema_ok k w"
  shows "(ws = [] \<longrightarrow> cond_signal cond lock k = Inr k) \<and>
    (ws \<noteq> [] \<and> (\<forall>w\<in>set ws. waiters (the (semas k w)) = []) \<longrightarrow> cond_signal cond lock k = Inl Assertion_failure) \<and>
    ((\<exists>w\<in>set ws. waiters (the (semas k w)) \<noteq> []) \<longrightarrow> (\<exists>us w vs. ws = us @ w # vs \<and> waiters (the (semas k w)) \<noteq> [] \<and>
       (\<forall>u\<in>set us. wake_pri k u < wake_pri k w) \<and> (\<forall>v\<in>set vs. wake_pri k v \<le> wake_pri k w) \<and>
       cond_signal cond lock k = sema_up w (k\<lparr>conds := (conds k)(cond \<mapsto> us @ vs)\<rparr>)))"
proof (intro conjI impI)
  have c: "cond_signal cond lock k = (if ws = [] then Inr k else bindR (signal_loop k ws (-1) None) (\<lambda>nxt. case nxt of
       None \<Rightarrow> Inl Assertion_failure
     | Some w \<Rightarrow> sema_up w (k\<lparr>conds := (conds k)(cond \<mapsto> remove1 w ws)\<rparr>)))"
    using assms(1-6) by (simp add: cond_signal_def lock_held_by_current_thread_def get_holder_def get_cond_def ASSERT_def)
  show "ws = [] \<Longrightarrow> cond_signal cond lock k = Inr k" by (simp add: c)
  show "cond_signal cond lock k = Inl Assertion_failure" if n: "ws \<noteq> [] \<and> (\<forall>w\<in>set ws. waiters (the (semas k w)) = [])"
    using n ws(2) wake_pri_none signal_loop_none [of ws k "-1" None] by (simp add: c)
  assume "\<exists>w\<in>set ws. waiters (the (semas k w)) \<noteq> []"
  then have "\<exists>w\<in>set ws. -1 < wake_pri k w" using ws(2) wake_pri_none by (meson not_less)
  from signal_loop_first [OF ws(2) this, of None] obtain us w vs where
    w: "signal_loop k ws (-1) None = Inr (Some w)" "ws = us @ w # vs" "-1 < wake_pri k w"
      "\<forall>u\<in>set us. wake_pri k u < wake_pri k w" "\<forall>v\<in>set vs. wake_pri k v \<le> wake_pri k w" by blast
  have "w \<notin> set us" using w(4) by auto
  then have "remove1 w ws = us @ vs" using w(2) by (simp add: remove1_append)
  moreover have "waiters (the (semas k w)) \<noteq> []" using w(2,3) ws(2) wake_pri_none [of k w] by auto
  ultimately show "\<exists>us w vs. ws = us @ w # vs \<and> waiters (the (semas k w)) \<noteq> [] \<and>
       (\<forall>u\<in>set us. wake_pri k u < wake_pri k w) \<and> (\<forall>v\<in>set vs. wake_pri k v \<le> wake_pri k w) \<and>
       cond_signal cond lock k = sema_up w (k\<lparr>conds := (conds k)(cond \<mapsto> us @ vs)\<rparr>)"
    using w by (intro exI [of _ us] exI [of _ w] exI [of _ vs]) (simp add: c)
qed

theorem cond_signal_cases_witness:
  "\<exists>k. bindR boot (calls 1 [Lock_init_call 100, Cond_init_call 200, Lock_acquire_c 100, Create_call 12288 40 (-1),
       Lock_acquire_c 100, Cond_wait_call 300 200 100]) = Inr k \<and>
     current k = 12288 \<and> conds k 200 = Some [300] \<and> cond_signal 200 100 k = Inl Assertion_failure"
proof -
  obtain k where k: "bindR boot (calls 1 [Lock_init_call 100, Cond_init_call 200, Lock_acquire_c 100, Create_call 12288 40 (-1),
       Lock_acquire_c 100, Cond_wait_call 300 200 100]) = Inr k" "current k = 12288" "\<not> in_external_intr k"
     "thread_current k = Inr (current k)" "holder k 100 = Some (current k)" "conds k 200 = Some [300]"
     "semas k 300 = Some \<lparr>sema_value = 0, waiters = []\<rparr>"
    by (simp add: boot_booted booted_def kernel_eval)
  have "\<forall>w\<in>set [300]. sema_ok k w" using k(7) by (simp add: sema_ok_def)
  from cond_signal_cases [OF _ _ k(3-6) this] k show ?thesis by auto
qed

section \<open>Preemption\<close>

text \<open>
  C29. Waking a thread of higher priority than the running one preempts at once: with interrupts on
  and outside of an interrupt handler, \<open>thread_unblock\<close> returns with the woken thread running and the
  caller at the end of the ready list, provided no thread in the ready list has a priority as high as
  the woken one. The comment in front of the function, inherited from Pintos, says that it does not preempt the
  running thread; that is true only while interrupts are off.
\<close>

theorem unblock_preempts:
  assumes inv: "sched_inv k" and on: "intr_on k" "\<not> in_external_intr k" and ne: "current k \<noteq> idle_thread k"
    and t: "parked k t" "pri_ok k t" and c: "pri_ok k (current k)" "pri k (current k) < pri k t"
    and r: "\<forall>u\<in>set (ready_list k). pri_ok k u \<and> pri k u < pri k t"
  shows "\<exists>k'. thread_unblock t k = Inr k' \<and> current k' = t \<and> sched_inv k' \<and>
     ready_list k' = ready_list k @ [current k]"
proof -
  obtain x y where x: "thr k t = Some x" "status x = THREAD_BLOCKED"
    and y: "thr k (current k) = Some y" "status y = THREAD_RUNNING"
    using t(1) sched_invD(8) [OF inv] by (auto simp: parked_def st_def)
  have tc: "t \<noteq> current k" using x y by auto
  have t0: "t \<noteq> NULL" using x sched_invD(3) [OF inv] by auto
  have px: "priority y < priority x" using c(2) x y by (simp add: pri_def)
  define k1 where "k1 = (unblocked k t x True)\<lparr>intr_on := True, thread_waiting := False\<rparr>"
  have inv1: "sched_inv k1" using unblocked_inv [OF inv t(1) x(1)] by (simp add: k1_def)
  have k1: "current k1 = current k" "thr k1 (current k) = Some y" "\<not> in_external_intr k1"
      "idle_thread k1 = idle_thread k" "ready_list k1 = ready_list k @ [t]"
      "thr k1 t = Some (x\<lparr>status := THREAD_READY\<rparr>)"
    using tc y on(2) by (auto simp: k1_def unblocked_def)
  define k2 where "k2 = yielded k1 y"
  have un: "thread_unblock t k = thread_yield k1"
    using x y tc t0 on px sched_invD(6) [OF inv]
    by (simp add: thread_unblock_def is_thread_def get_thr_def upd_thr_def thread_current_def Let_def
        intr_disable_def intr_set_level_def intr_enable_def k1_def unblocked_def)
  have ty: "thread_yield k1 = schedule k2"
    using k1 y sched_invD(6) [OF inv] ne
    by (simp add: thread_yield_def thread_current_def is_thread_def get_thr_def upd_thr_def push_code_def Let_def
        k2_def yielded_def)
  have k2: "ready_list k2 = ready_list k @ [t, current k]" "\<not> intr_on k2" "current k2 = current k"
    using k1 ne by (simp_all add: k2_def yielded_def)
  have "switch_inv k2" unfolding k2_def by (rule yielded_inv [OF inv1]) (use k1 in simp)
  moreover have pk: "pri k2 u = pri k u" for u
    using tc x y k1 by (auto simp: pri_def k2_def yielded_def k1_def unblocked_def)
  moreover have dk: "thr k2 u = None \<longleftrightarrow> thr k u = None" for u
    using tc x y k1 by (auto simp: k2_def yielded_def k1_def unblocked_def)
  ultimately obtain k' us vs where k': "schedule k2 = Inr k'" "sched_inv k'"
      "ready_list k @ [t, current k] = us @ current k' # vs" "ready_list k' = us @ vs"
      "\<forall>u\<in>set us. pri k u < pri k (current k')" "\<forall>v\<in>set vs. pri k v \<le> pri k (current k')"
    using schedule_highest_priority [of k2] k2 y(1) t(2) c(1) r
    by (auto simp: pri_ok_def)
  have "current k' = t"
  proof (rule ccontr)
    assume ne': "current k' \<noteq> t"
    have "current k' \<in> set (ready_list k) \<union> {t, current k}" using k'(3)
      by (metis Un_iff in_set_conv_decomp list.set(1,2) set_append)
    then have "pri k (current k') < pri k t" using ne' r c(2) by auto
    moreover have "t \<in> set us \<union> set vs"
      using k'(3) ne' by (metis Un_iff in_set_conv_decomp list.set_intros(1) set_ConsD set_append)
    ultimately show False using k'(5,6) by fastforce
  qed
  moreover have "t \<notin> set (ready_list k)" using r by auto
  ultimately have "us = ready_list k" "vs = [current k]"
    using k'(3) tc by (auto simp: append_eq_append_conv2 append_eq_Cons_conv Cons_eq_append_conv)
  then show ?thesis using un ty k' \<open>current k' = t\<close> by auto
qed

text \<open>The booted kernel with one more thread, of priority 40, that has blocked directly.\<close>

definition sample_thread :: "thread_status \<Rightarrow> int \<Rightarrow> thread" where
  "sample_thread s w = \<lparr>tid = 3, pid = -1, status = s, priority = 40, wake_time = w, nice = 0,
     recent_cpu = 0, priority_donations = [], orig_priority = 40, lock_needed = NULL, pagedir_set = False, code = []\<rparr>"

definition sample_parked :: kernel where
  "sample_parked = booted\<lparr>thr := (thr booted)(12288 \<mapsto> sample_thread THREAD_BLOCKED 7),
     all_list := [4096, 8192, 12288]\<rparr>"

lemma sample_parked_views:
  "st sample_parked = [8192 \<mapsto> THREAD_READY, 4096 \<mapsto> THREAD_RUNNING, 12288 \<mapsto> THREAD_BLOCKED]"
  "plc sample_parked = (\<lambda>_. [])"
  by (auto simp: st_def plc_def sample_parked_def sample_thread_def booted_def fun_eq_iff split: place.splits)

lemma sample_parked_inv: "sched_inv sample_parked" "parked sample_parked 12288"
proof -
  have "placed (st sample_parked) (plc sample_parked) 8192 [4096, 8192, 12288]"
    unfolding sample_parked_views by (rule placedI) (auto split: if_splits)
  then show "sched_inv sample_parked"
    by (auto simp: sched_inv_def inv_core_def sample_parked_views codes_ok_def ok_instr_def)
      (auto simp: sample_parked_def sample_thread_def booted_def split: if_splits)
  show "parked sample_parked 12288"
    unfolding parked_def sample_parked_views by (simp add: sample_parked_def booted_def)
qed

theorem unblock_preempts_witness:
  "\<exists>k'. thread_unblock 12288 sample_parked = Inr k' \<and> current k' = 12288 \<and> ready_list k' = [4096]"
proof -
  have p: "pri_ok sample_parked 12288" "pri_ok sample_parked 4096" "pri sample_parked 4096 < pri sample_parked 12288"
    by (simp_all add: pri_ok_def pri_def sample_parked_def sample_thread_def booted_def PRI_MIN_def PRI_MAX_def)
  have "current sample_parked = 4096" "ready_list sample_parked = []" "intr_on sample_parked"
      "\<not> in_external_intr sample_parked" "idle_thread sample_parked = 8192"
    by (simp_all add: sample_parked_def booted_def)
  with p show ?thesis using unblock_preempts [OF sample_parked_inv(1) _ _ _ sample_parked_inv(2)] by auto
qed

section \<open>Sleeping\<close>

lemma wake_loop_exact:
  assumes "sched_inv k" "\<not> intr_on k" "distinct ts" "set ts \<subseteq> set (sleeping_list k)"
  shows "\<exists>k'. wake_loop now ts k = Inr k' \<and> sched_inv k' \<and> \<not> intr_on k' \<and>
     sleeping_list k' = filter (\<lambda>t. t \<notin> set ts \<or> now < wake_time (the (thr k t))) (sleeping_list k) \<and>
     ready_list k' = ready_list k @ filter (\<lambda>t. wake_time (the (thr k t)) \<le> now) ts"
  using assms
proof (induction ts arbitrary: k)
  case (Cons t ts)
  note inv = Cons.prems(1)
  have tin: "t \<in> set (plc k Sleeping)" using Cons.prems(4) by (simp add: plc_def)
  have "st k t = Some THREAD_BLOCKED"
    using placedD(2) [OF sched_invD(2) [OF inv] tin] by (simp add: status_of_def)
  then obtain x where x: "thr k t = Some x" "status x = THREAD_BLOCKED" by (auto simp: st_def)
  obtain c where c: "thr k (current k) = Some c" "status c = THREAD_RUNNING" using sched_invD(8) [OF inv] by blast
  have nz: "t \<noteq> NULL" "current k \<noteq> NULL" using x sched_invD(3,6) [OF inv] by auto
  have tc: "t \<noteq> current k" using x c by auto
  have dist: "distinct (sleeping_list k)"
    using placedD(1) [OF sched_invD(2) [OF inv], of Sleeping] by (simp add: plc_def)
  show ?case
  proof (cases "wake_time x \<le> now")
    case True
    let ?k2 = "k\<lparr>thr := (thr k)(t \<mapsto> x\<lparr>wake_time := -1\<rparr>), sleeping_list := remove1 t (sleeping_list k)\<rparr>"
    let ?k3 = "unblocked ?k2 t (x\<lparr>wake_time := -1\<rparr>) (if priority x > priority c then True else thread_waiting k)"
    have u: "thread_unblock t ?k2 = Inr ?k3"
      using x c nz tc Cons.prems(2)
      by (simp add: thread_unblock_def is_thread_def get_thr_def upd_thr_def thread_current_def Let_def
          intr_disable_def intr_set_level_def unblocked_def)
    have "in_handler k k" using inv Cons.prems(2) by (simp add: in_handler_def)
    moreover have one: "wake_loop now [t] k = Inr ?k3"
      using u True x by (simp add: get_thr_def upd_thr_def)
    ultimately have inv3: "sched_inv ?k3"
      using wake_loop_handler [of k k "[t]" now] Cons.prems(4) by (simp add: in_handler_def)
    have th: "wake_time (the (thr ?k3 s)) = wake_time (the (thr k s))" if "s \<in> set ts \<or> s \<noteq> t" for s
      using that Cons.prems(3) by (auto simp: unblocked_def)
    have "\<not> intr_on ?k3" by (simp add: unblocked_def)
    moreover have "distinct ts" "set ts \<subseteq> set (sleeping_list ?k3)"
      using Cons.prems(3,4) dist by (auto simp: unblocked_def)
    ultimately obtain k' where k': "wake_loop now ts ?k3 = Inr k'" "sched_inv k'" "\<not> intr_on k'"
        "sleeping_list k' = filter (\<lambda>s. s \<notin> set ts \<or> now < wake_time (the (thr ?k3 s))) (sleeping_list ?k3)"
        "ready_list k' = ready_list ?k3 @ filter (\<lambda>s. wake_time (the (thr ?k3 s)) \<le> now) ts"
      using Cons.IH [OF inv3] by blast
    have "sleeping_list k' = filter (\<lambda>s. s \<notin> set (t # ts) \<or> now < wake_time (the (thr k s))) (sleeping_list k)"
    proof -
      have "sleeping_list ?k3 = filter (\<lambda>s. t \<noteq> s) (sleeping_list k)"
        using dist by (simp add: unblocked_def distinct_remove1_removeAll removeAll_filter_not_eq)
      moreover have "t \<noteq> s \<and> (s \<notin> set ts \<or> now < wake_time (the (thr ?k3 s))) \<longleftrightarrow>
          s \<notin> set (t # ts) \<or> now < wake_time (the (thr k s))" for s
        using th [of s] True x by (cases "s = t") auto
      ultimately show ?thesis unfolding k'(4) by (simp only: filter_filter)
    qed
    moreover have "ready_list k' = ready_list k @ filter (\<lambda>s. wake_time (the (thr k s)) \<le> now) (t # ts)"
    proof -
      have "filter (\<lambda>s. wake_time (the (thr ?k3 s)) \<le> now) ts = filter (\<lambda>s. wake_time (the (thr k s)) \<le> now) ts"
        using th by (intro filter_cong refl) simp
      then show ?thesis unfolding k'(5) using True x by (simp add: unblocked_def)
    qed
    moreover have "wake_loop now (t # ts) k = Inr k'"
      using k'(1) u True x by (simp add: get_thr_def upd_thr_def)
    ultimately show ?thesis using k'(2,3) by blast
  next
    case False
    then show ?thesis using Cons.IH [OF inv Cons.prems(2)] Cons.prems(3,4) x
      by (auto simp: get_thr_def intro!: filter_cong)
  qed
qed auto

text \<open>
  C30. The timer tick wakes exactly the sleepers whose time has come: \<open>wake_sleeping_threads\<close> never
  fails in a state of the invariant, the threads whose wake time has been reached leave the sleeping
  list and join the ready list in the order in which they went to sleep, and every other sleeper
  stays asleep.
\<close>

theorem wake_sleeping_threads_exact:
  assumes "sched_inv k" "\<not> intr_on k"
  shows "\<exists>k'. wake_sleeping_threads now k = Inr k' \<and> sched_inv k' \<and>
     sleeping_list k' = filter (\<lambda>t. now < wake_time (the (thr k t))) (sleeping_list k) \<and>
     ready_list k' = ready_list k @ filter (\<lambda>t. wake_time (the (thr k t)) \<le> now) (sleeping_list k)"
proof -
  have "distinct (sleeping_list k)"
    using placedD(1) [OF sched_invD(2) [OF assms(1)], of Sleeping] by (simp add: plc_def)
  then obtain k' where k': "wake_loop now (sleeping_list k) k = Inr k'" "sched_inv k'"
      "sleeping_list k' = filter (\<lambda>t. t \<notin> set (sleeping_list k) \<or> now < wake_time (the (thr k t))) (sleeping_list k)"
      "ready_list k' = ready_list k @ filter (\<lambda>t. wake_time (the (thr k t)) \<le> now) (sleeping_list k)"
    using wake_loop_exact [OF assms, of "sleeping_list k" now] by auto
  have "sleeping_list k' = filter (\<lambda>t. now < wake_time (the (thr k t))) (sleeping_list k)"
    unfolding k'(3) by (intro filter_cong) auto
  then show ?thesis using k'(1,2,4) assms(2) by (simp add: wake_sleeping_threads_def)
qed

definition sample_asleep :: kernel where
  "sample_asleep = booted\<lparr>thr := (thr booted)(12288 \<mapsto> sample_thread THREAD_BLOCKED 7),
     all_list := [4096, 8192, 12288], sleeping_list := [12288], intr_on := False\<rparr>"

lemma sample_asleep_inv: "sched_inv sample_asleep"
proof -
  have v: "st sample_asleep = [8192 \<mapsto> THREAD_READY, 4096 \<mapsto> THREAD_RUNNING, 12288 \<mapsto> THREAD_BLOCKED]"
    "plc sample_asleep = (\<lambda>_. [])(Sleeping := [12288])"
    by (auto simp: st_def plc_def sample_asleep_def sample_thread_def booted_def fun_eq_iff split: place.splits)
  have "placed (st sample_asleep) (plc sample_asleep) 8192 [4096, 8192, 12288]"
    unfolding v by (rule placedI) (auto simp: status_of_def split: if_splits)
  then show ?thesis
    by (auto simp: sched_inv_def inv_core_def v codes_ok_def ok_instr_def)
      (auto simp: sample_asleep_def sample_thread_def booted_def split: if_splits)
qed

theorem wake_sleeping_threads_exact_witness:
  "\<exists>k'. wake_sleeping_threads 7 sample_asleep = Inr k' \<and> sleeping_list k' = [] \<and> ready_list k' = [12288]"
  using wake_sleeping_threads_exact [OF sample_asleep_inv, of 7]
  by (auto simp: sample_asleep_def sample_thread_def booted_def)

section \<open>The multi-level feedback queue\<close>

lemma sdiv_mono: "0 < (m :: int) \<Longrightarrow> x \<le> y \<Longrightarrow> x sdiv m \<le> y sdiv m"
proof -
  assume m: "0 < m" and xy: "x \<le> y"
  consider "0 \<le> x" | "x < 0" "0 \<le> y" | "x < 0" "y < 0" by linarith
  then show ?thesis
  proof cases
    case 1
    then show ?thesis using m xy by (simp add: sdiv_bounds zdiv_mono1)
  next
    case 2
    have "x sdiv m = - ((- x) div m)" "y sdiv m = y div m" using m 2 by (simp_all add: sdiv_bounds)
    moreover have "0 \<le> (- x) div m" "0 \<le> y div m" using m 2 by (simp_all add: pos_imp_zdiv_nonneg_iff)
    ultimately show ?thesis by linarith
  next
    case 3
    have "x sdiv m = - ((- x) div m)" "y sdiv m = - ((- y) div m)" using m 3 by (simp_all add: sdiv_bounds)
    then show ?thesis using m xy by (simp add: zdiv_mono1)
  qed
qed

lemma round_fp_mono:
  assumes "x \<le> y" "- 2147475456 \<le> x" "y < 2147475456"
  shows "round_fp x \<le> round_fp y"
proof -
  have h: "FIXED_POINT_MULTIPLIER sdiv 2 = 8192" by (simp add: FIXED_POINT_MULTIPLIER_def signed_divide_int_def)
  have r: "round_fp z = (if z > 0 then (z + 8192) sdiv 16384 else (z - 8192) sdiv 16384)"
    if "- 2147475456 \<le> z" "z < 2147475456" for z
    using that unfolding round_fp_def h by (simp add: FIXED_POINT_MULTIPLIER_def is_int32_def)
  show ?thesis using assms by (auto simp: r intro!: sdiv_mono)
qed

lemma sdiv_four_range: "is_int32 r \<Longrightarrow> - 536870912 \<le> r sdiv 4 \<and> r sdiv 4 < 536870912"
  using sdiv_error [of 4 r] by (auto simp: is_int32_def abs_if split: if_splits)

lemma round_fp_range:
  assumes "- 536870912 \<le> x" "x < 536870912"
  shows "- 40000 \<le> round_fp x \<and> round_fp x \<le> 40000"
proof -
  have "round_fp (- 536870912) \<le> round_fp x" "round_fp x \<le> round_fp 536870912"
    by (rule round_fp_mono; use assms in simp)+
  moreover have "round_fp (- 536870912) = - 32768" "round_fp 536870912 = 32768"
    by (simp_all add: round_fp_def FIXED_POINT_MULTIPLIER_def is_int32_def signed_divide_int_def sgn_if)
  ultimately show ?thesis by linarith
qed

text \<open>
  The priority computed by the multi-level feedback queue is always between \<open>PRI_MIN\<close> and
  \<open>PRI_MAX\<close>, whatever the thread's fields hold, and it is fair: of two threads with nice values in the
  documented range, the one that has used no more processor time and is no nicer never gets the lower
  priority. No 32-bit operation of the formula overflows there.
\<close>

theorem mlfqs_priority_fair:
  assumes "is_int32 (recent_cpu x)" "is_int32 (recent_cpu y)"
    and "\<bar>nice x\<bar> \<le> 20" "\<bar>nice y\<bar> \<le> 20" "recent_cpu x \<le> recent_cpu y" "nice x \<le> nice y"
  shows "mlfqs_priority y \<le> mlfqs_priority x \<and>
     (\<forall>z. PRI_MIN \<le> mlfqs_priority z \<and> mlfqs_priority z \<le> PRI_MAX)"
proof -
  have nx: "- 20 \<le> nice x" "nice x \<le> 20" "- 20 \<le> nice y" "nice y \<le> 20" using assms(3,4) by auto
  have r: "- 40000 \<le> round_fp (recent_cpu z sdiv 4) \<and> round_fp (recent_cpu z sdiv 4) \<le> 40000"
    if "is_int32 (recent_cpu z)" for z
    using round_fp_range sdiv_four_range [OF that] by blast
  have w: "wrap32 (PRI_MAX - round_fp (recent_cpu z sdiv 4) - wrap32 (nice z * 2))
      = 63 - round_fp (recent_cpu z sdiv 4) - nice z * 2"
    if "is_int32 (recent_cpu z)" "- 20 \<le> nice z" "nice z \<le> 20" for z
    using that r [OF that(1)] by (simp add: PRI_MAX_def is_int32_def)
  have "round_fp (recent_cpu x sdiv 4) \<le> round_fp (recent_cpu y sdiv 4)"
    using sdiv_four_range [OF assms(1)] sdiv_four_range [OF assms(2)] sdiv_mono [OF _ assms(5), of 4]
    by (intro round_fp_mono) simp_all
  then have "mlfqs_priority y \<le> mlfqs_priority x"
    unfolding mlfqs_priority_def Let_def w [OF assms(1) nx(1,2)] w [OF assms(2) nx(3,4)]
    using assms(6) by (simp add: PRI_MIN_def PRI_MAX_def)
  moreover have "PRI_MIN \<le> mlfqs_priority z \<and> mlfqs_priority z \<le> PRI_MAX" for z
    by (auto simp: mlfqs_priority_def Let_def PRI_MIN_def PRI_MAX_def)
  ultimately show ?thesis by blast
qed

theorem mlfqs_priority_fair_witness:
  "mlfqs_priority ((sample_thread THREAD_READY 0)\<lparr>recent_cpu := 81920\<rparr>) \<le> mlfqs_priority (sample_thread THREAD_READY 0)"
  using mlfqs_priority_fair [of "sample_thread THREAD_READY 0" "(sample_thread THREAD_READY 0)\<lparr>recent_cpu := 81920\<rparr>"]
  by (simp add: sample_thread_def is_int32_def)

text \<open>
  The decay of \<open>recent_cpu\<close>: for every load average from 0 to 16384 threads the coefficient
  \<open>2 * load_avg / (2 * load_avg + 1)\<close> is computed without overflow or division by zero and lies in
  the half-open interval from 0 to 1, so \<open>update_recent_cpu\<close> always scales the old value down.
\<close>

theorem recent_cpu_decay:
  assumes "0 \<le> load_avg k" "load_avg k \<le> 268435456"
  shows "\<exists>a. 0 \<le> a \<and> a < FIXED_POINT_MULTIPLIER \<and> update_recent_cpu t k =
     upd_thr t (\<lambda>x. x\<lparr>recent_cpu := wrap32 (multiply (recent_cpu x) a + to_fp (nice x))\<rparr>) k"
proof -
  let ?l = "2 * load_avg k"
  define a where "a = (?l * 16384) div (?l + 16384)"
  have l: "0 \<le> ?l" "?l \<le> 536870912" using assms by simp_all
  have a: "0 \<le> a" "a < 16384"
  proof -
    show "0 \<le> a" using l by (simp add: a_def pos_imp_zdiv_nonneg_iff)
    show "a < 16384"
    proof (rule ccontr)
      assume "\<not> a < 16384"
      then have "16384 * (?l + 16384) \<le> a * (?l + 16384)" using l by (intro mult_right_mono) simp_all
      also have "a * (?l + 16384) = ?l * 16384 - (?l * 16384) mod (?l + 16384)"
        by (simp add: a_def minus_mod_eq_div_mult)
      also have "\<dots> \<le> ?l * 16384" using l by simp
      finally show False by simp
    qed
  qed
  have "wrap32 ?l = ?l" "wrap32 (?l + 16384) = ?l + 16384" using l by (simp_all add: is_int32_def)
  moreover have "to_fp 1 = 16384" by (simp add: to_fp_eq)
  moreover have "(?l * 16384) sdiv (?l + 16384) = a" unfolding a_def using l by (intro sdiv_bounds(1)) simp_all
  ultimately have "divide_fp (wrap32 ?l) (wrap32 (wrap32 ?l + to_fp 1)) = Inr a"
    using l a by (simp add: divide_fp_def FIXED_POINT_MULTIPLIER_def is_int32_def)
  then show ?thesis using a by (auto simp: update_recent_cpu_def FIXED_POINT_MULTIPLIER_def)
qed

theorem recent_cpu_decay_witness:
  "\<exists>a. 0 \<le> a \<and> a < FIXED_POINT_MULTIPLIER \<and> update_recent_cpu 4096 booted =
     upd_thr 4096 (\<lambda>x. x\<lparr>recent_cpu := wrap32 (multiply (recent_cpu x) a + to_fp (nice x))\<rparr>) booted"
  by (rule recent_cpu_decay) (simp_all add: booted_def)

end
