(* ===== verification/Lock_Invariant.thy ===== *)
theory Lock_Invariant
  imports Thread_Properties
begin

text \<open>
  Mutual exclusion. A lock is a semaphore with value 1; \<open>holder\<close> is set after the semaphore has been
  taken, with interrupts possibly on in between, and cleared before it is given back. The invariant
  counts the one token of a lock: it is in the semaphore, or a thread is the holder, or one thread
  has taken it and is about to become the holder.
\<close>

declare neq0_conv [iff del] bot_nat_0.not_eq_extremum [simp del]

section \<open>The part of the state that matters for locks\<close>

fun relevant :: "instr \<Rightarrow> bool" where
  "relevant (Lock_own l) = True"
| "relevant (Sema_loop p b) = True"
| "relevant (Sema_down_call p) = True"
| "relevant i = False"

definition rel :: "kernel \<Rightarrow> addr \<Rightarrow> instr list" where
  "rel k t = (case thr k t of None \<Rightarrow> [] | Some x \<Rightarrow> filter relevant (code x))"

definition vals :: "kernel \<Rightarrow> addr \<Rightarrow> u32 option" where
  "vals k p = map_option sema_value (semas k p)"

definition lview :: "kernel \<Rightarrow> (addr \<rightharpoonup> addr) \<times> (addr \<rightharpoonup> u32) \<times> (addr \<rightharpoonup> addr list) \<times> (addr \<Rightarrow> instr list)" where
  "lview k = (holder k, vals k, conds k, rel k)"

text \<open>
  How often a thread has taken the token of \<open>l\<close> and not yet become the holder: a pending \<open>Lock_own\<close>
  counts unless the thread still waits in \<open>sema_down\<close> in front of it.
\<close>

fun granted :: "addr \<Rightarrow> instr list \<Rightarrow> nat" where
  "granted l [] = 0"
| "granted l (i # is) = (case i of
     Lock_own m \<Rightarrow> (if m = l then 1 else 0) + granted l is
   | Sema_loop p b \<Rightarrow> (if p = lock_sema l then granted l is - 1 else granted l is)
   | _ \<Rightarrow> granted l is)"

definition plain :: "(addr \<rightharpoonup> addr) \<Rightarrow> (addr \<rightharpoonup> u32) \<Rightarrow> addr \<Rightarrow> bool" where
  "plain H V p \<longleftrightarrow> V p \<noteq> None \<and> (\<forall>l. H l \<noteq> None \<longrightarrow> p \<noteq> lock_sema l)"

fun code_ok :: "(addr \<Rightarrow> bool) \<Rightarrow> (addr \<rightharpoonup> addr) \<Rightarrow> instr list \<Rightarrow> bool" where
  "code_ok pl H [] = True"
| "code_ok pl H (i # is) = ((case i of
     Lock_own l \<Rightarrow> H l \<noteq> None
   | Sema_loop p b \<Rightarrow> pl p \<or> (\<exists>l js. is = Lock_own l # js \<and> p = lock_sema l)
   | Sema_down_call p \<Rightarrow> pl p
   | _ \<Rightarrow> True) \<and> code_ok pl H is)"

definition token :: "addr \<Rightarrow> u32 option \<Rightarrow> addr \<Rightarrow> (addr \<Rightarrow> instr list) \<Rightarrow> bool" where
  "token l v h G \<longleftrightarrow>
     (v = Some 1 \<and> h = NULL \<and> (\<forall>t. granted l (G t) = 0)) \<or>
     (v = Some 0 \<and> h \<noteq> NULL \<and> (\<forall>t. granted l (G t) = 0)) \<or>
     (v = Some 0 \<and> h = NULL \<and> (\<exists>t. granted l (G t) = 1 \<and> (\<forall>u. u \<noteq> t \<longrightarrow> granted l (G u) = 0)))"

definition lock_inv :: "(addr \<rightharpoonup> addr) \<times> (addr \<rightharpoonup> u32) \<times> (addr \<rightharpoonup> addr list) \<times> (addr \<Rightarrow> instr list) \<Rightarrow> bool" where
  "lock_inv lv \<longleftrightarrow> (case lv of (H, V, C, G) \<Rightarrow>
     (\<forall>l h. H l = Some h \<longrightarrow> token l (V (lock_sema l)) h G) \<and>
     (\<forall>t. code_ok (plain H V) H (G t)) \<and>
     (\<forall>c ws. C c = Some ws \<longrightarrow> (\<forall>w\<in>set ws. plain H V w)))"

lemma lock_sema_inj [simp]: "lock_sema l = lock_sema m \<longleftrightarrow> l = m"
  by (simp add: lock_sema_def)

lemma lock_invD:
  assumes "lock_inv (H, V, C, G)"
  shows "H l = Some h \<Longrightarrow> token l (V (lock_sema l)) h G" "code_ok (plain H V) H (G t)"
    "C c = Some ws \<Longrightarrow> w \<in> set ws \<Longrightarrow> plain H V w"
  using assms by (auto simp: lock_inv_def)

lemma code_ok_mono:
  assumes "code_ok pl H is" "\<And>p. pl p \<Longrightarrow> pl' p" "\<And>l. H l \<noteq> None \<Longrightarrow> H' l \<noteq> None"
  shows "code_ok pl' H' is"
proof -
  have "\<exists>h'. H' l = Some h'" if "H l = Some h" for l h using assms(3) [of l] that by auto
  then show ?thesis using assms(1) by (induction "is") (auto split: instr.splits dest: assms(2))
qed

lemma granted_no_lock: "code_ok pl H is \<Longrightarrow> H l = None \<Longrightarrow> granted l is = 0"
  by (induction "is") (auto split: instr.splits)

section \<open>Moves of the token\<close>

text \<open>The thread starts to wait.\<close>

lemma lock_inv_wait:
  assumes inv: "lock_inv (H, V, C, G)" and l: "H l \<noteq> None"
  shows "lock_inv (H, V, C, G(t := Sema_loop (lock_sema l) b # Lock_own l # G t))"
proof -
  let ?G = "G(t := Sema_loop (lock_sema l) b # Lock_own l # G t)"
  have g: "granted m (?G u) = granted m (G u)" for m u by simp
  then have "token m v h ?G = token m v h G" for m v h by (simp add: token_def)
  moreover have "code_ok (plain H V) H (?G u)" for u using lock_invD(2) [OF inv] l by simp
  ultimately show ?thesis using inv by (simp add: lock_inv_def)
qed

text \<open>The thread takes the token out of the semaphore.\<close>

lemma lock_inv_grant:
  assumes inv: "lock_inv (H, V, C, G)" and l: "H l = Some h" and v: "V (lock_sema l) = Some v" "v \<noteq> 0"
    and R: "code_ok (plain H V) H R" "\<And>m. granted m R = granted m (G t)"
  shows "lock_inv (H, V(lock_sema l \<mapsto> v - 1), C, G(t := Lock_own l # R))"
proof -
  let ?G = "G(t := Lock_own l # R)" and ?V = "V(lock_sema l \<mapsto> v - 1)"
  have tk: "v = 1" "h = NULL" "\<forall>t. granted l (G t) = 0"
    using lock_invD(1) [OF inv l] v by (auto simp: token_def)
  have "token l (?V (lock_sema l)) h ?G"
    unfolding token_def using tk R(2) by (intro disjI2) (auto intro: exI [of _ t])
  moreover have "token m (?V (lock_sema m)) h' ?G" if "H m = Some h'" "m \<noteq> l" for m h'
  proof -
    have "granted m (?G u) = granted m (G u)" for u using R(2) that by simp
    then show ?thesis using lock_invD(1) [OF inv that(1)] that(2) by (simp add: token_def)
  qed
  moreover have pl: "plain H ?V = plain H V" using l v by (auto simp: plain_def fun_eq_iff)
  moreover have "code_ok (plain H V) H (?G u)" for u using lock_invD(2) [OF inv] R(1) l by simp
  ultimately show ?thesis using inv l lock_invD(3) [OF inv] by (auto simp: lock_inv_def)
qed

text \<open>The thread becomes the holder.\<close>

lemma lock_inv_own:
  assumes inv: "lock_inv (H, V, C, G)" and G: "G t = Lock_own l # R" and t: "t \<noteq> NULL"
  shows "H l = Some NULL" "lock_inv (H(l \<mapsto> t), V, C, G(t := R))"
proof -
  obtain h where h: "H l = Some h" using lock_invD(2) [OF inv, of t] G by auto
  have "1 \<le> granted l (G t)" using G by simp
  then have tk: "h = NULL" "V (lock_sema l) = Some 0" "granted l (G t) = 1" "\<forall>u. u \<noteq> t \<longrightarrow> granted l (G u) = 0"
    using lock_invD(1) [OF inv h] by (auto simp: token_def) (metis One_nat_def not_one_le_zero)+
  show "H l = Some NULL" using h tk(1) by simp
  let ?G = "G(t := R)" and ?H = "H(l \<mapsto> t)"
  have "token l (V (lock_sema l)) t ?G" using tk t G by (auto simp: token_def)
  moreover have "token m (V (lock_sema m)) h' ?G" if "H m = Some h'" "m \<noteq> l" for m h'
  proof -
    have "granted m (?G u) = granted m (G u)" for u using G that(2) by simp
    then show ?thesis using lock_invD(1) [OF inv that(1)] by (simp add: token_def)
  qed
  moreover have pl: "plain ?H V = plain H V" using h by (auto simp: plain_def fun_eq_iff)
  moreover have "code_ok (plain H V) ?H (?G u)" for u
  proof -
    have "code_ok (plain H V) H (?G u)" using lock_invD(2) [OF inv, of t] lock_invD(2) [OF inv, of u] G by auto
    then show ?thesis by (rule code_ok_mono) auto
  qed
  ultimately show "lock_inv (?H, V, C, ?G)" using lock_invD(3) [OF inv] by (auto simp: lock_inv_def)
qed

text \<open>The holder gives the token back.\<close>

lemma lock_inv_release:
  assumes inv: "lock_inv (H, V, C, G)" and h: "H l = Some h" "h \<noteq> NULL" and v: "V (lock_sema l) = Some v"
  shows "lock_inv (H(l \<mapsto> NULL), V(lock_sema l \<mapsto> v + 1), C, G)"
proof -
  have tk: "v = 0" "\<forall>u. granted l (G u) = 0" using lock_invD(1) [OF inv h(1)] h(2) v by (auto simp: token_def)
  have pl: "plain (H(l \<mapsto> NULL)) (V(lock_sema l \<mapsto> v + 1)) = plain H V"
    using h v by (auto simp: plain_def fun_eq_iff)
  have "code_ok (plain H V) (H(l \<mapsto> NULL)) (G u)" for u
    using lock_invD(2) [OF inv] by (rule code_ok_mono) auto
  then show ?thesis
    using tk lock_invD(1,3) [OF inv] pl by (auto simp: lock_inv_def token_def)
qed

text \<open>A semaphore that belongs to no lock, and new locks.\<close>

lemma lock_inv_plain_value:
  assumes inv: "lock_inv (H, V, C, G)" and p: "\<And>l. H l \<noteq> None \<Longrightarrow> p \<noteq> lock_sema l"
  shows "lock_inv (H, V(p \<mapsto> v), C, G)"
proof -
  have pl: "plain H V q \<Longrightarrow> plain H (V(p \<mapsto> v)) q" for q by (auto simp: plain_def)
  have "code_ok (plain H (V(p \<mapsto> v))) H (G u)" for u
    using lock_invD(2) [OF inv] pl by (rule code_ok_mono) auto
  moreover have "token l ((V(p \<mapsto> v)) (lock_sema l)) h G" if "H l = Some h" for l h
    using lock_invD(1) [OF inv that] p [of l] that by auto
  ultimately show ?thesis using lock_invD(3) [OF inv] pl by (auto simp: lock_inv_def)
qed

lemma lock_inv_init:
  assumes inv: "lock_inv (H, V, C, G)" and l: "H l = None" "V (lock_sema l) = None"
  shows "lock_inv (H(l \<mapsto> NULL), V(lock_sema l \<mapsto> 1), C, G)"
proof -
  let ?H = "H(l \<mapsto> NULL)" and ?V = "V(lock_sema l \<mapsto> 1)"
  have pl: "plain H V q \<Longrightarrow> plain ?H ?V q" for q using l by (auto simp: plain_def)
  have "code_ok (plain ?H ?V) ?H (G u)" for u using lock_invD(2) [OF inv] pl by (rule code_ok_mono) auto
  moreover have "token l (Some 1) NULL G"
    using granted_no_lock [OF lock_invD(2) [OF inv] l(1)] by (simp add: token_def)
  ultimately show ?thesis using lock_invD(1,3) [OF inv] pl by (auto simp: lock_inv_def)
qed

lemma lock_inv_conds:
  assumes "lock_inv (H, V, C, G)" "\<And>c ws w. C' c = Some ws \<Longrightarrow> w \<in> set ws \<Longrightarrow> plain H V w"
  shows "lock_inv (H, V, C', G)"
  using assms by (auto simp: lock_inv_def)

lemma lock_inv_code:
  assumes inv: "lock_inv (H, V, C, G)" and R: "code_ok (plain H V) H R"
    and g: "\<And>l. H l \<noteq> None \<Longrightarrow> granted l R = granted l (G t)"
  shows "lock_inv (H, V, C, G(t := R))"
proof -
  have "token l v h (G(t := R)) = token l v h G" if "H l = Some h'" for l v h h'
  proof -
    have "granted l ((G(t := R)) u) = granted l (G u)" for u using g [of l] that by simp
    then show ?thesis by (simp add: token_def)
  qed
  then show ?thesis using inv R by (auto simp: lock_inv_def)
qed

section \<open>Operations that leave locks alone\<close>

lemma lview_thr:
  "thr k t = Some x \<Longrightarrow> filter relevant (code y) = filter relevant (code x) \<Longrightarrow>
   lview (k\<lparr>thr := (thr k)(t \<mapsto> y)\<rparr>) = lview k"
  by (auto simp: lview_def rel_def vals_def fun_eq_iff)

lemma lview_irrelevant [simp]:
  "lview (k\<lparr>intr_on := b\<rparr>) = lview k" "lview (k\<lparr>in_external_intr := b\<rparr>) = lview k"
  "lview (k\<lparr>yield_on_return := b\<rparr>) = lview k" "lview (k\<lparr>thread_waiting := b\<rparr>) = lview k"
  "lview (k\<lparr>thread_ticks := w\<rparr>) = lview k" "lview (k\<lparr>idle_ticks := n\<rparr>) = lview k"
  "lview (k\<lparr>kernel_ticks := n\<rparr>) = lview k" "lview (k\<lparr>user_ticks := n\<rparr>) = lview k"
  "lview (k\<lparr>ticks := n\<rparr>) = lview k" "lview (k\<lparr>next_tid := n\<rparr>) = lview k"
  "lview (k\<lparr>load_avg := n\<rparr>) = lview k" "lview (k\<lparr>load_coefficient := n\<rparr>) = lview k"
  "lview (k\<lparr>current := t\<rparr>) = lview k" "lview (k\<lparr>ready_list := ts\<rparr>) = lview k"
  "lview (k\<lparr>sleeping_list := ts\<rparr>) = lview k" "lview (k\<lparr>all_list := ts\<rparr>) = lview k"
  "lview (k\<lparr>idle_thread := t\<rparr>) = lview k" "lview (intr_disable k) = lview k"
  by (simp_all add: lview_def rel_def vals_def fun_eq_iff intr_disable_def)

lemma lview_upd_thr:
  "upd_thr t f k = Inr k' \<Longrightarrow> (\<And>x. filter relevant (code (f x)) = filter relevant (code x)) \<Longrightarrow> lview k' = lview k"
  by (auto simp: acc_eqs intro: lview_thr)

lemma lview_push: "push_code i k = Inr k' \<Longrightarrow> \<not> relevant i \<Longrightarrow> lview k' = lview k"
  unfolding push_code_def by (erule lview_upd_thr) simp

lemma lview_push_relevant:
  "push_code i k = Inr k' \<Longrightarrow> relevant i \<Longrightarrow>
   lview k' = (holder k, vals k, conds k, (rel k)(current k := i # rel k (current k))) \<and> current k' = current k"
  by (auto simp: acc_eqs lview_def rel_def vals_def fun_eq_iff)

lemma lview_schedule:
  assumes "schedule k = Inr k'" "st k (current k) \<noteq> Some THREAD_DYING \<or> rel k (current k) = []"
  shows "lview k' = lview k"
  using assms(1)
proof (cases rule: schedule_Inr)
  case (1 nxt x k1)
  have "lview k1 = lview k" using 1(4) lview_thr [OF 1(2), of "x\<lparr>status := THREAD_RUNNING\<rparr>"]
    by (auto simp: lview_def vals_def rel_def fun_eq_iff)
  moreover have "lview (k1\<lparr>thr := (thr k1)(current k := None)\<rparr>) = lview k1" if "rel k1 (current k) = []"
    using that by (auto simp: lview_def rel_def vals_def fun_eq_iff)
  ultimately show ?thesis using 1(5) assms(2) by (auto simp: lview_def)
qed

lemma lview_yield: "thread_yield k = Inr k' \<Longrightarrow> lview k' = lview k"
proof -
  assume "thread_yield k = Inr k'"
  then obtain x where x: "thr k (current k) = Some x" and s: "schedule (yielded k x) = Inr k'"
    by (auto simp: thread_yield_eq)
  have "lview (yielded k x) = lview k" using x by (auto simp: yielded_def lview_def rel_def vals_def fun_eq_iff)
  then show ?thesis using lview_schedule [OF s] x by (simp add: yielded_def st_def)
qed

lemma lview_set_level: "intr_set_level b k = Inr k' \<Longrightarrow> lview k' = lview k"
  by (auto simp: intr_set_level_def intr_enable_def Let_def acc_eqs dest: lview_yield split: if_splits)

lemma lview_unblock: "thread_unblock t k = Inr k' \<Longrightarrow> lview k' = lview k"
proof -
  assume "thread_unblock t k = Inr k'"
  then obtain x w where x: "thr k t = Some x" and s: "intr_set_level (intr_on k) (unblocked k t x w) = Inr k'"
    by (auto simp: thread_unblock_eq)
  have "lview (unblocked k t x w) = lview k"
    using x by (auto simp: unblocked_def lview_def rel_def vals_def fun_eq_iff)
  then show ?thesis using lview_set_level [OF s] by simp
qed

lemma lview_block: "thread_block k = Inr k' \<Longrightarrow> lview k' = lview k"
  using lview_schedule [of _ k'] lview_thr [of k "current k"]
  by (fastforce simp: thread_block_def acc_eqs st_def)

lemma lview_exit: "thread_exit k = Inr k' \<Longrightarrow> rel k (current k) = [] \<Longrightarrow> lview k' = lview k"
proof -
  assume e: "thread_exit k = Inr k'" and r: "rel k (current k) = []"
  then obtain x where x: "thr k (current k) = Some x"
    and s: "schedule (k\<lparr>intr_on := False, all_list := remove1 (current k) (all_list k),
       thr := (thr k)(current k \<mapsto> x\<lparr>status := THREAD_DYING\<rparr>)\<rparr>) = Inr k'"
    by (auto simp: thread_exit_def acc_eqs Let_def intr_disable_def)
  have "lview (k\<lparr>intr_on := False, all_list := remove1 (current k) (all_list k),
       thr := (thr k)(current k \<mapsto> x\<lparr>status := THREAD_DYING\<rparr>)\<rparr>) = lview k"
    using x by (auto simp: lview_def rel_def vals_def fun_eq_iff)
  then show ?thesis using lview_schedule [OF s] r x by (auto simp: rel_def)
qed


lemma lview_donate_loop: "donate_loop n d l k = Inr k' \<Longrightarrow> lview k' = lview k"
proof (induction n arbitrary: d l k)
  case (Suc n)
  then show ?case
    by (auto simp: bindR_eq_Inr split: if_splits dest!: Suc.IH dest: lview_upd_thr)
qed (auto split: if_splits)

lemma lview_donate: "thread_donate_priority n t k = Inr k' \<Longrightarrow> lview k' = lview k"
  by (auto simp: thread_donate_priority_def bindR_eq_Inr dest!: lview_donate_loop lview_upd_thr)

lemma lview_priority: "thread_update_mlfqs_priority t k = Inr k' \<Longrightarrow> lview k' = lview k"
  by (auto simp: thread_update_mlfqs_priority_def dest: lview_upd_thr split: if_splits)

lemma lview_recent_cpu: "update_recent_cpu t k = Inr k' \<Longrightarrow> lview k' = lview k"
  by (auto simp: update_recent_cpu_def bindR_eq_Inr dest!: lview_upd_thr)

lemma lview_foreach:
  assumes "\<And>t k k'. f t k = Inr k' \<Longrightarrow> lview k' = lview k"
  shows "thread_foreach f k = Inr k' \<Longrightarrow> lview k' = lview k"
proof -
  have "foreach_loop f ts k = Inr k' \<Longrightarrow> lview k' = lview k" for ts k
    by (induction ts arbitrary: k) (auto simp: bindR_eq_Inr dest!: assms)
  then show "thread_foreach f k = Inr k' \<Longrightarrow> lview k' = lview k" by (auto simp: thread_foreach_def bindR_eq_Inr)
qed

lemma lview_foreach_updates:
  "thread_foreach thread_update_mlfqs_priority k = Inr k' \<Longrightarrow> lview k' = lview k"
  "thread_foreach update_recent_cpu k = Inr k' \<Longrightarrow> lview k' = lview k"
  by (erule lview_foreach [rotated], erule lview_priority lview_recent_cpu)+

lemma lview_load_avg: "update_load_avg k = Inr k' \<Longrightarrow> lview k' = lview k"
  by (auto simp: update_load_avg_def bindR_eq_Inr)

lemma lview_yield_on_return: "intr_yield_on_return k = Inr k' \<Longrightarrow> lview k' = lview k"
  by (auto simp: intr_yield_on_return_def bindR_eq_Inr)

lemma lview_mlfqs_tick: "mlfqs_tick t k = Inr k' \<Longrightarrow> lview k' = lview k"
proof -
  assume m: "mlfqs_tick t k = Inr k'"
  obtain k1 k2 b c where k1: "upd_thr t (\<lambda>x. x\<lparr>recent_cpu := add_fp (recent_cpu x) 1\<rparr>) k = Inr k1"
    and k2: "(if b then bindR (update_load_avg k1) (\<lambda>k.
              bindR (divide_fp (wrap32 (2 * load_avg k)) (add_fp (wrap32 (2 * load_avg k)) 1)) (\<lambda>c.
              thread_foreach update_recent_cpu (k\<lparr>load_coefficient := c\<rparr>))) else Inr k1) = Inr k2"
    and k': "(if c then bindR (thread_foreach thread_update_mlfqs_priority k2) intr_yield_on_return
              else Inr k2) = Inr k'"
    using m unfolding mlfqs_tick_def Let_def bindR_eq_Inr by blast
  have "lview k1 = lview k" using lview_upd_thr [OF k1] by simp
  moreover have "lview k2 = lview k1"
    using k2 by (cases b) (auto simp: bindR_eq_Inr dest!: lview_load_avg lview_foreach_updates(2))
  moreover have "lview k' = lview k2"
    using k' by (cases c) (auto simp: bindR_eq_Inr dest!: lview_yield_on_return lview_foreach_updates(1))
  ultimately show ?thesis by simp
qed

lemma lview_wake_loop: "wake_loop n ts k = Inr k' \<Longrightarrow> lview k' = lview k"
proof (induction ts arbitrary: k)
  case (Cons t ts)
  then show ?case by (auto simp: bindR_eq_Inr split: if_splits dest!: Cons.IH lview_unblock lview_upd_thr)
qed simp

lemma lview_tick: "thread_tick k = Inr k' \<Longrightarrow> lview k' = lview k"
  by (auto simp: thread_tick_def preempt_tick_def count_tick_def wake_sleeping_threads_def bindR_eq_Inr Let_def
      dest!: lview_wake_loop lview_mlfqs_tick lview_yield_on_return split: if_splits)

lemma lview_handler: "intr_handler timer_interrupt k = Inr k' \<Longrightarrow> lview k' = lview k"
  by (auto simp: intr_handler_def timer_interrupt_def bindR_eq_Inr Let_def
      dest!: lview_yield lview_tick lview_push split: if_splits)

lemma lview_set_priority: "thread_set_priority n k = Inr k' \<Longrightarrow> lview k' = lview k"
  by (auto simp: thread_set_priority_def bindR_eq_Inr dest!: lview_yield lview_upd_thr)

lemma lview_set_nice: "thread_set_nice n k = Inr k' \<Longrightarrow> lview k' = lview k"
  by (auto simp: thread_set_nice_def bindR_eq_Inr dest!: lview_yield lview_priority lview_upd_thr)

lemma lview_timer_sleep: "timer_sleep n k = Inr k' \<Longrightarrow> lview k' = lview k"
  by (auto simp: timer_sleep_def bindR_eq_Inr Let_def dest!: lview_set_level lview_push)

lemma lview_sleep_from: "sleep_from n m k = Inr k' \<Longrightarrow> lview k' = lview k"
  by (auto simp: sleep_from_def thread_sleep_def bindR_eq_Inr Let_def dest!: lview_block lview_push lview_upd_thr)

lemma lview_create:
  assumes "thread_create_ptr page prio f p k = Inr k'" "page \<notin> dom (thr k)" "thr k (current k) = Some x"
  shows "lview k' = lview k"
proof (cases "page = NULL")
  case False
  then obtain k1 where p: "push_code (Create_pid page p f) k = Inr k1" and i: "init_thread page prio k1 = Inr k'"
    using assms(1) by (auto simp: thread_create_ptr_def bindR_eq_Inr)
  have "thr k1 page = None" using p assms(2,3) by (auto simp: acc_eqs)
  then have "lview k' = lview k1"
    using i by (auto simp: init_thread_def bindR_eq_Inr Let_def lview_def rel_def vals_def fun_eq_iff intr_disable_def
        dest!: lview_set_level)
  then show ?thesis using lview_push [OF p] by simp
qed (use assms in \<open>simp add: thread_create_ptr_def\<close>)

lemma lview_create_unblock: "create_unblock t f k = Inr k' \<Longrightarrow> lview k' = lview k"
  by (auto simp: create_unblock_def kernel_thread_def bindR_eq_Inr split: thread_func.splits
      dest!: lview_unblock lview_upd_thr)


section \<open>Operations on semaphores, locks and condition variables\<close>

lemma lview_set_sema [simp]: "lview (set_sema p s k) = (holder k, (vals k)(p \<mapsto> sema_value s), conds k, rel k)"
  by (simp add: lview_def set_sema_def vals_def rel_def fun_eq_iff)

lemma vals_Some: "semas k p = Some s \<Longrightarrow> vals k p = Some (sema_value s)"
  by (simp add: vals_def)

lemma intr_disable_fields [simp]:
  "vals (intr_disable k) = vals k" "rel (intr_disable k) = rel k" "holder (intr_disable k) = holder k"
  "conds (intr_disable k) = conds k" "current (intr_disable k) = current k" "semas (intr_disable k) = semas k"
  by (simp_all add: intr_disable_def vals_def rel_def fun_eq_iff)

lemma vals_rel_fields [simp]:
  "vals (k\<lparr>holder := h\<rparr>) = vals k" "rel (k\<lparr>holder := h\<rparr>) = rel k"
  "vals (k\<lparr>conds := c\<rparr>) = vals k" "rel (k\<lparr>conds := c\<rparr>) = rel k"
  by (simp_all add: vals_def rel_def fun_eq_iff)

text \<open>The loop of \<open>sema_down\<close>, with the instruction that runs it taken off the thread's code.\<close>

lemma sema_loop_lock:
  assumes inv: "lock_inv (holder k, vals k, conds k, (rel k)(current k := Sema_loop p b # rel k (current k)))"
    and l: "sema_loop p b k = Inr k'"
  shows "lock_inv (lview k')"
proof -
  let ?H = "holder k" and ?V = "vals k" and ?R = "rel k (current k)"
  let ?G = "(rel k)(current k := Sema_loop p b # ?R)"
  from l obtain s :: semaphore where s: "semas k p = Some s" by (auto simp: sema_loop_def acc_eqs)
  note vp = vals_Some [OF s]
  have c: "code_ok (plain ?H ?V) ?H (Sema_loop p b # ?R)" using lock_invD(2) [OF inv, of "current k"] by simp
  show ?thesis
  proof (cases "sema_value s = 0")
    case True
    let ?k = "set_sema p (s\<lparr>waiters := waiters s @ [current k]\<rparr>) k"
    have same: "current ?k = current k" "lview ?k = lview k"
      using vp by (auto simp: set_sema_def lview_def fun_upd_idem) (simp_all add: vals_def rel_def fun_eq_iff s)
    from True l s obtain k1 where p: "push_code (Sema_loop p b) ?k = Inr k1" and t: "thread_block k1 = Inr k'"
      by (auto simp: sema_loop_def bindR_eq_Inr get_sema_eq Let_def thread_current_eq)
    have "lview k1 = (?H, ?V, conds k, ?G)"
      using lview_push_relevant [OF p] same by (auto simp: lview_def)
    then show ?thesis using lview_block [OF t] inv by simp
  next
    case False
    then have "lview k' = (?H, ?V(p \<mapsto> sema_value s - 1), conds k, rel k)"
      using l s by (auto simp: sema_loop_def acc_eqs dest!: lview_set_level)
    moreover from c consider "plain ?H ?V p" | m js where "?R = Lock_own m # js" "p = lock_sema m" by auto
    then have "lock_inv (?H, ?V(p \<mapsto> sema_value s - 1), conds k, rel k)"
    proof cases
      case 1
      have "lock_inv (?H, ?V, conds k, ?G(current k := ?R))"
        by (rule lock_inv_code [OF inv]) (use c 1 in \<open>auto simp: plain_def\<close>)
      then show ?thesis using 1 by (intro lock_inv_plain_value) (auto simp: plain_def)
    next
      case (2 m js)
      then obtain h where h: "?H m = Some h" using c by auto
      have "lock_inv (?H, ?V(lock_sema m \<mapsto> sema_value s - 1), conds k, ?G(current k := Lock_own m # js))"
        by (rule lock_inv_grant [OF inv h _ False]) (use c 2 vp in auto)
      then show ?thesis using 2 by (simp add: fun_upd_idem)
    qed
    ultimately show ?thesis by simp
  qed
qed

lemma sema_down_lock:
  assumes "lock_inv (holder k, vals k, conds k, (rel k)(current k := Sema_loop p (intr_on k) # rel k (current k)))"
    and "sema_down p k = Inr k'"
  shows "lock_inv (lview k')"
proof -
  have "sema_loop p (intr_on k) (intr_disable k) = Inr k'" using assms(2) by (auto simp: sema_down_def bindR_eq_Inr)
  from sema_loop_lock [OF _ this] assms(1) show ?thesis by simp
qed

lemma sema_down_plain:
  assumes inv: "lock_inv (lview k)" and p: "p \<notin> lock_semas k" and d: "sema_down p k = Inr k'"
  shows "lock_inv (lview k')"
proof -
  from d have "vals k p \<noteq> None" by (auto simp: sema_down_def sema_loop_def acc_eqs intr_disable_def vals_def)
  then have pl: "plain (holder k) (vals k) p" using p by (auto simp: plain_def lock_semas_def)
  note i = inv [unfolded lview_def]
  have "lock_inv (holder k, vals k, conds k, (rel k)(current k := Sema_loop p (intr_on k) # rel k (current k)))"
    by (rule lock_inv_code [OF i]) (use pl lock_invD(2) [OF i] in \<open>auto simp: plain_def\<close>)
  then show ?thesis using d by (rule sema_down_lock)
qed

lemma lview_acquire_prelude:
  assumes "lock_acquire fuel l k = Inr k'"
  obtains h k1 k2 where "holder k l = Some h" "lview k1 = lview k"
    "push_code (Lock_own l) k1 = Inr k2" "sema_down (lock_sema l) k2 = Inr k'"
proof -
  from assms obtain h k1 k2 where a: "holder k l = Some h"
    "(if h \<noteq> NULL then bindR (get_thr k h) (\<lambda>x. bindR (thread_get_priority k) (\<lambda>p.
        if priority x < p then bindR (thread_donate_priority fuel h k) (\<lambda>k.
           upd_thr (current k) (\<lambda>x. x\<lparr>lock_needed := l\<rparr>) k) else Inr k)) else Inr k) = Inr k1"
    and b: "push_code (Lock_own l) k1 = Inr k2" "sema_down (lock_sema l) k2 = Inr k'"
    unfolding lock_acquire_def bindR_eq_Inr get_holder_eq by blast
  have "lview k1 = lview k"
    using a(2) by (auto simp: bindR_eq_Inr split: if_splits dest!: lview_donate lview_upd_thr)
  then show ?thesis using that a(1) b by blast
qed

lemma lock_acquire_lock:
  assumes inv: "lock_inv (lview k)" and a: "lock_acquire fuel l k = Inr k'"
  shows "lock_inv (lview k')"
  using a
proof (cases rule: lview_acquire_prelude)
  case (1 h k1 k2)
  have k1: "holder k1 = holder k" "vals k1 = vals k" "conds k1 = conds k" "rel k1 = rel k"
    using 1(2) by (simp_all add: lview_def)
  note k2 = lview_push_relevant [OF 1(3), simplified, unfolded lview_def k1]
  have "lock_inv (holder k, vals k, conds k,
      (rel k)(current k1 := Sema_loop (lock_sema l) (intr_on k2) # Lock_own l # rel k (current k1)))"
    using lock_inv_wait inv 1(1) by (simp add: lview_def)
  then show ?thesis using k2 by (intro sema_down_lock [OF _ 1(4)]) simp
qed

lemma lview_sema_up:
  assumes "sema_up p k = Inr k'"
  obtains v where "vals k p = Some v" "lview k' = (holder k, (vals k)(p \<mapsto> v + 1), conds k, rel k)"
proof -
  from assms obtain k1 and s s1 :: semaphore where s: "semas k p = Some s"
    and u: "(if waiters s = [] then Inr (intr_disable k)
            else bindR (list_highest_priority (intr_disable k) (waiters s)) (\<lambda>high. case high of
              None \<Rightarrow> Inl Invalid_access
            | Some t \<Rightarrow> thread_unblock t (set_sema p (s\<lparr>waiters := remove1 t (waiters s)\<rparr>) (intr_disable k)))) = Inr k1"
    and s1: "semas k1 p = Some s1"
    and l: "intr_set_level (intr_on k) (set_sema p (s1\<lparr>sema_value := sema_value s1 + 1\<rparr>) k1) = Inr k'"
    unfolding sema_up_def bindR_eq_Inr get_sema_eq Let_def intr_disable_fields by blast
  have "lview (set_sema p (s\<lparr>waiters := ws\<rparr>) (intr_disable k)) = lview k" for ws
    using vals_Some [OF s] by (simp add: fun_upd_idem) (simp add: lview_def)
  then have "lview k1 = lview k"
    using u by (auto simp: bindR_eq_Inr split: if_splits option.splits dest!: lview_unblock)
  then have k1: "holder k1 = holder k" "vals k1 = vals k" "conds k1 = conds k" "rel k1 = rel k"
    by (simp_all add: lview_def)
  show ?thesis
    using that [of "sema_value s1"] lview_set_level [OF l] vals_Some [OF s1] by (simp add: k1)
qed

lemma sema_up_plain:
  assumes "lock_inv (lview k)" "p \<notin> lock_semas k" "sema_up p k = Inr k'"
  shows "lock_inv (lview k')"
proof -
  from lview_sema_up [OF assms(3)] obtain v where
    "lview k' = (holder k, (vals k)(p \<mapsto> v + 1), conds k, rel k)" by auto
  moreover have "p \<noteq> lock_sema l" if "holder k l \<noteq> None" for l using that assms(2) by (auto simp: lock_semas_def)
  ultimately show ?thesis using lock_inv_plain_value [OF assms(1) [unfolded lview_def], of p] by simp
qed

lemma lock_release_lock:
  assumes inv: "lock_inv (lview k)" and r: "lock_release l k = Inr k'"
  shows "lock_inv (lview k')"
proof -
  from r obtain h k1 k2 ds p where h: "holder k l = Some h" "h \<noteq> NULL"
    and k1: "upd_thr h (\<lambda>x. x\<lparr>priority := orig_priority x\<rparr>) k = Inr k1"
    and k2: "upd_thr h (\<lambda>x. x\<lparr>priority_donations := ds, priority := p\<rparr>) k1 = Inr k2"
    and u: "sema_up (lock_sema l) (k2\<lparr>holder := (holder k2)(l \<mapsto> NULL)\<rparr>) = Inr k'"
    by (auto simp: lock_release_def lock_held_by_current_thread_def bindR_eq_Inr get_holder_eq thread_current_eq)
  have lv: "lview k2 = lview k" using lview_upd_thr [OF k1] lview_upd_thr [OF k2] by simp
  from lview_sema_up [OF u] obtain v where
    v: "vals (k2\<lparr>holder := (holder k2)(l \<mapsto> NULL)\<rparr>) (lock_sema l) = Some v"
      "lview k' = ((holder k2)(l \<mapsto> NULL), (vals (k2\<lparr>holder := (holder k2)(l \<mapsto> NULL)\<rparr>))(lock_sema l \<mapsto> v + 1),
         conds k2, rel (k2\<lparr>holder := (holder k2)(l \<mapsto> NULL)\<rparr>))" by auto
  then have "vals k (lock_sema l) = Some v"
    "lview k' = ((holder k)(l \<mapsto> NULL), (vals k)(lock_sema l \<mapsto> v + 1), conds k, rel k)"
    using lv by (auto simp: lview_def)
  then show ?thesis using lock_inv_release [OF inv [unfolded lview_def] h] by simp
qed


lemma sema_try_down_eq:
  assumes "sema_try_down p k = Inr (k', b)"
  obtains v where "vals k p = Some v" "b = (0 < v)"
    "lview k' = (holder k, (vals k)(p \<mapsto> (if 0 < v then v - 1 else v)), conds k, rel k)"
proof -
  from assms obtain s :: semaphore where s: "semas k p = Some s" "b = (0 < sema_value s)"
    and l: "intr_set_level (intr_on k) (if 0 < sema_value s
        then set_sema p (s\<lparr>sema_value := sema_value s - 1\<rparr>) (intr_disable k) else intr_disable k) = Inr k'"
    by (auto simp: sema_try_down_def bindR_eq_Inr get_sema_eq Let_def split: if_splits)
  show ?thesis
    using that [OF vals_Some [OF s(1)] s(2)] lview_set_level [OF l] vals_Some [OF s(1)]
    by (cases "0 < sema_value s") (simp, simp add: fun_upd_idem lview_def)
qed

lemma sema_try_down_plain:
  assumes "lock_inv (lview k)" "p \<notin> lock_semas k" "sema_try_down p k = Inr (k', b)"
  shows "lock_inv (lview k')"
proof -
  from sema_try_down_eq [OF assms(3)] obtain v where
    "lview k' = (holder k, (vals k)(p \<mapsto> v), conds k, rel k)" by metis
  moreover have "p \<noteq> lock_sema l" if "holder k l \<noteq> None" for l using that assms(2) by (auto simp: lock_semas_def)
  ultimately show ?thesis using lock_inv_plain_value [OF assms(1) [unfolded lview_def], of p] by simp
qed

lemma lock_try_acquire_lock:
  assumes inv: "lock_inv (lview k)" and a: "lock_try_acquire l k = Inr (k', b)"
  shows "lock_inv (lview k')"
proof -
  note i = inv [unfolded lview_def]
  from a obtain h k1 and s :: semaphore where h: "holder k l = Some h" and s: "semas k (lock_sema l) = Some s"
    and p: "(if 0 < sema_value s then push_code (Lock_own l) k else Inr k) = Inr k1"
    and t: "sema_try_down (lock_sema l) k1 = Inr (k', b)"
    unfolding lock_try_acquire_def lock_held_by_current_thread_def bindR_eq_Inr get_holder_eq get_sema_eq by blast
  note vs = vals_Some [OF s]
  from sema_try_down_eq [OF t] obtain v where v: "vals k1 (lock_sema l) = Some v"
    and k': "lview k' = (holder k1, (vals k1)(lock_sema l \<mapsto> (if 0 < v then v - 1 else v)), conds k1, rel k1)"
    by auto
  show ?thesis
  proof (cases "0 < sema_value s")
    case True
    then have "lview k1 = (holder k, vals k, conds k, (rel k)(current k := Lock_own l # rel k (current k)))"
      using p lview_push_relevant [of "Lock_own l" k k1] by simp
    moreover have "lock_inv (holder k, (vals k)(lock_sema l \<mapsto> sema_value s - 1), conds k,
        (rel k)(current k := Lock_own l # rel k (current k)))"
      by (rule lock_inv_grant [OF i h vs]) (use True lock_invD(2) [OF i] in auto)
    ultimately show ?thesis using k' v vs True by (simp add: lview_def)
  next
    case False
    then show ?thesis using p k' v vs i by (simp add: fun_upd_idem)
  qed
qed

lemma sema_init_plain:
  assumes "lock_inv (lview k)" "p \<notin> lock_semas k" "sema_init p v k = Inr k'"
  shows "lock_inv (lview k')" "plain (holder k') (vals k') p" "lock_semas k' = lock_semas k" "conds k' = conds k"
proof -
  have k': "k' = set_sema p \<lparr>sema_value = v, waiters = []\<rparr> k" using assms(3) by (auto simp: sema_init_def bindR_eq_Inr)
  have n: "p \<noteq> lock_sema l" if "holder k l \<noteq> None" for l using that assms(2) by (auto simp: lock_semas_def)
  then show "lock_inv (lview k')" using lock_inv_plain_value [OF assms(1) [unfolded lview_def], of p] k' by simp
  show "plain (holder k') (vals k') p" using n by (simp add: k' plain_def set_sema_def vals_def)
  show "lock_semas k' = lock_semas k" "conds k' = conds k" by (simp_all add: k' set_sema_def lock_semas_def)
qed

lemma lock_init_lock:
  assumes "lock_inv (lview k)" "holder k l = None" "semas k (lock_sema l) = None" "lock_init l k = Inr k'"
  shows "lock_inv (lview k')"
proof -
  have "k' = set_sema (lock_sema l) \<lparr>sema_value = 1, waiters = []\<rparr> (k\<lparr>holder := (holder k)(l \<mapsto> NULL)\<rparr>)"
    using assms(4) by (auto simp: lock_init_def sema_init_def bindR_eq_Inr)
  then show ?thesis
    using lock_inv_init [OF assms(1) [unfolded lview_def] assms(2)] assms(3) by (simp add: vals_def)
qed

lemma cond_wait_lock:
  assumes inv: "lock_inv (lview k)" and w: "w \<notin> lock_semas k" and c: "cond_wait w c l k = Inr k'"
  shows "lock_inv (lview k')"
proof -
  from c obtain k1 k2 k3 ws where k1: "sema_init w 0 k = Inr k1" and ws: "conds k1 c = Some ws"
    and k2: "push_code (Lock_acquire_call l) (k1\<lparr>conds := (conds k1)(c \<mapsto> ws @ [w])\<rparr>) = Inr k2"
    and k3: "push_code (Sema_down_call w) k2 = Inr k3" and r: "lock_release l k3 = Inr k'"
    unfolding cond_wait_def bindR_eq_Inr get_cond_eq Let_def by blast
  note s = sema_init_plain [OF inv w k1]
  let ?H = "holder k1" and ?V = "vals k1" and ?C = "(conds k1)(c \<mapsto> ws @ [w])"
  note i = s(1) [unfolded lview_def]
  have i1: "lock_inv (?H, ?V, ?C, rel k1)"
    by (rule lock_inv_conds [OF i]) (use lock_invD(3) [OF i] s(2) ws in \<open>auto split: if_splits\<close>)
  have l2: "lview k2 = (?H, ?V, ?C, rel k1)" using lview_push [OF k2] by (simp add: lview_def)
  then have f: "holder k2 = ?H" "vals k2 = ?V" "conds k2 = ?C" "rel k2 = rel k1" by (simp_all add: lview_def)
  have "lview k3 = (?H, ?V, ?C, (rel k1)(current k2 := Sema_down_call w # rel k1 (current k2)))"
    using lview_push_relevant [OF k3] by (simp add: f)
  moreover have "lock_inv \<dots>"
    by (rule lock_inv_code [OF i1]) (use s(2) lock_invD(2) [OF i] in simp_all)
  ultimately show ?thesis using lock_release_lock [OF _ r] by simp
qed

lemma signal_loop_in: "signal_loop k ws m n0 = Inr (Some w) \<Longrightarrow> w \<in> set ws \<or> n0 = Some w"
  by (induction ws arbitrary: m n0) (auto simp: bindR_eq_Inr split: if_splits)

lemma cond_signal_lock:
  assumes inv: "lock_inv (lview k)" and c: "cond_signal c l k = Inr k'"
  shows "lock_inv (lview k')"
proof -
  note i = inv [unfolded lview_def]
  from c consider "k' = k" | ws w where "conds k c = Some ws" "signal_loop k ws (- 1) None = Inr (Some w)"
      "sema_up w (k\<lparr>conds := (conds k)(c \<mapsto> remove1 w ws)\<rparr>) = Inr k'"
    by (auto simp: cond_signal_def bindR_eq_Inr get_cond_eq split: if_splits option.splits)
  then show ?thesis
  proof cases
    case (2 ws w)
    have "w \<in> set ws" using signal_loop_in [OF 2(2)] by simp
    then have w: "plain (holder k) (vals k) w" using lock_invD(3) [OF i 2(1)] by blast
    have "lock_inv (holder k, vals k, (conds k)(c \<mapsto> remove1 w ws), rel k)"
      by (rule lock_inv_conds [OF i])
        (use lock_invD(3) [OF i] 2(1) in \<open>auto split: if_splits dest: notin_set_remove1 set_remove1_subset [THEN subsetD]\<close>)
    then show ?thesis
      using w by (intro sema_up_plain [OF _ _ 2(3)]) (auto simp: lview_def plain_def lock_semas_def)
  qed (use inv in simp)
qed

lemma cond_broadcast_lock:
  "lock_inv (lview k) \<Longrightarrow> cond_broadcast c l k = Inr k' \<Longrightarrow> lock_inv (lview k')"
  by (auto simp: cond_broadcast_def bindR_eq_Inr intro: cond_signal_lock [rotated] dest!: lview_push split: if_splits)

lemma create_pid_lock: "lock_inv (lview k) \<Longrightarrow> create_pid fuel t p f k = Inr k' \<Longrightarrow> lock_inv (lview k')"
  by (auto simp: create_pid_def bindR_eq_Inr intro: lock_acquire_lock [rotated] dest!: lview_push lview_upd_thr)

lemma allocate_tid_lock: "lock_inv (lview k) \<Longrightarrow> allocate_tid t k = Inr k' \<Longrightarrow> lock_inv (lview k')"
  by (auto simp: allocate_tid_def bindR_eq_Inr Let_def intro: lock_release_lock [rotated] dest!: lview_push)


section \<open>Every step keeps the invariant\<close>

text \<open>
  \<open>k\<close> is the state with the instruction \<open>i\<close> taken off the running thread; the invariant holds with the
  instruction put back.
\<close>

lemma exec_lock:
  assumes inv: "lock_inv (if relevant i
      then (holder k, vals k, conds k, (rel k)(current k := i # rel k (current k))) else lview k)"
    and sinv: "sched_inv k" and ok: "ok_instr k (current k) i" and e: "exec fuel i k = Inr k'"
  shows "lock_inv (lview k')"
proof (cases i)
  case (Sema_loop p b)
  then show ?thesis using inv e sema_loop_lock [of k p b k'] by (simp add: exec_def)
next
  case (Lock_own l)
  have "current k \<noteq> NULL" using sched_invD(3,8) [OF sinv] by auto
  moreover have "lock_inv (holder k, vals k, conds k, (rel k)(current k := Lock_own l # rel k (current k)))"
    using inv Lock_own by simp
  ultimately have "lock_inv ((holder k)(l \<mapsto> current k), vals k, conds k, rel k)"
    using lock_inv_own(2) [of "holder k" _ _ _ "current k" l "rel k (current k)"] by fastforce
  then show ?thesis using e Lock_own by (auto simp: exec_def bindR_eq_Inr thread_current_eq lview_def)
next
  case (Sema_down_call p)
  let ?R = "rel k (current k)"
  have i: "lock_inv (holder k, vals k, conds k, (rel k)(current k := Sema_down_call p # ?R))"
    using inv Sema_down_call by simp
  have c: "code_ok (plain (holder k) (vals k)) (holder k) (Sema_down_call p # ?R)"
    using lock_invD(2) [OF i, of "current k"] by simp
  have "lock_inv (holder k, vals k, conds k, ((rel k)(current k := Sema_down_call p # ?R))(current k := ?R))"
    by (rule lock_inv_code [OF i]) (use c in simp_all)
  then have "lock_inv (lview k)" by (simp add: lview_def)
  then show ?thesis
    using e Sema_down_call c by (intro sema_down_plain [of k p k']) (auto simp: exec_def plain_def lock_semas_def)
next
  case (Idle_start p)
  then show ?thesis using ok by (auto simp: ok_instr_def split: if_splits)
next
  case Idle_loop
  then show ?thesis using inv e by (auto simp: exec_def bindR_eq_Inr dest!: lview_push lview_block)
qed (use inv e in \<open>auto simp: exec_def intro: lock_acquire_lock [rotated] cond_broadcast_lock [rotated]
    create_pid_lock [rotated] allocate_tid_lock [rotated]
    dest!: lview_set_level lview_upd_thr lview_create_unblock lview_sleep_from lview_push\<close>)

lemma resume_lock:
  assumes inv: "lock_inv (lview k)" and sinv: "sched_inv k" and r: "resume fuel k = Inr k'"
  shows "lock_inv (lview k')"
proof -
  obtain x where x: "thr k (current k) = Some x" using sched_invD(8) [OF sinv] by blast
  show ?thesis
  proof (cases "code x")
    case Nil
    then show ?thesis using r x inv by (simp add: resume_def get_thr_def)
  next
    case (Cons i "is")
    let ?k = "k\<lparr>thr := (thr k)(current k \<mapsto> x\<lparr>code := is\<rparr>)\<rparr>"
    note p = pop_code_inv(1,2) [OF sinv x Cons]
    have e: "exec fuel i ?k = Inr k'" using r x Cons by (auto simp: resume_def acc_eqs upd_thr_def get_thr_def)
    have "lview k = (if relevant i then (holder ?k, vals ?k, conds ?k,
        (rel ?k)(current ?k := i # rel ?k (current ?k))) else lview ?k)"
      using x Cons by (auto simp: lview_def rel_def vals_def fun_eq_iff)
    then show ?thesis using exec_lock [OF _ p e] inv by simp
  qed
qed

lemma do_call_lock:
  assumes inv: "lock_inv (lview k)" and x: "thr k (current k) = Some x" "code x = []"
    and m: "may_call k c" and d: "do_call fuel c k = Inr k'"
  shows "lock_inv (lview k')"
proof (cases c)
  case (Create_call page prio p)
  then show ?thesis using d m inv lview_create [of page prio Other_function p k k'] x by (simp add: do_call_def may_call_def)
next
  case Exit_call
  then show ?thesis using d inv lview_exit [of k k'] x by (simp add: do_call_def rel_def)
next
  case (Cond_init_call cv)
  have "lock_inv (holder k, vals k, (conds k)(cv \<mapsto> []), rel k)"
    by (rule lock_inv_conds [OF inv [unfolded lview_def]])
      (use lock_invD(3) [OF inv [unfolded lview_def]] in \<open>auto split: if_splits\<close>)
  then show ?thesis
    using d Cond_init_call by (auto simp: do_call_def cond_init_def bindR_eq_Inr lview_def)
next
  case (Cond_wait_call w c l)
  then show ?thesis using d m cond_wait_lock [OF inv] by (simp add: do_call_def may_call_def)
next
  case (Lock_init_call l)
  then show ?thesis using d m lock_init_lock [OF inv, of l k'] by (simp add: do_call_def may_call_def)
qed (use d m inv in \<open>auto simp: do_call_def may_call_def bindR_eq_Inr
    intro: sema_init_plain(1) [rotated 2] sema_down_plain [rotated 2] sema_up_plain [rotated 2]
      sema_try_down_plain [rotated 2] lock_acquire_lock [rotated] lock_try_acquire_lock [rotated]
      lock_release_lock [rotated] cond_signal_lock [rotated] cond_broadcast_lock [rotated]
    dest!: lview_yield lview_set_priority lview_set_nice lview_block lview_unblock lview_timer_sleep
      lview_set_level\<close>)

lemma kstep_lock: "kstep fuel k k' \<Longrightarrow> sched_inv k \<Longrightarrow> lock_inv (lview k) \<Longrightarrow> lock_inv (lview k')"
  by (erule kstepE) (auto intro: do_call_lock resume_lock dest!: lview_handler)

lemma ksteps_lock: "(kstep fuel)\<^sup>*\<^sup>* k k' \<Longrightarrow> sched_inv k \<Longrightarrow> lock_inv (lview k) \<Longrightarrow> lock_inv (lview k')"
  by (induction rule: rtranclp_induct) (auto intro: kstep_lock dest: ksteps_inv)

lemma booted_lock: "lock_inv (lview booted)"
proof -
  have "rel booted t = []" for t by (simp add: rel_def booted_def)
  moreover have "vals booted 20 = Some 1" by (simp add: vals_def booted_def)
  moreover have "holder booted = [16 \<mapsto> NULL]" "conds booted = Map.empty" by (simp_all add: booted_def)
  ultimately show ?thesis by (auto simp: lock_inv_def lview_def token_def lock_sema_def split: if_splits)
qed

text \<open>The threads that hold a lock or have taken its semaphore and are about to.\<close>

definition owners :: "kernel \<Rightarrow> addr \<Rightarrow> addr set" where
  "owners k l = {t. t \<noteq> NULL \<and> holder k l = Some t \<or> 0 < granted l (rel k t)}"

text \<open>
  C1. Mutual exclusion. In every state the booted kernel can reach by calls of its interface,
  by the continuation of calls and by timer interrupts, every initialised lock is free with its
  semaphore at 1, or exactly one thread owns it and the semaphore is at 0: a lock never has two owners
  and its token is never lost or doubled, whatever the interleaving.
\<close>

theorem lock_mutual_exclusion:
  assumes "boot = Inr k0" "(kstep fuel)\<^sup>*\<^sup>* k0 k" "holder k l = Some h"
  shows "\<exists>s. semas k (lock_sema l) = Some s \<and>
    (sema_value s = 1 \<and> owners k l = {} \<or> sema_value s = 0 \<and> (\<exists>t. owners k l = {t}))"
proof -
  have "lock_inv (lview k)" using ksteps_lock [OF assms(2)] assms(1) booted_inv booted_lock by (simp add: boot_booted)
  then have "token l (vals k (lock_sema l)) h (rel k)" using lock_invD(1) assms(3) by (simp add: lview_def)
  then consider (free) "vals k (lock_sema l) = Some 1" "h = NULL" "\<forall>t. granted l (rel k t) = 0"
    | (held) "vals k (lock_sema l) = Some 0" "h \<noteq> NULL" "\<forall>t. granted l (rel k t) = 0"
    | (granted) t where "vals k (lock_sema l) = Some 0" "h = NULL" "granted l (rel k t) = 1"
        "\<forall>u. u \<noteq> t \<longrightarrow> granted l (rel k u) = 0"
    by (auto simp: token_def)
  then show ?thesis
  proof cases
    case free
    then have "owners k l = {}" using assms(3) by (simp add: owners_def)
    then show ?thesis using free(1) by (auto simp: vals_def)
  next
    case held
    then have "owners k l = {h}" using assms(3) by (auto simp: owners_def)
    then show ?thesis using held(1) by (auto simp: vals_def)
  next
    case (granted t)
    then have "owners k l = {t}" using assms(3) by (auto simp: owners_def)
    then show ?thesis using granted(1) by (auto simp: vals_def)
  qed
qed


text \<open>The initial thread takes the lock of \<open>allocate_tid\<close>.\<close>

definition sample_locked :: kernel where
  "sample_locked = booted\<lparr>semas := (semas booted)(20 \<mapsto> \<lparr>sema_value = 0, waiters = []\<rparr>),
     holder := [16 \<mapsto> 4096]\<rparr>"

lemma sample_locked_reachable: "(kstep 0)\<^sup>*\<^sup>* booted sample_locked"
proof -
  let ?x = "the (thr booted 4096)"
  let ?k = "booted\<lparr>semas := (semas booted)(20 \<mapsto> \<lparr>sema_value = 0, waiters = []\<rparr>),
     thr := (thr booted)(4096 \<mapsto> ?x\<lparr>code := [Lock_own 16]\<rparr>)\<rparr>"
  have "do_call 0 (Lock_acquire_c 16) booted = Inr ?k" by (simp add: booted_def kernel_eval)
  moreover have "may_call booted (Lock_acquire_c 16)" by (simp add: may_call_def)
  ultimately have "kstep 0 booted ?k" by (intro kstep_call [of booted ?x]) (simp_all add: booted_def)
  moreover have "resume 0 ?k = Inr sample_locked" by (simp add: booted_def sample_locked_def kernel_eval fun_upd_twist)
  then have "kstep 0 ?k sample_locked"
    by (intro kstep_resume [of ?k "?x\<lparr>code := [Lock_own 16]\<rparr>"]) (simp_all add: booted_def)
  ultimately show ?thesis by (rule rtranclp.rtrancl_into_rtrancl [OF r_into_rtranclp])
qed

theorem lock_mutual_exclusion_witness:
  "boot = Inr booted \<and> (kstep 0)\<^sup>*\<^sup>* booted sample_locked \<and> holder sample_locked 16 = Some 4096 \<and>
   (\<exists>t. owners sample_locked 16 = {t})"
  using lock_mutual_exclusion [OF boot_booted sample_locked_reachable, of 16 4096]
    boot_booted sample_locked_reachable
  by (auto simp: sample_locked_def lock_sema_def owners_def)


end
