(* ===== verification/Buffer_Cache.thy ===== *)
theory Buffer_Cache
  imports Block_Device
begin

text \<open>
  \<^verbatim>\<open>filesys/cache.c\<close>: the buffer cache, 64 blocks that hold sectors of the file-system device. The
  functions are modelled as one thread runs them without interference: the locks \<open>r\<close> and \<open>extra\<close> of a block are taken and given back inside a function, and a
  \<open>sema_down\<close> of the semaphore \<open>g\<close> that would wait is the outcome \<open>Blocked\<close>.
  The bodies of the endless loops of the three helper threads are the functions
  \<open>cache_read_ahead\<close>, \<open>refresh_cache\<close> and \<open>update_accesses\<close>.
\<close>

unbundle bit_operations_syntax

section \<open>Model\<close>

definition CACHE_BLOCKS :: nat where
  "CACHE_BLOCKS = 64"

record rw_lock =
  lk_g :: u32
  lk_b :: int

record cache_block =
  valid :: bool
  cdata :: "u8 list"
  csector :: u32
  recent_accesses :: u64
  dirty :: bool
  accessed :: bool
  rw :: rw_lock

record fs =
  buffer :: "cache_block list"
  fs_device :: "medium block"
  read_ahead :: bool
  next_block :: u32

text \<open>Access to block \<open>i\<close> of the buffer; the functions below are only called with \<open>i\<close> in range.\<close>

definition blk :: "fs \<Rightarrow> nat \<Rightarrow> cache_block" where
  "blk st i = buffer st ! i"

definition upd_blk :: "nat \<Rightarrow> (cache_block \<Rightarrow> cache_block) \<Rightarrow> fs \<Rightarrow> fs" where
  "upd_blk i f st = st\<lparr>buffer := (buffer st)[i := f (blk st i)]\<rparr>"

definition set_g :: "u32 \<Rightarrow> cache_block \<Rightarrow> cache_block" where
  "set_g v c = c\<lparr>rw := (rw c)\<lparr>lk_g := v\<rparr>\<rparr>"

definition add_b :: "int \<Rightarrow> cache_block \<Rightarrow> cache_block" where
  "add_b d c = c\<lparr>rw := (rw c)\<lparr>lk_b := lk_b (rw c) + d\<rparr>\<rparr>"

definition g_down :: "nat \<Rightarrow> fs \<Rightarrow> fs res" where
  "g_down i st = (if lk_g (rw (blk st i)) = 0 then Inl Blocked
     else Inr (upd_blk i (set_g (lk_g (rw (blk st i)) - 1)) st))"

definition g_try_down :: "nat \<Rightarrow> fs \<Rightarrow> fs \<times> bool" where
  "g_try_down i st = (if lk_g (rw (blk st i)) > 0
     then (upd_blk i (set_g (lk_g (rw (blk st i)) - 1)) st, True) else (st, False))"

definition g_up :: "nat \<Rightarrow> fs \<Rightarrow> fs" where
  "g_up i st = upd_blk i (set_g (lk_g (rw (blk st i)) + 1)) st"

subsection \<open>Reader and writer locks\<close>

definition cache_read_begin :: "nat \<Rightarrow> fs \<Rightarrow> fs res" where
  "cache_read_begin i st =
     (let st = upd_blk i (add_b 1) st in
      if lk_b (rw (blk st i)) = 1 then g_down i st else Inr st)"

definition cache_read_try :: "nat \<Rightarrow> fs \<Rightarrow> fs \<times> bool" where
  "cache_read_try i st =
     (let st = upd_blk i (add_b 1) st in
      if lk_b (rw (blk st i)) = 1 then
        case g_try_down i st of
          (st, True) \<Rightarrow> (st, True)
        | (st, False) \<Rightarrow> (upd_blk i (add_b (-1)) st, False)
      else (st, True))"

definition cache_write_begin :: "nat \<Rightarrow> fs \<Rightarrow> fs res" where
  "cache_write_begin i st = g_down i st"

definition cache_write_try :: "nat \<Rightarrow> fs \<Rightarrow> fs \<times> bool" where
  "cache_write_try i st = g_try_down i st"

definition cache_upgrade :: "nat \<Rightarrow> fs \<Rightarrow> fs res" where
  "cache_upgrade i st =
     (let st = upd_blk i (add_b (-1)) st in
      if lk_b (rw (blk st i)) = 0 then Inr st else g_down i st)"

definition cache_downgrade :: "nat \<Rightarrow> fs \<Rightarrow> fs res" where
  "cache_downgrade i st =
     bindR (ASSERT (lk_b (rw (blk st i)) = 0)) (\<lambda>_. Inr (upd_blk i (add_b 1) st))"

definition cache_read_end :: "nat \<Rightarrow> fs \<Rightarrow> fs" where
  "cache_read_end i st =
     (let st = upd_blk i (add_b (-1)) st in
      if lk_b (rw (blk st i)) = 0 then g_up i st else st)"

definition cache_write_end :: "nat \<Rightarrow> fs \<Rightarrow> fs" where
  "cache_write_end i st = upd_blk i (\<lambda>c. c\<lparr>dirty := True\<rparr>) (g_up i st)"

subsection \<open>Finding and evicting blocks\<close>

text \<open>The three loops over the buffer; \<open>n\<close> counts the blocks that are left.\<close>

fun match_loop :: "nat \<Rightarrow> u32 \<Rightarrow> fs \<Rightarrow> nat option" where
  "match_loop 0 s st = None"
| "match_loop (Suc n) s st =
     (let i = CACHE_BLOCKS - Suc n in
      if csector (blk st i) = s then Some i else match_loop n s st)"

fun free_loop :: "nat \<Rightarrow> fs \<Rightarrow> fs \<times> nat option" where
  "free_loop 0 st = (st, None)"
| "free_loop (Suc n) st =
     (let i = CACHE_BLOCKS - Suc n in
      case cache_write_try i st of
        (st, False) \<Rightarrow> free_loop n st
      | (st, True) \<Rightarrow>
          if \<not> valid (blk st i) then (upd_blk i (\<lambda>c. c\<lparr>valid := True\<rparr>) st, Some i)
          else free_loop n (cache_write_end i st))"

fun evict_loop :: "nat \<Rightarrow> nat option \<Rightarrow> u64 \<Rightarrow> fs \<Rightarrow> (fs \<times> nat option) res" where
  "evict_loop 0 victim oldest st = Inr (st, victim)"
| "evict_loop (Suc n) victim oldest st =
     (let i = CACHE_BLOCKS - Suc n in
      case cache_write_try i st of
        (st, False) \<Rightarrow> evict_loop n victim oldest st
      | (st, True) \<Rightarrow>
          bindR (ASSERT (valid (blk st i))) (\<lambda>_.
          if recent_accesses (blk st i) \<le> oldest then
            evict_loop n (Some i) (recent_accesses (blk st i))
              (case victim of None \<Rightarrow> st | Some v \<Rightarrow> cache_write_end v st)
          else evict_loop n victim oldest (cache_write_end i st)))"

definition cache_evict :: "fs \<Rightarrow> (fs \<times> nat) res" where
  "cache_evict st =
     bindR (evict_loop CACHE_BLOCKS None (NOT 0) st) (\<lambda>(st, victim). case victim of
       None \<Rightarrow> Inl Kernel_panic
     | Some i \<Rightarrow>
         if dirty (blk st i) then
           bindR (block_write (fs_device st) (csector (blk st i)) (cdata (blk st i))) (\<lambda>d.
           Inr (st\<lparr>fs_device := d\<rparr>, i))
         else Inr (st, i))"

text \<open>The block is there, or is brought into a free block or the block of an evicted sector.\<close>

definition import_block :: "u32 \<Rightarrow> fs \<Rightarrow> (fs \<times> nat) res" where
  "import_block s st =
     bindR (case free_loop CACHE_BLOCKS st of
         (st, Some i) \<Rightarrow> Inr (st, i)
       | (st, None) \<Rightarrow> cache_evict st) (\<lambda>(st, i).
     bindR (block_read (fs_device st) s) (\<lambda>(d, buf).
     let st = upd_blk i (\<lambda>c. c\<lparr>cdata := buf, csector := s, dirty := False, recent_accesses := 0\<rparr>)
       (st\<lparr>fs_device := d\<rparr>) in
     bindR (cache_downgrade i st) (\<lambda>st. Inr (st, i))))"

definition find_block :: "u32 \<Rightarrow> fs \<Rightarrow> (fs \<times> nat) res" where
  "find_block s st =
     bindR (ASSERT (s < blk_size (fs_device st))) (\<lambda>_.
     bindR (case match_loop CACHE_BLOCKS s st of
         Some i \<Rightarrow>
           bindR (cache_read_begin i st) (\<lambda>st.
           bindR (ASSERT (csector (blk st i) = s)) (\<lambda>_. Inr (st, i)))
       | None \<Rightarrow> import_block s st) (\<lambda>(st, i).
     Inr (upd_blk i (\<lambda>c. c\<lparr>accessed := True, recent_accesses := recent_accesses c OR push_bit 63 1\<rparr>)
       (st\<lparr>next_block := s + 1, read_ahead := True\<rparr>), i)))"

definition cache_read_block :: "u32 \<Rightarrow> fs \<Rightarrow> (fs \<times> nat) res" where
  "cache_read_block s st = find_block s st"

definition cache_write_block :: "u32 \<Rightarrow> fs \<Rightarrow> (fs \<times> nat) res" where
  "cache_write_block s st =
     bindR (find_block s st) (\<lambda>(st, i). bindR (cache_upgrade i st) (\<lambda>st. Inr (st, i)))"

subsection \<open>The helper threads\<close>

definition cache_read_ahead :: "fs \<Rightarrow> fs res" where
  "cache_read_ahead st =
     (if read_ahead st then bindR (find_block (next_block st) st) (\<lambda>(st, i). Inr (st\<lparr>read_ahead := False\<rparr>))
      else Inr st)"

fun refresh_loop :: "nat \<Rightarrow> fs \<Rightarrow> fs res" where
  "refresh_loop 0 st = Inr st"
| "refresh_loop (Suc n) st =
     (let i = CACHE_BLOCKS - Suc n in
      if \<not> valid (blk st i) then refresh_loop n st
      else case cache_read_try i st of
        (st, False) \<Rightarrow> refresh_loop n st
      | (st, True) \<Rightarrow>
          bindR (if dirty (blk st i) then
                   bindR (block_write (fs_device st) (csector (blk st i)) (cdata (blk st i))) (\<lambda>d.
                   Inr (upd_blk i (\<lambda>c. c\<lparr>dirty := False\<rparr>) (st\<lparr>fs_device := d\<rparr>)))
                 else Inr st) (\<lambda>st.
          refresh_loop n (cache_read_end i st)))"

definition refresh_cache :: "fs \<Rightarrow> fs res" where
  "refresh_cache st = refresh_loop CACHE_BLOCKS st"

fun accesses_loop :: "nat \<Rightarrow> fs \<Rightarrow> fs" where
  "accesses_loop 0 st = st"
| "accesses_loop (Suc n) st =
     (let i = CACHE_BLOCKS - Suc n in
      if \<not> valid (blk st i) then accesses_loop n st
      else case cache_read_try i st of
        (st, False) \<Rightarrow> accesses_loop n st
      | (st, True) \<Rightarrow>
          let st = upd_blk i (\<lambda>c. c\<lparr>recent_accesses := drop_bit 1 (recent_accesses c) OR push_bit 63 (of_bool (accessed c))\<rparr>) st;
              st = (if lk_b (rw (blk st i)) > 0 then upd_blk i (\<lambda>c. c\<lparr>accessed := False\<rparr>) st else st)
          in accesses_loop n (cache_read_end i st))"

definition update_accesses :: "fs \<Rightarrow> fs" where
  "update_accesses st = accesses_loop CACHE_BLOCKS st"

definition empty_block :: cache_block where
  "empty_block = \<lparr>valid = False, cdata = replicate BLOCK_SECTOR_SIZE 0, csector = 0, recent_accesses = 0,
     dirty = False, accessed = False, rw = \<lparr>lk_g = 1, lk_b = 0\<rparr>\<rparr>"

text \<open>\<open>buffer\<close> is static data, zero before \<open>cache_init\<close> sets up the locks.\<close>

definition cache_init :: "medium block \<Rightarrow> fs" where
  "cache_init d = \<lparr>buffer = replicate CACHE_BLOCKS empty_block, fs_device = d, read_ahead = False, next_block = 0\<rparr>"

end
