(* ===== verification/Cache_Invariant.thy ===== *)
theory Cache_Invariant
  imports Buffer_Cache
begin

text \<open>
  What the buffer cache promises: seen through it (\<open>cview\<close>), the device is an array of sectors that no
  movement of blocks changes. The invariant says what a block of the buffer may hold; the locks of the
  sectors (\<open>locks\<close>) are tracked along, since a locked block stays where it is.
\<close>

declare neq0_conv [iff del] bot_nat_0.not_eq_extremum [simp del]

unbundle bit_operations_syntax

section \<open>Invariant and view\<close>

definition unlocked :: "cache_block \<Rightarrow> bool" where
  "unlocked c \<longleftrightarrow> lk_g (rw c) = 1 \<and> lk_b (rw c) = 0"

definition wlocked :: "cache_block \<Rightarrow> bool" where
  "wlocked c \<longleftrightarrow> lk_g (rw c) = 0 \<and> lk_b (rw c) = 0"

definition rlocked :: "cache_block \<Rightarrow> bool" where
  "rlocked c \<longleftrightarrow> lk_g (rw c) = 0 \<and> lk_b (rw c) > 0"

text \<open>
  A sector is 512 bytes. A block without a sector is unlocked and has sector number 0; a block with a
  sector that is clean, and not being written, holds what the device holds.
\<close>

definition block_ok :: "medium block \<Rightarrow> cache_block \<Rightarrow> bool" where
  "block_ok d c \<longleftrightarrow> length (cdata c) = BLOCK_SECTOR_SIZE \<and> (unlocked c \<or> wlocked c \<or> rlocked c) \<and>
     (if valid c then csector c \<noteq> 0 \<and> csector c < blk_size d \<and>
        (dirty c \<or> wlocked c \<or> cdata c = blk_aux d (csector c))
      else unlocked c \<and> csector c = 0)"

definition device_ok :: "medium block \<Rightarrow> bool" where
  "device_ok d \<longleftrightarrow> blk_ops d = medium_operations \<and> blk_type d \<noteq> BLOCK_FOREIGN \<and>
     (\<forall>s. length (blk_aux d s) = BLOCK_SECTOR_SIZE)"

definition holds :: "fs \<Rightarrow> nat \<Rightarrow> u32 \<Rightarrow> bool" where
  "holds st i s \<longleftrightarrow> i < CACHE_BLOCKS \<and> valid (blk st i) \<and> csector (blk st i) = s"

definition cache_inv :: "fs \<Rightarrow> bool" where
  "cache_inv st \<longleftrightarrow> length (buffer st) = CACHE_BLOCKS \<and> device_ok (fs_device st) \<and>
     (\<forall>i<CACHE_BLOCKS. block_ok (fs_device st) (blk st i)) \<and>
     (\<forall>i j s. holds st i s \<longrightarrow> holds st j s \<longrightarrow> i = j)"

definition cview :: "fs \<Rightarrow> u32 \<Rightarrow> u8 list" where
  "cview st s = (if \<exists>i. holds st i s then cdata (blk st (SOME i. holds st i s)) else blk_aux (fs_device st) s)"

definition locks :: "fs \<Rightarrow> u32 \<Rightarrow> rw_lock" where
  "locks st s = (if \<exists>i. holds st i s then rw (blk st (SOME i. holds st i s)) else \<lparr>lk_g = 1, lk_b = 0\<rparr>)"

lemma cache_invD:
  assumes "cache_inv st"
  shows "length (buffer st) = CACHE_BLOCKS" "device_ok (fs_device st)"
    "i < CACHE_BLOCKS \<Longrightarrow> block_ok (fs_device st) (blk st i)"
    "holds st i s \<Longrightarrow> holds st j s \<Longrightarrow> i = j"
  using assms by (auto simp: cache_inv_def)

lemma cview_holds:
  assumes "cache_inv st" "holds st i s"
  shows "cview st s = cdata (blk st i)" "locks st s = rw (blk st i)"
proof -
  have "(SOME j. holds st j s) = i" using cache_invD(4) [OF assms(1)] assms(2) by (metis someI)
  then show "cview st s = cdata (blk st i)" "locks st s = rw (blk st i)"
    using assms(2) by (auto simp: cview_def locks_def)
qed

lemma cview_not_held:
  assumes "\<And>i. \<not> holds st i s"
  shows "cview st s = blk_aux (fs_device st) s" "locks st s = \<lparr>lk_g = 1, lk_b = 0\<rparr>"
  using assms by (auto simp: cview_def locks_def)

lemma blk_upd: "length (buffer st) = CACHE_BLOCKS \<Longrightarrow> i < CACHE_BLOCKS \<Longrightarrow>
    blk (upd_blk i f st) j = (if j = i then f (blk st i) else blk st j)"
  by (simp add: blk_def upd_blk_def nth_list_update)

lemma upd_blk_fields [simp]:
  "fs_device (upd_blk i f st) = fs_device st" "length (buffer (upd_blk i f st)) = length (buffer st)"
  "read_ahead (upd_blk i f st) = read_ahead st" "next_block (upd_blk i f st) = next_block st"
  by (simp_all add: upd_blk_def)

lemma blk_irrelevant [simp]:
  "blk (st\<lparr>fs_device := d\<rparr>) i = blk st i" "blk (st\<lparr>read_ahead := r\<rparr>) i = blk st i"
  "blk (st\<lparr>next_block := n\<rparr>) i = blk st i"
  by (simp_all add: blk_def)

text \<open>Both are functions of the blocks and the device.\<close>

lemma cache_view_cong:
  assumes "\<And>i s. holds st' i s \<longleftrightarrow> holds st i s" "\<And>i s. holds st i s \<Longrightarrow> cdata (blk st' i) = cdata (blk st i)"
    "\<And>i s. holds st i s \<Longrightarrow> rw (blk st' i) = rw (blk st i)"
    "\<And>s. (\<forall>i. \<not> holds st i s) \<Longrightarrow> blk_aux (fs_device st') s = blk_aux (fs_device st) s"
  shows "cview st' = cview st" "locks st' = locks st"
proof -
  have h: "holds st' = holds st" using assms(1) by blast
  have "holds st (SOME i. holds st i s) s" if "holds st i s" for i s using that by (rule someI)
  then have "cdata (blk st' (SOME i. holds st i s)) = cdata (blk st (SOME i. holds st i s))"
    "rw (blk st' (SOME i. holds st i s)) = rw (blk st (SOME i. holds st i s))" if "holds st i s" for i s
    using that assms(2,3) by metis+
  then show "cview st' = cview st" "locks st' = locks st"
    using assms(4) by (auto simp: cview_def locks_def h fun_eq_iff)
qed

lemma device_transfer:
  assumes "device_ok d" "s < blk_size d"
  shows "\<exists>d'. block_read d s = Inr (d', blk_aux d s) \<and> blk_aux d' = blk_aux d \<and> blk_size d' = blk_size d \<and> device_ok d'"
    "length buf = BLOCK_SECTOR_SIZE \<Longrightarrow> \<exists>d'. block_write d s buf = Inr d' \<and> blk_aux d' = (blk_aux d)(s := buf) \<and>
       blk_size d' = blk_size d \<and> device_ok d'"
  using assms by (auto simp: device_ok_def block_read_def block_write_def check_sector_def medium_operations_def)

section \<open>Searching a block marks blocks dirty\<close>

text \<open>
  The attempts to lock a block that is not taken end with \<open>cache_write_end\<close>, which marks it dirty.
\<close>

definition dirtied :: "fs \<Rightarrow> fs \<Rightarrow> bool" where
  "dirtied st st' \<longleftrightarrow> fs_device st' = fs_device st \<and> length (buffer st') = length (buffer st) \<and>
     (\<forall>i<CACHE_BLOCKS. blk st' i = blk st i \<or>
        valid (blk st i) \<and> unlocked (blk st i) \<and> blk st' i = (blk st i)\<lparr>dirty := True\<rparr>)"

lemma dirtied_refl [simp]: "dirtied st st"
  by (simp add: dirtied_def)

lemma dirtied_trans: "dirtied st st1 \<Longrightarrow> dirtied st1 st2 \<Longrightarrow> dirtied st st2"
proof -
  assume d: "dirtied st st1" "dirtied st1 st2"
  have "blk st2 i = blk st i \<or> valid (blk st i) \<and> unlocked (blk st i) \<and> blk st2 i = (blk st i)\<lparr>dirty := True\<rparr>"
    if i: "i < CACHE_BLOCKS" for i
  proof -
    have "blk st1 i = blk st i \<or> valid (blk st i) \<and> unlocked (blk st i) \<and> blk st1 i = (blk st i)\<lparr>dirty := True\<rparr>"
      "blk st2 i = blk st1 i \<or> valid (blk st1 i) \<and> unlocked (blk st1 i) \<and> blk st2 i = (blk st1 i)\<lparr>dirty := True\<rparr>"
      using d i by (auto simp: dirtied_def)
    then show ?thesis by (auto simp: unlocked_def)
  qed
  then show ?thesis using d by (simp add: dirtied_def)
qed

lemma dirtied_blk:
  assumes "dirtied st st'" "i < CACHE_BLOCKS"
  shows "valid (blk st' i) = valid (blk st i)" "csector (blk st' i) = csector (blk st i)"
    "cdata (blk st' i) = cdata (blk st i)" "rw (blk st' i) = rw (blk st i)"
    "unlocked (blk st' i) = unlocked (blk st i)" "recent_accesses (blk st' i) = recent_accesses (blk st i)"
    "dirty (blk st i) \<Longrightarrow> dirty (blk st' i)"
  using assms by (auto simp: dirtied_def unlocked_def)

lemma dirtied_holds: "dirtied st st' \<Longrightarrow> holds st' i s = holds st i s"
  using dirtied_blk [of st st' i] by (auto simp: holds_def)

lemma dirtied_inv:
  assumes inv: "cache_inv st" and d: "dirtied st st'"
  shows "cache_inv st'" "cview st' = cview st" "locks st' = locks st"
proof -
  have dv: "fs_device st' = fs_device st" "length (buffer st') = length (buffer st)" using d by (simp_all add: dirtied_def)
  have "block_ok (fs_device st') (blk st' i)" if i: "i < CACHE_BLOCKS" for i
    using cache_invD(3) [OF inv i] dirtied_blk [OF d i] dv by (auto simp: block_ok_def unlocked_def wlocked_def rlocked_def)
  then show "cache_inv st'"
    using inv dv dirtied_holds [OF d] by (auto simp: cache_inv_def)
  show "cview st' = cview st" "locks st' = locks st"
    using dirtied_holds [OF d] dirtied_blk [OF d] dv by (auto intro!: cache_view_cong simp: holds_def)
qed

text \<open>Locking an unlocked block for writing and giving it back.\<close>

lemma write_try_unlocked:
  assumes "unlocked (blk st i)"
  shows "cache_write_try i st = (upd_blk i (set_g 0) st, True)"
  using assms by (simp add: cache_write_try_def g_try_down_def unlocked_def)

lemma write_try_locked: "lk_g (rw (blk st i)) = 0 \<Longrightarrow> cache_write_try i st = (st, False)"
  by (simp add: cache_write_try_def g_try_down_def)

lemma upd_blk_upd:
  "length (buffer st) = CACHE_BLOCKS \<Longrightarrow> i < CACHE_BLOCKS \<Longrightarrow> upd_blk i f (upd_blk i h st) = upd_blk i (\<lambda>c. f (h c)) st"
  by (simp add: upd_blk_def blk_def)

lemma write_end_unlock:
  assumes "length (buffer st) = CACHE_BLOCKS" "i < CACHE_BLOCKS" "unlocked (blk st i)"
  shows "cache_write_end i (upd_blk i (set_g 0) st) = upd_blk i (\<lambda>c. c\<lparr>dirty := True\<rparr>) st"
proof -
  have "(set_g 1 (set_g 0 (blk st i)))\<lparr>dirty := True\<rparr> = (blk st i)\<lparr>dirty := True\<rparr>"
    using assms(3) by (simp add: set_g_def unlocked_def)
  then show ?thesis
    using assms(1,2) by (simp add: cache_write_end_def g_up_def upd_blk_upd blk_upd) (simp add: set_g_def upd_blk_def)
qed

lemma dirtied_mark:
  "cache_inv st \<Longrightarrow> i < CACHE_BLOCKS \<Longrightarrow> valid (blk st i) \<Longrightarrow> unlocked (blk st i) \<Longrightarrow>
   dirtied st (upd_blk i (\<lambda>c. c\<lparr>dirty := True\<rparr>) st)"
  using cache_invD(1) [of st] by (auto simp: dirtied_def blk_upd)

section \<open>Finding room\<close>

text \<open>
  The search for a free block: either it ends with a block that held nothing, locked for writing and
  marked as valid, or every block that is not locked holds a sector.
\<close>

lemma free_loop_spec:
  assumes "cache_inv st" "n \<le> CACHE_BLOCKS"
  obtains st1 where "dirtied st st1" "free_loop n st = (st1, None)"
      "\<forall>i. CACHE_BLOCKS - n \<le> i \<and> i < CACHE_BLOCKS \<longrightarrow> valid (blk st i)"
  | st1 i where "dirtied st st1" "i < CACHE_BLOCKS" "\<not> valid (blk st1 i)"
      "free_loop n st = (upd_blk i (\<lambda>c. (set_g 0 c)\<lparr>valid := True\<rparr>) st1, Some i)"
proof -
  have "(\<exists>st1. dirtied st st1 \<and> free_loop n st = (st1, None) \<and>
      (\<forall>i. CACHE_BLOCKS - n \<le> i \<and> i < CACHE_BLOCKS \<longrightarrow> valid (blk st i))) \<or>
    (\<exists>st1 i. dirtied st st1 \<and> i < CACHE_BLOCKS \<and> \<not> valid (blk st1 i) \<and>
      free_loop n st = (upd_blk i (\<lambda>c. (set_g 0 c)\<lparr>valid := True\<rparr>) st1, Some i))"
    using assms
  proof (induction n arbitrary: st)
    case (Suc n)
    define i where "i = CACHE_BLOCKS - Suc n"
    have i: "i < CACHE_BLOCKS" using Suc.prems(2) by (simp add: i_def)
    have range: "CACHE_BLOCKS - Suc n \<le> j \<longleftrightarrow> j = i \<or> CACHE_BLOCKS - n \<le> j" for j
      using Suc.prems(2) by (auto simp: i_def)
    note ok = cache_invD(3) [OF Suc.prems(1) i]
    note len = cache_invD(1) [OF Suc.prems(1)]
    show ?case
    proof (cases "unlocked (blk st i)")
      case False
      then have "lk_g (rw (blk st i)) = 0" "valid (blk st i)"
        using ok by (auto simp: block_ok_def unlocked_def wlocked_def rlocked_def split: if_splits)
      then have "free_loop (Suc n) st = free_loop n st"
        by (simp add: i_def [symmetric] write_try_locked)
      then show ?thesis using Suc.IH [OF Suc.prems(1)] Suc.prems(2) \<open>valid (blk st i)\<close> unfolding range by auto
    next
      case True
      show ?thesis
      proof (cases "valid (blk st i)")
        case False
        then have "free_loop (Suc n) st = (upd_blk i (\<lambda>c. (set_g 0 c)\<lparr>valid := True\<rparr>) st, Some i)"
          using write_try_unlocked [OF True] len i
          by (simp add: i_def [symmetric] blk_upd upd_blk_upd) (simp add: set_g_def)
        then show ?thesis using False i by (intro disjI2 exI [of _ st] exI [of _ i]) simp
      next
        case valid: True
        let ?st = "upd_blk i (\<lambda>c. c\<lparr>dirty := True\<rparr>) st"
        note d = dirtied_mark [OF Suc.prems(1) i valid True]
        have eq: "free_loop (Suc n) st = free_loop n ?st"
          using write_try_unlocked [OF True] write_end_unlock [OF len i True] valid len i
          by (simp add: i_def [symmetric] blk_upd) (simp add: set_g_def)
        have n: "n \<le> CACHE_BLOCKS" using Suc.prems(2) by simp
        from Suc.IH [OF dirtied_inv(1) [OF Suc.prems(1) d] n] show ?thesis
          unfolding eq range using dirtied_trans [OF d] dirtied_blk(1) [OF d] valid by blast
      qed
    qed
  qed auto
  then show ?thesis using that by blast
qed

text \<open>
  The choice of a victim among the unlocked blocks, all of which hold sectors: it is locked for
  writing, and none of the others has been used less recently.
\<close>

definition with_victim :: "nat option \<Rightarrow> fs \<Rightarrow> fs" where
  "with_victim v st = (case v of None \<Rightarrow> st | Some i \<Rightarrow> upd_blk i (set_g 0) st)"

definition evict_post :: "fs \<Rightarrow> (fs \<times> nat option) res \<Rightarrow> bool" where
  "evict_post st r \<longleftrightarrow> (\<exists>st1 v. r = Inr (with_victim v st1, v) \<and> dirtied st st1 \<and>
     (\<forall>j<CACHE_BLOCKS. unlocked (blk st1 j) \<longrightarrow>
        v \<noteq> None \<and> recent_accesses (blk st1 (the v)) \<le> recent_accesses (blk st1 j)) \<and>
     (\<forall>i. v = Some i \<longrightarrow> i < CACHE_BLOCKS \<and> unlocked (blk st1 i)))"

lemma evict_post_dirtied: "dirtied st st' \<Longrightarrow> evict_post st' r \<Longrightarrow> evict_post st r"
  unfolding evict_post_def by (elim exE conjE, intro exI conjI) (auto dest: dirtied_trans)

text \<open>What the loop has found when \<open>n\<close> blocks are left.\<close>

definition evict_pre :: "nat \<Rightarrow> nat option \<Rightarrow> u64 \<Rightarrow> fs \<Rightarrow> bool" where
  "evict_pre n v oldest st \<longleftrightarrow> cache_inv st \<and> n \<le> CACHE_BLOCKS \<and> (\<forall>i<CACHE_BLOCKS. valid (blk st i)) \<and>
     (\<forall>i. v = Some i \<longrightarrow> i < CACHE_BLOCKS - n \<and> unlocked (blk st i) \<and> recent_accesses (blk st i) = oldest) \<and>
     (\<forall>j<CACHE_BLOCKS - n. unlocked (blk st j) \<longrightarrow> v \<noteq> None \<and> oldest \<le> recent_accesses (blk st j)) \<and>
     (v = None \<longrightarrow> oldest = NOT 0)"

lemma evict_preI:
  assumes pre: "evict_pre (Suc n) v oldest st" and d: "dirtied st st'" and i: "i = CACHE_BLOCKS - Suc n"
    and v': "v' = v \<and> oldest' = oldest \<or> v' = Some i \<and> oldest' = recent_accesses (blk st i) \<and> unlocked (blk st i) \<and> oldest' \<le> oldest"
    and le: "unlocked (blk st i) \<longrightarrow> v' \<noteq> None \<and> oldest' \<le> recent_accesses (blk st i)"
  shows "evict_pre n v' oldest' st'"
proof -
  have n: "Suc n \<le> CACHE_BLOCKS" "i < CACHE_BLOCKS" using pre i by (auto simp: evict_pre_def)
  have less: "j < CACHE_BLOCKS - n \<longleftrightarrow> j = i \<or> j < CACHE_BLOCKS - Suc n" for j using n i by auto
  note b = dirtied_blk [OF d]
  have "\<forall>j. v' = Some j \<longrightarrow> j < CACHE_BLOCKS - n \<and> unlocked (blk st' j) \<and> recent_accesses (blk st' j) = oldest'"
    using v' pre n b(5,6) unfolding less by (auto simp: evict_pre_def)
  moreover have "\<forall>j<CACHE_BLOCKS - n. unlocked (blk st' j) \<longrightarrow> v' \<noteq> None \<and> oldest' \<le> recent_accesses (blk st' j)"
  proof (intro allI impI)
    fix j assume j: "j < CACHE_BLOCKS - n" "unlocked (blk st' j)"
    then have u: "unlocked (blk st j)" "recent_accesses (blk st' j) = recent_accesses (blk st j)"
      using b(5,6) [of j] by auto
    show "v' \<noteq> None \<and> oldest' \<le> recent_accesses (blk st' j)"
    proof (cases "j = i")
      case False
      then have "v \<noteq> None" "oldest \<le> recent_accesses (blk st j)" using j less pre u by (auto simp: evict_pre_def)
      moreover have "oldest' \<le> oldest" "v \<noteq> None \<longrightarrow> v' \<noteq> None" using v' by auto
      ultimately show ?thesis using u(2) by (metis order_trans)
    qed (use u le in auto)
  qed
  ultimately show ?thesis
    using pre dirtied_inv(1) [OF _ d] b(1) v' unfolding evict_pre_def by auto
qed

lemma evict_loop_spec: "evict_pre n v oldest st \<Longrightarrow> evict_post st (evict_loop n v oldest (with_victim v st))"
proof (induction n arbitrary: st v oldest)
  case 0
  then show ?case unfolding evict_post_def by (intro exI [of _ st] exI [of _ v]) (auto simp: evict_pre_def)
next
  case (Suc n)
  note pre = Suc.prems
  define i where "i = CACHE_BLOCKS - Suc n"
  have inv: "cache_inv st" and i: "i < CACHE_BLOCKS" and val: "valid (blk st i)"
    and vv: "\<And>j. v = Some j \<Longrightarrow> j < i \<and> unlocked (blk st j)"
    using pre by (auto simp: evict_pre_def i_def)
  note len = cache_invD(1) [OF inv] and ok = cache_invD(3) [OF inv i]
  have bi: "blk (with_victim v st) i = blk st i"
    using vv len i by (auto simp: with_victim_def blk_upd split: option.splits)
  show ?case
  proof (cases "unlocked (blk st i)")
    case False
    then have "lk_g (rw (blk st i)) = 0"
      using ok by (auto simp: block_ok_def unlocked_def wlocked_def rlocked_def split: if_splits)
    then have e: "evict_loop (Suc n) v oldest (with_victim v st) = evict_loop n v oldest (with_victim v st)"
      using bi by (simp add: i_def [symmetric] write_try_locked)
    show ?thesis unfolding e by (rule Suc.IH, rule evict_preI [OF pre dirtied_refl i_def]) (use False in auto)
  next
    case True
    let ?m = "\<lambda>j. upd_blk j (\<lambda>c. c\<lparr>dirty := True\<rparr>) st"
    have tr: "cache_write_try i (with_victim v st) = (upd_blk i (set_g 0) (with_victim v st), True)"
      by (rule write_try_unlocked) (simp add: bi True)
    have lenv: "length (buffer (with_victim v st)) = CACHE_BLOCKS"
      using len by (simp add: with_victim_def split: option.splits)
    have bj: "blk (upd_blk i (set_g 0) (with_victim v st)) i = set_g 0 (blk st i)"
      using lenv i by (simp add: blk_upd bi)
    have comm: "upd_blk i f (upd_blk j h st) = upd_blk j h (upd_blk i f st)" if "j < i" for f h j
      using that len i by (simp add: upd_blk_def blk_def list_update_swap)
    show ?thesis
    proof (cases "recent_accesses (blk st i) \<le> oldest")
      case le: True
      define st' where "st' = (case v of None \<Rightarrow> st | Some j \<Rightarrow> ?m j)"
      have d: "dirtied st st'"
        using inv i vv dirtied_mark pre by (auto simp: st'_def evict_pre_def split: option.splits)
      have e: "evict_loop (Suc n) v oldest (with_victim v st) =
          evict_loop n (Some i) (recent_accesses (blk st i)) (with_victim (Some i) st')"
      proof (cases v)
        case None
        then show ?thesis using tr bj le val
          by (simp add: i_def [symmetric] st'_def) (simp add: with_victim_def set_g_def)
      next
        case (Some j)
        then have j: "j < i" "unlocked (blk st j)" using vv by auto
        have "cache_write_end j (upd_blk i (set_g 0) (upd_blk j (set_g 0) st)) = upd_blk i (set_g 0) (?m j)"
          using write_end_unlock [of "upd_blk i (set_g 0) st" j] j len comm [OF j(1)] i by (simp add: blk_upd)
        then show ?thesis using tr bj le val Some
          by (simp add: i_def [symmetric] st'_def) (simp add: with_victim_def set_g_def)
      qed
      show ?thesis unfolding e
        by (rule evict_post_dirtied [OF d], rule Suc.IH, rule evict_preI [OF pre d i_def]) (use le True in auto)
    next
      case gt: False
      have "v \<noteq> None" using gt pre by (auto simp: evict_pre_def)
      then obtain j where j: "v = Some j" "j < i" using vv by auto
      have "cache_write_end i (upd_blk i (set_g 0) (with_victim v st)) = with_victim v (?m i)"
        using write_end_unlock [OF lenv i] bi True comm [OF j(2)] j(1) by (simp add: with_victim_def)
      then have e: "evict_loop (Suc n) v oldest (with_victim v st) = evict_loop n v oldest (with_victim v (?m i))"
        using tr bj gt val by (simp add: i_def [symmetric]) (simp add: set_g_def)
      note d = dirtied_mark [OF inv i val True]
      show ?thesis unfolding e
        by (rule evict_post_dirtied [OF d], rule Suc.IH, rule evict_preI [OF pre d i_def]) (use gt j in auto)
    qed
  qed
qed

section \<open>Changing one block\<close>

definition FREE :: rw_lock where
  "FREE = \<lparr>lk_g = 1, lk_b = 0\<rparr>"

lemma unlocked_FREE: "unlocked c \<longleftrightarrow> rw c = FREE"
  by (auto simp: unlocked_def FREE_def)

lemma upd_held:
  assumes inv: "cache_inv st" and h: "holds st i s"
    and c: "valid (f (blk st i))" "csector (f (blk st i)) = s" "block_ok (fs_device st) (f (blk st i))"
  shows "cache_inv (upd_blk i f st)" "cview (upd_blk i f st) = (cview st)(s := cdata (f (blk st i)))"
    "locks (upd_blk i f st) = (locks st)(s := rw (f (blk st i)))" "holds (upd_blk i f st) = holds st"
proof -
  let ?st = "upd_blk i f st"
  have i: "i < CACHE_BLOCKS" "length (buffer st) = CACHE_BLOCKS" using h cache_invD(1) [OF inv] by (auto simp: holds_def)
  note bl = blk_upd [OF i(2,1)]
  show hd: "holds ?st = holds st" using h c by (auto simp: holds_def bl fun_eq_iff)
  have "block_ok (fs_device ?st) (blk ?st j)" if "j < CACHE_BLOCKS" for j
    using cache_invD(3) [OF inv that] c(3) by (simp add: bl)
  then show inv': "cache_inv ?st" using inv by (auto simp: cache_inv_def hd)
  have "cview ?st t = ((cview st)(s := cdata (f (blk st i)))) t \<and> locks ?st t = ((locks st)(s := rw (f (blk st i)))) t" for t
  proof (cases "\<exists>j. holds st j t")
    case True
    then obtain j where j: "holds st j t" by blast
    then have j': "holds ?st j t" by (simp add: hd)
    have "t = s \<longleftrightarrow> j = i" using cache_invD(4) [OF inv] h j by (auto simp: holds_def)
    then show ?thesis using cview_holds [OF inv j] cview_holds [OF inv' j'] by (auto simp: bl)
  next
    case False
    then have "t \<noteq> s" "\<And>j. \<not> holds ?st j t" using h by (auto simp: hd)
    then show ?thesis using False cview_not_held [of st t] cview_not_held [of ?st t] by auto
  qed
  then show "cview ?st = (cview st)(s := cdata (f (blk st i)))" "locks ?st = (locks st)(s := rw (f (blk st i)))"
    by auto
qed

text \<open>A new sector in an unlocked block, whose old sector has been written back if it was dirty.\<close>

lemma replace_block:
  assumes inv: "cache_inv st" and v: "v < CACHE_BLOCKS" "unlocked (blk st v)"
    and s: "s \<noteq> 0" "s < blk_size (fs_device st)" "\<And>i. \<not> holds st i s"
    and d: "device_ok (fs_device st')" "blk_size (fs_device st') = blk_size (fs_device st)"
      "blk_aux (fs_device st') = (if valid (blk st v) \<and> dirty (blk st v)
         then (blk_aux (fs_device st))(csector (blk st v) := cdata (blk st v)) else blk_aux (fs_device st))"
    and st': "length (buffer st') = CACHE_BLOCKS" "\<And>j. j \<noteq> v \<Longrightarrow> blk st' j = blk st j"
    and c: "valid (blk st' v)" "csector (blk st' v) = s" "cdata (blk st' v) = blk_aux (fs_device st) s"
      "rlocked (blk st' v)"
  shows "cache_inv st'" "cview st' = cview st" "locks st' = (locks st)(s := rw (blk st' v))" "holds st' v s"
    "\<And>j t. j \<noteq> v \<Longrightarrow> holds st' j t = holds st j t"
proof -
  note ok = cache_invD(3) [OF inv]
  show hv: "holds st' v s" using c v by (simp add: holds_def)
  show hj: "holds st' j t = holds st j t" if "j \<noteq> v" for j t using st'(2) [OF that] by (simp add: holds_def)
  have aux: "blk_aux (fs_device st') t = blk_aux (fs_device st) t" if "\<not> holds st v t" for t
    using that d(3) v(1) by (auto simp: holds_def)
  have vs: "blk_aux (fs_device st') s = blk_aux (fs_device st) s" using aux s(3) by blast
  have uniq: "i = j" if "holds st' i t" "holds st' j t" for i j t
    using that hv hj s(3) cache_invD(4) [OF inv] by (metis holds_def)
  have "block_ok (fs_device st') (blk st' j)" if j: "j < CACHE_BLOCKS" for j
  proof (cases "j = v")
    case True
    then show ?thesis
      using c s vs d cache_invD(2) [OF inv] by (auto simp: block_ok_def device_ok_def)
  next
    case False
    then have "\<not> holds st v (csector (blk st j))" if "valid (blk st j)"
      using cache_invD(4) [OF inv, of v _ j] that j by (auto simp: holds_def)
    then show ?thesis using ok [OF j] aux st'(2) [OF False] d(2) by (auto simp: block_ok_def split: if_splits)
  qed
  then show inv': "cache_inv st'" using st'(1) d(1) uniq by (auto simp: cache_inv_def)
  have "cview st' t = cview st t \<and> locks st' t = ((locks st)(s := rw (blk st' v))) t" for t
  proof (cases "t = s")
    case True
    then show ?thesis using cview_holds [OF inv' hv] cview_not_held [OF s(3)] c(3) by simp
  next
    case False
    then have nv: "\<not> holds st' v t" using c(2) by (auto simp: holds_def)
    show ?thesis
    proof (cases "\<exists>j. holds st j t \<and> j \<noteq> v")
      case True
      then obtain j where j: "holds st j t" "j \<noteq> v" by blast
      then have "holds st' j t" using hj by simp
      then show ?thesis using cview_holds [OF inv j(1)] cview_holds [OF inv'] st'(2) [OF j(2)] False by simp
    next
      case n: False
      then have n': "\<not> holds st' j t" for j using nv hj by metis
      note new = cview_not_held [OF n']
      show ?thesis
      proof (cases "holds st v t")
        case True
        then have "blk_aux (fs_device st') t = cdata (blk st v)"
          using ok [OF v(1)] v(2) d(3) by (auto simp: block_ok_def holds_def unlocked_def wlocked_def)
        then show ?thesis using cview_holds [OF inv True] new False v(2) by (simp add: unlocked_def)
      next
        case nh: False
        then have "\<not> holds st j t" for j using n by metis
        from cview_not_held [OF this] show ?thesis using new aux [OF nh] False by simp
      qed
    qed
  qed
  then show "cview st' = cview st" "locks st' = (locks st)(s := rw (blk st' v))" by auto
qed

lemma match_loop_Some: "n \<le> CACHE_BLOCKS \<Longrightarrow> match_loop n s st = Some i \<Longrightarrow> i < CACHE_BLOCKS \<and> csector (blk st i) = s"
  by (induction n) (auto simp: Let_def split: if_splits)

lemma match_loop_None:
  "match_loop n s st = None \<Longrightarrow> n \<le> CACHE_BLOCKS \<Longrightarrow> CACHE_BLOCKS - n \<le> i \<Longrightarrow> i < CACHE_BLOCKS \<Longrightarrow> csector (blk st i) \<noteq> s"
proof (induction n)
  case (Suc n)
  then show ?case by (cases "i = CACHE_BLOCKS - Suc n") (auto simp: Let_def split: if_splits)
qed simp

lemma match_holds:
  assumes "cache_inv st" "s \<noteq> 0"
  shows "match_loop CACHE_BLOCKS s st = Some i \<Longrightarrow> holds st i s" "match_loop CACHE_BLOCKS s st = None \<Longrightarrow> \<not> holds st i s"
  using match_loop_Some [of CACHE_BLOCKS s st i] match_loop_None [of CACHE_BLOCKS s st i] cache_invD(3) [OF assms(1), of i] assms(2)
  by (auto simp: holds_def block_ok_def split: if_splits)


section \<open>Bringing a sector into the cache\<close>

text \<open>
  \<open>taken st0 st v\<close>: block \<open>v\<close> was unlocked in \<open>st0\<close>, is locked for writing in \<open>st\<close>, and what it held
  is safe on the device.
\<close>

definition taken :: "fs \<Rightarrow> fs \<Rightarrow> nat \<Rightarrow> bool" where
  "taken st0 st v \<longleftrightarrow> cache_inv st0 \<and> v < CACHE_BLOCKS \<and> unlocked (blk st0 v) \<and>
     length (buffer st) = CACHE_BLOCKS \<and> (\<forall>j. j \<noteq> v \<longrightarrow> blk st j = blk st0 j) \<and> valid (blk st v) \<and> wlocked (blk st v) \<and>
     device_ok (fs_device st) \<and> blk_size (fs_device st) = blk_size (fs_device st0) \<and>
     blk_aux (fs_device st) = (if valid (blk st0 v) \<and> dirty (blk st0 v)
         then (blk_aux (fs_device st0))(csector (blk st0 v) := cdata (blk st0 v)) else blk_aux (fs_device st0))"

lemma set_g_simps [simp]:
  "valid (set_g v c) = valid c" "csector (set_g v c) = csector c" "cdata (set_g v c) = cdata c"
  "dirty (set_g v c) = dirty c" "recent_accesses (set_g v c) = recent_accesses c" "accessed (set_g v c) = accessed c"
  "lk_g (rw (set_g v c)) = v" "lk_b (rw (set_g v c)) = lk_b (rw c)"
  "valid (add_b d c) = valid c" "csector (add_b d c) = csector c" "cdata (add_b d c) = cdata c"
  "dirty (add_b d c) = dirty c" "recent_accesses (add_b d c) = recent_accesses c" "accessed (add_b d c) = accessed c"
  "lk_g (rw (add_b d c)) = lk_g (rw c)" "lk_b (rw (add_b d c)) = lk_b (rw c) + d"
  by (simp_all add: set_g_def add_b_def)

lemma cache_evict_taken:
  assumes inv: "cache_inv st" and val: "\<forall>i<CACHE_BLOCKS. valid (blk st i)" and u: "\<exists>i<CACHE_BLOCKS. unlocked (blk st i)"
  obtains st1 st' v where "dirtied st st1" "cache_evict st = Inr (st', v)" "taken st1 st' v"
    "\<forall>j<CACHE_BLOCKS. unlocked (blk st1 j) \<longrightarrow> recent_accesses (blk st1 v) \<le> recent_accesses (blk st1 j)"
proof -
  have "evict_pre CACHE_BLOCKS None (NOT 0) st" using inv val by (simp add: evict_pre_def)
  then have "evict_post st (evict_loop CACHE_BLOCKS None (NOT 0) st)"
    using evict_loop_spec [of CACHE_BLOCKS None "NOT 0" st] by (simp add: with_victim_def)
  then obtain st1 v where e: "evict_loop CACHE_BLOCKS None (NOT 0) st = Inr (with_victim v st1, v)" and d: "dirtied st st1"
    and m: "\<forall>j<CACHE_BLOCKS. unlocked (blk st1 j) \<longrightarrow> v \<noteq> None \<and> recent_accesses (blk st1 (the v)) \<le> recent_accesses (blk st1 j)"
    and vu: "\<forall>i. v = Some i \<longrightarrow> i < CACHE_BLOCKS \<and> unlocked (blk st1 i)"
    unfolding evict_post_def by (elim exE conjE)
  from u obtain j where "j < CACHE_BLOCKS" "unlocked (blk st j)" by blast
  then have "v \<noteq> None" using m dirtied_blk(5) [OF d] by simp
  then obtain i where i: "v = Some i" "i < CACHE_BLOCKS" "unlocked (blk st1 i)" using vu by auto
  note inv1 = dirtied_inv(1) [OF inv d]
  let ?st = "upd_blk i (set_g 0) st1"
  have len: "length (buffer st1) = CACHE_BLOCKS" using cache_invD(1) [OF inv1] .
  have bl: "blk ?st j = (if j = i then set_g 0 (blk st1 i) else blk st1 j)" for j using len i(2) by (rule blk_upd)
  have v1: "valid (blk st1 i)" using dirtied_blk(1) [OF d i(2)] val i(2) by simp
  have ok: "csector (blk st1 i) < blk_size (fs_device st1)" "length (cdata (blk st1 i)) = BLOCK_SECTOR_SIZE"
    using cache_invD(3) [OF inv1 i(2)] v1 by (auto simp: block_ok_def)
  have w: "wlocked (set_g 0 (blk st1 i))" using i(3) by (simp add: wlocked_def unlocked_def)
  note dv = cache_invD(2) [OF inv1]
  obtain d' where d': "block_write (fs_device st1) (csector (blk st1 i)) (cdata (blk st1 i)) = Inr d'"
      "blk_aux d' = (blk_aux (fs_device st1))(csector (blk st1 i) := cdata (blk st1 i))"
      "blk_size d' = blk_size (fs_device st1)" "device_ok d'"
    using device_transfer(2) [OF dv ok(1,2)] by blast
  let ?st' = "if dirty (blk st1 i) then ?st\<lparr>fs_device := d'\<rparr> else ?st"
  have "cache_evict st = Inr (?st', i)"
    using e i(1) d'(1) by (simp add: cache_evict_def with_victim_def bl)
  moreover have "taken st1 ?st' i"
    using inv1 i(2,3) len bl v1 w d' dv by (auto simp: taken_def)
  ultimately show ?thesis using that [OF d] m i(1) by auto
qed

lemma import_taken:
  assumes t: "taken st0 st v" and s: "s \<noteq> 0" "s < blk_size (fs_device st0)" "\<And>i. \<not> holds st0 i s"
    and d: "block_read (fs_device st) s = Inr (d, buf)"
  defines "st' \<equiv> upd_blk v (\<lambda>c. c\<lparr>cdata := buf, csector := s, dirty := False, recent_accesses := 0\<rparr>) (st\<lparr>fs_device := d\<rparr>)"
  shows "\<exists>st''. cache_downgrade v st' = Inr st'' \<and> cache_inv st'' \<and> cview st'' = cview st0 \<and>
    locks st'' = (locks st0)(s := \<lparr>lk_g = 0, lk_b = 1\<rparr>) \<and> holds st'' v s \<and>
    blk_size (fs_device st'') = blk_size (fs_device st0) \<and> (\<forall>j t. j \<noteq> v \<longrightarrow> holds st'' j t = holds st0 j t)"
proof -
  have len: "length (buffer st) = CACHE_BLOCKS" "v < CACHE_BLOCKS" using t by (simp_all add: taken_def)
  have len': "length (buffer (st\<lparr>fs_device := d\<rparr>)) = CACHE_BLOCKS" using len by simp
  obtain d' where d': "block_read (fs_device st) s = Inr (d', blk_aux (fs_device st) s)" "blk_aux d' = blk_aux (fs_device st)"
      "blk_size d' = blk_size (fs_device st)" "device_ok d'"
    using device_transfer(1) [of "fs_device st" s] t s(2) by (auto simp: taken_def)
  then have dd: "d' = d" "buf = blk_aux (fs_device st) s" using d by auto
  have bl: "blk st' j = (if j = v then (blk st v)\<lparr>cdata := buf, csector := s, dirty := False, recent_accesses := 0\<rparr> else blk st j)" for j
    using blk_upd [OF len' len(2)] by (simp add: st'_def)
  have w: "lk_g (rw (blk st v)) = 0" "lk_b (rw (blk st v)) = 0" "valid (blk st v)" using t by (auto simp: taken_def wlocked_def)
  let ?st = "upd_blk v (add_b 1) st'"
  have lst: "length (buffer st') = CACHE_BLOCKS" using len by (simp add: st'_def)
  have bl2: "blk ?st j = (if j = v then add_b 1 (blk st' v) else blk st j)" for j
    using blk_upd [OF lst len(2)] bl by simp
  have down: "cache_downgrade v st' = Inr ?st" using w bl by (simp add: cache_downgrade_def)
  have buf: "buf = blk_aux (fs_device st0) s"
    using dd(2) t s(3) [of v] by (auto simp: taken_def holds_def)
  have r: "rw (blk ?st v) = \<lparr>lk_g = 0, lk_b = 1\<rparr>" using w bl bl2 by (simp add: add_b_def)
  have dv: "fs_device st' = d" by (simp add: st'_def)
  have inv0: "cache_inv st0" "unlocked (blk st0 v)" using t by (simp_all add: taken_def)
  note rep = replace_block [OF inv0(1) len(2) inv0(2) s, of ?st]
  have p: "device_ok (fs_device ?st)" "blk_size (fs_device ?st) = blk_size (fs_device st0)"
    "blk_aux (fs_device ?st) = (if valid (blk st0 v) \<and> dirty (blk st0 v)
       then (blk_aux (fs_device st0))(csector (blk st0 v) := cdata (blk st0 v)) else blk_aux (fs_device st0))"
    "length (buffer ?st) = CACHE_BLOCKS" "\<And>j. j \<noteq> v \<Longrightarrow> blk ?st j = blk st0 j" "valid (blk ?st v)"
    "csector (blk ?st v) = s" "cdata (blk ?st v) = blk_aux (fs_device st0) s" "rlocked (blk ?st v)"
    using d'(3,4) dd(1) t by (simp_all add: dv taken_def) (use d'(2) dd(1) t bl bl2 w lst buf in \<open>simp_all add: taken_def rlocked_def\<close>)
  from rep [OF p] show ?thesis using down r p(2) by auto
qed

lemma import_block_ok:
  assumes inv: "cache_inv st" and s: "s \<noteq> 0" "s < blk_size (fs_device st)" "\<And>i. \<not> holds st i s"
    and u: "\<exists>i<CACHE_BLOCKS. unlocked (blk st i)"
  obtains st' v where "import_block s st = Inr (st', v)" "cache_inv st'" "cview st' = cview st"
    "locks st' = (locks st)(s := \<lparr>lk_g = 0, lk_b = 1\<rparr>)" "holds st' v s"
    "blk_size (fs_device st') = blk_size (fs_device st)"
    "\<And>j t. holds st j t \<Longrightarrow> locks st t \<noteq> FREE \<Longrightarrow> holds st' j t"
    "\<And>j t. holds st' j t \<Longrightarrow> (\<exists>i. holds st i t) \<or> t = s"
proof -
  note result = that
  have *: thesis if d: "dirtied st st0" and t: "taken st0 st1 v"
    and r: "(case free_loop CACHE_BLOCKS st of (st, Some i) \<Rightarrow> Inr (st, i) | (st, None) \<Rightarrow> cache_evict st) = Inr (st1, v)"
    for st0 st1 v
  proof -
    have h: "holds st0 i t = holds st i t" for i t using dirtied_holds [OF d] .
    have dev: "fs_device st0 = fs_device st" using d by (simp add: dirtied_def)
    have t': "s < blk_size (fs_device st1)" "device_ok (fs_device st1)" using t s(2) dev by (auto simp: taken_def)
    obtain d1 where b: "block_read (fs_device st1) s = Inr (d1, blk_aux (fs_device st1) s)"
      using device_transfer(1) [OF t'(2,1)] by blast
    have s0: "s < blk_size (fs_device st0)" "\<And>i. \<not> holds st0 i s" using s h dev by auto
    from import_taken [OF t s(1) s0 b] obtain st2 where
      st2: "cache_downgrade v (upd_blk v (\<lambda>c. c\<lparr>cdata := blk_aux (fs_device st1) s, csector := s, dirty := False, recent_accesses := 0\<rparr>)
          (st1\<lparr>fs_device := d1\<rparr>)) = Inr st2" "cache_inv st2" "cview st2 = cview st0"
        "locks st2 = (locks st0)(s := \<lparr>lk_g = 0, lk_b = 1\<rparr>)" "holds st2 v s"
        "blk_size (fs_device st2) = blk_size (fs_device st0)" "\<forall>j t. j \<noteq> v \<longrightarrow> holds st2 j t = holds st0 j t"
      by blast
    have "import_block s st = Inr (st2, v)" using r b st2(1) by (simp add: import_block_def Let_def)
    then show thesis
    proof (rule result)
      show "cview st2 = cview st" "locks st2 = (locks st)(s := \<lparr>lk_g = 0, lk_b = 1\<rparr>)"
        using st2(3,4) dirtied_inv(2,3) [OF inv d] by simp_all
      show "holds st2 j t" if "holds st j t" "locks st t \<noteq> FREE" for j t
      proof -
        have "rw (blk st j) \<noteq> FREE" using cview_holds(2) [OF inv that(1)] that(2) by simp
        moreover have "j < CACHE_BLOCKS" using that(1) by (simp add: holds_def)
        ultimately have "j \<noteq> v" using t dirtied_blk(4) [OF d, of v] by (auto simp: taken_def unlocked_FREE)
        then show ?thesis using st2(7) h that(1) by simp
      qed
      show "(\<exists>i. holds st i t) \<or> t = s" if "holds st2 j t" for j t
        using that st2(5,7) h by (cases "j = v") (auto simp: holds_def)
    qed (use st2 dev in auto)
  qed
  from free_loop_spec [OF inv order_refl] show thesis
  proof cases
    case (1 st1)
    note inv1 = dirtied_inv(1) [OF inv 1(1)]
    have a: "\<forall>i<CACHE_BLOCKS. valid (blk st1 i)" "\<exists>i<CACHE_BLOCKS. unlocked (blk st1 i)"
      using 1(3) u dirtied_blk(1,5) [OF 1(1)] by auto
    obtain st2 st3 v where "dirtied st1 st2" "cache_evict st1 = Inr (st3, v)" "taken st2 st3 v"
      by (rule cache_evict_taken [OF inv1 a])
    then show thesis using * [OF dirtied_trans [OF 1(1)]] 1(2) by simp
  next
    case (2 st1 i)
    note inv1 = dirtied_inv(1) [OF inv 2(1)]
    note len = cache_invD(1) [OF inv1]
    have u1: "unlocked (blk st1 i)" using cache_invD(3) [OF inv1 2(2)] 2(3) by (auto simp: block_ok_def)
    let ?st = "upd_blk i (\<lambda>c. (set_g 0 c)\<lparr>valid := True\<rparr>) st1"
    have bl: "blk ?st j = (if j = i then (set_g 0 (blk st1 i))\<lparr>valid := True\<rparr> else blk st1 j)" for j
      using blk_upd [OF len 2(2)] .
    have "taken st1 ?st i"
      using inv1 2(2,3) u1 len cache_invD(2) [OF inv1] by (auto simp: taken_def bl wlocked_def unlocked_def)
    then show thesis using * [OF 2(1)] 2(4) by simp
  qed
qed


section \<open>The operations of the cache\<close>

text \<open>While fewer than 64 sectors are locked, some block is unlocked.\<close>

definition held :: "(u32 \<Rightarrow> rw_lock) \<Rightarrow> u32 set" where
  "held L = {s. L s \<noteq> FREE}"

lemma unlocked_exists:
  assumes inv: "cache_inv st" and c: "card (held (locks st)) < CACHE_BLOCKS"
  shows "\<exists>i<CACHE_BLOCKS. unlocked (blk st i)"
proof (rule ccontr)
  assume n: "\<not> ?thesis"
  have h: "holds st i (csector (blk st i))" if "i < CACHE_BLOCKS" for i
    using that n cache_invD(3) [OF inv that] by (auto simp: holds_def block_ok_def split: if_splits)
  have "inj_on (\<lambda>i. csector (blk st i)) {..<CACHE_BLOCKS}"
    using h cache_invD(4) [OF inv] by (intro inj_onI) (metis lessThan_iff)
  moreover have "(\<lambda>i. csector (blk st i)) ` {..<CACHE_BLOCKS} \<subseteq> held (locks st)"
    using h n cview_holds(2) [OF inv h] by (auto simp: held_def unlocked_FREE)
  moreover have "held (locks st) \<subseteq> (\<lambda>i. csector (blk st i)) ` {..<CACHE_BLOCKS}"
    by (auto simp: held_def locks_def holds_def FREE_def split: if_splits)
  ultimately have "card (held (locks st)) = CACHE_BLOCKS"
    by (metis card_image card_lessThan subset_antisym)
  then show False using c by simp
qed

text \<open>
  \<open>quiet st st' L\<close>: what a step of the cache that changes no sector leaves, with \<open>L\<close> as the locks
  afterwards. A sector that is locked throughout stays in its block, and a sector that the step brings
  into the cache is locked.
\<close>

definition quiet :: "fs \<Rightarrow> fs \<Rightarrow> (u32 \<Rightarrow> rw_lock) \<Rightarrow> bool" where
  "quiet st st' L \<longleftrightarrow> cache_inv st' \<and> cview st' = cview st \<and> locks st' = L \<and>
     blk_size (fs_device st') = blk_size (fs_device st) \<and>
     (\<forall>j t. holds st j t \<longrightarrow> locks st t \<noteq> FREE \<longrightarrow> holds st' j t) \<and>
     (\<forall>j t. holds st' j t \<longrightarrow> (\<exists>i. holds st i t) \<or> L t \<noteq> FREE)"

lemma rw_upd_b: "lk_g r = 0 \<Longrightarrow> r\<lparr>lk_b := x\<rparr> = \<lparr>lk_g = 0, lk_b = x\<rparr>"
  by (cases r) simp

lemma rw_upd_bg: "r\<lparr>lk_b := x, lk_g := y\<rparr> = \<lparr>lk_g = y, lk_b = x\<rparr>"
  by (cases r) simp

lemma rw_idem: "rw c = r \<Longrightarrow> c\<lparr>rw := r\<rparr> = c" "rw c = r \<Longrightarrow> c\<lparr>dirty := v, rw := r\<rparr> = c\<lparr>dirty := v\<rparr>"
  by auto

lemma find_block_ok:
  assumes inv: "cache_inv st" and s: "s \<noteq> 0" "s < blk_size (fs_device st)"
    and l: "locks st s = FREE \<or> 0 < lk_b (locks st s)" and c: "card (held (locks st)) < CACHE_BLOCKS"
  obtains st' i where "find_block s st = Inr (st', i)" "holds st' i s"
    "quiet st st' ((locks st)(s := \<lparr>lk_g = 0, lk_b = lk_b (locks st s) + 1\<rparr>))"
proof -
  define A :: "cache_block \<Rightarrow> cache_block" where "A = (\<lambda>c. c\<lparr>accessed := True, recent_accesses := recent_accesses c OR push_bit 63 1\<rparr>)"
  let ?L = "(locks st)(s := \<lparr>lk_g = 0, lk_b = lk_b (locks st s) + 1\<rparr>)"
  have fin: "quiet st (upd_blk i A (st1\<lparr>next_block := s + 1, read_ahead := True\<rparr>)) ?L \<and>
      holds (upd_blk i A (st1\<lparr>next_block := s + 1, read_ahead := True\<rparr>)) i s"
    if q: "quiet st st1 ?L" and h: "holds st1 i s" for st1 i
  proof -
    let ?s = "st1\<lparr>next_block := s + 1, read_ahead := True\<rparr>"
    have e: "holds ?s = holds st1" by (simp add: holds_def fun_eq_iff)
    have v: "cview ?s = cview st1" "locks ?s = locks st1"
      by (rule cache_view_cong; simp add: e)+
    have i1: "cache_inv ?s" using q by (simp add: quiet_def cache_inv_def e)
    have h1: "holds ?s i s" using h by (simp add: e)
    have a: "valid (A (blk ?s i))" "csector (A (blk ?s i)) = s" "block_ok (fs_device ?s) (A (blk ?s i))"
      "cdata (A (blk ?s i)) = cdata (blk ?s i)" "rw (A (blk ?s i)) = rw (blk ?s i)"
      using h1 cache_invD(3) [OF i1, of i]
      by (auto simp: A_def holds_def block_ok_def unlocked_def wlocked_def rlocked_def)
    note u = upd_held [where f = A, OF i1 h1 a(1-3)]
    have "cview (upd_blk i A ?s) = cview st1" "locks (upd_blk i A ?s) = locks st1"
      using u(2,3) a(4,5) cview_holds [OF i1 h1] v by (simp_all add: fun_upd_idem)
    then show ?thesis using u(1,4) q h e by (simp add: quiet_def)
  qed
  show ?thesis
  proof (cases "match_loop CACHE_BLOCKS s st")
    case (Some i)
    note h = match_holds(1) [OF inv s(1) Some]
    have i: "i < CACHE_BLOCKS" "length (buffer st) = CACHE_BLOCKS" using h cache_invD(1) [OF inv] by (auto simp: holds_def)
    note bl = blk_upd [OF i(2,1)]
    have rw: "rw (blk st i) = locks st s" using cview_holds(2) [OF inv h] by simp
    let ?f = "\<lambda>c. c\<lparr>rw := \<lparr>lk_g = 0, lk_b = lk_b (rw c) + 1\<rparr>\<rparr>"
    have beg: "cache_read_begin i st = Inr (upd_blk i ?f st)"
    proof (cases "locks st s = FREE")
      case True
      then show ?thesis using rw bl upd_blk_upd [OF i(2,1)]
        by (simp add: cache_read_begin_def g_down_def FREE_def Let_def) (simp add: upd_blk_def set_g_def add_b_def)
    next
      case False
      then have "lk_g (rw (blk st i)) = 0" "0 < lk_b (rw (blk st i))"
        using l rw cache_invD(3) [OF inv i(1)] by (auto simp: block_ok_def unlocked_def wlocked_def rlocked_def split: if_splits)
      then show ?thesis using bl by (simp add: cache_read_begin_def Let_def) (simp add: upd_blk_def add_b_def rw_upd_b)
    qed
    have a: "valid (?f (blk st i))" "csector (?f (blk st i)) = s" "block_ok (fs_device st) (?f (blk st i))"
      using h l rw cache_invD(3) [OF inv i(1)]
      by (auto simp: holds_def block_ok_def unlocked_def wlocked_def rlocked_def FREE_def)
    note u = upd_held [where f = ?f, OF inv h a]
    have "quiet st (upd_blk i ?f st) ?L"
      using u(1-4) rw cview_holds(1) [OF inv h] by (simp add: quiet_def fun_upd_idem) blast
    note f = fin [OF this, of i]
    have "csector (blk (upd_blk i ?f st) i) = s" using bl a(2) by simp
    then have "find_block s st = Inr (upd_blk i A ((upd_blk i ?f st)\<lparr>next_block := s + 1, read_ahead := True\<rparr>), i)"
      using s(2) Some beg by (simp add: find_block_def A_def)
    then show ?thesis using that f u(4) h by simp
  next
    case None
    have nh: "\<not> holds st j s" for j using match_holds(2) [OF inv s(1) None] .
    have L: "locks st s = FREE" using cview_not_held(2) [OF nh] by (simp add: FREE_def)
    from import_block_ok [OF inv s nh unlocked_exists [OF inv c]] obtain st1 v where
      r: "import_block s st = Inr (st1, v)" "cache_inv st1" "cview st1 = cview st"
        "locks st1 = (locks st)(s := \<lparr>lk_g = 0, lk_b = 1\<rparr>)" "holds st1 v s"
        "blk_size (fs_device st1) = blk_size (fs_device st)"
        "\<And>j t. holds st j t \<Longrightarrow> locks st t \<noteq> FREE \<Longrightarrow> holds st1 j t"
        "\<And>j t. holds st1 j t \<Longrightarrow> (\<exists>i. holds st i t) \<or> t = s" by blast
    then have "quiet st st1 ?L" using L by (auto simp: quiet_def FREE_def)
    note f = fin [OF this r(5)]
    have "find_block s st = Inr (upd_blk v A (st1\<lparr>next_block := s + 1, read_ahead := True\<rparr>), v)"
      using s(2) None r(1) by (simp add: find_block_def A_def)
    then show ?thesis using that f by simp
  qed
qed


lemmas cache_read_block_ok = find_block_ok [folded cache_read_block_def]

text \<open>Giving a lock back, and changing the data of a block that is locked for writing.\<close>

lemma cache_read_end_ok:
  assumes inv: "cache_inv st" and h: "holds st i s" and l: "lk_g (locks st s) = 0" "0 < lk_b (locks st s)"
  shows "quiet st (cache_read_end i st) ((locks st)(s := if lk_b (locks st s) = 1 then FREE
     else \<lparr>lk_g = 0, lk_b = lk_b (locks st s) - 1\<rparr>))" "holds (cache_read_end i st) = holds st"
proof -
  let ?r = "if lk_b (locks st s) = 1 then FREE else \<lparr>lk_g = 0, lk_b = lk_b (locks st s) - 1\<rparr>"
  have i: "i < CACHE_BLOCKS" "length (buffer st) = CACHE_BLOCKS" using h cache_invD(1) [OF inv] by (auto simp: holds_def)
  note bl = blk_upd [OF i(2,1)]
  have rw: "rw (blk st i) = locks st s" using cview_holds(2) [OF inv h] by simp
  let ?f = "\<lambda>c. c\<lparr>rw := ?r\<rparr>"
  have e: "cache_read_end i st = upd_blk i ?f st"
    using l rw bl upd_blk_upd [OF i(2,1)]
    by (auto simp: cache_read_end_def g_up_def Let_def) (simp_all add: upd_blk_def set_g_def add_b_def rw_upd_b FREE_def)
  have a: "valid (?f (blk st i))" "csector (?f (blk st i)) = s" "block_ok (fs_device st) (?f (blk st i))"
    using h l rw cache_invD(3) [OF inv i(1)]
    by (auto simp: holds_def block_ok_def unlocked_def wlocked_def rlocked_def FREE_def)
  note u = upd_held [where f = ?f, OF inv h a]
  show "holds (cache_read_end i st) = holds st" unfolding e by (rule u(4))
  show "quiet st (cache_read_end i st) ((locks st)(s := ?r))"
    unfolding e using u cview_holds(1) [OF inv h] by (simp add: quiet_def fun_upd_idem) blast
qed

definition WRITE :: rw_lock where
  "WRITE = \<lparr>lk_g = 0, lk_b = 0\<rparr>"

lemma cache_write_block_ok:
  assumes inv: "cache_inv st" and s: "s \<noteq> 0" "s < blk_size (fs_device st)" "locks st s = FREE"
    and c: "card (held (locks st)) < CACHE_BLOCKS"
  obtains st' i where "cache_write_block s st = Inr (st', i)" "holds st' i s" "quiet st st' ((locks st)(s := WRITE))"
proof -
  obtain st1 i where f: "find_block s st = Inr (st1, i)" "holds st1 i s" "quiet st st1 ((locks st)(s := \<lparr>lk_g = 0, lk_b = 1\<rparr>))"
    using find_block_ok [OF inv s(1,2) _ c] s(3) by (auto simp: FREE_def)
  have inv1: "cache_inv st1" and L: "locks st1 s = \<lparr>lk_g = 0, lk_b = 1\<rparr>" using f(3) by (auto simp: quiet_def)
  have i: "i < CACHE_BLOCKS" "length (buffer st1) = CACHE_BLOCKS" using f(2) cache_invD(1) [OF inv1] by (auto simp: holds_def)
  note bl = blk_upd [OF i(2,1)]
  have rw: "rw (blk st1 i) = \<lparr>lk_g = 0, lk_b = 1\<rparr>" using cview_holds(2) [OF inv1 f(2)] L by simp
  let ?st = "upd_blk i (add_b (-1)) st1"
  have up: "cache_upgrade i st1 = Inr ?st" using rw bl by (simp add: cache_upgrade_def Let_def)
  have a: "valid (add_b (-1) (blk st1 i))" "csector (add_b (-1) (blk st1 i)) = s"
      "block_ok (fs_device st1) (add_b (-1) (blk st1 i))" "rw (add_b (-1) (blk st1 i)) = WRITE"
    using f(2) rw cache_invD(3) [OF inv1 i(1)] by (auto simp: holds_def block_ok_def wlocked_def WRITE_def)
  note u = upd_held [where f = "add_b (-1)", OF inv1 f(2) a(1-3)]
  have "quiet st ?st ((locks st)(s := WRITE))"
    using u f(3) a(4) cview_holds(1) [OF inv1 f(2)]
    by (simp add: quiet_def fun_upd_idem) (auto simp: WRITE_def FREE_def split: if_splits)
  then show ?thesis using that [of ?st i] f up u(4) by (simp add: cache_write_block_def)
qed

definition put_data :: "nat \<Rightarrow> u8 list \<Rightarrow> fs \<Rightarrow> fs" where
  "put_data i d st = upd_blk i (\<lambda>c. c\<lparr>cdata := d\<rparr>) st"

lemma put_data_ok:
  assumes inv: "cache_inv st" and h: "holds st i s" and l: "locks st s = WRITE" and d: "length d = BLOCK_SECTOR_SIZE"
  shows "cache_inv (put_data i d st)" "cview (put_data i d st) = (cview st)(s := d)" "locks (put_data i d st) = locks st"
    "holds (put_data i d st) = holds st" "fs_device (put_data i d st) = fs_device st"
proof -
  have i: "i < CACHE_BLOCKS" using h by (simp add: holds_def)
  have rw: "rw (blk st i) = WRITE" using cview_holds(2) [OF inv h] l by simp
  let ?f = "\<lambda>c. c\<lparr>cdata := d\<rparr>"
  have a: "valid (?f (blk st i))" "csector (?f (blk st i)) = s" "block_ok (fs_device st) (?f (blk st i))"
    using h d rw cache_invD(3) [OF inv i] by (auto simp: holds_def block_ok_def wlocked_def WRITE_def)
  note u = upd_held [where f = ?f, OF inv h a]
  show "cache_inv (put_data i d st)" "cview (put_data i d st) = (cview st)(s := d)" "locks (put_data i d st) = locks st"
    "holds (put_data i d st) = holds st" "fs_device (put_data i d st) = fs_device st"
    using u rw l by (simp_all add: put_data_def fun_upd_idem)
qed

lemma cache_write_end_ok:
  assumes inv: "cache_inv st" and h: "holds st i s" and l: "locks st s = WRITE"
  shows "quiet st (cache_write_end i st) ((locks st)(s := FREE))" "holds (cache_write_end i st) = holds st"
proof -
  have i: "i < CACHE_BLOCKS" "length (buffer st) = CACHE_BLOCKS" using h cache_invD(1) [OF inv] by (auto simp: holds_def)
  note bl = blk_upd [OF i(2,1)]
  have rw: "rw (blk st i) = WRITE" using cview_holds(2) [OF inv h] l by simp
  let ?f = "\<lambda>c. c\<lparr>rw := FREE, dirty := True\<rparr>"
  have e: "cache_write_end i st = upd_blk i ?f st"
    using rw bl upd_blk_upd [OF i(2,1)]
    by (simp add: cache_write_end_def g_up_def WRITE_def) (simp add: upd_blk_def set_g_def FREE_def)
  have a: "valid (?f (blk st i))" "csector (?f (blk st i)) = s" "block_ok (fs_device st) (?f (blk st i))"
    using h cache_invD(3) [OF inv i(1)]
    by (auto simp: holds_def block_ok_def unlocked_def FREE_def)
  note u = upd_held [where f = ?f, OF inv h a]
  show "holds (cache_write_end i st) = holds st" unfolding e by (rule u(4))
  show "quiet st (cache_write_end i st) ((locks st)(s := FREE))"
    unfolding e using u cview_holds(1) [OF inv h] by (simp add: quiet_def fun_upd_idem) blast
qed


section \<open>Writing back\<close>

text \<open>A read lock on an unlocked block is taken and given back around a change of the rest of the block.\<close>

lemma read_try_unlocked:
  assumes "length (buffer st) = CACHE_BLOCKS" "i < CACHE_BLOCKS" "unlocked (blk st i)"
  shows "cache_read_try i st = (upd_blk i (\<lambda>c. c\<lparr>rw := \<lparr>lk_g = 0, lk_b = 1\<rparr>\<rparr>) st, True)"
  using assms(3) blk_upd [OF assms(1,2)] upd_blk_upd [OF assms(1,2)]
  by (simp add: cache_read_try_def g_try_down_def unlocked_def Let_def) (simp add: upd_blk_def set_g_def add_b_def rw_upd_bg)

lemma read_try_wlocked:
  assumes "length (buffer st) = CACHE_BLOCKS" "i < CACHE_BLOCKS" "wlocked (blk st i)"
  shows "cache_read_try i st = (st, False)"
proof -
  have "upd_blk i (\<lambda>c. add_b (- 1) (add_b 1 c)) st = st"
    using assms by (simp add: upd_blk_def blk_def add_b_def)
  then show ?thesis
    using assms(3) blk_upd [OF assms(1,2)] upd_blk_upd [OF assms(1,2)]
    by (simp add: cache_read_try_def g_try_down_def wlocked_def Let_def)
qed

lemma read_end_one:
  assumes "length (buffer st) = CACHE_BLOCKS" "i < CACHE_BLOCKS" "rw (blk st i) = \<lparr>lk_g = 0, lk_b = 1\<rparr>"
  shows "cache_read_end i st = upd_blk i (\<lambda>c. c\<lparr>rw := FREE\<rparr>) st"
  using assms(3) blk_upd [OF assms(1,2)] upd_blk_upd [OF assms(1,2)]
  by (simp add: cache_read_end_def g_up_def Let_def) (simp add: upd_blk_def set_g_def add_b_def FREE_def)

text \<open>One round of \<open>refresh_cache\<close>.\<close>

definition flush :: "nat \<Rightarrow> fs \<Rightarrow> medium block \<Rightarrow> fs" where
  "flush i st d = upd_blk i (\<lambda>c. c\<lparr>dirty := False\<rparr>) (st\<lparr>fs_device := d\<rparr>)"

lemma flush_inv:
  assumes inv: "cache_inv st" and h: "holds st i s" and u: "unlocked (blk st i)"
    and d: "device_ok d" "blk_size d = blk_size (fs_device st)" "blk_aux d = (blk_aux (fs_device st))(s := cdata (blk st i))"
  shows "cache_inv (flush i st d)" "cview (flush i st d) = cview st" "locks (flush i st d) = locks st"
    "\<And>j. blk (flush i st d) j = (if j = i then (blk st i)\<lparr>dirty := False\<rparr> else blk st j)"
proof -
  have i: "i < CACHE_BLOCKS" "length (buffer (st\<lparr>fs_device := d\<rparr>)) = CACHE_BLOCKS"
    using h cache_invD(1) [OF inv] by (auto simp: holds_def)
  show bl: "blk (flush i st d) j = (if j = i then (blk st i)\<lparr>dirty := False\<rparr> else blk st j)" for j
    using blk_upd [OF i(2,1)] by (simp add: flush_def)
  have dev: "fs_device (flush i st d) = d" by (simp add: flush_def)
  have hh: "holds (flush i st d) j t = holds st j t" for j t by (auto simp: holds_def bl)
  have "block_ok d (blk (flush i st d) j)" if j: "j < CACHE_BLOCKS" for j
  proof (cases "j = i")
    case True
    then show ?thesis using cache_invD(3) [OF inv j] h d by (auto simp: bl block_ok_def holds_def unlocked_def wlocked_def rlocked_def)
  next
    case False
    then have "csector (blk st j) \<noteq> s" if "valid (blk st j)" using cache_invD(4) [OF inv, of i s j] h j that by (auto simp: holds_def)
    then show ?thesis using False cache_invD(3) [OF inv j] d(2,3) by (auto simp: bl block_ok_def split: if_splits)
  qed
  then show "cache_inv (flush i st d)"
    using inv hh d(1) by (auto simp: cache_inv_def dev) (simp_all add: flush_def)
  show "cview (flush i st d) = cview st" "locks (flush i st d) = locks st"
    by (rule cache_view_cong; use hh h d(3) in \<open>auto simp: bl dev\<close>)+
qed

definition clean_from :: "nat \<Rightarrow> fs \<Rightarrow> bool" where
  "clean_from n st \<longleftrightarrow> (\<forall>i<CACHE_BLOCKS - n. valid (blk st i) \<longrightarrow> unlocked (blk st i) \<longrightarrow> \<not> dirty (blk st i))"

lemma refresh_loop_ok:
  assumes "cache_inv st" "n \<le> CACHE_BLOCKS" "clean_from n st" "\<forall>i<CACHE_BLOCKS. \<not> rlocked (blk st i)"
  shows "\<exists>st'. refresh_loop n st = Inr st' \<and> cache_inv st' \<and> cview st' = cview st \<and> locks st' = locks st \<and>
    blk_size (fs_device st') = blk_size (fs_device st) \<and> clean_from 0 st'"
  using assms
proof (induction n arbitrary: st)
  case 0
  then show ?case by simp
next
  case (Suc n)
  define i where "i = CACHE_BLOCKS - Suc n"
  have i: "i < CACHE_BLOCKS" using Suc.prems(2) by (simp add: i_def)
  have less: "j < CACHE_BLOCKS - n \<longleftrightarrow> j = i \<or> j < CACHE_BLOCKS - Suc n" for j using Suc.prems(2) by (auto simp: i_def)
  note inv = Suc.prems(1) and len = cache_invD(1) [OF Suc.prems(1)]
  note ok = cache_invD(3) [OF inv i] and bl = blk_upd [OF len i]
  have n: "n \<le> CACHE_BLOCKS" using Suc.prems(2) by simp
  consider "\<not> valid (blk st i) \<or> wlocked (blk st i)" | "valid (blk st i)" "unlocked (blk st i)"
    using ok Suc.prems(4) i by (auto simp: block_ok_def)
  then show ?case
  proof cases
    case 1
    then have e: "refresh_loop (Suc n) st = refresh_loop n st"
      using read_try_wlocked [OF len i] by (auto simp: i_def [symmetric])
    have "clean_from n st" using 1 Suc.prems(3) unfolding clean_from_def less by (auto simp: wlocked_def unlocked_def)
    from Suc.IH [OF inv n this Suc.prems(4)] show ?thesis unfolding e .
  next
    case 2
    let ?s = "csector (blk st i)" and ?st1 = "upd_blk i (\<lambda>c. c\<lparr>rw := \<lparr>lk_g = 0, lk_b = 1\<rparr>\<rparr>) st"
    have h: "holds st i ?s" using 2 i by (simp add: holds_def)
    have tr: "cache_read_try i st = (?st1, True)" by (rule read_try_unlocked [OF len i 2(2)])
    have okd: "?s < blk_size (fs_device st)" "length (cdata (blk st i)) = BLOCK_SECTOR_SIZE" using ok 2(1) by (auto simp: block_ok_def)
    from device_transfer(2) [OF cache_invD(2) [OF inv] okd] obtain d where
      d: "block_write (fs_device st) ?s (cdata (blk st i)) = Inr d" "device_ok d" "blk_size d = blk_size (fs_device st)"
        "blk_aux d = (blk_aux (fs_device st))(?s := cdata (blk st i))" by blast
    define st2 where "st2 = (if dirty (blk st i) then flush i st d else st)"
    have FREE: "rw (blk st i) = FREE" using 2(2) by (simp add: unlocked_FREE)
    have lens: "length (buffer ?st1) = CACHE_BLOCKS" "length (buffer (?st1\<lparr>fs_device := d\<rparr>)) = CACHE_BLOCKS" using len by simp_all
    have "cache_read_end i (if dirty (blk st i) then upd_blk i (\<lambda>c. c\<lparr>dirty := False\<rparr>) (?st1\<lparr>fs_device := d\<rparr>) else ?st1) = st2"
    proof (cases "dirty (blk st i)")
      case True
      have "blk (upd_blk i (\<lambda>c. c\<lparr>dirty := False\<rparr>) (?st1\<lparr>fs_device := d\<rparr>)) i = (blk st i)\<lparr>rw := \<lparr>lk_g = 0, lk_b = 1\<rparr>, dirty := False\<rparr>"
        using blk_upd [OF lens(2) i] bl by simp
      then show ?thesis using True read_end_one [of "upd_blk i (\<lambda>c. c\<lparr>dirty := False\<rparr>) (?st1\<lparr>fs_device := d\<rparr>)" i] lens i FREE
        by (simp add: st2_def flush_def) (simp add: upd_blk_def blk_def rw_idem)
    next
      case False
      then show ?thesis using read_end_one [of ?st1 i] lens i bl FREE
        by (simp add: st2_def) (simp add: upd_blk_def blk_def rw_idem)
    qed
    then have e: "refresh_loop (Suc n) st = refresh_loop n st2"
      using 2(1) tr d(1) bl by (auto simp: i_def [symmetric] split: if_splits)
    note f = flush_inv [OF inv h 2(2) d(2,3,4)]
    have st2: "cache_inv st2" "cview st2 = cview st" "locks st2 = locks st" "blk_size (fs_device st2) = blk_size (fs_device st)"
        "\<And>j. blk st2 j = (if j = i then (blk st i)\<lparr>dirty := False\<rparr> else blk st j)"
      using f d(3) inv by (auto simp: st2_def) (simp add: flush_def)
    have "clean_from n st2" using Suc.prems(3) unfolding clean_from_def less by (auto simp: st2(5))
    moreover have "\<forall>j<CACHE_BLOCKS. \<not> rlocked (blk st2 j)" using Suc.prems(4) i by (auto simp: st2(5) rlocked_def)
    ultimately show ?thesis unfolding e using Suc.IH [OF st2(1) n] st2(2-4) by simp
  qed
qed

lemma clean_device:
  assumes inv: "cache_inv st" and c: "clean_from 0 st" and s: "locks st s = FREE"
  shows "blk_aux (fs_device st) s = cview st s"
proof (cases "\<exists>i. holds st i s")
  case True
  then obtain i where h: "holds st i s" by blast
  then have i: "i < CACHE_BLOCKS" "valid (blk st i)" by (simp_all add: holds_def)
  have "unlocked (blk st i)" using cview_holds(2) [OF inv h] s by (simp add: unlocked_FREE)
  then show ?thesis
    using cache_invD(3) [OF inv i(1)] i c h cview_holds(1) [OF inv h]
    by (auto simp: clean_from_def block_ok_def holds_def wlocked_def unlocked_def)
next
  case False
  then show ?thesis using cview_not_held(1) [of st s] by simp
qed


end
