(* ===== verification/Cache_Properties.thy ===== *)
theory Cache_Properties
  imports Cache_Invariant
begin

text \<open>
  The contract of the buffer cache: with no lock held it is a driver in the sense of \<open>sector_store\<close>,
  like the device below it; writing back makes the device agree with it; and what its read-ahead
  thread does to the locks.
\<close>

declare neq0_conv [iff del] bot_nat_0.not_eq_extremum [simp del]

section \<open>The cache as a driver\<close>

text \<open>How the file system uses the cache for a whole sector.\<close>

definition cached_read :: "fs \<Rightarrow> u32 \<Rightarrow> (fs \<times> u8 list) res" where
  "cached_read st s = bindR (cache_read_block s st) (\<lambda>(st, i). Inr (cache_read_end i st, cdata (blk st i)))"

definition cached_write :: "fs \<Rightarrow> u32 \<Rightarrow> u8 list \<Rightarrow> fs res" where
  "cached_write st s buf =
     bindR (cache_write_block s st) (\<lambda>(st, i). Inr (cache_write_end i (put_data i buf st)))"

definition cache_operations :: "fs block_operations" where
  "cache_operations = \<lparr>op_read = cached_read, op_write = cached_write\<rparr>"

definition cache_ok :: "fs \<Rightarrow> u32 \<Rightarrow> bool" where
  "cache_ok st s \<longleftrightarrow> cache_inv st \<and> locks st = (\<lambda>_. FREE) \<and> s \<noteq> 0 \<and> s < blk_size (fs_device st)"

lemma held_FREE [simp]: "held (\<lambda>_. FREE) = {}"
  by (simp add: held_def)

lemma cached_read_ok:
  assumes "cache_ok st s"
  shows "\<exists>st'. cached_read st s = Inr (st', cview st s) \<and> cache_ok st' = cache_ok st \<and> cview st' = cview st"
proof -
  have inv: "cache_inv st" and L: "locks st = (\<lambda>_. FREE)" and s: "s \<noteq> 0" "s < blk_size (fs_device st)"
    using assms by (auto simp: cache_ok_def)
  obtain st1 i where f: "cache_read_block s st = Inr (st1, i)" "holds st1 i s"
      "quiet st st1 ((locks st)(s := \<lparr>lk_g = 0, lk_b = lk_b (locks st s) + 1\<rparr>))"
    using cache_read_block_ok [OF inv s] L by (auto simp: CACHE_BLOCKS_def)
  have inv1: "cache_inv st1" and l1: "locks st1 = (locks st)(s := \<lparr>lk_g = 0, lk_b = 1\<rparr>)" "cview st1 = cview st"
    using f(3) L by (auto simp: quiet_def FREE_def)
  note e = cache_read_end_ok [OF inv1 f(2)]
  have "quiet st1 (cache_read_end i st1) (locks st)" using e(1) l1 L by (simp add: fun_upd_idem)
  then have "cache_inv (cache_read_end i st1)" "cview (cache_read_end i st1) = cview st"
      "locks (cache_read_end i st1) = (\<lambda>_. FREE)" "blk_size (fs_device (cache_read_end i st1)) = blk_size (fs_device st)"
    using f(3) l1 L by (auto simp: quiet_def)
  then show ?thesis
    using f(1) cview_holds(1) [OF inv1 f(2)] l1(2) inv L by (auto simp: cached_read_def cache_ok_def fun_eq_iff)
qed

lemma cached_write_ok:
  assumes "cache_ok st s" "length buf = BLOCK_SECTOR_SIZE"
  shows "\<exists>st'. cached_write st s buf = Inr st' \<and> cache_ok st' = cache_ok st \<and> cview st' = (cview st)(s := buf)"
proof -
  have inv: "cache_inv st" and L: "locks st = (\<lambda>_. FREE)" and s: "s \<noteq> 0" "s < blk_size (fs_device st)"
    using assms by (auto simp: cache_ok_def)
  obtain st1 i where f: "cache_write_block s st = Inr (st1, i)" "holds st1 i s" "quiet st st1 ((locks st)(s := WRITE))"
    using cache_write_block_ok [OF inv s] L by (auto simp: CACHE_BLOCKS_def)
  have inv1: "cache_inv st1" and l1: "locks st1 = (locks st)(s := WRITE)" "cview st1 = cview st"
    using f(3) by (auto simp: quiet_def)
  note p = put_data_ok [OF inv1 f(2) _ assms(2)]
  have p': "cache_inv (put_data i buf st1)" "cview (put_data i buf st1) = (cview st)(s := buf)"
      "locks (put_data i buf st1) = (locks st)(s := WRITE)" "holds (put_data i buf st1) i s"
      "blk_size (fs_device (put_data i buf st1)) = blk_size (fs_device st)"
    using p l1 f(2,3) by (auto simp: quiet_def)
  have "quiet (put_data i buf st1) (cache_write_end i (put_data i buf st1)) (locks st)"
    using cache_write_end_ok(1) [OF p'(1,4)] p'(3) L by (simp add: fun_upd_idem)
  then have q: "cache_inv (cache_write_end i (put_data i buf st1))" "cview (cache_write_end i (put_data i buf st1)) = (cview st)(s := buf)"
      "locks (cache_write_end i (put_data i buf st1)) = (\<lambda>_. FREE)"
      "blk_size (fs_device (cache_write_end i (put_data i buf st1))) = blk_size (fs_device st)"
    using p' L by (auto simp: quiet_def)
  then show ?thesis
    using f(1) inv L by (auto simp: cached_write_def cache_ok_def fun_eq_iff)
qed

interpretation cache: sector_store cache_operations cache_ok cview
proof
  fix st s assume "cache_ok st s"
  then show "\<exists>st'. op_read cache_operations st s = Inr (st', cview st s) \<and> cache_ok st' = cache_ok st \<and>
      (\<forall>t. cache_ok st t \<longrightarrow> cview st' t = cview st t)"
    using cached_read_ok [of st s] by (auto simp: cache_operations_def)
next
  fix st s and buf :: "u8 list" assume "cache_ok st s" "length buf = BLOCK_SECTOR_SIZE"
  then show "\<exists>st'. op_write cache_operations st s buf = Inr st' \<and> cache_ok st' = cache_ok st \<and>
      (\<forall>t. cache_ok st t \<longrightarrow> cview st' t = (if t = s then buf else cview st t))"
    using cached_write_ok [of st s buf] by (auto simp: cache_operations_def)
qed

section \<open>Properties\<close>

text \<open>A fresh cache over a device of zeros.\<close>

definition sample_device :: "medium block" where
  "sample_device = \<lparr>blk_type = BLOCK_FILESYS, blk_size = 100, blk_ops = medium_operations,
     blk_aux = (\<lambda>_. replicate 512 0), read_cnt = 0, write_cnt = 0\<rparr>"

lemma cache_init_inv:
  assumes "device_ok d"
  shows "cache_inv (cache_init d)" "locks (cache_init d) = (\<lambda>_. FREE)" "cview (cache_init d) = blk_aux d"
proof -
  have b: "blk (cache_init d) i = empty_block" if "i < CACHE_BLOCKS" for i
    using that by (simp add: blk_def cache_init_def)
  then have h: "\<not> holds (cache_init d) i s" for i s by (auto simp: holds_def empty_block_def)
  show "cache_inv (cache_init d)"
    using assms b h by (auto simp: cache_inv_def block_ok_def unlocked_def empty_block_def) (auto simp: cache_init_def)
  show "locks (cache_init d) = (\<lambda>_. FREE)" "cview (cache_init d) = blk_aux d"
    using cview_not_held [OF h] by (auto simp: FREE_def fun_eq_iff) (simp add: cache_init_def)
qed

lemma sample_cache_ok: "cache_ok (cache_init sample_device) 7" "device_ok sample_device"
proof -
  show d: "device_ok sample_device" by (simp add: device_ok_def sample_device_def BLOCK_SECTOR_SIZE_def)
  show "cache_ok (cache_init sample_device) 7"
    using cache_init_inv [OF d] by (simp add: cache_ok_def) (simp add: cache_init_def sample_device_def)
qed

text \<open>
  C3. The buffer cache is transparent. In every state of the cache with no lock held, reading a sector
  other than 0 returns what was last written to it or else what the device holds; writing it changes
  this one sector; neither ever fails or panics, whatever has to be evicted; and after \<open>refresh_cache\<close>
  the device itself holds in every sector what the cache shows.
\<close>

theorem cache_transparent:
  assumes "cache_inv st" "locks st = (\<lambda>_. FREE)" "s \<noteq> 0" "s < blk_size (fs_device st)"
    and "length buf = BLOCK_SECTOR_SIZE"
  shows "(\<exists>st'. cached_read st s = Inr (st', cview st s) \<and> cache_inv st' \<and> locks st' = locks st \<and> cview st' = cview st) \<and>
    (\<exists>st'. cached_write st s buf = Inr st' \<and> cache_inv st' \<and> locks st' = locks st \<and> cview st' = (cview st)(s := buf)) \<and>
    (\<exists>st'. refresh_cache st = Inr st' \<and> cache_inv st' \<and> locks st' = locks st \<and> cview st' = cview st \<and>
      blk_aux (fs_device st') = cview st)"
proof (intro conjI)
  have ok: "cache_ok st s" using assms by (simp add: cache_ok_def)
  show "\<exists>st'. cached_read st s = Inr (st', cview st s) \<and> cache_inv st' \<and> locks st' = locks st \<and> cview st' = cview st"
  proof -
    obtain st' where r: "cached_read st s = Inr (st', cview st s)" "cache_ok st' = cache_ok st" "cview st' = cview st"
      using cached_read_ok [OF ok] by blast
    have "cache_ok st' s" using r(2) ok by simp
    then have "cache_inv st'" "locks st' = (\<lambda>_. FREE)" by (simp_all add: cache_ok_def)
    then show ?thesis using r assms(2) by auto
  qed
  show "\<exists>st'. cached_write st s buf = Inr st' \<and> cache_inv st' \<and> locks st' = locks st \<and> cview st' = (cview st)(s := buf)"
  proof -
    obtain st' where r: "cached_write st s buf = Inr st'" "cache_ok st' = cache_ok st" "cview st' = (cview st)(s := buf)"
      using cached_write_ok [OF ok assms(5)] by blast
    have "cache_ok st' s" using r(2) ok by simp
    then have "cache_inv st'" "locks st' = (\<lambda>_. FREE)" by (simp_all add: cache_ok_def)
    then show ?thesis using r assms(2) by auto
  qed
  have "\<not> rlocked (blk st i)" if i: "i < CACHE_BLOCKS" for i
  proof
    assume r: "rlocked (blk st i)"
    then have "holds st i (csector (blk st i))"
      using cache_invD(3) [OF assms(1) i] i by (auto simp: holds_def block_ok_def rlocked_def unlocked_def split: if_splits)
    from cview_holds(2) [OF assms(1) this] have "rw (blk st i) = FREE" using assms(2) by simp
    then show False using r by (simp add: rlocked_def FREE_def)
  qed
  then obtain st' where r: "refresh_loop CACHE_BLOCKS st = Inr st'" "cache_inv st'" "cview st' = cview st"
      "locks st' = locks st" "clean_from 0 st'"
    using refresh_loop_ok [OF assms(1) order_refl] by (auto simp: clean_from_def)
  have "blk_aux (fs_device st') = cview st"
    using clean_device [OF r(2,5)] r(3,4) assms(2) by (auto simp: fun_eq_iff)
  then show "\<exists>st'. refresh_cache st = Inr st' \<and> cache_inv st' \<and> locks st' = locks st \<and> cview st' = cview st \<and>
      blk_aux (fs_device st') = cview st"
    using r by (auto simp: refresh_cache_def)
qed

theorem cache_transparent_witness:
  "\<exists>st'. cached_write (cache_init sample_device) 7 (replicate 512 3) = Inr st' \<and> cview st' 7 = replicate 512 3 \<and>
     cview st' 8 = replicate 512 0"
proof -
  note i = cache_init_inv [OF sample_cache_ok(2)]
  have "(7::u32) < blk_size (fs_device (cache_init sample_device))" by (simp add: cache_init_def sample_device_def)
  from cache_transparent [OF i(1,2) _ this, of "replicate 512 3"] i(3) show ?thesis
    by (auto simp: BLOCK_SECTOR_SIZE_def) (auto simp: sample_device_def)
qed

text \<open>
  C33. The sector \<open>cache_evict\<close> gives up is one that is not locked and has the smallest access history of
  those, and its contents are on the device afterwards; it panics only when every block is locked.
\<close>

theorem cache_evict_oldest:
  assumes "cache_inv st" "\<forall>i<CACHE_BLOCKS. valid (blk st i)" "\<exists>i<CACHE_BLOCKS. unlocked (blk st i)"
  shows "\<exists>st' v. cache_evict st = Inr (st', v) \<and> v < CACHE_BLOCKS \<and> unlocked (blk st v) \<and>
    (\<forall>j<CACHE_BLOCKS. unlocked (blk st j) \<longrightarrow> recent_accesses (blk st v) \<le> recent_accesses (blk st j)) \<and>
    wlocked (blk st' v) \<and> blk_aux (fs_device st') (csector (blk st v)) = cdata (blk st v)"
proof -
  obtain st1 st' v where e: "dirtied st st1" "cache_evict st = Inr (st', v)" "taken st1 st' v"
    "\<forall>j<CACHE_BLOCKS. unlocked (blk st1 j) \<longrightarrow> recent_accesses (blk st1 v) \<le> recent_accesses (blk st1 j)"
    by (rule cache_evict_taken [OF assms])
  have v: "v < CACHE_BLOCKS" "unlocked (blk st1 v)" "wlocked (blk st' v)" using e(3) by (auto simp: taken_def)
  note b = dirtied_blk [OF e(1)]
  have val: "valid (blk st1 v)" using b(1) v(1) assms(2) by simp
  have "blk_aux (fs_device st') (csector (blk st1 v)) = cdata (blk st1 v)"
    using e(3) cache_invD(3) [OF _ v(1), of st1] val by (auto simp: taken_def block_ok_def unlocked_def wlocked_def)
  then show ?thesis using e(2,4) v b by auto
qed

text \<open>A cache whose 64 blocks hold the sectors 1 to 64, sector 10 least recently used.\<close>

definition sample_full :: fs where
  "sample_full = (cache_init sample_device)\<lparr>buffer := map (\<lambda>i. empty_block\<lparr>valid := True, csector := of_nat (Suc i),
     recent_accesses := (if i = 9 then 1 else 5)\<rparr>) [0..<64]\<rparr>"

lemma sample_full_ok:
  "cache_inv sample_full" "\<forall>i<CACHE_BLOCKS. valid (blk sample_full i)" "\<forall>i<CACHE_BLOCKS. unlocked (blk sample_full i)"
proof -
  have b: "blk sample_full i = empty_block\<lparr>valid := True, csector := of_nat (Suc i), recent_accesses := (if i = 9 then 1 else 5)\<rparr>"
    if "i < CACHE_BLOCKS" for i
    using that by (simp add: blk_def sample_full_def CACHE_BLOCKS_def)
  show "\<forall>i<CACHE_BLOCKS. valid (blk sample_full i)" "\<forall>i<CACHE_BLOCKS. unlocked (blk sample_full i)"
    using b by (simp_all add: unlocked_def empty_block_def)
  have w: "unat (of_nat (Suc i) :: u32) = Suc i" if "i < CACHE_BLOCKS" for i
    using that unat_of_nat [where 'a = 32, of "Suc i"] by (simp add: CACHE_BLOCKS_def del: of_nat_Suc)
  have r: "(of_nat (Suc i) :: u32) \<noteq> 0" "(of_nat (Suc i) :: u32) < 100" if "i < CACHE_BLOCKS" for i
    using w [OF that] that by (auto simp: word_less_nat_alt CACHE_BLOCKS_def simp del: of_nat_Suc)
  have "block_ok (fs_device sample_full) (blk sample_full i)" if i: "i < CACHE_BLOCKS" for i
    unfolding b [OF i] using r [OF i]
    by (simp add: block_ok_def unlocked_def empty_block_def sample_full_def cache_init_def sample_device_def BLOCK_SECTOR_SIZE_def del: of_nat_Suc)
  moreover
  have un: "i = unat s - 1" if "holds sample_full i s" for i s
  proof -
    have "i < CACHE_BLOCKS" "csector (blk sample_full i) = s" using that by (simp_all add: holds_def)
    then show ?thesis using b [of i] w [of i] by (simp del: of_nat_Suc)
  qed
  have "\<forall>i j s. holds sample_full i s \<longrightarrow> holds sample_full j s \<longrightarrow> i = j"
  proof (intro allI impI)
    fix i j s assume "holds sample_full i s" "holds sample_full j s"
    then show "i = j" using un [of i s] un [of j s] by simp
  qed
  moreover have "length (buffer sample_full) = CACHE_BLOCKS" "device_ok (fs_device sample_full)"
    using sample_cache_ok(2) by (simp_all add: sample_full_def cache_init_def CACHE_BLOCKS_def)
  ultimately show "cache_inv sample_full" by (simp add: cache_inv_def)
qed

theorem cache_evict_oldest_witness:
  "\<exists>st' v. cache_evict sample_full = Inr (st', v) \<and> v < CACHE_BLOCKS \<and> unlocked (blk sample_full v)"
proof -
  have "\<exists>i<CACHE_BLOCKS. unlocked (blk sample_full i)"
    using sample_full_ok(3) by (intro exI [of _ 0]) (simp add: CACHE_BLOCKS_def)
  from cache_evict_oldest [OF sample_full_ok(1,2) this] show ?thesis by blast
qed

section \<open>Reading ahead\<close>

lemma find_block_next: "find_block s st = Inr (st', i) \<Longrightarrow> next_block st' = s + 1 \<and> read_ahead st'"
  by (auto simp: find_block_def bindR_eq_Inr)

lemma cache_read_end_fields [simp]:
  "read_ahead (cache_read_end i st) = read_ahead st" "next_block (cache_read_end i st) = next_block st"
  by (simp_all add: cache_read_end_def g_up_def Let_def)

lemma quiet_cong: "quiet st st' L \<Longrightarrow> locks (st'\<lparr>read_ahead := r\<rparr>) = L \<and> cache_inv (st'\<lparr>read_ahead := r\<rparr>)"
proof -
  assume q: "quiet st st' L"
  have h: "holds (st'\<lparr>read_ahead := r\<rparr>) = holds st'" by (simp add: holds_def fun_eq_iff)
  have "locks (st'\<lparr>read_ahead := r\<rparr>) = locks st'" by (rule cache_view_cong) (simp_all add: h)
  then show ?thesis using q h by (simp add: quiet_def cache_inv_def)
qed

text \<open>
  C34. Reading ahead locks up blocks. \<open>find_block\<close> returns a block that is locked for reading, and the
  read-ahead thread never gives the lock back: after a sector has been read, the next one stays
  locked, and the first write to it waits forever. If the sector read is the last one of the device,
  the read-ahead thread fails the assertion of \<open>find_block\<close> instead and halts the kernel.
\<close>

theorem cache_read_ahead_locks:
  assumes "cache_inv st" "locks st = (\<lambda>_. FREE)" "s \<noteq> 0" "s < blk_size (fs_device st)"
  shows "(s + 1 < blk_size (fs_device st) \<longrightarrow> (\<exists>st1 st2. cached_read st s = Inr (st1, cview st s) \<and>
      cache_read_ahead st1 = Inr st2 \<and> locks st2 = (locks st)(s + 1 := \<lparr>lk_g = 0, lk_b = 1\<rparr>) \<and>
      cache_write_block (s + 1) st2 = Inl Blocked)) \<and>
    (s + 1 = blk_size (fs_device st) \<longrightarrow> (\<exists>st1. cached_read st s = Inr (st1, cview st s) \<and>
      cache_read_ahead st1 = Inl Assertion_failure))"
proof -
  have ok: "cache_ok st s" using assms by (simp add: cache_ok_def)
  obtain st1 where r: "cached_read st s = Inr (st1, cview st s)" "cache_ok st1 = cache_ok st" "cview st1 = cview st"
    using cached_read_ok [OF ok] by blast
  have ok1: "cache_ok st1 s" using r(2) ok by simp
  then have c1: "cache_inv st1" "locks st1 = (\<lambda>_. FREE)" by (simp_all add: cache_ok_def)
  have nx: "read_ahead st1" "next_block st1 = s + 1"
    using r(1) find_block_next by (auto simp: cached_read_def cache_read_block_def bindR_eq_Inr)
  have size: "t < blk_size (fs_device st1) \<longleftrightarrow> t < blk_size (fs_device st)" if "t \<noteq> 0" for t
    using r(2) assms(1,2) c1 that by (auto simp: cache_ok_def fun_eq_iff)
  have "unat s + 1 < 2 ^ 32"
    using assms(4) unsigned_less [of "blk_size (fs_device st)", where 'a = nat] by (simp add: word_less_nat_alt)
  then have "unat (s + 1) = unat s + 1" by (simp add: unat_word_ariths)
  then have s1: "s + 1 \<noteq> 0" by (metis add_is_0 one_neq_zero unat_0)
  have "s + 1 = blk_size (fs_device st) \<longrightarrow> (\<exists>st1. cached_read st s = Inr (st1, cview st s) \<and>
      cache_read_ahead st1 = Inl Assertion_failure)"
    using r(1) nx size [OF s1] by (auto simp: cache_read_ahead_def find_block_def)
  moreover have "s + 1 < blk_size (fs_device st) \<longrightarrow> (\<exists>st1 st2. cached_read st s = Inr (st1, cview st s) \<and>
      cache_read_ahead st1 = Inr st2 \<and> locks st2 = (locks st)(s + 1 := \<lparr>lk_g = 0, lk_b = 1\<rparr>) \<and>
      cache_write_block (s + 1) st2 = Inl Blocked)"
  proof
    assume lt: "s + 1 < blk_size (fs_device st)"
    then have lt1: "s + 1 < blk_size (fs_device st1)" using size [OF s1] by simp
    let ?L = "(\<lambda>_. FREE)(s + 1 := \<lparr>lk_g = 0, lk_b = 1\<rparr>)"
    have "locks st1 (s + 1) = FREE \<or> 0 < lk_b (locks st1 (s + 1))" "card (held (locks st1)) < CACHE_BLOCKS"
      using c1(2) by (simp_all add: CACHE_BLOCKS_def held_def)
    then obtain st2 i where f: "find_block (s + 1) st1 = Inr (st2, i)" "holds st2 i (s + 1)"
        "quiet st1 st2 ((locks st1)(s + 1 := \<lparr>lk_g = 0, lk_b = lk_b (locks st1 (s + 1)) + 1\<rparr>))"
      by (rule find_block_ok [OF c1(1) s1 lt1])
    then have f3: "quiet st1 st2 ?L" using c1(2) by (simp add: FREE_def)
    let ?st = "st2\<lparr>read_ahead := False\<rparr>"
    have ra: "cache_read_ahead st1 = Inr ?st" using nx f(1) by (simp add: cache_read_ahead_def)
    have c2: "cache_inv ?st" "locks ?st = ?L" using quiet_cong [OF f3] by simp_all
    have "held ?L \<subseteq> {s + 1}" by (auto simp: held_def)
    then have "card (held (locks ?st)) \<le> card {s + 1}" unfolding c2(2) by (intro card_mono) simp_all
    then have "card (held (locks ?st)) < CACHE_BLOCKS" by (simp add: CACHE_BLOCKS_def)
    moreover have "locks ?st (s + 1) = FREE \<or> 0 < lk_b (locks ?st (s + 1))" by (simp add: c2(2))
    moreover have "s + 1 < blk_size (fs_device ?st)" using lt1 f3 by (simp add: quiet_def)
    ultimately obtain st3 j where g: "find_block (s + 1) ?st = Inr (st3, j)" "holds st3 j (s + 1)"
        "quiet ?st st3 ((locks ?st)(s + 1 := \<lparr>lk_g = 0, lk_b = lk_b (locks ?st (s + 1)) + 1\<rparr>))"
      using find_block_ok [OF c2(1) s1] by blast
    have inv3: "cache_inv st3" and L3: "locks st3 (s + 1) = \<lparr>lk_g = 0, lk_b = 2\<rparr>" using g(3) c2(2) by (auto simp: quiet_def)
    have j: "j < CACHE_BLOCKS" "length (buffer st3) = CACHE_BLOCKS" using g(2) cache_invD(1) [OF inv3] by (auto simp: holds_def)
    have "rw (blk st3 j) = \<lparr>lk_g = 0, lk_b = 2\<rparr>" using cview_holds(2) [OF inv3 g(2)] L3 by simp
    then have "cache_upgrade j st3 = Inl Blocked"
      using blk_upd [OF j(2,1)] by (simp add: cache_upgrade_def g_down_def Let_def)
    then show "\<exists>st1 st2. cached_read st s = Inr (st1, cview st s) \<and>
      cache_read_ahead st1 = Inr st2 \<and> locks st2 = (locks st)(s + 1 := \<lparr>lk_g = 0, lk_b = 1\<rparr>) \<and>
      cache_write_block (s + 1) st2 = Inl Blocked"
      using r(1) ra c2(2) assms(2) g(1) by (auto simp: cache_write_block_def)
  qed
  ultimately show ?thesis by (rule conjI [rotated])
qed

theorem cache_read_ahead_locks_witness:
  "\<exists>st1 st2. cached_read (cache_init sample_device) 7 = Inr (st1, replicate 512 0) \<and>
     cache_read_ahead st1 = Inr st2 \<and> cache_write_block 8 st2 = Inl Blocked"
proof -
  note i = cache_init_inv [OF sample_cache_ok(2)]
  have "(7::u32) < blk_size (fs_device (cache_init sample_device))" "(7::u32) + 1 < blk_size (fs_device (cache_init sample_device))"
    by (simp_all add: cache_init_def sample_device_def)
  with cache_read_ahead_locks [OF i(1,2) _ this(1)] i(3) show ?thesis
    by (auto simp: sample_device_def)
qed


end
