(* ===== verification/Hash_Table.thy ===== *)
theory Hash_Table
  imports Kernel_List_Order
begin

text \<open>
  \<^verbatim>\<open>lib/kernel/hash.c\<close>: a hash table with chaining. A bucket is the list of the elements its list links
  (\<open>Kernel_List\<close> shows that the list functions act on such lists); an element is its address, and the
  two functions of the client, which read the element behind the address, are fields of the table as
  in the code. Whether \<open>malloc\<close> succeeds is an argument of the operations that call it.
\<close>

declare neq0_conv [iff del] bot_nat_0.not_eq_extremum [simp del]

unbundle bit_operations_syntax

section \<open>Model\<close>

record hash =
  elem_cnt :: u32
  bucket_cnt :: u32
  buckets :: "addr list list"
  hash_fn :: "addr \<Rightarrow> u32"
  less_fn :: "addr \<Rightarrow> addr \<Rightarrow> bool"

text \<open>
  \<open>hash_clear\<close> with a destructor pops and destroys the elements one by one; \<open>'s\<close> is the state the
  destructor works on.
\<close>

fun clear_bucket :: "(addr \<Rightarrow> 's \<Rightarrow> 's) \<Rightarrow> addr list \<Rightarrow> 's \<Rightarrow> 's" where
  "clear_bucket destructor [] s = s"
| "clear_bucket destructor (e # es) s = clear_bucket destructor es (destructor e s)"

definition hash_clear :: "(addr \<Rightarrow> 's \<Rightarrow> 's) option \<Rightarrow> hash \<Rightarrow> 's \<Rightarrow> hash \<times> 's" where
  "hash_clear destructor h s =
     (h\<lparr>elem_cnt := 0, buckets := replicate (unat (bucket_cnt h)) []\<rparr>,
      case destructor of None \<Rightarrow> s | Some d \<Rightarrow> fold (clear_bucket d) (buckets h) s)"

definition hash_init :: "bool \<Rightarrow> (addr \<Rightarrow> u32) \<Rightarrow> (addr \<Rightarrow> addr \<Rightarrow> bool) \<Rightarrow> hash option" where
  "hash_init malloc_ok hf lf =
     (if malloc_ok
      then Some (fst (hash_clear None \<lparr>elem_cnt = 0, bucket_cnt = 4, buckets = [], hash_fn = hf, less_fn = lf\<rparr> ()))
      else None)"

text \<open>The array of buckets is gone afterwards.\<close>

definition hash_destroy :: "(addr \<Rightarrow> 's \<Rightarrow> 's) option \<Rightarrow> hash \<Rightarrow> 's \<Rightarrow> hash \<times> 's" where
  "hash_destroy destructor h s =
     (let (h, s) = (if destructor \<noteq> None then hash_clear destructor h s else (h, s))
      in (h\<lparr>buckets := []\<rparr>, s))"

definition find_bucket :: "hash \<Rightarrow> addr \<Rightarrow> nat" where
  "find_bucket h e = unat (hash_fn h e AND (bucket_cnt h - 1))"

fun find_elem :: "hash \<Rightarrow> addr list \<Rightarrow> addr \<Rightarrow> addr option" where
  "find_elem h [] e = None"
| "find_elem h (hi # bucket) e =
     (if \<not> less_fn h hi e \<and> \<not> less_fn h e hi then Some hi else find_elem h bucket e)"

definition turn_off_least_1bit :: "u32 \<Rightarrow> u32" where
  "turn_off_least_1bit x = x AND (x - 1)"

definition is_power_of_2 :: "u32 \<Rightarrow> bool" where
  "is_power_of_2 x \<longleftrightarrow> x \<noteq> 0 \<and> turn_off_least_1bit x = 0"

definition BEST_ELEMS_PER_BUCKET :: u32 where
  "BEST_ELEMS_PER_BUCKET = 2"

text \<open>The loop of \<open>rehash\<close> that rounds down to a power of two; it would not end for 0.\<close>

partial_function (option) round_down_loop :: "u32 \<Rightarrow> u32 option" where
  "round_down_loop n = (if is_power_of_2 n then Some n else round_down_loop (turn_off_least_1bit n))"

definition push_bucket :: "hash \<Rightarrow> nat \<Rightarrow> addr \<Rightarrow> hash" where
  "push_bucket h i e = h\<lparr>buckets := (buckets h)[i := e # buckets h ! i]\<rparr>"

fun move_elems :: "addr list \<Rightarrow> hash \<Rightarrow> hash" where
  "move_elems [] h = h"
| "move_elems (e # es) h = move_elems es (push_bucket h (find_bucket h e) e)"

definition rehash :: "bool \<Rightarrow> hash \<Rightarrow> hash res" where
  "rehash malloc_ok h =
     (let n = elem_cnt h div BEST_ELEMS_PER_BUCKET;
          n = (if n < 4 then 4 else n) in
      case round_down_loop n of
        None \<Rightarrow> Inl Out_of_fuel
      | Some new_bucket_cnt \<Rightarrow>
          if new_bucket_cnt = bucket_cnt h then Inr h
          else if \<not> malloc_ok then Inr h
          else Inr (fold move_elems (buckets h)
            (h\<lparr>buckets := replicate (unat new_bucket_cnt) [], bucket_cnt := new_bucket_cnt\<rparr>)))"

definition insert_elem :: "hash \<Rightarrow> nat \<Rightarrow> addr \<Rightarrow> hash" where
  "insert_elem h i e = push_bucket (h\<lparr>elem_cnt := elem_cnt h + 1\<rparr>) i e"

text \<open>\<open>list_remove\<close> unlinks the element from whichever bucket it is in.\<close>

definition remove_elem :: "hash \<Rightarrow> addr \<Rightarrow> hash" where
  "remove_elem h e = h\<lparr>elem_cnt := elem_cnt h - 1, buckets := map (remove1 e) (buckets h)\<rparr>"

definition hash_insert :: "bool \<Rightarrow> hash \<Rightarrow> addr \<Rightarrow> (hash \<times> addr option) res" where
  "hash_insert malloc_ok h e =
     (let i = find_bucket h e; old = find_elem h (buckets h ! i) e;
          h = (if old = None then insert_elem h i e else h) in
      bindR (rehash malloc_ok h) (\<lambda>h. Inr (h, old)))"

definition hash_replace :: "bool \<Rightarrow> hash \<Rightarrow> addr \<Rightarrow> (hash \<times> addr option) res" where
  "hash_replace malloc_ok h e =
     (let i = find_bucket h e; old = find_elem h (buckets h ! i) e;
          h = (case old of None \<Rightarrow> h | Some x \<Rightarrow> remove_elem h x);
          h = insert_elem h i e in
      bindR (rehash malloc_ok h) (\<lambda>h. Inr (h, old)))"

definition hash_find :: "hash \<Rightarrow> addr \<Rightarrow> addr option" where
  "hash_find h e = find_elem h (buckets h ! find_bucket h e) e"

definition hash_delete :: "bool \<Rightarrow> hash \<Rightarrow> addr \<Rightarrow> (hash \<times> addr option) res" where
  "hash_delete malloc_ok h e =
     (case hash_find h e of
        None \<Rightarrow> Inr (h, None)
      | Some x \<Rightarrow> bindR (rehash malloc_ok (remove_elem h x)) (\<lambda>h. Inr (h, Some x)))"

definition hash_apply :: "(addr \<Rightarrow> 's \<Rightarrow> 's) \<Rightarrow> hash \<Rightarrow> 's \<Rightarrow> 's" where
  "hash_apply action h s = fold (\<lambda>bucket s. fold action bucket s) (buckets h) s"

text \<open>
  The iterator. Its element pointer runs over the nodes of a bucket's list, the head and the tail
  included; \<open>None\<close> is the null pointer.
\<close>

datatype list_pos = At_head | At_elem addr | At_tail

record hash_iterator =
  it_bucket :: nat
  it_elem :: "list_pos option"

definition hash_first :: hash_iterator where
  "hash_first = \<lparr>it_bucket = 0, it_elem = Some At_head\<rparr>"

definition begin_pos :: "addr list \<Rightarrow> list_pos" where
  "begin_pos xs = (case xs of [] \<Rightarrow> At_tail | x # _ \<Rightarrow> At_elem x)"

definition next_pos :: "addr list \<Rightarrow> list_pos \<Rightarrow> list_pos res" where
  "next_pos xs p = (case p of
     At_head \<Rightarrow> Inr (begin_pos xs)
   | At_elem e \<Rightarrow> (case dropWhile (\<lambda>x. x \<noteq> e) xs of [] \<Rightarrow> Inl Invalid_access | _ # ys \<Rightarrow> Inr (begin_pos ys))
   | At_tail \<Rightarrow> Inl Assertion_failure)"

text \<open>The loop of \<open>hash_next\<close>; \<open>rest\<close> are the buckets behind bucket \<open>b\<close>.\<close>

fun skip_empty :: "nat \<Rightarrow> list_pos \<Rightarrow> addr list list \<Rightarrow> hash_iterator" where
  "skip_empty b p rest =
     (if p \<noteq> At_tail then \<lparr>it_bucket = b, it_elem = Some p\<rparr>
      else case rest of
        [] \<Rightarrow> \<lparr>it_bucket = Suc b, it_elem = None\<rparr>
      | xs # rest \<Rightarrow> skip_empty (Suc b) (begin_pos xs) rest)"

declare skip_empty.simps [simp del]

definition hash_next :: "hash \<Rightarrow> hash_iterator \<Rightarrow> hash_iterator res" where
  "hash_next h i = (case it_elem i of
     None \<Rightarrow> Inl Invalid_access
   | Some p \<Rightarrow>
       if it_bucket i < length (buckets h)
       then bindR (next_pos (buckets h ! it_bucket i) p) (\<lambda>p.
         Inr (skip_empty (it_bucket i) p (drop (Suc (it_bucket i)) (buckets h))))
       else Inl Invalid_access)"

definition hash_cur :: "hash_iterator \<Rightarrow> list_pos option" where
  "hash_cur i = it_elem i"

definition hash_size :: "hash \<Rightarrow> u32" where
  "hash_size h = elem_cnt h"

definition hash_empty :: "hash \<Rightarrow> bool" where
  "hash_empty h \<longleftrightarrow> elem_cnt h = 0"

text \<open>The sample hash functions (Fowler-Noll-Vo).\<close>

definition FNV_32_PRIME :: u32 where "FNV_32_PRIME = 16777619"
definition FNV_32_BASIS :: u32 where "FNV_32_BASIS = 2166136261"

fun fnv_loop :: "u32 \<Rightarrow> u8 list \<Rightarrow> u32" where
  "fnv_loop h [] = h"
| "fnv_loop h (b # bs) = fnv_loop ((h * FNV_32_PRIME) XOR ucast b) bs"

definition hash_bytes :: "u8 list \<Rightarrow> u32" where
  "hash_bytes buf = fnv_loop FNV_32_BASIS buf"

definition hash_string :: "u8 list \<Rightarrow> u32" where
  "hash_string s = fnv_loop FNV_32_BASIS (takeWhile (\<lambda>c. c \<noteq> 0) s)"

definition hash_int :: "u32 \<Rightarrow> u32" where
  "hash_int i = hash_bytes [ucast i, ucast (drop_bit 8 i), ucast (drop_bit 16 i), ucast (drop_bit 24 i)]"

section \<open>Rounding down to a power of two\<close>

lemma and_pred_between:
  assumes "2 ^ k \<le> unat x" "unat x < 2 ^ Suc k" "unat x \<noteq> 2 ^ k" and k: "k < 32"
  shows "2 ^ k \<le> unat (turn_off_least_1bit x)" "unat (turn_off_least_1bit x) < unat x"
proof -
  have x1: "0 < unat x" by (rule less_le_trans [OF _ assms(1)]) simp
  then have x0: "x \<noteq> 0" by (auto simp: unat_gt_0)
  then have ux: "unat (x - 1) = unat x - 1" using unat_minus_one by blast
  have b: "bit m k" if "2 ^ k \<le> m" "m < 2 ^ Suc k" for m :: nat
  proof -
    have "m div 2 ^ k = 1" using that by (simp add: div_nat_eqI)
    then show ?thesis by (simp add: bit_iff_odd)
  qed
  have u: "unat (turn_off_least_1bit x) = unat x AND (unat x - 1)"
    by (simp add: turn_off_least_1bit_def unsigned_and_eq ux)
  have "bit (unat x AND (unat x - 1)) k" using b assms by (simp add: bit_and_iff)
  then have "2 ^ k \<le> (unat x AND (unat x - 1))"
    by (metis bit_iff_odd div_less even_zero not_le)
  then show "2 ^ k \<le> unat (turn_off_least_1bit x)" by (simp add: u)
  have "unat x AND (unat x - 1) \<le> unat x - 1"
    using AND_upper2 [of "int (unat x - 1)" "int (unat x)"] by (metis of_nat_0_le_iff of_nat_and_eq of_nat_le_iff)
  then show "unat (turn_off_least_1bit x) < unat x" using u x1 by linarith
qed

lemma unat_power: "k < 32 \<Longrightarrow> unat (2 ^ k :: u32) = 2 ^ k"
proof -
  assume "k < 32"
  then have "(2::nat) ^ k < 2 ^ 32" by (rule power_strict_increasing) simp
  then show ?thesis using unat_of_nat [where 'a = 32, of "2 ^ k"] by simp
qed

lemma is_power_of_2_power: "k < 32 \<Longrightarrow> is_power_of_2 (2 ^ k)"
proof -
  assume k: "k < 32"
  have "(2 ^ k :: u32) AND (2 ^ k - 1) = take_bit k (2 ^ k)"
    by (simp add: take_bit_eq_mask mask_eq_exp_minus_1)
  also have "\<dots> = 0" by (rule bit_word_eqI) (simp add: bit_take_bit_iff bit_exp_iff)
  finally show ?thesis
    using k by (auto simp: is_power_of_2_def turn_off_least_1bit_def)
qed

text \<open>The loop ends for every number but 0, with the highest power of two below it.\<close>

lemma round_down_loop_power:
  assumes "k < 32" "2 ^ k \<le> unat x" "unat x < 2 ^ Suc k"
  shows "round_down_loop x = Some (2 ^ k)"
  using assms(2,3)
proof (induction "unat x" arbitrary: x rule: less_induct)
  case less
  show ?case
  proof (cases "unat x = 2 ^ k")
    case True
    then have "x = 2 ^ k" by (intro word_unat_eq_iff [THEN iffD2]) (simp add: unat_power [OF assms(1)])
    then show ?thesis using is_power_of_2_power [OF assms(1)] by (simp add: round_down_loop.simps)
  next
    case False
    note b = and_pred_between [OF less.prems False assms(1)]
    have "\<not> is_power_of_2 x"
      using b(1) by (auto simp: is_power_of_2_def)
    then show ?thesis
      using less.hyps [OF b(2) b(1)] b(2) less.prems(2) by (simp add: round_down_loop.simps [of x])
  qed
qed

lemma power_between: "0 < (n::nat) \<Longrightarrow> \<exists>k. 2 ^ k \<le> n \<and> n < 2 ^ Suc k"
proof (induction n rule: less_induct)
  case (less n)
  show ?case
  proof (cases "n = 1")
    case False
    then have "0 < n div 2" "n div 2 < n" using less.prems by auto
    from less.IH [OF this(2,1)] obtain k where "2 ^ k \<le> n div 2" "n div 2 < 2 ^ Suc k" by blast
    then show ?thesis by (intro exI [of _ "Suc k"]) auto
  qed (auto intro: exI [of _ 0])
qed

text \<open>What \<open>rehash\<close> makes of the number of elements.\<close>

definition ideal_cnt :: "u32 \<Rightarrow> u32" where
  "ideal_cnt n = (if n div BEST_ELEMS_PER_BUCKET < 4 then 4 else n div BEST_ELEMS_PER_BUCKET)"

lemma unat_half: "unat (n div BEST_ELEMS_PER_BUCKET) = unat n div 2"
  by (simp add: BEST_ELEMS_PER_BUCKET_def unat_div)

lemma round_down_ideal:
  obtains k where "2 \<le> k" "k < 31" "round_down_loop (ideal_cnt n) = Some (2 ^ k)"
    "2 ^ k \<le> max 4 (unat n div 2)" "max 4 (unat n div 2) < 2 ^ Suc k"
proof -
  have u: "unat (ideal_cnt n) = max 4 (unat n div 2)"
    by (auto simp: ideal_cnt_def word_less_nat_alt unat_half)
  obtain k where k: "2 ^ k \<le> max 4 (unat n div 2)" "max 4 (unat n div 2) < 2 ^ Suc k"
    using power_between [of "max 4 (unat n div 2)"] by (metis max.strict_coboundedI1 zero_less_numeral)
  have "unat n < 2 ^ 32" using unsigned_less [of n] by simp
  then have "max 4 (unat n div 2) < 2 ^ 31" by (auto simp: less_mult_imp_div_less)
  then have "(2::nat) ^ k < 2 ^ 31" using k(1) by linarith
  then have k31: "k < 31" by (rule power_less_imp_less_exp [rotated]) simp
  have "(2::nat) ^ 2 < 2 ^ Suc k" using k(2) by (simp add: max_def split: if_splits)
  then have "2 < Suc k" by (rule power_less_imp_less_exp [rotated]) simp
  then show ?thesis using that [of k] k k31 round_down_loop_power [of k "ideal_cnt n"] u by simp
qed


section \<open>The invariant\<close>

definition elems :: "hash \<Rightarrow> addr set" where
  "elems h = (\<Union>b\<in>set (buckets h). set b)"

definition eqv :: "(addr \<Rightarrow> addr \<Rightarrow> bool) \<Rightarrow> addr \<Rightarrow> addr \<Rightarrow> bool" where
  "eqv lt a b \<longleftrightarrow> \<not> lt a b \<and> \<not> lt b a"

text \<open>The shape: a power of two of buckets, every element once and in the bucket its hash selects.\<close>

definition shape :: "hash \<Rightarrow> bool" where
  "shape h \<longleftrightarrow> (\<exists>k. 2 \<le> k \<and> k < 32 \<and> bucket_cnt h = 2 ^ k) \<and> length (buckets h) = unat (bucket_cnt h) \<and>
     (\<forall>i<length (buckets h). distinct (buckets h ! i) \<and> (\<forall>e\<in>set (buckets h ! i). find_bucket h e = i))"

definition hash_inv :: "hash \<Rightarrow> bool" where
  "hash_inv h \<longleftrightarrow> shape h \<and> unat (elem_cnt h) = card (elems h) \<and>
     (\<forall>a\<in>elems h. \<forall>b\<in>elems h. eqv (less_fn h) a b \<longrightarrow> a = b)"

lemma find_bucket_less: "bucket_cnt h = 2 ^ k \<Longrightarrow> k < 32 \<Longrightarrow> find_bucket h e < unat (bucket_cnt h)"
proof -
  assume k: "bucket_cnt h = 2 ^ k" "k < 32"
  have "hash_fn h e AND (2 ^ k - 1) = take_bit k (hash_fn h e)"
    by (simp add: take_bit_eq_mask mask_eq_exp_minus_1)
  then have "find_bucket h e = take_bit k (unat (hash_fn h e))"
    by (simp add: find_bucket_def k unsigned_take_bit_eq)
  also have "\<dots> < 2 ^ k" by simp
  finally show ?thesis using k by (simp add: unat_power)
qed

lemma shapeD:
  assumes "shape h"
  shows "find_bucket h e < length (buckets h)" "length (buckets h) = unat (bucket_cnt h)"
    "i < length (buckets h) \<Longrightarrow> distinct (buckets h ! i)"
    "i < length (buckets h) \<Longrightarrow> e \<in> set (buckets h ! i) \<Longrightarrow> find_bucket h e = i"
  using assms find_bucket_less unfolding shape_def by metis+

lemma elems_bucket: "shape h \<Longrightarrow> e \<in> elems h \<longleftrightarrow> e \<in> set (buckets h ! find_bucket h e)"
proof
  assume s: "shape h" and "e \<in> elems h"
  then obtain b where "b \<in> set (buckets h)" "e \<in> set b" by (auto simp: elems_def)
  then obtain i where "i < length (buckets h)" "e \<in> set (buckets h ! i)"
    by (auto simp: in_set_conv_nth [of b])
  then show "e \<in> set (buckets h ! find_bucket h e)" using shapeD(4) [OF s] by auto
next
  assume "shape h" "e \<in> set (buckets h ! find_bucket h e)"
  then show "e \<in> elems h" using shapeD(1) [of h e] by (auto simp: elems_def)
qed

lemma distinct_concat_tagged:
  "(\<forall>i<length bs. distinct (bs ! i) \<and> (\<forall>e\<in>set (bs ! i). f e = n + i)) \<Longrightarrow> distinct (concat bs)"
proof (induction bs arbitrary: n)
  case (Cons b bs)
  have b: "distinct b" "\<forall>e\<in>set b. f e = n" using Cons.prems [rule_format, of 0] by auto
  have bs: "\<forall>i<length bs. distinct (bs ! i) \<and> (\<forall>e\<in>set (bs ! i). f e = Suc n + i)"
  proof (intro allI impI)
    fix i assume "i < length bs"
    then show "distinct (bs ! i) \<and> (\<forall>e\<in>set (bs ! i). f e = Suc n + i)"
      using Cons.prems [rule_format, of "Suc i"] by simp
  qed
  have "f e \<noteq> n" if e: "e \<in> set c" and c: "c \<in> set bs" for e c
  proof -
    from c obtain i where "i < length bs" "c = bs ! i" by (auto simp: in_set_conv_nth)
    then show ?thesis using bs e by auto
  qed
  then have "set b \<inter> (\<Union>c\<in>set bs. set c) = {}" using b(2) by fastforce
  then show ?case using Cons.IH [OF bs] b(1) by simp
qed simp

lemma shape_distinct: "shape h \<Longrightarrow> distinct (concat (buckets h))"
  by (rule distinct_concat_tagged [of _ "find_bucket h" 0]) (auto simp: shape_def)

lemma elems_set: "elems h = set (concat (buckets h))"
  by (simp add: elems_def)

lemma card_elems: "shape h \<Longrightarrow> card (elems h) = length (concat (buckets h))"
  by (simp only: elems_set distinct_card [OF shape_distinct])

lemma find_bucket_simps [simp]:
  "find_bucket (h\<lparr>buckets := bs\<rparr>) e = find_bucket h e" "find_bucket (h\<lparr>elem_cnt := n\<rparr>) e = find_bucket h e"
  "find_bucket (push_bucket h i x) e = find_bucket h e"
  by (simp_all add: find_bucket_def push_bucket_def)

lemma push_bucket_fields [simp]:
  "hash_fn (push_bucket h i e) = hash_fn h" "less_fn (push_bucket h i e) = less_fn h"
  "bucket_cnt (push_bucket h i e) = bucket_cnt h" "elem_cnt (push_bucket h i e) = elem_cnt h"
  by (simp_all add: push_bucket_def)

lemma push_bucket_shape:
  assumes s: "shape h" and e: "e \<notin> elems h"
  shows "shape (push_bucket h (find_bucket h e) e)" "elems (push_bucket h (find_bucket h e) e) = insert e (elems h)"
proof -
  let ?i = "find_bucket h e" and ?h = "push_bucket h (find_bucket h e) e"
  note i = shapeD(1) [OF s, of e]
  have nth: "buckets ?h ! j = (if j = ?i then e # buckets h ! ?i else buckets h ! j)" if "j < length (buckets h)" for j
    using that i by (simp add: push_bucket_def)
  have len: "length (buckets ?h) = length (buckets h)" by (simp add: push_bucket_def)
  have "e \<notin> set (buckets h ! ?i)" using e elems_bucket [OF s] by simp
  then have "distinct (buckets ?h ! j) \<and> (\<forall>x\<in>set (buckets ?h ! j). find_bucket ?h x = j)"
    if "j < length (buckets ?h)" for j
    using that nth [of j] shapeD(3,4) [OF s, of j] len by auto
  then show sh: "shape ?h" using s len by (auto simp: shape_def)
  have "x \<in> elems ?h \<longleftrightarrow> x = e \<or> x \<in> elems h" for x
    unfolding elems_bucket [OF sh] elems_bucket [OF s] using nth [OF shapeD(1) [OF s, of x]] by auto
  then show "elems ?h = insert e (elems h)" by blast
qed

lemma move_elems_shape:
  assumes "shape h" "distinct es" "set es \<inter> elems h = {}"
  shows "shape (move_elems es h) \<and> elems (move_elems es h) = set es \<union> elems h \<and>
    hash_fn (move_elems es h) = hash_fn h \<and> less_fn (move_elems es h) = less_fn h \<and>
    bucket_cnt (move_elems es h) = bucket_cnt h \<and> elem_cnt (move_elems es h) = elem_cnt h"
  using assms
proof (induction es arbitrary: h)
  case (Cons e es)
  note p = push_bucket_shape [OF Cons.prems(1), of e]
  show ?case using Cons.IH [of "push_bucket h (find_bucket h e) e"] p Cons.prems by auto
qed simp

lemma move_buckets_shape:
  assumes "shape h" "distinct (concat bs)" "set (concat bs) \<inter> elems h = {}"
  shows "shape (fold move_elems bs h) \<and> elems (fold move_elems bs h) = set (concat bs) \<union> elems h \<and>
    hash_fn (fold move_elems bs h) = hash_fn h \<and> less_fn (fold move_elems bs h) = less_fn h \<and>
    bucket_cnt (fold move_elems bs h) = bucket_cnt h \<and> elem_cnt (fold move_elems bs h) = elem_cnt h"
  using assms
proof (induction bs arbitrary: h)
  case (Cons b bs)
  have b: "shape h" "distinct b" "set b \<inter> elems h = {}" using Cons.prems by auto
  note m = move_elems_shape [OF b]
  show ?case using Cons.IH [of "move_elems b h"] m Cons.prems by auto
qed simp

lemma empty_shape:
  assumes "2 \<le> k" "k < 32"
  shows "shape (h\<lparr>buckets := replicate (unat (2 ^ k :: u32)) [], bucket_cnt := 2 ^ k\<rparr>)"
  using assms by (auto simp: shape_def)

lemma empty_elems [simp]: "elems (h\<lparr>buckets := replicate n [], bucket_cnt := c\<rparr>) = {}"
  by (simp add: elems_def)

text \<open>
  \<open>rehash\<close> keeps the elements, whether or not the memory for the new buckets is there; if it is, the
  number of buckets is the largest power of two that is at most half the number of elements, or 4.
\<close>

lemma rehash_correct:
  assumes s: "shape h"
  obtains h' where "rehash malloc_ok h = Inr h'" "shape h'" "elems h' = elems h" "hash_fn h' = hash_fn h"
    "less_fn h' = less_fn h" "elem_cnt h' = elem_cnt h"
    "malloc_ok \<Longrightarrow> unat (bucket_cnt h') \<le> max 4 (unat (elem_cnt h) div 2) \<and>
       max 4 (unat (elem_cnt h) div 2) < 2 * unat (bucket_cnt h')"
    "\<not> malloc_ok \<Longrightarrow> h' = h"
proof -
  obtain k where k: "2 \<le> k" "k < 31" "round_down_loop (ideal_cnt (elem_cnt h)) = Some (2 ^ k)"
    "2 ^ k \<le> max 4 (unat (elem_cnt h) div 2)" "max 4 (unat (elem_cnt h) div 2) < 2 ^ Suc k"
    by (rule round_down_ideal)
  then have k32: "k < 32" and u: "unat (2 ^ k :: u32) = 2 ^ k" by (simp_all add: unat_power)
  let ?h = "fold move_elems (buckets h) (h\<lparr>buckets := replicate (unat (2 ^ k :: u32)) [], bucket_cnt := 2 ^ k\<rparr>)"
  have eq: "rehash malloc_ok h = (if 2 ^ k = bucket_cnt h then Inr h else if \<not> malloc_ok then Inr h else Inr ?h)"
    using k(3) by (simp add: rehash_def ideal_cnt_def [symmetric] Let_def)
  have m: "shape ?h \<and> elems ?h = set (concat (buckets h)) \<union> {} \<and> hash_fn ?h = hash_fn h \<and> less_fn ?h = less_fn h \<and>
      bucket_cnt ?h = 2 ^ k \<and> elem_cnt ?h = elem_cnt h"
    using move_buckets_shape [OF empty_shape [OF k(1) k32, of h] shape_distinct [OF s]]
    by simp
  show ?thesis
  proof (cases "2 ^ k = bucket_cnt h \<or> \<not> malloc_ok")
    case True
    then have "rehash malloc_ok h = Inr h" using eq by auto
    then show ?thesis
    proof (rule that [OF _ s refl refl refl refl])
      assume malloc_ok
      then have "unat (bucket_cnt h) = 2 ^ k" using True u by auto
      then show "unat (bucket_cnt h) \<le> max 4 (unat (elem_cnt h) div 2) \<and>
         max 4 (unat (elem_cnt h) div 2) < 2 * unat (bucket_cnt h)" using k(4,5) by simp
    qed simp
  next
    case False
    then have "rehash malloc_ok h = Inr ?h" using eq by simp
    then show ?thesis by (rule that) (use m k(4,5) u False in \<open>simp_all add: elems_set\<close>)
  qed
qed


section \<open>The contract of the client\<close>

text \<open>
  The comparison is a strict weak order and equal elements have equal hashes. Then at most one element
  equal to a given one is in the table, and it is in the bucket that is searched.
\<close>

locale hash_client = strict_weak_order lt for lt :: "addr \<Rightarrow> addr \<Rightarrow> bool" +
  fixes hf :: "addr \<Rightarrow> u32"
  assumes hash_eqv: "eqv lt a b \<Longrightarrow> hf a = hf b"
begin

lemma eqv_refl: "eqv lt a a"
  using asym by (auto simp: eqv_def)

lemma eqv_sym: "eqv lt a b \<Longrightarrow> eqv lt b a"
  by (simp add: eqv_def)

lemma eqv_trans: "eqv lt a b \<Longrightarrow> eqv lt b c \<Longrightarrow> eqv lt a c"
  unfolding eqv_def using negtrans by blast

lemma find_elem_Some:
  "less_fn h = lt \<Longrightarrow> find_elem h b e = Some a \<Longrightarrow> a \<in> set b \<and> eqv lt a e"
  by (induction b) (auto simp: eqv_def split: if_splits)

lemma find_elem_None:
  "less_fn h = lt \<Longrightarrow> find_elem h b e = None \<longleftrightarrow> (\<forall>a\<in>set b. \<not> eqv lt a e)"
  by (induction b) (auto simp: eqv_def)

lemma hash_find_Some:
  assumes "hash_inv h" "less_fn h = lt" "hash_fn h = hf"
  shows "hash_find h e = Some a \<longleftrightarrow> a \<in> elems h \<and> eqv lt a e"
proof
  have s: "shape h" using assms(1) by (simp add: hash_inv_def)
  show "a \<in> elems h \<and> eqv lt a e" if "hash_find h e = Some a"
    using find_elem_Some [OF assms(2) that [unfolded hash_find_def]] shapeD(1) [OF s, of e]
    by (auto simp: elems_def)
  assume a: "a \<in> elems h \<and> eqv lt a e"
  then have fb: "find_bucket h a = find_bucket h e" using hash_eqv [of a e] assms(3) by (simp add: find_bucket_def)
  then have "a \<in> set (buckets h ! find_bucket h e)" using a elems_bucket [OF s, of a] by simp
  then obtain b where b: "hash_find h e = Some b"
    using a find_elem_None [OF assms(2), of "buckets h ! find_bucket h e" e] by (auto simp: hash_find_def)
  then have "b \<in> elems h" "eqv lt b e"
    using find_elem_Some [OF assms(2) b [unfolded hash_find_def]] shapeD(1) [OF s, of e]
    by (auto simp: elems_def)
  moreover have "eqv lt b a" using calculation(2) a eqv_trans [OF _ eqv_sym] by blast
  ultimately have "b = a" using a assms(1,2) by (simp add: hash_inv_def)
  then show "hash_find h e = Some a" using b by simp
qed

lemma hash_find_None:
  assumes "hash_inv h" "less_fn h = lt" "hash_fn h = hf"
  shows "hash_find h e = None \<longleftrightarrow> (\<forall>a\<in>elems h. \<not> eqv lt a e)"
  using hash_find_Some [OF assms, of e] by (cases "hash_find h e") auto

lemma remove_elem_shape:
  assumes s: "shape h"
  shows "shape (remove_elem h x)" "elems (remove_elem h x) = elems h - {x}"
proof -
  let ?h = "remove_elem h x"
  have fb: "find_bucket ?h e = find_bucket h e" for e by (simp add: remove_elem_def find_bucket_def)
  have nth: "buckets ?h ! i = remove1 x (buckets h ! i)" if "i < length (buckets h)" for i
    using that by (simp add: remove_elem_def)
  have len: "length (buckets ?h) = length (buckets h)" "bucket_cnt ?h = bucket_cnt h"
    by (simp_all add: remove_elem_def)
  show sh: "shape ?h"
    unfolding shape_def len using s nth fb by (auto simp: shape_def)
  have "e \<in> elems ?h \<longleftrightarrow> e \<in> elems h \<and> e \<noteq> x" for e
    unfolding elems_bucket [OF sh] elems_bucket [OF s] fb nth [OF shapeD(1) [OF s, of e]]
    using shapeD(1,3) [OF s] by simp
  then show "elems ?h = elems h - {x}" by blast
qed

lemma finite_elems [simp]: "finite (elems h)"
  by (simp add: elems_def)

text \<open>Adding an element that is equal to none, and removing one, in front of \<open>rehash\<close>.\<close>

lemma insert_elem_inv:
  assumes "hash_inv h" "less_fn h = lt" "\<forall>a\<in>elems h. \<not> eqv lt a e" "card (elems h) < 2 ^ 32 - 1"
  defines "h' \<equiv> insert_elem h (find_bucket h e) e"
  shows "hash_inv h'" "elems h' = insert e (elems h)"
proof -
  let ?h = "h\<lparr>elem_cnt := elem_cnt h + 1\<rparr>"
  have s: "shape ?h" "elems ?h = elems h" using assms(1) by (simp_all add: hash_inv_def shape_def elems_def)
  have e: "e \<notin> elems h" using assms(3) eqv_refl by blast
  note p = push_bucket_shape [OF s(1), of e]
  have h': "shape h'" "elems h' = insert e (elems h)"
    using p s(2) e by (simp_all add: h'_def insert_elem_def)
  show "elems h' = insert e (elems h)" by fact
  have "unat (elem_cnt h + 1) = card (elems h) + 1"
    using assms(1,4) by (simp add: hash_inv_def unat_word_ariths)
  then show "hash_inv h'"
    using h' assms(1-3) e eqv_sym by (auto simp: hash_inv_def h'_def insert_elem_def)
qed

lemma remove_elem_inv:
  assumes "hash_inv h" "x \<in> elems h"
  shows "hash_inv (remove_elem h x)"
proof -
  have s: "shape h" using assms(1) by (simp add: hash_inv_def)
  have c: "0 < card (elems h)" using assms(2) by (simp add: card_gt_0_iff) blast
  have "elem_cnt h \<noteq> 0" using assms(1) c by (auto simp: hash_inv_def)
  then have "unat (elem_cnt h - 1) = unat (elem_cnt h) - 1" using unat_minus_one by blast
  then have "unat (elem_cnt (remove_elem h x)) = card (elems h - {x})"
    using assms by (simp add: remove_elem_def hash_inv_def)
  then show ?thesis
    using remove_elem_shape [OF s] assms(1) by (auto simp: hash_inv_def remove_elem_def)
qed

lemma rehash_inv:
  assumes "hash_inv h"
  obtains h' where "rehash malloc_ok h = Inr h'" "hash_inv h'" "elems h' = elems h" "hash_fn h' = hash_fn h"
    "less_fn h' = less_fn h"
proof -
  have "shape h" using assms by (simp add: hash_inv_def)
  then show ?thesis
    by (rule rehash_correct [of h malloc_ok]) (use that assms in \<open>auto simp: hash_inv_def\<close>)
qed

lemma hash_insert_correct:
  assumes h: "hash_inv h" "less_fn h = lt" "hash_fn h = hf" and room: "card (elems h) < 2 ^ 32 - 1"
  shows "\<exists>h'. hash_insert malloc_ok h e = Inr (h', hash_find h e) \<and> hash_inv h' \<and> less_fn h' = lt \<and> hash_fn h' = hf \<and>
    elems h' = (if hash_find h e = None then insert e (elems h) else elems h)"
proof -
  let ?h = "if hash_find h e = None then insert_elem h (find_bucket h e) e else h"
  have "hash_inv ?h \<and> elems ?h = (if hash_find h e = None then insert e (elems h) else elems h)"
    using insert_elem_inv [OF h(1,2) _ room, of e] hash_find_None [OF h, of e] h(1) by auto
  moreover obtain h' where "rehash malloc_ok ?h = Inr h'" "hash_inv h'" "elems h' = elems ?h"
      "hash_fn h' = hash_fn ?h" "less_fn h' = less_fn ?h"
    using rehash_inv [of ?h malloc_ok] calculation by blast
  ultimately show ?thesis
    using h by (auto simp: hash_insert_def hash_find_def Let_def insert_elem_def)
qed

lemma hash_replace_correct:
  assumes h: "hash_inv h" "less_fn h = lt" "hash_fn h = hf" and room: "card (elems h) < 2 ^ 32 - 1"
  shows "\<exists>h'. hash_replace malloc_ok h e = Inr (h', hash_find h e) \<and> hash_inv h' \<and> less_fn h' = lt \<and> hash_fn h' = hf \<and>
    elems h' = insert e {a\<in>elems h. \<not> eqv lt a e}"
proof -
  let ?h = "case hash_find h e of None \<Rightarrow> h | Some x \<Rightarrow> remove_elem h x"
  have s: "shape h" using h(1) by (simp add: hash_inv_def)
  have r: "hash_inv ?h \<and> elems ?h = {a\<in>elems h. \<not> eqv lt a e} \<and> less_fn ?h = lt \<and> find_bucket ?h e = find_bucket h e \<and>
      hash_fn ?h = hf"
  proof (cases "hash_find h e")
    case None
    then show ?thesis using h hash_find_None [OF h, of e] by auto
  next
    case (Some x)
    then have x: "x \<in> elems h" "eqv lt x e" using hash_find_Some [OF h] by blast+
    have "{a\<in>elems h. \<not> eqv lt a e} = elems h - {x}"
      using x h(1,2) eqv_trans [OF _ eqv_sym, of _ e x] by (auto simp: hash_inv_def)
    then show ?thesis
      using remove_elem_inv [OF h(1) x(1)] remove_elem_shape(2) [OF s] h Some
      by (simp add: remove_elem_def find_bucket_def)
  qed
  have "card {a\<in>elems h. \<not> eqv lt a e} \<le> card (elems h)" by (rule card_mono) auto
  then have i: "hash_inv (insert_elem ?h (find_bucket h e) e)"
      "elems (insert_elem ?h (find_bucket h e) e) = insert e {a\<in>elems h. \<not> eqv lt a e}"
    using insert_elem_inv [of ?h e] r room by auto
  obtain h' where "rehash malloc_ok (insert_elem ?h (find_bucket h e) e) = Inr h'" "hash_inv h'"
      "elems h' = elems (insert_elem ?h (find_bucket h e) e)"
      "hash_fn h' = hash_fn (insert_elem ?h (find_bucket h e) e)"
      "less_fn h' = less_fn (insert_elem ?h (find_bucket h e) e)"
    using rehash_inv [OF i(1), of malloc_ok] by blast
  then show ?thesis using i r by (simp add: hash_replace_def hash_find_def Let_def insert_elem_def)
qed

lemma hash_delete_correct:
  assumes h: "hash_inv h" "less_fn h = lt" "hash_fn h = hf"
  shows "\<exists>h'. hash_delete malloc_ok h e = Inr (h', hash_find h e) \<and> hash_inv h' \<and> less_fn h' = lt \<and> hash_fn h' = hf \<and>
    elems h' = {a\<in>elems h. \<not> eqv lt a e}"
proof (cases "hash_find h e")
  case None
  then show ?thesis using h hash_find_None [OF h, of e] by (auto simp: hash_delete_def)
next
  case (Some x)
  have s: "shape h" using h(1) by (simp add: hash_inv_def)
  have x: "x \<in> elems h" "eqv lt x e" using Some hash_find_Some [OF h] by blast+
  have "{a\<in>elems h. \<not> eqv lt a e} = elems h - {x}"
    using x h(1,2) eqv_trans [OF _ eqv_sym, of _ e x] by (auto simp: hash_inv_def)
  moreover obtain h' where "rehash malloc_ok (remove_elem h x) = Inr h'" "hash_inv h'"
      "elems h' = elems (remove_elem h x)" "hash_fn h' = hash_fn (remove_elem h x)"
      "less_fn h' = less_fn (remove_elem h x)"
    using rehash_inv [OF remove_elem_inv [OF h(1) x(1)], of malloc_ok] by blast
  ultimately show ?thesis
    using Some h remove_elem_shape(2) [OF s] by (simp add: hash_delete_def remove_elem_def)
qed

end


section \<open>Iteration\<close>

text \<open>The idiom of the comment of \<open>hash_first\<close>: advance and collect until the null pointer.\<close>

fun hash_iterate :: "nat \<Rightarrow> hash \<Rightarrow> hash_iterator \<Rightarrow> addr list res" where
  "hash_iterate 0 h i = Inl Out_of_fuel"
| "hash_iterate (Suc n) h i = bindR (hash_next h i) (\<lambda>i. case hash_cur i of
     None \<Rightarrow> Inr []
   | Some (At_elem e) \<Rightarrow> bindR (hash_iterate n h i) (\<lambda>es. Inr (e # es))
   | Some _ \<Rightarrow> Inl Invalid_access)"

lemma skip_empty_spec:
  "ys @ concat rest = [] \<and> it_elem (skip_empty b (begin_pos ys) rest) = None \<or>
   (\<exists>e zs c. ys @ concat rest = e # zs @ concat (drop c rest) \<and>
     skip_empty b (begin_pos ys) rest = \<lparr>it_bucket = b + c, it_elem = Some (At_elem e)\<rparr> \<and>
     c \<le> length rest \<and> (ys # rest) ! c = e # zs)"
proof (induction rest arbitrary: b ys)
  case Nil
  then show ?case by (cases ys) (auto simp: skip_empty.simps begin_pos_def)
next
  case (Cons xs rest)
  show ?case
  proof (cases ys)
    case Nil
    have "skip_empty b (begin_pos []) (xs # rest) = skip_empty (Suc b) (begin_pos xs) rest"
      by (simp add: skip_empty.simps [of b] begin_pos_def)
    note sk = this
    from Cons.IH [of xs "Suc b"] show ?thesis
    proof (elim disjE exE conjE)
      assume "xs @ concat rest = []" "it_elem (skip_empty (Suc b) (begin_pos xs) rest) = None"
      then show ?thesis using sk Nil by (intro disjI1) simp
    next
      fix e zs c assume "xs @ concat rest = e # zs @ concat (drop c rest)" "c \<le> length rest" "(xs # rest) ! c = e # zs"
        "skip_empty (Suc b) (begin_pos xs) rest = \<lparr>it_bucket = Suc b + c, it_elem = Some (At_elem e)\<rparr>"
      then show ?thesis using sk Nil by (intro disjI2 exI [of _ e] exI [of _ zs] exI [of _ "Suc c"]) simp
    qed
  next
    case (Cons y ys')
    then show ?thesis
      by (intro disjI2 exI [of _ y] exI [of _ ys'] exI [of _ 0]) (simp add: skip_empty.simps begin_pos_def)
  qed
qed

lemma dropWhile_to: "distinct (xs @ e # ys) \<Longrightarrow> dropWhile (\<lambda>x. x \<noteq> e) (xs @ e # ys) = e # ys"
  by (induction xs) auto

text \<open>What is left behind the iterator's position is what further calls return.\<close>

lemma hash_iterate_rest:
  assumes s: "shape h" and b: "b < length (buckets h)"
    and p: "p = At_head \<and> buckets h ! b = ys \<or> (\<exists>xs e. p = At_elem e \<and> buckets h ! b = xs @ e # ys)"
    and n: "length (ys @ concat (drop (Suc b) (buckets h))) < n"
  shows "hash_iterate n h \<lparr>it_bucket = b, it_elem = Some p\<rparr> = Inr (ys @ concat (drop (Suc b) (buckets h)))"
  using b p n
proof (induction n arbitrary: b p ys)
  case (Suc n)
  let ?rest = "drop (Suc b) (buckets h)"
  have "next_pos (buckets h ! b) p = Inr (begin_pos ys)"
    using Suc.prems(2)
  proof (elim disjE exE conjE)
    fix xs e assume x: "p = At_elem e" "buckets h ! b = xs @ e # ys"
    then have "dropWhile (\<lambda>x. x \<noteq> e) (xs @ e # ys) = e # ys"
      using shapeD(3) [OF s Suc.prems(1)] by (intro dropWhile_to) simp
    then show ?thesis using x by (simp add: next_pos_def)
  qed (simp add: next_pos_def)
  then have nx: "hash_next h \<lparr>it_bucket = b, it_elem = Some p\<rparr> = Inr (skip_empty b (begin_pos ys) ?rest)"
    using Suc.prems(1) by (simp add: hash_next_def)
  from skip_empty_spec [of ys ?rest b] show ?case
  proof (elim disjE exE conjE)
    assume "ys @ concat ?rest = []" "it_elem (skip_empty b (begin_pos ys) ?rest) = None"
    then show ?thesis using nx by (simp add: hash_cur_def)
  next
    fix e zs c assume e: "ys @ concat ?rest = e # zs @ concat (drop c ?rest)"
      "skip_empty b (begin_pos ys) ?rest = \<lparr>it_bucket = b + c, it_elem = Some (At_elem e)\<rparr>"
      and c: "c \<le> length ?rest" "(ys # ?rest) ! c = e # zs"
    have bc: "b + c < length (buckets h)" using c(1) Suc.prems(1) by simp
    have "\<exists>xs. buckets h ! (b + c) = xs @ e # zs"
    proof (cases c)
      case 0
      then show ?thesis using c(2) Suc.prems(2) by (auto intro: exI [of _ "_ @ [_]"])
    next
      case (Suc m)
      then have "buckets h ! (b + c) = e # zs" using c bc by simp
      then show ?thesis by (intro exI [of _ "[]"]) simp
    qed
    moreover have "drop c ?rest = drop (Suc (b + c)) (buckets h)" by (simp add: add.commute)
    moreover have "length (zs @ concat (drop c ?rest)) < n" using Suc.prems(3) unfolding e(1) by simp
    ultimately have "hash_iterate n h \<lparr>it_bucket = b + c, it_elem = Some (At_elem e)\<rparr> = Inr (zs @ concat (drop c ?rest))"
      using Suc.IH [OF bc, of "At_elem e" zs] by auto
    then show ?thesis using nx e by (simp add: hash_cur_def)
  qed
qed simp


section \<open>Properties\<close>

text \<open>Elements ordered and hashed by their address, for the concrete inputs below.\<close>

definition sample_table :: hash where
  "sample_table = \<lparr>elem_cnt = 3, bucket_cnt = 4, buckets = [[8], [5, 9], [], []],
     hash_fn = (\<lambda>e. of_nat e), less_fn = (<)\<rparr>"

lemma nat_hash_client: "hash_client ((<) :: nat \<Rightarrow> nat \<Rightarrow> bool) (\<lambda>e. of_nat e)"
  by unfold_locales (auto simp: eqv_def)

lemma sample_table_shape: "shape sample_table"
proof -
  have "\<exists>k\<ge>2. k < 32 \<and> bucket_cnt sample_table = 2 ^ k"
    by (intro exI [of _ 2]) (simp add: sample_table_def)
  moreover have c: "i = 0 \<or> i = 1 \<or> i = 2 \<or> i = 3" if "i < length (buckets sample_table)" for i
    using that by (simp add: sample_table_def) linarith
  have "distinct (buckets sample_table ! i) \<and> (\<forall>e\<in>set (buckets sample_table ! i). find_bucket sample_table e = i)"
    if "i < length (buckets sample_table)" for i
    using c [OF that] by (elim disjE) (simp_all add: sample_table_def find_bucket_def)
  ultimately show ?thesis by (auto simp: shape_def) (simp add: sample_table_def)
qed

lemma sample_table_inv: "hash_inv sample_table" "elems sample_table = {5, 8, 9}"
proof -
  show e: "elems sample_table = {5, 8, 9}" by (auto simp: elems_def sample_table_def)
  show "hash_inv sample_table"
    unfolding hash_inv_def e using sample_table_shape by (auto simp: sample_table_def eqv_def)
qed

text \<open>
  C6. A hash table is a map from keys to elements, the key of an element being its class under the
  comparison function. With a comparison that is a strict weak order and a hash that respects it,
  \<open>hash_find\<close> returns the one element equal to its argument if there is one; \<open>hash_insert\<close>
  adds its argument unless an equal element is there, \<open>hash_replace\<close> puts its argument in place of an
  equal element, \<open>hash_delete\<close> removes the equal element; each returns what \<open>hash_find\<close> would have
  returned and keeps the invariant of the table, whether or not the memory for other buckets is there.
\<close>

theorem hash_table_map:
  assumes "hash_client (less_fn h) (hash_fn h)" "hash_inv h" "card (elems h) < 2 ^ 32 - 1"
  shows "(\<forall>a. hash_find h e = Some a \<longleftrightarrow> a \<in> elems h \<and> eqv (less_fn h) a e) \<and>
    (\<exists>h'. hash_insert malloc_ok h e = Inr (h', hash_find h e) \<and> hash_inv h' \<and>
      elems h' = (if hash_find h e = None then insert e (elems h) else elems h)) \<and>
    (\<exists>h'. hash_replace malloc_ok h e = Inr (h', hash_find h e) \<and> hash_inv h' \<and>
      elems h' = insert e {a\<in>elems h. \<not> eqv (less_fn h) a e}) \<and>
    (\<exists>h'. hash_delete malloc_ok h e = Inr (h', hash_find h e) \<and> hash_inv h' \<and>
      elems h' = {a\<in>elems h. \<not> eqv (less_fn h) a e})"
  by (intro conjI allI hash_client.hash_find_Some [OF assms(1,2) refl refl])
    (use hash_client.hash_insert_correct [OF assms(1,2) refl refl assms(3)]
      hash_client.hash_replace_correct [OF assms(1,2) refl refl assms(3)]
      hash_client.hash_delete_correct [OF assms(1,2) refl refl] in blast)+

theorem hash_table_map_witness:
  "hash_find sample_table 9 = Some 9 \<and>
   (\<exists>h'. hash_insert False sample_table 7 = Inr (h', hash_find sample_table 7) \<and> elems h' = insert 7 {5, 8, 9}) \<and>
   (\<exists>h'. hash_delete True sample_table 5 = Inr (h', hash_find sample_table 5) \<and> elems h' = {8, 9})"
proof -
  have c: "hash_client (less_fn sample_table) (hash_fn sample_table)" "card (elems sample_table) < 2 ^ 32 - 1"
    using nat_hash_client by (simp_all add: sample_table_inv(2)) (simp add: sample_table_def)
  note t = hash_table_map [OF c(1) sample_table_inv(1) c(2)]
  have l: "eqv (less_fn sample_table) a b \<longleftrightarrow> a = b" for a b by (auto simp: eqv_def sample_table_def)
  have f: "hash_find sample_table e = Some a \<longleftrightarrow> a \<in> {5, 8, 9} \<and> a = e" for a e
    using conjunct1 [OF t [of e]] unfolding l sample_table_inv(2) by (rule spec)
  then have "hash_find sample_table 7 = None" by (cases "hash_find sample_table 7") auto
  moreover have "{a \<in> {5, 8, 9}. a \<noteq> 5} = {8, 9 :: nat}" by auto
  ultimately show ?thesis
    using f [of 9 9] conjunct1 [OF conjunct2 [OF t [of 7 False]]]
      conjunct2 [OF conjunct2 [OF conjunct2 [OF t [of 5 True]]]]
    unfolding l sample_table_inv(2) by fastforce
qed

text \<open>
  The load of a table: when memory is available, \<open>rehash\<close> terminates with a power of two of
  buckets, at least 4, that is at most half the number of elements unless it is 4, and so that there
  are at most four elements to a bucket on average; it moves every element to its new bucket.
\<close>

theorem rehash_load:
  assumes "shape h"
  shows "\<exists>h'. rehash True h = Inr h' \<and> shape h' \<and> elems h' = elems h \<and> elem_cnt h' = elem_cnt h \<and>
    unat (bucket_cnt h') \<le> max 4 (unat (elem_cnt h) div 2) \<and> unat (elem_cnt h) < 4 * unat (bucket_cnt h')"
proof -
  obtain h' where "rehash True h = Inr h'" "shape h'" "elems h' = elems h" "elem_cnt h' = elem_cnt h"
      "unat (bucket_cnt h') \<le> max 4 (unat (elem_cnt h) div 2) \<and>
       max 4 (unat (elem_cnt h) div 2) < 2 * unat (bucket_cnt h')"
    using rehash_correct [OF assms, of True] by blast
  moreover from this(5) have "unat (elem_cnt h) < 4 * unat (bucket_cnt h')" by simp linarith
  ultimately show ?thesis by blast
qed

theorem rehash_load_witness:
  "\<exists>h'. rehash True sample_table = Inr h' \<and> elems h' = {5, 8, 9} \<and> unat (bucket_cnt h') \<le> 4"
  using rehash_load [OF sample_table_shape] by (auto simp: sample_table_inv(2)) (simp add: sample_table_def)

text \<open>
  C32. Iteration: from \<open>hash_first\<close>, repeated calls of \<open>hash_next\<close> return every element of the table
  exactly once and then the null pointer.
\<close>

theorem hash_iterate_once:
  assumes "shape h" "card (elems h) < n"
  shows "\<exists>es. hash_iterate n h hash_first = Inr es \<and> distinct es \<and> set es = elems h"
proof -
  obtain b bs where bs: "buckets h = b # bs"
    using shapeD(1) [OF assms(1), of 0] by (cases "buckets h") auto
  have "hash_iterate n h \<lparr>it_bucket = 0, it_elem = Some At_head\<rparr> = Inr (b @ concat (drop (Suc 0) (buckets h)))"
    by (rule hash_iterate_rest [OF assms(1)]) (use bs assms(2) card_elems [OF assms(1)] in simp_all)
  then have "hash_iterate n h hash_first = Inr (concat (buckets h))" by (simp add: hash_first_def bs)
  then show ?thesis using shape_distinct [OF assms(1)] by (auto simp: elems_set)
qed

theorem hash_iterate_once_witness:
  "\<exists>es. hash_iterate 4 sample_table hash_first = Inr es \<and> distinct es \<and> set es = {5, 8, 9}"
  using hash_iterate_once [OF sample_table_shape, of 4] by (simp add: sample_table_inv(2))


end
