(* ===== verification/Palloc.thy ===== *)
theory Palloc
  imports Memory Bitmap "HOL-Library.Signed_Division"
begin

text \<open>
  \<^verbatim>\<open>threads/palloc.c\<close>: the allocator of pages. Each of the two pools has a bitmap with a bit for every
  page; the bitmap, which the code keeps in the first pages of the pool's memory, is a value of its
  own here. The null pointer is address 0. The locks of the pools are those of \<open>Lock_Invariant\<close>:
  the operations are given as one thread runs them.
\<close>

unbundle bit_operations_syntax

section \<open>Model\<close>

record pool =
  used_map :: bitmap
  base :: u32

record memory =
  ram :: ram
  kernel_pool :: pool
  user_pool :: pool
  init_ram_pages :: u32

definition PAL_ASSERT :: u32 where "PAL_ASSERT = 1"
definition PAL_ZERO :: u32 where "PAL_ZERO = 2"
definition PAL_USER :: u32 where "PAL_USER = 4"

text \<open>The pool that \<open>pool\<close> points to in \<open>palloc_get_multiple\<close>.\<close>

definition get_pool :: "bool \<Rightarrow> memory \<Rightarrow> pool" where
  "get_pool user m = (if user then user_pool m else kernel_pool m)"

definition set_pool :: "bool \<Rightarrow> pool \<Rightarrow> memory \<Rightarrow> memory" where
  "set_pool user p m = (if user then m\<lparr>user_pool := p\<rparr> else m\<lparr>kernel_pool := p\<rparr>)"

text \<open>The words behind the header of a bitmap created in a buffer.\<close>

definition buffer_words :: "ram \<Rightarrow> u32 \<Rightarrow> u32 \<Rightarrow> u32 list" where
  "buffer_words r a block_size = map (\<lambda>i. load32 r (a + 8 + 4 * of_nat i)) [0..<(unat block_size - 8) div 4]"

definition init_pool :: "ram \<Rightarrow> u32 \<Rightarrow> u32 \<Rightarrow> pool res" where
  "init_pool r start page_cnt =
     (let bm_pages = (bitmap_buf_size page_cnt + 4096 - 1) div 4096 in
      if page_cnt < bm_pages then Inl Kernel_panic
      else
        bindR (bitmap_create_in_buf (page_cnt - bm_pages) (buffer_words r start (bm_pages * 4096)) (bm_pages * 4096)) (\<lambda>b.
        Inr \<lparr>used_map = b, base = start + bm_pages * 4096\<rparr>))"

text \<open>The difference of two pointers is signed.\<close>

definition palloc_init :: "u32 \<Rightarrow> memory \<Rightarrow> memory res" where
  "palloc_init user_page_limit m =
     bindR (ptov (1024 * 1024)) (\<lambda>free_start.
     bindR (ptov (init_ram_pages m * 4096)) (\<lambda>free_end.
     let free_pages = of_int (sint (free_end - free_start) sdiv 4096);
         user_pages = free_pages div 2;
         user_pages = (if user_page_limit < user_pages then user_page_limit else user_pages);
         kernel_pages = free_pages - user_pages in
     bindR (init_pool (ram m) free_start kernel_pages) (\<lambda>k.
     bindR (init_pool (ram m) (free_start + kernel_pages * 4096) user_pages) (\<lambda>u.
     Inr (m\<lparr>kernel_pool := k, user_pool := u\<rparr>)))))"

definition palloc_get_multiple :: "u32 \<Rightarrow> u32 \<Rightarrow> memory \<Rightarrow> (memory \<times> u32) res" where
  "palloc_get_multiple flags page_cnt m =
     (let user = (flags AND PAL_USER \<noteq> 0); p = get_pool user m in
      if page_cnt = 0 then Inr (m, 0)
      else
        bindR (bitmap_scan_and_flip (used_map p) 0 page_cnt False) (\<lambda>(b, page_idx).
        let m = set_pool user (p\<lparr>used_map := b\<rparr>) m;
            pages = (if page_idx \<noteq> BITMAP_ERROR then base p + 4096 * page_idx else 0) in
        if pages \<noteq> 0
        then Inr (if flags AND PAL_ZERO \<noteq> 0
                  then m\<lparr>ram := store_bytes (ram m) pages (replicate (unat (4096 * page_cnt)) 0)\<rparr> else m, pages)
        else if flags AND PAL_ASSERT \<noteq> 0 then Inl Kernel_panic
        else Inr (m, 0)))"

definition palloc_get_page :: "u32 \<Rightarrow> memory \<Rightarrow> (memory \<times> u32) res" where
  "palloc_get_page flags m = palloc_get_multiple flags 1 m"

definition page_from_pool :: "pool \<Rightarrow> u32 \<Rightarrow> bool" where
  "page_from_pool p page =
     (let page_no = pg_no page; start_page = pg_no (base p); end_page = start_page + bitmap_size (used_map p)
      in start_page \<le> page_no \<and> page_no < end_page)"

text \<open>\<open>NOT_REACHED\<close> panics.\<close>

definition palloc_free_multiple :: "u32 \<Rightarrow> u32 \<Rightarrow> memory \<Rightarrow> memory res" where
  "palloc_free_multiple pages page_cnt m =
     bindR (ASSERT (pg_ofs pages = 0)) (\<lambda>_.
     if pages = 0 \<or> page_cnt = 0 then Inr m
     else if \<not> page_from_pool (kernel_pool m) pages \<and> \<not> page_from_pool (user_pool m) pages then Inl Kernel_panic
     else
       let user = (\<not> page_from_pool (kernel_pool m) pages); p = get_pool user m;
           page_idx = pg_no pages - pg_no (base p);
           m = m\<lparr>ram := store_bytes (ram m) pages (replicate (unat (4096 * page_cnt)) 0xcc)\<rparr> in
       bindR (bitmap_all (used_map p) page_idx page_cnt) (\<lambda>a.
       bindR (ASSERT a) (\<lambda>_.
       bindR (bitmap_set_multiple (used_map p) page_idx page_cnt False) (\<lambda>b.
       Inr (set_pool user (p\<lparr>used_map := b\<rparr>) m)))))"

definition palloc_free_page :: "u32 \<Rightarrow> memory \<Rightarrow> memory res" where
  "palloc_free_page page m = palloc_free_multiple page 1 m"

section \<open>Pools\<close>

definition pool_ok :: "pool \<Rightarrow> bool" where
  "pool_ok p \<longleftrightarrow> wf_bitmap (used_map p) \<and> pg_ofs (base p) = 0 \<and> PHYS_BASE \<le> base p \<and>
     unat (base p) + 4096 * unat (bit_cnt (used_map p)) \<le> 2 ^ 32"

definition pool_slots :: "pool \<Rightarrow> nat" where
  "pool_slots p = unat (bit_cnt (used_map p))"

definition pool_used :: "pool \<Rightarrow> nat set" where
  "pool_used p = {i. i < pool_slots p \<and> abs_bits (used_map p) ! i}"

definition page_addr :: "pool \<Rightarrow> nat \<Rightarrow> u32" where
  "page_addr p i = base p + 4096 * of_nat i"

text \<open>The pools do not overlap: the kernel pool ends where the user pool begins, or before.\<close>

definition mem_inv :: "memory \<Rightarrow> bool" where
  "mem_inv m \<longleftrightarrow> pool_ok (kernel_pool m) \<and> pool_ok (user_pool m) \<and>
     unat (base (kernel_pool m)) + 4096 * pool_slots (kernel_pool m) \<le> unat (base (user_pool m))"

lemma mem_inv_pool: "mem_inv m \<Longrightarrow> pool_ok (get_pool u m)"
  by (simp add: mem_inv_def get_pool_def)

lemma unat_page_addr:
  assumes "pool_ok p" "i < pool_slots p"
  shows "unat (page_addr p i) = unat (base p) + 4096 * i"
proof -
  have lt: "unat (base p) + 4096 * i < 2 ^ 32" using assms by (simp add: pool_ok_def pool_slots_def)
  then have "unat (4096 * of_nat i :: u32) = 4096 * i"
    using unat_of_nat [where 'a = 32, of "4096 * i"] by simp
  then show ?thesis using lt by (simp add: page_addr_def unat_word_ariths)
qed

lemma page_addr_ok:
  assumes "pool_ok p" "i < pool_slots p"
  shows "pg_ofs (page_addr p i) = 0" "PHYS_BASE \<le> page_addr p i" "page_addr p i \<noteq> 0"
proof -
  note u = unat_page_addr [OF assms]
  have "unat (base p) mod 4096 = 0" using assms(1) unat_pg_ofs [of "base p"] by (simp add: pool_ok_def)
  then have "unat (pg_ofs (page_addr p i)) = 0" by (simp add: unat_pg_ofs u mod_add_eq [symmetric])
  then show "pg_ofs (page_addr p i) = 0" by (simp add: unat_eq_0)
  show b: "PHYS_BASE \<le> page_addr p i" using assms(1) u by (simp add: pool_ok_def word_le_nat_alt)
  then show "page_addr p i \<noteq> 0" by (auto simp: PHYS_BASE_def)
qed

lemma page_addr_inj:
  assumes "pool_ok p" "i < pool_slots p" "j < pool_slots p"
  shows "page_addr p i = page_addr p j \<longleftrightarrow> i = j"
proof
  assume "page_addr p i = page_addr p j"
  then have "unat (base p) + 4096 * i = unat (base p) + 4096 * j"
    using unat_page_addr [OF assms(1,2)] unat_page_addr [OF assms(1,3)] by presburger
  then show "i = j" by simp
qed simp

lemma page_from_pool_iff:
  assumes p: "pool_ok p" and o: "pg_ofs page = 0"
  shows "page_from_pool p page \<longleftrightarrow> unat (base p) \<le> unat page \<and> unat page < unat (base p) + 4096 * pool_slots p"
proof -
  have d: "4096 dvd unat (base p)" "4096 dvd unat page"
    using p o unat_pg_ofs [of "base p"] unat_pg_ofs [of page] by (simp_all add: pool_ok_def mod_eq_0_iff_dvd)
  have "unat (base p) div 4096 + pool_slots p \<le> 2 ^ 20"
    using p d(1) by (auto simp: pool_ok_def pool_slots_def elim!: dvdE)
  then have "unat (pg_no (base p) + bit_cnt (used_map p)) = unat (base p) div 4096 + pool_slots p"
    by (simp add: unat_word_ariths unat_pg_no pool_slots_def)
  then show ?thesis
    using d by (auto simp: page_from_pool_def Let_def bitmap_size_def word_le_nat_alt word_less_nat_alt unat_pg_no elim!: dvdE)
qed

lemma page_addr_from_pool:
  assumes m: "mem_inv m" and i: "i < pool_slots (get_pool u m)"
  shows "page_from_pool (get_pool u m) (page_addr (get_pool u m) i)"
    and "u \<Longrightarrow> \<not> page_from_pool (kernel_pool m) (page_addr (get_pool u m) i)"
proof -
  note p = mem_inv_pool [OF m, of u]
  note a = page_addr_ok [OF p i] unat_page_addr [OF p i]
  show "page_from_pool (get_pool u m) (page_addr (get_pool u m) i)"
    using page_from_pool_iff [OF p a(1)] a(4) i by simp
  show "\<not> page_from_pool (kernel_pool m) (page_addr (get_pool u m) i)" if u
    using page_from_pool_iff [OF mem_inv_pool [OF m, of False] a(1)] a(4) m that
    by (simp add: get_pool_def mem_inv_def)
qed

lemma page_addr_index:
  assumes "pool_ok p" "i < pool_slots p"
  shows "pg_no (page_addr p i) - pg_no (base p) = of_nat i"
proof -
  have "4096 dvd unat (base p)"
    using assms(1) unat_pg_ofs [of "base p"] by (simp add: pool_ok_def mod_eq_0_iff_dvd)
  then have "unat (pg_no (page_addr p i)) = unat (pg_no (base p)) + i"
    using unat_page_addr [OF assms] by (simp add: unat_pg_no)
  then have "pg_no (page_addr p i) = pg_no (base p) + of_nat i" 
    by (drule_tac arg_cong [where f = "of_nat :: nat \<Rightarrow> u32"]) simp
  then show ?thesis by simp
qed

section \<open>Getting and freeing a page\<close>

lemma set_pool_simps [simp]:
  "get_pool u (set_pool u p m) = p" "get_pool (\<not> u) (set_pool u p m) = get_pool (\<not> u) m"
  "ram (set_pool u p m) = ram m" "get_pool v (m\<lparr>ram := r\<rparr>) = get_pool v m"
  "set_pool u (get_pool u m) m = m" "init_ram_pages (set_pool u p m) = init_ram_pages m"
  by (simp_all add: get_pool_def set_pool_def)

lemma mem_inv_set_pool:
  assumes "mem_inv m" "wf_bitmap b" "bit_cnt b = bit_cnt (used_map (get_pool u m))"
  shows "mem_inv (set_pool u ((get_pool u m)\<lparr>used_map := b\<rparr>) m)"
  using assms by (auto simp: mem_inv_def set_pool_def get_pool_def pool_ok_def pool_slots_def)

lemma mem_inv_ram [simp]: "mem_inv (m\<lparr>ram := r\<rparr>) = mem_inv m"
  by (simp add: mem_inv_def)

lemma pool_used_upd:
  assumes "i < pool_slots p" "bit_cnt b = bit_cnt (used_map p)" "abs_bits b = (abs_bits (used_map p))[i := v]"
  shows "pool_used (p\<lparr>used_map := b\<rparr>) = (if v then insert i (pool_used p) else pool_used p - {i})"
  using assms by (auto simp: pool_used_def pool_slots_def nth_list_update simp del: nth_abs_bits)

lemma palloc_get_page_full:
  assumes m: "mem_inv m" and p: "p = get_pool (flags AND PAL_USER \<noteq> 0) m" and full: "pool_used p = {..<pool_slots p}"
  shows "palloc_get_page flags m = (if flags AND PAL_ASSERT \<noteq> 0 then Inl Kernel_panic else Inr (m, 0))"
proof -
  have wf: "wf_bitmap (used_map p)" using mem_inv_pool [OF m] p by (simp add: pool_ok_def)
  have "first_fit (abs_bits (used_map p)) (unat (0::u32)) (unat (1::u32)) False = None"
    using full unfolding first_fit_None pool_used_def pool_slots_def
    by (simp add: run_at_one set_eq_iff Suc_le_eq del: nth_abs_bits) blast
  then have "bitmap_scan_and_flip (used_map p) 0 1 False = Inr (used_map p, BITMAP_ERROR)"
    using bitmap_scan_and_flip_None [of "used_map p" 0 1 False] wf by simp
  then show ?thesis using p by (simp add: palloc_get_page_def palloc_get_multiple_def Let_def)
qed

lemma palloc_get_page_first:
  assumes m: "mem_inv m" and u: "u = (flags AND PAL_USER \<noteq> 0)" and p: "p = get_pool u m"
    and free: "pool_used p \<noteq> {..<pool_slots p}"
  obtains i bm where "i < pool_slots p" "i \<notin> pool_used p" "{..<i} \<subseteq> pool_used p"
    "palloc_get_page flags m = Inr ((set_pool u (p\<lparr>used_map := bm\<rparr>) m)\<lparr>ram :=
       if flags AND PAL_ZERO \<noteq> 0 then store_bytes (ram m) (page_addr p i) (replicate 4096 0) else ram m\<rparr>, page_addr p i)"
    "mem_inv (set_pool u (p\<lparr>used_map := bm\<rparr>) m)" "bit_cnt bm = bit_cnt (used_map p)"
    "pool_used (p\<lparr>used_map := bm\<rparr>) = insert i (pool_used p)"
proof -
  have ok: "pool_ok p" using mem_inv_pool [OF m] p by simp
  then have wf: "wf_bitmap (used_map p)" by (simp add: pool_ok_def)
  have "first_fit (abs_bits (used_map p)) (unat (0::u32)) (unat (1::u32)) False \<noteq> None"
    using free by (auto simp: first_fit_None run_at_one pool_used_def pool_slots_def)
  then obtain i where fit: "first_fit (abs_bits (used_map p)) (unat (0::u32)) (unat (1::u32)) False = Some i" by blast
  then have i: "i < unat (bit_cnt (used_map p))" "\<not> abs_bits (used_map p) ! i" "\<forall>j<i. abs_bits (used_map p) ! j"
    by (auto simp: first_fit_Some run_at_one)
  obtain bm where b: "bitmap_scan_and_flip (used_map p) 0 1 False = Inr (bm, of_nat i)" "wf_bitmap bm"
      "bit_cnt bm = bit_cnt (used_map p)" "(of_nat i :: u32) \<noteq> BITMAP_ERROR"
      "abs_bits bm = (abs_bits (used_map p))[i := True]"
    using bitmap_scan_and_flip_Some [OF wf _ fit] i(1) update_one_bit [of i "abs_bits (used_map p)" True] by auto
  have il: "i < pool_slots p" using i(1) by (simp add: pool_slots_def)
  note a = page_addr_ok [OF ok il]
  have "palloc_get_page flags m = Inr ((set_pool u (p\<lparr>used_map := bm\<rparr>) m)\<lparr>ram :=
       if flags AND PAL_ZERO \<noteq> 0 then store_bytes (ram m) (page_addr p i) (replicate 4096 0) else ram m\<rparr>, page_addr p i)"
    using b(1,4) a(3) u p unfolding page_addr_def
    by (auto simp: palloc_get_page_def palloc_get_multiple_def Let_def)
  moreover have "mem_inv (set_pool u (p\<lparr>used_map := bm\<rparr>) m)"
    using mem_inv_set_pool [OF m b(2), of u] b(3) p by simp
  moreover have "i \<notin> pool_used p" "{..<i} \<subseteq> pool_used p" using i by (auto simp: pool_used_def pool_slots_def)
  ultimately show thesis using that il b(3) pool_used_upd [OF il b(3,5)] by simp
qed

lemma palloc_free_page_used:
  assumes m: "mem_inv m" and p: "p = get_pool u m" and i: "i \<in> pool_used p"
  obtains bm where "palloc_free_page (page_addr p i) m = Inr ((set_pool u (p\<lparr>used_map := bm\<rparr>) m)\<lparr>ram :=
       store_bytes (ram m) (page_addr p i) (replicate 4096 0xcc)\<rparr>)"
    "mem_inv (set_pool u (p\<lparr>used_map := bm\<rparr>) m)" "bit_cnt bm = bit_cnt (used_map p)"
    "pool_used (p\<lparr>used_map := bm\<rparr>) = pool_used p - {i}"
proof -
  have ok: "pool_ok p" and il: "i < pool_slots p" using mem_inv_pool [OF m] p i by (auto simp: pool_used_def)
  then have wf: "wf_bitmap (used_map p)" and lt: "i < unat (bit_cnt (used_map p))"
    by (simp_all add: pool_ok_def pool_slots_def)
  note a = page_addr_ok [OF ok il]
  have ui: "unat (of_nat i :: u32) = i" using lt by (rule unat_of_nat_below)
  then have "in_range (used_map p) (of_nat i) 1" using lt by (simp add: in_range_def)
  from bitmap_contains_bits [OF wf this, of False] i
  have all: "bitmap_all (used_map p) (of_nat i) 1 = Inr True"
    by (auto simp: bitmap_all_def ui less_Suc_eq_le pool_used_def dest: le_antisym)
  obtain bm where b: "bitmap_set_multiple (used_map p) (of_nat i) 1 False = Inr bm" "wf_bitmap bm"
      "bit_cnt bm = bit_cnt (used_map p)" "abs_bits bm = (abs_bits (used_map p))[i := False]"
    using bitmap_set_one [OF wf lt, of False] by blast
  have f: "page_from_pool (get_pool u m) (page_addr p i)" "u \<Longrightarrow> \<not> page_from_pool (kernel_pool m) (page_addr p i)"
    using page_addr_from_pool [OF m] il p by auto
  then have user: "(\<not> page_from_pool (kernel_pool m) (page_addr p i)) = u" "page_from_pool (kernel_pool m) (page_addr p i) \<or> page_from_pool (user_pool m) (page_addr p i)"
    by (cases u; simp add: get_pool_def)+
  have "palloc_free_page (page_addr p i) m = Inr ((set_pool u (p\<lparr>used_map := bm\<rparr>) m)\<lparr>ram :=
       store_bytes (ram m) (page_addr p i) (replicate 4096 0xcc)\<rparr>)"
    using user a(1,3) all b(1) page_addr_index [OF ok il] p unfolding palloc_free_page_def palloc_free_multiple_def Let_def
    by (auto simp: set_pool_def)
  moreover have "mem_inv (set_pool u (p\<lparr>used_map := bm\<rparr>) m)"
    using mem_inv_set_pool [OF m b(2), of u] b(3) p by simp
  ultimately show thesis using that b(3) pool_used_upd [OF il b(3,4)] by simp
qed


section \<open>Setting up the pools\<close>

lemma unat_buf_size:
  assumes "unat cnt \<le> 2 ^ 20"
  shows "unat (bitmap_buf_size cnt) = 8 + 4 * ((unat cnt + 31) div 32)"
proof -
  have "unat (cnt + 32 - 1) = unat cnt + 31"
  proof -
    have "cnt + 32 - 1 = cnt + 31" by simp
    then show ?thesis using assms by (simp only: unat_word_ariths) simp
  qed
  then have e: "unat (elem_cnt cnt) = (unat cnt + 31) div 32" by (simp add: elem_cnt_def unat_div)
  have "(unat cnt + 31) div 32 \<le> 2 ^ 20" using assms by simp
  then show ?thesis using e by (simp add: bitmap_buf_size_def byte_cnt_def unat_word_ariths)
qed

lemma init_pool_ok:
  assumes cnt: "0 < unat cnt" "unat cnt \<le> 2 ^ 20" and start: "pg_ofs start = 0" "PHYS_BASE \<le> start"
    and fits: "unat start + 4096 * unat cnt < 2 ^ 32"
  obtains p where "init_pool r start cnt = Inr p" "pool_ok p" "pool_used p = {}" "pool_slots p < unat cnt"
    "unat start < unat (base p)" "unat (base p) + 4096 * pool_slots p = unat start + 4096 * unat cnt"
proof -
  define c where "c = unat cnt"
  define E where "E = (c + 31) div 32"
  define bm where "bm = (8 + 4 * E + 4095) div 4096"
  let ?bm = "(bitmap_buf_size cnt + 4096 - 1) div 4096"
  have E: "E \<le> c" "c \<le> 32 * E" using cnt by (auto simp: E_def c_def)
  have bm: "1 \<le> bm" "bm \<le> c" "8 + 4 * E \<le> 4096 * bm" using E cnt by (auto simp: bm_def c_def)
  have buf: "unat (bitmap_buf_size cnt) = 8 + 4 * E" using unat_buf_size [OF cnt(2)] by (simp add: E_def c_def)
  have "unat (bitmap_buf_size cnt + 4096 - 1) = 8 + 4 * E + 4095"
  proof -
    have "bitmap_buf_size cnt + 4096 - 1 = bitmap_buf_size cnt + 4095" by simp
    moreover have "E \<le> 2 ^ 20" using E(1) cnt(2) by (simp add: c_def)
    ultimately show ?thesis using buf by (simp only: unat_word_ariths) simp
  qed
  then have ubm: "unat ?bm = bm" by (simp add: unat_div bm_def)
  have le: "\<not> cnt < ?bm" using bm(2) ubm by (simp add: word_less_nat_alt c_def)
  have ucnt: "unat (cnt - ?bm) = c - bm" using bm(2) ubm by (simp add: unat_sub word_le_nat_alt c_def)
  have c32: "4096 * bm < 2 ^ 32"
  proof -
    have "unat start > 0" using start(2) by (auto simp: PHYS_BASE_def word_le_nat_alt)
    then show ?thesis using fits bm(2) by (simp add: c_def)
  qed
  then have ubytes: "unat (?bm * 4096) = 4096 * bm" using ubm by (simp add: unat_word_ariths)
  have "(c - bm + 31) div 32 \<le> E" unfolding E_def by (rule div_le_mono) simp
  then have small: "bitmap_buf_size (cnt - ?bm) \<le> ?bm * 4096"
    using unat_buf_size [of "cnt - ?bm"] cnt(2) ucnt ubytes bm(3) by (simp add: word_le_nat_alt c_def)
  let ?b = "\<lparr>bit_cnt = cnt - ?bm, bits = buffer_words r start (?bm * 4096)\<rparr>"
  have "E \<le> (4096 * bm - 8) div 4" using bm(3) by simp
  then have "wf_bitmap ?b" using E(2) ucnt ubytes by (simp add: wf_bitmap_def buffer_words_def)
  then obtain b where b: "bitmap_set_all ?b False = Inr b" "wf_bitmap b" "bit_cnt b = cnt - ?bm"
      "abs_bits b = replicate (c - bm) False"
    using bitmap_set_multiple_bits [of ?b 0 "cnt - ?bm" False] ucnt
    by (auto simp: bitmap_set_all_def bitmap_size_def in_range_def)
  let ?p = "\<lparr>used_map = b, base = start + ?bm * 4096\<rparr>"
  have ip: "init_pool r start cnt = Inr ?p"
    using le small b(1) by (simp add: init_pool_def Let_def bitmap_create_in_buf_def)
  have ub: "unat (start + ?bm * 4096) = unat start + 4096 * bm"
    using unat_add_lem [of start "?bm * 4096"] ubytes fits bm(2) by (simp add: c_def)
  have slots: "pool_slots ?p = c - bm" using b(3) ucnt by (simp add: pool_slots_def)
  have "unat start mod 4096 = 0" using start(1) unat_pg_ofs [of start] by simp
  then have "unat (pg_ofs (start + ?bm * 4096)) = 0" unfolding unat_pg_ofs ub by (simp add: mod_add_eq [symmetric])
  then have ofs: "pg_ofs (start + ?bm * 4096) = 0" by (simp add: unat_eq_0)
  have "PHYS_BASE \<le> start + ?bm * 4096" using start(2) ub by (simp add: word_le_nat_alt)
  then have ok: "pool_ok ?p" using b(2,3) ofs ucnt ub fits bm(2) by (simp add: pool_ok_def c_def)
  have "pool_used ?p = {}" using b(3,4) ucnt by (auto simp: pool_used_def pool_slots_def simp del: nth_abs_bits)
  then show thesis using that [OF ip ok] slots ub bm cnt by (simp add: c_def)
qed

text \<open>From one megabyte on, the free memory is divided between the pools.\<close>

lemma palloc_init_ok:
  assumes ram: "258 \<le> unat (init_ram_pages m)" "unat (init_ram_pages m) < 2 ^ 18" and lim: "0 < limit"
  obtains m' where "palloc_init limit m = Inr m'" "mem_inv m'" "ram m' = ram m"
    "pool_used (kernel_pool m') = {}" "pool_used (user_pool m') = {}" "pool_slots (user_pool m') < unat limit"
    "unat PHYS_BASE + 2 ^ 20 \<le> unat (base (kernel_pool m'))"
    "unat (base (user_pool m')) + 4096 * pool_slots (user_pool m') = unat PHYS_BASE + 4096 * unat (init_ram_pages m)"
proof -
  define n where "n = unat (init_ram_pages m)"
  have un: "unat (init_ram_pages m * 4096) = 4096 * n" using ram by (simp add: n_def unat_word_ariths)
  have p: "unat PHYS_BASE = 3221225472" by (simp add: PHYS_BASE_def)
  let ?s = "1024 * 1024 + PHYS_BASE" and ?e = "init_ram_pages m * 4096 + PHYS_BASE"
  have us: "unat ?s = 3221225472 + 1048576" by (simp add: PHYS_BASE_def)
  have ue: "unat ?e = 3221225472 + 4096 * n"
    using unat_add_lem [of "init_ram_pages m * 4096" PHYS_BASE] un p ram by (simp add: n_def)
  have pt: "ptov (1024 * 1024) = Inr ?s" "ptov (init_ram_pages m * 4096) = Inr ?e"
    using un ram by (simp_all add: ptov_def word_less_nat_alt p n_def)
  have ud: "unat (?e - ?s) = 4096 * n - 1048576"
    using unat_sub [of ?s ?e] unfolding word_le_nat_alt us ue using ram by (simp add: n_def)
  define free where "free = (of_int (sint (?e - ?s) sdiv 4096) :: u32)"
  have "4096 * n - 1048576 < 2147483648" using ram by (simp add: n_def)
  then have "sint (?e - ?s) = int (4096 * n - 1048576)" using sint_eq_unat [of "?e - ?s"] unfolding ud by blast
  moreover have "4096 * n - 1048576 = 4096 * (n - 256)" "0 < n - 256" using ram by (simp_all add: n_def)
  ultimately have "sint (?e - ?s) sdiv 4096 = int (n - 256)" by (simp only: signed_divide_int_def) simp
  then have "free = of_nat (n - 256)" by (simp add: free_def)
  then have uf: "unat free = n - 256" using ram by (simp add: unat_of_nat n_def del: of_nat_diff)
  define user where "user = (if limit < free div 2 then limit else free div 2)"
  have uu: "unat user = min (unat limit) ((n - 256) div 2)"
    by (simp add: user_def word_less_nat_alt unat_div uf)
  have lim0: "0 < unat limit" using lim by (simp add: word_less_nat_alt)
  have uk: "unat (free - user) = n - 256 - unat user" using uu uf by (simp add: unat_sub word_le_nat_alt)
  have n: "258 \<le> n" "n < 262144" using ram by (simp_all add: n_def)
  have ub: "0 < unat user" "unat user < n - 256" "unat user \<le> unat limit"
    using uu n lim0 by (auto simp: min_def)
  obtain k where k: "init_pool (ram m) ?s (free - user) = Inr k" "pool_ok k" "pool_used k = {}"
      "unat ?s < unat (base k)" "unat (base k) + 4096 * pool_slots k = unat ?s + 4096 * unat (free - user)"
    by (rule init_pool_ok [of "free - user" ?s "ram m"])
      (use ub uk us n in \<open>auto simp: PHYS_BASE_def pg_ofs_def PGMASK_def\<close>)
  have "unat ((free - user) * 4096) = 4096 * unat (free - user)"
    using unat_mult_lem [of "free - user" 4096] uk n by simp linarith
  then have u2: "unat (?s + (free - user) * 4096) = unat ?s + 4096 * unat (free - user)"
    using unat_add_lem [of ?s "(free - user) * 4096"] uk us n by simp linarith
  have "unat (pg_ofs (?s + (free - user) * 4096)) = 0" unfolding unat_pg_ofs u2 us by (simp add: mod_add_eq [symmetric])
  then have ofs: "pg_ofs (?s + (free - user) * 4096) = 0" by (simp add: unat_eq_0)
  obtain u where u: "init_pool (ram m) (?s + (free - user) * 4096) user = Inr u" "pool_ok u" "pool_used u = {}"
      "pool_slots u < unat user" "unat (?s + (free - user) * 4096) < unat (base u)"
      "unat (base u) + 4096 * pool_slots u = unat (?s + (free - user) * 4096) + 4096 * unat user"
    by (rule init_pool_ok [of user "?s + (free - user) * 4096" "ram m"])
      (use ofs u2 ub uk us p n in \<open>auto simp: word_le_nat_alt\<close>)
  have "palloc_init limit m = Inr (m\<lparr>kernel_pool := k, user_pool := u\<rparr>)"
    unfolding palloc_init_def pt bindR_Inr Let_def free_def [symmetric] user_def [symmetric] k(1) u(1) ..
  moreover have "mem_inv (m\<lparr>kernel_pool := k, user_pool := u\<rparr>)"
    using k u u2 by (simp add: mem_inv_def)
  ultimately show thesis
    using that [of "m\<lparr>kernel_pool := k, user_pool := u\<rparr>"] k u u2 us ub uk p n by (simp add: n_def)
qed


section \<open>The allocator interface\<close>

definition pal_alloc :: "bool \<Rightarrow> memory \<Rightarrow> (memory \<times> nat option) res" where
  "pal_alloc user m =
     bindR (palloc_get_page (if user then PAL_USER else 0) m) (\<lambda>(m', page).
     Inr (m', if page = 0 then None else Some (unat (pg_no page - pg_no (base (get_pool user m))))))"

definition pal_release :: "bool \<Rightarrow> memory \<Rightarrow> nat \<Rightarrow> memory res" where
  "pal_release user m i = palloc_free_page (page_addr (get_pool user m) i) m"

lemma pal_flags: "((if u then PAL_USER else 0) AND PAL_USER \<noteq> 0) = u"
  "(if u then PAL_USER else 0) AND PAL_ASSERT = 0" "(if u then PAL_USER else 0) AND PAL_ZERO = 0"
  by (simp_all add: PAL_USER_def PAL_ASSERT_def PAL_ZERO_def)

interpretation pal: slot_allocator mem_inv "\<lambda>m. pool_slots (get_pool u m)" "\<lambda>m. pool_used (get_pool u m)"
  "pal_alloc u" "pal_release u" for u
proof
  fix s assume s: "mem_inv s"
  let ?p = "get_pool u s"
  show "pool_used ?p \<subseteq> {..<pool_slots ?p}" by (auto simp: pool_used_def)
  show "pal_alloc u s = Inr (s, None)" if "pool_used ?p = {..<pool_slots ?p}"
    using palloc_get_page_full [OF s refl, of "if u then PAL_USER else 0"] that
    unfolding pal_flags by (simp add: pal_alloc_def pal_flags)
  show "\<exists>s' i. pal_alloc u s = Inr (s', Some i) \<and> mem_inv s' \<and> pool_slots (get_pool u s') = pool_slots ?p \<and>
      i < pool_slots ?p \<and> i \<notin> pool_used ?p \<and> pool_used (get_pool u s') = insert i (pool_used ?p)"
    if free: "pool_used ?p \<noteq> {..<pool_slots ?p}"
  proof -
    obtain i bm where i: "i < pool_slots ?p" "i \<notin> pool_used ?p"
      "palloc_get_page (if u then PAL_USER else 0) s = Inr ((set_pool u (?p\<lparr>used_map := bm\<rparr>) s)\<lparr>ram :=
         if (if u then PAL_USER else 0) AND PAL_ZERO \<noteq> 0 then store_bytes (ram s) (page_addr ?p i) (replicate 4096 0)
         else ram s\<rparr>, page_addr ?p i)"
      "mem_inv (set_pool u (?p\<lparr>used_map := bm\<rparr>) s)" "bit_cnt bm = bit_cnt (used_map ?p)"
      "pool_used (?p\<lparr>used_map := bm\<rparr>) = insert i (pool_used ?p)"
      by (rule palloc_get_page_first [OF s pal_flags(1) [symmetric, of u] refl free])
    note ok = mem_inv_pool [OF s, of u]
    have "unat (of_nat i :: u32) = i" using i(1) by (intro unat_of_nat_below) (simp add: pool_slots_def)
    then have "pal_alloc u s = Inr (set_pool u (?p\<lparr>used_map := bm\<rparr>) s, Some i)"
      using i(3) page_addr_ok(3) [OF ok i(1)] page_addr_index [OF ok i(1)]
      by (simp add: pal_alloc_def pal_flags)
    then show ?thesis using i by (auto simp: pool_slots_def)
  qed
next
  fix s i assume s: "mem_inv s" "i \<in> pool_used (get_pool u s)"
  obtain bm where "palloc_free_page (page_addr (get_pool u s) i) s = Inr ((set_pool u ((get_pool u s)\<lparr>used_map := bm\<rparr>) s)\<lparr>ram :=
       store_bytes (ram s) (page_addr (get_pool u s) i) (replicate 4096 0xcc)\<rparr>)"
    "mem_inv (set_pool u ((get_pool u s)\<lparr>used_map := bm\<rparr>) s)" "bit_cnt bm = bit_cnt (used_map (get_pool u s))"
    "pool_used ((get_pool u s)\<lparr>used_map := bm\<rparr>) = pool_used (get_pool u s) - {i}"
    by (rule palloc_free_page_used [OF s(1) refl s(2)])
  then show "\<exists>s'. pal_release u s i = Inr s' \<and> mem_inv s' \<and>
      pool_slots (get_pool u s') = pool_slots (get_pool u s) \<and> pool_used (get_pool u s') = pool_used (get_pool u s) - {i}"
    by (simp add: pal_release_def pool_slots_def)
qed

section \<open>Properties\<close>

lemma page_store_apart:
  assumes "pg_ofs p = 0" "pg_ofs q = 0" "p \<noteq> q" "length bs = 4096"
  shows "load_bytes (store_bytes r p bs) q 4096 = load_bytes r q 4096"
  using load_store_apart [of p bs q 4096 r] page_end [OF assms(1)] page_end [OF assms(2)]
    pages_apart [OF assms(1,2,3)] assms(4) by auto

text \<open>
  C10. \<open>palloc_get_page\<close> returns a page of the pool that was free, the lowest one, and with \<open>PAL_ZERO\<close>
  fills it with zeros; \<open>palloc_free_page\<close> gives it back. The used pages are then those from before, and no
  other page of memory has changed in between. When no page is free, the result is the null
  pointer, or a panic with \<open>PAL_ASSERT\<close>.
\<close>

theorem palloc_get_free:
  assumes m: "mem_inv m" and u: "u = (flags AND PAL_USER \<noteq> 0)" and p: "p = get_pool u m"
  shows "(pool_used p = {..<pool_slots p} \<and>
      palloc_get_page flags m = (if flags AND PAL_ASSERT \<noteq> 0 then Inl Kernel_panic else Inr (m, 0))) \<or>
    (\<exists>i m1 m2. let page = page_addr p i in
      palloc_get_page flags m = Inr (m1, page) \<and> mem_inv m1 \<and> i < pool_slots p \<and> i \<notin> pool_used p \<and> {..<i} \<subseteq> pool_used p \<and>
      pool_used (get_pool u m1) = insert i (pool_used p) \<and> get_pool (\<not> u) m1 = get_pool (\<not> u) m \<and>
      (flags AND PAL_ZERO \<noteq> 0 \<longrightarrow> load_bytes (ram m1) page PGSIZE = replicate PGSIZE 0) \<and>
      palloc_free_page page m1 = Inr m2 \<and> mem_inv m2 \<and> pool_used (get_pool u m2) = pool_used p \<and>
      get_pool (\<not> u) m2 = get_pool (\<not> u) m \<and>
      (\<forall>q. pg_ofs q = 0 \<and> q \<noteq> page \<longrightarrow> load_bytes (ram m1) q PGSIZE = load_bytes (ram m) q PGSIZE \<and>
        load_bytes (ram m2) q PGSIZE = load_bytes (ram m) q PGSIZE))"
proof (cases "pool_used p = {..<pool_slots p}")
  case True
  then show ?thesis using palloc_get_page_full [OF m _ True, of flags] u p by simp
next
  case False
  obtain i bm where i: "i < pool_slots p" "i \<notin> pool_used p" "{..<i} \<subseteq> pool_used p"
    "palloc_get_page flags m = Inr ((set_pool u (p\<lparr>used_map := bm\<rparr>) m)\<lparr>ram :=
       if flags AND PAL_ZERO \<noteq> 0 then store_bytes (ram m) (page_addr p i) (replicate 4096 0) else ram m\<rparr>, page_addr p i)"
    "mem_inv (set_pool u (p\<lparr>used_map := bm\<rparr>) m)" "bit_cnt bm = bit_cnt (used_map p)"
    "pool_used (p\<lparr>used_map := bm\<rparr>) = insert i (pool_used p)"
    by (rule palloc_get_page_first [OF m u p False])
  define m1 where "m1 = (set_pool u (p\<lparr>used_map := bm\<rparr>) m)\<lparr>ram :=
       if flags AND PAL_ZERO \<noteq> 0 then store_bytes (ram m) (page_addr p i) (replicate 4096 0) else ram m\<rparr>"
  have m1: "mem_inv m1" "get_pool u m1 = p\<lparr>used_map := bm\<rparr>" "get_pool (\<not> u) m1 = get_pool (\<not> u) m"
    using i(5) by (simp_all add: m1_def)
  have a: "page_addr (get_pool u m1) i = page_addr p i" by (simp add: m1(2) page_addr_def)
  have used: "i \<in> pool_used (get_pool u m1)" using i(7) m1(2) by simp
  obtain bm2 where f: "palloc_free_page (page_addr p i) m1 = Inr ((set_pool u ((get_pool u m1)\<lparr>used_map := bm2\<rparr>) m1)\<lparr>ram :=
       store_bytes (ram m1) (page_addr p i) (replicate 4096 0xcc)\<rparr>)"
    "mem_inv (set_pool u ((get_pool u m1)\<lparr>used_map := bm2\<rparr>) m1)"
    "pool_used ((get_pool u m1)\<lparr>used_map := bm2\<rparr>) = pool_used (get_pool u m1) - {i}"
    using palloc_free_page_used [OF m1(1) refl used] unfolding a by blast
  have al: "pg_ofs (page_addr p i) = 0" using page_addr_ok(1) mem_inv_pool [OF m] p i(1) by simp
  have q: "load_bytes (ram m1) q 4096 = load_bytes (ram m) q 4096" "load_bytes (store_bytes (ram m1) (page_addr p i) (replicate 4096 0xcc)) q 4096 = load_bytes (ram m1) q 4096"
    if "pg_ofs q = 0" "q \<noteq> page_addr p i" for q
    using page_store_apart [OF al that(1)] that(2) by (auto simp: m1_def)
  have z: "load_bytes (ram m1) (page_addr p i) 4096 = replicate 4096 0" if "flags AND PAL_ZERO \<noteq> 0"
    using load_store_bytes [of "replicate 4096 0" "ram m" "page_addr p i"] that by (simp add: m1_def)
  show ?thesis
    using i(1-4,7) m1 f q z unfolding m1_def [symmetric]
    by (intro disjI2 exI [of _ i] exI [of _ m1] exI) (auto simp: Let_def PGSIZE_def)
qed

text \<open>
  C35. The pools after \<open>palloc_init\<close>: whatever the memory holds, with enough of it both pools are
  set up, all their pages are free, they do not overlap, the kernel pool starts above the first
  megabyte and the user pool ends with the memory and stays below the limit given for it.
\<close>

theorem palloc_init_pools:
  assumes "258 \<le> unat (init_ram_pages m)" "unat (init_ram_pages m) < 2 ^ 18" "0 < user_page_limit"
  shows "\<exists>m'. palloc_init user_page_limit m = Inr m' \<and> mem_inv m' \<and>
    pool_used (kernel_pool m') = {} \<and> pool_used (user_pool m') = {} \<and>
    pool_slots (user_pool m') < unat user_page_limit \<and> unat PHYS_BASE + 2 ^ 20 \<le> unat (base (kernel_pool m')) \<and>
    unat (base (user_pool m')) + PGSIZE * pool_slots (user_pool m') = unat PHYS_BASE + PGSIZE * unat (init_ram_pages m)"
  by (rule palloc_init_ok [OF assms]) (simp add: PGSIZE_def)

text \<open>Sixteen megabytes, filled with garbage.\<close>

definition sample_memory :: memory where
  "sample_memory = \<lparr>ram = (\<lambda>_. 0x5a), kernel_pool = \<lparr>used_map = \<lparr>bit_cnt = 0, bits = []\<rparr>, base = 0\<rparr>,
     user_pool = \<lparr>used_map = \<lparr>bit_cnt = 0, bits = []\<rparr>, base = 0\<rparr>, init_ram_pages = 4096\<rparr>"

theorem palloc_init_pools_witness:
  "\<exists>m'. palloc_init 1000 sample_memory = Inr m' \<and> mem_inv m' \<and> pool_slots (user_pool m') < 1000"
  using palloc_init_pools [of sample_memory 1000] by (auto simp: sample_memory_def)

text \<open>Two pools of four pages each, one page and two pages in use.\<close>

definition sample_pools :: memory where
  "sample_pools = \<lparr>ram = (\<lambda>_. 0x5a), kernel_pool = \<lparr>used_map = \<lparr>bit_cnt = 4, bits = [1]\<rparr>, base = 0xc0100000\<rparr>,
     user_pool = \<lparr>used_map = \<lparr>bit_cnt = 4, bits = [3]\<rparr>, base = 0xc0200000\<rparr>, init_ram_pages = 1024\<rparr>"

lemma sample_pools_inv: "mem_inv sample_pools"
  by (simp add: mem_inv_def sample_pools_def pool_ok_def wf_bitmap_def pg_ofs_def PGMASK_def PHYS_BASE_def pool_slots_def)

lemma sample_pools_used: "pool_slots (user_pool sample_pools) = 4" "pool_used (user_pool sample_pools) = {0, 1}"
proof -
  have "bit (3 :: u32) i \<longleftrightarrow> i = 0 \<or> i = 1" if "i < 4" for i
    using that by (auto simp: numeral_eq_Suc less_Suc_eq bit_Suc bit_0)
  then show "pool_used (user_pool sample_pools) = {0, 1}"
    by (auto simp: pool_used_def pool_slots_def sample_pools_def bit_at_def)
qed (simp add: pool_slots_def sample_pools_def)

theorem palloc_get_free_witness:
  "\<exists>m1 m2. palloc_get_page (PAL_USER OR PAL_ZERO) sample_pools = Inr (m1, 0xc0202000) \<and>
     load_bytes (ram m1) 0xc0202000 PGSIZE = replicate PGSIZE 0 \<and>
     palloc_free_page 0xc0202000 m1 = Inr m2 \<and> pool_used (user_pool m2) = {0, 1}"
proof -
  have fl: "True = ((PAL_USER OR PAL_ZERO) AND PAL_USER \<noteq> 0)" "(PAL_USER OR PAL_ZERO) AND PAL_ZERO \<noteq> 0"
    by (simp_all add: PAL_USER_def PAL_ZERO_def)
  have gp: "get_pool True m = user_pool m" for m by (simp add: get_pool_def)
  have ne: "{0, 1} \<noteq> {..<4 :: nat}" by (simp add: lessThan_def set_eq_iff) (intro exI [of _ 2], simp)
  have i2: "i = 2" if "i \<notin> {0, 1}" "{..<i} \<subseteq> {0, 1 :: nat}" for i
    using that by (cases "2 < i") auto
  have pa: "page_addr (user_pool sample_pools) 2 = 0xc0202000" by (simp add: page_addr_def sample_pools_def)
  from palloc_get_free [OF sample_pools_inv fl(1) refl] show ?thesis
    unfolding gp sample_pools_used using ne fl(2) i2 pa unfolding Let_def by (elim disjE exE conjE) auto
qed


end
