(* ===== verification/Pagedir.thy ===== *)
theory Pagedir
  imports Palloc
begin

text \<open>
  \<^verbatim>\<open>userprog/pagedir.c\<close>: page directories. A directory and its page tables are pages of the kernel pool
  and are read and written as words of memory, as the processor does. The lemmas show
  that a directory is a map from virtual pages to frames with a writable, an accessed and a dirty
  bit. The processor's translation buffer is not modelled, so \<open>invalidate_pagedir\<close>, which reloads the
  page directory register with the value it has, changes nothing.
\<close>

unbundle bit_operations_syntax

section \<open>Model\<close>

record paging =
  mem :: memory
  init_page_dir :: u32
  pdbr :: u32

definition pagedir_activate :: "u32 \<Rightarrow> paging \<Rightarrow> paging res" where
  "pagedir_activate pd pg =
     (let pd = (if pd = 0 then init_page_dir pg else pd) in
      bindR (vtop pd) (\<lambda>p. Inr (pg\<lparr>pdbr := p\<rparr>)))"

definition active_pd :: "paging \<Rightarrow> u32 res" where
  "active_pd pg = ptov (pdbr pg)"

definition invalidate_pagedir :: "u32 \<Rightarrow> paging \<Rightarrow> paging res" where
  "invalidate_pagedir pd pg =
     bindR (active_pd pg) (\<lambda>a. if a = pd then pagedir_activate pd pg else Inr pg)"

definition pagedir_create :: "paging \<Rightarrow> (paging \<times> u32) res" where
  "pagedir_create pg =
     bindR (palloc_get_page 0 (mem pg)) (\<lambda>(m, pd).
     Inr (pg\<lparr>mem := if pd \<noteq> 0 then m\<lparr>ram := store_bytes (ram m) pd (load_bytes (ram m) (init_page_dir pg) 4096)\<rparr> else m\<rparr>, pd))"

text \<open>The two loops of \<open>pagedir_destroy\<close>; the first argument is the number of entries left.\<close>

fun destroy_ptes :: "nat \<Rightarrow> u32 \<Rightarrow> memory \<Rightarrow> memory res" where
  "destroy_ptes 0 pte m = Inr m"
| "destroy_ptes (Suc n) pte m =
     bindR (if load32 (ram m) pte AND PTE_P \<noteq> 0
            then bindR (pte_get_page (load32 (ram m) pte)) (\<lambda>page. palloc_free_page page m) else Inr m) (\<lambda>m.
     destroy_ptes n (pte + 4) m)"

fun destroy_pdes :: "nat \<Rightarrow> u32 \<Rightarrow> memory \<Rightarrow> memory res" where
  "destroy_pdes 0 pde m = Inr m"
| "destroy_pdes (Suc n) pde m =
     bindR (if load32 (ram m) pde AND PTE_P \<noteq> 0
            then bindR (pde_get_pt (load32 (ram m) pde)) (\<lambda>pt.
              bindR (destroy_ptes 1024 pt m) (palloc_free_page pt)) else Inr m) (\<lambda>m.
     destroy_pdes n (pde + 4) m)"

definition pagedir_destroy :: "u32 \<Rightarrow> paging \<Rightarrow> paging res" where
  "pagedir_destroy pd pg =
     (if pd = 0 then Inr pg
      else
        bindR (ASSERT (pd \<noteq> init_page_dir pg)) (\<lambda>_.
        bindR (destroy_pdes (unat (pd_no PHYS_BASE)) pd (mem pg)) (\<lambda>m.
        bindR (palloc_free_page pd m) (\<lambda>m. Inr (pg\<lparr>mem := m\<rparr>)))))"

definition lookup_page :: "u32 \<Rightarrow> u32 \<Rightarrow> bool \<Rightarrow> memory \<Rightarrow> (memory \<times> u32) res" where
  "lookup_page pd vaddr create m =
     bindR (ASSERT (pd \<noteq> 0)) (\<lambda>_.
     bindR (ASSERT (\<not> create \<or> is_user_vaddr vaddr)) (\<lambda>_.
     let pde = pd + 4 * pd_no vaddr in
     if load32 (ram m) pde = 0 then
       if create then
         bindR (palloc_get_page PAL_ZERO m) (\<lambda>(m, pt).
         if pt = 0 then Inr (m, 0)
         else
           bindR (pde_create pt) (\<lambda>w.
           let m = m\<lparr>ram := store32 (ram m) pde w\<rparr> in
           bindR (pde_get_pt (load32 (ram m) pde)) (\<lambda>pt. Inr (m, pt + 4 * pt_no vaddr))))
       else Inr (m, 0)
     else bindR (pde_get_pt (load32 (ram m) pde)) (\<lambda>pt. Inr (m, pt + 4 * pt_no vaddr))))"

definition pagedir_set_page :: "u32 \<Rightarrow> u32 \<Rightarrow> u32 \<Rightarrow> bool \<Rightarrow> paging \<Rightarrow> (paging \<times> bool) res" where
  "pagedir_set_page pd upage kpage writable pg =
     bindR (ASSERT (pg_ofs upage = 0)) (\<lambda>_.
     bindR (ASSERT (pg_ofs kpage = 0)) (\<lambda>_.
     bindR (ASSERT (is_user_vaddr upage)) (\<lambda>_.
     bindR (vtop kpage) (\<lambda>k.
     bindR (ASSERT (drop_bit 12 k < init_ram_pages (mem pg))) (\<lambda>_.
     bindR (ASSERT (pd \<noteq> init_page_dir pg)) (\<lambda>_.
     bindR (lookup_page pd upage True (mem pg)) (\<lambda>(m, pte).
     if pte \<noteq> 0 then
       bindR (ASSERT (load32 (ram m) pte AND PTE_P = 0)) (\<lambda>_.
       bindR (pte_create_user kpage writable) (\<lambda>w.
       Inr (pg\<lparr>mem := m\<lparr>ram := store32 (ram m) pte w\<rparr>\<rparr>, True)))
     else Inr (pg\<lparr>mem := m\<rparr>, False))))))))"

definition pagedir_get_page :: "u32 \<Rightarrow> u32 \<Rightarrow> paging \<Rightarrow> u32 res" where
  "pagedir_get_page pd uaddr pg =
     bindR (ASSERT (is_user_vaddr uaddr)) (\<lambda>_.
     bindR (lookup_page pd uaddr False (mem pg)) (\<lambda>(m, pte).
     if pte \<noteq> 0 \<and> load32 (ram m) pte AND PTE_P \<noteq> 0
     then bindR (pte_get_page (load32 (ram m) pte)) (\<lambda>p. Inr (p + pg_ofs uaddr))
     else Inr 0))"

definition pagedir_clear_page :: "u32 \<Rightarrow> u32 \<Rightarrow> paging \<Rightarrow> paging res" where
  "pagedir_clear_page pd upage pg =
     bindR (ASSERT (pg_ofs upage = 0)) (\<lambda>_.
     bindR (ASSERT (is_user_vaddr upage)) (\<lambda>_.
     bindR (lookup_page pd upage False (mem pg)) (\<lambda>(m, pte).
     if pte \<noteq> 0 \<and> load32 (ram m) pte AND PTE_P \<noteq> 0
     then invalidate_pagedir pd (pg\<lparr>mem := m\<lparr>ram := store32 (ram m) pte (load32 (ram m) pte AND NOT PTE_P)\<rparr>\<rparr>)
     else Inr pg)))"

definition pagedir_is_dirty :: "u32 \<Rightarrow> u32 \<Rightarrow> paging \<Rightarrow> bool res" where
  "pagedir_is_dirty pd vpage pg =
     bindR (lookup_page pd vpage False (mem pg)) (\<lambda>(m, pte).
     Inr (pte \<noteq> 0 \<and> load32 (ram m) pte AND PTE_D \<noteq> 0))"

definition pagedir_set_dirty :: "u32 \<Rightarrow> u32 \<Rightarrow> bool \<Rightarrow> paging \<Rightarrow> paging res" where
  "pagedir_set_dirty pd vpage dirty pg =
     bindR (lookup_page pd vpage False (mem pg)) (\<lambda>(m, pte).
     if pte \<noteq> 0 then
       if dirty then Inr (pg\<lparr>mem := m\<lparr>ram := store32 (ram m) pte (load32 (ram m) pte OR PTE_D)\<rparr>\<rparr>)
       else invalidate_pagedir pd (pg\<lparr>mem := m\<lparr>ram := store32 (ram m) pte (load32 (ram m) pte AND NOT PTE_D)\<rparr>\<rparr>)
     else Inr pg)"

definition pagedir_is_accessed :: "u32 \<Rightarrow> u32 \<Rightarrow> paging \<Rightarrow> bool res" where
  "pagedir_is_accessed pd vpage pg =
     bindR (lookup_page pd vpage False (mem pg)) (\<lambda>(m, pte).
     Inr (pte \<noteq> 0 \<and> load32 (ram m) pte AND PTE_A \<noteq> 0))"

definition pagedir_set_accessed :: "u32 \<Rightarrow> u32 \<Rightarrow> bool \<Rightarrow> paging \<Rightarrow> paging res" where
  "pagedir_set_accessed pd vpage accessed pg =
     bindR (lookup_page pd vpage False (mem pg)) (\<lambda>(m, pte).
     if pte \<noteq> 0 then
       if accessed then Inr (pg\<lparr>mem := m\<lparr>ram := store32 (ram m) pte (load32 (ram m) pte OR PTE_A)\<rparr>\<rparr>)
       else invalidate_pagedir pd (pg\<lparr>mem := m\<lparr>ram := store32 (ram m) pte (load32 (ram m) pte AND NOT PTE_A)\<rparr>\<rparr>)
     else Inr pg)"

section \<open>Entries\<close>

lemma and_exp_0: "k < 32 \<Longrightarrow> (w :: u32) AND 2 ^ k = 0 \<longleftrightarrow> \<not> bit w k"
  by (rule and_exp_eq_0_iff_not_bit)

lemma bit_pow: "k < 32 \<Longrightarrow> bit (2 ^ k :: u32) n \<longleftrightarrow> n = k"
  by (auto simp: bit_exp_iff)

lemma flags: "PTE_P = 2 ^ 0" "PTE_W = 2 ^ 1" "PTE_U = 2 ^ 2" "PTE_A = 2 ^ 5" "PTE_D = 2 ^ 6"
  by (simp_all add: PTE_P_def PTE_W_def PTE_U_def PTE_A_def PTE_D_def)

lemma flag_bits [simp]:
  "bit PTE_P n \<longleftrightarrow> n = 0" "bit PTE_W n \<longleftrightarrow> n = 1" "bit PTE_U n \<longleftrightarrow> n = 2" "bit PTE_A n \<longleftrightarrow> n = 5" "bit PTE_D n \<longleftrightarrow> n = 6"
  unfolding flags by (simp_all only: bit_pow)

lemma and_flag [simp]:
  "w AND PTE_P = 0 \<longleftrightarrow> \<not> bit w 0" "w AND PTE_A = 0 \<longleftrightarrow> \<not> bit w 5" "w AND PTE_D = 0 \<longleftrightarrow> \<not> bit w 6"
  unfolding flags by (rule and_exp_0; simp)+

lemma bit_PTE_ADDR [simp]: "n < 32 \<Longrightarrow> bit PTE_ADDR n \<longleftrightarrow> 12 \<le> n"
proof -
  assume n: "n < 32"
  have e: "PTE_ADDR = NOT PGMASK" by (simp add: PTE_ADDR_def PGMASK_def)
  show ?thesis unfolding e using n by (simp add: bit_not_iff bit_PGMASK not_less)
qed

lemma aligned_bits: "pg_ofs p = 0 \<Longrightarrow> n < 12 \<Longrightarrow> \<not> bit p n"
  by (metis bit_0_eq bit_take_bit_iff bot_apply bot_bool_def pg_ofs_mask)

lemma kernel_offset:
  assumes "PHYS_BASE \<le> p"
  shows "vtop p = Inr (p - PHYS_BASE)" "ptov (p - PHYS_BASE) = Inr p" "p - PHYS_BASE < PHYS_BASE"
proof -
  have "unat (p - PHYS_BASE) = unat p - 3221225472"
    using assms by (simp add: unat_sub PHYS_BASE_def)
  moreover have "unat p < 2 ^ 32" using unsigned_less [of p, where 'a = nat] by simp
  ultimately show lt: "p - PHYS_BASE < PHYS_BASE" by (simp add: word_less_nat_alt PHYS_BASE_def)
  show "vtop p = Inr (p - PHYS_BASE)" using assms by (simp add: vtop_def is_kernel_vaddr_def)
  show "ptov (p - PHYS_BASE) = Inr p" using lt by (simp add: ptov_def)
qed

lemma pg_ofs_0_bits: "pg_ofs p = 0 \<longleftrightarrow> (\<forall>n<12. \<not> bit p n)"
proof
  assume "\<forall>n<12. \<not> bit p n"
  then show "pg_ofs p = 0" by (intro bit_word_eqI) (simp add: pg_ofs_mask bit_take_bit_iff)
qed (simp add: aligned_bits)

lemma aligned_offset: "pg_ofs p = 0 \<Longrightarrow> pg_ofs (p - PHYS_BASE) = 0"
proof -
  assume "pg_ofs p = 0"
  then have p: "4096 dvd unat p" using unat_pg_ofs [of p] by (simp add: mod_eq_0_iff_dvd)
  have "(4096 :: nat) dvd 3221225472" "(4096 :: nat) dvd 4294967296" by simp_all
  then have "4096 dvd unat (p - PHYS_BASE)"
    using p unat_sub_if' [of p PHYS_BASE] by (simp add: PHYS_BASE_def dvd_diff_nat)
  then show ?thesis using unat_pg_ofs [of "p - PHYS_BASE"] by (simp add: mod_eq_0_iff_dvd unat_eq_0)
qed

text \<open>The page an entry points to, and the entries the code creates.\<close>

definition pt_of :: "u32 \<Rightarrow> u32" where
  "pt_of e = (e AND PTE_ADDR) + PHYS_BASE"

definition entry_ok :: "u32 \<Rightarrow> bool" where
  "entry_ok e \<longleftrightarrow> bit e 0 \<and> e AND PTE_ADDR < PHYS_BASE"

lemma entry_ok_get: "entry_ok e \<Longrightarrow> pde_get_pt e = Inr (pt_of e)" "entry_ok e \<Longrightarrow> pte_get_page e = Inr (pt_of e)"
  by (simp_all add: entry_ok_def pde_get_pt_def pte_get_page_def ptov_def pt_of_def)

definition new_entry :: "u32 \<Rightarrow> bool \<Rightarrow> u32" where
  "new_entry p w = (p - PHYS_BASE) OR PTE_P OR (if w then PTE_W else 0) OR PTE_U"

lemma new_entry_addr: "pg_ofs p = 0 \<Longrightarrow> new_entry p w AND PTE_ADDR = p - PHYS_BASE"
proof -
  assume "pg_ofs p = 0"
  then have "12 \<le> n" if "bit (p - PHYS_BASE) n" for n
    using aligned_bits [OF aligned_offset, of p n] that by (simp add: linorder_not_less [symmetric]) blast
  then show ?thesis by (intro bit_word_eqI) (auto simp: new_entry_def bit_and_iff bit_or_iff)
qed

lemma new_entry_bits:
  assumes "pg_ofs p = 0"
  shows "bit (new_entry p w) 0" "bit (new_entry p w) 1 \<longleftrightarrow> w" "\<not> bit (new_entry p w) 5" "\<not> bit (new_entry p w) 6"
  using aligned_bits [OF aligned_offset [OF assms], of 1] aligned_bits [OF aligned_offset [OF assms], of 5]
    aligned_bits [OF aligned_offset [OF assms], of 6]
  by (auto simp: new_entry_def bit_or_iff)

lemma new_entry_ok:
  assumes "pg_ofs p = 0" "PHYS_BASE \<le> p"
  shows "entry_ok (new_entry p w)" "pt_of (new_entry p w) = p" "new_entry p w \<noteq> 0"
  using new_entry_addr [OF assms(1), of w] new_entry_bits [OF assms(1), of w] kernel_offset(3) [OF assms(2)]
  by (auto simp: entry_ok_def pt_of_def)

lemma create_entries:
  assumes "pg_ofs p = 0" "PHYS_BASE \<le> p"
  shows "pte_create_user p w = Inr (new_entry p w)" "pde_create p = Inr (new_entry p True)"
proof -
  show "pte_create_user p w = Inr (new_entry p w)"
    using assms kernel_offset(1) [OF assms(2)]
    by (simp add: pte_create_user_def pte_create_kernel_def new_entry_def or.assoc)
  have "(p - PHYS_BASE) OR PTE_U OR PTE_P OR PTE_W = new_entry p True"
    by (simp add: new_entry_def ac_simps)
  then show "pde_create p = Inr (new_entry p True)"
    using assms kernel_offset(1) [OF assms(2)] by (simp add: pde_create_def or.assoc)
qed

section \<open>Directories as maps\<close>

definition kpages :: "memory \<Rightarrow> u32 set" where
  "kpages m = page_addr (kernel_pool m) ` pool_used (kernel_pool m)"

definition table :: "memory \<Rightarrow> u32 \<Rightarrow> nat \<Rightarrow> u32" where
  "table m pd i = pt_of (entry (ram m) pd i)"

text \<open>The page table entry of virtual page \<open>v\<close>, 0 where there is no page table.\<close>

definition has_table :: "memory \<Rightarrow> u32 \<Rightarrow> nat \<Rightarrow> bool" where
  "has_table m pd v \<longleftrightarrow> entry (ram m) pd (v div 1024) \<noteq> 0"

definition pte_at :: "memory \<Rightarrow> u32 \<Rightarrow> nat \<Rightarrow> u32" where
  "pte_at m pd v = (if has_table m pd v then entry (ram m) (table m pd (v div 1024)) (v mod 1024) else 0)"

text \<open>
  A directory is well formed when it and its page tables are distinct pages in use in the kernel pool
  and every present entry points into physical memory that the kernel has mapped.
\<close>

definition pd_ok :: "memory \<Rightarrow> u32 \<Rightarrow> bool" where
  "pd_ok m pd \<longleftrightarrow> mem_inv m \<and> pd \<in> kpages m \<and>
     (\<forall>i<1024. entry (ram m) pd i \<noteq> 0 \<longrightarrow> entry_ok (entry (ram m) pd i) \<and> table m pd i \<in> kpages m \<and> table m pd i \<noteq> pd) \<and>
     (\<forall>i j. i < 1024 \<longrightarrow> j < 1024 \<longrightarrow> entry (ram m) pd i \<noteq> 0 \<longrightarrow> entry (ram m) pd j \<noteq> 0 \<longrightarrow>
        table m pd i = table m pd j \<longrightarrow> i = j) \<and>
     (\<forall>v<1048576. bit (pte_at m pd v) 0 \<longrightarrow> entry_ok (pte_at m pd v))"

definition vpn :: "u32 \<Rightarrow> nat" where
  "vpn va = unat (pg_no va)"

lemma vpn_split: "unat (pd_no va) = vpn va div 1024" "unat (pt_no va) = vpn va mod 1024" "vpn va < 1048576"
proof -
  have "unat va < 2 ^ 32" using unsigned_less [of va, where 'a = nat] by simp
  then show "unat (pd_no va) = vpn va div 1024" "unat (pt_no va) = vpn va mod 1024" "vpn va < 1048576"
    by (simp_all add: vpn_def unat_pd_no unat_pt_no unat_pg_no div_mult2_eq [symmetric])
qed

lemma kpages_ok:
  assumes "mem_inv m" "q \<in> kpages m"
  shows "pg_ofs q = 0" "q \<noteq> 0" "PHYS_BASE \<le> q"
  using assms page_addr_ok [of "kernel_pool m"] by (auto simp: kpages_def mem_inv_def pool_used_def)

lemma pd_okD:
  assumes "pd_ok m pd"
  shows "mem_inv m" "pg_ofs pd = 0" "pd \<noteq> 0" "PHYS_BASE \<le> pd" "pd \<in> kpages m"
    and "i < 1024 \<Longrightarrow> entry (ram m) pd i \<noteq> 0 \<Longrightarrow>
      entry_ok (entry (ram m) pd i) \<and> table m pd i \<in> kpages m \<and> table m pd i \<noteq> pd \<and> pg_ofs (table m pd i) = 0"
    and "i < 1024 \<Longrightarrow> j < 1024 \<Longrightarrow> entry (ram m) pd i \<noteq> 0 \<Longrightarrow> entry (ram m) pd j \<noteq> 0 \<Longrightarrow>
      table m pd i = table m pd j \<Longrightarrow> i = j"
    and "v < 1048576 \<Longrightarrow> bit (pte_at m pd v) 0 \<Longrightarrow> entry_ok (pte_at m pd v)"
proof -
  show "mem_inv m" "pd \<in> kpages m" using assms by (simp_all add: pd_ok_def)
  then show "pg_ofs pd = 0" "pd \<noteq> 0" "PHYS_BASE \<le> pd" using kpages_ok by blast+
  show "i < 1024 \<Longrightarrow> entry (ram m) pd i \<noteq> 0 \<Longrightarrow>
      entry_ok (entry (ram m) pd i) \<and> table m pd i \<in> kpages m \<and> table m pd i \<noteq> pd \<and> pg_ofs (table m pd i) = 0"
    using assms kpages_ok(1) [OF \<open>mem_inv m\<close>] by (simp add: pd_ok_def)
  show "i < 1024 \<Longrightarrow> j < 1024 \<Longrightarrow> entry (ram m) pd i \<noteq> 0 \<Longrightarrow> entry (ram m) pd j \<noteq> 0 \<Longrightarrow>
      table m pd i = table m pd j \<Longrightarrow> i = j" using assms by (simp add: pd_ok_def)
  show "v < 1048576 \<Longrightarrow> bit (pte_at m pd v) 0 \<Longrightarrow> entry_ok (pte_at m pd v)" using assms by (simp add: pd_ok_def)
qed

text \<open>Looking up an entry without creating a page table.\<close>

definition set_pte :: "memory \<Rightarrow> u32 \<Rightarrow> nat \<Rightarrow> u32 \<Rightarrow> memory" where
  "set_pte m pd v w = m\<lparr>ram := set_entry (ram m) (table m pd (v div 1024)) (v mod 1024) w\<rparr>"

lemma entry_word: "load32 r (p + 4 * n) = entry r p (unat n)" "store32 r (p + 4 * n) w = set_entry r p (unat n) w"
  by (simp_all add: entry_def set_entry_def)

lemma lookup_page_False:
  assumes ok: "pd_ok m pd"
  obtains a where "lookup_page pd va False m = Inr (m, a)" "a = 0 \<longleftrightarrow> \<not> has_table m pd (vpn va)"
    "a \<noteq> 0 \<Longrightarrow> load32 (ram m) a = pte_at m pd (vpn va)"
    "\<And>w. a \<noteq> 0 \<Longrightarrow> m\<lparr>ram := store32 (ram m) a w\<rparr> = set_pte m pd (vpn va) w"
proof (cases "has_table m pd (vpn va)")
  case False
  then have "lookup_page pd va False m = Inr (m, 0)"
    using pd_okD(3) [OF ok] by (simp add: lookup_page_def Let_def entry_word vpn_split has_table_def)
  then show thesis using that False by blast
next
  case True
  let ?i = "vpn va div 1024"
  have i: "?i < 1024" using vpn_split(3) [of va] by simp
  have e: "entry (ram m) pd ?i \<noteq> 0" using True by (simp add: has_table_def)
  note t = pd_okD(6) [OF ok i e]
  let ?a = "table m pd ?i + 4 * pt_no va"
  have "lookup_page pd va False m = Inr (m, ?a)"
    using pd_okD(3) [OF ok] e entry_ok_get(1) t
    by (simp add: lookup_page_def Let_def entry_word vpn_split table_def)
  moreover have "?a \<noteq> 0"
  proof -
    have "unat ?a = unat (table m pd ?i) + 4 * (vpn va mod 1024)"
    proof -
      have "(of_nat (vpn va mod 1024) :: u32) = pt_no va" unfolding vpn_split(2) [symmetric] by simp
      then show ?thesis using unat_entry [of "table m pd ?i" "vpn va mod 1024"] t by simp
    qed
    moreover have "0 < unat (table m pd ?i)"
      using kpages_ok(2) [OF pd_okD(1) [OF ok], of "table m pd ?i"] t by (simp add: unat_gt_0)
    ultimately show ?thesis by auto
  qed
  ultimately show thesis
    using that [of ?a] True by (simp add: entry_word vpn_split pte_at_def set_pte_def)
qed


lemma kpages_ram [simp]: "kpages (m\<lparr>ram := r\<rparr>) = kpages m"
  by (simp add: kpages_def)

text \<open>Writing one word of a page that is not the directory: only the entries of that page can change.\<close>

lemma set_entry_pd_ok:
  assumes ok: "pd_ok m pd" and t: "pg_ofs t = 0" "t \<noteq> pd" and k: "k < 1024" and w: "bit w 0 \<longrightarrow> entry_ok w"
  defines "m' \<equiv> m\<lparr>ram := set_entry (ram m) t k w\<rparr>"
  shows "j < 1024 \<Longrightarrow> entry (ram m') pd j = entry (ram m) pd j"
    and "j < 1024 \<Longrightarrow> table m' pd j = table m pd j"
    and "v < 1048576 \<Longrightarrow> has_table m' pd v = has_table m pd v"
    and "v < 1048576 \<Longrightarrow> pte_at m' pd v =
      (if has_table m pd v \<and> table m pd (v div 1024) = t \<and> v mod 1024 = k then w else pte_at m pd v)"
    and "pd_ok m' pd"
proof -
  have pde: "entry (ram m') pd j = entry (ram m) pd j" if "j < 1024" for j
    using entry_set [OF t(1) pd_okD(2) [OF ok] k that] t(2) by (simp add: m'_def)
  then show "j < 1024 \<Longrightarrow> entry (ram m') pd j = entry (ram m) pd j" .
  have tb: "table m' pd j = table m pd j" if "j < 1024" for j using pde [OF that] by (simp add: table_def)
  then show "j < 1024 \<Longrightarrow> table m' pd j = table m pd j" .
  have ht: "has_table m' pd v = has_table m pd v" if "v < 1048576" for v
    using pde [of "v div 1024"] that by (simp add: has_table_def)
  then show "v < 1048576 \<Longrightarrow> has_table m' pd v = has_table m pd v" .
  have pt: "pte_at m' pd v = (if has_table m pd v \<and> table m pd (v div 1024) = t \<and> v mod 1024 = k then w else pte_at m pd v)"
    if v: "v < 1048576" for v
  proof (cases "has_table m pd v")
    case True
    have j: "v div 1024 < 1024" "v mod 1024 < 1024" "entry (ram m) pd (v div 1024) \<noteq> 0"
      using v True by (simp_all add: has_table_def)
    have "entry (ram m') (table m pd (v div 1024)) (v mod 1024) =
        (if t = table m pd (v div 1024) \<and> k = v mod 1024 then w else entry (ram m) (table m pd (v div 1024)) (v mod 1024))"
      using entry_set [OF t(1) _ k j(2)] pd_okD(6) [OF ok j(1,3)] by (simp add: m'_def)
    then show ?thesis using True ht [OF v] tb [OF j(1)] unfolding pte_at_def by auto
  qed (use ht [OF v] in \<open>auto simp: pte_at_def\<close>)
  then show "v < 1048576 \<Longrightarrow> pte_at m' pd v =
      (if has_table m pd v \<and> table m pd (v div 1024) = t \<and> v mod 1024 = k then w else pte_at m pd v)" .
  have kp: "kpages m' = kpages m" by (simp add: m'_def)
  show "pd_ok m' pd" unfolding pd_ok_def
  proof (intro conjI allI impI)
    show "mem_inv m'" using pd_okD(1) [OF ok] by (simp add: m'_def)
    show "pd \<in> kpages m'" using pd_okD(5) [OF ok] kp by simp
    fix j assume j: "j < 1024" "entry (ram m') pd j \<noteq> 0"
    then have "entry (ram m) pd j \<noteq> 0" using pde by simp
    then show "entry_ok (entry (ram m') pd j)" "table m' pd j \<in> kpages m'" "table m' pd j \<noteq> pd"
      using pd_okD(6) [OF ok j(1)] pde [OF j(1)] tb [OF j(1)] kp by simp_all
  next
    fix j k assume "j < 1024" "k < 1024" "entry (ram m') pd j \<noteq> 0" "entry (ram m') pd k \<noteq> 0" "table m' pd j = table m' pd k"
    then show "j = k" using pd_okD(7) [OF ok, of j k] pde tb by simp
  next
    fix v assume "v < 1048576" "bit (pte_at m' pd v) 0"
    then show "entry_ok (pte_at m' pd v)" using pt [of v] w pd_okD(8) [OF ok, of v] by (auto split: if_splits)
  qed
qed

text \<open>Writing one page table entry of the directory changes this entry and nothing else.\<close>

lemma set_pte_ok:
  assumes ok: "pd_ok m pd" and v: "v < 1048576" "has_table m pd v" and w: "bit w 0 \<longrightarrow> entry_ok w"
  shows "pd_ok (set_pte m pd v w) pd"
    and "v' < 1048576 \<Longrightarrow> pte_at (set_pte m pd v w) pd v' = (if v' = v then w else pte_at m pd v')"
    and "v' < 1048576 \<Longrightarrow> has_table (set_pte m pd v w) pd v' = has_table m pd v'"
    and "pg_ofs q = 0 \<Longrightarrow> q \<noteq> table m pd (v div 1024) \<Longrightarrow>
      load_bytes (ram (set_pte m pd v w)) q 4096 = load_bytes (ram m) q 4096"
proof -
  let ?i = "v div 1024" and ?k = "v mod 1024" and ?m = "set_pte m pd v w"
  have i: "?i < 1024" "?k < 1024" using v(1) by simp_all
  have e: "entry (ram m) pd ?i \<noteq> 0" using v(2) by (simp add: has_table_def)
  have t: "pg_ofs (table m pd ?i) = 0" "table m pd ?i \<noteq> pd" using pd_okD(6) [OF ok i(1) e] by simp_all
  note s = set_entry_pd_ok [OF ok t i(2) w, folded set_pte_def]
  show "pd_ok ?m pd" by (rule s(5))
  show "v' < 1048576 \<Longrightarrow> has_table ?m pd v' = has_table m pd v'" by (rule s(3))
  show "pte_at ?m pd v' = (if v' = v then w else pte_at m pd v')" if v': "v' < 1048576"
  proof -
    have "(has_table m pd v' \<and> table m pd (v' div 1024) = table m pd ?i \<and> v' mod 1024 = ?k) \<longleftrightarrow> v' = v"
    proof
      assume a: "has_table m pd v' \<and> table m pd (v' div 1024) = table m pd ?i \<and> v' mod 1024 = ?k"
      then have "v' div 1024 = ?i" using pd_okD(7) [OF ok _ i(1) _ e, of "v' div 1024"] v' by (simp add: has_table_def)
      then show "v' = v" using a by (metis mult_div_mod_eq)
    qed (use v(2) in simp)
    then show ?thesis using s(4) [OF v'] by simp
  qed
  show "load_bytes (ram ?m) q 4096 = load_bytes (ram m) q 4096" if "pg_ofs q = 0" "q \<noteq> table m pd ?i"
    using page_set_entry [OF t(1) that(1) i(2)] that(2) by (simp add: set_pte_def)
qed

text \<open>
  Looking up with creation. \<open>same_view\<close>: another memory in which the directory maps the same pages
  and all pages in use but the directory itself have their contents.
\<close>

definition kept :: "memory \<Rightarrow> u32 \<Rightarrow> bool" where
  "kept m q \<longleftrightarrow> pg_ofs q = 0 \<and> (q \<in> kpages m \<or> \<not> page_from_pool (kernel_pool m) q)"

definition same_view :: "memory \<Rightarrow> memory \<Rightarrow> u32 \<Rightarrow> bool" where
  "same_view m m' pd \<longleftrightarrow> pd_ok m' pd \<and> (\<forall>v<1048576. pte_at m' pd v = pte_at m pd v) \<and>
     kpages m \<subseteq> kpages m' \<and> user_pool m' = user_pool m \<and> init_ram_pages m' = init_ram_pages m \<and>
     (\<forall>q. kept m q \<longrightarrow> q \<noteq> pd \<longrightarrow> load_bytes (ram m') q 4096 = load_bytes (ram m) q 4096)"

lemma lookup_page_True_False:
  "is_user_vaddr va \<Longrightarrow> entry (ram m) pd (vpn va div 1024) \<noteq> 0 \<Longrightarrow> lookup_page pd va True m = lookup_page pd va False m"
  by (simp add: lookup_page_def Let_def entry_word vpn_split)

text \<open>The state after a page table has been added for the entry \<open>i\<close> of the directory.\<close>

lemma new_table:
  assumes ok: "pd_ok m pd" and i: "i < 1024" "entry (ram m) pd i = 0"
    and j: "j < pool_slots (kernel_pool m)" "j \<notin> pool_used (kernel_pool m)" "pt = page_addr (kernel_pool m) j"
    and m1: "mem_inv m1" "pool_used (kernel_pool m1) = insert j (pool_used (kernel_pool m))"
      "base (kernel_pool m1) = base (kernel_pool m)" "user_pool m1 = user_pool m" "init_ram_pages m1 = init_ram_pages m"
      "ram m1 = store_bytes (ram m) pt (replicate 4096 0)"
  defines "m2 \<equiv> m1\<lparr>ram := set_entry (ram m1) pd i (new_entry pt True)\<rparr>"
  shows "same_view m m2 pd" "entry (ram m2) pd i = new_entry pt True" "table m2 pd i = pt" "pg_ofs pt = 0" "pt \<noteq> 0"
proof -
  have kok: "pool_ok (kernel_pool m)" using pd_okD(1) [OF ok] by (simp add: mem_inv_def)
  show pt: "pg_ofs pt = 0" "pt \<noteq> 0" using page_addr_ok [OF kok j(1)] j(3) by simp_all
  have ptb: "PHYS_BASE \<le> pt" using page_addr_ok [OF kok j(1)] j(3) by simp
  have fresh: "pt \<notin> kpages m"
  proof
    assume "pt \<in> kpages m"
    then obtain x where x: "x \<in> pool_used (kernel_pool m)" "pt = page_addr (kernel_pool m) x" by (auto simp: kpages_def)
    have "x < pool_slots (kernel_pool m)" using x(1) by (simp add: pool_used_def)
    then have "x = j" using trans [OF x(2) [symmetric] j(3)] by (simp only: page_addr_inj [OF kok _ j(1)])
    then show False using x(1) j(2) by simp
  qed
  have kp: "kpages m2 = insert pt (kpages m)" using m1(2,3) j(3) by (simp add: m2_def kpages_def page_addr_def)
  have pd: "pg_ofs pd = 0" "pd \<in> kpages m" "pd \<noteq> pt" using pd_okD(2,5) [OF ok] fresh by auto
  have z: "entry (ram m1) q k = entry (ram m) q k" if "q \<noteq> pt" "pg_ofs q = 0" "k < 1024" for q k
    using entry_store_apart [of q k pt "replicate 4096 0" "ram m"] pages_apart [OF pt(1) that(2)] that page_end [OF pt(1)] m1(6) by auto
  have pde: "entry (ram m2) pd k = (if k = i then new_entry pt True else entry (ram m) pd k)" if "k < 1024" for k
    using entry_set [OF pd(1,1) i(1) that] z [OF pd(3,1) that] by (auto simp: m2_def)
  have other: "entry (ram m2) q k = (if q = pt then 0 else entry (ram m) q k)" if "q \<noteq> pd" "pg_ofs q = 0" "k < 1024" for q k
    using entry_set [OF pd(1) that(2) i(1) that(3)] that z [OF _ that(2,3)]
      entry_zero [OF pt(1), of 4096 k "ram m"] page_end [OF pt(1)] m1(6) by (auto simp: m2_def)
  show new: "entry (ram m2) pd i = new_entry pt True" using pde [OF i(1)] by simp
  note ne = new_entry_ok [OF pt(1) ptb, of True]
  show ti: "table m2 pd i = pt" using new ne by (simp add: table_def)
  have tk: "table m2 pd k = table m pd k" if "k < 1024" "k \<noteq> i" for k using pde [OF that(1)] that(2) by (simp add: table_def)
  have tf: "table m pd k \<noteq> pt" if "k < 1024" "entry (ram m) pd k \<noteq> 0" for k using pd_okD(6) [OF ok that] fresh by auto
  have pte: "pte_at m2 pd v = pte_at m pd v" if v: "v < 1048576" for v
  proof -
    have d: "v div 1024 < 1024" "v mod 1024 < 1024" using v by simp_all
    show ?thesis
    proof (cases "v div 1024 = i")
      case True
      then show ?thesis
        using i(2) new ne(3) ti other [of pt "v mod 1024"] pd(3) pt(1) d by (auto simp: pte_at_def has_table_def)
    next
      case False
      then show ?thesis
        using pde [OF d(1)] tk [OF d(1)] pd_okD(6) [OF ok d(1)] tf [OF d(1)] other [OF _ _ d(2)]
        by (auto simp: pte_at_def has_table_def)
    qed
  qed
  have "pd_ok m2 pd" unfolding pd_ok_def
  proof (intro conjI allI impI)
    show "mem_inv m2" using m1(1) by (simp add: m2_def)
    show "pd \<in> kpages m2" using pd(2) kp by simp
    fix k assume k: "k < 1024" "entry (ram m2) pd k \<noteq> 0"
    show "entry_ok (entry (ram m2) pd k)" "table m2 pd k \<in> kpages m2" "table m2 pd k \<noteq> pd"
      using k pde [OF k(1)] tk [OF k(1)] pd_okD(6) [OF ok k(1)] ne ti pd(3) kp by (cases "k = i"; auto)+
  next
    fix k l assume k: "k < 1024" "l < 1024" "entry (ram m2) pd k \<noteq> 0" "entry (ram m2) pd l \<noteq> 0" "table m2 pd k = table m2 pd l"
    then show "k = l"
      using pde [OF k(1)] pde [OF k(2)] tk [OF k(1)] tk [OF k(2)] tf [OF k(1)] tf [OF k(2)] ti pd_okD(7) [OF ok k(1,2)]
      by (cases "k = i"; cases "l = i") auto
  next
    fix v assume "v < 1048576" "bit (pte_at m2 pd v) 0"
    then show "entry_ok (pte_at m2 pd v)" using pte pd_okD(8) [OF ok] by simp
  qed
  moreover have "load_bytes (ram m2) q 4096 = load_bytes (ram m) q 4096" if q: "kept m q" "q \<noteq> pd" for q
  proof -
    have "pg_ofs q = 0" "q \<noteq> pt"
      using q fresh page_addr_from_pool(1) [OF pd_okD(1) [OF ok], of j False] j by (auto simp: kept_def get_pool_def)
    then show ?thesis
      using page_set_entry [OF pd(1) _ i(1)] q(2) page_store_apart [OF pt(1)] m1(6) by (simp add: m2_def)
  qed
  ultimately show "same_view m m2 pd"
    using pte kp m1(4,5) by (simp add: same_view_def m2_def) auto
qed


lemma lookup_page_True:
  assumes ok: "pd_ok m pd" and va: "is_user_vaddr va"
  obtains "\<not> has_table m pd (vpn va)" "pool_used (kernel_pool m) = {..<pool_slots (kernel_pool m)}"
    "lookup_page pd va True m = Inr (m, 0)"
  | m' a where "lookup_page pd va True m = Inr (m', a)" "a \<noteq> 0" "same_view m m' pd" "has_table m' pd (vpn va)"
    "load32 (ram m') a = pte_at m' pd (vpn va)" "\<And>w. m'\<lparr>ram := store32 (ram m') a w\<rparr> = set_pte m' pd (vpn va) w"
proof (cases "has_table m pd (vpn va)")
  case True
  then have eq: "lookup_page pd va True m = lookup_page pd va False m"
    using lookup_page_True_False [OF va] by (simp add: has_table_def)
  have "same_view m m pd" using ok by (simp add: same_view_def)
  with lookup_page_False [OF ok, of va] that(2) True show thesis unfolding eq by metis
next
  case False
  let ?i = "vpn va div 1024"
  have i: "?i < 1024" "entry (ram m) pd ?i = 0" using False vpn_split(3) [of va] by (simp_all add: has_table_def)
  have pde: "load32 (ram m) (pd + 4 * pd_no va) = 0" using i(2) by (simp add: entry_word vpn_split)
  have u: "False = (PAL_ZERO AND PAL_USER \<noteq> 0)" "PAL_ZERO AND PAL_ZERO \<noteq> 0" "\<not> PAL_ZERO AND PAL_ASSERT \<noteq> 0"
    by (simp_all add: PAL_ZERO_def PAL_USER_def PAL_ASSERT_def)
  note inv = pd_okD(1) [OF ok]
  have kp: "kernel_pool m = get_pool False m" by (simp add: get_pool_def)
  show thesis
  proof (cases "pool_used (kernel_pool m) = {..<pool_slots (kernel_pool m)}")
    case True
    then have "palloc_get_page PAL_ZERO m = Inr (m, 0)"
      using palloc_get_page_full [OF inv, of "kernel_pool m" PAL_ZERO] u by (simp add: get_pool_def)
    then have "lookup_page pd va True m = Inr (m, 0)"
      using pde pd_okD(3) [OF ok] va by (simp add: lookup_page_def Let_def)
    then show thesis using that(1) False True by blast
  next
    case free: False
    obtain j bm where j: "j < pool_slots (kernel_pool m)" "j \<notin> pool_used (kernel_pool m)"
      "palloc_get_page PAL_ZERO m = Inr ((set_pool False ((kernel_pool m)\<lparr>used_map := bm\<rparr>) m)\<lparr>ram :=
         if PAL_ZERO AND PAL_ZERO \<noteq> 0 then store_bytes (ram m) (page_addr (kernel_pool m) j) (replicate 4096 0)
         else ram m\<rparr>, page_addr (kernel_pool m) j)"
      "mem_inv (set_pool False ((kernel_pool m)\<lparr>used_map := bm\<rparr>) m)"
      "pool_used ((kernel_pool m)\<lparr>used_map := bm\<rparr>) = insert j (pool_used (kernel_pool m))"
      by (rule palloc_get_page_first [OF inv u(1) kp free]) blast
    define pt where "pt = page_addr (kernel_pool m) j"
    define m1 where "m1 = (set_pool False ((kernel_pool m)\<lparr>used_map := bm\<rparr>) m)\<lparr>ram := store_bytes (ram m) pt (replicate 4096 0)\<rparr>"
    define m2 where "m2 = m1\<lparr>ram := set_entry (ram m1) pd ?i (new_entry pt True)\<rparr>"
    have m1: "palloc_get_page PAL_ZERO m = Inr (m1, pt)" "mem_inv m1" "pool_used (kernel_pool m1) = insert j (pool_used (kernel_pool m))"
      "base (kernel_pool m1) = base (kernel_pool m)" "user_pool m1 = user_pool m" "init_ram_pages m1 = init_ram_pages m"
      "ram m1 = store_bytes (ram m) pt (replicate 4096 0)"
      using j(3-5) u(2) by (simp_all add: m1_def pt_def set_pool_def)
    note n = new_table [OF ok i j(1,2) pt_def m1(2-7), folded m2_def]
    have ptb: "PHYS_BASE \<le> pt" using page_addr_ok(2) [OF _ j(1)] inv by (simp add: pt_def mem_inv_def)
    have "lookup_page pd va True m = Inr (m2, pt + 4 * pt_no va)"
      using pde m1(1) pd_okD(3) [OF ok] va n(5) create_entries(2) [OF n(4) ptb] n(2) entry_ok_get(1)
        new_entry_ok [OF n(4) ptb, of True]
      by (simp add: lookup_page_def Let_def entry_word vpn_split m2_def)
    moreover have ok2: "pd_ok m2 pd" using n(1) by (simp add: same_view_def)
    moreover have t: "has_table m2 pd (vpn va)" using n(2) new_entry_ok(3) [OF n(4) ptb] by (simp add: has_table_def)
    moreover have "lookup_page pd va False m2 = Inr (m2, pt + 4 * pt_no va)"
      using pd_okD(3) [OF ok] n(2) entry_ok_get(1) new_entry_ok [OF n(4) ptb, of True]
      by (simp add: lookup_page_def Let_def entry_word vpn_split)
    ultimately show thesis using that(2) n(1) lookup_page_False [OF ok2, of va] by (metis Inr_inject prod.inject)
  qed
qed

section \<open>The operations on the map\<close>

definition pg_ok :: "paging \<Rightarrow> u32 \<Rightarrow> bool" where
  "pg_ok pg pd \<longleftrightarrow> pd_ok (mem pg) pd \<and> pdbr pg < PHYS_BASE"

text \<open>The frame a virtual page is mapped to, and whether it is writable.\<close>

definition mapping :: "paging \<Rightarrow> u32 \<Rightarrow> nat \<Rightarrow> (u32 \<times> bool) option" where
  "mapping pg pd v = (let e = pte_at (mem pg) pd v in if bit e 0 then Some (pt_of e, bit e 1) else None)"

lemma invalidate_same:
  assumes "pdbr pg < PHYS_BASE" "PHYS_BASE \<le> pd"
  shows "invalidate_pagedir pd pg = Inr pg"
proof -
  have "pdbr pg + PHYS_BASE = pd \<Longrightarrow> pd - PHYS_BASE = pdbr pg" by auto
  moreover have "pd \<noteq> 0" using assms(2) by (auto simp: PHYS_BASE_def)
  ultimately show ?thesis
    using assms kernel_offset(1) [OF assms(2)]
    by (auto simp: invalidate_pagedir_def active_pd_def ptov_def pagedir_activate_def)
qed

text \<open>Setting the entry of a page that has a page table.\<close>

lemma set_pte_pg:
  assumes "pg_ok pg pd" "v < 1048576" "has_table (mem pg) pd v" "bit w 0 \<longrightarrow> entry_ok w"
  shows "pg_ok (pg\<lparr>mem := set_pte (mem pg) pd v w\<rparr>) pd"
    and "v' < 1048576 \<Longrightarrow> pte_at (set_pte (mem pg) pd v w) pd v' = (if v' = v then w else pte_at (mem pg) pd v')"
  using set_pte_ok(1) [OF _ assms(2,3,4)] set_pte_ok(2) [OF _ assms(2,3,4), of v'] assms(1)
  by (simp_all add: pg_ok_def)

lemma pagedir_get_page_map:
  assumes ok: "pg_ok pg pd" and va: "is_user_vaddr va"
  shows "pagedir_get_page pd va pg =
    Inr (case mapping pg pd (vpn va) of None \<Rightarrow> 0 | Some (k, _) \<Rightarrow> k + pg_ofs va)"
proof -
  have pd: "pd_ok (mem pg) pd" using ok by (simp add: pg_ok_def)
  obtain a where a: "lookup_page pd va False (mem pg) = Inr (mem pg, a)" "a = 0 \<longleftrightarrow> \<not> has_table (mem pg) pd (vpn va)"
    "a \<noteq> 0 \<Longrightarrow> load32 (ram (mem pg)) a = pte_at (mem pg) pd (vpn va)"
    using lookup_page_False [OF pd] by blast
  have "entry_ok (pte_at (mem pg) pd (vpn va))" if "bit (pte_at (mem pg) pd (vpn va)) 0"
    using pd_okD(8) [OF pd vpn_split(3) that] .
  then show ?thesis
    using a va entry_ok_get(2)
    by (cases "a = 0") (auto simp: pagedir_get_page_def mapping_def Let_def pte_at_def)
qed

lemma pagedir_set_page_map:
  assumes ok: "pg_ok pg pd" "pd \<noteq> init_page_dir pg" and up: "pg_ofs upage = 0" "is_user_vaddr upage"
    and k: "pg_ofs kpage = 0" "PHYS_BASE \<le> kpage" "drop_bit 12 (kpage - PHYS_BASE) < init_ram_pages (mem pg)"
    and free: "mapping pg pd (vpn upage) = None"
  obtains "pool_used (kernel_pool (mem pg)) = {..<pool_slots (kernel_pool (mem pg))}"
    "pagedir_set_page pd upage kpage w pg = Inr (pg, False)"
  | pg' where "pagedir_set_page pd upage kpage w pg = Inr (pg', True)" "pg_ok pg' pd"
    "init_page_dir pg' = init_page_dir pg"
    "\<And>v. v < 1048576 \<Longrightarrow> pte_at (mem pg') pd v = (if v = vpn upage then new_entry kpage w else pte_at (mem pg) pd v)"
proof -
  have pd: "pd_ok (mem pg) pd" using ok by (simp add: pg_ok_def)
  let ?v = "vpn upage"
  note pre = up k ok(2) kernel_offset(1) [OF k(2)] create_entries(1) [OF k(1,2), of w]
  have nb: "\<not> bit (pte_at (mem pg) pd ?v) 0" using free by (simp add: mapping_def Let_def split: if_splits)
  from lookup_page_True [OF pd up(2)] show thesis
  proof cases
    case 1
    then have "pagedir_set_page pd upage kpage w pg = Inr (pg, False)" using pre by (simp add: pagedir_set_page_def)
    then show thesis using that(1) 1 by blast
  next
    case (2 m' a)
    have v: "?v < 1048576" by (rule vpn_split)
    have ok': "pg_ok (pg\<lparr>mem := m'\<rparr>) pd" and pte: "\<And>v. v < 1048576 \<Longrightarrow> pte_at m' pd v = pte_at (mem pg) pd v"
      using 2(3) ok(1) by (simp_all add: same_view_def pg_ok_def)
    have "pagedir_set_page pd upage kpage w pg = Inr (pg\<lparr>mem := set_pte m' pd ?v (new_entry kpage w)\<rparr>, True)"
      using pre 2(1,2,5,6) nb pte [OF v] by (simp add: pagedir_set_page_def)
    then show thesis
      using that(2) set_pte_pg [OF ok' v, of "new_entry kpage w"] 2(4) new_entry_ok [OF k(1,2), of w] pte by simp
  qed
qed

text \<open>The operations that change bits of an existing entry.\<close>

lemma pagedir_bits:
  assumes ok: "pg_ok pg pd" and f: "\<And>e. bit (f e) 0 \<Longrightarrow> bit e 0 \<and> f e AND PTE_ADDR = e AND PTE_ADDR"
    and op: "\<And>a. lookup_page pd va False (mem pg) = Inr (mem pg, a) \<Longrightarrow>
      op = (if P a then Inr (pg\<lparr>mem := (mem pg)\<lparr>ram := store32 (ram (mem pg)) a (f (load32 (ram (mem pg)) a))\<rparr>\<rparr>) else Inr pg)"
    and P: "\<And>a. P a \<Longrightarrow> a \<noteq> 0"
    and id: "\<And>a. lookup_page pd va False (mem pg) = Inr (mem pg, a) \<Longrightarrow> a \<noteq> 0 \<Longrightarrow> \<not> P a \<Longrightarrow>
      f (pte_at (mem pg) pd (vpn va)) = pte_at (mem pg) pd (vpn va)"
  obtains pg' where "op = Inr pg'" "pg_ok pg' pd" "init_page_dir pg' = init_page_dir pg"
    "\<And>v. v < 1048576 \<Longrightarrow> pte_at (mem pg') pd v =
       (if v = vpn va \<and> has_table (mem pg) pd v then f (pte_at (mem pg) pd v) else pte_at (mem pg) pd v)"
proof -
  have pd: "pd_ok (mem pg) pd" using ok by (simp add: pg_ok_def)
  obtain a where a: "lookup_page pd va False (mem pg) = Inr (mem pg, a)" "a = 0 \<longleftrightarrow> \<not> has_table (mem pg) pd (vpn va)"
    "a \<noteq> 0 \<Longrightarrow> load32 (ram (mem pg)) a = pte_at (mem pg) pd (vpn va)"
    "\<And>w. a \<noteq> 0 \<Longrightarrow> (mem pg)\<lparr>ram := store32 (ram (mem pg)) a w\<rparr> = set_pte (mem pg) pd (vpn va) w"
    using lookup_page_False [OF pd] by blast
  show thesis
  proof (cases "P a")
    case True
    let ?w = "f (pte_at (mem pg) pd (vpn va))"
    have w: "bit ?w 0 \<longrightarrow> entry_ok ?w"
      using f [of "pte_at (mem pg) pd (vpn va)"] pd_okD(8) [OF pd vpn_split(3) [of va]] by (auto simp: entry_ok_def)
    have h: "has_table (mem pg) pd (vpn va)" using a(2) P [OF True] by simp
    have "op = Inr (pg\<lparr>mem := set_pte (mem pg) pd (vpn va) ?w\<rparr>)" using op [OF a(1)] True a(3,4) P [OF True] by simp
    then show thesis using that set_pte_pg [OF ok vpn_split(3) h w] h by simp
  next
    case False
    then have "op = Inr pg" using op [OF a(1)] by simp
    moreover have "pte_at (mem pg) pd v = (if v = vpn va \<and> has_table (mem pg) pd v then f (pte_at (mem pg) pd v)
        else pte_at (mem pg) pd v)" for v
      using id [OF a(1) _ False] a(2) by auto
    ultimately show thesis using that ok by blast
  qed
qed


lemma flag_update:
  "bit (e AND NOT PTE_D) 0 = bit e 0" "bit (e AND NOT PTE_A) 0 = bit e 0" "bit (e OR PTE_D) 0 = bit e 0" "bit (e OR PTE_A) 0 = bit e 0"
  "(e AND NOT PTE_D) AND PTE_ADDR = e AND PTE_ADDR" "(e AND NOT PTE_A) AND PTE_ADDR = e AND PTE_ADDR"
  "(e OR PTE_D) AND PTE_ADDR = e AND PTE_ADDR" "(e OR PTE_A) AND PTE_ADDR = e AND PTE_ADDR"
  by (simp_all add: bit_and_iff bit_or_iff bit_not_iff) (rule bit_word_eqI, auto simp: bit_and_iff bit_or_iff bit_not_iff)+

lemma clear_absent: "\<not> bit e 0 \<Longrightarrow> e AND NOT PTE_P = e"
  by (rule bit_word_eqI) (auto simp: bit_and_iff bit_not_iff intro: ccontr)

lemma pagedir_clear_page_map:
  assumes ok: "pg_ok pg pd" and va: "pg_ofs upage = 0" "is_user_vaddr upage"
  obtains pg' where "pagedir_clear_page pd upage pg = Inr pg'" "pg_ok pg' pd" "init_page_dir pg' = init_page_dir pg"
    "\<And>v. v < 1048576 \<Longrightarrow> pte_at (mem pg') pd v =
       (if v = vpn upage \<and> has_table (mem pg) pd v then pte_at (mem pg) pd v AND NOT PTE_P else pte_at (mem pg) pd v)"
proof -
  have pd: "pd_ok (mem pg) pd" "pdbr pg < PHYS_BASE" "PHYS_BASE \<le> pd" using ok pd_okD(4) by (auto simp: pg_ok_def)
  have inv: "invalidate_pagedir pd (pg\<lparr>mem := m\<rparr>) = Inr (pg\<lparr>mem := m\<rparr>)" for m
    using invalidate_same [of "pg\<lparr>mem := m\<rparr>" pd] pd by simp
  let ?P = "\<lambda>a. a \<noteq> 0 \<and> load32 (ram (mem pg)) a AND PTE_P \<noteq> 0"
  show thesis
  proof (rule pagedir_bits [OF ok, where f = "\<lambda>e. e AND NOT PTE_P" and P = ?P and va = upage and op = "pagedir_clear_page pd upage pg"])
    fix a assume a: "lookup_page pd upage False (mem pg) = Inr (mem pg, a)"
    then show "pagedir_clear_page pd upage pg = (if ?P a
        then Inr (pg\<lparr>mem := (mem pg)\<lparr>ram := store32 (ram (mem pg)) a (load32 (ram (mem pg)) a AND NOT PTE_P)\<rparr>\<rparr>) else Inr pg)"
      using va inv by (simp add: pagedir_clear_page_def)
    assume "a \<noteq> 0" "\<not> ?P a"
    moreover have "load32 (ram (mem pg)) a = pte_at (mem pg) pd (vpn upage)"
      using lookup_page_False [OF pd(1), of upage] a \<open>a \<noteq> 0\<close> by (metis Inr_inject prod.inject)
    ultimately show "pte_at (mem pg) pd (vpn upage) AND NOT PTE_P = pte_at (mem pg) pd (vpn upage)"
      by (intro clear_absent) simp
  qed (use that in \<open>auto simp: bit_and_iff bit_not_iff\<close>)
qed

lemma pagedir_set_flag_map:
  assumes ok: "pg_ok pg pd"
  obtains pg' pg'' where "pagedir_set_dirty pd va d pg = Inr pg'" "pg_ok pg' pd" "init_page_dir pg' = init_page_dir pg"
    "\<forall>v<1048576. pte_at (mem pg') pd v = (if v = vpn va \<and> has_table (mem pg) pd v
       then (if d then pte_at (mem pg) pd v OR PTE_D else pte_at (mem pg) pd v AND NOT PTE_D) else pte_at (mem pg) pd v)"
    and "pagedir_set_accessed pd va d pg = Inr pg''" "pg_ok pg'' pd" "init_page_dir pg'' = init_page_dir pg"
    "\<forall>v<1048576. pte_at (mem pg'') pd v = (if v = vpn va \<and> has_table (mem pg) pd v
       then (if d then pte_at (mem pg) pd v OR PTE_A else pte_at (mem pg) pd v AND NOT PTE_A) else pte_at (mem pg) pd v)"
proof -
  have pd: "pd_ok (mem pg) pd" "pdbr pg < PHYS_BASE" "PHYS_BASE \<le> pd" using ok pd_okD(4) by (auto simp: pg_ok_def)
  have inv: "invalidate_pagedir pd (pg\<lparr>mem := m\<rparr>) = Inr (pg\<lparr>mem := m\<rparr>)" for m
    using invalidate_same [of "pg\<lparr>mem := m\<rparr>" pd] pd by simp
  obtain pg' where d: "pagedir_set_dirty pd va d pg = Inr pg'" "pg_ok pg' pd" "init_page_dir pg' = init_page_dir pg"
    "\<And>v. v < 1048576 \<Longrightarrow> pte_at (mem pg') pd v = (if v = vpn va \<and> has_table (mem pg) pd v
       then (if d then pte_at (mem pg) pd v OR PTE_D else pte_at (mem pg) pd v AND NOT PTE_D) else pte_at (mem pg) pd v)"
    by (rule pagedir_bits [OF ok, where f = "\<lambda>e. if d then e OR PTE_D else e AND NOT PTE_D"
          and P = "\<lambda>a. a \<noteq> 0" and va = va and op = "pagedir_set_dirty pd va d pg"])
      (auto simp: pagedir_set_dirty_def inv flag_update split: if_splits)
  obtain pg'' where a: "pagedir_set_accessed pd va d pg = Inr pg''" "pg_ok pg'' pd" "init_page_dir pg'' = init_page_dir pg"
    "\<And>v. v < 1048576 \<Longrightarrow> pte_at (mem pg'') pd v = (if v = vpn va \<and> has_table (mem pg) pd v
       then (if d then pte_at (mem pg) pd v OR PTE_A else pte_at (mem pg) pd v AND NOT PTE_A) else pte_at (mem pg) pd v)"
    by (rule pagedir_bits [OF ok, where f = "\<lambda>e. if d then e OR PTE_A else e AND NOT PTE_A"
          and P = "\<lambda>a. a \<noteq> 0" and va = va and op = "pagedir_set_accessed pd va d pg"])
      (auto simp: pagedir_set_accessed_def inv flag_update split: if_splits)
  show thesis by (rule that [OF d(1-3) _ a(1-3)]) (use d(4) a(4) in simp_all)
qed

lemma pagedir_is_flag:
  assumes ok: "pg_ok pg pd"
  shows "pagedir_is_dirty pd va pg = Inr (bit (pte_at (mem pg) pd (vpn va)) 6)"
    and "pagedir_is_accessed pd va pg = Inr (bit (pte_at (mem pg) pd (vpn va)) 5)"
proof -
  have pd: "pd_ok (mem pg) pd" using ok by (simp add: pg_ok_def)
  obtain a where "lookup_page pd va False (mem pg) = Inr (mem pg, a)" "a = 0 \<longleftrightarrow> \<not> has_table (mem pg) pd (vpn va)"
    "a \<noteq> 0 \<Longrightarrow> load32 (ram (mem pg)) a = pte_at (mem pg) pd (vpn va)"
    using lookup_page_False [OF pd] by blast
  then show "pagedir_is_dirty pd va pg = Inr (bit (pte_at (mem pg) pd (vpn va)) 6)"
    "pagedir_is_accessed pd va pg = Inr (bit (pte_at (mem pg) pd (vpn va)) 5)"
    by (cases "a = 0"; simp add: pagedir_is_dirty_def pagedir_is_accessed_def pte_at_def)+
qed

section \<open>Properties\<close>

lemma mapping_new: "pg_ofs k = 0 \<Longrightarrow> PHYS_BASE \<le> k \<Longrightarrow> pte_at (mem pg) pd v = new_entry k w \<Longrightarrow> mapping pg pd v = Some (k, w)"
  using new_entry_ok [of k w] new_entry_bits [of k w] by (simp add: mapping_def Let_def)

text \<open>
  C5. A page directory is a map from user pages to frames. \<open>pagedir_get_page\<close> reads it;
  \<open>pagedir_set_page\<close> adds one page to it, with the frame and the permission given, and changes no other
  page, or reports that no memory is left for a page table, or fails its assertion when the
  page is mapped already; \<open>pagedir_clear_page\<close> removes one page.
\<close>

theorem pagedir_map:
  assumes ok: "pg_ok pg pd" "pd \<noteq> init_page_dir pg" and up: "pg_ofs upage = 0" "is_user_vaddr upage"
    and k: "pg_ofs kpage = 0" "PHYS_BASE \<le> kpage" "drop_bit 12 (kpage - PHYS_BASE) < init_ram_pages (mem pg)"
  shows "(\<forall>va. is_user_vaddr va \<longrightarrow> pagedir_get_page pd va pg =
        Inr (case mapping pg pd (vpn va) of None \<Rightarrow> 0 | Some (f, _) \<Rightarrow> f + pg_ofs va)) \<and>
    (mapping pg pd (vpn upage) = None \<longrightarrow>
       (pool_used (kernel_pool (mem pg)) = {..<pool_slots (kernel_pool (mem pg))} \<and>
        pagedir_set_page pd upage kpage w pg = Inr (pg, False)) \<or>
       (\<exists>pg'. pagedir_set_page pd upage kpage w pg = Inr (pg', True) \<and> pg_ok pg' pd \<and>
         (\<forall>v<1048576. mapping pg' pd v = (if v = vpn upage then Some (kpage, w) else mapping pg pd v)))) \<and>
    (mapping pg pd (vpn upage) \<noteq> None \<longrightarrow> pagedir_set_page pd upage kpage w pg = Inl Assertion_failure) \<and>
    (\<exists>pg'. pagedir_clear_page pd upage pg = Inr pg' \<and> pg_ok pg' pd \<and>
      (\<forall>v<1048576. mapping pg' pd v = (if v = vpn upage then None else mapping pg pd v)))"
proof (intro conjI impI allI)
  show "pagedir_get_page pd va pg = Inr (case mapping pg pd (vpn va) of None \<Rightarrow> 0 | Some (f, _) \<Rightarrow> f + pg_ofs va)"
    if "is_user_vaddr va" for va by (rule pagedir_get_page_map [OF ok(1) that])
  show "(pool_used (kernel_pool (mem pg)) = {..<pool_slots (kernel_pool (mem pg))} \<and>
      pagedir_set_page pd upage kpage w pg = Inr (pg, False)) \<or>
     (\<exists>pg'. pagedir_set_page pd upage kpage w pg = Inr (pg', True) \<and> pg_ok pg' pd \<and>
       (\<forall>v<1048576. mapping pg' pd v = (if v = vpn upage then Some (kpage, w) else mapping pg pd v)))"
    if "mapping pg pd (vpn upage) = None"
    using pagedir_set_page_map [OF ok up k that, of w]
  proof cases
    case (2 pg')
    have "mapping pg' pd v = (if v = vpn upage then Some (kpage, w) else mapping pg pd v)" if "v < 1048576" for v
      using 2(4) [OF that] mapping_new [OF k(1,2), of pg' pd v w] by (auto simp: mapping_def)
    then show ?thesis using 2(1,2) by blast
  qed simp
  show "pagedir_set_page pd upage kpage w pg = Inl Assertion_failure" if "mapping pg pd (vpn upage) \<noteq> None"
  proof -
    have pd: "pd_ok (mem pg) pd" using ok by (simp add: pg_ok_def)
    have b: "bit (pte_at (mem pg) pd (vpn upage)) 0" using that by (simp add: mapping_def Let_def split: if_splits)
    then have h: "has_table (mem pg) pd (vpn upage)" by (auto simp: pte_at_def split: if_splits)
    then have "lookup_page pd upage True (mem pg) = lookup_page pd upage False (mem pg)"
      using lookup_page_True_False [OF up(2)] by (simp add: has_table_def)
    then obtain a where "lookup_page pd upage True (mem pg) = Inr (mem pg, a)" "a \<noteq> 0"
        "load32 (ram (mem pg)) a = pte_at (mem pg) pd (vpn upage)"
      using lookup_page_False [OF pd, of upage] h by metis
    then show ?thesis using b up k ok(2) kernel_offset(1) [OF k(2)] by (simp add: pagedir_set_page_def)
  qed
  obtain pg' where p: "pagedir_clear_page pd upage pg = Inr pg'" "pg_ok pg' pd"
    "\<And>v. v < 1048576 \<Longrightarrow> pte_at (mem pg') pd v =
       (if v = vpn upage \<and> has_table (mem pg) pd v then pte_at (mem pg) pd v AND NOT PTE_P else pte_at (mem pg) pd v)"
    using pagedir_clear_page_map [OF ok(1) up] by metis
  have "mapping pg' pd v = (if v = vpn upage then None else mapping pg pd v)" if "v < 1048576" for v
    using p(3) [OF that] by (auto simp: mapping_def Let_def bit_and_iff bit_not_iff) (simp add: pte_at_def)
  then show "\<exists>pg'. pagedir_clear_page pd upage pg = Inr pg' \<and> pg_ok pg' pd \<and>
      (\<forall>v<1048576. mapping pg' pd v = (if v = vpn upage then None else mapping pg pd v))"
    using p(1,2) by blast
qed

text \<open>
  The accessed and the dirty bit of a mapped page are set and cleared one without the other,
  for this page alone, and neither changes the mapping.
\<close>

theorem pagedir_flags:
  assumes "pg_ok pg pd" "mapping pg pd (vpn va) \<noteq> None"
  shows "(\<exists>pg'. pagedir_set_dirty pd va d pg = Inr pg' \<and> pg_ok pg' pd \<and> (\<forall>v<1048576. mapping pg' pd v = mapping pg pd v) \<and>
      (\<forall>va'. pagedir_is_dirty pd va' pg' = (if vpn va' = vpn va then Inr d else pagedir_is_dirty pd va' pg)) \<and>
      (\<forall>va'. pagedir_is_accessed pd va' pg' = pagedir_is_accessed pd va' pg)) \<and>
    (\<exists>pg'. pagedir_set_accessed pd va d pg = Inr pg' \<and> pg_ok pg' pd \<and> (\<forall>v<1048576. mapping pg' pd v = mapping pg pd v) \<and>
      (\<forall>va'. pagedir_is_accessed pd va' pg' = (if vpn va' = vpn va then Inr d else pagedir_is_accessed pd va' pg)) \<and>
      (\<forall>va'. pagedir_is_dirty pd va' pg' = pagedir_is_dirty pd va' pg))"
proof -
  have h: "has_table (mem pg) pd (vpn va)" using assms(2) by (auto simp: mapping_def Let_def pte_at_def split: if_splits)
  obtain pg' pg'' where p: "pagedir_set_dirty pd va d pg = Inr pg'" "pg_ok pg' pd" "init_page_dir pg' = init_page_dir pg"
    "\<forall>v<1048576. pte_at (mem pg') pd v = (if v = vpn va \<and> has_table (mem pg) pd v
       then (if d then pte_at (mem pg) pd v OR PTE_D else pte_at (mem pg) pd v AND NOT PTE_D) else pte_at (mem pg) pd v)"
    and q: "pagedir_set_accessed pd va d pg = Inr pg''" "pg_ok pg'' pd" "init_page_dir pg'' = init_page_dir pg"
    "\<forall>v<1048576. pte_at (mem pg'') pd v = (if v = vpn va \<and> has_table (mem pg) pd v
       then (if d then pte_at (mem pg) pd v OR PTE_A else pte_at (mem pg) pd v AND NOT PTE_A) else pte_at (mem pg) pd v)"
    by (rule pagedir_set_flag_map [OF assms(1), of va d])
  have m: "mapping pg' pd v = mapping pg pd v" "mapping pg'' pd v = mapping pg pd v" if "v < 1048576" for v
    using p(4) q(4) that flag_update
    by (auto simp: mapping_def Let_def pt_of_def bit_or_iff bit_and_iff bit_not_iff)
  note v = vpn_split(3)
  show ?thesis
    using p(1,2) q(1,2) m h p(4) q(4) v
    by (intro conjI exI [of _ pg'] exI [of _ pg''])
      (simp_all add: pagedir_is_flag [OF p(2)] pagedir_is_flag [OF q(2)] pagedir_is_flag [OF assms(1)]
        bit_or_iff bit_and_iff bit_not_iff)
qed


text \<open>A directory without page tables in zeroed memory, the only used page of the kernel pool.\<close>

definition sample_paging :: paging where
  "sample_paging = \<lparr>mem = sample_pools\<lparr>ram := \<lambda>_. 0\<rparr>, init_page_dir = 0xc0000000, pdbr = 0\<rparr>"

lemma sample_paging_ok: "pg_ok sample_paging 0xc0100000"
proof -
  have z: "entry (\<lambda>_. 0) p k = 0" for p k
    by (simp add: entry_def load32_def load_bytes_def le_word_def numeral_eq_Suc)
  have "0 \<in> pool_used (kernel_pool sample_pools)"
    by (simp add: pool_used_def pool_slots_def sample_pools_def bit_at_def bit_0)
  then have "page_addr (kernel_pool sample_pools) 0 \<in> kpages sample_pools" by (simp add: kpages_def)
  then have "0xc0100000 \<in> kpages sample_pools" by (simp add: page_addr_def sample_pools_def)
  then show ?thesis
    using sample_pools_inv
    by (simp add: pg_ok_def pd_ok_def sample_paging_def z pte_at_def has_table_def PHYS_BASE_def)
qed

lemma sample_kernel_pool_free: "pool_used (kernel_pool (mem sample_paging)) \<noteq> {..<pool_slots (kernel_pool (mem sample_paging))}"
proof -
  have "\<not> bit (1 :: u32) 1" by (simp add: bit_1_iff)
  then have "1 \<notin> pool_used (kernel_pool (mem sample_paging))" "1 < pool_slots (kernel_pool (mem sample_paging))"
    by (simp_all add: pool_used_def pool_slots_def sample_paging_def sample_pools_def bit_at_def)
  then show ?thesis by blast
qed

lemma sample_page_args:
  "pg_ofs 0x8048000 = 0" "is_user_vaddr 0x8048000" "pg_ofs 0xc0200000 = 0" "PHYS_BASE \<le> 0xc0200000"
  "drop_bit 12 (0xc0200000 - PHYS_BASE) < init_ram_pages (mem sample_paging)" "0xc0100000 \<noteq> init_page_dir sample_paging"
  "mapping sample_paging 0xc0100000 (vpn 0x8048000) = None"
proof -
  have z: "entry (\<lambda>_. 0) p k = 0" for p k
    by (simp add: entry_def load32_def load_bytes_def le_word_def numeral_eq_Suc)
  then show "mapping sample_paging 0xc0100000 (vpn 0x8048000) = None"
    by (simp add: mapping_def pte_at_def has_table_def sample_paging_def)
qed (simp_all add: pg_ofs_def PGMASK_def is_user_vaddr_def PHYS_BASE_def sample_paging_def sample_pools_def)

theorem pagedir_map_witness:
  "\<exists>pg'. pagedir_set_page 0xc0100000 0x8048000 0xc0200000 True sample_paging = Inr (pg', True) \<and>
     mapping pg' 0xc0100000 (vpn 0x8048000) = Some (0xc0200000, True)"
proof -
  note p = pagedir_map [OF sample_paging_ok sample_page_args(6,1-5), of True]
  have "\<exists>pg'. pagedir_set_page 0xc0100000 0x8048000 0xc0200000 True sample_paging = Inr (pg', True) \<and> pg_ok pg' 0xc0100000 \<and>
     (\<forall>v<1048576. mapping pg' 0xc0100000 v = (if v = vpn 0x8048000 then Some (0xc0200000, True) else mapping sample_paging 0xc0100000 v))"
    using conjunct1 [OF conjunct2 [OF p]] sample_page_args(7) sample_kernel_pool_free by blast
  then show ?thesis using vpn_split(3) [of "0x8048000"] by (elim exE conjE) (intro exI conjI, assumption, simp)
qed

lemma sample_mapped: "\<exists>pg. pg_ok pg 0xc0100000 \<and> mapping pg 0xc0100000 (vpn 0x8048000) \<noteq> None"
proof (rule pagedir_set_page_map [OF sample_paging_ok sample_page_args(6,1-5,7), of True])
  fix pg' assume pg': "pg_ok pg' 0xc0100000"
    "\<And>v. v < 1048576 \<Longrightarrow> pte_at (mem pg') 0xc0100000 v = (if v = vpn 0x8048000 then new_entry 0xc0200000 True
       else pte_at (mem sample_paging) 0xc0100000 v)"
  then have "mapping pg' 0xc0100000 (vpn 0x8048000) = Some (0xc0200000, True)"
    using mapping_new [OF sample_page_args(3,4)] vpn_split(3) [of "0x8048000"] by simp
  then show ?thesis using pg'(1) by auto
qed (use sample_kernel_pool_free in simp)

theorem pagedir_flags_witness:
  "\<exists>pg pg'. pagedir_set_dirty 0xc0100000 0x8048000 True pg = Inr pg' \<and> pagedir_is_dirty 0xc0100000 0x8048000 pg' = Inr True"
proof -
  obtain pg where pg: "pg_ok pg 0xc0100000" "mapping pg 0xc0100000 (vpn 0x8048000) \<noteq> None" using sample_mapped by blast
  then show ?thesis using conjunct1 [OF pagedir_flags [OF pg, of True]] by fastforce
qed


end
