(* ===== verification/Virtual_Memory.thy ===== *)
theory Virtual_Memory
  imports Hash_Table Pagedir Swap
begin

text \<open>
  \<^verbatim>\<open>vm/page.c\<close> and \<^verbatim>\<open>vm/frame.c\<close>: the supplemental page table of a process, which says where the
  contents of each of its pages are, and the table of the frames, from which pages are evicted to the
  swap device or to their file. Structures are named by their addresses, 0 being the null
  pointer; memory from \<open>malloc\<close> is an address given as an argument. Reading and writing a file are
  the functions \<open>file_read_at\<close> and \<open>file_write_at\<close> of the file system, arguments of the operations that
  call them, on a state \<open>'f\<close>. The operations are given as one thread runs them: \<open>frame_lock\<close> says
  whether it holds the lock.
\<close>

section \<open>State\<close>

datatype page_location_type = filesys | swapslot

record supp_page =
  sp_fr :: addr
  sp_pd :: u32
  vaddr :: u32
  sp_type :: page_location_type
  wr :: bool
  fil :: addr
  sp_offset :: int
  sp_bytes :: int
  sp_swap :: "nat option"

record frame =
  phys_addr :: u32
  fr_page :: addr
  pinned :: int
  evicting :: bool

record ('d, 'f) vm =
  paging :: paging
  swapping :: "'d swap_state"
  files :: 'f
  supp_pages :: "addr \<rightharpoonup> supp_page"
  frames :: "addr \<rightharpoonup> frame"
  frame_table :: "addr list"
  frame_lock :: bool
  pagedir :: u32
  exec_file :: addr

text \<open>Access through a pointer.\<close>

definition spg :: "addr \<Rightarrow> ('d, 'f) vm \<Rightarrow> supp_page res" where
  "spg p s = (case supp_pages s p of None \<Rightarrow> Inl Invalid_access | Some x \<Rightarrow> Inr x)"

definition frm :: "addr \<Rightarrow> ('d, 'f) vm \<Rightarrow> frame res" where
  "frm f s = (case frames s f of None \<Rightarrow> Inl Invalid_access | Some x \<Rightarrow> Inr x)"

definition set_spg :: "addr \<Rightarrow> supp_page \<Rightarrow> ('d, 'f) vm \<Rightarrow> ('d, 'f) vm" where
  "set_spg p x s = s\<lparr>supp_pages := (supp_pages s)(p \<mapsto> x)\<rparr>"

definition set_frm :: "addr \<Rightarrow> frame \<Rightarrow> ('d, 'f) vm \<Rightarrow> ('d, 'f) vm" where
  "set_frm f x s = s\<lparr>frames := (frames s)(f \<mapsto> x)\<rparr>"

definition with_paging :: "(paging \<Rightarrow> paging res) \<Rightarrow> ('d, 'f) vm \<Rightarrow> ('d, 'f) vm res" where
  "with_paging f s = bindR (f (paging s)) (\<lambda>pg. Inr (s\<lparr>paging := pg\<rparr>))"

section \<open>The supplemental page table\<close>

definition less_func :: "(addr \<rightharpoonup> supp_page) \<Rightarrow> addr \<Rightarrow> addr \<Rightarrow> bool" where
  "less_func pages a b \<longleftrightarrow> vaddr (the (pages a)) < vaddr (the (pages b))"

definition hash_func :: "(addr \<rightharpoonup> supp_page) \<Rightarrow> addr \<Rightarrow> u32" where
  "hash_func pages e = hash_int (vaddr (the (pages e)))"

text \<open>The functions a table was initialised with read the pages as they are at the time of the call.\<close>

definition view :: "(addr \<rightharpoonup> supp_page) \<Rightarrow> hash \<Rightarrow> hash" where
  "view pages h = h\<lparr>hash_fn := hash_func pages, less_fn := less_func pages\<rparr>"

definition init_supp_page_table :: "bool \<Rightarrow> ('d, 'f) vm \<Rightarrow> hash option" where
  "init_supp_page_table malloc_ok s = hash_init malloc_ok (hash_func (supp_pages s)) (less_func (supp_pages s))"

text \<open>The local variable \<open>p\<close> of \<open>get_supp_page\<close> is at an address no page has, 0 here.\<close>

definition get_supp_page :: "hash \<Rightarrow> u32 \<Rightarrow> ('d, 'f) vm \<Rightarrow> addr option res" where
  "get_supp_page tab va s =
     bindR (ASSERT (is_user_vaddr va)) (\<lambda>_.
     bindR (ASSERT (pg_ofs va = 0)) (\<lambda>_.
     Inr (hash_find (view ((supp_pages s)(0 \<mapsto> \<lparr>sp_fr = 0, sp_pd = 0, vaddr = va, sp_type = filesys, wr = False,
       fil = 0, sp_offset = 0, sp_bytes = 0, sp_swap = None\<rparr>)) tab) 0)))"

definition valid_page_data :: "hash \<Rightarrow> u32 \<Rightarrow> ('d, 'f) vm \<Rightarrow> bool res" where
  "valid_page_data tab va s = bindR (get_supp_page tab va s) (\<lambda>p. Inr (p \<noteq> None))"

text \<open>\<open>new\<close> is what \<open>malloc\<close> returned, \<open>garbage\<close> what the memory there holds.\<close>

definition allocate_supp_page ::
    "bool \<Rightarrow> addr \<Rightarrow> supp_page \<Rightarrow> hash \<Rightarrow> u32 \<Rightarrow> ('d, 'f) vm \<Rightarrow> (('d, 'f) vm \<times> hash \<times> addr) res" where
  "allocate_supp_page malloc_ok new garbage tab va s =
     bindR (ASSERT (is_user_vaddr va)) (\<lambda>_.
     bindR (ASSERT (pg_ofs va = 0)) (\<lambda>_.
     bindR (get_supp_page tab va s) (\<lambda>p.
     bindR (ASSERT (p = None)) (\<lambda>_.
     if new = 0 then Inl Invalid_access
     else
       let s = set_spg new (garbage\<lparr>vaddr := va\<rparr>) s in
       bindR (with_paging (pagedir_set_dirty (pagedir s) va False) s) (\<lambda>s.
       bindR (hash_insert malloc_ok (view (supp_pages s) tab) new) (\<lambda>(tab, _).
       Inr (s, tab, new)))))))"

definition create_filesys_page :: "bool \<Rightarrow> addr \<Rightarrow> supp_page \<Rightarrow> hash \<Rightarrow> u32 \<Rightarrow> u32 \<Rightarrow> addr \<Rightarrow> addr \<Rightarrow> int \<Rightarrow> int \<Rightarrow> bool \<Rightarrow>
    ('d, 'f) vm \<Rightarrow> (('d, 'f) vm \<times> hash \<times> addr) res" where
  "create_filesys_page malloc_ok new garbage tab va pd fr file offset bytes writable s =
     bindR (ASSERT (file \<noteq> 0)) (\<lambda>_.
     bindR (allocate_supp_page malloc_ok new garbage tab va s) (\<lambda>(s, tab, p).
     Inr (set_spg p \<lparr>sp_fr = fr, sp_pd = pd, vaddr = va, sp_type = filesys, wr = writable, fil = file,
       sp_offset = offset, sp_bytes = bytes, sp_swap = None\<rparr> s, tab, p)))"

definition create_swapslot_page :: "bool \<Rightarrow> addr \<Rightarrow> supp_page \<Rightarrow> hash \<Rightarrow> u32 \<Rightarrow> u32 \<Rightarrow> addr \<Rightarrow> bool \<Rightarrow>
    ('d, 'f) vm \<Rightarrow> (('d, 'f) vm \<times> hash \<times> addr) res" where
  "create_swapslot_page malloc_ok new garbage tab va pd fr writable s =
     bindR (allocate_supp_page malloc_ok new garbage tab va s) (\<lambda>(s, tab, p).
     Inr (set_spg p \<lparr>sp_fr = fr, sp_pd = pd, vaddr = va, sp_type = swapslot, wr = writable, fil = 0,
       sp_offset = 0, sp_bytes = 0, sp_swap = None\<rparr> s, tab, p))"

definition free_supp_page :: "bool \<Rightarrow> hash \<Rightarrow> addr \<Rightarrow> ('d, 'f) vm \<Rightarrow> (('d, 'f) vm \<times> hash \<times> int) res" where
  "free_supp_page malloc_ok tab p s =
     bindR (spg p s) (\<lambda>x.
     bindR (get_supp_page tab (vaddr x) s) (\<lambda>q.
     bindR (ASSERT (q \<noteq> None)) (\<lambda>_.
     bindR (hash_delete malloc_ok (view (supp_pages s) tab) p) (\<lambda>(tab, _).
     Inr (s\<lparr>supp_pages := (supp_pages s)(p := None)\<rparr>, tab, 0)))))"

section \<open>Frames\<close>

definition acquire_frame_lock :: "('d, 'f) vm \<Rightarrow> ('d, 'f) vm res" where
  "acquire_frame_lock s = bindR (ASSERT (\<not> frame_lock s)) (\<lambda>_. Inr (s\<lparr>frame_lock := True\<rparr>))"

definition init_frame_table :: "('d, 'f) vm \<Rightarrow> ('d, 'f) vm" where
  "init_frame_table s = s\<lparr>frame_table := [], frame_lock := False\<rparr>"

text \<open>
  The second chance: a frame that was used since it last came to the front, or that is pinned or
  being evicted, goes back to the end. The loop has no other end, hence the fuel.
\<close>

fun frame_choose_victim :: "nat \<Rightarrow> ('d, 'f) vm \<Rightarrow> (('d, 'f) vm \<times> addr) res" where
  "frame_choose_victim 0 s = Inl Out_of_fuel"
| "frame_choose_victim (Suc n) s =
     (case frame_table s of
        [] \<Rightarrow> Inl Assertion_failure
      | cur # rest \<Rightarrow>
          let s = s\<lparr>frame_table := rest\<rparr> in
          bindR (frm cur s) (\<lambda>f.
          bindR (spg (fr_page f) s) (\<lambda>p.
          bindR (pagedir_is_accessed (sp_pd p) (phys_addr f) (paging s)) (\<lambda>a.
          bindR (if a then Inr True else pagedir_is_accessed (sp_pd p) (vaddr p) (paging s)) (\<lambda>a.
          if a \<or> evicting f \<or> pinned f \<noteq> 0 then
            bindR (with_paging (pagedir_set_accessed (sp_pd p) (phys_addr f) False) s) (\<lambda>s.
            bindR (with_paging (pagedir_set_accessed (sp_pd p) (vaddr p) False) s) (\<lambda>s.
            frame_choose_victim n (s\<lparr>frame_table := frame_table s @ [cur]\<rparr>)))
          else Inr (s, cur))))))"

text \<open>
  \<open>list_remove\<close> on an element that has just been popped leaves the list as it is
  (\<open>Kernel_List_Properties\<close>).
\<close>

definition frame_free :: "addr \<Rightarrow> ('d, 'f) vm \<Rightarrow> (('d, 'f) vm \<times> int) res" where
  "frame_free fr s =
     (if fr = 0 then Inr (s, 1)
      else
        let unlock = (\<not> frame_lock s) in
        bindR (if unlock then acquire_frame_lock s else Inr s) (\<lambda>s.
        bindR (frm fr s) (\<lambda>f.
        let s = s\<lparr>frame_table := remove1 fr (frame_table s)\<rparr> in
        bindR (spg (fr_page f) s) (\<lambda>p.
        bindR (with_paging (pagedir_clear_page (sp_pd p) (vaddr p)) s) (\<lambda>s.
        bindR (palloc_free_page (phys_addr f) (mem (paging s))) (\<lambda>m.
        let s = s\<lparr>paging := (paging s)\<lparr>mem := m\<rparr>, frames := (frames s)(fr := None)\<rparr> in
        Inr (if unlock then s\<lparr>frame_lock := False\<rparr> else s, 0)))))))"

definition frame_bytes :: "frame \<Rightarrow> nat \<Rightarrow> ('d, 'f) vm \<Rightarrow> u8 list" where
  "frame_bytes f n s = load_bytes (ram (mem (paging s))) (phys_addr f) n"

definition frame_evict :: "(addr \<Rightarrow> u8 list \<Rightarrow> int \<Rightarrow> int \<Rightarrow> 'f \<Rightarrow> ('f \<times> int) res) \<Rightarrow> addr \<Rightarrow> ('d, 'f) vm \<Rightarrow> ('d, 'f) vm res" where
  "frame_evict file_write_at fr s =
     bindR (frm fr s) (\<lambda>f.
     let s = set_frm fr (f\<lparr>evicting := True\<rparr>) s; unlock = (\<not> frame_lock s) in
     bindR (if unlock then acquire_frame_lock s else Inr s) (\<lambda>s.
     bindR (spg (fr_page f) s) (\<lambda>p.
     bindR (ASSERT (sp_fr p = fr)) (\<lambda>_.
     bindR (case sp_type p of
         filesys \<Rightarrow>
           bindR (pagedir_is_dirty (sp_pd p) (vaddr p) (paging s)) (\<lambda>d.
           if d then
             bindR (file_write_at (fil p) (frame_bytes f (nat (sp_bytes p)) s) (sp_bytes p) (sp_offset p) (files s)) (\<lambda>(fs, _).
             bindR (with_paging (pagedir_set_dirty (sp_pd p) (vaddr p) False) (s\<lparr>files := fs\<rparr>)) (\<lambda>s. Inr (s, p)))
           else Inr (s, p))
       | swapslot \<Rightarrow>
           bindR (swap_put_page (swapping s) (frame_bytes f PGSIZE s)) (\<lambda>(sw, i).
           Inr (s\<lparr>swapping := sw\<rparr>, p\<lparr>sp_swap := Some i\<rparr>))) (\<lambda>(s, p).
     let s = set_spg (fr_page f) p s in
     bindR (frame_free fr s) (\<lambda>(s, r).
     bindR (ASSERT (r = 0)) (\<lambda>_.
     let s = set_spg (fr_page f) (p\<lparr>sp_fr := 0\<rparr>) s in
     Inr (if unlock then s\<lparr>frame_lock := False\<rparr> else s))))))))"

text \<open>\<open>new\<close> is what \<open>calloc\<close> returned.\<close>

definition frame_create :: "(addr \<Rightarrow> u8 list \<Rightarrow> int \<Rightarrow> int \<Rightarrow> 'f \<Rightarrow> ('f \<times> int) res) \<Rightarrow> nat \<Rightarrow> addr \<Rightarrow> u32 \<Rightarrow> bool \<Rightarrow>
    ('d, 'f) vm \<Rightarrow> (('d, 'f) vm \<times> addr) res" where
  "frame_create file_write_at fuel new flags pin s =
     bindR (acquire_frame_lock s) (\<lambda>s.
     bindR (palloc_get_page flags (mem (paging s))) (\<lambda>(m, kpage).
     let s = s\<lparr>paging := (paging s)\<lparr>mem := m\<rparr>\<rparr> in
     bindR (if kpage = 0 then
              bindR (frame_choose_victim fuel s) (\<lambda>(s, victim).
              bindR (frame_evict file_write_at victim s) (\<lambda>s.
              bindR (palloc_get_page flags (mem (paging s))) (\<lambda>(m, kpage).
              Inr (s\<lparr>paging := (paging s)\<lparr>mem := m\<rparr>\<rparr>, kpage))))
            else Inr (s, kpage)) (\<lambda>(s, kpage).
     if kpage = 0 then Inl Kernel_panic
     else if new = 0 then Inl Invalid_access
     else
       let s = set_frm new \<lparr>phys_addr = kpage, fr_page = 0, pinned = (if pin then 1 else 0), evicting = False\<rparr> s in
       bindR (with_paging (pagedir_set_dirty (pagedir s) kpage False) s) (\<lambda>s.
       Inr (s\<lparr>frame_table := frame_table s @ [new], frame_lock := False\<rparr>, new)))))"

section \<open>Pages in and out of frames\<close>

definition page_to_new_frame ::
    "(addr \<Rightarrow> int \<Rightarrow> int \<Rightarrow> 'f \<Rightarrow> ('f \<times> u8 list) res) \<Rightarrow> (addr \<Rightarrow> u8 list \<Rightarrow> int \<Rightarrow> int \<Rightarrow> 'f \<Rightarrow> ('f \<times> int) res) \<Rightarrow> nat \<Rightarrow> addr \<Rightarrow>
     addr \<Rightarrow> bool \<Rightarrow> ('d, 'f) vm \<Rightarrow> (('d, 'f) vm \<times> addr) res" where
  "page_to_new_frame file_read_at file_write_at fuel new p pin s =
     bindR (spg p s) (\<lambda>x.
     bindR (if sp_fr x = 0 then Inr True else bindR (frm (sp_fr x) s) (\<lambda>f. Inr (evicting f))) (\<lambda>a.
     bindR (ASSERT a) (\<lambda>_.
     bindR (frame_create file_write_at fuel new (PAL_USER OR PAL_ZERO) pin s) (\<lambda>(s, nf).
     bindR (frm nf s) (\<lambda>f.
     let s = set_frm nf (f\<lparr>fr_page := p\<rparr>) s in
     bindR (spg p s) (\<lambda>x.
     let x = x\<lparr>sp_fr := nf\<rparr> in
     bindR (case sp_type x of
         filesys \<Rightarrow>
           bindR (file_read_at (fil x) (sp_bytes x) (sp_offset x) (files s)) (\<lambda>(fs, buf).
           if int (length buf) \<noteq> sp_bytes x then Inl Kernel_panic
           else Inr (s\<lparr>files := fs\<rparr>, buf,
             if wr x \<and> fil x = exec_file s
             then x\<lparr>sp_type := swapslot, fil := 0, sp_offset := 0, sp_bytes := 0, sp_swap := None\<rparr> else x))
       | swapslot \<Rightarrow>
           bindR (swap_retrieve_page (swapping s) (frame_bytes f PGSIZE s) (sp_swap x)) (\<lambda>(sw, buf, _).
           Inr (s\<lparr>swapping := sw\<rparr>, buf, x))) (\<lambda>(s, buf, x).
     let m = mem (paging s);
         s = set_spg p x (s\<lparr>paging := (paging s)\<lparr>mem := m\<lparr>ram := store_bytes (ram m) (phys_addr f) buf\<rparr>\<rparr>\<rparr>) in
     bindR (pagedir_set_page (sp_pd x) (vaddr x) (phys_addr f) (wr x) (paging s)) (\<lambda>(pg, _).
     Inr (s\<lparr>paging := pg\<rparr>, nf)))))))))"

text \<open>
  \<open>pin_page\<close> reads the page before it asserts that there is one, and waits while the page is being
  evicted.
\<close>

definition pin_page ::
    "(addr \<Rightarrow> int \<Rightarrow> int \<Rightarrow> 'f \<Rightarrow> ('f \<times> u8 list) res) \<Rightarrow> (addr \<Rightarrow> u8 list \<Rightarrow> int \<Rightarrow> int \<Rightarrow> 'f \<Rightarrow> ('f \<times> int) res) \<Rightarrow> nat \<Rightarrow> addr \<Rightarrow>
     hash \<Rightarrow> u32 \<Rightarrow> ('d, 'f) vm \<Rightarrow> ('d, 'f) vm res" where
  "pin_page file_read_at file_write_at fuel new tab va s =
     bindR (get_supp_page tab (pg_round_down va) s) (\<lambda>p.
     bindR (case p of None \<Rightarrow> Inl Invalid_access | Some p \<Rightarrow> spg p s) (\<lambda>x.
     if sp_fr x = 0 then
       bindR (page_to_new_frame file_read_at file_write_at fuel new (the p) True s) (\<lambda>(s, _). Inr s)
     else
       bindR (frm (sp_fr x) s) (\<lambda>f.
       if evicting f then Inl Blocked
       else
         bindR (ASSERT (0 \<le> pinned f)) (\<lambda>_.
         Inr (set_frm (sp_fr x) (f\<lparr>pinned := pinned f + 1\<rparr>) s)))))"

definition unpin_page :: "hash \<Rightarrow> u32 \<Rightarrow> ('d, 'f) vm \<Rightarrow> ('d, 'f) vm res" where
  "unpin_page tab va s =
     bindR (get_supp_page tab (pg_round_down va) s) (\<lambda>p.
     bindR (ASSERT (p \<noteq> None)) (\<lambda>_.
     bindR (spg (the p) s) (\<lambda>x.
     bindR (ASSERT (sp_fr x \<noteq> 0)) (\<lambda>_.
     bindR (frm (sp_fr x) s) (\<lambda>f.
     bindR (ASSERT (0 < pinned f)) (\<lambda>_.
     bindR (ASSERT (\<not> evicting f)) (\<lambda>_.
     Inr (set_frm (sp_fr x) (f\<lparr>pinned := pinned f - 1\<rparr>) s))))))))"

definition free_action_func :: "(addr \<Rightarrow> u8 list \<Rightarrow> int \<Rightarrow> int \<Rightarrow> 'f \<Rightarrow> ('f \<times> int) res) \<Rightarrow> addr \<Rightarrow> ('d, 'f) vm \<Rightarrow> ('d, 'f) vm res" where
  "free_action_func file_write_at p s =
     bindR (spg p s) (\<lambda>x.
     bindR (if sp_fr x \<noteq> 0 \<and> sp_type x = filesys then frame_evict file_write_at (sp_fr x) s
            else if sp_fr x \<noteq> 0 then bindR (frame_free (sp_fr x) s) (\<lambda>(s, _). Inr s)
            else Inr s) (\<lambda>s.
     bindR (spg p s) (\<lambda>x.
     bindR (if sp_type x = swapslot \<and> sp_swap x \<noteq> None
            then bindR (swap_remove_page (swapping s) (sp_swap x)) (\<lambda>sw. Inr (s\<lparr>swapping := sw\<rparr>))
            else Inr s) (\<lambda>s.
     bindR (with_paging (pagedir_clear_page (pagedir s) (vaddr x)) s) (\<lambda>s.
     Inr (s\<lparr>supp_pages := (supp_pages s)(p := None)\<rparr>))))))"

definition free_supp_page_table :: "(addr \<Rightarrow> u8 list \<Rightarrow> int \<Rightarrow> int \<Rightarrow> 'f \<Rightarrow> ('f \<times> int) res) \<Rightarrow> hash \<Rightarrow> ('d, 'f) vm \<Rightarrow>
    (('d, 'f) vm \<times> hash) res" where
  "free_supp_page_table file_write_at tab s =
     bindR (hash_apply (\<lambda>p r. bindR r (free_action_func file_write_at p)) tab (Inr s)) (\<lambda>s.
     Inr (s, fst (hash_destroy None tab ())))"

end
