(* ===== verification/Supp_Page_Table.thy ===== *)
theory Supp_Page_Table
  imports Virtual_Memory
begin

text \<open>
  The supplemental page table as a map from user pages to page structures: the functions of
  \<^verbatim>\<open>vm/page.c\<close> satisfy what hash tables require of their clients, and the table functions look up, add
  and remove one page.
\<close>

section \<open>A client of the hash table\<close>

interpretation supp: hash_client "less_func pages" "hash_func pages" for pages
  by unfold_locales (auto simp: less_func_def hash_func_def eqv_def)

lemma eqv_less_func: "eqv (less_func pages) a b \<longleftrightarrow> vaddr (the (pages a)) = vaddr (the (pages b))"
  by (auto simp: eqv_def less_func_def)

lemma view_fields [simp]:
  "less_fn (view pages h) = less_func pages" "hash_fn (view pages h) = hash_func pages"
  "elems (view pages h) = elems h" "view pages (view pages' h) = view pages h"
  "buckets (view pages h) = buckets h" "bucket_cnt (view pages h) = bucket_cnt h"
  by (simp_all add: view_def elems_def)

lemma view_self: "less_fn h = less_func pages \<Longrightarrow> hash_fn h = hash_func pages \<Longrightarrow> view pages h = h"
  by (cases h) (simp add: view_def)

lemma hash_inv_view:
  assumes "hash_inv (view pages h)" "\<And>a. a \<in> elems h \<Longrightarrow> vaddr (the (pages' a)) = vaddr (the (pages a))"
  shows "hash_inv (view pages' h)"
proof -
  have f: "find_bucket (view pages' h) e = find_bucket (view pages h) e" if "e \<in> elems h" for e
    using assms(2) [OF that] by (simp add: find_bucket_def hash_func_def)
  have e: "e \<in> elems h" if "i < length (buckets h)" "e \<in> set (buckets h ! i)" for i e
    using that by (auto simp: elems_def)
  show ?thesis
    using assms f e unfolding hash_inv_def shape_def by (simp add: eqv_less_func) (simp add: view_def)
qed

section \<open>The table of a process\<close>

definition spt_ok :: "hash \<Rightarrow> ('d, 'f) vm \<Rightarrow> bool" where
  "spt_ok tab s \<longleftrightarrow> hash_inv (view (supp_pages s) tab) \<and> elems tab \<subseteq> dom (supp_pages s) - {0}"

lemma get_supp_page_Some:
  assumes ok: "spt_ok tab s" and va: "is_user_vaddr va" "pg_ofs va = 0"
  shows "get_supp_page tab va s = Inr (Some a) \<longleftrightarrow> a \<in> elems tab \<and> vaddr (the (supp_pages s a)) = va"
    and "\<exists>r. get_supp_page tab va s = Inr r"
proof -
  define pages where "pages = (supp_pages s)(0 \<mapsto> \<lparr>sp_fr = 0, sp_pd = 0, vaddr = va, sp_type = filesys, wr = False,
       fil = 0, sp_offset = 0, sp_bytes = 0, sp_swap = None\<rparr>)"
  have e: "a \<noteq> 0" if "a \<in> elems tab" for a using ok that by (auto simp: spt_ok_def)
  have inv: "hash_inv (view pages tab)"
  proof (rule hash_inv_view)
    show "hash_inv (view (supp_pages s) tab)" using ok by (simp add: spt_ok_def)
    show "vaddr (the (pages a)) = vaddr (the (supp_pages s a))" if "a \<in> elems tab" for a
      using e [OF that] by (simp add: pages_def)
  qed
  have g: "get_supp_page tab va s = Inr (hash_find (view pages tab) 0)"
    using va by (simp add: get_supp_page_def pages_def)
  then show "\<exists>r. get_supp_page tab va s = Inr r" by simp
  show "get_supp_page tab va s = Inr (Some a) \<longleftrightarrow> a \<in> elems tab \<and> vaddr (the (supp_pages s a)) = va"
    using supp.hash_find_Some [OF inv, of pages 0 a] g e [of a] by (auto simp: eqv_less_func) (simp_all add: pages_def)
qed

lemma with_paging_dirty:
  assumes "pg_ok (paging s) pd"
  obtains pg where "with_paging (pagedir_set_dirty pd va d) s = Inr (s\<lparr>paging := pg\<rparr>)" "pg_ok pg pd"
    "init_page_dir pg = init_page_dir (paging s)" "\<forall>v<1048576. mapping pg pd v = mapping (paging s) pd v"
proof (rule pagedir_set_flag_map [OF assms, of va d])
  fix pg pg' assume pg: "pagedir_set_dirty pd va d (paging s) = Inr pg" "pg_ok pg pd"
    "init_page_dir pg = init_page_dir (paging s)"
    "\<forall>v<1048576. pte_at (mem pg) pd v = (if v = vpn va \<and> has_table (mem (paging s)) pd v
       then (if d then pte_at (mem (paging s)) pd v OR PTE_D else pte_at (mem (paging s)) pd v AND NOT PTE_D)
       else pte_at (mem (paging s)) pd v)"
  have "\<forall>v<1048576. mapping pg pd v = mapping (paging s) pd v"
    using pg(4) flag_update by (auto simp: mapping_def Let_def pt_of_def bit_or_iff bit_and_iff bit_not_iff)
  then show thesis using that [of pg] pg(1-3) by (simp add: with_paging_def)
qed

lemma allocate_supp_page_ok:
  assumes ok: "spt_ok tab s" and va: "is_user_vaddr va" "pg_ofs va = 0" and room: "card (elems tab) < 2 ^ 32 - 1"
    and new: "new \<noteq> 0" "new \<notin> dom (supp_pages s)" and pg: "pg_ok (paging s) (pagedir s)"
    and absent: "\<And>a. a \<in> elems tab \<Longrightarrow> vaddr (the (supp_pages s a)) \<noteq> va"
  obtains pg tab' where "allocate_supp_page mo new garbage tab va s =
      Inr (s\<lparr>paging := pg, supp_pages := (supp_pages s)(new \<mapsto> garbage\<lparr>vaddr := va\<rparr>)\<rparr>, tab', new)"
    "pg_ok pg (pagedir s)" "hash_inv (view ((supp_pages s)(new \<mapsto> garbage\<lparr>vaddr := va\<rparr>)) tab')" "elems tab' = insert new (elems tab)"
proof -
  define pages where "pages = (supp_pages s)(new \<mapsto> garbage\<lparr>vaddr := va\<rparr>)"
  have e: "a \<noteq> new" if "a \<in> elems tab" for a using ok that new(2) by (auto simp: spt_ok_def)
  have inv: "hash_inv (view pages tab)"
  proof (rule hash_inv_view)
    show "hash_inv (view (supp_pages s) tab)" using ok by (simp add: spt_ok_def)
    show "vaddr (the (pages a)) = vaddr (the (supp_pages s a))" if "a \<in> elems tab" for a
      using e [OF that] by (simp add: pages_def)
  qed
  have none: "hash_find (view pages tab) new = None"
  proof (rule ccontr)
    assume "hash_find (view pages tab) new \<noteq> None"
    then obtain a where "hash_find (view pages tab) new = Some a" by blast
    then have "a \<in> elems tab" "vaddr (the (pages a)) = va"
      using supp.hash_find_Some [OF inv, of pages new a] by (auto simp: eqv_less_func pages_def)
    then show False using e absent by (simp add: pages_def)
  qed
  obtain tab' where t: "hash_insert mo (view pages tab) new = Inr (tab', None)" "hash_inv tab'"
      "less_fn tab' = less_func pages" "hash_fn tab' = hash_func pages" "elems tab' = insert new (elems tab)"
    using supp.hash_insert_correct [OF inv, of pages mo new] none room by auto
  have get: "get_supp_page tab va s = Inr None"
    using get_supp_page_Some [OF ok va] absent by (metis not_None_eq)
  obtain pg' where p: "with_paging (pagedir_set_dirty (pagedir s) va False) (set_spg new (garbage\<lparr>vaddr := va\<rparr>) s) =
      Inr ((set_spg new (garbage\<lparr>vaddr := va\<rparr>) s)\<lparr>paging := pg'\<rparr>)" "pg_ok pg' (pagedir s)"
    using with_paging_dirty [of "set_spg new (garbage\<lparr>vaddr := va\<rparr>) s" "pagedir s" va False] pg by (auto simp: set_spg_def)
  have "allocate_supp_page mo new garbage tab va s = Inr (s\<lparr>paging := pg', supp_pages := pages\<rparr>, tab', new)"
    using get p(1) t(1) va new(1) by (simp add: allocate_supp_page_def Let_def set_spg_def pages_def)
  then show thesis
    using that [of pg' tab'] p(2) t(2,5) view_self [OF t(3,4)] by (simp add: pages_def)
qed

lemma free_supp_page_ok:
  assumes ok: "spt_ok tab s" and a: "a \<in> elems tab"
    and va: "is_user_vaddr (vaddr (the (supp_pages s a)))" "pg_ofs (vaddr (the (supp_pages s a))) = 0"
  obtains tab' where "free_supp_page mo tab a s = Inr (s\<lparr>supp_pages := (supp_pages s)(a := None)\<rparr>, tab', 0)"
    "spt_ok tab' (s\<lparr>supp_pages := (supp_pages s)(a := None)\<rparr>)" "elems tab' = elems tab - {a}"
proof -
  obtain x where x: "supp_pages s a = Some x" using ok a by (auto simp: spt_ok_def)
  let ?v = "view (supp_pages s) tab"
  have inv: "hash_inv ?v" using ok by (simp add: spt_ok_def)
  have get: "get_supp_page tab (vaddr x) s = Inr (Some a)"
    using get_supp_page_Some(1) [OF ok va, of a] a x by simp
  have other: "{b \<in> elems tab. \<not> eqv (less_func (supp_pages s)) b a} = elems tab - {a}"
    using inv a by (auto simp: hash_inv_def eqv_less_func)
  obtain tab' r where t: "hash_delete mo ?v a = Inr (tab', r)" "hash_inv tab'" "less_fn tab' = less_func (supp_pages s)"
      "hash_fn tab' = hash_func (supp_pages s)" "elems tab' = elems tab - {a}"
    using supp.hash_delete_correct [OF inv, of "supp_pages s" mo a] other by auto
  have "hash_inv (view ((supp_pages s)(a := None)) tab')"
  proof (rule hash_inv_view)
    show "hash_inv (view (supp_pages s) tab')" using t(2) view_self [OF t(3,4)] by simp
    show "vaddr (the (((supp_pages s)(a := None)) b)) = vaddr (the (supp_pages s b))" if "b \<in> elems tab'" for b
      using that t(5) by simp
  qed
  then have "spt_ok tab' (s\<lparr>supp_pages := (supp_pages s)(a := None)\<rparr>)"
    using ok t(5) by (auto simp: spt_ok_def)
  moreover have "free_supp_page mo tab a s = Inr (s\<lparr>supp_pages := (supp_pages s)(a := None)\<rparr>, tab', 0)"
    using x get t(1) by (simp add: free_supp_page_def spg_def)
  ultimately show thesis using that t(5) by blast
qed

section \<open>Properties\<close>

text \<open>The structures the two functions leave for a new page.\<close>

definition swap_page :: "addr \<Rightarrow> u32 \<Rightarrow> u32 \<Rightarrow> bool \<Rightarrow> supp_page" where
  "swap_page fr pd va w = \<lparr>sp_fr = fr, sp_pd = pd, vaddr = va, sp_type = swapslot, wr = w, fil = 0,
    sp_offset = 0, sp_bytes = 0, sp_swap = None\<rparr>"

definition file_page :: "addr \<Rightarrow> u32 \<Rightarrow> u32 \<Rightarrow> bool \<Rightarrow> addr \<Rightarrow> int \<Rightarrow> int \<Rightarrow> supp_page" where
  "file_page fr pd va w file ofs n = \<lparr>sp_fr = fr, sp_pd = pd, vaddr = va, sp_type = filesys, wr = w, fil = file,
    sp_offset = ofs, sp_bytes = n, sp_swap = None\<rparr>"

text \<open>
  C7. The supplemental page table is a map from user page addresses to page structures.
  \<open>get_supp_page\<close> returns the structure of a page if there is one; \<open>create_swapslot_page\<close> and
  \<open>create_filesys_page\<close> add a page that is not there, with the contents given, and fail their
  assertion for one that is; \<open>free_supp_page\<close> removes one page. No other page is affected, whether
  or not the hash table gets the memory to grow.
\<close>

theorem supp_page_table_map:
  assumes ok: "spt_ok tab s" and va: "is_user_vaddr va" "pg_ofs va = 0" and room: "card (elems tab) < 2 ^ 32 - 1"
    and new: "new \<noteq> 0" "new \<notin> dom (supp_pages s)" and pg: "pg_ok (paging s) (pagedir s)"
  shows "(\<forall>a. get_supp_page tab va s = Inr (Some a) \<longleftrightarrow> a \<in> elems tab \<and> vaddr (the (supp_pages s a)) = va) \<and>
    (get_supp_page tab va s = Inr None \<longrightarrow>
      (\<exists>s' tab'. create_swapslot_page mo new garbage tab va pd fr w s = Inr (s', tab', new) \<and> spt_ok tab' s' \<and>
        elems tab' = insert new (elems tab) \<and> supp_pages s' = (supp_pages s)(new \<mapsto> swap_page fr pd va w)) \<and>
      (fp \<noteq> 0 \<longrightarrow> (\<exists>s' tab'. create_filesys_page mo new garbage tab va pd fr fp ofs n w s = Inr (s', tab', new) \<and>
        spt_ok tab' s' \<and> elems tab' = insert new (elems tab) \<and> supp_pages s' = (supp_pages s)(new \<mapsto> file_page fr pd va w fp ofs n)))) \<and>
    (get_supp_page tab va s \<noteq> Inr None \<longrightarrow>
      create_swapslot_page mo new garbage tab va pd fr w s = Inl Assertion_failure) \<and>
    (\<forall>a. get_supp_page tab va s = Inr (Some a) \<longrightarrow>
      (\<exists>s' tab'. free_supp_page mo tab a s = Inr (s', tab', 0) \<and> spt_ok tab' s' \<and> elems tab' = elems tab - {a} \<and>
        supp_pages s' = (supp_pages s)(a := None)))"
proof (intro conjI allI impI)
  note get = get_supp_page_Some [OF ok va]
  show "get_supp_page tab va s = Inr (Some a) \<longleftrightarrow> a \<in> elems tab \<and> vaddr (the (supp_pages s a)) = va" for a
    by (rule get(1))
  have fresh: "new \<notin> elems tab" using ok new(2) by (auto simp: spt_ok_def)
  have final: "spt_ok tab' (set_spg new x (s\<lparr>paging := pg', supp_pages := (supp_pages s)(new \<mapsto> garbage\<lparr>vaddr := va\<rparr>)\<rparr>))"
    if "hash_inv (view ((supp_pages s)(new \<mapsto> garbage\<lparr>vaddr := va\<rparr>)) tab')" "elems tab' = insert new (elems tab)" "vaddr x = va"
    for tab' x pg'
  proof -
    have "hash_inv (view ((supp_pages s)(new \<mapsto> x)) tab')"
    proof (rule hash_inv_view [OF that(1)])
      show "vaddr (the (((supp_pages s)(new \<mapsto> x)) a)) = vaddr (the (((supp_pages s)(new \<mapsto> garbage\<lparr>vaddr := va\<rparr>)) a))" for a
        using that(3) by simp
    qed
    moreover have "elems tab' \<subseteq> dom ((supp_pages s)(new \<mapsto> x)) - {0}" using ok new(1) that(2) by (auto simp: spt_ok_def)
    ultimately show ?thesis by (simp add: spt_ok_def set_spg_def)
  qed
  assume none: "get_supp_page tab va s = Inr None"
  have absent: "vaddr (the (supp_pages s a)) \<noteq> va" if "a \<in> elems tab" for a
    using get(1) [of a] none that by auto
  obtain pg' tab' where al: "allocate_supp_page mo new garbage tab va s =
      Inr (s\<lparr>paging := pg', supp_pages := (supp_pages s)(new \<mapsto> garbage\<lparr>vaddr := va\<rparr>)\<rparr>, tab', new)"
    "hash_inv (view ((supp_pages s)(new \<mapsto> garbage\<lparr>vaddr := va\<rparr>)) tab')" "elems tab' = insert new (elems tab)"
    using allocate_supp_page_ok [OF ok va room new pg absent, of mo garbage] by metis
  show "\<exists>s' tab'. create_swapslot_page mo new garbage tab va pd fr w s = Inr (s', tab', new) \<and> spt_ok tab' s' \<and>
      elems tab' = insert new (elems tab) \<and> supp_pages s' = (supp_pages s)(new \<mapsto> swap_page fr pd va w)"
    using al(1,3) final [OF al(2,3), of "swap_page fr pd va w"]
    by (intro exI [of _ "set_spg new (swap_page fr pd va w) (s\<lparr>paging := pg', supp_pages := (supp_pages s)(new \<mapsto> garbage\<lparr>vaddr := va\<rparr>)\<rparr>)"] exI [of _ tab'])
      (simp add: create_swapslot_page_def swap_page_def set_spg_def)
  show "\<exists>s' tab'. create_filesys_page mo new garbage tab va pd fr fp ofs n w s = Inr (s', tab', new) \<and>
      spt_ok tab' s' \<and> elems tab' = insert new (elems tab) \<and> supp_pages s' = (supp_pages s)(new \<mapsto> file_page fr pd va w fp ofs n)"
    if "fp \<noteq> 0"
    using al(1,3) final [OF al(2,3), of "file_page fr pd va w fp ofs n"] that
    by (intro exI [of _ "set_spg new (file_page fr pd va w fp ofs n) (s\<lparr>paging := pg', supp_pages := (supp_pages s)(new \<mapsto> garbage\<lparr>vaddr := va\<rparr>)\<rparr>)"] exI [of _ tab'])
      (simp add: create_filesys_page_def file_page_def set_spg_def)
next
  assume "get_supp_page tab va s \<noteq> Inr None"
  then obtain a where "get_supp_page tab va s = Inr (Some a)"
    using get_supp_page_Some(2) [OF ok va] by (metis not_None_eq)
  then show "create_swapslot_page mo new garbage tab va pd fr w s = Inl Assertion_failure"
    using va by (simp add: create_swapslot_page_def allocate_supp_page_def)
next
  fix a assume "get_supp_page tab va s = Inr (Some a)"
  then have a: "a \<in> elems tab" "vaddr (the (supp_pages s a)) = va" using get_supp_page_Some(1) [OF ok va] by simp_all
  show "\<exists>s' tab'. free_supp_page mo tab a s = Inr (s', tab', 0) \<and> spt_ok tab' s' \<and> elems tab' = elems tab - {a} \<and>
      supp_pages s' = (supp_pages s)(a := None)"
    by (rule free_supp_page_ok [OF ok a(1), of mo]) (use a(2) va in auto)
qed

text \<open>A machine with the directory of \<open>Pagedir\<close>, one page and its table.\<close>

definition sample_vm :: "(medium partition, unit) vm" where
  "sample_vm = \<lparr>paging = sample_paging, swapping = \<lparr>swap_table = sample_swap, swap_slots = [\<lparr>slot_num = 0, in_use = False\<rparr>]\<rparr>,
     files = (), supp_pages = [40 \<mapsto> swap_page 0 0xc0100000 0x8048000 True], frames = Map.empty, frame_table = [],
     frame_lock = False, pagedir = 0xc0100000, exec_file = 0\<rparr>"

definition sample_tab :: hash where
  "sample_tab = insert_elem (the (hash_init True (\<lambda>_. 0) (\<lambda>_ _. False))) (unat (hash_int 0x8048000 AND 3)) 40"

lemma sample_tab_ok: "spt_ok sample_tab sample_vm" "elems sample_tab = {40}"
proof -
  have "hash_int 0x8048000 AND 3 \<le> 3" by (rule word_and_le1)
  then have i: "unat (hash_int 0x8048000 AND 3) < 4" by (simp add: word_le_nat_alt)
  have b: "buckets sample_tab = (replicate 4 [])[unat (hash_int 0x8048000 AND 3) := [40]]" "bucket_cnt sample_tab = 4"
    "Hash_Table.elem_cnt sample_tab = 1"
    using i by (simp_all add: sample_tab_def insert_elem_def hash_init_def hash_clear_def push_bucket_def)
  have n: "buckets sample_tab ! j = (if j = unat (hash_int 0x8048000 AND 3) then [40] else [])" if "j < 4" for j
    using i that by (simp add: b nth_list_update)
  have "set (buckets sample_tab) \<subseteq> insert [40] (set (replicate 4 []))" unfolding b(1) by (rule set_update_subset_insert)
  moreover have "[40] \<in> set (buckets sample_tab)" unfolding b(1) using i by (intro set_update_memI) simp
  ultimately show e: "elems sample_tab = {40}" by (auto simp: elems_def)
  have fb: "find_bucket (view (supp_pages sample_vm) sample_tab) 40 = unat (hash_int 0x8048000 AND 3)"
    by (simp add: find_bucket_def hash_func_def sample_vm_def swap_page_def b)
  have "shape (view (supp_pages sample_vm) sample_tab)"
    unfolding shape_def
  proof (intro conjI allI impI ballI)
    show "\<exists>k\<ge>2. k < 32 \<and> bucket_cnt (view (supp_pages sample_vm) sample_tab) = 2 ^ k"
      by (intro exI [of _ 2]) (simp add: b)
    show "length (buckets (view (supp_pages sample_vm) sample_tab)) = unat (bucket_cnt (view (supp_pages sample_vm) sample_tab))"
      by (simp add: b)
    fix j assume j: "j < length (buckets (view (supp_pages sample_vm) sample_tab))"
    then have j: "j < 4" by (simp add: b)
    then show "distinct (buckets (view (supp_pages sample_vm) sample_tab) ! j)" using n by simp
    show "find_bucket (view (supp_pages sample_vm) sample_tab) a = j"
      if "a \<in> set (buckets (view (supp_pages sample_vm) sample_tab) ! j)" for a
      using that n [OF j] fb by (simp split: if_splits)
  qed
  then show "spt_ok sample_tab sample_vm"
    using e by (simp add: spt_ok_def hash_inv_def) (simp add: sample_vm_def view_def b)
qed

theorem supp_page_table_map_witness:
  "get_supp_page sample_tab 0x8048000 sample_vm = Inr (Some 40) \<and>
   create_swapslot_page True 80 (swap_page 0 0 0 False) sample_tab 0x8048000 0xc0100000 0 True sample_vm = Inl Assertion_failure \<and>
   (\<exists>s' tab'. free_supp_page True sample_tab 40 sample_vm = Inr (s', tab', 0) \<and> elems tab' = {} \<and> supp_pages s' = Map.empty)"
proof -
  have p: "pg_ok (paging sample_vm) (pagedir sample_vm)" using sample_paging_ok by (simp add: sample_vm_def)
  have n: "80 \<notin> dom (supp_pages sample_vm)" "card (elems sample_tab) < 2 ^ 32 - 1"
    by (simp_all add: sample_vm_def sample_tab_ok(2))
  have va: "vaddr (the (supp_pages sample_vm 40)) = 0x8048000" "(supp_pages sample_vm)(40 := None) = Map.empty"
    by (simp_all add: sample_vm_def swap_page_def)
  note t = supp_page_table_map [OF sample_tab_ok(1) sample_page_args(2,1) n(2) _ n(1) p, where mo = True
    and garbage = "swap_page 0 0 0 False" and pd = "0xc0100000" and fr = 0 and w = True and fp = 0 and ofs = 0 and n = 0]
  have g: "get_supp_page sample_tab 0x8048000 sample_vm = Inr (Some 40)"
    using t va(1) sample_tab_ok(2) by simp
  moreover have "create_swapslot_page True 80 (swap_page 0 0 0 False) sample_tab 0x8048000 0xc0100000 0 True sample_vm =
      Inl Assertion_failure" using t g by simp
  moreover have "\<exists>s' tab'. free_supp_page True sample_tab 40 sample_vm = Inr (s', tab', 0) \<and> elems tab' = {} \<and>
      supp_pages s' = Map.empty"
    using t g va(2) sample_tab_ok(2) by fastforce
  ultimately show ?thesis by blast
qed

end
