(* ===== verification/Address_Spaces.thy ===== *)
theory Address_Spaces
  imports Pagedir
begin

text \<open>
  Several page directories in one memory. They share the page tables of kernel addresses and nothing
  else, so a change of one address space leaves the user pages of the others alone; and they
  are unaffected by what happens in pages outside the kernel pool.
\<close>

section \<open>Directories that share only kernel tables\<close>

definition dirs_ok :: "memory \<Rightarrow> u32 set \<Rightarrow> bool" where
  "dirs_ok m D \<longleftrightarrow> (\<forall>pd\<in>D. pd_ok m pd) \<and>
     (\<forall>pd\<in>D. \<forall>pd'\<in>D. \<forall>i<1024. entry (ram m) pd i \<noteq> 0 \<longrightarrow> table m pd i \<noteq> pd') \<and>
     (\<forall>pd\<in>D. \<forall>pd'\<in>D. \<forall>i<1024. \<forall>j<1024. entry (ram m) pd i \<noteq> 0 \<longrightarrow> entry (ram m) pd' j \<noteq> 0 \<longrightarrow>
        table m pd i = table m pd' j \<longrightarrow> i = j \<and> (pd = pd' \<or> 768 \<le> i))"

lemma dirs_okD:
  assumes "dirs_ok m D" "pd \<in> D" "pd' \<in> D"
  shows "pd_ok m pd" "i < 1024 \<Longrightarrow> entry (ram m) pd i \<noteq> 0 \<Longrightarrow> table m pd i \<noteq> pd'"
    and "i < 1024 \<Longrightarrow> j < 1024 \<Longrightarrow> entry (ram m) pd i \<noteq> 0 \<Longrightarrow> entry (ram m) pd' j \<noteq> 0 \<Longrightarrow>
      table m pd i = table m pd' j \<Longrightarrow> i = j \<and> (pd = pd' \<or> 768 \<le> i)"
  using assms unfolding dirs_ok_def by blast+

lemma dirs_ok_cong:
  assumes ok: "dirs_ok m D" and m': "\<And>q. q \<in> D \<Longrightarrow> pd_ok m' q"
    "\<And>q j. q \<in> D \<Longrightarrow> j < 1024 \<Longrightarrow> entry (ram m') q j = entry (ram m) q j"
    "\<And>q j. q \<in> D \<Longrightarrow> j < 1024 \<Longrightarrow> table m' q j = table m q j"
  shows "dirs_ok m' D"
  unfolding dirs_ok_def
proof (intro conjI ballI allI impI)
  fix pd pd' i assume "pd \<in> D" "pd' \<in> D" "i < 1024" "entry (ram m') pd i \<noteq> 0"
  then show "table m' pd i \<noteq> pd'" using dirs_okD(2) [OF ok] m' by simp
next
  fix pd pd' i j assume a: "pd \<in> D" "pd' \<in> D" "i < 1024" "j < 1024" "entry (ram m') pd i \<noteq> 0" "entry (ram m') pd' j \<noteq> 0"
    "table m' pd i = table m' pd' j"
  then have "i = j \<and> (pd = pd' \<or> 768 \<le> i)" using m' by (intro dirs_okD(3) [OF ok a(1,2)]) simp_all
  then show "i = j" "pd = pd' \<or> 768 \<le> i" by blast+
qed (use m'(1) in simp)

lemma set_pte_dirs:
  assumes ok: "dirs_ok m D" and pd: "pd \<in> D" and v: "v < 1048576" "has_table m pd v" and w: "bit w 0 \<longrightarrow> entry_ok w"
  shows "dirs_ok (set_pte m pd v w) D"
    and "pd' \<in> D \<Longrightarrow> v' < 1048576 \<Longrightarrow> has_table (set_pte m pd v w) pd' v' = has_table m pd' v'"
    and "v' < 1048576 \<Longrightarrow> pte_at (set_pte m pd v w) pd v' = (if v' = v then w else pte_at m pd v')"
    and "pd' \<in> D \<Longrightarrow> pd' \<noteq> pd \<Longrightarrow> v' < 1048576 \<Longrightarrow> v' \<noteq> v \<or> v < 786432 \<Longrightarrow>
      pte_at (set_pte m pd v w) pd' v' = pte_at m pd' v'"
    and "pd' \<in> D \<Longrightarrow> v' < 1048576 \<Longrightarrow> pte_at (set_pte m pd v w) pd' v' \<in> {w, pte_at m pd' v'}"
proof -
  let ?i = "v div 1024" and ?k = "v mod 1024" and ?m = "set_pte m pd v w"
  have i: "?i < 1024" "?k < 1024" "entry (ram m) pd ?i \<noteq> 0" using v by (simp_all add: has_table_def)
  note ok1 = dirs_okD(1) [OF ok pd pd]
  have t: "pg_ofs (table m pd ?i) = 0" using pd_okD(6) [OF ok1 i(1,3)] by simp
  have s: "j < 1024 \<Longrightarrow> entry (ram ?m) q j = entry (ram m) q j" "j < 1024 \<Longrightarrow> table ?m q j = table m q j"
    "x < 1048576 \<Longrightarrow> has_table ?m q x = has_table m q x"
    "x < 1048576 \<Longrightarrow> pte_at ?m q x =
      (if has_table m q x \<and> table m q (x div 1024) = table m pd ?i \<and> x mod 1024 = ?k then w else pte_at m q x)"
    "pd_ok ?m q" if q: "q \<in> D" for q j x
    using set_entry_pd_ok [OF dirs_okD(1) [OF ok q q] t dirs_okD(2) [OF ok pd q i(1,3)] i(2) w, folded set_pte_def] by blast+
  show "dirs_ok ?m D"
    by (rule dirs_ok_cong [OF ok]) (use s in simp_all)
  show "pd' \<in> D \<Longrightarrow> v' < 1048576 \<Longrightarrow> has_table ?m pd' v' = has_table m pd' v'" by (rule s(3))
  show "v' < 1048576 \<Longrightarrow> pte_at ?m pd v' = (if v' = v then w else pte_at m pd v')" by (rule set_pte_ok(2) [OF ok1 v w])
  show "pd' \<in> D \<Longrightarrow> v' < 1048576 \<Longrightarrow> pte_at ?m pd' v' \<in> {w, pte_at m pd' v'}" using s(4) by auto
  show "pte_at ?m pd' v' = pte_at m pd' v'" if p: "pd' \<in> D" "pd' \<noteq> pd" "v' < 1048576" "v' \<noteq> v \<or> v < 786432"
  proof -
    have "\<not> (has_table m pd' v' \<and> table m pd' (v' div 1024) = table m pd ?i \<and> v' mod 1024 = ?k)"
    proof
      assume a: "has_table m pd' v' \<and> table m pd' (v' div 1024) = table m pd ?i \<and> v' mod 1024 = ?k"
      then have "?i = v' div 1024 \<and> (pd = pd' \<or> 768 \<le> ?i)"
        using p(3) by (intro dirs_okD(3) [OF ok pd p(1) i(1) _ i(3)]) (simp_all add: has_table_def)
      then have e: "v' div 1024 = ?i \<and> 768 \<le> ?i" using p(2) by argo
      then have "v' = v" using a by (metis mult_div_mod_eq)
      then show False using p(4) e by simp
    qed
    then show ?thesis unfolding s(4) [OF p(1,3)] by (rule if_not_P)
  qed
qed

section \<open>Pages outside the kernel pool\<close>

lemma entry_bytes:
  assumes "pg_ofs q = 0" "k < 1024" "load_bytes r q 4096 = load_bytes r' q 4096"
  shows "entry r q k = entry r' q k"
proof -
  have b: "r (q + of_nat i) = r' (q + of_nat i)" if "i < 4096" for i
    using that assms(3) by (auto simp: load_bytes_def map_eq_conv)
  have "r (q + 4 * of_nat k + of_nat i) = r' (q + 4 * of_nat k + of_nat i)" if "i < 4" for i
    using b [of "4 * k + i"] assms(2) that by (simp add: add.assoc)
  then show ?thesis unfolding entry_def load32_def using load_bytes_cong [of 4 r "q + 4 * of_nat k" r'] by simp
qed

text \<open>Another memory in which the kernel's pages are in use and have their contents.\<close>

definition kernel_same :: "memory \<Rightarrow> memory \<Rightarrow> bool" where
  "kernel_same m m' \<longleftrightarrow> mem_inv m' \<and> kernel_pool m' = kernel_pool m \<and> init_ram_pages m' = init_ram_pages m \<and>
     (\<forall>q\<in>kpages m. load_bytes (ram m') q 4096 = load_bytes (ram m) q 4096)"

lemma kernel_same_pd:
  assumes ok: "pd_ok m pd" and k: "kernel_same m m'"
  shows "j < 1024 \<Longrightarrow> entry (ram m') pd j = entry (ram m) pd j"
    and "j < 1024 \<Longrightarrow> table m' pd j = table m pd j"
    and "v < 1048576 \<Longrightarrow> has_table m' pd v = has_table m pd v"
    and "v < 1048576 \<Longrightarrow> pte_at m' pd v = pte_at m pd v"
    and "pd_ok m' pd"
proof -
  have kp: "kpages m' = kpages m" using k by (simp add: kpages_def kernel_same_def)
  have e: "entry (ram m') q j = entry (ram m) q j" if "q \<in> kpages m" "j < 1024" for q j
    by (rule entry_bytes [OF kpages_ok(1) [OF pd_okD(1) [OF ok] that(1)] that(2)])
      (use k that(1) in \<open>unfold kernel_same_def, blast\<close>)
  have pde: "entry (ram m') pd j = entry (ram m) pd j" if "j < 1024" for j using e [OF pd_okD(5) [OF ok] that] .
  then show "j < 1024 \<Longrightarrow> entry (ram m') pd j = entry (ram m) pd j" .
  have tb: "table m' pd j = table m pd j" if "j < 1024" for j using pde [OF that] by (simp add: table_def)
  then show "j < 1024 \<Longrightarrow> table m' pd j = table m pd j" .
  have ht: "has_table m' pd v = has_table m pd v" if "v < 1048576" for v
    using pde [of "v div 1024"] that by (simp add: has_table_def)
  then show "v < 1048576 \<Longrightarrow> has_table m' pd v = has_table m pd v" .
  have pt: "pte_at m' pd v = pte_at m pd v" if v: "v < 1048576" for v
  proof (cases "has_table m pd v")
    case True
    then have "table m pd (v div 1024) \<in> kpages m" using pd_okD(6) [OF ok, of "v div 1024"] v by (simp add: has_table_def)
    then show ?thesis using e [of "table m pd (v div 1024)" "v mod 1024"] tb [of "v div 1024"] ht [OF v] v by (simp add: pte_at_def)
  qed (use ht [OF v] in \<open>simp add: pte_at_def\<close>)
  then show "v < 1048576 \<Longrightarrow> pte_at m' pd v = pte_at m pd v" .
  show "pd_ok m' pd"
    unfolding pd_ok_def
  proof (intro conjI allI impI)
    show "mem_inv m'" using k by (simp add: kernel_same_def)
    show "pd \<in> kpages m'" using pd_okD(5) [OF ok] kp by simp
    fix j assume j: "j < 1024" "entry (ram m') pd j \<noteq> 0"
    then have "entry (ram m) pd j \<noteq> 0" using pde by simp
    then show "entry_ok (entry (ram m') pd j)" "table m' pd j \<in> kpages m'" "table m' pd j \<noteq> pd"
      using pd_okD(6) [OF ok j(1)] pde [OF j(1)] tb [OF j(1)] kp by simp_all
  next
    fix i j assume "i < 1024" "j < 1024" "entry (ram m') pd i \<noteq> 0" "entry (ram m') pd j \<noteq> 0" "table m' pd i = table m' pd j"
    then show "i = j" using pd_okD(7) [OF ok, of i j] pde tb by simp
  next
    fix v assume "v < 1048576" "bit (pte_at m' pd v) 0"
    then show "entry_ok (pte_at m' pd v)" using pt pd_okD(8) [OF ok] by simp
  qed
qed

lemma kernel_same_dirs:
  assumes "dirs_ok m D" "kernel_same m m'"
  shows "dirs_ok m' D"
  by (rule dirs_ok_cong [OF assms(1)]) (use kernel_same_pd [OF dirs_okD(1) [OF assms(1)] assms(2)] in simp_all)

lemma kernel_same_trans: "kernel_same m m' \<Longrightarrow> kernel_same m' m'' \<Longrightarrow> kernel_same m m''"
  by (simp add: kernel_same_def kpages_def)

text \<open>What the page allocator does in the user pool, and a store into a user page.\<close>

lemma user_page_apart:
  assumes "mem_inv m" "i < pool_slots (user_pool m)" "q \<in> kpages m"
  shows "q \<noteq> page_addr (user_pool m) i"
proof -
  obtain j where j: "j < pool_slots (kernel_pool m)" "q = page_addr (kernel_pool m) j"
    using assms(3) by (auto simp: kpages_def pool_used_def)
  have "unat q < unat (page_addr (user_pool m) i)"
    using unat_page_addr [of "kernel_pool m" j] unat_page_addr [of "user_pool m" i] assms(1,2) j by (simp add: mem_inv_def)
  then show ?thesis by auto
qed

lemma kernel_same_store:
  assumes m: "mem_inv m" and i: "i < pool_slots (user_pool m)" and bs: "length bs = 4096"
    and p: "pool_ok p" "pool_slots p = pool_slots (user_pool m)" "base p = base (user_pool m)"
  shows "kernel_same m (m\<lparr>ram := store_bytes (ram m) (page_addr (user_pool m) i) bs, user_pool := p\<rparr>)"
    and "kernel_same m (m\<lparr>user_pool := p\<rparr>)"
proof -
  have a: "pg_ofs (page_addr (user_pool m) i) = 0" using page_addr_ok(1) [OF _ i] m by (simp add: mem_inv_def)
  have "load_bytes (store_bytes (ram m) (page_addr (user_pool m) i) bs) q 4096 = load_bytes (ram m) q 4096" if "q \<in> kpages m" for q
    using page_store_apart [OF a kpages_ok(1) [OF m that] _ bs] user_page_apart [OF m i that] by metis
  then show "kernel_same m (m\<lparr>ram := store_bytes (ram m) (page_addr (user_pool m) i) bs, user_pool := p\<rparr>)"
    "kernel_same m (m\<lparr>user_pool := p\<rparr>)"
    using m p by (simp_all add: kernel_same_def mem_inv_def)
qed

end
