(* ===== verification/Frame_Table.thy ===== *)
theory Frame_Table
  imports Virtual_Memory Address_Spaces
begin

text \<open>
  Choosing a victim (\<open>frame_choose_victim\<close> of \<^verbatim>\<open>vm/frame.c\<close>): the loop over the frame table with a second
  chance for frames that have been used. It ends within two rounds if some frame is neither
  pinned nor being evicted, and otherwise never.
\<close>

section \<open>Clearing an accessed bit\<close>

lemma set_accessed_dirs:
  assumes ok: "dirs_ok (mem pg) D" "pdbr pg < PHYS_BASE" and pd: "pd \<in> D"
  obtains pg' where "pagedir_set_accessed pd va False pg = Inr pg'" "dirs_ok (mem pg') D" "pdbr pg' = pdbr pg"
    "\<not> bit (pte_at (mem pg') pd (vpn va)) 5"
    "\<And>q v. q \<in> D \<Longrightarrow> v < 1048576 \<Longrightarrow> bit (pte_at (mem pg') q v) 5 \<Longrightarrow> bit (pte_at (mem pg) q v) 5"
    "\<And>q v. q \<in> D \<Longrightarrow> v < 1048576 \<Longrightarrow> v \<noteq> vpn va \<or> q \<noteq> pd \<and> vpn va < 786432 \<Longrightarrow>
      pte_at (mem pg') q v = pte_at (mem pg) q v"
proof -
  note pdo = dirs_okD(1) [OF ok(1) pd pd]
  obtain a where a: "lookup_page pd va False (mem pg) = Inr (mem pg, a)" "a = 0 \<longleftrightarrow> \<not> has_table (mem pg) pd (vpn va)"
    "a \<noteq> 0 \<Longrightarrow> load32 (ram (mem pg)) a = pte_at (mem pg) pd (vpn va)"
    "\<And>w. a \<noteq> 0 \<Longrightarrow> (mem pg)\<lparr>ram := store32 (ram (mem pg)) a w\<rparr> = set_pte (mem pg) pd (vpn va) w"
    using lookup_page_False [OF pdo] by blast
  have v: "vpn va < 1048576" by (rule vpn_split)
  show thesis
  proof (cases "a = 0")
    case True
    then have "pagedir_set_accessed pd va False pg = Inr pg" using a(1) by (simp add: pagedir_set_accessed_def)
    moreover have "\<not> bit (pte_at (mem pg) pd (vpn va)) 5" using True a(2) by (simp add: pte_at_def)
    ultimately show thesis using that [of pg] ok by blast
  next
    case False
    let ?w = "pte_at (mem pg) pd (vpn va) AND NOT PTE_A"
    let ?m = "set_pte (mem pg) pd (vpn va) ?w"
    have h: "has_table (mem pg) pd (vpn va)" using False a(2) by simp
    have w: "bit ?w 0 \<longrightarrow> entry_ok ?w"
      using pd_okD(8) [OF pdo v] by (auto simp: entry_ok_def flag_update bit_and_iff)
    note s = set_pte_dirs [OF ok(1) pd v h w]
    have "invalidate_pagedir pd (pg\<lparr>mem := ?m\<rparr>) = Inr (pg\<lparr>mem := ?m\<rparr>)"
      using invalidate_same [of "pg\<lparr>mem := ?m\<rparr>" pd] ok(2) pd_okD(4) [OF pdo] by simp
    then have run: "pagedir_set_accessed pd va False pg = Inr (pg\<lparr>mem := ?m\<rparr>)"
      using a(1) a(3,4) [OF False] False by (simp add: pagedir_set_accessed_def)
    have nb: "\<not> bit ?w 5" by (simp add: bit_and_iff bit_not_iff)
    show thesis
    proof (rule that [OF run])
      show "dirs_ok (mem (pg\<lparr>mem := ?m\<rparr>)) D" using s(1) by simp
      show "\<not> bit (pte_at (mem (pg\<lparr>mem := ?m\<rparr>)) pd (vpn va)) 5" using s(3) [OF v] nb by simp
      fix q and u :: nat assume q: "q \<in> D" "u < 1048576"
      show "bit (pte_at (mem pg) q u) 5" if "bit (pte_at (mem (pg\<lparr>mem := ?m\<rparr>)) q u) 5"
        using s(5) [OF q] that nb by auto
      show "pte_at (mem (pg\<lparr>mem := ?m\<rparr>)) q u = pte_at (mem pg) q u" if "u \<noteq> vpn va \<or> q \<noteq> pd \<and> vpn va < 786432"
      proof (cases "q = pd")
        case True
        then show ?thesis using s(3) [OF q(2)] that by auto
      next
        case False
        then show ?thesis using s(4) [OF q(1) False q(2)] that by auto
      qed
    qed simp
  qed
qed

section \<open>The frame table\<close>

definition frf :: "('d, 'f) vm \<Rightarrow> addr \<Rightarrow> frame" where
  "frf s f = the (frames s f)"

definition spf :: "('d, 'f) vm \<Rightarrow> addr \<Rightarrow> supp_page" where
  "spf s f = the (supp_pages s (fr_page (frf s f)))"

text \<open>A frame has been accessed, through its kernel address or its user address.\<close>

definition acc :: "('d, 'f) vm \<Rightarrow> addr \<Rightarrow> bool" where
  "acc s f \<longleftrightarrow> bit (pte_at (mem (paging s)) (sp_pd (spf s f)) (vpn (phys_addr (frf s f)))) 5 \<or>
     bit (pte_at (mem (paging s)) (sp_pd (spf s f)) (vpn (vaddr (spf s f)))) 5"

definition fixed :: "('d, 'f) vm \<Rightarrow> addr \<Rightarrow> bool" where
  "fixed s f \<longleftrightarrow> evicting (frf s f) \<or> pinned (frf s f) \<noteq> 0"

definition frames_ok :: "('d, 'f) vm \<Rightarrow> u32 set \<Rightarrow> bool" where
  "frames_ok s D \<longleftrightarrow> dirs_ok (mem (paging s)) D \<and> pdbr (paging s) < PHYS_BASE \<and> distinct (frame_table s) \<and>
     (\<forall>f\<in>set (frame_table s). frames s f \<noteq> None \<and> supp_pages s (fr_page (frf s f)) \<noteq> None \<and> sp_pd (spf s f) \<in> D \<and>
        786432 \<le> vpn (phys_addr (frf s f)) \<and> vpn (vaddr (spf s f)) < 786432) \<and>
     (\<forall>f\<in>set (frame_table s). \<forall>g\<in>set (frame_table s). f \<noteq> g \<longrightarrow>
        vpn (phys_addr (frf s f)) \<noteq> vpn (phys_addr (frf s g)) \<and>
        (sp_pd (spf s f) \<noteq> sp_pd (spf s g) \<or> vpn (vaddr (spf s f)) \<noteq> vpn (vaddr (spf s g))))"

lemma frames_simps [simp]:
  "frf (s\<lparr>paging := pg\<rparr>) = frf s" "frf (s\<lparr>frame_table := t\<rparr>) = frf s"
  "spf (s\<lparr>paging := pg\<rparr>) = spf s" "spf (s\<lparr>frame_table := t\<rparr>) = spf s"
  "fixed (s\<lparr>paging := pg\<rparr>) = fixed s" "fixed (s\<lparr>frame_table := t\<rparr>) = fixed s" "acc (s\<lparr>frame_table := t\<rparr>) = acc s"
  by (simp_all add: fun_eq_iff frf_def spf_def fixed_def acc_def)

lemma frames_okD:
  assumes "frames_ok s D" "f \<in> set (frame_table s)"
  shows "frm f s = Inr (frf s f)" "spg (fr_page (frf s f)) s = Inr (spf s f)" "sp_pd (spf s f) \<in> D"
    "786432 \<le> vpn (phys_addr (frf s f))" "vpn (vaddr (spf s f)) < 786432"
    "dirs_ok (mem (paging s)) D" "pdbr (paging s) < PHYS_BASE" "distinct (frame_table s)"
    and "g \<in> set (frame_table s) \<Longrightarrow> f \<noteq> g \<Longrightarrow> vpn (phys_addr (frf s f)) \<noteq> vpn (phys_addr (frf s g))"
    and "g \<in> set (frame_table s) \<Longrightarrow> f \<noteq> g \<Longrightarrow>
      sp_pd (spf s f) \<noteq> sp_pd (spf s g) \<or> vpn (vaddr (spf s f)) \<noteq> vpn (vaddr (spf s g))"
  using assms by (auto simp: frames_ok_def frm_def spg_def frf_def spf_def)

lemma frames_ok_paging:
  assumes "frames_ok s D" "dirs_ok (mem pg) D" "pdbr pg = pdbr (paging s)" "set t = set (frame_table s)" "distinct t"
  shows "frames_ok (s\<lparr>paging := pg, frame_table := t\<rparr>) D"
  using assms by (simp add: frames_ok_def)

text \<open>One turn of the loop.\<close>

lemma victim_turn:
  assumes ok: "frames_ok s D" and t: "frame_table s = f # rest"
  shows "\<not> acc s f \<Longrightarrow> \<not> fixed s f \<Longrightarrow> frame_choose_victim (Suc n) s = Inr (s\<lparr>frame_table := rest\<rparr>, f)"
    and "acc s f \<or> fixed s f \<Longrightarrow> \<exists>pg. frame_choose_victim (Suc n) s =
        frame_choose_victim n (s\<lparr>paging := pg, frame_table := rest @ [f]\<rparr>) \<and>
      frames_ok (s\<lparr>paging := pg, frame_table := rest @ [f]\<rparr>) D \<and>
      (\<forall>g\<in>set (frame_table s). acc (s\<lparr>paging := pg, frame_table := rest @ [f]\<rparr>) g \<longleftrightarrow> g \<noteq> f \<and> acc s g)"
proof -
  have f: "f \<in> set (frame_table s)" using t by simp
  note F = frames_okD [OF ok f]
  let ?pd = "sp_pd (spf s f)" and ?s = "s\<lparr>frame_table := rest\<rparr>"
  note pdo = dirs_okD(1) [OF F(6) F(3) F(3)]
  have pg: "pg_ok (paging s) ?pd" using pdo F(7) by (simp add: pg_ok_def)
  note flag = pagedir_is_flag(2) [OF pg]
  have look: "frm f ?s = Inr (frf s f)" "spg (fr_page (frf s f)) ?s = Inr (spf s f)"
    using F(1,2) by (simp_all add: frm_def spg_def)
  have run: "frame_choose_victim (Suc n) s =
      (if acc s f \<or> fixed s f then
         bindR (with_paging (pagedir_set_accessed ?pd (phys_addr (frf s f)) False) ?s) (\<lambda>s1.
         bindR (with_paging (pagedir_set_accessed ?pd (vaddr (spf s f)) False) s1) (\<lambda>s2.
         frame_choose_victim n (s2\<lparr>frame_table := frame_table s2 @ [f]\<rparr>)))
       else Inr (?s, f))"
    using look flag unfolding frame_choose_victim.simps t list.case Let_def
    by (auto simp: acc_def fixed_def)
  show "frame_choose_victim (Suc n) s = Inr (?s, f)" if "\<not> acc s f" "\<not> fixed s f" using run that by simp
  assume a: "acc s f \<or> fixed s f"
  obtain p1 where p1: "pagedir_set_accessed ?pd (phys_addr (frf s f)) False (paging s) = Inr p1" "dirs_ok (mem p1) D"
    "pdbr p1 = pdbr (paging s)" "\<not> bit (pte_at (mem p1) ?pd (vpn (phys_addr (frf s f)))) 5"
    "\<And>q v. q \<in> D \<Longrightarrow> v < 1048576 \<Longrightarrow> bit (pte_at (mem p1) q v) 5 \<Longrightarrow> bit (pte_at (mem (paging s)) q v) 5"
    "\<And>q v. q \<in> D \<Longrightarrow> v < 1048576 \<Longrightarrow> v \<noteq> vpn (phys_addr (frf s f)) \<or> q \<noteq> ?pd \<and> vpn (phys_addr (frf s f)) < 786432 \<Longrightarrow>
      pte_at (mem p1) q v = pte_at (mem (paging s)) q v"
    using set_accessed_dirs [OF F(6,7,3)] by blast
  obtain p2 where p2: "pagedir_set_accessed ?pd (vaddr (spf s f)) False p1 = Inr p2" "dirs_ok (mem p2) D"
    "pdbr p2 = pdbr p1" "\<not> bit (pte_at (mem p2) ?pd (vpn (vaddr (spf s f)))) 5"
    "\<And>q v. q \<in> D \<Longrightarrow> v < 1048576 \<Longrightarrow> bit (pte_at (mem p2) q v) 5 \<Longrightarrow> bit (pte_at (mem p1) q v) 5"
    "\<And>q v. q \<in> D \<Longrightarrow> v < 1048576 \<Longrightarrow> v \<noteq> vpn (vaddr (spf s f)) \<or> q \<noteq> ?pd \<and> vpn (vaddr (spf s f)) < 786432 \<Longrightarrow>
      pte_at (mem p2) q v = pte_at (mem p1) q v"
    using set_accessed_dirs [OF p1(2) _ F(3), of "vaddr (spf s f)"] p1(3) F(7) by metis
  let ?s' = "s\<lparr>paging := p2, frame_table := rest @ [f]\<rparr>"
  have "frame_choose_victim (Suc n) s = frame_choose_victim n ?s'"
    using run a p1(1) p2(1) by (simp add: with_paging_def)
  moreover have "frames_ok ?s' D" using frames_ok_paging [OF ok p2(2)] p1(3) p2(3) t F(8) by auto
  moreover have "acc ?s' g \<longleftrightarrow> g \<noteq> f \<and> acc s g" if g: "g \<in> set (frame_table s)" for g
  proof (cases "g = f")
    case True
    have ne: "vpn (phys_addr (frf s f)) \<noteq> vpn (vaddr (spf s f))" using F(4,5) by simp
    have "pte_at (mem p2) ?pd (vpn (phys_addr (frf s f))) = pte_at (mem p1) ?pd (vpn (phys_addr (frf s f)))"
      using p2(6) [OF F(3) vpn_split(3)] ne by blast
    then show ?thesis using True p1(4) p2(4) by (simp add: acc_def)
  next
    case False
    note G = frames_okD [OF ok g]
    have n: "vpn (phys_addr (frf s g)) \<noteq> vpn (phys_addr (frf s f))" "vpn (phys_addr (frf s g)) \<noteq> vpn (vaddr (spf s f))"
      "vpn (vaddr (spf s g)) \<noteq> vpn (phys_addr (frf s f))"
      using F(9) [OF g] F(4,5) G(4,5) False by auto
    have m: "sp_pd (spf s g) \<noteq> ?pd \<and> vpn (vaddr (spf s f)) < 786432 \<or> vpn (vaddr (spf s g)) \<noteq> vpn (vaddr (spf s f))"
      using F(10) [OF g] F(5) False by auto
    have "pte_at (mem p2) (sp_pd (spf s g)) (vpn (phys_addr (frf s g))) = pte_at (mem (paging s)) (sp_pd (spf s g)) (vpn (phys_addr (frf s g)))"
      using p2(6) [OF G(3) vpn_split(3)] p1(6) [OF G(3) vpn_split(3)] n by metis
    moreover have "pte_at (mem p2) (sp_pd (spf s g)) (vpn (vaddr (spf s g))) = pte_at (mem (paging s)) (sp_pd (spf s g)) (vpn (vaddr (spf s g)))"
      using p2(6) [OF G(3) vpn_split(3)] p1(6) [OF G(3) vpn_split(3)] n m by metis
    ultimately show ?thesis using False by (simp add: acc_def)
  qed
  ultimately show "\<exists>pg. frame_choose_victim (Suc n) s = frame_choose_victim n (s\<lparr>paging := pg, frame_table := rest @ [f]\<rparr>) \<and>
      frames_ok (s\<lparr>paging := pg, frame_table := rest @ [f]\<rparr>) D \<and>
      (\<forall>g\<in>set (frame_table s). acc (s\<lparr>paging := pg, frame_table := rest @ [f]\<rparr>) g \<longleftrightarrow> g \<noteq> f \<and> acc s g)" by blast
qed

text \<open>Any number of turns that find no victim.\<close>

lemma victim_run:
  assumes "frames_ok s D" "frame_table s = us @ ws" "\<forall>f\<in>set us. acc s f \<or> fixed s f"
  shows "\<exists>pg. frame_choose_victim (length us + n) s = frame_choose_victim n (s\<lparr>paging := pg, frame_table := ws @ us\<rparr>) \<and>
    frames_ok (s\<lparr>paging := pg, frame_table := ws @ us\<rparr>) D \<and>
    (\<forall>g\<in>set (us @ ws). acc (s\<lparr>paging := pg, frame_table := ws @ us\<rparr>) g \<longleftrightarrow> g \<notin> set us \<and> acc s g)"
  using assms
proof (induction us arbitrary: s ws)
  case Nil
  then show ?case by (intro exI [of _ "paging s"]) auto
next
  case (Cons f us)
  have t: "frame_table s = f # (us @ ws)" using Cons.prems(2) by simp
  have dist: "distinct (f # us @ ws)" using frames_okD(8) [OF Cons.prems(1), of f] t by simp
  have a: "acc s f \<or> fixed s f" using Cons.prems(3) by simp
  obtain p1 where p1: "frame_choose_victim (Suc (length us + n)) s =
        frame_choose_victim (length us + n) (s\<lparr>paging := p1, frame_table := (us @ ws) @ [f]\<rparr>)"
      "frames_ok (s\<lparr>paging := p1, frame_table := (us @ ws) @ [f]\<rparr>) D"
      "\<forall>g\<in>set (frame_table s). acc (s\<lparr>paging := p1, frame_table := (us @ ws) @ [f]\<rparr>) g \<longleftrightarrow> g \<noteq> f \<and> acc s g"
    using victim_turn(2) [OF Cons.prems(1) t a] by blast
  let ?s = "s\<lparr>paging := p1, frame_table := us @ ws @ [f]\<rparr>"
  have ok: "frames_ok ?s D" and acc1: "\<forall>g\<in>set (frame_table s). acc ?s g \<longleftrightarrow> g \<noteq> f \<and> acc s g" using p1(2,3) by simp_all
  have us: "\<forall>g\<in>set us. acc ?s g \<or> fixed ?s g" using acc1 Cons.prems(3) dist t by auto
  obtain p2 where p2: "frame_choose_victim (length us + n) ?s = frame_choose_victim n (?s\<lparr>paging := p2, frame_table := (ws @ [f]) @ us\<rparr>)"
      "frames_ok (?s\<lparr>paging := p2, frame_table := (ws @ [f]) @ us\<rparr>) D"
      "\<forall>g\<in>set (us @ ws @ [f]). acc (?s\<lparr>paging := p2, frame_table := (ws @ [f]) @ us\<rparr>) g \<longleftrightarrow> g \<notin> set us \<and> acc ?s g"
    using Cons.IH [OF ok _ us, of "ws @ [f]"] by auto
  have eq: "?s\<lparr>paging := p2, frame_table := (ws @ [f]) @ us\<rparr> = s\<lparr>paging := p2, frame_table := ws @ f # us\<rparr>" by simp
  have "\<forall>g\<in>set ((f # us) @ ws). acc (s\<lparr>paging := p2, frame_table := ws @ f # us\<rparr>) g \<longleftrightarrow> g \<notin> set (f # us) \<and> acc s g"
    using p2(3) acc1 t unfolding eq by auto
  then show ?case using p1(1) p2(1,2) unfolding eq by (intro exI [of _ p2]) simp
qed

section \<open>Properties\<close>

text \<open>
  C8. The second chance. If some frame is neither pinned nor being evicted, \<open>frame_choose_victim\<close>
  returns within two rounds of the table: the first such frame that has not been accessed, and if all
  of them have been, the first of them. It takes the victim out of the table and moves the frames
  before it to the end. If every frame is pinned or being evicted it goes round for ever, and on an empty
  table it fails an assertion.
\<close>

theorem frame_choose_victim_second_chance:
  assumes ok: "frames_ok s D"
  shows "(frame_table s = [] \<longrightarrow> frame_choose_victim (Suc fuel) s = Inl Assertion_failure) \<and>
    (frame_table s \<noteq> [] \<and> (\<forall>f\<in>set (frame_table s). fixed s f) \<longrightarrow> frame_choose_victim fuel s = Inl Out_of_fuel) \<and>
    ((\<exists>f\<in>set (frame_table s). \<not> fixed s f) \<and> 2 * length (frame_table s) \<le> fuel \<longrightarrow>
      (\<exists>s' v us ws. frame_choose_victim fuel s = Inr (s', v) \<and> frame_table s = us @ v # ws \<and> frame_table s' = ws @ us \<and>
        \<not> fixed s v \<and> frames s' = frames s \<and> supp_pages s' = supp_pages s \<and> swapping s' = swapping s \<and>
        (if \<exists>f\<in>set (frame_table s). \<not> fixed s f \<and> \<not> acc s f
         then \<not> acc s v \<and> (\<forall>f\<in>set us. fixed s f \<or> acc s f) else (\<forall>f\<in>set us. fixed s f))))"
proof (intro conjI impI)
  show "frame_choose_victim (Suc fuel) s = Inl Assertion_failure" if "frame_table s = []" using that by simp
  show "frame_choose_victim fuel s = Inl Out_of_fuel" if "frame_table s \<noteq> [] \<and> (\<forall>f\<in>set (frame_table s). fixed s f)"
    using that ok
  proof (induction fuel arbitrary: s)
    case (Suc n)
    then obtain f rest where t: "frame_table s = f # rest" by (cases "frame_table s") auto
    have "acc s f \<or> fixed s f" using Suc.prems(1) t by simp
    then obtain pg where pg: "frame_choose_victim (Suc n) s = frame_choose_victim n (s\<lparr>paging := pg, frame_table := rest @ [f]\<rparr>)"
        "frames_ok (s\<lparr>paging := pg, frame_table := rest @ [f]\<rparr>) D"
      using victim_turn(2) [OF Suc.prems(2) t] by blast
    have "\<forall>g\<in>set (rest @ [f]). fixed s g" using Suc.prems(1) t by simp
    then show ?case using Suc.IH [OF _ pg(2)] pg(1) by simp
  qed simp
  assume a: "(\<exists>f\<in>set (frame_table s). \<not> fixed s f) \<and> 2 * length (frame_table s) \<le> fuel"
  have found: "\<exists>s' v us ws. frame_choose_victim fuel s = Inr (s', v) \<and> frame_table s = us @ v # ws \<and> frame_table s' = ws @ us \<and>
        \<not> fixed s v \<and> frames s' = frames s \<and> supp_pages s' = supp_pages s \<and> swapping s' = swapping s \<and> \<not> acc s v \<and>
        (\<forall>f\<in>set us. fixed s f \<or> acc s f)"
    if e: "\<exists>f\<in>set (frame_table s). \<not> fixed s f \<and> \<not> acc s f" and o: "frames_ok s D" and l: "length (frame_table s) \<le> fuel"
    for s :: "('a, 'b) vm" and fuel
  proof -
    obtain us v ws where t: "frame_table s = us @ v # ws" "\<not> fixed s v \<and> \<not> acc s v" "\<forall>f\<in>set us. \<not> (\<not> fixed s f \<and> \<not> acc s f)"
      using split_list_first_prop [OF e] by metis
    have "length us < fuel" using l t(1) by simp
    then obtain n where n: "fuel = length us + Suc n" by (auto simp: less_iff_Suc_add)
    obtain pg where pg: "frame_choose_victim (length us + Suc n) s = frame_choose_victim (Suc n) (s\<lparr>paging := pg, frame_table := (v # ws) @ us\<rparr>)"
      "frames_ok (s\<lparr>paging := pg, frame_table := (v # ws) @ us\<rparr>) D"
      "\<forall>g\<in>set (us @ v # ws). acc (s\<lparr>paging := pg, frame_table := (v # ws) @ us\<rparr>) g \<longleftrightarrow> g \<notin> set us \<and> acc s g"
      using victim_run [OF o t(1), of "Suc n"] t(3) by blast
    have "frame_choose_victim (Suc n) (s\<lparr>paging := pg, frame_table := (v # ws) @ us\<rparr>) =
        Inr (s\<lparr>paging := pg, frame_table := ws @ us\<rparr>, v)"
      using victim_turn(1) [OF pg(2), of v "ws @ us" n] pg(3) t(2) by simp
    then have "frame_choose_victim fuel s = Inr (s\<lparr>paging := pg, frame_table := ws @ us\<rparr>, v)" using n pg(1) by simp
    then show ?thesis using t by (intro exI [of _ "s\<lparr>paging := pg, frame_table := ws @ us\<rparr>"] exI [of _ v] exI [of _ us] exI [of _ ws]) auto
  qed
  show "\<exists>s' v us ws. frame_choose_victim fuel s = Inr (s', v) \<and> frame_table s = us @ v # ws \<and> frame_table s' = ws @ us \<and>
        \<not> fixed s v \<and> frames s' = frames s \<and> supp_pages s' = supp_pages s \<and> swapping s' = swapping s \<and>
        (if \<exists>f\<in>set (frame_table s). \<not> fixed s f \<and> \<not> acc s f
         then \<not> acc s v \<and> (\<forall>f\<in>set us. fixed s f \<or> acc s f) else (\<forall>f\<in>set us. fixed s f))"
  proof (cases "\<exists>f\<in>set (frame_table s). \<not> fixed s f \<and> \<not> acc s f")
    case True
    then show ?thesis using found [OF True ok, of fuel] a by auto
  next
    case False
    then have all: "\<forall>f\<in>set (frame_table s). acc s f \<or> fixed s f" by blast
    obtain n where n: "fuel = length (frame_table s) + n" "length (frame_table s) \<le> n" 
      using conjunct2 [OF a] by (intro that [of "fuel - length (frame_table s)"]) linarith+
    obtain pg where pg: "frame_choose_victim (length (frame_table s) + n) s = frame_choose_victim n (s\<lparr>paging := pg, frame_table := frame_table s\<rparr>)"
      "frames_ok (s\<lparr>paging := pg, frame_table := frame_table s\<rparr>) D"
      "\<forall>g\<in>set (frame_table s). \<not> acc (s\<lparr>paging := pg, frame_table := frame_table s\<rparr>) g"
      using victim_run [OF ok _ all, of "[]" n] by auto
    define s1 where "s1 = s\<lparr>paging := pg, frame_table := frame_table s\<rparr>"
    have s1: "frame_table s1 = frame_table s" "fixed s1 = fixed s" "frames s1 = frames s" "supp_pages s1 = supp_pages s"
      "swapping s1 = swapping s" by (simp_all add: s1_def)
    have "\<exists>f\<in>set (frame_table s1). \<not> fixed s1 f \<and> \<not> acc s1 f" using a pg(3) unfolding s1 s1_def [symmetric] by blast
    from found [OF this, of n] pg(2) n(2) obtain s' v us ws where r: "frame_choose_victim n s1 = Inr (s', v)" "frame_table s = us @ v # ws"
        "frame_table s' = ws @ us" "\<not> fixed s v" "frames s' = frames s" "supp_pages s' = supp_pages s" "swapping s' = swapping s"
        "\<forall>f\<in>set us. fixed s f \<or> acc s1 f"
      unfolding s1_def [symmetric] s1 by blast
    have us: "\<forall>f\<in>set us. fixed s f" using r(2,8) pg(3) unfolding s1_def [symmetric] by auto
    have "frame_choose_victim fuel s = Inr (s', v)" using n(1) pg(1) r(1) unfolding s1_def [symmetric] by simp
    then show ?thesis using False r(2-7) us by (intro exI [of _ s'] exI [of _ v] exI [of _ us] exI [of _ ws]) simp
  qed
qed


text \<open>Two frames of one process, the first of them pinned.\<close>

definition sample_frames :: "(unit, unit) vm" where
  "sample_frames = \<lparr>paging = sample_paging, swapping = undefined, files = (),
     supp_pages = [40 \<mapsto> \<lparr>sp_fr = 1, sp_pd = 0xc0100000, vaddr = 0x8048000, sp_type = swapslot, wr = True, fil = 0,
         sp_offset = 0, sp_bytes = 0, sp_swap = None\<rparr>,
       41 \<mapsto> \<lparr>sp_fr = 2, sp_pd = 0xc0100000, vaddr = 0x8049000, sp_type = swapslot, wr = True, fil = 0,
         sp_offset = 0, sp_bytes = 0, sp_swap = None\<rparr>],
     frames = [1 \<mapsto> \<lparr>phys_addr = 0xc0200000, fr_page = 40, pinned = 1, evicting = False\<rparr>,
       2 \<mapsto> \<lparr>phys_addr = 0xc0201000, fr_page = 41, pinned = 0, evicting = False\<rparr>],
     frame_table = [1, 2], frame_lock = True, pagedir = 0xc0100000, exec_file = 0\<rparr>"

lemma sample_frames_ok: "frames_ok sample_frames {0xc0100000}"
proof -
  have z: "entry (\<lambda>_. 0) p k = 0" for p k
    by (simp add: entry_def load32_def load_bytes_def le_word_def numeral_eq_Suc)
  have "dirs_ok (mem sample_paging) {0xc0100000}"
    using sample_paging_ok z by (simp add: dirs_ok_def pg_ok_def) (simp add: sample_paging_def)
  then show ?thesis
    by (simp add: frames_ok_def sample_frames_def frf_def spf_def vpn_def pg_no_def) (simp add: sample_paging_def PHYS_BASE_def)
qed

theorem frame_choose_victim_second_chance_witness:
  "\<exists>s'. frame_choose_victim 4 sample_frames = Inr (s', 2) \<and> frame_table s' = [1]"
proof -
  have t: "frame_table sample_frames = [1, 2]" "fixed sample_frames 1" "\<not> fixed sample_frames 2"
    by (simp_all add: sample_frames_def fixed_def frf_def)
  have "(\<exists>f\<in>set (frame_table sample_frames). \<not> fixed sample_frames f) \<and> 2 * length (frame_table sample_frames) \<le> 4"
    using t by simp
  from mp [OF conjunct2 [OF conjunct2 [OF frame_choose_victim_second_chance [OF sample_frames_ok, of 4]]] this]
  obtain s' v us ws where r: "frame_choose_victim 4 sample_frames = Inr (s', v)" "[1, 2] = us @ v # ws"
      "frame_table s' = ws @ us" "\<not> fixed sample_frames v" unfolding t(1) by (elim exE conjE)
  have "v \<noteq> 1" using r(4) t(2) by auto
  then have "v = 2 \<and> us = [1] \<and> ws = []" using r(2) by (cases us) (auto simp: Cons_eq_append_conv)
  then show ?thesis using r(1,3) by auto
qed


end
