(* ===== verification/Inode.thy ===== *)
theory Inode
  imports Cache_Properties Free_Map Memory Fixed_Point
begin

text \<open>
  \<^verbatim>\<open>filesys/inode.c\<close>, \<^verbatim>\<open>filesys/file.c\<close> and the part of \<^verbatim>\<open>filesys/free-map.c\<close> that keeps the free map in a
  file. An inode is a sector with 60 direct, 40 indirect and one doubly indirect sector number; all its
  sectors are read and written through the buffer cache. A pointer into the data of a cache block is
  the number of the block with the index of a word. \<open>off_t\<close> is a 32-bit signed number, kept as an
  \<open>int\<close>; \<open>block_sector_t\<close> is a 32-bit word.

  Allocating a sector writes the free map to its file, which is a write to an inode, which may
  allocate sectors. The functions of the inode layer therefore take the allocation as an argument
  \<open>alloc\<close> (and \<open>inode_close\<close> the release), and \<open>allocate_sector\<close> closes the circle; its first argument
  bounds the depth of the recursion. The free map's file is never extended, so a depth of 1 is enough.
\<close>

unbundle bit_operations_syntax

section \<open>State\<close>

definition INODE_MAGIC :: u32 where "INODE_MAGIC = 0x494e4f44"
definition NUM_DIRECT :: u32 where "NUM_DIRECT = 60"
definition NUM_SINGLE_INDIRECT :: u32 where "NUM_SINGLE_INDIRECT = 40"
definition ENTRIES_PER_SECTOR :: u32 where "ENTRIES_PER_SECTOR = 128"

definition CEIL :: "int \<Rightarrow> int \<Rightarrow> int" where
  "CEIL a b = a sdiv b + (if a smod b > 0 then 1 else 0)"

record inode =
  i_sector :: u32
  open_cnt :: int
  removed :: bool
  deny_write_cnt :: int
  extension_lock :: bool

record file_struct =
  f_inode :: addr
  f_pos :: int
  f_deny_write :: bool
  f_is_dir :: bool

record fsys =
  cache :: fs
  fmap :: free_map_state
  inodes :: "addr \<rightharpoonup> inode"
  open_inodes :: "addr list"
  open_files :: "addr \<rightharpoonup> file_struct"

text \<open>The words of a sector, and where \<open>struct inode_disk\<close> has its members.\<close>

definition get_word :: "u8 list \<Rightarrow> nat \<Rightarrow> u32" where
  "get_word d k = le_word (take 4 (drop (4 * k) d))"

definition overwrite :: "u8 list \<Rightarrow> nat \<Rightarrow> u8 list \<Rightarrow> u8 list" where
  "overwrite d k bs = take k d @ bs @ drop (k + length bs) d"

definition put_word :: "u8 list \<Rightarrow> nat \<Rightarrow> u32 \<Rightarrow> u8 list" where
  "put_word d k w = overwrite d (4 * k) (word_bytes w)"

definition SINGLE_AT :: nat where "SINGLE_AT = 60"
definition DOUBLE_AT :: nat where "DOUBLE_AT = 100"
definition LENGTH_AT :: nat where "LENGTH_AT = 101"
definition MAGIC_AT :: nat where "MAGIC_AT = 102"

definition disk_length :: "u8 list \<Rightarrow> int" where
  "disk_length d = sint (get_word d LENGTH_AT)"

definition is_valid_inode :: "u8 list \<Rightarrow> bool" where
  "is_valid_inode d \<longleftrightarrow> get_word d MAGIC_AT = INODE_MAGIC"

text \<open>Access through pointers.\<close>

definition bdata :: "nat \<Rightarrow> fs \<Rightarrow> u8 list" where
  "bdata c st = cdata (blk st c)"

definition ino :: "addr \<Rightarrow> fsys \<Rightarrow> inode res" where
  "ino a st = (case inodes st a of None \<Rightarrow> Inl Invalid_access | Some x \<Rightarrow> Inr x)"

definition set_ino :: "addr \<Rightarrow> inode \<Rightarrow> fsys \<Rightarrow> fsys" where
  "set_ino a x st = st\<lparr>inodes := (inodes st)(a \<mapsto> x)\<rparr>"

definition fil :: "addr \<Rightarrow> fsys \<Rightarrow> file_struct res" where
  "fil a st = (case open_files st a of None \<Rightarrow> Inl Invalid_access | Some x \<Rightarrow> Inr x)"

definition set_fil :: "addr \<Rightarrow> file_struct \<Rightarrow> fsys \<Rightarrow> fsys" where
  "set_fil a x st = st\<lparr>open_files := (open_files st)(a \<mapsto> x)\<rparr>"

definition with_cache :: "(fs \<Rightarrow> (fs \<times> 'a) res) \<Rightarrow> fsys \<Rightarrow> (fsys \<times> 'a) res" where
  "with_cache f st = bindR (f (cache st)) (\<lambda>(c, x). Inr (st\<lparr>cache := c\<rparr>, x))"

definition on_cache :: "(fs \<Rightarrow> fs) \<Rightarrow> fsys \<Rightarrow> fsys" where
  "on_cache f st = st\<lparr>cache := f (cache st)\<rparr>"

definition cell :: "nat \<Rightarrow> nat \<Rightarrow> fsys \<Rightarrow> u32" where
  "cell c k st = get_word (bdata c (cache st)) k"

definition set_cell :: "nat \<Rightarrow> nat \<Rightarrow> u32 \<Rightarrow> fsys \<Rightarrow> fsys" where
  "set_cell c k w st = on_cache (put_data c (put_word (bdata c (cache st)) k w)) st"

section \<open>Reading\<close>

text \<open>
  \<open>byte_to_sector\<close> keeps the blocks it passes locked for reading until it has the result. Its
  argument \<open>inode\<close> is only read.
\<close>

definition byte_to_sector :: "inode \<Rightarrow> int \<Rightarrow> fs \<Rightarrow> (fs \<times> u32) res" where
  "byte_to_sector inode pos st =
     (let blocks = word_of_int (pos sdiv 512) :: u32 in
     bindR (cache_read_block (i_sector inode) st) (\<lambda>(st, c).
     let data = bdata c st in
     if \<not> is_valid_inode data then Inl Kernel_panic
     else if blocks < NUM_DIRECT then Inr (cache_read_end c st, get_word data (unat blocks))
     else
       let blocks = blocks - NUM_DIRECT; single = blocks div ENTRIES_PER_SECTOR; blocks = blocks mod ENTRIES_PER_SECTOR in
       if single < NUM_SINGLE_INDIRECT then
         bindR (cache_read_block (get_word data (SINGLE_AT + unat single)) st) (\<lambda>(st, i).
         Inr (cache_read_end c (cache_read_end i st), get_word (bdata i st) (unat blocks)))
       else
         let single = single - NUM_SINGLE_INDIRECT in
         bindR (ASSERT (single < ENTRIES_PER_SECTOR)) (\<lambda>_.
         bindR (cache_read_block (get_word data DOUBLE_AT) st) (\<lambda>(st, i).
         bindR (cache_read_block (get_word (bdata i st) (unat single)) st) (\<lambda>(st, i2).
         Inr (cache_read_end c (cache_read_end i (cache_read_end i2 st)), get_word (bdata i2 st) (unat blocks)))))))"

definition inode_length :: "inode \<Rightarrow> fs \<Rightarrow> (fs \<times> int) res" where
  "inode_length inode st =
     bindR (cache_read_block (i_sector inode) st) (\<lambda>(st, c). Inr (cache_read_end c st, disk_length (bdata c st)))"

definition inode_set_length :: "inode \<Rightarrow> int \<Rightarrow> fs \<Rightarrow> (fs \<times> unit) res" where
  "inode_set_length inode len st =
     bindR (cache_write_block (i_sector inode) st) (\<lambda>(st, c).
     Inr (cache_write_end c (put_data c (put_word (bdata c st) LENGTH_AT (word_of_int len)) st), ()))"

text \<open>The bytes put into the caller's buffer, in order; each round reads at least one.\<close>

fun read_loop :: "nat \<Rightarrow> inode \<Rightarrow> int \<Rightarrow> int \<Rightarrow> fs \<Rightarrow> (fs \<times> u8 list) res" where
  "read_loop 0 inode sz offset st = Inl Out_of_fuel"
| "read_loop (Suc n) inode sz offset st =
     (if sz > 0 then
        bindR (byte_to_sector inode offset st) (\<lambda>(st, sector_idx).
        let sector_ofs = offset smod 512 in
        bindR (inode_length inode st) (\<lambda>(st, len).
        let inode_left = len - offset; sector_left = 512 - sector_ofs;
            min_left = (if inode_left < sector_left then inode_left else sector_left);
            chunk_size = (if sz < min_left then sz else min_left) in
        if chunk_size \<le> 0 then Inr (st, [])
        else if sector_ofs < 0 then Inl Invalid_access
        else
          bindR (cache_read_block sector_idx st) (\<lambda>(st, c).
          bindR (read_loop n inode (sz - chunk_size) (offset + chunk_size) (cache_read_end c st)) (\<lambda>(st', rest).
          Inr (st', take (nat chunk_size) (drop (nat sector_ofs) (bdata c st)) @ rest)))))
      else Inr (st, []))"

definition inode_read_at :: "inode \<Rightarrow> int \<Rightarrow> int \<Rightarrow> fs \<Rightarrow> (fs \<times> u8 list) res" where
  "inode_read_at inode sz offset st = read_loop (Suc (nat sz)) inode sz offset st"

section \<open>Growing\<close>

type_synonym alloc = "fsys \<Rightarrow> (fsys \<times> u32 option) res"

text \<open>\<open>block_clear\<close> goes to the device, past the cache.\<close>

definition clear_sector :: "u32 \<Rightarrow> fsys \<Rightarrow> fsys res" where
  "clear_sector s st = bindR (block_clear (fs_device (cache st)) s) (\<lambda>d. Inr (on_cache (\<lambda>c. c\<lparr>fs_device := d\<rparr>) st))"

definition grow_direct :: "alloc \<Rightarrow> nat \<Rightarrow> nat \<Rightarrow> fsys \<Rightarrow> (fsys \<times> bool) res" where
  "grow_direct alloc c k st =
     bindR (ASSERT (cell c k st = 0)) (\<lambda>_.
     bindR (alloc st) (\<lambda>(st, s). case s of
       None \<Rightarrow> Inr (st, False)
     | Some s \<Rightarrow> bindR (clear_sector s (set_cell c k s st)) (\<lambda>st. Inr (st, True))))"

definition grow_indirect :: "alloc \<Rightarrow> nat \<Rightarrow> nat \<Rightarrow> u32 \<Rightarrow> fsys \<Rightarrow> (fsys \<times> bool) res" where
  "grow_indirect alloc c k index st =
     bindR (if index = 0 then grow_direct alloc c k st else Inr (st, True)) (\<lambda>(st, ok).
     if \<not> ok then Inr (st, False)
     else
       bindR (with_cache (cache_write_block (cell c k st)) st) (\<lambda>(st, i).
       bindR (ASSERT (index < ENTRIES_PER_SECTOR)) (\<lambda>_.
       bindR (grow_direct alloc i (unat index) st) (\<lambda>(st, ok).
       if \<not> ok then Inr (st, False) else Inr (on_cache (cache_write_end i) st, True)))))"

definition grow_double_indirect :: "alloc \<Rightarrow> nat \<Rightarrow> nat \<Rightarrow> u32 \<Rightarrow> u32 \<Rightarrow> fsys \<Rightarrow> (fsys \<times> bool) res" where
  "grow_double_indirect alloc c k index1 index2 st =
     bindR (if index1 = 0 then grow_direct alloc c k st else Inr (st, True)) (\<lambda>(st, ok).
     if \<not> ok then Inr (st, False)
     else
       bindR (with_cache (cache_write_block (cell c k st)) st) (\<lambda>(st, i).
       bindR (ASSERT (index1 < ENTRIES_PER_SECTOR)) (\<lambda>_.
       bindR (grow_indirect alloc i (unat index1) index2 st) (\<lambda>(st, ok).
       if \<not> ok then Inr (st, False) else Inr (on_cache (cache_write_end i) st, True)))))"

text \<open>The body of the loop of \<open>inode_extend\<close> for block number \<open>blocks\<close>.\<close>

definition grow_block :: "alloc \<Rightarrow> nat \<Rightarrow> u32 \<Rightarrow> fsys \<Rightarrow> (fsys \<times> bool) res" where
  "grow_block alloc c blocks st =
     (if blocks < NUM_DIRECT then grow_direct alloc c (unat blocks) st
      else
        let blocks = blocks - NUM_DIRECT; single = blocks div ENTRIES_PER_SECTOR; blocks = blocks mod ENTRIES_PER_SECTOR in
        if single < NUM_SINGLE_INDIRECT then grow_indirect alloc c (SINGLE_AT + unat single) blocks st
        else grow_double_indirect alloc c DOUBLE_AT (single - NUM_SINGLE_INDIRECT) blocks st)"

fun extend_loop :: "alloc \<Rightarrow> nat \<Rightarrow> nat \<Rightarrow> u32 \<Rightarrow> fsys \<Rightarrow> (fsys \<times> bool) res" where
  "extend_loop alloc 0 c num_blocks st = Inr (st, True)"
| "extend_loop alloc (Suc num) c num_blocks st =
     bindR (grow_block alloc c (num_blocks + 1) st) (\<lambda>(st, success).
     if success then extend_loop alloc num c (num_blocks + 1) st else Inr (st, False))"

definition inode_extend :: "alloc \<Rightarrow> inode \<Rightarrow> u32 \<Rightarrow> fsys \<Rightarrow> (fsys \<times> bool) res" where
  "inode_extend alloc inode num st =
     bindR (with_cache (cache_write_block (i_sector inode)) st) (\<lambda>(st, c).
     let data = bdata c (cache st) in
     bindR (ASSERT (is_valid_inode data)) (\<lambda>_.
     bindR (extend_loop alloc (unat num) c (word_of_int (CEIL (disk_length data) 512 - 1)) st) (\<lambda>(st, success).
     Inr (on_cache (cache_write_end c) st, success))))"

section \<open>Writing\<close>

text \<open>The number of bytes written is the number of bytes asked for; the loop ends as the one for reading.\<close>

fun write_loop :: "nat \<Rightarrow> inode \<Rightarrow> u8 list \<Rightarrow> int \<Rightarrow> int \<Rightarrow> fs \<Rightarrow> (fs \<times> int) res" where
  "write_loop 0 inode buf sz offset st = Inl Out_of_fuel"
| "write_loop (Suc n) inode buf sz offset st =
     (if sz > 0 then
        bindR (byte_to_sector inode offset st) (\<lambda>(st, sector_idx).
        let sector_ofs = offset smod 512; min_left = 512 - sector_ofs;
            chunk_size = (if sz < min_left then sz else min_left) in
        if chunk_size \<le> 0 then Inr (st, 0)
        else if sector_ofs < 0 then Inl Invalid_access
        else
          bindR (cache_write_block sector_idx st) (\<lambda>(st, c).
          bindR (write_loop n inode (drop (nat chunk_size) buf) (sz - chunk_size) (offset + chunk_size)
            (cache_write_end c (put_data c (overwrite (bdata c st) (nat sector_ofs) (take (nat chunk_size) buf)) st))) (\<lambda>(st, w).
          Inr (st, chunk_size + w))))
      else Inr (st, 0))"

definition inode_write_at :: "alloc \<Rightarrow> addr \<Rightarrow> u8 list \<Rightarrow> int \<Rightarrow> int \<Rightarrow> fsys \<Rightarrow> (fsys \<times> int) res" where
  "inode_write_at alloc a buf sz offset st =
     bindR (ino a st) (\<lambda>inode.
     let newlen = wrap32 (sz + offset) in
     if deny_write_cnt inode \<noteq> 0 then Inr (st, 0)
     else
       bindR (with_cache (inode_length inode) st) (\<lambda>(st, len).
       bindR (if newlen \<ge> len then
                bindR (ASSERT (\<not> extension_lock inode)) (\<lambda>_.
                let st = set_ino a (inode\<lparr>extension_lock := True\<rparr>) st in
                bindR (with_cache (inode_length inode) st) (\<lambda>(st, len).
                if wrap32 (sz + offset) \<ge> len then
                  bindR (with_cache (inode_length inode) st) (\<lambda>(st, len).
                  let blocks_needed = CEIL (wrap32 (sz + offset)) 512 - CEIL len 512 in
                  bindR (inode_extend alloc inode (word_of_int blocks_needed) st) (\<lambda>(st, ok).
                  Inr (st, True, ok)))
                else Inr (set_ino a inode st, False, True)))
              else Inr (st, False, True)) (\<lambda>(st, locked, ok).
       if \<not> ok then Inr (st, 0)
       else
         bindR (with_cache (write_loop (Suc (nat sz)) inode buf sz offset) st) (\<lambda>(st, bytes_written).
         if locked then
           bindR (with_cache (inode_set_length inode newlen) st) (\<lambda>(st, _).
           bindR (ino a st) (\<lambda>inode. Inr (set_ino a (inode\<lparr>extension_lock := False\<rparr>) st, bytes_written)))
         else Inr (st, bytes_written)))))"


section \<open>Creating\<close>

definition allocate_direct :: "alloc \<Rightarrow> nat \<Rightarrow> nat \<Rightarrow> int \<Rightarrow> fsys \<Rightarrow> (fsys \<times> int \<times> bool) res" where
  "allocate_direct alloc c k len st =
     bindR (ASSERT (len > 0)) (\<lambda>_.
     bindR (ASSERT (cell c k st = 0)) (\<lambda>_.
     bindR (alloc st) (\<lambda>(st, s). case s of
       None \<Rightarrow> Inr (st, len, False)
     | Some s \<Rightarrow> bindR (clear_sector s (set_cell c k s st)) (\<lambda>st. Inr (st, len - 512, True)))))"

text \<open>
  The loops over the entries of a block: \<open>body k\<close> for \<open>n\<close> entries from \<open>k\<close> on until the length is used up.
  \<open>fill_loop_after\<close> tests the length after an entry, \<open>fill_loop_before\<close> before it.
\<close>

fun fill_loop_after :: "(nat \<Rightarrow> int \<Rightarrow> fsys \<Rightarrow> (fsys \<times> int \<times> bool) res) \<Rightarrow> nat \<Rightarrow> nat \<Rightarrow> int \<Rightarrow> fsys \<Rightarrow> (fsys \<times> int \<times> bool) res" where
  "fill_loop_after body 0 k len st = Inr (st, len, True)"
| "fill_loop_after body (Suc n) k len st =
     bindR (body k len st) (\<lambda>(st, len, ok).
     if \<not> ok then Inr (st, len, False) else if len \<le> 0 then Inr (st, len, True) else fill_loop_after body n (Suc k) len st)"

fun fill_loop_before :: "(nat \<Rightarrow> int \<Rightarrow> fsys \<Rightarrow> (fsys \<times> int \<times> bool) res) \<Rightarrow> nat \<Rightarrow> nat \<Rightarrow> int \<Rightarrow> fsys \<Rightarrow> (fsys \<times> int \<times> bool) res" where
  "fill_loop_before body 0 k len st = Inr (st, len, True)"
| "fill_loop_before body (Suc n) k len st =
     (if len \<le> 0 then Inr (st, len, True)
      else bindR (body k len st) (\<lambda>(st, len, ok). if \<not> ok then Inr (st, len, False) else fill_loop_before body n (Suc k) len st))"

definition allocate_indirect :: "alloc \<Rightarrow> nat \<Rightarrow> nat \<Rightarrow> int \<Rightarrow> fsys \<Rightarrow> (fsys \<times> int \<times> bool) res" where
  "allocate_indirect alloc c k len st =
     bindR (ASSERT (len > 0)) (\<lambda>_.
     bindR (alloc st) (\<lambda>(st, s). case s of
       None \<Rightarrow> Inr (st, len, False)
     | Some s \<Rightarrow>
         bindR (clear_sector s (set_cell c k s st)) (\<lambda>st.
         bindR (with_cache (cache_write_block s) st) (\<lambda>(st, i).
         bindR (fill_loop_after (allocate_direct alloc i) 128 0 len st) (\<lambda>(st, len, ok).
         if \<not> ok then Inr (st, len, False) else Inr (on_cache (cache_write_end i) st, len, True))))))"

definition allocate_double_indirect :: "alloc \<Rightarrow> nat \<Rightarrow> nat \<Rightarrow> int \<Rightarrow> fsys \<Rightarrow> (fsys \<times> int \<times> bool) res" where
  "allocate_double_indirect alloc c k len st =
     bindR (ASSERT (len > 0)) (\<lambda>_.
     bindR (alloc st) (\<lambda>(st, s). case s of
       None \<Rightarrow> Inr (st, len, False)
     | Some s \<Rightarrow>
         bindR (clear_sector s (set_cell c k s st)) (\<lambda>st.
         bindR (with_cache (cache_write_block s) st) (\<lambda>(st, i).
         bindR (fill_loop_after (allocate_indirect alloc i) 128 0 len st) (\<lambda>(st, len, ok).
         if \<not> ok then Inr (st, len, False) else Inr (on_cache (cache_write_end i) st, len, True))))))"

text \<open>Every early return leaves the inode's block locked for writing.\<close>

definition inode_create :: "alloc \<Rightarrow> u32 \<Rightarrow> int \<Rightarrow> fsys \<Rightarrow> (fsys \<times> bool) res" where
  "inode_create alloc sector len st =
     bindR (ASSERT (len \<ge> 0)) (\<lambda>_.
     bindR (clear_sector sector st) (\<lambda>st.
     bindR (with_cache (cache_write_block sector) st) (\<lambda>(st, c).
     let st = set_cell c MAGIC_AT INODE_MAGIC (set_cell c LENGTH_AT (word_of_int len) st) in
     bindR (fill_loop_before (allocate_direct alloc c) 60 0 len st) (\<lambda>(st, len, ok).
     if \<not> ok then Inr (st, False) else
     bindR (fill_loop_before (allocate_indirect alloc c) 40 SINGLE_AT len st) (\<lambda>(st, len, ok).
     if \<not> ok then Inr (st, False) else
     bindR (if len > 0 then allocate_double_indirect alloc c DOUBLE_AT len st else Inr (st, len, True)) (\<lambda>(st, len, ok).
     if \<not> ok then Inr (st, False) else Inr (on_cache (cache_write_end c) st, True)))))))"

section \<open>Opening and closing\<close>

definition inode_init :: "fsys \<Rightarrow> fsys" where
  "inode_init st = st\<lparr>open_inodes := []\<rparr>"

definition inode_reopen :: "addr \<Rightarrow> fsys \<Rightarrow> (fsys \<times> addr) res" where
  "inode_reopen a st =
     bindR (ASSERT (a \<noteq> 0)) (\<lambda>_. bindR (ino a st) (\<lambda>x. Inr (set_ino a (x\<lparr>open_cnt := open_cnt x + 1\<rparr>) st, a)))"

text \<open>The search through the open inodes.\<close>

fun find_open :: "addr list \<Rightarrow> u32 \<Rightarrow> fsys \<Rightarrow> addr option res" where
  "find_open [] sector st = Inr None"
| "find_open (a # as) sector st = bindR (ino a st) (\<lambda>x. if i_sector x = sector then Inr (Some a) else find_open as sector st)"

text \<open>\<open>new\<close> is what \<open>malloc\<close> returned.\<close>

definition inode_open :: "addr \<Rightarrow> u32 \<Rightarrow> fsys \<Rightarrow> (fsys \<times> addr) res" where
  "inode_open new sector st =
     bindR (find_open (open_inodes st) sector st) (\<lambda>e. case e of
       Some a \<Rightarrow> inode_reopen a st
     | None \<Rightarrow>
         if new = 0 then Inr (st, 0)
         else Inr (set_ino new \<lparr>i_sector = sector, open_cnt = 1, removed = False, deny_write_cnt = 0, extension_lock = False\<rparr>
           (st\<lparr>open_inodes := new # open_inodes st\<rparr>), new))"

definition inode_get_inumber :: "inode \<Rightarrow> u32" where
  "inode_get_inumber inode = i_sector inode"

definition inode_remove :: "addr \<Rightarrow> fsys \<Rightarrow> fsys res" where
  "inode_remove a st = bindR (ASSERT (a \<noteq> 0)) (\<lambda>_. bindR (ino a st) (\<lambda>x. Inr (set_ino a (x\<lparr>removed := True\<rparr>) st)))"

type_synonym release = "u32 \<Rightarrow> fsys \<Rightarrow> fsys res"

definition free_direct :: "release \<Rightarrow> u32 \<Rightarrow> int \<Rightarrow> fsys \<Rightarrow> (fsys \<times> int) res" where
  "free_direct release sector len st =
     bindR (ASSERT (len > 0)) (\<lambda>_. bindR (release sector st) (\<lambda>st. Inr (st, len - 512)))"

text \<open>The loops that release the sectors in the words \<open>k\<close> to \<open>k + n\<close> of a block.\<close>

fun free_loop_after :: "(u32 \<Rightarrow> int \<Rightarrow> fsys \<Rightarrow> (fsys \<times> int) res) \<Rightarrow> nat \<Rightarrow> nat \<Rightarrow> nat \<Rightarrow> int \<Rightarrow> fsys \<Rightarrow> (fsys \<times> int) res" where
  "free_loop_after body 0 c k len st = Inr (st, len)"
| "free_loop_after body (Suc n) c k len st =
     bindR (body (cell c k st) len st) (\<lambda>(st, len). if len \<le> 0 then Inr (st, len) else free_loop_after body n c (Suc k) len st)"

fun free_loop_before :: "(u32 \<Rightarrow> int \<Rightarrow> fsys \<Rightarrow> (fsys \<times> int) res) \<Rightarrow> nat \<Rightarrow> nat \<Rightarrow> nat \<Rightarrow> int \<Rightarrow> fsys \<Rightarrow> (fsys \<times> int) res" where
  "free_loop_before body 0 c k len st = Inr (st, len)"
| "free_loop_before body (Suc n) c k len st =
     (if len \<le> 0 then Inr (st, len)
      else bindR (body (cell c k st) len st) (\<lambda>(st, len). free_loop_before body n c (Suc k) len st))"

definition free_indirect :: "release \<Rightarrow> u32 \<Rightarrow> int \<Rightarrow> fsys \<Rightarrow> (fsys \<times> int) res" where
  "free_indirect release sector len st =
     bindR (ASSERT (len > 0)) (\<lambda>_.
     bindR (with_cache (cache_read_block sector) st) (\<lambda>(st, c).
     bindR (free_loop_after (free_direct release) 128 c 0 len st) (\<lambda>(st, len).
     bindR (release sector (on_cache (cache_read_end c) st)) (\<lambda>st. Inr (st, len)))))"

definition free_double_indirect :: "release \<Rightarrow> u32 \<Rightarrow> int \<Rightarrow> fsys \<Rightarrow> (fsys \<times> int) res" where
  "free_double_indirect release sector len st =
     bindR (ASSERT (len > 0)) (\<lambda>_.
     bindR (with_cache (cache_read_block sector) st) (\<lambda>(st, c).
     bindR (free_loop_after (free_indirect release) 128 c 0 len st) (\<lambda>(st, len).
     bindR (release sector (on_cache (cache_read_end c) st)) (\<lambda>st. Inr (st, len)))))"

definition inode_close :: "release \<Rightarrow> addr \<Rightarrow> fsys \<Rightarrow> fsys res" where
  "inode_close release a st =
     (if a = 0 then Inr st
      else
        bindR (ino a st) (\<lambda>x.
        let x = x\<lparr>open_cnt := open_cnt x - 1\<rparr>; st = set_ino a x st in
        if open_cnt x = 0 then
          let st = st\<lparr>open_inodes := remove1 a (open_inodes st)\<rparr> in
          bindR (if removed x then
                   bindR (with_cache (cache_read_block (i_sector x)) st) (\<lambda>(st, c).
                   bindR (free_loop_before (free_direct release) 60 c 0 (disk_length (bdata c (cache st))) st) (\<lambda>(st, len).
                   bindR (free_loop_before (free_indirect release) 40 c SINGLE_AT len st) (\<lambda>(st, len).
                   bindR (if len > 0 then free_double_indirect release (cell c DOUBLE_AT st) len st else Inr (st, len)) (\<lambda>(st, len).
                   release (i_sector x) (on_cache (cache_read_end c) st)))))
                 else Inr st) (\<lambda>st.
          Inr (st\<lparr>inodes := (inodes st)(a := None)\<rparr>))
        else Inr st))"

definition inode_deny_write :: "addr \<Rightarrow> fsys \<Rightarrow> fsys res" where
  "inode_deny_write a st =
     bindR (ino a st) (\<lambda>x. let x = x\<lparr>deny_write_cnt := deny_write_cnt x + 1\<rparr> in
     bindR (ASSERT (deny_write_cnt x \<le> open_cnt x)) (\<lambda>_. Inr (set_ino a x st)))"

definition inode_allow_write :: "addr \<Rightarrow> fsys \<Rightarrow> fsys res" where
  "inode_allow_write a st =
     bindR (ino a st) (\<lambda>x.
     bindR (ASSERT (deny_write_cnt x > 0)) (\<lambda>_.
     bindR (ASSERT (deny_write_cnt x \<le> open_cnt x)) (\<lambda>_.
     Inr (set_ino a (x\<lparr>deny_write_cnt := deny_write_cnt x - 1\<rparr>) st))))"

definition inode_is_shared :: "inode \<Rightarrow> bool" where
  "inode_is_shared inode \<longleftrightarrow> open_cnt inode > 1"

section \<open>The free map in its file\<close>

definition file_write_at :: "alloc \<Rightarrow> addr \<Rightarrow> u8 list \<Rightarrow> int \<Rightarrow> int \<Rightarrow> fsys \<Rightarrow> (fsys \<times> int) res" where
  "file_write_at alloc f buf sz file_ofs st = bindR (fil f st) (\<lambda>x. inode_write_at alloc (f_inode x) buf sz file_ofs st)"

definition file_read_at :: "addr \<Rightarrow> int \<Rightarrow> int \<Rightarrow> fsys \<Rightarrow> (fsys \<times> u8 list) res" where
  "file_read_at f sz file_ofs st =
     bindR (fil f st) (\<lambda>x. bindR (ino (f_inode x) st) (\<lambda>inode. with_cache (inode_read_at inode sz file_ofs) st))"

definition bitmap_bytes :: "bitmap \<Rightarrow> u8 list" where
  "bitmap_bytes b = concat (map word_bytes (bits b))"

definition bitmap_write :: "alloc \<Rightarrow> bitmap \<Rightarrow> addr \<Rightarrow> fsys \<Rightarrow> (fsys \<times> bool) res" where
  "bitmap_write alloc b f st =
     (let sz = sint (byte_cnt (bit_cnt b)) in
      bindR (file_write_at alloc f (bitmap_bytes b) sz 0 st) (\<lambda>(st, n). Inr (st, n = sz)))"

fun allocate_sector :: "nat \<Rightarrow> alloc" where
  "allocate_sector 0 st = Inl Out_of_fuel"
| "allocate_sector (Suc n) st =
     bindR (bitmap_scan_and_flip (free_map (fmap st)) 0 1 False) (\<lambda>(b, sector).
     let st = st\<lparr>fmap := (fmap st)\<lparr>free_map := b\<rparr>\<rparr> in
     bindR (case free_map_file (fmap st) of
         None \<Rightarrow> Inr (st, True)
       | Some f \<Rightarrow> if sector = BITMAP_ERROR then Inr (st, True) else bitmap_write (allocate_sector n) b f st) (\<lambda>(st, ok).
     bindR (if ok then Inr (st, sector)
            else bindR (bitmap_set_multiple (free_map (fmap st)) sector 1 False) (\<lambda>b.
              Inr (st\<lparr>fmap := (fmap st)\<lparr>free_map := b\<rparr>\<rparr>, BITMAP_ERROR))) (\<lambda>(st, sector).
     Inr (st, if sector \<noteq> BITMAP_ERROR then Some sector else None))))"

definition release_sector :: "nat \<Rightarrow> release" where
  "release_sector n sector st =
     bindR (bitmap_all (free_map (fmap st)) sector 1) (\<lambda>a.
     bindR (ASSERT a) (\<lambda>_.
     bindR (bitmap_set_multiple (free_map (fmap st)) sector 1 False) (\<lambda>b.
     let st = st\<lparr>fmap := (fmap st)\<lparr>free_map := b\<rparr>\<rparr> in
     case free_map_file (fmap st) of
       None \<Rightarrow> Inl Invalid_access
     | Some f \<Rightarrow> bindR (bitmap_write (allocate_sector n) b f st) (\<lambda>(st, _). Inr st))))"


section \<open>Files\<close>

text \<open>\<open>new\<close> is what \<open>calloc\<close> returned.\<close>

definition file_open :: "release \<Rightarrow> addr \<Rightarrow> addr \<Rightarrow> bool \<Rightarrow> fsys \<Rightarrow> (fsys \<times> addr) res" where
  "file_open release new inode is_dir st =
     (if inode \<noteq> 0 \<and> new \<noteq> 0
      then Inr (set_fil new \<lparr>f_inode = inode, f_pos = 0, f_deny_write = False, f_is_dir = is_dir\<rparr> st, new)
      else bindR (inode_close release inode st) (\<lambda>st. Inr (st, 0)))"

definition file_reopen :: "release \<Rightarrow> addr \<Rightarrow> addr \<Rightarrow> fsys \<Rightarrow> (fsys \<times> addr) res" where
  "file_reopen release new f st =
     bindR (fil f st) (\<lambda>x. bindR (inode_reopen (f_inode x) st) (\<lambda>(st, a). file_open release new a (f_is_dir x) st))"

definition file_deny_write :: "addr \<Rightarrow> fsys \<Rightarrow> fsys res" where
  "file_deny_write f st =
     bindR (ASSERT (f \<noteq> 0)) (\<lambda>_. bindR (fil f st) (\<lambda>x.
     if \<not> f_deny_write x then inode_deny_write (f_inode x) (set_fil f (x\<lparr>f_deny_write := True\<rparr>) st) else Inr st))"

definition file_allow_write :: "addr \<Rightarrow> fsys \<Rightarrow> fsys res" where
  "file_allow_write f st =
     bindR (ASSERT (f \<noteq> 0)) (\<lambda>_. bindR (fil f st) (\<lambda>x.
     if f_deny_write x then inode_allow_write (f_inode x) (set_fil f (x\<lparr>f_deny_write := False\<rparr>) st) else Inr st))"

definition file_close :: "release \<Rightarrow> addr \<Rightarrow> fsys \<Rightarrow> fsys res" where
  "file_close release f st =
     (if f = 0 then Inr st
      else
        bindR (file_allow_write f st) (\<lambda>st.
        bindR (fil f st) (\<lambda>x.
        bindR (inode_close release (f_inode x) st) (\<lambda>st.
        Inr (st\<lparr>open_files := (open_files st)(f := None)\<rparr>)))))"

definition file_get_inode :: "file_struct \<Rightarrow> addr" where
  "file_get_inode x = f_inode x"

definition file_read :: "addr \<Rightarrow> int \<Rightarrow> fsys \<Rightarrow> (fsys \<times> u8 list) res" where
  "file_read f sz st =
     bindR (fil f st) (\<lambda>x.
     bindR (ino (f_inode x) st) (\<lambda>inode.
     bindR (with_cache (inode_read_at inode sz (f_pos x)) st) (\<lambda>(st, bs).
     Inr (set_fil f (x\<lparr>f_pos := f_pos x + int (length bs)\<rparr>) st, bs))))"

definition file_write :: "alloc \<Rightarrow> addr \<Rightarrow> u8 list \<Rightarrow> int \<Rightarrow> fsys \<Rightarrow> (fsys \<times> int) res" where
  "file_write alloc f buf sz st =
     bindR (fil f st) (\<lambda>x.
     bindR (inode_write_at alloc (f_inode x) buf sz (f_pos x) st) (\<lambda>(st, n).
     bindR (fil f st) (\<lambda>x.
     Inr (set_fil f (x\<lparr>f_pos := f_pos x + n\<rparr>) st, n))))"

definition file_length :: "addr \<Rightarrow> fsys \<Rightarrow> (fsys \<times> int) res" where
  "file_length f st =
     bindR (ASSERT (f \<noteq> 0)) (\<lambda>_.
     bindR (fil f st) (\<lambda>x. bindR (ino (f_inode x) st) (\<lambda>inode. with_cache (inode_length inode) st)))"

definition file_seek :: "addr \<Rightarrow> int \<Rightarrow> fsys \<Rightarrow> fsys res" where
  "file_seek f new_pos st =
     bindR (ASSERT (f \<noteq> 0)) (\<lambda>_. bindR (ASSERT (new_pos \<ge> 0)) (\<lambda>_.
     bindR (fil f st) (\<lambda>x. Inr (set_fil f (x\<lparr>f_pos := new_pos\<rparr>) st))))"

definition file_tell :: "addr \<Rightarrow> fsys \<Rightarrow> int res" where
  "file_tell f st = bindR (ASSERT (f \<noteq> 0)) (\<lambda>_. bindR (fil f st) (\<lambda>x. Inr (f_pos x)))"

definition file_is_dir :: "file_struct \<Rightarrow> bool" where
  "file_is_dir x = f_is_dir x"

section \<open>Opening and creating the free map\<close>

text \<open>The words of the bitmap are the bytes read, behind them what they were; the unused bits are cleared.\<close>

definition bitmap_read :: "bitmap \<Rightarrow> addr \<Rightarrow> fsys \<Rightarrow> (fsys \<times> bitmap \<times> bool) res" where
  "bitmap_read b f st =
     (if bit_cnt b > 0 then
        let sz = sint (byte_cnt (bit_cnt b)) in
        bindR (file_read_at f sz 0 st) (\<lambda>(st, bs).
        let d = bs @ drop (length bs) (bitmap_bytes b);
            ws = map (get_word d) [0..<length (bits b)];
            last = unat (elem_cnt (bit_cnt b) - 1) in
        Inr (st, b\<lparr>bits := ws[last := ws ! last AND last_mask b]\<rparr>, int (length bs) = sz))
      else Inr (st, b, True))"

definition free_map_open :: "release \<Rightarrow> addr \<Rightarrow> addr \<Rightarrow> fsys \<Rightarrow> fsys res" where
  "free_map_open release new_inode new_file st =
     bindR (inode_open new_inode FREE_MAP_SECTOR st) (\<lambda>(st, a).
     bindR (file_open release new_file a False st) (\<lambda>(st, f).
     let st = st\<lparr>fmap := (fmap st)\<lparr>free_map_file := if f = 0 then None else Some f\<rparr>\<rparr> in
     if f = 0 then Inl Kernel_panic
     else
       bindR (bitmap_read (free_map (fmap st)) f st) (\<lambda>(st, b, ok).
       if ok then Inr (st\<lparr>fmap := (fmap st)\<lparr>free_map := b\<rparr>\<rparr>) else Inl Kernel_panic)))"

text \<open>The pointer to the file is left as it was.\<close>

definition free_map_close :: "release \<Rightarrow> fsys \<Rightarrow> fsys res" where
  "free_map_close release st = file_close release (case free_map_file (fmap st) of None \<Rightarrow> 0 | Some f \<Rightarrow> f) st"

definition free_map_create :: "alloc \<Rightarrow> release \<Rightarrow> addr \<Rightarrow> addr \<Rightarrow> fsys \<Rightarrow> fsys res" where
  "free_map_create alloc release new_inode new_file st =
     bindR (inode_create alloc FREE_MAP_SECTOR (sint (bitmap_file_size (free_map (fmap st)))) st) (\<lambda>(st, ok).
     if \<not> ok then Inl Kernel_panic
     else
       bindR (inode_open new_inode FREE_MAP_SECTOR st) (\<lambda>(st, a).
       bindR (file_open release new_file a False st) (\<lambda>(st, f).
       let st = st\<lparr>fmap := (fmap st)\<lparr>free_map_file := if f = 0 then None else Some f\<rparr>\<rparr> in
       if f = 0 then Inl Kernel_panic
       else bindR (bitmap_write alloc (free_map (fmap st)) f st) (\<lambda>(st, ok). if ok then Inr st else Inl Kernel_panic))))"


end
