(* ===== verification/Directory.thy ===== *)
theory Directory
  imports Inode
begin

text \<open>
  \<^verbatim>\<open>filesys/directory.c\<close> and \<^verbatim>\<open>filesys/filesys.c\<close>. A directory is a file of entries of 24 bytes: the sector
  number of an inode (4 bytes), the name with its terminator (15), the flags \<open>in_use\<close> and \<open>is_dir\<close>, and 3
  bytes of padding. A \<open>struct dir_entry\<close> in memory is the list of its bytes.

  C strings are lists of bytes without the terminator. \<open>m\<close> stands for \<open>malloc\<close> and \<open>calloc\<close>: in a
  given state it returns an address, or 0 when there is no memory. Sectors are allocated and released
  with the free map in its file.
\<close>

section \<open>State\<close>

definition NAME_MAX :: nat where "NAME_MAX = 14"
definition PATH_WD :: "u8 list" where "PATH_WD = [46]"
definition PATH_PARENT :: "u8 list" where "PATH_PARENT = [46, 46]"

definition ENTRY_SIZE :: nat where "ENTRY_SIZE = 24"

record dir =
  d_inode :: addr
  d_pos :: int

record filesys =
  files :: fsys
  dirs :: "addr \<rightharpoonup> dir"

type_synonym malloc = "filesys \<Rightarrow> addr"

definition e_inode_sector :: "u8 list \<Rightarrow> u32" where "e_inode_sector e = le_word (take 4 e)"
definition e_name :: "u8 list \<Rightarrow> u8 list" where "e_name e = takeWhile (\<lambda>c. c \<noteq> 0) (drop 4 e)"
definition e_in_use :: "u8 list \<Rightarrow> bool" where "e_in_use e \<longleftrightarrow> e ! 19 \<noteq> 0"
definition e_is_dir :: "u8 list \<Rightarrow> bool" where "e_is_dir e \<longleftrightarrow> e ! 20 \<noteq> 0"

definition with_files :: "(fsys \<Rightarrow> (fsys \<times> 'a) res) \<Rightarrow> filesys \<Rightarrow> (filesys \<times> 'a) res" where
  "with_files f st = bindR (f (files st)) (\<lambda>(x, y). Inr (st\<lparr>files := x\<rparr>, y))"

definition on_files :: "(fsys \<Rightarrow> fsys res) \<Rightarrow> filesys \<Rightarrow> filesys res" where
  "on_files f st = bindR (f (files st)) (\<lambda>x. Inr (st\<lparr>files := x\<rparr>))"

definition get_dir :: "addr \<Rightarrow> filesys \<Rightarrow> dir res" where
  "get_dir d st = (case dirs st d of None \<Rightarrow> Inl Invalid_access | Some x \<Rightarrow> Inr x)"

text \<open>The free map's file is never extended, so the allocation calls itself at most once.\<close>

definition ALLOC :: alloc where "ALLOC = allocate_sector 2"
definition RELEASE :: release where "RELEASE = release_sector 2"

text \<open>Reading an entry at \<open>ofs\<close> of the directory's file: the bytes read replace the first ones of \<open>e\<close>.\<close>

definition read_entry :: "addr \<Rightarrow> int \<Rightarrow> filesys \<Rightarrow> (filesys \<times> u8 list) res" where
  "read_entry a ofs st =
     with_files (\<lambda>x. bindR (ino a x) (\<lambda>inode. with_cache (inode_read_at inode (int ENTRY_SIZE) ofs) x)) st"

section \<open>Directories\<close>

definition dir_open :: "malloc \<Rightarrow> addr \<Rightarrow> filesys \<Rightarrow> (filesys \<times> addr) res" where
  "dir_open m a st =
     (let d = m st in
      if a \<noteq> 0 \<and> d \<noteq> 0 then Inr (st\<lparr>dirs := (dirs st)(d \<mapsto> \<lparr>d_inode = a, d_pos = 0\<rparr>)\<rparr>, d)
      else bindR (on_files (inode_close RELEASE a) st) (\<lambda>st. Inr (st, 0)))"

definition open_inode :: "malloc \<Rightarrow> u32 \<Rightarrow> filesys \<Rightarrow> (filesys \<times> addr) res" where
  "open_inode m sector st = with_files (inode_open (m st) sector) st"

definition dir_open_root :: "malloc \<Rightarrow> filesys \<Rightarrow> (filesys \<times> addr) res" where
  "dir_open_root m st = bindR (open_inode m ROOT_DIR_SECTOR st) (\<lambda>(st, a). dir_open m a st)"

definition dir_reopen :: "malloc \<Rightarrow> addr \<Rightarrow> filesys \<Rightarrow> (filesys \<times> addr) res" where
  "dir_reopen m d st =
     bindR (get_dir d st) (\<lambda>x. bindR (with_files (inode_reopen (d_inode x)) st) (\<lambda>(st, a). dir_open m a st))"

definition dir_close :: "addr \<Rightarrow> filesys \<Rightarrow> filesys res" where
  "dir_close d st =
     (if d = 0 then Inr st
      else
        bindR (get_dir d st) (\<lambda>x.
        bindR (on_files (inode_close RELEASE (d_inode x)) st) (\<lambda>st.
        Inr (st\<lparr>dirs := (dirs st)(d := None)\<rparr>))))"

definition dir_get_inode :: "dir \<Rightarrow> addr" where
  "dir_get_inode x = d_inode x"

text \<open>
  The loops over the entries of a directory. The offset grows by 24 in each round and the length of a
  file is below \<open>2 ^ 31\<close>, so \<open>MAX_ENTRIES\<close> rounds are enough.
\<close>

definition MAX_ENTRIES :: nat where "MAX_ENTRIES = 89478487"

fun lookup_loop :: "nat \<Rightarrow> addr \<Rightarrow> u8 list \<Rightarrow> int \<Rightarrow> filesys \<Rightarrow> (filesys \<times> (u8 list \<times> int) option) res" where
  "lookup_loop 0 a name ofs st = Inl Out_of_fuel"
| "lookup_loop (Suc n) a name ofs st =
     bindR (read_entry a ofs st) (\<lambda>(st, e).
     if length e = ENTRY_SIZE then
       if e_in_use e \<and> name = e_name e then Inr (st, Some (e, ofs)) else lookup_loop n a name (ofs + int ENTRY_SIZE) st
     else Inr (st, None))"

definition dir_find :: "addr \<Rightarrow> u8 list \<Rightarrow> filesys \<Rightarrow> (filesys \<times> (u8 list \<times> int) option) res" where
  "dir_find d name st =
     bindR (ASSERT (d \<noteq> 0)) (\<lambda>_. bindR (get_dir d st) (\<lambda>x. lookup_loop MAX_ENTRIES (d_inode x) name 0 st))"

text \<open>\<open>is_dir\<close> is returned with the inode; it is not written when there is none.\<close>

definition dir_lookup :: "malloc \<Rightarrow> addr \<Rightarrow> u8 list \<Rightarrow> filesys \<Rightarrow> (filesys \<times> addr \<times> bool) res" where
  "dir_lookup m d name st =
     bindR (ASSERT (d \<noteq> 0)) (\<lambda>_.
     bindR (dir_find d name st) (\<lambda>(st, r). case r of
       Some (e, _) \<Rightarrow> bindR (open_inode m (e_inode_sector e) st) (\<lambda>(st, a). Inr (st, a, e_is_dir e))
     | None \<Rightarrow> Inr (st, 0, False)))"

text \<open>The loop that looks for a free slot; \<open>e\<close> is what the entry on the stack holds.\<close>

fun slot_loop :: "nat \<Rightarrow> addr \<Rightarrow> u8 list \<Rightarrow> int \<Rightarrow> filesys \<Rightarrow> (filesys \<times> u8 list \<times> int) res" where
  "slot_loop 0 a e ofs st = Inl Out_of_fuel"
| "slot_loop (Suc n) a e ofs st =
     bindR (read_entry a ofs st) (\<lambda>(st, bs).
     let e = overwrite e 0 bs in
     if length bs = ENTRY_SIZE then
       if \<not> e_in_use e then Inr (st, e, ofs) else slot_loop n a e (ofs + int ENTRY_SIZE) st
     else Inr (st, e, ofs))"

definition strlcpy_to :: "u8 list \<Rightarrow> nat \<Rightarrow> u8 list \<Rightarrow> nat \<Rightarrow> u8 list" where
  "strlcpy_to d k src sz = overwrite d k (take (sz - 1) src @ [0])"

definition fill_entry :: "u8 list \<Rightarrow> u8 list \<Rightarrow> u32 \<Rightarrow> bool \<Rightarrow> u8 list" where
  "fill_entry e name sector is_dir =
     (overwrite (strlcpy_to (e[19 := 1]) 4 name (NAME_MAX + 1)) 0 (word_bytes sector))[20 := of_bool is_dir]"

text \<open>\<open>garbage\<close> is what the entry on the stack holds at first.\<close>

definition dir_add :: "u8 list \<Rightarrow> addr \<Rightarrow> u8 list \<Rightarrow> u32 \<Rightarrow> bool \<Rightarrow> filesys \<Rightarrow> (filesys \<times> bool) res" where
  "dir_add garbage d name sector is_dir st =
     bindR (ASSERT (d \<noteq> 0)) (\<lambda>_.
     if name = [] \<or> length name > NAME_MAX then Inr (st, False)
     else
       bindR (dir_find d name st) (\<lambda>(st, r).
       if r \<noteq> None then Inr (st, False)
       else
         bindR (get_dir d st) (\<lambda>x.
         bindR (slot_loop MAX_ENTRIES (d_inode x) garbage 0 st) (\<lambda>(st, e, ofs).
         bindR (with_files (inode_write_at ALLOC (d_inode x) (fill_entry e name sector is_dir) (int ENTRY_SIZE) ofs) st) (\<lambda>(st, n).
         Inr (st, n = int ENTRY_SIZE))))))"

fun readdir_loop :: "nat \<Rightarrow> addr \<Rightarrow> filesys \<Rightarrow> (filesys \<times> u8 list option) res" where
  "readdir_loop 0 d st = Inl Out_of_fuel"
| "readdir_loop (Suc n) d st =
     bindR (get_dir d st) (\<lambda>x.
     bindR (read_entry (d_inode x) (d_pos x) st) (\<lambda>(st, e).
     if length e = ENTRY_SIZE then
       let st = st\<lparr>dirs := (dirs st)(d \<mapsto> x\<lparr>d_pos := d_pos x + int ENTRY_SIZE\<rparr>)\<rparr> in
       if e_in_use e then Inr (st, Some (take NAME_MAX (e_name e))) else readdir_loop n d st
     else Inr (st, None)))"

definition dir_readdir :: "addr \<Rightarrow> filesys \<Rightarrow> (filesys \<times> u8 list option) res" where
  "dir_readdir d st = readdir_loop MAX_ENTRIES d st"

text \<open>The test of \<open>dir_remove\<close> whether a directory has other entries than \<open>.\<close> and \<open>..\<close>.\<close>

fun empty_loop :: "nat \<Rightarrow> addr \<Rightarrow> filesys \<Rightarrow> (filesys \<times> bool) res" where
  "empty_loop 0 d st = Inl Out_of_fuel"
| "empty_loop (Suc n) d st =
     bindR (dir_readdir d st) (\<lambda>(st, r). case r of
       None \<Rightarrow> Inr (st, True)
     | Some name \<Rightarrow> if name \<noteq> PATH_WD \<and> name \<noteq> PATH_PARENT then Inr (st, False) else empty_loop n d st)"

text \<open>The \<open>struct dir\<close> opened for the test is never closed.\<close>

definition dir_remove :: "malloc \<Rightarrow> addr \<Rightarrow> u8 list \<Rightarrow> filesys \<Rightarrow> (filesys \<times> bool) res" where
  "dir_remove m d name st =
     bindR (ASSERT (d \<noteq> 0)) (\<lambda>_.
     bindR (dir_find d name st) (\<lambda>(st, r). case r of
       None \<Rightarrow> Inr (st, False)
     | Some (e, ofs) \<Rightarrow>
         bindR (open_inode m (e_inode_sector e) st) (\<lambda>(st, a).
         if a = 0 then Inr (st, False)
         else
           bindR (if e_is_dir e then
                    bindR (ino a (files st)) (\<lambda>inode.
                    if inode_is_shared inode then Inr (st, False)
                    else
                      bindR (dir_open m a st) (\<lambda>(st, t).
                      if t = 0 then Inr (st, False) else empty_loop MAX_ENTRIES t st))
                  else Inr (st, True)) (\<lambda>(st, ok).
           bindR (if \<not> ok then Inr (st, False)
                  else
                    bindR (get_dir d st) (\<lambda>x.
                    bindR (with_files (inode_write_at ALLOC (d_inode x) (e[19 := 0]) (int ENTRY_SIZE) ofs) st) (\<lambda>(st, n).
                    if n \<noteq> int ENTRY_SIZE then Inr (st, False)
                    else bindR (on_files (inode_remove a) st) (\<lambda>st. Inr (st, True))))) (\<lambda>(st, success).
           bindR (on_files (inode_close RELEASE a) st) (\<lambda>st. Inr (st, success)))))))"

text \<open>\<open>garbage\<close> as for \<open>dir_add\<close>. The results of the two calls of \<open>dir_add\<close> are not looked at.\<close>

definition dir_create :: "malloc \<Rightarrow> u8 list \<Rightarrow> u32 \<Rightarrow> u32 \<Rightarrow> u32 \<Rightarrow> filesys \<Rightarrow> (filesys \<times> bool) res" where
  "dir_create m garbage sector entry_cnt parent st =
     bindR (with_files (inode_create ALLOC sector (sint (entry_cnt * of_nat ENTRY_SIZE))) st) (\<lambda>(st, ok).
     if \<not> ok then Inr (st, False)
     else
       bindR (open_inode m sector st) (\<lambda>(st, a).
       bindR (dir_open m a st) (\<lambda>(st, new_dir).
       bindR (if parent \<noteq> 0 then dir_add garbage new_dir PATH_PARENT parent True st else Inr (st, True)) (\<lambda>(st, _).
       bindR (dir_add garbage new_dir PATH_WD sector True st) (\<lambda>(st, _).
       bindR (dir_close new_dir st) (\<lambda>st. Inr (st, True)))))))"

section \<open>Paths\<close>

text \<open>\<open>wd\<close> is the working directory of the running process.\<close>

function resolve_loop :: "malloc \<Rightarrow> u8 list \<Rightarrow> addr \<Rightarrow> filesys \<Rightarrow> (filesys \<times> (addr \<times> u8 list) option) res" where
  "resolve_loop m path d st =
     (let name = takeWhile (\<lambda>c. c \<noteq> 47) path; rest = drop (length name) path in
      if length name > NAME_MAX then bindR (dir_close d st) (\<lambda>st. Inr (st, None))
      else case rest of
        [] \<Rightarrow> Inr (st, Some (d, if name = [] then PATH_WD else name))
      | _ # path' \<Rightarrow>
          bindR (dir_lookup m d name st) (\<lambda>(st, a, is_dir).
          if a = 0 \<or> \<not> is_dir then bindR (dir_close d st) (\<lambda>st. Inr (st, None))
          else
            bindR (dir_close d st) (\<lambda>st.
            bindR (dir_open m a st) (\<lambda>(st, d).
            if d = 0 then Inr (st, None) else resolve_loop m path' d st))))"
  by pat_completeness auto
termination
proof (relation "measure (\<lambda>(m, path, d, st). length path)", goal_cases)
  case (2 m path d st name rest c path')
  then have "length path = length name + Suc (length path')" by (metis length_append length_Cons takeWhile_dropWhile_id dropWhile_eq_drop)
  then show ?case by simp
qed simp

declare resolve_loop.simps [simp del]

definition resolve_path :: "malloc \<Rightarrow> addr \<Rightarrow> u8 list \<Rightarrow> filesys \<Rightarrow> (filesys \<times> (addr \<times> u8 list) option) res" where
  "resolve_path m wd path st = (case path of
     [] \<Rightarrow> Inr (st, None)
   | c # path' \<Rightarrow>
       if c = 47 then bindR (dir_open_root m st) (\<lambda>(st, d). resolve_loop m path' d st)
       else
         let path = (if c = 46 \<and> path' \<noteq> [] \<and> hd path' = 47 then path' else path) in
         bindR (dir_reopen m wd st) (\<lambda>(st, d). resolve_loop m path d st))"

section \<open>The file system\<close>

definition filesys_get_inumber :: "addr \<Rightarrow> filesys \<Rightarrow> u32 res" where
  "filesys_get_inumber d st =
     bindR (get_dir d st) (\<lambda>x. bindR (ino (dir_get_inode x) (files st)) (\<lambda>inode. Inr (inode_get_inumber inode)))"

definition filesys_create :: "malloc \<Rightarrow> u8 list \<Rightarrow> addr \<Rightarrow> u8 list \<Rightarrow> int \<Rightarrow> bool \<Rightarrow> filesys \<Rightarrow> (filesys \<times> bool) res" where
  "filesys_create m garbage wd path initial_size is_dir st =
     bindR (resolve_path m wd path st) (\<lambda>(st, r). case r of
       None \<Rightarrow> Inr (st, False)
     | Some (d, name) \<Rightarrow>
         bindR (with_files ALLOC st) (\<lambda>(st, s). case s of
           None \<Rightarrow> bindR (dir_close d st) (\<lambda>st. Inr (st, False))
         | Some sector \<Rightarrow>
             bindR (if is_dir then
                      bindR (filesys_get_inumber d st) (\<lambda>parent. dir_create m garbage sector (word_of_int initial_size) parent st)
                    else with_files (inode_create ALLOC sector initial_size) st) (\<lambda>(st, ok).
             bindR (if ok then dir_add garbage d name sector is_dir st else Inr (st, False)) (\<lambda>(st, success).
             bindR (if \<not> success \<and> sector \<noteq> 0 then on_files (RELEASE sector) st else Inr st) (\<lambda>st.
             bindR (dir_close d st) (\<lambda>st. Inr (st, success)))))))"

text \<open>When there is no inode, \<open>is_dir\<close> is not set and \<open>file_open\<close> does not use it.\<close>

definition filesys_open :: "malloc \<Rightarrow> addr \<Rightarrow> u8 list \<Rightarrow> filesys \<Rightarrow> (filesys \<times> addr) res" where
  "filesys_open m wd path st =
     bindR (resolve_path m wd path st) (\<lambda>(st, r). case r of
       None \<Rightarrow> Inr (st, 0)
     | Some (d, name) \<Rightarrow>
         bindR (if d \<noteq> 0 then dir_lookup m d name st else Inr (st, 0, False)) (\<lambda>(st, a, is_dir).
         bindR (dir_close d st) (\<lambda>st. with_files (file_open RELEASE (m st) a is_dir) st)))"

definition filesys_remove :: "malloc \<Rightarrow> addr \<Rightarrow> u8 list \<Rightarrow> filesys \<Rightarrow> (filesys \<times> bool) res" where
  "filesys_remove m wd path st =
     bindR (resolve_path m wd path st) (\<lambda>(st, r). case r of
       None \<Rightarrow> Inr (st, False)
     | Some (d, name) \<Rightarrow>
         bindR (if d \<noteq> 0 then dir_remove m d name st else Inr (st, False)) (\<lambda>(st, success).
         bindR (dir_close d st) (\<lambda>st. Inr (st, success))))"

text \<open>\<open>m_inode\<close> and \<open>m_file\<close> are the allocations of \<open>free_map_create\<close> and \<open>free_map_open\<close>.\<close>

definition do_format :: "malloc \<Rightarrow> u8 list \<Rightarrow> addr \<Rightarrow> addr \<Rightarrow> filesys \<Rightarrow> filesys res" where
  "do_format m garbage m_inode m_file st =
     bindR (on_files (free_map_create ALLOC RELEASE m_inode m_file) st) (\<lambda>st.
     bindR (dir_create m garbage ROOT_DIR_SECTOR 4 ROOT_DIR_SECTOR st) (\<lambda>(st, ok).
     if \<not> ok then Inl Kernel_panic else on_files (free_map_close RELEASE) st))"

definition filesys_size :: "filesys \<Rightarrow> u32" where
  "filesys_size st = blk_size (fs_device (cache (files st)))"

text \<open>The device of the file system is the one under the cache; \<open>header_ok\<close> and \<open>storage\<close> are the allocations of the bitmap.\<close>

definition filesys_init :: "malloc \<Rightarrow> u8 list \<Rightarrow> (addr \<times> addr) \<times> (addr \<times> addr) \<Rightarrow> bool \<Rightarrow> u32 list option \<Rightarrow> bool \<Rightarrow> filesys \<Rightarrow> filesys res" where
  "filesys_init m garbage news header_ok storage format st =
     bindR (on_files (\<lambda>x. bindR (free_map_init header_ok storage (filesys_size st)) (\<lambda>fm. Inr ((inode_init x)\<lparr>fmap := fm\<rparr>))) st) (\<lambda>st.
     bindR (if format then do_format m garbage (fst (fst news)) (snd (fst news)) st else Inr st) (\<lambda>st.
     on_files (free_map_open RELEASE (fst (snd news)) (snd (snd news))) st))"

definition filesys_done :: "filesys \<Rightarrow> filesys res" where
  "filesys_done st =
     bindR (on_files (\<lambda>x. bindR (refresh_cache (cache x)) (\<lambda>c. Inr (x\<lparr>cache := c\<rparr>))) st) (\<lambda>st.
     on_files (free_map_close RELEASE) st)"

end
