(* ===== verification/Inode_Index.thy ===== *)
theory Inode_Index
  imports Inode
begin

text \<open>
  The index of an inode: \<open>byte_to_sector\<close> computes the sector of a position from the words of the inode
  and its indirect sectors, with all the locking undone. \<open>moved\<close> states the effect of a step on what the
  cache shows and on its locks.
\<close>

declare neq0_conv [iff del] bot_nat_0.not_eq_extremum [simp del]

section \<open>Steps of the cache\<close>

text \<open>
  \<open>moved T st st' v L\<close>: the step from \<open>st\<close> to \<open>st'\<close> brought only sectors of \<open>T\<close> into the cache, which
  shows \<open>v\<close> afterwards and has the locks \<open>L\<close>; sectors that were locked have stayed in their blocks.
\<close>

definition moved :: "u32 set \<Rightarrow> fs \<Rightarrow> fs \<Rightarrow> (u32 \<Rightarrow> u8 list) \<Rightarrow> (u32 \<Rightarrow> rw_lock) \<Rightarrow> bool" where
  "moved T st st' v L \<longleftrightarrow> cache_inv st' \<and> cview st' = v \<and> locks st' = L \<and>
     blk_size (fs_device st') = blk_size (fs_device st) \<and>
     (\<forall>j t. holds st j t \<longrightarrow> locks st t \<noteq> FREE \<longrightarrow> holds st' j t) \<and>
     (\<forall>j t. holds st' j t \<longrightarrow> (\<exists>i. holds st i t) \<or> t \<in> T)"

lemma movedD:
  assumes "moved T st st' v L"
  shows "cache_inv st'" "cview st' = v" "locks st' = L" "blk_size (fs_device st') = blk_size (fs_device st)"
    "holds st j t \<Longrightarrow> locks st t \<noteq> FREE \<Longrightarrow> holds st' j t"
    "holds st' j t \<Longrightarrow> (\<exists>i. holds st i t) \<or> t \<in> T"
  using assms by (auto simp: moved_def)

text \<open>The steps of \<open>Cache_Invariant\<close>.\<close>

lemma quiet_moved:
  assumes "quiet st st' L" "\<And>t. L t \<noteq> FREE \<Longrightarrow> (\<exists>i. holds st i t) \<or> t \<in> T"
  shows "moved T st st' (cview st) L"
  using assms unfolding quiet_def moved_def by metis

lemma quiet_same:
  assumes "quiet st st' L" "holds st' = holds st"
  shows "moved T st st' (cview st) L"
  using assms by (auto simp: quiet_def moved_def)

lemma locked_held: "locks st t \<noteq> FREE \<Longrightarrow> \<exists>i. holds st i t"
  by (metis cview_not_held(2) FREE_def)

lemma moved_trans:
  assumes "moved T st st1 v1 L1" "moved T st1 st2 v L" "\<And>t. locks st t \<noteq> FREE \<Longrightarrow> L1 t \<noteq> FREE"
  shows "moved T st st2 v L"
  unfolding moved_def
proof (intro conjI allI impI)
  fix j t assume a: "holds st j t" "locks st t \<noteq> FREE"
  then have "holds st1 j t" "locks st1 t \<noteq> FREE"
    using movedD(5) [OF assms(1) a] assms(3) [OF a(2)] movedD(3) [OF assms(1)] by simp_all
  then show "holds st2 j t" by (rule movedD(5) [OF assms(2)])
next
  fix j t assume "holds st2 j t"
  from movedD(6) [OF assms(2) this] show "(\<exists>i. holds st i t) \<or> t \<in> T" using movedD(6) [OF assms(1)] by blast
qed (use movedD [OF assms(1)] movedD [OF assms(2)] in simp_all)

lemma moved_refl: "cache_inv st \<Longrightarrow> moved T st st (cview st) (locks st)"
  by (auto simp: moved_def)

lemma moved_mono: "moved T st st' v L \<Longrightarrow> T \<subseteq> T' \<Longrightarrow> moved T' st st' v L"
  unfolding moved_def by blast

lemma reader_lock:
  assumes "cache_inv st" "0 < lk_b (locks st s)"
  shows "lk_g (locks st s) = 0"
proof (cases "\<exists>i. holds st i s")
  case True
  then obtain i where i: "holds st i s" by blast
  then have b: "block_ok (fs_device st) (blk st i)" using cache_invD(3) [OF assms(1)] by (simp add: holds_def)
  have r: "locks st s = rw (blk st i)" by (rule cview_holds(2) [OF assms(1) i])
  show ?thesis
    using b assms(2) by (auto simp: r block_ok_def unlocked_def wlocked_def rlocked_def)
next
  case False
  then show ?thesis using assms(2) cview_not_held(2) [of st s] by auto
qed

definition readable :: "fs \<Rightarrow> u32 \<Rightarrow> bool" where
  "readable st s \<longleftrightarrow> s \<noteq> 0 \<and> s < blk_size (fs_device st) \<and> (locks st s = FREE \<or> 0 < lk_b (locks st s))"

definition rlock :: "u32 \<Rightarrow> (u32 \<Rightarrow> rw_lock) \<Rightarrow> u32 \<Rightarrow> rw_lock" where
  "rlock s L = L(s := \<lparr>lk_g = 0, lk_b = lk_b (L s) + 1\<rparr>)"

lemma rlock_keeps: "L t \<noteq> FREE \<Longrightarrow> rlock s L t \<noteq> FREE"
  by (simp add: rlock_def FREE_def)

lemma finite_held:
  assumes "cache_inv st"
  shows "finite (held (locks st))"
proof (rule finite_subset)
  show "held (locks st) \<subseteq> (\<lambda>i. csector (blk st i)) ` {..<CACHE_BLOCKS}"
    by (auto simp: held_def locks_def holds_def FREE_def split: if_splits)
qed simp

lemma card_held_upd:
  assumes "cache_inv st"
  shows "card (held ((locks st)(s := r))) \<le> Suc (card (held (locks st)))"
proof -
  have "held ((locks st)(s := r)) \<subseteq> insert s (held (locks st))" by (auto simp: held_def)
  then have "card (held ((locks st)(s := r))) \<le> card (insert s (held (locks st)))"
    using finite_held [OF assms] by (intro card_mono) simp_all
  also have "\<dots> \<le> Suc (card (held (locks st)))" by (rule card_insert_le_m1) simp_all
  finally show ?thesis .
qed

lemma read_block:
  assumes inv: "cache_inv st" and s: "readable st s" and c: "card (held (locks st)) < CACHE_BLOCKS" and T: "s \<in> T"
  obtains st' i where "cache_read_block s st = Inr (st', i)" "bdata i st' = cview st s" "holds st' i s"
    "moved T st st' (cview st) (rlock s (locks st))" "card (held (locks st')) \<le> Suc (card (held (locks st)))"
proof -
  have s': "s \<noteq> 0" "s < blk_size (fs_device st)" "locks st s = FREE \<or> 0 < lk_b (locks st s)"
    using s by (auto simp: readable_def)
  obtain st' i where r: "cache_read_block s st = Inr (st', i)" "holds st' i s" "quiet st st' (rlock s (locks st))"
    using cache_read_block_ok [OF inv s' c] unfolding rlock_def by blast
  have m: "moved T st st' (cview st) (rlock s (locks st))"
    by (rule quiet_moved [OF r(3)]) (use T locked_held in \<open>auto simp: rlock_def split: if_splits\<close>)
  have "bdata i st' = cview st s" using cview_holds(1) [OF movedD(1) [OF m] r(2)] movedD(2) [OF m] by (simp add: bdata_def)
  moreover have "card (held (locks st')) \<le> Suc (card (held (locks st)))"
    unfolding movedD(3) [OF m] rlock_def by (rule card_held_upd [OF inv])
  ultimately show ?thesis using that r(1,2) m by blast
qed

text \<open>A read lock given back at the end of a stretch that leaves the locks as they were.\<close>

lemma read_end:
  assumes inv: "cache_inv st" and s: "readable st s" and m1: "moved T st st1 (cview st) (rlock s (locks st))"
    and h: "holds st1 i s" and m2: "moved T st1 st2 v (locks st1)"
  shows "moved T st (cache_read_end i st2) v (locks st)"
proof -
  have L1: "locks st1 = rlock s (locks st)" by (rule movedD(3) [OF m1])
  have L2: "locks st2 = rlock s (locks st)" using movedD(3) [OF m2] L1 by simp
  have h2: "holds st2 i s" by (rule movedD(5) [OF m2 h]) (simp add: L1 rlock_def FREE_def)
  have b: "0 \<le> lk_b (locks st s)" using s by (auto simp: readable_def FREE_def)
  have l: "lk_g (locks st2 s) = 0" "0 < lk_b (locks st2 s)" using b by (simp_all add: L2 rlock_def)
  let ?L = "(locks st2)(s := if lk_b (locks st2 s) = 1 then FREE else \<lparr>lk_g = 0, lk_b = lk_b (locks st2 s) - 1\<rparr>)"
  have "locks st s = (if lk_b (locks st s) = 0 then FREE else \<lparr>lk_g = 0, lk_b = lk_b (locks st s)\<rparr>)"
    using s reader_lock [OF inv, of s] by (cases "locks st s") (auto simp: readable_def FREE_def)
  then have L: "?L = locks st" by (auto simp: L2 rlock_def fun_eq_iff)
  have "quiet st2 (cache_read_end i st2) ?L" by (rule cache_read_end_ok(1) [OF movedD(1) [OF m2] h2 l])
  from quiet_same [OF this cache_read_end_ok(2) [OF movedD(1) [OF m2] h2 l]]
  have m3: "moved T st2 (cache_read_end i st2) v (locks st)" by (simp add: L movedD(2) [OF m2])
  have h3: "holds (cache_read_end i st2) = holds st2" by (rule cache_read_end_ok(2) [OF movedD(1) [OF m2] h2 l])
  have m12: "moved T st st2 v (locks st1)"
    by (rule moved_trans [OF m1 m2]) (rule rlock_keeps)
  show ?thesis
    unfolding moved_def h3 using movedD [OF m3] movedD [OF m12] by auto
qed

lemma read_end_now:
  assumes "cache_inv st" "readable st s" "moved T st st1 (cview st) (rlock s (locks st))" "holds st1 i s"
  shows "moved T st (cache_read_end i st1) (cview st) (locks st)"
  by (rule read_end [OF assms]) (use moved_refl [OF movedD(1) [OF assms(3)]] movedD(2) [OF assms(3)] in simp)

section \<open>The index of a file\<close>

definition MAX_BLOCKS :: nat where
  "MAX_BLOCKS = 60 + (40 + 128) * 128"

definition indirect :: "(u32 \<Rightarrow> u8 list) \<Rightarrow> u32 \<Rightarrow> nat \<Rightarrow> u32" where
  "indirect v s k = (if k < 40 then get_word (v s) (SINGLE_AT + k)
     else get_word (v (get_word (v s) DOUBLE_AT)) (k - 40))"

definition block_index :: "(u32 \<Rightarrow> u8 list) \<Rightarrow> u32 \<Rightarrow> nat \<Rightarrow> u32" where
  "block_index v s n = (if n < 60 then get_word (v s) n
     else get_word (v (indirect v s ((n - 60) div 128))) ((n - 60) mod 128))"

text \<open>The index sectors on the way to block \<open>n\<close>.\<close>

definition path :: "(u32 \<Rightarrow> u8 list) \<Rightarrow> u32 \<Rightarrow> nat \<Rightarrow> u32 set" where
  "path v s n = (if n < 60 then {s} else if (n - 60) div 128 < 40 then {s, indirect v s ((n - 60) div 128)}
     else {s, get_word (v s) DOUBLE_AT, indirect v s ((n - 60) div 128)})"

lemma path_self [simp]: "s \<in> path v s n"
  by (simp add: path_def)

lemma block_number:
  assumes "0 \<le> pos" "nat pos div 512 < MAX_BLOCKS"
  shows "word_of_int (pos sdiv 512) = (of_nat (nat pos div 512) :: u32)"
    "unat (of_nat (nat pos div 512) :: u32) = nat pos div 512"
proof -
  have "pos sdiv 512 = int (nat pos div 512)" using assms(1) sdiv_bounds(1) [of 512 pos] by (simp add: nat_div_distrib)
  then show "word_of_int (pos sdiv 512) = (of_nat (nat pos div 512) :: u32)" by simp
  show "unat (of_nat (nat pos div 512) :: u32) = nat pos div 512"
    using assms(2) by (simp add: unat_of_nat MAX_BLOCKS_def)
qed

lemma readable_rlock:
  assumes "readable st t" "moved T st st1 v (rlock s (locks st))"
  shows "readable st1 t"
  using assms movedD(3,4) [OF assms(2)] by (auto simp: readable_def rlock_def FREE_def)

lemma block_split:
  assumes "n < MAX_BLOCKS" "w = (of_nat n :: u32)"
  shows "unat w = n" "w < NUM_DIRECT \<longleftrightarrow> n < 60"
    "60 \<le> n \<Longrightarrow> unat ((w - NUM_DIRECT) div ENTRIES_PER_SECTOR) = (n - 60) div 128"
    "60 \<le> n \<Longrightarrow> unat ((w - NUM_DIRECT) mod ENTRIES_PER_SECTOR) = (n - 60) mod 128"
    "60 \<le> n \<Longrightarrow> (w - NUM_DIRECT) div ENTRIES_PER_SECTOR < NUM_SINGLE_INDIRECT \<longleftrightarrow> (n - 60) div 128 < 40"
    "60 \<le> n \<Longrightarrow> 40 \<le> (n - 60) div 128 \<Longrightarrow>
      unat ((w - NUM_DIRECT) div ENTRIES_PER_SECTOR - NUM_SINGLE_INDIRECT) = (n - 60) div 128 - 40"
    "60 \<le> n \<Longrightarrow> 40 \<le> (n - 60) div 128 \<Longrightarrow>
      (w - NUM_DIRECT) div ENTRIES_PER_SECTOR - NUM_SINGLE_INDIRECT < ENTRIES_PER_SECTOR"
proof -
  have n: "n < 2 ^ 32" "(n - 60) div 128 < 168" using assms(1) by (simp_all add: MAX_BLOCKS_def less_mult_imp_div_less)
  show u: "unat w = n" using n(1) by (simp add: assms(2) unat_of_nat)
  show "w < NUM_DIRECT \<longleftrightarrow> n < 60" by (simp add: word_less_nat_alt u NUM_DIRECT_def)
  assume le: "60 \<le> n"
  then have "NUM_DIRECT \<le> w" by (simp add: word_le_nat_alt u NUM_DIRECT_def)
  then have s: "unat (w - NUM_DIRECT) = n - 60" by (simp add: unat_sub u NUM_DIRECT_def)
  show d: "unat ((w - NUM_DIRECT) div ENTRIES_PER_SECTOR) = (n - 60) div 128"
    "unat ((w - NUM_DIRECT) mod ENTRIES_PER_SECTOR) = (n - 60) mod 128"
    by (simp_all add: unat_div unat_mod s ENTRIES_PER_SECTOR_def)
  show "(w - NUM_DIRECT) div ENTRIES_PER_SECTOR < NUM_SINGLE_INDIRECT \<longleftrightarrow> (n - 60) div 128 < 40"
    by (simp add: word_less_nat_alt d NUM_SINGLE_INDIRECT_def)
  assume "40 \<le> (n - 60) div 128"
  then have "NUM_SINGLE_INDIRECT \<le> (w - NUM_DIRECT) div ENTRIES_PER_SECTOR"
    by (simp add: word_le_nat_alt d NUM_SINGLE_INDIRECT_def)
  then show e: "unat ((w - NUM_DIRECT) div ENTRIES_PER_SECTOR - NUM_SINGLE_INDIRECT) = (n - 60) div 128 - 40"
    by (simp add: unat_sub d NUM_SINGLE_INDIRECT_def)
  show "(w - NUM_DIRECT) div ENTRIES_PER_SECTOR - NUM_SINGLE_INDIRECT < ENTRIES_PER_SECTOR"
    using n(2) by (simp add: word_less_nat_alt e) (simp add: ENTRIES_PER_SECTOR_def)
qed

lemma byte_to_sector_ok:
  assumes inv: "cache_inv st" and c: "card (held (locks st)) \<le> 60" and s: "i_sector inode = s"
    and pos: "0 \<le> pos" "nat pos div 512 < MAX_BLOCKS" and valid: "is_valid_inode (cview st s)"
    and path: "\<And>t. t \<in> path (cview st) s (nat pos div 512) \<Longrightarrow> readable st t"
    and T: "path (cview st) s (nat pos div 512) \<subseteq> T"
  obtains st' where "byte_to_sector inode pos st = Inr (st', block_index (cview st) s (nat pos div 512))"
    "moved T st st' (cview st) (locks st)"
proof -
  define n where "n = nat pos div 512"
  let ?w = "of_nat n :: u32"
  have w: "word_of_int (pos sdiv 512) = ?w" using block_number(1) [OF pos] by (simp add: n_def)
  note sp = block_split [OF pos(2) refl, folded n_def]
  have rs: "readable st s" by (rule path) simp
  have T': "s \<in> T" using T by (auto simp: path_def split: if_splits)
  obtain st1 c1 where r1: "cache_read_block s st = Inr (st1, c1)" "bdata c1 st1 = cview st s" "holds st1 c1 s"
    "moved T st st1 (cview st) (rlock s (locks st))" "card (held (locks st1)) \<le> Suc (card (held (locks st)))"
    by (rule read_block [OF inv rs]) (use c T' in \<open>simp_all add: CACHE_BLOCKS_def\<close>)
  have inv1: "cache_inv st1" "cview st1 = cview st" using movedD [OF r1(4)] by simp_all
  consider (direct) "n < 60" | (single) "60 \<le> n" "(n - 60) div 128 < 40" | (double) "60 \<le> n" "40 \<le> (n - 60) div 128"
    by linarith
  then show ?thesis
  proof cases
    case direct
    then have "byte_to_sector inode pos st = Inr (cache_read_end c1 st1, block_index (cview st) s n)"
      using r1(1,2) valid sp(1,2) by (simp add: byte_to_sector_def s w block_index_def)
    then show ?thesis using that read_end_now [OF inv rs r1(4,3)] by (simp add: n_def)
  next
    case single
    let ?t = "indirect (cview st) s ((n - 60) div 128)"
    have t: "readable st1 ?t" using single by (intro readable_rlock [OF path r1(4)]) (simp add: path_def n_def)
    have tT: "?t \<in> T" using T single by (auto simp: path_def n_def)
    obtain st2 c2 where r2: "cache_read_block ?t st1 = Inr (st2, c2)" "bdata c2 st2 = cview st1 ?t" "holds st2 c2 ?t"
      "moved T st1 st2 (cview st1) (rlock ?t (locks st1))"
      by (rule read_block [OF inv1(1) t]) (use c r1(5) tT in \<open>simp_all add: CACHE_BLOCKS_def\<close>)
    have g: "get_word (cview st s) (SINGLE_AT + (n - 60) div 128) = ?t" using single by (simp add: indirect_def)
    have "byte_to_sector inode pos st = Inr (cache_read_end c1 (cache_read_end c2 st2), block_index (cview st) s n)"
      using r1(1,2) r2(1,2) valid sp(2-5) single g by (simp add: byte_to_sector_def s w block_index_def inv1(2))
    moreover have "moved T st1 (cache_read_end c2 st2) (cview st) (locks st1)"
      using read_end_now [OF inv1(1) t r2(4,3)] inv1(2) by simp
    from read_end [OF inv rs r1(4,3) this] have "moved T st (cache_read_end c1 (cache_read_end c2 st2)) (cview st) (locks st)" .
    ultimately show ?thesis using that by (simp add: n_def)
  next
    case double
    let ?d = "get_word (cview st s) DOUBLE_AT" and ?t = "indirect (cview st) s ((n - 60) div 128)"
    have d: "readable st1 ?d" using double by (intro readable_rlock [OF path r1(4)]) (simp add: path_def n_def)
    have tT: "?d \<in> T" "?t \<in> T" using T double by (auto simp: path_def n_def)
    obtain st2 c2 where r2: "cache_read_block ?d st1 = Inr (st2, c2)" "bdata c2 st2 = cview st1 ?d" "holds st2 c2 ?d"
      "moved T st1 st2 (cview st1) (rlock ?d (locks st1))" "card (held (locks st2)) \<le> Suc (card (held (locks st1)))"
      by (rule read_block [OF inv1(1) d]) (use c r1(5) tT in \<open>simp_all add: CACHE_BLOCKS_def\<close>)
    have inv2: "cache_inv st2" "cview st2 = cview st" using movedD [OF r2(4)] inv1(2) by simp_all
    have "readable st1 ?t" using double by (intro readable_rlock [OF path r1(4)]) (simp add: path_def n_def)
    then have t: "readable st2 ?t" by (rule readable_rlock [OF _ r2(4)])
    obtain st3 c3 where r3: "cache_read_block ?t st2 = Inr (st3, c3)" "bdata c3 st3 = cview st2 ?t" "holds st3 c3 ?t"
      "moved T st2 st3 (cview st2) (rlock ?t (locks st2))"
      by (rule read_block [OF inv2(1) t]) (use c r1(5) r2(5) tT in \<open>simp_all add: CACHE_BLOCKS_def\<close>)
    have g: "get_word (bdata c2 st2) ((n - 60) div 128 - 40) = ?t" using double by (simp add: indirect_def r2(2) inv1(2))
    have "byte_to_sector inode pos st =
        Inr (cache_read_end c1 (cache_read_end c2 (cache_read_end c3 st3)), block_index (cview st) s n)"
      using r1(1,2) r2(1) r3(1,2) valid sp(2-7) double g by (simp add: byte_to_sector_def s w block_index_def inv2(2))
    moreover have "moved T st2 (cache_read_end c3 st3) (cview st1) (locks st2)"
      using read_end_now [OF inv2(1) t r3(4,3)] inv1(2) inv2(2) by simp
    from read_end [OF inv1(1) d r2(4,3) this] inv1(2)
    have "moved T st1 (cache_read_end c2 (cache_read_end c3 st3)) (cview st) (locks st1)" by simp
    from read_end [OF inv rs r1(4,3) this]
    have "moved T st (cache_read_end c1 (cache_read_end c2 (cache_read_end c3 st3))) (cview st) (locks st)" .
    ultimately show ?thesis using that by (simp add: n_def)
  qed
qed

lemma inode_length_ok:
  assumes inv: "cache_inv st" and c: "card (held (locks st)) \<le> 60" and s: "i_sector inode = s" "readable st s" "s \<in> T"
  obtains st' where "inode_length inode st = Inr (st', disk_length (cview st s))" "moved T st st' (cview st) (locks st)"
proof -
  obtain st1 c1 where r1: "cache_read_block s st = Inr (st1, c1)" "bdata c1 st1 = cview st s" "holds st1 c1 s"
    "moved T st st1 (cview st) (rlock s (locks st))"
    by (rule read_block [OF inv s(2)]) (use c s(3) in \<open>simp_all add: CACHE_BLOCKS_def\<close>)
  then show ?thesis using that read_end_now [OF inv s(2) r1(4,3)] by (simp add: inode_length_def s(1))
qed


end
