(* ===== verification/File_Content.thy ===== *)
theory File_Content
  imports Inode_Index
begin

text \<open>
  A file as an array of bytes: what \<open>inode_read_at\<close> returns and what \<open>inode_write_at\<close> changes,
  whatever the offset, the size and the alignment to sectors.
\<close>

declare neq0_conv [iff del] bot_nat_0.not_eq_extremum [simp del]

section \<open>The contents of a file\<close>

definition flen :: "(u32 \<Rightarrow> u8 list) \<Rightarrow> u32 \<Rightarrow> nat" where
  "flen v s = nat (disk_length (v s))"

definition bytes :: "(u32 \<Rightarrow> u8 list) \<Rightarrow> u32 \<Rightarrow> nat \<Rightarrow> u8 list" where
  "bytes v s N = map (\<lambda>i. v (block_index v s (i div 512)) ! (i mod 512)) [0..<N]"

definition content :: "(u32 \<Rightarrow> u8 list) \<Rightarrow> u32 \<Rightarrow> u8 list" where
  "content v s = bytes v s (flen v s)"

text \<open>
  The sectors of the first \<open>N\<close> bytes of a file: its inode, and for each block the block and its index
  sectors. \<open>N\<close> is the length of the file, or more while the file is being extended.
\<close>

definition sectors :: "(u32 \<Rightarrow> u8 list) \<Rightarrow> u32 \<Rightarrow> nat \<Rightarrow> u32 set" where
  "sectors v s N = insert s (\<Union>n\<in>{n. n * 512 < N}. insert (block_index v s n) (path v s n))"

definition file_shape :: "(u32 \<Rightarrow> u8 list) \<Rightarrow> u32 \<Rightarrow> u32 \<Rightarrow> nat \<Rightarrow> bool" where
  "file_shape v limit s N \<longleftrightarrow> is_valid_inode (v s) \<and> N \<le> MAX_BLOCKS * 512 \<and> (\<forall>t\<in>sectors v s N. t \<noteq> 0 \<and> t < limit)"

text \<open>
  The blocks with the bytes are different from each other and from the index sectors, and the inode's
  sector is not one of its indirect sectors.
\<close>

definition blocks_apart :: "(u32 \<Rightarrow> u8 list) \<Rightarrow> u32 \<Rightarrow> nat \<Rightarrow> bool" where
  "blocks_apart v s N \<longleftrightarrow> (\<forall>n m. n * 512 < N \<longrightarrow> m * 512 < N \<longrightarrow>
     (block_index v s n = block_index v s m \<longrightarrow> n = m) \<and> block_index v s n \<notin> path v s m) \<and>
     (\<forall>n. n * 512 < N \<longrightarrow> 60 \<le> n \<longrightarrow> indirect v s ((n - 60) div 128) \<noteq> s \<and>
       (40 \<le> (n - 60) div 128 \<longrightarrow> get_word (v s) DOUBLE_AT \<noteq> s))"

text \<open>A state in which a thread may use the file: none of its sectors is locked.\<close>

definition usable :: "fs \<Rightarrow> u32 \<Rightarrow> nat \<Rightarrow> bool" where
  "usable st s N \<longleftrightarrow> cache_inv st \<and> card (held (locks st)) \<le> 60 \<and> file_shape (cview st) (blk_size (fs_device st)) s N \<and>
     (\<forall>t\<in>sectors (cview st) s N. locks st t = FREE)"

lemma length_bytes [simp]: "length (bytes v s N) = N" "length (content v s) = flen v s"
  by (simp_all add: bytes_def content_def)

lemma cview_length:
  assumes "cache_inv st"
  shows "length (cview st t) = 512"
proof (cases "\<exists>i. holds st i t")
  case True
  then obtain i where i: "holds st i t" by blast
  then have "block_ok (fs_device st) (blk st i)" using cache_invD(3) [OF assms] by (simp add: holds_def)
  then show ?thesis using cview_holds(1) [OF assms i] by (simp add: block_ok_def BLOCK_SECTOR_SIZE_def)
next
  case False
  then show ?thesis using cview_not_held(1) [of st t] cache_invD(2) [OF assms] by (simp add: device_ok_def BLOCK_SECTOR_SIZE_def)
qed

lemma usableD:
  assumes "usable st s N"
  shows "cache_inv st" "card (held (locks st)) \<le> 60" "is_valid_inode (cview st s)" "N \<le> MAX_BLOCKS * 512"
    "t \<in> sectors (cview st) s N \<Longrightarrow> locks st t = FREE" "t \<in> sectors (cview st) s N \<Longrightarrow> readable st t"
    "t \<in> sectors (cview st) s N \<Longrightarrow> t \<noteq> 0" "t \<in> sectors (cview st) s N \<Longrightarrow> t < blk_size (fs_device st)"
  using assms by (auto simp: usable_def file_shape_def readable_def)

lemma sectors_block:
  assumes "i < N"
  shows "i div 512 * 512 < N" "block_index v s (i div 512) \<in> sectors v s N" "path v s (i div 512) \<subseteq> sectors v s N"
proof -
  show "i div 512 * 512 < N" using assms by (metis div_times_less_eq_dividend le_less_trans)
  then show "block_index v s (i div 512) \<in> sectors v s N" "path v s (i div 512) \<subseteq> sectors v s N" by (auto simp: sectors_def)
qed

lemma usable_moved:
  assumes "usable st s N" "moved T st st' (cview st) (locks st)"
  shows "usable st' s N"
  using assms movedD [OF assms(2)] by (simp add: usable_def)

lemma smod_pos: "0 \<le> (x :: int) \<Longrightarrow> 0 < m \<Longrightarrow> x smod m = x mod m"
  by (simp add: signed_modulo_int_def sgn_if)

lemma bytes_chunk:
  assumes "off < N" "off mod 512 + c \<le> 512" "off + c \<le> N" "length (v (block_index v s (off div 512))) = 512"
  shows "take c (drop (off mod 512) (v (block_index v s (off div 512)))) = take c (drop off (bytes v s N))"
proof (rule nth_equalityI)
  fix i assume i: "i < length (take c (drop (off mod 512) (v (block_index v s (off div 512)))))"
  then have ic: "i < c" by simp
  have "off mod 512 + i < 512" using ic assms(2) by simp
  then have "(off + i) div 512 = off div 512" "(off + i) mod 512 = off mod 512 + i"
    by (simp_all add: div_add1_eq [of off i] mod_add_eq [of off 512 i, symmetric])
  then show "take c (drop (off mod 512) (v (block_index v s (off div 512)))) ! i = take c (drop off (bytes v s N)) ! i"
    using ic assms by (simp add: bytes_def)
qed (use assms in simp)

section \<open>Reading\<close>

text \<open>
  \<open>byte_to_sector\<close> is called once more at the end of the file, before the loop sees that nothing is
  left there; the index sectors of that position have to be there.
\<close>

definition end_ok :: "u32 set \<Rightarrow> fs \<Rightarrow> u32 \<Rightarrow> nat \<Rightarrow> nat \<Rightarrow> bool" where
  "end_ok T st s off sz \<longleftrightarrow> off + sz \<le> flen (cview st) s \<or>
     (let n = max off (flen (cview st) s) div 512 in n < MAX_BLOCKS \<and> (\<forall>t\<in>path (cview st) s n. readable st t \<and> t \<in> T))"

lemma end_ok_moved:
  assumes "moved T st st' (cview st) (locks st)"
  shows "readable st' = readable st" "end_ok T st' s off sz = end_ok T st s off sz"
proof -
  show r: "readable st' = readable st" using movedD [OF assms] by (simp add: readable_def fun_eq_iff)
  show "end_ok T st' s off sz = end_ok T st s off sz" unfolding end_ok_def r movedD(2) [OF assms] ..
qed

lemma end_ok_step:
  assumes "end_ok T st s off sz" "c \<le> sz" "off + c \<le> flen (cview st) s"
  shows "end_ok T st s (off + c) (sz - c)"
  using assms by (auto simp: end_ok_def max_def Let_def split: if_splits)

lemma read_loop_ok:
  assumes "usable st s (flen (cview st) s)" "0 \<le> disk_length (cview st s)" "i_sector inode = s" "0 \<le> off" "0 \<le> sz" "end_ok T st s (nat off) (nat sz)" "sectors (cview st) s (flen (cview st) s) \<subseteq> T" "nat sz < n"
  shows "\<exists>st'. read_loop n inode sz off st = Inr (st', take (nat sz) (drop (nat off) (content (cview st) s))) \<and>
     moved T st st' (cview st) (locks st)"
  using assms
proof (induction n arbitrary: st off sz)
  case (Suc n)
  let ?v = "cview st" and ?k = "nat off div 512"
  note u = usableD [OF Suc.prems(1)] and s = Suc.prems(3) and off = Suc.prems(4) and sz = Suc.prems(5)
  show ?case
  proof (cases "sz > 0")
    case True
    let ?len = "flen ?v s"
    have len: "disk_length (?v s) = int ?len" using Suc.prems(2) by (simp add: flen_def)
    have pk: "?k < MAX_BLOCKS \<and> (\<forall>t\<in>path ?v s ?k. readable st t \<and> t \<in> T)"
    proof (cases "nat off < ?len")
      case lt: True
      then show ?thesis using Suc.prems(7) u(4,6) sectors_block(3) [OF lt, of ?v s] by (auto simp: less_mult_imp_div_less)
    next
      case False
      then have "max (nat off) ?len = nat off" by simp
      moreover have "\<not> nat off + nat sz \<le> ?len" using False True by simp
      ultimately show ?thesis using Suc.prems(6) by (simp add: end_ok_def Let_def)
    qed
    obtain st1 where b: "byte_to_sector inode off st = Inr (st1, block_index ?v s ?k)" "moved T st st1 ?v (locks st)"
      by (rule byte_to_sector_ok [where T = T, OF u(1,2) s off conjunct1 [OF pk] u(3)]) (use pk in auto)
    have m1: "cview st1 = ?v" "locks st1 = locks st" using movedD [OF b(2)] by simp_all
    note u1 = usableD [OF usable_moved [OF Suc.prems(1) b(2)]]
    have rs: "readable st1 s" by (rule u1(6)) (simp add: sectors_def)
    obtain st2 where l: "inode_length inode st1 = Inr (st2, disk_length (?v s))" "moved T st1 st2 ?v (locks st)"
      using inode_length_ok [OF u1(1,2) s rs, of T] Suc.prems(7) unfolding m1 sectors_def by blast
    have mv2: "moved T st st2 ?v (locks st)" by (rule moved_trans [OF b(2) l(2)]) simp
    note u2 = usableD [OF usable_moved [OF Suc.prems(1) mv2]]
    have v2: "cview st2 = ?v" "locks st2 = locks st" using movedD [OF mv2] by simp_all
    define ofs where "ofs = nat off mod 512"
    have ofs: "off smod 512 = int ofs" using off by (simp add: smod_pos ofs_def nat_mod_distrib zmod_int)
    have ofs512: "ofs < 512" by (simp add: ofs_def)
    define c where "c = (let m = (if int ?len - off < 512 - int ofs then int ?len - off else 512 - int ofs) in if sz < m then sz else m)"
    have step: "read_loop (Suc n) inode sz off st =
       (if c \<le> 0 then Inr (st2, []) else bindR (cache_read_block (block_index ?v s ?k) st2) (\<lambda>(st, i).
          bindR (read_loop n inode (sz - c) (off + c) (cache_read_end i st)) (\<lambda>(st', rest).
          Inr (st', take (nat c) (drop ofs (bdata i st)) @ rest))))"
      using True b(1) l(1) by (simp add: ofs len c_def Let_def)
    show ?thesis
    proof (cases "c \<le> 0")
      case neg: True
      then have "?len \<le> nat off" using True ofs512 off by (auto simp: c_def Let_def split: if_splits)
      then show ?thesis using step neg mv2 by simp
    next
      case False
      then have lt: "nat off < ?len" using True off by (auto simp: c_def Let_def split: if_splits)
      have c: "0 < c" "c \<le> sz" "nat off + nat c \<le> ?len" "ofs + nat c \<le> 512"
        using False off ofs512 by (auto simp: c_def Let_def split: if_splits)
      let ?t = "block_index ?v s ?k"
      have t: "readable st2 ?t" using u2(6) sectors_block(2) [OF lt, of ?v s] by (simp add: v2)
      have tT: "?t \<in> T" using Suc.prems(7) sectors_block(2) [OF lt, of ?v s] by blast
        obtain st3 i where r: "cache_read_block ?t st2 = Inr (st3, i)" "bdata i st3 = cview st2 ?t" "holds st3 i ?t"
        "moved T st2 st3 (cview st2) (rlock ?t (locks st2))"
        by (rule read_block [OF u2(1) t]) (use u2(2) tT in \<open>simp_all add: CACHE_BLOCKS_def\<close>)
      let ?st = "cache_read_end i st3"
      have "moved T st2 ?st (cview st2) (locks st2)" by (rule read_end_now [OF u2(1) t r(4,3)])
      then have "moved T st2 ?st ?v (locks st)" by (simp only: v2)
      then have mv: "moved T st ?st ?v (locks st)" by (intro moved_trans [OF mv2]) simp_all
      have v3: "cview ?st = ?v" "locks ?st = locks st" using movedD [OF mv] by simp_all
      have e: "end_ok T ?st s (nat (off + c)) (nat (sz - c))"
        using end_ok_step [OF Suc.prems(6), of "nat c"] off c
        by (simp add: end_ok_moved [OF mv] nat_add_distrib nat_diff_distrib)
      have "\<exists>st'. read_loop n inode (sz - c) (off + c) ?st = Inr (st', take (nat (sz - c)) (drop (nat (off + c)) (content (cview ?st) s))) \<and>
          moved T ?st st' (cview ?st) (locks ?st)"
        by (rule Suc.IH [OF _ _ s _ _ e]) (use usable_moved [OF Suc.prems(1) mv] Suc.prems(2) off c Suc.prems(7,8) in \<open>simp_all add: v3\<close>)
      then obtain st' where st': "read_loop n inode (sz - c) (off + c) ?st =
          Inr (st', take (nat (sz - c)) (drop (nat (off + c)) (content ?v s)))" "moved T ?st st' ?v (locks st)"
        unfolding v3 by blast
      have "take (nat c) (drop ofs (?v ?t)) = take (nat c) (drop (nat off) (content ?v s))"
        unfolding ofs_def content_def by (rule bytes_chunk) (use lt c cview_length [OF u(1)] in \<open>simp_all add: ofs_def\<close>)
      moreover have "nat sz = nat c + nat (sz - c)" "nat (off + c) = nat off + nat c" using c off by simp_all
      ultimately have "take (nat c) (drop ofs (?v ?t)) @ take (nat (sz - c)) (drop (nat (off + c)) (content ?v s)) =
          take (nat sz) (drop (nat off) (content ?v s))"
        by (simp add: take_add add.commute)
      then have "read_loop (Suc n) inode sz off st = Inr (st', take (nat sz) (drop (nat off) (content ?v s)))"
        unfolding step using False r(1,2) st'(1) by (simp add: v2)
      moreover have "moved T st st' ?v (locks st)" by (rule moved_trans [OF mv st'(2)]) simp
      ultimately show ?thesis by blast
    qed
  qed (use sz moved_refl [OF u(1)] in simp)
qed simp

lemma inode_read_at_ok:
  assumes "usable st s (flen (cview st) s)" "0 \<le> disk_length (cview st s)" "i_sector inode = s" "0 \<le> off" "0 \<le> sz" "end_ok T st s (nat off) (nat sz)" "sectors (cview st) s (flen (cview st) s) \<subseteq> T"
  obtains st' where "inode_read_at inode sz off st = Inr (st', take (nat sz) (drop (nat off) (content (cview st) s)))"
    "moved T st st' (cview st) (locks st)"
  using read_loop_ok [OF assms lessI] by (auto simp: inode_read_at_def)


section \<open>Writing in place\<close>

lemma length_overwrite [simp]: "k + length bs \<le> length d \<Longrightarrow> length (overwrite d k bs) = length d"
  by (simp add: overwrite_def)

lemma nth_overwrite:
  assumes "k + length bs \<le> length d" "i < length d"
  shows "overwrite d k bs ! i = (if k \<le> i \<and> i < k + length bs then bs ! (i - k) else d ! i)"
  using assms by (auto simp: overwrite_def nth_append)

lemma overwrite_append:
  assumes "k + length a + length b \<le> length d"
  shows "overwrite (overwrite d k a) (k + length a) b = overwrite d k (a @ b)"
  using assms by (simp add: overwrite_def ac_simps)

lemma write_block:
  assumes inv: "cache_inv st" and s: "s \<noteq> 0" "s < blk_size (fs_device st)" "locks st s = FREE" and c: "card (held (locks st)) < CACHE_BLOCKS"
    and T: "s \<in> T"
  obtains st' i where "cache_write_block s st = Inr (st', i)" "bdata i st' = cview st s" "holds st' i s"
    "moved T st st' (cview st) ((locks st)(s := WRITE))" "card (held (locks st')) \<le> Suc (card (held (locks st)))"
proof -
  obtain st' i where r: "cache_write_block s st = Inr (st', i)" "holds st' i s" "quiet st st' ((locks st)(s := WRITE))"
    by (rule cache_write_block_ok [OF inv s c])
  have m: "moved T st st' (cview st) ((locks st)(s := WRITE))"
    by (rule quiet_moved [OF r(3)]) (use T locked_held in \<open>auto split: if_splits\<close>)
  have "bdata i st' = cview st s" using cview_holds(1) [OF movedD(1) [OF m] r(2)] movedD(2) [OF m] by (simp add: bdata_def)
  moreover have "card (held (locks st')) \<le> Suc (card (held (locks st)))"
    unfolding movedD(3) [OF m] by (rule card_held_upd [OF inv])
  ultimately show ?thesis using that r(1,2) m by blast
qed

lemma put_moved:
  assumes "cache_inv st" "holds st i s" "locks st s = WRITE" "length d = 512"
  shows "moved T st (put_data i d st) ((cview st)(s := d)) (locks st)" "holds (put_data i d st) = holds st"
  using put_data_ok [OF assms(1-3), of d] assms(4) by (auto simp: moved_def BLOCK_SECTOR_SIZE_def)

lemma write_end:
  assumes m1: "moved T st st1 (cview st) ((locks st)(s := WRITE))" and l: "locks st s = FREE"
    and h: "holds st1 i s" and m2: "moved T st1 st2 v (locks st1)"
  shows "moved T st (cache_write_end i st2) v (locks st)"
proof -
  have L1: "locks st1 = (locks st)(s := WRITE)" by (rule movedD(3) [OF m1])
  have L2: "locks st2 = (locks st)(s := WRITE)" using movedD(3) [OF m2] L1 by simp
  have h2: "holds st2 i s" by (rule movedD(5) [OF m2 h]) (simp add: L1 WRITE_def FREE_def)
  have w: "locks st2 s = WRITE" by (simp add: L2)
  have L: "(locks st2)(s := FREE) = locks st" using l by (simp add: L2 fun_upd_idem)
  have h3: "holds (cache_write_end i st2) = holds st2" by (rule cache_write_end_ok(2) [OF movedD(1) [OF m2] h2 w])
  have "quiet st2 (cache_write_end i st2) (locks st)" using cache_write_end_ok(1) [OF movedD(1) [OF m2] h2 w] by (simp add: L)
  from quiet_same [OF this h3] have m3: "moved T st2 (cache_write_end i st2) v (locks st)" by (simp add: movedD(2) [OF m2])
  have m12: "moved T st st2 v (locks st1)"
    by (rule moved_trans [OF m1 m2]) (auto simp: WRITE_def FREE_def)
  show ?thesis
    unfolding moved_def h3 using movedD [OF m3] movedD [OF m12] by auto
qed

text \<open>Taking a sector for writing, replacing its bytes and giving it back.\<close>

lemma write_sector:
  assumes m1: "moved T st st1 (cview st) ((locks st)(s := WRITE))" and l: "locks st s = FREE" and h: "holds st1 i s"
    and d: "length d = 512"
  shows "moved T st (cache_write_end i (put_data i d st1)) ((cview st)(s := d)) (locks st)"
proof -
  have w: "locks st1 s = WRITE" using movedD(3) [OF m1] by simp
  from put_moved(1) [OF movedD(1) [OF m1] h w d] movedD(2) [OF m1]
  have "moved T st1 (put_data i d st1) ((cview st)(s := d)) (locks st1)" by simp
  then show ?thesis by (rule write_end [OF m1 l h])
qed

text \<open>A change of blocks with bytes leaves the index alone.\<close>

definition data_blocks :: "(u32 \<Rightarrow> u8 list) \<Rightarrow> u32 \<Rightarrow> nat \<Rightarrow> u32 set" where
  "data_blocks v s N = block_index v s ` {n. n * 512 < N}"

lemma index_cong:
  assumes "\<And>t. t \<in> path v s m \<Longrightarrow> v' t = v t"
  shows "block_index v' s m = block_index v s m" "path v' s m = path v s m" "v' s = v s"
    "60 \<le> m \<Longrightarrow> indirect v' s ((m - 60) div 128) = indirect v s ((m - 60) div 128)"
proof -
  show s: "v' s = v s" by (rule assms) simp
  show i: "60 \<le> m \<Longrightarrow> indirect v' s ((m - 60) div 128) = indirect v s ((m - 60) div 128)"
    using assms [of "get_word (v s) DOUBLE_AT"] by (auto simp: indirect_def s path_def)
  then show "path v' s m = path v s m" by (auto simp: path_def s)
  show "block_index v' s m = block_index v s m"
    using i assms [of "indirect v s ((m - 60) div 128)"] by (auto simp: block_index_def s path_def)
qed

lemma inode_not_data:
  assumes "blocks_apart v s N"
  shows "s \<notin> data_blocks v s N"
proof
  assume "s \<in> data_blocks v s N"
  then obtain n where n: "s = block_index v s n" "n * 512 < N" unfolding data_blocks_def by blast
  then have "block_index v s n \<notin> path v s n" using assms unfolding blocks_apart_def by blast
  then show False using n(1) by (metis path_self)
qed

lemma data_change:
  assumes ap: "blocks_apart v s N" and ch: "\<And>t. t \<notin> data_blocks v s N \<Longrightarrow> v' t = v t"
  shows "m * 512 < N \<Longrightarrow> block_index v' s m = block_index v s m" "m * 512 < N \<Longrightarrow> path v' s m = path v s m"
    "v' s = v s" "sectors v' s N = sectors v s N" "data_blocks v' s N = data_blocks v s N" "blocks_apart v' s N"
    "file_shape v' limit s N = file_shape v limit s N"
proof -
  have p: "v' t = v t" if "m * 512 < N" "t \<in> path v s m" for m t
    using ap that by (intro ch) (auto simp: blocks_apart_def data_blocks_def)
  show i: "m * 512 < N \<Longrightarrow> block_index v' s m = block_index v s m" "m * 512 < N \<Longrightarrow> path v' s m = path v s m" for m
    using index_cong [of v s m v', OF p] by simp_all
  show vs: "v' s = v s"
  proof (cases "0 < N")
    case True
    then show ?thesis by (intro p [of 0]) simp_all
  qed (use ch in \<open>simp add: data_blocks_def\<close>)
  show sec: "sectors v' s N = sectors v s N" unfolding sectors_def using i by (intro arg_cong [where f = "insert s"] SUP_cong) auto
  show "data_blocks v' s N = data_blocks v s N" unfolding data_blocks_def using i by (intro image_cong) auto
  have "m * 512 < N \<Longrightarrow> 60 \<le> m \<Longrightarrow> indirect v' s ((m - 60) div 128) = indirect v s ((m - 60) div 128)" for m
    using index_cong(4) [of v s m v', OF p] by simp
  then show "blocks_apart v' s N" using ap i vs by (simp add: blocks_apart_def)
  show "file_shape v' limit s N = file_shape v limit s N" by (simp add: file_shape_def vs sec)
qed

lemma usable_change:
  assumes u: "usable st s N" and ap: "blocks_apart (cview st) s N" and m: "moved T st st' v' (locks st)"
    and ch: "\<forall>t. t \<notin> data_blocks (cview st) s N \<longrightarrow> v' t = cview st t"
  shows "usable st' s N" "blocks_apart (cview st') s N" "sectors (cview st') s N = sectors (cview st) s N"
    "data_blocks (cview st') s N = data_blocks (cview st) s N"
proof -
  note d = data_change [where v' = v', OF ap, OF ch [rule_format]] and v = movedD [OF m]
  show "usable st' s N" using u d(4) d(7) v by (auto simp: usable_def)
  show "blocks_apart (cview st') s N" "sectors (cview st') s N = sectors (cview st) s N"
    "data_blocks (cview st') s N = data_blocks (cview st) s N"
    using d(4-6) v(2) by simp_all
qed

lemma bytes_change:
  assumes ap: "blocks_apart v s N" and i: "off < N" and b: "off mod 512 + length bs \<le> 512" "off + length bs \<le> N"
    and t: "t = block_index v s (off div 512)" and len: "length (v t) = 512"
  shows "bytes (v(t := overwrite (v t) (off mod 512) bs)) s N = overwrite (bytes v s N) off bs"
proof (rule nth_equalityI)
  let ?v = "v(t := overwrite (v t) (off mod 512) bs)"
  show "length (bytes ?v s N) = length (overwrite (bytes v s N) off bs)" using b by simp
  fix j assume "j < length (bytes ?v s N)"
  then have j: "j < N" by simp
  have t': "t \<in> data_blocks v s N" using sectors_block(1) [OF i] by (auto simp: t data_blocks_def)
  have e: "block_index ?v s (j div 512) = block_index v s (j div 512)"
    by (rule data_change(1) [OF ap]) (use t' sectors_block(1) [OF j] in auto)
  have inj: "block_index v s (j div 512) = t \<longleftrightarrow> j div 512 = off div 512"
    using ap sectors_block(1) [OF i] sectors_block(1) [OF j] by (auto simp: t blocks_apart_def)
  have "off \<le> j \<and> j < off + length bs \<longleftrightarrow> j div 512 = off div 512 \<and> off mod 512 \<le> j mod 512 \<and> j mod 512 < off mod 512 + length bs"
  proof
    assume a: "off \<le> j \<and> j < off + length bs"
    then have "off mod 512 + (j - off) < 512" using b(1) by linarith
    then have "(off + (j - off)) div 512 = off div 512" "(off + (j - off)) mod 512 = off mod 512 + (j - off)"
      by (simp_all add: div_add1_eq [of off "j - off"] mod_add_eq [of off 512 "j - off", symmetric] del: le_add_diff_inverse)
    then show "j div 512 = off div 512 \<and> off mod 512 \<le> j mod 512 \<and> j mod 512 < off mod 512 + length bs" using a by auto
  next
    assume a: "j div 512 = off div 512 \<and> off mod 512 \<le> j mod 512 \<and> j mod 512 < off mod 512 + length bs"
    then show "off \<le> j \<and> j < off + length bs" using div_mult_mod_eq [of j 512] div_mult_mod_eq [of off 512] by linarith
  qed
  moreover have "j mod 512 - off mod 512 = j - off" if "j div 512 = off div 512"
    using that div_mult_mod_eq [of j 512] div_mult_mod_eq [of off 512] by linarith
  ultimately show "bytes ?v s N ! j = overwrite (bytes v s N) off bs ! j"
    using j inj b len by (simp add: bytes_def e nth_overwrite t [symmetric])
qed


lemma write_loop_ok:
  assumes "usable st s N" "blocks_apart (cview st) s N" "i_sector inode = s" "0 \<le> off" "0 \<le> sz"
    and "nat off + nat sz \<le> N" "nat sz \<le> length buf" "sectors (cview st) s N \<subseteq> T" "nat sz < n"
  shows "\<exists>st' v. write_loop n inode buf sz off st = Inr (st', sz) \<and> moved T st st' v (locks st) \<and>
     bytes v s N = overwrite (bytes (cview st) s N) (nat off) (take (nat sz) buf) \<and>
     (\<forall>t. t \<notin> data_blocks (cview st) s N \<longrightarrow> v t = cview st t)"
  using assms
proof (induction n arbitrary: st off sz buf)
  case (Suc n)
  let ?v = "cview st" and ?k = "nat off div 512"
  note u = usableD [OF Suc.prems(1)] and ap = Suc.prems(2) and s = Suc.prems(3) and off = Suc.prems(4) and sz = Suc.prems(5)
  show ?case
  proof (cases "sz > 0")
    case True
    then have lt: "nat off < N" using Suc.prems(6) by simp
    have k: "?k < MAX_BLOCKS" using lt u(4) by (auto simp: less_mult_imp_div_less)
    obtain st1 where b: "byte_to_sector inode off st = Inr (st1, block_index ?v s ?k)" "moved T st st1 ?v (locks st)"
      by (rule byte_to_sector_ok [where T = T, OF u(1,2) s off k u(3)]) (use u(6) Suc.prems(8) sectors_block(3) [OF lt, of ?v s] in auto)
    have m1: "cview st1 = ?v" "locks st1 = locks st" using movedD [OF b(2)] by simp_all
    note u1 = usableD [OF usable_moved [OF Suc.prems(1) b(2)]]
    define ofs where "ofs = nat off mod 512"
    have ofs: "off smod 512 = int ofs" using off by (simp add: smod_pos ofs_def nat_mod_distrib zmod_int)
    have ofs512: "ofs < 512" by (simp add: ofs_def)
    define c where "c = (if sz < 512 - int ofs then sz else 512 - int ofs)"
    have c: "0 < c" "c \<le> sz" "nat off + nat c \<le> N" "ofs + nat c \<le> 512" "nat c \<le> length buf"
      using True off ofs512 Suc.prems(6,7) by (auto simp: c_def split: if_splits)
    let ?t = "block_index ?v s ?k" and ?bs = "take (nat c) buf"
    let ?d = "overwrite (?v ?t) ofs ?bs"
    have t: "?t \<in> sectors (cview st1) s N" using sectors_block(2) [OF lt] by (simp add: m1)
    have tT: "?t \<in> T" using Suc.prems(8) sectors_block(2) [OF lt, of ?v s] by blast
    obtain st2 i where w: "cache_write_block ?t st1 = Inr (st2, i)" "bdata i st2 = cview st1 ?t" "holds st2 i ?t"
        "moved T st1 st2 (cview st1) ((locks st1)(?t := WRITE))"
      by (rule write_block [OF u1(1) u1(7,8,5) [OF t]]) (use u1(2) tT in \<open>simp_all add: CACHE_BLOCKS_def\<close>)
    let ?st = "cache_write_end i (put_data i ?d st2)"
    have lv: "length (?v ?t) = 512" by (rule cview_length [OF u(1)])
    have "length ?d = 512" using c(4,5) lv by simp
    from write_sector [OF w(4) u1(5) [OF t] w(3) this]
    have "moved T st1 ?st (?v(?t := ?d)) (locks st)" by (simp add: m1)
    then have mv: "moved T st ?st (?v(?t := ?d)) (locks st)" by (intro moved_trans [OF b(2)]) simp_all
    have tb: "?t \<in> data_blocks ?v s N" using sectors_block(1) [OF lt] by (auto simp: data_blocks_def)
    have chg: "\<forall>x. x \<notin> data_blocks ?v s N \<longrightarrow> (?v(?t := ?d)) x = ?v x" using tb by auto
    note uc = usable_change [OF Suc.prems(1) ap mv chg]
    have v3: "cview ?st = ?v(?t := ?d)" "locks ?st = locks st" using movedD [OF mv] by simp_all
    have "\<exists>st' v. write_loop n inode (drop (nat c) buf) (sz - c) (off + c) ?st = Inr (st', sz - c) \<and> moved T ?st st' v (locks ?st) \<and>
       bytes v s N = overwrite (bytes (cview ?st) s N) (nat (off + c)) (take (nat (sz - c)) (drop (nat c) buf)) \<and>
       (\<forall>t. t \<notin> data_blocks (cview ?st) s N \<longrightarrow> v t = cview ?st t)"
    proof (rule Suc.IH [OF uc(1,2) s])
      show "0 \<le> off + c" "0 \<le> sz - c" using off c by simp_all
      show "nat (off + c) + nat (sz - c) \<le> N" using Suc.prems(6) off c(1,2) by linarith
      show "nat (sz - c) \<le> length (drop (nat c) buf)" using Suc.prems(7) c(1,2) by simp
      show "sectors (cview ?st) s N \<subseteq> T" using Suc.prems(8) uc(3) by simp
      show "nat (sz - c) < n" using Suc.prems(9) c(1,2) by linarith
    qed
    then obtain st' v where st': "write_loop n inode (drop (nat c) buf) (sz - c) (off + c) ?st = Inr (st', sz - c)"
       "moved T ?st st' v (locks st)"
       "bytes v s N = overwrite (bytes (?v(?t := ?d)) s N) (nat (off + c)) (take (nat (sz - c)) (drop (nat c) buf))"
       "\<forall>t. t \<notin> data_blocks ?v s N \<longrightarrow> v t = (?v(?t := ?d)) t"
      unfolding uc(4) [unfolded v3(1)] v3 by blast
    have step: "write_loop (Suc n) inode buf sz off st = Inr (st', sz)"
      using True b(1) c(1) w(1,2) st'(1) by (simp add: ofs c_def [symmetric] Let_def m1)
    have "bytes (?v(?t := ?d)) s N = overwrite (bytes ?v s N) (nat off) ?bs"
      unfolding ofs_def by (rule bytes_change [OF ap lt _ _ refl lv]) (use c in \<open>simp_all add: ofs_def\<close>)
    moreover have "nat (off + c) = nat off + length ?bs" using off c by (simp add: nat_add_distrib)
    moreover have tk: "take (nat sz) buf = ?bs @ take (nat (sz - c)) (drop (nat c) buf)"
      using c take_add [of "nat c" "nat (sz - c)" buf] by (simp add: nat_diff_distrib)
    moreover have "nat off + length ?bs + length (take (nat (sz - c)) (drop (nat c) buf)) \<le> length (bytes ?v s N)"
    proof -
      have "length ?bs + length (take (nat (sz - c)) (drop (nat c) buf)) = length (take (nat sz) buf)" by (simp only: tk length_append)
      also have "\<dots> \<le> nat sz" by simp
      finally show ?thesis using Suc.prems(6) by (simp only: length_bytes)
    qed
    ultimately have "bytes v s N = overwrite (bytes ?v s N) (nat off) (take (nat sz) buf)"
      using st'(3) overwrite_append [of "nat off" ?bs "take (nat (sz - c)) (drop (nat c) buf)" "bytes ?v s N"] by metis
    moreover have "moved T st st' v (locks st)" by (rule moved_trans [OF mv st'(2)]) simp
    moreover have "\<forall>t. t \<notin> data_blocks ?v s N \<longrightarrow> v t = ?v t" using st'(4) tb by auto
    ultimately show ?thesis using step by blast
  qed (use sz moved_refl [OF u(1)] in \<open>auto simp: overwrite_def\<close>)
qed simp


section \<open>The words of a sector\<close>

lemma get_put_word:
  assumes "length d = 512" "k < 128" "k' < 128"
  shows "get_word (put_word d k w) k' = (if k' = k then w else get_word d k')" "length (put_word d k w) = 512"
proof -
  have l: "4 * k + length (word_bytes w) \<le> length d" using assms by simp
  show "length (put_word d k w) = 512" using l assms(1) by (simp add: put_word_def)
  have "take 4 (drop (4 * k') (put_word d k w)) = (if k' = k then word_bytes w else take 4 (drop (4 * k') d))"
  proof (rule nth_equalityI)
    fix i assume "i < length (take 4 (drop (4 * k') (put_word d k w)))"
    then have i: "i < 4" by simp
    have "4 * k' + i < length d" using assms i by simp
    note n = nth_overwrite [OF l this]
    have "4 * k \<le> 4 * k' + i \<and> 4 * k' + i < 4 * k + 4 \<longleftrightarrow> k' = k" using i by auto
    then show "take 4 (drop (4 * k') (put_word d k w)) ! i = (if k' = k then word_bytes w else take 4 (drop (4 * k') d)) ! i"
      using i assms n l by (simp add: put_word_def)
  qed (use assms l in \<open>simp add: put_word_def\<close>)
  then show "get_word (put_word d k w) k' = (if k' = k then w else get_word d k')" by (simp add: get_word_def)
qed

lemma put_get_word:
  assumes "length d = 512" "k < 128"
  shows "put_word d k (get_word d k) = d"
proof -
  have "word_bytes (get_word d k) = take 4 (drop (4 * k) d)" using assms by (simp add: get_word_def word_bytes_le)
  then show ?thesis using assms by (simp add: put_word_def overwrite_def) (metis add.commute append_take_drop_id drop_drop)
qed

lemma disk_length_put:
  assumes "length d = 512" "0 \<le> len" "len < 2147483648"
  shows "disk_length (put_word d LENGTH_AT (word_of_int len)) = len"
proof -
  have "get_word (put_word d LENGTH_AT (word_of_int len)) LENGTH_AT = word_of_int len"
    using get_put_word(1) [OF assms(1), of LENGTH_AT LENGTH_AT] by (simp add: LENGTH_AT_def)
  moreover have "unat (word_of_int len :: u32) = nat len"
    using assms(2,3) unat_of_nat [where 'a = 32, of "nat len"] by (simp add: word_of_int_nat [symmetric] del: word_of_int_nat)
  ultimately show ?thesis using sint_eq_unat [of "word_of_int len"] assms(2,3) by (simp add: disk_length_def)
qed

lemma put_disk_length: "length d = 512 \<Longrightarrow> put_word d LENGTH_AT (word_of_int (disk_length d)) = d"
  using put_get_word [of d LENGTH_AT] by (simp add: disk_length_def LENGTH_AT_def)

text \<open>The length is not part of the index.\<close>

lemma index_put_length:
  assumes d: "length (v s) = 512" and v': "v' = v(s := put_word (v s) LENGTH_AT w)" and n: "n < MAX_BLOCKS"
    and p: "n < 60 \<or> indirect v s ((n - 60) div 128) \<noteq> s" "get_word (v s) DOUBLE_AT \<noteq> s \<or> (n - 60) div 128 < 40"
  shows "block_index v' s n = block_index v s n" "path v' s n = path v s n"
proof -
  have g: "k < 101 \<Longrightarrow> get_word (v' s) k = get_word (v s) k" for k
    using get_put_word(1) [OF d, of LENGTH_AT k w] by (simp add: v' LENGTH_AT_def)
  have db: "get_word (v' s) DOUBLE_AT = get_word (v s) DOUBLE_AT" by (rule g) (simp add: DOUBLE_AT_def)
  have i: "60 \<le> n \<Longrightarrow> indirect v' s ((n - 60) div 128) = indirect v s ((n - 60) div 128)"
    using p g [of "SINGLE_AT + (n - 60) div 128"] by (auto simp: indirect_def db SINGLE_AT_def) (auto simp: v')
  then show "path v' s n = path v s n" by (auto simp: path_def db)
  have "60 \<le> n \<Longrightarrow> v' (indirect v s ((n - 60) div 128)) = v (indirect v s ((n - 60) div 128))" using p by (auto simp: v')
  then show "block_index v' s n = block_index v s n" using i g [of n] by (auto simp: block_index_def)
qed


section \<open>Writing without new blocks\<close>

definition round_up :: "nat \<Rightarrow> nat" where
  "round_up n = (n + 511) div 512 * 512"

lemma round_up_blocks: "n * 512 < round_up N \<longleftrightarrow> n * 512 < N"
proof -
  have "n < (N + 511) div 512 \<longleftrightarrow> Suc n * 512 \<le> N + 511"
    using less_eq_div_iff_mult_less_eq [of 512 "Suc n" "N + 511"] by (simp add: Suc_le_eq)
  then show ?thesis by (auto simp: round_up_def)
qed

lemma same_blocks:
  assumes "N \<le> N'" "N' \<le> round_up N"
  shows "n * 512 < N' \<longleftrightarrow> n * 512 < N"
  using assms round_up_blocks [of n N] by linarith

lemma CEIL_nat: "0 \<le> x \<Longrightarrow> CEIL x 512 = int ((nat x + 511) div 512)"
proof -
  assume x: "0 \<le> x"
  have "CEIL x 512 = x div 512 + (if x mod 512 > 0 then 1 else 0)" using x by (simp add: CEIL_def sdiv_bounds smod_pos)
  also have "\<dots> = (x + 511) div 512"
  proof -
    define q r where qr: "q = x div 512" "r = x mod 512"
    have r: "x = r + q * 512" "0 \<le> r" "r < 512" by (simp_all add: qr)
    have "(r + 511) div 512 = (if r > 0 then 1 else 0)"
    proof (cases "r > 0")
      case True
      then have "(r - 1 + 512) div 512 = (r - 1) div 512 + 1" "(r - 1) div 512 = 0" using r(3) by simp_all
      then show ?thesis using True by simp
    qed (use r(2) in simp)
    moreover have "(x + 511) div 512 = (r + 511 + q * 512) div 512" by (simp add: qr)
    moreover have "\<dots> = q + (r + 511) div 512" by (rule div_mult_self1) simp
    ultimately show ?thesis by (simp add: qr)
  qed
  finally show ?thesis using x by (simp add: zdiv_int)
qed

lemma usable_round:
  assumes "usable st s N" "N \<le> N'" "N' \<le> round_up N"
  shows "usable st s N'" "sectors (cview st) s N' = sectors (cview st) s N" "data_blocks (cview st) s N' = data_blocks (cview st) s N"
    "blocks_apart (cview st) s N' = blocks_apart (cview st) s N"
proof -
  note b = same_blocks [OF assms(2,3)]
  show sec: "sectors (cview st) s N' = sectors (cview st) s N" by (simp add: sectors_def b)
  show "data_blocks (cview st) s N' = data_blocks (cview st) s N" by (simp add: data_blocks_def b)
  show "blocks_apart (cview st) s N' = blocks_apart (cview st) s N" by (simp add: blocks_apart_def b)
  have "round_up N \<le> MAX_BLOCKS * 512"
    using usableD(4) [OF assms(1)] unfolding round_up_def by (intro mult_le_mono1) (simp add: less_Suc_eq_le [symmetric] div_less_iff_less_mult)
  then show "usable st s N'" using assms sec by (simp add: usable_def file_shape_def)
qed

lemma with_cache_Inr [simp]: "f (cache st) = Inr (c, x) \<Longrightarrow> with_cache f st = Inr (st\<lparr>cache := c\<rparr>, x)"
  by (simp add: with_cache_def)

lemma set_length_ok:
  assumes inv: "cache_inv st" and c: "card (held (locks st)) \<le> 60" and s: "i_sector inode = s" "s \<noteq> 0" "s < blk_size (fs_device st)"
    and l: "locks st s = FREE" and T: "s \<in> T"
  obtains st' where "inode_set_length inode len st = Inr (st', ())"
    "moved T st st' ((cview st)(s := put_word (cview st s) LENGTH_AT (word_of_int len))) (locks st)"
proof -
  obtain st1 i where w: "cache_write_block s st = Inr (st1, i)" "bdata i st1 = cview st s" "holds st1 i s"
      "moved T st st1 (cview st) ((locks st)(s := WRITE))"
    by (rule write_block [OF inv s(2,3) l _ T]) (use c in \<open>simp_all add: CACHE_BLOCKS_def\<close>)
  have "length (put_word (cview st s) LENGTH_AT (word_of_int len)) = 512"
    using get_put_word(2) [of _ LENGTH_AT 0] cview_length [OF inv] by (simp add: LENGTH_AT_def)
  from write_sector [OF w(4) l w(3) this] that w(1,2) show ?thesis by (simp add: inode_set_length_def s(1))
qed

lemma extend_none:
  assumes inv: "cache_inv (cache st)" and c: "card (held (locks (cache st))) \<le> 60"
    and s: "i_sector inode = s" "s \<noteq> 0" "s < blk_size (fs_device (cache st))"
    and l: "locks (cache st) s = FREE" and T: "s \<in> T" and val: "is_valid_inode (cview (cache st) s)"
  obtains c' where "inode_extend alloc inode 0 st = Inr (st\<lparr>cache := c'\<rparr>, True)"
    "moved T (cache st) c' (cview (cache st)) (locks (cache st))"
proof -
  let ?c = "cache st"
  obtain c1 i where w: "cache_write_block s ?c = Inr (c1, i)" "bdata i c1 = cview ?c s" "holds c1 i s"
      "moved T ?c c1 (cview ?c) ((locks ?c)(s := WRITE))"
    by (rule write_block [OF inv s(2,3) l _ T]) (use c in \<open>simp_all add: CACHE_BLOCKS_def\<close>)
  have "moved T c1 c1 (cview ?c) (locks c1)"
    using moved_refl [OF movedD(1) [OF w(4)], of T] movedD(2) [OF w(4)] by simp
  note e = write_end [OF w(4) l w(3) this]
  have "inode_extend alloc inode 0 st = Inr (st\<lparr>cache := cache_write_end i c1\<rparr>, True)"
    using w(1,2) val by (simp add: inode_extend_def s(1) on_cache_def)
  then show ?thesis using that e by blast
qed


lemma wrap32_small: "0 \<le> x \<Longrightarrow> x < 2147483648 \<Longrightarrow> wrap32 x = x"
  by (rule wrap32_id) (simp add: is_int32_def)

lemma bytes_put_length:
  assumes v: "length (v s) = 512" "blocks_apart v s N" "s \<notin> data_blocks v s N" "N \<le> MAX_BLOCKS * 512"
  shows "bytes (v(s := put_word (v s) LENGTH_AT w)) s N = bytes v s N"
proof -
  let ?v = "v(s := put_word (v s) LENGTH_AT w)"
  have "?v (block_index ?v s (i div 512)) = v (block_index v s (i div 512))" if i: "i < N" for i
  proof -
    note n = sectors_block(1) [OF i]
    have "i div 512 < MAX_BLOCKS" using i v(4) by (simp add: less_mult_imp_div_less)
    then have "block_index ?v s (i div 512) = block_index v s (i div 512)"
      using n v(2) by (intro index_put_length(1) [where v = v and s = s, OF v(1) refl]) (auto simp: blocks_apart_def)
    moreover have "block_index v s (i div 512) \<in> data_blocks v s N" using n by (simp add: data_blocks_def)
    then have "block_index v s (i div 512) \<noteq> s" using v(3) by metis
    ultimately show ?thesis by simp
  qed
  then show ?thesis by (simp add: bytes_def)
qed

lemma content_put_length:
  assumes v: "length (v s) = 512" "blocks_apart v s N" "s \<notin> data_blocks v s N" "N \<le> MAX_BLOCKS * 512"
    and w: "disk_length (put_word (v s) LENGTH_AT w) = int N"
  shows "content (v(s := put_word (v s) LENGTH_AT w)) s = bytes v s N" "flen (v(s := put_word (v s) LENGTH_AT w)) s = N"
proof -
  show f: "flen (v(s := put_word (v s) LENGTH_AT w)) s = N" using w by (simp add: flen_def)
  show "content (v(s := put_word (v s) LENGTH_AT w)) s = bytes v s N"
    unfolding content_def f by (rule bytes_put_length [where v = v and s = s, OF v])
qed

text \<open>The steps of a write at or behind the end of the file.\<close>

lemma write_at_extending:
  assumes a: "inodes st a = Some inode" "deny_write_cnt inode = 0" "\<not> extension_lock inode"
    and w: "wrap32 (sz + off) = sz + off" and le: "len \<le> sz + off"
    and l: "inode_length inode (cache st) = Inr (c1, len)" "inode_length inode c1 = Inr (c2, len)" "inode_length inode c2 = Inr (c3, len)"
    and e: "inode_extend alloc inode (word_of_int (CEIL (sz + off) 512 - CEIL len 512))
        (st\<lparr>inodes := (inodes st)(a \<mapsto> inode\<lparr>extension_lock := True\<rparr>), cache := c3\<rparr>) = Inr (st4, True)"
    and i4: "inodes st4 = (inodes st)(a \<mapsto> inode\<lparr>extension_lock := True\<rparr>)"
    and wl: "write_loop (Suc (nat sz)) inode buf sz off (cache st4) = Inr (c5, sz)"
    and sl: "inode_set_length inode (sz + off) c5 = Inr (c6, ())"
  shows "inode_write_at alloc a buf sz off st = Inr (st4\<lparr>inodes := inodes st, cache := c6\<rparr>, sz)"
proof -
  have "inode\<lparr>extension_lock := False\<rparr> = inode" using a(3) by simp
  then have i: "(inodes st)(a \<mapsto> inode\<lparr>extension_lock := False\<rparr>) = inodes st" using a(1) by (metis fun_upd_triv)
  have "st4\<lparr>cache := c6, inodes := inodes st\<rparr> = st4\<lparr>inodes := inodes st, cache := c6\<rparr>" by simp
  then show ?thesis
    using a w le l e wl sl i i4 by (simp add: inode_write_at_def ino_def Let_def set_ino_def del: write_loop.simps)
qed

text \<open>
  \<open>write_at\<close> within the blocks the file has: in place, or moving the end of the file inside its last
  block. The allocator is not called.
\<close>

lemma inode_write_within:
  assumes u: "usable (cache st) s (flen (cview (cache st)) s)" and ap: "blocks_apart (cview (cache st)) s (flen (cview (cache st)) s)"
    and len: "0 \<le> disk_length (cview (cache st) s)"
    and a: "inodes st a = Some inode" "i_sector inode = s" "deny_write_cnt inode = 0" "\<not> extension_lock inode"
    and off: "0 \<le> off" "0 \<le> sz" "nat off + nat sz \<le> round_up (flen (cview (cache st)) s)" "nat sz \<le> length buf"
    and N: "N = max (flen (cview (cache st)) s) (nat off + nat sz)"
    and T: "sectors (cview (cache st)) s (flen (cview (cache st)) s) \<subseteq> T"
  obtains c v where "inode_write_at alloc a buf sz off st = Inr (st\<lparr>cache := c\<rparr>, sz)"
    "moved T (cache st) c v (locks (cache st))" "flen v s = N"
    "content v s = overwrite (bytes (cview (cache st)) s N) (nat off) (take (nat sz) buf)"
    "v s = put_word (cview (cache st) s) LENGTH_AT (word_of_int (int N))"
    "\<forall>t. t \<notin> insert s (data_blocks (cview (cache st)) s N) \<longrightarrow> v t = cview (cache st) t"
proof -
  let ?c = "cache st" and ?v = "cview (cache st)"
  let ?L = "flen ?v s"
  have LN: "?L \<le> N" "N \<le> round_up ?L"
    using off(3) round_up_blocks [of "?L div 512" ?L] div_mult_mod_eq [of ?L 512] unfolding N round_up_def by auto
  note r = usable_round [OF u LN]
  note uN = usableD [OF r(1)]
  have apN: "blocks_apart ?v s N" using ap r(4) by simp
  have s: "s \<in> sectors ?v s N" by (simp add: sectors_def)
  have lv: "length (?v s) = 512" by (rule cview_length [OF uN(1)])
  have Nb: "N < 2147483648" using uN(4) by (simp add: MAX_BLOCKS_def)
  have dl: "disk_length (?v s) = int ?L" using len by (simp add: flen_def)
  have sd: "s \<notin> data_blocks ?v s N"
    by (rule inode_not_data [OF apN])
  have sT: "s \<in> T" using s T r(2) by blast
  have w: "wrap32 (sz + off) = sz + off" using off Nb N by (intro wrap32_small) auto
  have dlN: "disk_length (put_word (?v s) LENGTH_AT (word_of_int (int N))) = int N"
    using Nb by (intro disk_length_put [OF lv]) simp_all
  note u0 = usableD [OF u]
  have rs: "readable ?c s" by (rule uN(6) [OF s])
  obtain c1 where l1: "inode_length inode ?c = Inr (c1, int ?L)" "moved T ?c c1 ?v (locks ?c)"
    using inode_length_ok [OF u0(1,2) a(2) rs sT] unfolding dl by blast
  show ?thesis
  proof (cases "int ?L \<le> sz + off")
    case False
    then have NL: "N = ?L" using off by (simp add: N)
    have dlL: "disk_length (?v s) = int N" unfolding dl NL ..
    have k1: "cview c1 = ?v" "locks c1 = locks ?c" using movedD [OF l1(2)] by simp_all
    have "\<exists>st' v. write_loop (Suc (nat sz)) inode buf sz off c1 = Inr (st', sz) \<and> moved T c1 st' v (locks c1) \<and>
        bytes v s N = overwrite (bytes (cview c1) s N) (nat off) (take (nat sz) buf) \<and>
        (\<forall>t. t \<notin> data_blocks (cview c1) s N \<longrightarrow> v t = cview c1 t)"
      by (rule write_loop_ok [OF usable_moved [OF r(1) l1(2)] _ a(2) off(1,2)])
        (use off apN T r(2) N in \<open>simp_all add: k1\<close>)
    then obtain c2 v where wl: "write_loop (Suc (nat sz)) inode buf sz off c1 = Inr (c2, sz)" "moved T c1 c2 v (locks ?c)"
        "bytes v s N = overwrite (bytes ?v s N) (nat off) (take (nat sz) buf)" "\<forall>t. t \<notin> data_blocks ?v s N \<longrightarrow> v t = ?v t"
      unfolding k1 by blast
    have vs: "v s = ?v s" using wl(4) sd by blast
    have "inode_write_at alloc a buf sz off st = Inr (st\<lparr>cache := c2\<rparr>, sz)"
      using False a l1(1) wl(1) w by (simp add: inode_write_at_def ino_def Let_def)
    moreover have "moved T ?c c2 v (locks ?c)" by (rule moved_trans [OF l1(2) wl(2)]) simp
    moreover have fl: "flen v s = N" unfolding flen_def vs dlL by simp
    moreover have "content v s = overwrite (bytes ?v s N) (nat off) (take (nat sz) buf)" using wl(3) fl by (simp add: content_def)
    moreover have "v s = put_word (?v s) LENGTH_AT (word_of_int (int N))"
      unfolding vs using put_disk_length [OF lv] by (simp only: dlL)
    ultimately show ?thesis using that wl(4) by blast
  next
    case True
    then have NN: "int N = sz + off" using off by (simp add: N)
    let ?i = "inode\<lparr>extension_lock := True\<rparr>"
    have uc1: "usable c1 s N" by (rule usable_moved [OF r(1) l1(2)])
    have k1: "cview c1 = ?v" "locks c1 = locks ?c" using movedD [OF l1(2)] by simp_all
    note u1 = usableD [OF uc1, unfolded k1]
    have rs1: "readable c1 s" by (rule u1(6) [OF s])
    obtain c2 where l2: "inode_length inode c1 = Inr (c2, int ?L)" "moved T c1 c2 ?v (locks ?c)"
      using inode_length_ok [OF u1(1) _ a(2) rs1 sT] u1(2) unfolding k1 dl by blast
    have m2: "moved T ?c c2 ?v (locks ?c)" by (rule moved_trans [OF l1(2) l2(2)]) simp
    have k2: "cview c2 = ?v" "locks c2 = locks ?c" using movedD [OF m2] by simp_all
    note u2 = usableD [OF usable_moved [OF r(1) m2], unfolded k2]
    obtain c3 where l3: "inode_length inode c2 = Inr (c3, int ?L)" "moved T c2 c3 ?v (locks ?c)"
      using inode_length_ok [OF u2(1) _ a(2) u2(6) [OF s] sT] u2(2) unfolding k2 dl by blast
    have m3: "moved T ?c c3 ?v (locks ?c)" by (rule moved_trans [OF m2 l3(2)]) simp
    have k3: "cview c3 = ?v" "locks c3 = locks ?c" using movedD [OF m3] by simp_all
    note u3 = usableD [OF usable_moved [OF r(1) m3], unfolded k3]
    have z: "CEIL (sz + off) 512 - CEIL (int ?L) 512 = 0"
    proof -
      have "(N + 511) div 512 = (?L + 511) div 512"
      proof (rule antisym)
        have "N + 511 < Suc ((?L + 511) div 512) * 512" using LN(2) by (simp add: round_up_def)
        then show "(N + 511) div 512 \<le> (?L + 511) div 512" by (simp add: div_less_iff_less_mult less_Suc_eq_le [symmetric] del: mult_Suc)
        show "(?L + 511) div 512 \<le> (N + 511) div 512" using LN(1) by (intro div_le_mono) simp
      qed
      then show ?thesis using CEIL_nat [of "int N"] CEIL_nat [of "int ?L"] by (simp only: NN [symmetric] nat_int of_nat_0_le_iff diff_self)
    qed
    let ?st3 = "st\<lparr>inodes := (inodes st)(a \<mapsto> ?i), cache := c3\<rparr>"
    obtain c4 where e: "inode_extend alloc inode 0 ?st3 = Inr (?st3\<lparr>cache := c4\<rparr>, True)" "moved T c3 c4 ?v (locks ?c)"
      by (rule extend_none [where st = ?st3 and T = T and inode = inode and s = s and alloc = alloc])
        (use u3 s a(2) sT in \<open>simp_all add: set_ino_def k3\<close>)
    have m4: "moved T ?c c4 ?v (locks ?c)" by (rule moved_trans [OF m3 e(2)]) simp
    have k4: "cview c4 = ?v" "locks c4 = locks ?c" using movedD [OF m4] by simp_all
    have "\<exists>st' v. write_loop (Suc (nat sz)) inode buf sz off c4 = Inr (st', sz) \<and> moved T c4 st' v (locks c4) \<and>
        bytes v s N = overwrite (bytes (cview c4) s N) (nat off) (take (nat sz) buf) \<and>
        (\<forall>t. t \<notin> data_blocks (cview c4) s N \<longrightarrow> v t = cview c4 t)"
      by (rule write_loop_ok [OF usable_moved [OF r(1) m4] _ a(2) off(1,2)])
        (use off apN T r(2) N in \<open>simp_all add: k4\<close>)
    then obtain c5 v where wl: "write_loop (Suc (nat sz)) inode buf sz off c4 = Inr (c5, sz)" "moved T c4 c5 v (locks ?c)"
        "bytes v s N = overwrite (bytes ?v s N) (nat off) (take (nat sz) buf)" "\<forall>t. t \<notin> data_blocks ?v s N \<longrightarrow> v t = ?v t"
      unfolding k4 by blast
    have m5: "moved T ?c c5 v (locks ?c)" by (rule moved_trans [OF m4 wl(2)]) simp
    have k5: "cview c5 = v" "locks c5 = locks ?c" using movedD [OF m5] by simp_all
    note dc = data_change [where v' = v, OF apN, OF wl(4) [rule_format]]
    have vs: "v s = ?v s" using wl(4) sd by blast
    have inv5: "cache_inv c5" "blk_size (fs_device c5) = blk_size (fs_device ?c)" using movedD [OF m5] by simp_all
    obtain c6 where sl: "inode_set_length inode (sz + off) c5 = Inr (c6, ())"
        "moved T c5 c6 (v(s := put_word (v s) LENGTH_AT (word_of_int (sz + off)))) (locks ?c)"
      by (rule set_length_ok [of c5 inode s T "sz + off", unfolded k5]) (use inv5 u0(2) a(2) uN(5,7,8) [OF s] sT in simp_all)
    let ?v' = "v(s := put_word (v s) LENGTH_AT (word_of_int (int N)))"
    have m6: "moved T ?c c6 ?v' (locks ?c)" using moved_trans [OF m5 sl(2)] by (simp add: NN)
    have run: "inode_write_at alloc a buf sz off st = Inr (st\<lparr>cache := c6\<rparr>, sz)"
      using write_at_extending [OF a(1,3,4) w True l1(1) l2(1) l3(1), where alloc = alloc, of "?st3\<lparr>cache := c4\<rparr>" buf c5 c6] e(1) wl(1) sl(1) z
      by (simp del: write_loop.simps)
    have lvs: "length (v s) = 512" using lv vs by simp
    have cp: "content ?v' s = bytes v s N" "flen ?v' s = N"
      using content_put_length [OF lvs dc(6) _ uN(4), of "word_of_int (int N)"] dlN vs sd dc(5) by simp_all
    then have "content ?v' s = overwrite (bytes ?v s N) (nat off) (take (nat sz) buf)" using wl(3) by simp
    moreover have "?v' s = put_word (?v s) LENGTH_AT (word_of_int (int N))" using vs by simp
    moreover have "\<forall>t. t \<notin> insert s (data_blocks ?v s N) \<longrightarrow> ?v' t = ?v t" using wl(4) by simp
    ultimately show ?thesis using that run m6 cp(2) by blast
  qed
qed


end
