(* ===== verification/File_Tree.thy ===== *)
theory File_Tree
  imports File_Content
begin

text \<open>
  The index of a file that grows. A file of \<open>n\<close> blocks has a word for each of them in its inode or in an
  indirect sector, and zeros in the words behind; \<open>tree_step\<close> is what adding a block changes.
\<close>

declare neq0_conv [iff del] bot_nat_0.not_eq_extremum [simp del]

definition zeros :: "u8 list" where
  "zeros = replicate 512 0"

lemma length_zeros [simp]: "length zeros = 512"
  by (simp add: zeros_def)

lemma get_word_zeros:
  assumes "k < 128"
  shows "get_word zeros k = 0"
proof -
  have "take 4 (drop (4 * k) zeros) = replicate 4 0" using assms by (simp add: zeros_def min_def)
  moreover have "replicate 4 (0::u8) = [0, 0, 0, 0]" by (simp add: numeral_eq_Suc)
  ultimately show ?thesis by (simp add: get_word_def le_word_def)
qed

text \<open>Blocks that need no doubly indirect sector.\<close>

definition SINGLE_LIMIT :: nat where
  "SINGLE_LIMIT = 60 + 40 * 128"

abbreviation single :: "(u32 \<Rightarrow> u8 list) \<Rightarrow> u32 \<Rightarrow> nat \<Rightarrow> u32" where
  "single v s k \<equiv> get_word (v s) (SINGLE_AT + k)"

definition growable :: "(u32 \<Rightarrow> u8 list) \<Rightarrow> u32 \<Rightarrow> nat \<Rightarrow> bool" where
  "growable v s n \<longleftrightarrow> n \<le> SINGLE_LIMIT \<and> blocks_apart v s (n * 512) \<and>
     (\<forall>k k'. 60 + 128 * k < n \<longrightarrow> 60 + 128 * k' < n \<longrightarrow> single v s k = single v s k' \<longrightarrow> k = k') \<and>
     (\<forall>m. n \<le> m \<longrightarrow> m < 60 \<longrightarrow> get_word (v s) m = 0) \<and>
     (\<forall>k<40. n \<le> 60 + 128 * k \<longrightarrow> single v s k = 0) \<and>
     (\<forall>k. 60 + 128 * k < n \<longrightarrow> (\<forall>j<128. n \<le> 60 + 128 * k + j \<longrightarrow> get_word (v (single v s k)) j = 0))"

text \<open>
  Block \<open>n\<close> is added in sector \<open>t\<close>, with \<open>y\<close> as a new indirect sector if one is needed. \<open>v'\<close> may differ
  from \<open>v\<close> in sectors that are not the file's.
\<close>

definition tree_step :: "(u32 \<Rightarrow> u8 list) \<Rightarrow> (u32 \<Rightarrow> u8 list) \<Rightarrow> u32 \<Rightarrow> nat \<Rightarrow> u32 \<Rightarrow> u32 \<Rightarrow> bool" where
  "tree_step v v' s n t y \<longleftrightarrow>
     (\<forall>m<60. get_word (v' s) m = (if m = n then t else get_word (v s) m)) \<and>
     (\<forall>k<40. single v' s k = (if 60 + 128 * k = n then y else single v s k)) \<and>
     (\<forall>k. 60 + 128 * k \<le> n \<longrightarrow> (\<forall>j<128. get_word (v' (single v' s k)) j =
        (if 60 + 128 * k + j = n then t else if 60 + 128 * k = n then 0 else get_word (v (single v s k)) j))) \<and>
     (\<forall>m<n. v' (block_index v s m) = v (block_index v s m)) \<and> v' t = zeros"

lemma block_single:
  assumes "m < SINGLE_LIMIT"
  shows "block_index v s m = (if m < 60 then get_word (v s) m else get_word (v (single v s ((m - 60) div 128))) ((m - 60) mod 128))"
    "path v s m = (if m < 60 then {s} else {s, single v s ((m - 60) div 128)})"
    "60 \<le> m \<Longrightarrow> (m - 60) div 128 < 40 \<and> 60 + 128 * ((m - 60) div 128) \<le> m \<and> m = 60 + 128 * ((m - 60) div 128) + (m - 60) mod 128"
proof -
  have k: "60 \<le> m \<Longrightarrow> (m - 60) div 128 < 40" using assms by (simp add: SINGLE_LIMIT_def less_mult_imp_div_less)
  have "60 \<le> m \<Longrightarrow> m = 60 + (128 * ((m - 60) div 128) + (m - 60) mod 128)" by simp
  then show "60 \<le> m \<Longrightarrow> (m - 60) div 128 < 40 \<and> 60 + 128 * ((m - 60) div 128) \<le> m \<and> m = 60 + 128 * ((m - 60) div 128) + (m - 60) mod 128"
    using k by linarith
  show "block_index v s m = (if m < 60 then get_word (v s) m else get_word (v (single v s ((m - 60) div 128))) ((m - 60) mod 128))"
    "path v s m = (if m < 60 then {s} else {s, single v s ((m - 60) div 128)})"
    using k by (simp_all add: block_index_def path_def indirect_def)
qed

lemma tree_stepD:
  assumes "tree_step v v' s n t y"
  shows "m < 60 \<Longrightarrow> get_word (v' s) m = (if m = n then t else get_word (v s) m)"
    "k < 40 \<Longrightarrow> single v' s k = (if 60 + 128 * k = n then y else single v s k)"
    "60 + 128 * k \<le> n \<Longrightarrow> j < 128 \<Longrightarrow> get_word (v' (single v' s k)) j =
        (if 60 + 128 * k + j = n then t else if 60 + 128 * k = n then 0 else get_word (v (single v s k)) j)"
    "m < n \<Longrightarrow> v' (block_index v s m) = v (block_index v s m)" "v' t = zeros"
  using assms by (simp_all add: tree_step_def)

lemma tree_step_index:
  assumes st: "tree_step v v' s n t y" and n: "n < SINGLE_LIMIT"
  shows "m < n \<Longrightarrow> block_index v' s m = block_index v s m" "m < n \<Longrightarrow> path v' s m = path v s m"
    "block_index v' s n = t" "path v' s n \<subseteq> (if n < 60 then {s} else if (n - 60) mod 128 = 0 then {s, y} else {s} \<union> path v s (n - 1))"
proof -
  note d = tree_stepD [OF st]
  have same: "single v' s ((m - 60) div 128) = single v s ((m - 60) div 128)" if "60 \<le> m" "m < n" for m
  proof -
    have "m < SINGLE_LIMIT" using that n by simp
    note b = block_single(3) [OF this that(1)]
    then have "60 + 128 * ((m - 60) div 128) \<noteq> n" using that(2) by linarith
    then show ?thesis using d(2) b by simp
  qed
  show "block_index v' s m = block_index v s m" "path v' s m = path v s m" if m: "m < n" for m
  proof -
    have l: "m < SINGLE_LIMIT" using m n by simp
    note b = block_single [OF l]
    show "path v' s m = path v s m" using b(2) same m by simp
    show "block_index v' s m = block_index v s m"
    proof (cases "m < 60")
      case True
      then show ?thesis using b(1) d(1) m by simp
    next
      case False
      then have k: "60 \<le> m" by simp
      have c: "60 + 128 * ((m - 60) div 128) \<le> n" "60 + 128 * ((m - 60) div 128) + (m - 60) mod 128 \<noteq> n"
          "60 + 128 * ((m - 60) div 128) \<noteq> n" using b(3) [OF k] m by linarith+
      have "get_word (v' (single v' s ((m - 60) div 128))) ((m - 60) mod 128) = get_word (v (single v s ((m - 60) div 128))) ((m - 60) mod 128)"
        using d(3) [OF c(1), of "(m - 60) mod 128"] c(2,3) by simp
      then show ?thesis using False b(1) by simp
    qed
  qed
  note b = block_single [OF n]
  show "block_index v' s n = t"
  proof (cases "n < 60")
    case False
    then have k: "60 \<le> n" by simp
    show ?thesis using False b(1) d(3) [OF conjunct1 [OF conjunct2 [OF b(3) [OF k]]], of "(n - 60) mod 128"] b(3) [OF k] by simp
  qed (use b(1) d(1) in simp)
  show "path v' s n \<subseteq> (if n < 60 then {s} else if (n - 60) mod 128 = 0 then {s, y} else {s} \<union> path v s (n - 1))"
  proof (cases "n < 60")
    case False
    then have k: "60 \<le> n" by simp
    note b3 = b(3) [OF k]
    show ?thesis
    proof (cases "(n - 60) mod 128 = 0")
      case True
      then have "60 + 128 * ((n - 60) div 128) = n" using b3 by linarith
      then show ?thesis using True False b(2) d(2) b3 by auto
    next
      case j: False
      then have ne: "60 + 128 * ((n - 60) div 128) < n" using b3 by linarith
      have "(n - 60) div 128 = (n - 1 - 60) div 128"
      proof -
        have "n - 60 = Suc (n - 1 - 60)" using ne k by linarith
        then show ?thesis using j by (metis div_Suc)
      qed
      moreover have "60 \<le> n - 1" "n - 1 < SINGLE_LIMIT" using ne n by linarith+
      ultimately have "single v s ((n - 60) div 128) \<in> path v s (n - 1)" using block_single(2) [of "n - 1"] by simp
      moreover have "single v' s ((n - 60) div 128) = single v s ((n - 60) div 128)" using d(2) b3 ne by simp
      ultimately show ?thesis using False j b(2) by auto
    qed
  qed (use b(2) in simp)
qed

lemma sectors_blocks: "sectors v s (n * 512) = insert s (\<Union>m<n. insert (block_index v s m) (path v s m))"
  by (auto simp: sectors_def)

lemma apart_single:
  assumes "n \<le> SINGLE_LIMIT"
  shows "blocks_apart v s (n * 512) \<longleftrightarrow>
     (\<forall>m<n. \<forall>m'<n. (block_index v s m = block_index v s m' \<longrightarrow> m = m') \<and> block_index v s m \<notin> path v s m') \<and>
     (\<forall>m<n. 60 \<le> m \<longrightarrow> single v s ((m - 60) div 128) \<noteq> s)"
proof -
  have k: "(m - 60) div 128 < 40" "\<not> 40 \<le> (m - 60) div 128" if "m < n" "60 \<le> m" for m
    using block_single(3) [of m] that assms by auto
  have "(\<forall>m. m * 512 < n * 512 \<longrightarrow> 60 \<le> m \<longrightarrow> indirect v s ((m - 60) div 128) \<noteq> s \<and>
       (40 \<le> (m - 60) div 128 \<longrightarrow> get_word (v s) DOUBLE_AT \<noteq> s)) \<longleftrightarrow> (\<forall>m<n. 60 \<le> m \<longrightarrow> single v s ((m - 60) div 128) \<noteq> s)"
    using k by (simp add: indirect_def)
  then show ?thesis unfolding blocks_apart_def by auto
qed

text \<open>A sector that is not the file's does not become part of its index by accident.\<close>

definition fresh_step :: "(u32 \<Rightarrow> u8 list) \<Rightarrow> u32 \<Rightarrow> nat \<Rightarrow> u32 \<Rightarrow> u32 \<Rightarrow> bool" where
  "fresh_step v s n t y \<longleftrightarrow> t \<notin> sectors v s (n * 512) \<and>
     (60 \<le> n \<longrightarrow> (n - 60) mod 128 = 0 \<longrightarrow> y \<notin> sectors v s (n * 512) \<and> y \<noteq> t)"

lemma path_step:
  assumes st: "tree_step v v' s n t y" and n: "n < SINGLE_LIMIT" and f: "fresh_step v s n t y"
  shows "path v' s n \<subseteq> sectors v s (n * 512) \<union> (if 60 \<le> n \<and> (n - 60) mod 128 = 0 then {y} else {})"
    "t \<notin> path v' s n" "m < n \<Longrightarrow> t \<notin> path v s m" "m < n \<Longrightarrow> block_index v s m \<noteq> t"
    "60 \<le> n \<Longrightarrow> (n - 60) mod 128 = 0 \<Longrightarrow> x \<in> sectors v s (n * 512) \<Longrightarrow> x \<noteq> y"
proof -
  have p: "path v s (n - 1) \<subseteq> sectors v s (n * 512)" if "60 \<le> n" using that by (auto simp: sectors_blocks)
  show sub: "path v' s n \<subseteq> sectors v s (n * 512) \<union> (if 60 \<le> n \<and> (n - 60) mod 128 = 0 then {y} else {})"
    using tree_step_index(4) [OF st n] p by (auto simp: sectors_blocks split: if_splits)
  show "t \<notin> path v' s n" using sub f by (auto simp: fresh_step_def split: if_splits)
  show "m < n \<Longrightarrow> t \<notin> path v s m" "m < n \<Longrightarrow> block_index v s m \<noteq> t" using f by (auto simp: fresh_step_def sectors_blocks)
  show "60 \<le> n \<Longrightarrow> (n - 60) mod 128 = 0 \<Longrightarrow> x \<in> sectors v s (n * 512) \<Longrightarrow> x \<noteq> y" using f by (auto simp: fresh_step_def)
qed

lemma apart_step:
  assumes st: "tree_step v v' s n t y" and n: "n < SINGLE_LIMIT" and f: "fresh_step v s n t y" and g: "growable v s n"
  shows "blocks_apart v' s (Suc n * 512)"
proof -
  note i = tree_step_index [OF st n] and p = path_step [OF st n f]
  have old: "block_index v s m = block_index v s m' \<Longrightarrow> m = m'" "block_index v s m \<notin> path v s m'" if "m < n" "m' < n" for m m'
    using g apart_single [of n v s] that n by (auto simp: growable_def)
  have sing: "single v s ((m - 60) div 128) \<noteq> s" if "m < n" "60 \<le> m" for m
    using g apart_single [of n v s] that n by (auto simp: growable_def)
  have oldn: "block_index v s m \<notin> path v' s n" if m: "m < n" for m
  proof
    assume "block_index v s m \<in> path v' s n"
    moreover have "block_index v s m \<noteq> s" using old(2) [OF m m] path_self [of s v m] by metis
    moreover have "block_index v s m \<noteq> y" if "60 \<le> n" "(n - 60) mod 128 = 0"
      by (rule p(5) [OF that]) (use m in \<open>auto simp: sectors_blocks\<close>)
    moreover have "block_index v s m \<notin> path v s (n - 1)" using old(2) [OF m, of "n - 1"] m by simp
    ultimately show False using i(4) by (auto split: if_splits)
  qed
  have ns: "single v' s ((n - 60) div 128) \<noteq> s" if k: "60 \<le> n"
  proof (cases "(n - 60) mod 128 = 0")
    case True
    then have "60 + 128 * ((n - 60) div 128) = n" using block_single(3) [OF n k] by linarith
    then have "single v' s ((n - 60) div 128) = y" using tree_stepD(2) [OF st] block_single(3) [OF n k] by simp
    moreover have "s \<noteq> y" by (rule p(5) [OF k True]) (simp add: sectors_blocks)
    ultimately show ?thesis by simp
  next
    case False
    have q: "60 + 128 * ((n - 60) div 128) < n" "60 + 128 * ((n - 60) div 128) < SINGLE_LIMIT"
      using False block_single(3) [OF n k] n by linarith+
    have "single v s ((60 + 128 * ((n - 60) div 128) - 60) div 128) \<noteq> s" by (rule sing [OF q(1)]) simp
    then show ?thesis using tree_stepD(2) [OF st] block_single(3) [OF n k] q(1) by simp
  qed
  have le: "Suc n \<le> SINGLE_LIMIT" using n by simp
  show ?thesis
    unfolding apart_single [OF le]
  proof (intro conjI allI impI)
    fix m m' assume m: "m < Suc n" "m' < Suc n"
    show "m = m'" if "block_index v' s m = block_index v' s m'"
      using m that i(1,3) old(1) p(4) by (metis less_antisym)
    show "block_index v' s m \<notin> path v' s m'"
      using m i(1-3) old(2) p(2,3) oldn by (metis less_antisym)
  next
    fix m assume m: "m < Suc n" "60 \<le> m"
    show "single v' s ((m - 60) div 128) \<noteq> s"
    proof (cases "m = n")
      case False
      then have mn: "m < n" using m by simp
      have "60 + 128 * ((m - 60) div 128) \<noteq> n" "(m - 60) div 128 < 40" using block_single(3) [of m] m mn n by auto
      then show ?thesis using tree_stepD(2) [OF st] sing [OF mn m(2)] by simp
    qed (use ns m in simp)
  qed
qed

lemma growable_step:
  assumes st: "tree_step v v' s n t y" and n: "n < SINGLE_LIMIT" and f: "fresh_step v s n t y" and g: "growable v s n"
  shows "growable v' s (Suc n)"
proof -
  note d = tree_stepD [OF st]
  have k40: "k < 40" if "60 + 128 * k \<le> n" for k using that n by (simp add: SINGLE_LIMIT_def)
  have sec: "single v s k \<in> sectors v s (n * 512)" if k: "60 + 128 * k < n" for k
  proof -
    have "single v s k \<in> path v s (60 + 128 * k)" using block_single(2) [of "60 + 128 * k" v s] k n by simp
    then show ?thesis using k by (auto simp: sectors_blocks)
  qed
  have ne: "single v s k \<noteq> y" if "60 + 128 * k < n" "60 + 128 * k' = n" for k k'
    using path_step(5) [OF st n f _ _ sec [OF that(1)]] that(2) by auto
  show ?thesis
    unfolding growable_def
  proof (intro conjI allI impI)
    show "Suc n \<le> SINGLE_LIMIT" using n by simp
    show "blocks_apart v' s (Suc n * 512)" by (rule apart_step [OF st n f g])
  next
    fix k k' assume k: "60 + 128 * k < Suc n" "60 + 128 * k' < Suc n" "single v' s k = single v' s k'"
    have inj: "single v s k = single v s k' \<Longrightarrow> 60 + 128 * k < n \<Longrightarrow> 60 + 128 * k' < n \<Longrightarrow> k = k'"
      using g by (simp add: growable_def)
    show "k = k'"
    proof (cases "60 + 128 * k = n \<or> 60 + 128 * k' = n")
      case True
      then show ?thesis using k d(2) [of k] d(2) [of k'] k40 [of k] k40 [of k'] ne [of k k'] ne [of k' k] by (auto split: if_splits)
    next
      case False
      then show ?thesis using k d(2) [of k] d(2) [of k'] k40 [of k] k40 [of k'] inj by simp
    qed
  next
    fix m assume "Suc n \<le> m" "m < 60"
    then show "get_word (v' s) m = 0" using d(1) g by (simp add: growable_def)
  next
    fix k :: nat assume "k < 40" "Suc n \<le> 60 + 128 * k"
    then show "single v' s k = 0" using d(2) g by (simp add: growable_def)
  next
    fix k j assume k: "60 + 128 * k < Suc n" "j < (128::nat)" "Suc n \<le> 60 + 128 * k + j"
    then have w: "get_word (v' (single v' s k)) j = (if 60 + 128 * k = n then 0 else get_word (v (single v s k)) j)"
      using d(3) [of k j] by simp
    show "get_word (v' (single v' s k)) j = 0"
    proof (cases "60 + 128 * k = n")
      case False
      then have "60 + 128 * k < n" using k by simp
      then show ?thesis using w g k by (simp add: growable_def)
    qed (use w in simp)
  qed
qed

text \<open>The bytes of the file afterwards.\<close>

lemma bytes_step:
  assumes st: "tree_step v v' s n t y" and n: "n < SINGLE_LIMIT"
  shows "bytes v' s (Suc n * 512) = bytes v s (n * 512) @ zeros"
proof -
  note i = tree_step_index [OF st n]
  have "bytes v' s (n * 512) = bytes v s (n * 512)"
    unfolding bytes_def
  proof (rule map_cong [OF refl])
    fix j assume "j \<in> set [0..<n * 512]"
    then have "j div 512 < n" by (simp add: less_mult_imp_div_less)
    then show "v' (block_index v' s (j div 512)) ! (j mod 512) = v (block_index v s (j div 512)) ! (j mod 512)"
      using i(1) tree_stepD(4) [OF st] by simp
  qed
  moreover have "map (\<lambda>j. v' (block_index v' s (j div 512)) ! (j mod 512)) [n * 512..<n * 512 + 512] = zeros"
  proof (rule nth_equalityI)
    fix j assume "j < length (map (\<lambda>j. v' (block_index v' s (j div 512)) ! (j mod 512)) [n * 512..<n * 512 + 512])"
    then have j: "j < 512" by simp
    have "(n * 512 + j) div 512 = n" "(n * 512 + j) mod 512 = j" using j by simp_all
    then show "map (\<lambda>j. v' (block_index v' s (j div 512)) ! (j mod 512)) [n * 512..<n * 512 + 512] ! j = zeros ! j"
      using j i(3) tree_stepD(5) [OF st] by simp
  qed simp
  moreover have "[0..<Suc n * 512] = [0..<n * 512] @ [n * 512..<n * 512 + 512]"
    by (metis add.commute mult_Suc upt_add_eq_append zero_le)
  ultimately show ?thesis by (simp add: bytes_def)
qed


lemma round_up_nat: "round_up N = (N + 511) div 512 * 512" "round_up (n * 512) = n * 512"
  by (simp_all add: round_up_def)

lemma round_same:
  "sectors v s (round_up N) = sectors v s N" "blocks_apart v s (round_up N) = blocks_apart v s N"
  "data_blocks v s (round_up N) = data_blocks v s N"
  by (simp_all add: sectors_def blocks_apart_def data_blocks_def round_up_blocks)

lemma bytes_take: "N \<le> N' \<Longrightarrow> bytes v s N = take N (bytes v s N')"
  by (simp add: bytes_def take_map)

text \<open>What a file is made of matters, not what its blocks hold.\<close>

lemma growable_cong:
  assumes g: "growable v s n" and w: "\<And>k. k < 100 \<Longrightarrow> get_word (v' s) k = get_word (v s) k"
    and x: "\<And>k. 60 + 128 * k < n \<Longrightarrow> v' (single v s k) = v (single v s k)"
  shows "growable v' s n"
proof -
  have n: "n \<le> SINGLE_LIMIT" using g by (simp add: growable_def)
  have k40: "k < 40" if "60 + 128 * k < n" for k using that n by (simp add: SINGLE_LIMIT_def)
  have sk: "single v' s k = single v s k" if "k < 40" for k using w [of "SINGLE_AT + k"] that by (simp add: SINGLE_AT_def)
  have i: "block_index v' s m = block_index v s m" "path v' s m = path v s m" if m: "m < n" for m
  proof -
    have l: "m < SINGLE_LIMIT" using m n by simp
    have "60 \<le> m \<Longrightarrow> 60 + 128 * ((m - 60) div 128) < n" using block_single(3) [OF l] m by linarith
    then show "block_index v' s m = block_index v s m" "path v' s m = path v s m"
      using w [of m] sk [of "(m - 60) div 128"] x [of "(m - 60) div 128"] block_single [OF l] by auto
  qed
  have sing: "m < n \<Longrightarrow> 60 \<le> m \<Longrightarrow> single v' s ((m - 60) div 128) = single v s ((m - 60) div 128)" for m
    using sk block_single(3) [of m] n by simp
  have "blocks_apart v' s (n * 512)"
    using g i sing unfolding growable_def apart_single [OF n] by simp
  then show ?thesis
    using g w sk x k40 unfolding growable_def by simp
qed


lemma round_up_ge: "N \<le> round_up N"
  using div_mult_mod_eq [of "N + 511" 512] mod_less_divisor [of 512 "N + 511"] unfolding round_up_def by linarith


lemma round_up_max: "N \<le> MAX_BLOCKS * 512 \<Longrightarrow> round_up N \<le> MAX_BLOCKS * 512"
  unfolding round_up_def by (intro mult_right_mono) (simp_all add: div_le_mono [of "N + 511" "MAX_BLOCKS * 512 + 511" 512, simplified])

lemma data_not_index:
  assumes "growable v s n" "m < n" "m' < n" "x \<in> path v s m'"
  shows "block_index v s m \<noteq> x" "block_index v s m \<noteq> s"
  using assms path_self [of s v m'] apart_single [of n v s] by (auto simp: growable_def)

lemma index_not_data:
  assumes g: "growable v s n" and m: "m < n" and y: "y \<in> path v s m"
  shows "y \<notin> data_blocks v s (n * 512)"
proof
  assume "y \<in> data_blocks v s (n * 512)"
  then obtain m' where "m' < n" "y = block_index v s m'" by (auto simp: data_blocks_def)
  then show False using data_not_index(1) [OF g _ m y] by blast
qed

text \<open>New bytes in the blocks and a new length leave the index as it is.\<close>

lemma index_kept:
  assumes g: "growable v s n" and w: "\<And>k. k < 100 \<Longrightarrow> get_word (v' s) k = get_word (v s) k"
    and x: "\<And>t. t \<noteq> s \<Longrightarrow> t \<notin> data_blocks v s (n * 512) \<Longrightarrow> v' t = v t"
  shows "growable v' s n" "sectors v' s (n * 512) = sectors v s (n * 512)"
proof -
  have n: "n \<le> SINGLE_LIMIT" using g by (simp add: growable_def)
  have y: "v' (single v s k) = v (single v s k)" if k: "60 + 128 * k < n" for k
  proof (rule x)
    have "single v s k \<in> path v s (60 + 128 * k)" using block_single(2) [of "60 + 128 * k" v s] k n by simp
    then show "single v s k \<notin> data_blocks v s (n * 512)" by (rule index_not_data [OF g k])
    show "single v s k \<noteq> s" using g apart_single [OF n, of v s] k by (auto simp: growable_def dest: spec [of _ "60 + 128 * k"])
  qed
  show "growable v' s n" by (rule growable_cong [OF g w y])
  have "block_index v' s m = block_index v s m \<and> path v' s m = path v s m" if m: "m < n" for m
  proof -
    have l: "m < SINGLE_LIMIT" using m n by simp
    note b = block_single [OF l]
    show ?thesis
    proof (cases "m < 60")
      case False
      then have k: "(m - 60) div 128 < 40" "60 + 128 * ((m - 60) div 128) < n" using b(3) m by auto
      then show ?thesis using b False y w [of "SINGLE_AT + (m - 60) div 128"] by (simp add: SINGLE_AT_def)
    qed (use b w in simp)
  qed
  then show "sectors v' s (n * 512) = sectors v s (n * 512)" by (simp add: sectors_blocks)
qed


end
