(* ===== verification/File_Growth.thy ===== *)
theory File_Growth
  imports File_Tree
begin

text \<open>
  Growing a file. The locale \<open>sector_source\<close> is what the inode layer relies on in the allocation of
  sectors; inside it, a file grows by blocks of zeros as long as it needs no doubly indirect sector.
\<close>

declare neq0_conv [iff del] bot_nat_0.not_eq_extremum [simp del]

section \<open>Clearing a sector\<close>

text \<open>\<open>block_clear\<close> is seen through the cache if the sector is not in it.\<close>

lemma clear_sector_ok:
  assumes inv: "cache_inv (cache st)" and t: "t < blk_size (fs_device (cache st))" "\<And>i. \<not> holds (cache st) i t"
  obtains c where "clear_sector t st = Inr (st\<lparr>cache := c\<rparr>)"
    "moved T (cache st) c ((cview (cache st))(t := zeros)) (locks (cache st))" "holds c = holds (cache st)"
proof -
  let ?c = "cache st"
  obtain d where d: "block_write (fs_device ?c) t zeros = Inr d" "blk_aux d = (blk_aux (fs_device ?c))(t := zeros)"
      "blk_size d = blk_size (fs_device ?c)" "device_ok d"
    using device_transfer(2) [OF cache_invD(2) [OF inv] t(1), of zeros] by (auto simp: BLOCK_SECTOR_SIZE_def)
  let ?c' = "?c\<lparr>fs_device := d\<rparr>"
  have h: "holds ?c' = holds ?c" by (simp add: holds_def fun_eq_iff)
  have "block_ok d (blk ?c i)" if i: "i < CACHE_BLOCKS" for i
  proof -
    have "valid (blk ?c i) \<Longrightarrow> csector (blk ?c i) \<noteq> t" using t(2) [of i] i by (auto simp: holds_def)
    then show ?thesis using cache_invD(3) [OF inv i] d(2,3) by (auto simp: block_ok_def)
  qed
  then have inv': "cache_inv ?c'" using inv d(4) h by (simp add: cache_inv_def)
  have "cview ?c' y = ((cview ?c)(t := zeros)) y \<and> locks ?c' y = locks ?c y" for y
  proof (cases "\<exists>i. holds ?c i y")
    case True
    then obtain i where i: "holds ?c i y" by blast
    then have "holds ?c' i y" by (simp add: h)
    then show ?thesis using i cview_holds [OF inv i] cview_holds [OF inv', of i y] t(2) by auto
  next
    case False
    then show ?thesis using cview_not_held [of ?c y] cview_not_held [of ?c' y] d(2) by (simp add: h)
  qed
  then have v: "cview ?c' = (cview ?c)(t := zeros)" "locks ?c' = locks ?c" by auto
  have "moved T ?c ?c' ((cview ?c)(t := zeros)) (locks ?c)"
    using inv' v d(3) by (auto simp: moved_def h)
  moreover have "clear_sector t st = Inr (st\<lparr>cache := ?c'\<rparr>)"
    using d(1) by (simp add: clear_sector_def block_clear_def zeros_def BLOCK_SECTOR_SIZE_def on_cache_def)
  ultimately show ?thesis using that h by blast
qed

section \<open>What an allocator of sectors promises\<close>

text \<open>
  \<open>room\<close>: the free sectors of the device; \<open>own\<close>: the sectors the allocator keeps its own data in;
  \<open>nodes\<close>: the inodes in memory it uses. \<open>ready\<close> is its invariant, which other parts of the file system
  keep as long as they leave these alone.
\<close>

locale sector_source =
  fixes alloc :: alloc
    and room :: "fsys \<Rightarrow> u32 set" and own :: "fsys \<Rightarrow> u32 set" and nodes :: "fsys \<Rightarrow> addr set" and ready :: "fsys \<Rightarrow> bool"
  assumes room_ok: "ready st \<Longrightarrow> t \<in> room st \<Longrightarrow> t \<noteq> 0 \<and> t < blk_size (fs_device (cache st)) \<and> t \<notin> own st"
    and ready_inv: "ready st \<Longrightarrow> cache_inv (cache st) \<and> card (held (locks (cache st))) \<le> 60"
    and own_free: "ready st \<Longrightarrow> x \<in> own st \<Longrightarrow> locks (cache st) x = FREE"
    and alloc_ok: "ready st \<Longrightarrow> room st \<noteq> {} \<Longrightarrow> \<exists>st' t v. alloc st = Inr (st', Some t) \<and> t \<in> room st \<and>
      room st' = room st - {t} \<and> own st' = own st \<and> nodes st' = nodes st \<and> ready st' \<and>
      moved (own st) (cache st) (cache st') v (locks (cache st)) \<and> (\<forall>x. x \<notin> own st \<longrightarrow> v x = cview (cache st) x) \<and>
      inodes st' = inodes st \<and> open_inodes st' = open_inodes st \<and> open_files st' = open_files st"
    and ready_stable: "ready st \<Longrightarrow> moved T (cache st) c v L \<Longrightarrow> (\<forall>x\<in>own st. v x = cview (cache st) x \<and> L x = FREE) \<Longrightarrow>
      card (held L) \<le> 60 \<Longrightarrow> (\<forall>a\<in>nodes st. f a = inodes st a) \<Longrightarrow>
      ready (st\<lparr>inodes := f, cache := c\<rparr>) \<and> room (st\<lparr>inodes := f, cache := c\<rparr>) = room st \<and>
      own (st\<lparr>inodes := f, cache := c\<rparr>) = own st \<and> nodes (st\<lparr>inodes := f, cache := c\<rparr>) = nodes st"
begin

text \<open>None of the free sectors is in the cache.\<close>

definition cold :: "fsys \<Rightarrow> bool" where
  "cold st \<longleftrightarrow> (\<forall>t\<in>room st. \<forall>i. \<not> holds (cache st) i t)"

text \<open>A step that takes the sectors \<open>A\<close> and leaves the rest of the file system as it is.\<close>

definition took :: "u32 set \<Rightarrow> fsys \<Rightarrow> fsys \<Rightarrow> bool" where
  "took A st st' \<longleftrightarrow> A \<subseteq> room st \<and> room st' = room st - A \<and> own st' = own st \<and> nodes st' = nodes st \<and> ready st' \<and> cold st' \<and>
     inodes st' = inodes st \<and> open_inodes st' = open_inodes st \<and> open_files st' = open_files st"

lemma took_trans: "took A st st1 \<Longrightarrow> took B st1 st2 \<Longrightarrow> took (A \<union> B) st st2"
  by (auto simp: took_def)

text \<open>A step in the cache that leaves the allocator alone.\<close>

lemma took_cache:
  assumes "ready st" "cold st" "moved T (cache st) c v L" "\<And>x. x \<in> own st \<Longrightarrow> v x = cview (cache st) x \<and> L x = FREE"
    "card (held L) \<le> 60" "T \<inter> room st = {}"
  shows "took {} st (st\<lparr>cache := c\<rparr>)"
proof -
  have r: "ready (st\<lparr>cache := c\<rparr>)" "room (st\<lparr>cache := c\<rparr>) = room st" "own (st\<lparr>cache := c\<rparr>) = own st" "nodes (st\<lparr>cache := c\<rparr>) = nodes st"
    using ready_stable [OF assms(1,3), of "inodes st"] assms(4,5) by simp_all
  have "cold (st\<lparr>cache := c\<rparr>)"
    using assms(2,6) movedD(6) [OF assms(3)] unfolding cold_def r(2) by (auto; blast)
  then show ?thesis using r by (simp add: took_def)
qed

lemma grow_direct_ok:
  assumes r: "ready st" "cold st" "room st \<noteq> {}" and h: "holds (cache st) c x" "locks (cache st) x = WRITE"
    and k: "k < 128" "get_word (cview (cache st) x) k = 0"
  obtains st' t v where "grow_direct alloc c k st = Inr (st', True)" "took {t} st st'" "t \<in> room st" "t \<noteq> x"
    "moved (own st) (cache st) (cache st') v (locks (cache st))"
    "\<forall>y. y \<notin> own st \<longrightarrow> v y = ((cview (cache st))(x := put_word (cview (cache st) x) k t, t := zeros)) y"
proof -
  let ?c = "cache st"
  obtain st1 t v1 where a: "alloc st = Inr (st1, Some t)" "t \<in> room st" "room st1 = room st - {t}" "own st1 = own st" "nodes st1 = nodes st"
      "ready st1" "moved (own st) ?c (cache st1) v1 (locks ?c)" "\<forall>x. x \<notin> own st \<longrightarrow> v1 x = cview ?c x"
      "inodes st1 = inodes st" "open_inodes st1 = open_inodes st" "open_files st1 = open_files st"
    using alloc_ok [OF r(1,3)] by blast
  have nf: "WRITE \<noteq> FREE" by (simp add: WRITE_def FREE_def)
  have xo: "x \<notin> own st" using own_free [OF r(1)] h(2) nf by metis
  have t: "t \<noteq> 0" "t < blk_size (fs_device ?c)" "t \<notin> own st" using room_ok [OF r(1) a(2)] by simp_all
  have nt: "\<not> holds ?c i t" for i using r(2) a(2) by (simp add: cold_def)
  have tx: "t \<noteq> x" using nt h(1) by metis
  note m1 = movedD [OF a(7)]
  have h1: "holds (cache st1) c x" by (rule m1(5) [OF h(1)]) (simp add: h(2) nf)
  have nt1: "\<not> holds (cache st1) i t" for i using m1(6) nt t(3) by metis
  have l1: "locks (cache st1) x = WRITE" using m1(3) h(2) by simp
  have v1x: "cview (cache st1) x = cview ?c x" using m1(2) a(8) xo by simp
  let ?d = "put_word (cview ?c x) k t"
  have lx: "length (cview ?c x) = 512" using cview_length ready_inv [OF r(1)] by blast
  have d: "length ?d = 512" by (rule get_put_word(2) [OF lx k(1) k(1)])
  have b: "bdata c (cache st1) = cview ?c x" using cview_holds(1) [OF m1(1) h1] v1x by (simp add: bdata_def)
  have b0: "cell c k st = 0" using cview_holds(1) [OF _ h(1)] ready_inv [OF r(1)] k(2) by (simp add: cell_def bdata_def)
  let ?st2 = "st1\<lparr>cache := put_data c ?d (cache st1)\<rparr>"
  have m2: "moved {} (cache st1) (cache ?st2) (v1(x := ?d)) (locks ?c)" "holds (cache ?st2) = holds (cache st1)"
    using put_moved(1) [where T = "{}", OF m1(1) h1 l1 d] put_moved(2) [OF m1(1) h1 l1 d] m1(2,3) by simp_all
  obtain c3 where c3: "clear_sector t ?st2 = Inr (?st2\<lparr>cache := c3\<rparr>)"
      "moved {} (cache ?st2) c3 ((cview (cache ?st2))(t := zeros)) (locks (cache ?st2))"
    by (rule clear_sector_ok [where st = ?st2 and t = t and T = "{}"]) (use movedD [OF m2(1)] m1(4) t(2) nt1 m2(2) in simp_all)
  let ?v = "v1(x := ?d, t := zeros)"
  have m3: "moved {} (cache st1) c3 ?v (locks ?c)"
    by (rule moved_trans [OF m2(1)]) (use c3(2) movedD(2,3) [OF m2(1)] m1(3) in simp_all)
  have "took {} st1 (st1\<lparr>cache := c3\<rparr>)"
  proof (rule took_cache [OF a(6) _ m3])
    show "cold st1" using nt1 m1(6) r(2) a(3) room_ok [OF r(1)] unfolding cold_def by (metis DiffD1)
    show "?v y = cview (cache st1) y \<and> locks ?c y = FREE" if "y \<in> own st1" for y
      using that a(4) xo t(3) m1(2) own_free [OF r(1)] by auto
    show "card (held (locks ?c)) \<le> 60" using ready_inv [OF r(1)] by simp
  qed simp
  then have tk: "took {t} st (st1\<lparr>cache := c3\<rparr>)"
    using a by (simp add: took_def)
  have m: "moved (own st) ?c c3 ?v (locks ?c)"
    by (rule moved_trans [OF a(7) moved_mono [OF m3]]) simp_all
  have "grow_direct alloc c k st = Inr (st1\<lparr>cache := c3\<rparr>, True)"
    using b0 a(1) b c3(1) by (simp add: grow_direct_def set_cell_def on_cache_def)
  moreover have "\<forall>y. y \<notin> own st \<longrightarrow> ?v y = ((cview ?c)(x := ?d, t := zeros)) y" using a(8) by simp
  ultimately show ?thesis using that [of "st1\<lparr>cache := c3\<rparr>" t ?v] tk a(2) tx m by simp
qed

lemma room_free:
  assumes "cold st" "t \<in> room st"
  shows "locks (cache st) t = FREE"
  using assms cview_not_held(2) [of "cache st" t] by (simp add: cold_def FREE_def)

text \<open>The second half of \<open>grow_indirect\<close>: a new block in the sector \<open>y\<close>, which is locked for the time.\<close>

lemma grow_in_block:
  assumes r: "ready st" "cold st" "room st \<noteq> {}" and c: "card (held (locks (cache st))) \<le> 59"
    and y: "y \<noteq> 0" "y < blk_size (fs_device (cache st))" "locks (cache st) y = FREE" "y \<notin> own st" "y \<notin> room st"
    and k: "unat index < 128" "get_word (cview (cache st) y) (unat index) = 0"
  obtains st' t v where
    "bindR (with_cache (cache_write_block y) st) (\<lambda>(st, i). bindR (ASSERT (index < ENTRIES_PER_SECTOR)) (\<lambda>_.
       bindR (grow_direct alloc i (unat index) st) (\<lambda>(st, ok).
       if \<not> ok then Inr (st, False) else Inr (on_cache (cache_write_end i) st, True)))) = Inr (st', True)"
    "took {t} st st'" "t \<in> room st" "moved (insert y (own st)) (cache st) (cache st') v (locks (cache st))"
    "\<forall>x. x \<notin> own st \<longrightarrow> v x = ((cview (cache st))(y := put_word (cview (cache st) y) (unat index) t, t := zeros)) x"
proof -
  let ?c = "cache st" and ?T = "insert y (own st)"
  have inv: "cache_inv ?c" using ready_inv [OF r(1)] by simp
  have ro: "x \<in> room st \<Longrightarrow> x \<notin> own st" for x using room_ok [OF r(1)] by simp
  have yT: "y \<in> ?T" by simp
  obtain c1 i where w: "cache_write_block y ?c = Inr (c1, i)" "bdata i c1 = cview ?c y" "holds c1 i y"
      "moved ?T ?c c1 (cview ?c) ((locks ?c)(y := WRITE))" "card (held (locks c1)) \<le> Suc (card (held (locks ?c)))"
    by (rule write_block [OF inv y(1-3) _ yT]) (use c in \<open>simp_all add: CACHE_BLOCKS_def\<close>)
  note m1 = movedD [OF w(4)]
  let ?st1 = "st\<lparr>cache := c1\<rparr>"
  have t1: "took {} st ?st1"
  proof (rule took_cache [OF r(1,2) w(4)])
    show "cview ?c x = cview ?c x \<and> ((locks ?c)(y := WRITE)) x = FREE" if "x \<in> own st" for x
      using that y(4) own_free [OF r(1)] by auto
    show "card (held ((locks ?c)(y := WRITE))) \<le> 60" using w(5) c m1(3) by simp
    show "?T \<inter> room st = {}" using y(5) ro by auto
  qed
  have r1: "ready ?st1" "cold ?st1" "room ?st1 \<noteq> {}" and o1: "own ?st1 = own st" "room ?st1 = room st"
    using t1 r(3) by (simp_all add: took_def)
  have l1: "locks (cache ?st1) y = WRITE" using m1(3) by simp
  have k1: "get_word (cview (cache ?st1) y) (unat index) = 0" using k(2) m1(2) by simp
  have h1: "holds (cache ?st1) i y" using w(3) by simp
  obtain st2 t v where g: "grow_direct alloc i (unat index) ?st1 = Inr (st2, True)" "took {t} ?st1 st2" "t \<in> room ?st1" "t \<noteq> y"
      "moved (own ?st1) (cache ?st1) (cache st2) v (locks (cache ?st1))"
      "\<forall>x. x \<notin> own ?st1 \<longrightarrow> v x = ((cview (cache ?st1))(y := put_word (cview (cache ?st1) y) (unat index) t, t := zeros)) x"
    by (rule grow_direct_ok [OF r1 h1 l1 k(1) k1])
  have g5: "moved (own st) c1 (cache st2) v (locks c1)" using g(5) o1 by simp
  have m2: "moved ?T c1 (cache st2) v (locks c1)" by (rule moved_mono [OF g5]) blast
  let ?c3 = "cache_write_end i (cache st2)" and ?st3 = "st2\<lparr>cache := cache_write_end i (cache st2)\<rparr>"
  have m3: "moved ?T ?c ?c3 v (locks ?c)" by (rule write_end [OF w(4) y(3) w(3) m2])
  have h2: "holds (cache st2) i y" by (rule movedD(5) [OF m2 w(3)]) (simp add: m1(3) WRITE_def FREE_def)
  have l2: "locks (cache st2) y = WRITE" using movedD(3) [OF m2] m1(3) by simp
  have e: "moved {} (cache st2) ?c3 v (locks ?c)"
    using quiet_same [OF cache_write_end_ok [OF movedD(1) [OF m2] h2 l2], of "{}"] movedD [OF m2] m1(3) y(3)
    by (simp add: fun_upd_idem)
  have o2: "own st2 = own st" "ready st2" "cold st2" using g(2) o1 by (simp_all add: took_def)
  have "took {} st2 ?st3"
  proof (rule took_cache [OF o2(2,3) e])
    show "v x = cview (cache st2) x \<and> locks ?c x = FREE" if "x \<in> own st2" for x
      using that movedD(2) [OF m2] o2(1) own_free [OF r(1)] by simp
    show "card (held (locks ?c)) \<le> 60" using c by simp
  qed simp
  then have "took ({} \<union> {t} \<union> {}) st ?st3" by (rule took_trans [OF took_trans [OF t1 g(2)]])
  then have tk: "took {t} st ?st3" by simp
  have ix: "index < ENTRIES_PER_SECTOR" using k(1) by (simp add: word_less_nat_alt ENTRIES_PER_SECTOR_def)
  have "bindR (with_cache (cache_write_block y) st) (\<lambda>(st, i). bindR (ASSERT (index < ENTRIES_PER_SECTOR)) (\<lambda>_.
       bindR (grow_direct alloc i (unat index) st) (\<lambda>(st, ok).
       if \<not> ok then Inr (st, False) else Inr (on_cache (cache_write_end i) st, True)))) = Inr (?st3, True)"
    using w(1) ix g(1) by (simp add: on_cache_def)
  moreover have "\<forall>x. x \<notin> own st \<longrightarrow> v x = ((cview ?c)(y := put_word (cview ?c y) (unat index) t, t := zeros)) x"
    using g(6) o1(1) m1(2) by simp
  ultimately show ?thesis using that [of ?st3 t v] tk g(3) o1(2) m3 by simp
qed

text \<open>The file \<open>s\<close>, whose inode this thread has locked in block \<open>c\<close>, has \<open>n\<close> blocks and may grow.\<close>

definition growing :: "fsys \<Rightarrow> nat \<Rightarrow> u32 \<Rightarrow> nat \<Rightarrow> bool" where
  "growing st c s n \<longleftrightarrow> ready st \<and> cold st \<and> holds (cache st) c s \<and> locks (cache st) s = WRITE \<and>
     card (held (locks (cache st))) \<le> 59 \<and> growable (cview (cache st)) s n \<and>
     (\<forall>x\<in>sectors (cview (cache st)) s (n * 512) - {s}. x \<noteq> 0 \<and> x < blk_size (fs_device (cache st)) \<and>
        locks (cache st) x = FREE \<and> x \<notin> own st \<and> x \<notin> room st)"

text \<open>The result of adding block \<open>n\<close>.\<close>

definition grew :: "fsys \<Rightarrow> fsys \<Rightarrow> u32 \<Rightarrow> nat \<Rightarrow> bool" where
  "grew st st' s n \<longleftrightarrow> (\<exists>A v' t y. took A st st' \<and> card A \<le> 2 \<and> t \<in> A \<and> (60 \<le> n \<longrightarrow> (n - 60) mod 128 = 0 \<longrightarrow> y \<in> A) \<and>
     moved (own st \<union> sectors (cview (cache st)) s (n * 512) \<union> A) (cache st) (cache st') v' (locks (cache st)) \<and>
     tree_step (cview (cache st)) v' s n t y \<and> fresh_step (cview (cache st)) s n t y \<and>
     (\<forall>k. 100 \<le> k \<longrightarrow> k < 128 \<longrightarrow> get_word (v' s) k = get_word (cview (cache st) s) k) \<and>
     (\<forall>x. x \<notin> own st \<union> sectors (cview (cache st)) s (n * 512) \<union> A \<longrightarrow> v' x = cview (cache st) x))"

lemma growingD:
  assumes "growing st c s n"
  shows "ready st" "cold st" "holds (cache st) c s" "locks (cache st) s = WRITE" "card (held (locks (cache st))) \<le> 59"
    "growable (cview (cache st)) s n" "s \<notin> own st" "s \<notin> room st" "cache_inv (cache st)"
    "x \<in> sectors (cview (cache st)) s (n * 512) \<Longrightarrow> x \<notin> own st \<and> x \<notin> room st"
    "x \<in> sectors (cview (cache st)) s (n * 512) \<Longrightarrow> x \<noteq> s \<Longrightarrow>
       x \<noteq> 0 \<and> x < blk_size (fs_device (cache st)) \<and> locks (cache st) x = FREE"
proof -
  show g: "ready st" "cold st" "holds (cache st) c s" "locks (cache st) s = WRITE" "card (held (locks (cache st))) \<le> 59"
    "growable (cview (cache st)) s n" using assms by (simp_all add: growing_def)
  show o: "s \<notin> own st" using own_free [OF g(1)] g(4) by (auto simp: WRITE_def FREE_def)
  show r: "s \<notin> room st" using g(2,3) by (auto simp: cold_def)
  show "cache_inv (cache st)" using ready_inv [OF g(1)] by simp
  show "x \<in> sectors (cview (cache st)) s (n * 512) \<Longrightarrow> x \<notin> own st \<and> x \<notin> room st"
    using assms o r by (cases "x = s") (auto simp: growing_def)
  show "x \<in> sectors (cview (cache st)) s (n * 512) \<Longrightarrow> x \<noteq> s \<Longrightarrow>
       x \<noteq> 0 \<and> x < blk_size (fs_device (cache st)) \<and> locks (cache st) x = FREE"
    using assms by (auto simp: growing_def)
qed

lemma grow_first_blocks:
  assumes g: "growing st c s n" and n: "n < 60" and r: "room st \<noteq> {}"
  shows "\<exists>st'. grow_block alloc c (of_nat n) st = Inr (st', True) \<and> grew st st' s n"
proof -
  let ?v = "cview (cache st)"
  note d = growingD [OF g]
  have sp: "unat (of_nat n :: u32) = n" "(of_nat n :: u32) < NUM_DIRECT"
    using block_split(1,2) [of n "of_nat n"] n by (simp_all add: MAX_BLOCKS_def)
  have lv: "length (?v s) = 512" by (rule cview_length [OF d(9)])
  have w0: "get_word (?v s) n = 0" using d(6) n by (simp add: growable_def)
  have n128: "n < 128" using n by simp
  obtain st' t v where q: "grow_direct alloc c n st = Inr (st', True)" "took {t} st st'" "t \<in> room st" "t \<noteq> s"
      "moved (own st) (cache st) (cache st') v (locks (cache st))"
      "\<forall>y. y \<notin> own st \<longrightarrow> v y = (?v(s := put_word (?v s) n t, t := zeros)) y"
    by (rule grow_direct_ok [OF d(1,2) r d(3,4) n128 w0])
  have to: "t \<notin> own st" using room_ok [OF d(1) q(3)] by simp
  have ts: "t \<notin> sectors ?v s (n * 512)" using d(10) q(3) by blast
  have vs: "v s = put_word (?v s) n t" "v t = zeros" using q(4,6) d(7) to by auto
  have gw: "k < 128 \<Longrightarrow> get_word (v s) k = (if k = n then t else get_word (?v s) k)" for k
    unfolding vs(1) by (rule get_put_word(1) [OF lv n128])
  have "tree_step ?v v s n t 0"
    unfolding tree_step_def
  proof (intro conjI allI impI)
    fix m assume m: "m < n"
    have "block_index ?v s m \<in> sectors ?v s (n * 512)" using m by (auto simp: sectors_blocks)
    then show "v (block_index ?v s m) = ?v (block_index ?v s m)"
      using q(6) ts d(10) data_not_index(2) [OF d(6) m m path_self] by auto
  qed (use n gw vs in \<open>auto simp: SINGLE_AT_def\<close>)
  moreover have "fresh_step ?v s n t 0" using ts n by (simp add: fresh_step_def)
  moreover have "moved (own st \<union> sectors ?v s (n * 512) \<union> {t}) (cache st) (cache st') v (locks (cache st))"
    by (rule moved_mono [OF q(5)]) blast
  moreover have "\<forall>k. 100 \<le> k \<longrightarrow> k < 128 \<longrightarrow> get_word (v s) k = get_word (?v s) k" using gw n by simp
  moreover have "\<forall>x. x \<notin> own st \<union> sectors ?v s (n * 512) \<union> {t} \<longrightarrow> v x = ?v x"
    using q(6) by (auto simp: sectors_blocks)
  ultimately have "grew st st' s n" unfolding grew_def using q(2) n by (intro exI [of _ "{t}"] exI [of _ v] exI [of _ t] exI [of _ 0]) auto
  then show ?thesis using q(1) sp by (simp add: grow_block_def)
qed

lemma grow_old_indirect:
  assumes g: "growing st c s n" and n: "60 \<le> n" "n < SINGLE_LIMIT" "(n - 60) mod 128 \<noteq> 0" and r: "room st \<noteq> {}"
  shows "\<exists>st'. grow_block alloc c (of_nat n) st = Inr (st', True) \<and> grew st st' s n"
proof -
  let ?v = "cview (cache st)" and ?k = "(n - 60) div 128" and ?j = "(n - 60) mod 128"
  let ?y = "single ?v s ?k" and ?w = "(of_nat n - NUM_DIRECT) mod ENTRIES_PER_SECTOR :: u32"
  note d = growingD [OF g]
  have nM: "n < MAX_BLOCKS" using n(2) by (simp add: MAX_BLOCKS_def SINGLE_LIMIT_def)
  note sp = block_split [OF nM refl]
  have nk: "n = 60 + 128 * ?k + ?j" "?k < 40" "60 + 128 * ?k < n" using block_single(3) [OF n(2,1)] n(3) by linarith+
  have yp: "?y \<in> path ?v s (60 + 128 * ?k)" using block_single(2) [of "60 + 128 * ?k" ?v s] nk(3) n(2) by simp
  then have ys: "?y \<in> sectors ?v s (n * 512)" using nk(3) by (auto simp: sectors_blocks)
  have y's: "?y \<noteq> s"
    using d(6) apart_single [of n ?v s] nk(3) by (auto simp: growable_def dest: spec [of _ "60 + 128 * ?k"])
  have y0: "get_word (?v ?y) ?j = 0" using d(6) nk by (simp add: growable_def)
  have inv: "length (?v ?y) = 512" by (rule cview_length [OF d(9)])
  have cl: "cell c (SINGLE_AT + ?k) st = ?y" using cview_holds(1) [OF d(9,3)] by (simp add: cell_def bdata_def)
  have wj: "unat ?w = ?j" using sp(4) [OF n(1)] by simp
  have w0: "?w \<noteq> 0" using wj n(3) by (metis unat_0)
  obtain st' t v where q: "bindR (with_cache (cache_write_block ?y) st) (\<lambda>(st, i). bindR (ASSERT (?w < ENTRIES_PER_SECTOR)) (\<lambda>_.
       bindR (grow_direct alloc i (unat ?w) st) (\<lambda>(st, ok).
       if \<not> ok then Inr (st, False) else Inr (on_cache (cache_write_end i) st, True)))) = Inr (st', True)"
      "took {t} st st'" "t \<in> room st" "moved (insert ?y (own st)) (cache st) (cache st') v (locks (cache st))"
      "\<forall>x. x \<notin> own st \<longrightarrow> v x = (?v(?y := put_word (?v ?y) (unat ?w) t, t := zeros)) x"
    by (rule grow_in_block [OF d(1,2) r d(5), of ?y ?w]) (use d(10,11) [OF ys] y's wj y0 in simp_all)
  have to: "t \<notin> own st" using room_ok [OF d(1) q(3)] by simp
  have ts: "t \<notin> sectors ?v s (n * 512)" using d(10) q(3) by blast
  have tne: "t \<noteq> ?y" "t \<noteq> s" using ts ys by (auto simp: sectors_blocks)
  have vs: "v s = ?v s" "v t = zeros" "v ?y = put_word (?v ?y) ?j t"
    using q(5) d(7) d(10) [OF ys] to y's tne wj by auto
  have gw: "i < 128 \<Longrightarrow> get_word (v ?y) i = (if i = ?j then t else get_word (?v ?y) i)" for i
    unfolding vs(3) by (rule get_put_word(1) [OF inv]) simp_all
  have n128: "60 + 128 * k \<noteq> n" for k using n(3) by auto
  have "tree_step ?v v s n t 0"
    unfolding tree_step_def
  proof (intro conjI allI impI)
    fix m assume m: "m < n"
    have "block_index ?v s m \<in> sectors ?v s (n * 512)" using m by (auto simp: sectors_blocks)
    then show "v (block_index ?v s m) = ?v (block_index ?v s m)"
      using q(5) ts d(10) data_not_index(1) [OF d(6) m nk(3) yp] by auto
  next
    fix k i assume k: "60 + 128 * k \<le> n" "i < (128::nat)"
    have kn: "60 + 128 * k < n" using k(1) n128 [of k] by linarith
    show "get_word (v (single v s k)) i = (if 60 + 128 * k + i = n then t else if 60 + 128 * k = n then 0 else get_word (?v (single ?v s k)) i)"
    proof (cases "k = ?k")
      case True
      have "60 + 128 * ?k + i = n \<longleftrightarrow> i = ?j" using nk(1) by linarith
      then show ?thesis using True gw [OF k(2)] n128 by (simp add: vs(1))
    next
      case False
      have "single ?v s k \<noteq> ?y" using False d(6) kn nk(3) unfolding growable_def by blast
      moreover have "single ?v s k \<in> path ?v s (60 + 128 * k)" using block_single(2) [of "60 + 128 * k" ?v s] kn n(2) by simp
      then have "single ?v s k \<in> sectors ?v s (n * 512)" using kn by (auto simp: sectors_blocks)
      ultimately have "v (single ?v s k) = ?v (single ?v s k)" using q(5) d(10) ts by auto
      moreover have "60 + 128 * k + i \<noteq> n"
      proof
        assume "60 + 128 * k + i = n"
        then have "n - 60 = 128 * k + i" by simp
        then show False using False k(2) by simp
      qed
      ultimately show ?thesis using n128 by (simp add: vs(1))
    qed
  qed (use n n128 vs in auto)
  moreover have "fresh_step ?v s n t 0" using ts n(3) by (simp add: fresh_step_def)
  moreover have "moved (own st \<union> sectors ?v s (n * 512) \<union> {t}) (cache st) (cache st') v (locks (cache st))"
    by (rule moved_mono [OF q(4)]) (use ys in blast)
  moreover have "\<forall>x. x \<notin> own st \<union> sectors ?v s (n * 512) \<union> {t} \<longrightarrow> v x = ?v x" using q(5) ys by auto
  ultimately have "grew st st' s n" unfolding grew_def using q(2) n(3) vs(1) by (intro exI [of _ "{t}"] exI [of _ v] exI [of _ t] exI [of _ 0]) auto
  moreover have "grow_block alloc c (of_nat n) st = Inr (st', True)"
    using q(1) sp(2,3,5) n(1) nk(2) w0 cl by (simp add: grow_block_def grow_indirect_def Let_def)
  ultimately show ?thesis by blast
qed

lemma grow_new_indirect:
  assumes g: "growing st c s n" and n: "60 \<le> n" "n < SINGLE_LIMIT" "(n - 60) mod 128 = 0" and r: "2 \<le> card (room st)"
  shows "\<exists>st'. grow_block alloc c (of_nat n) st = Inr (st', True) \<and> grew st st' s n"
proof -
  let ?v = "cview (cache st)" and ?k = "(n - 60) div 128"
  let ?w = "(of_nat n - NUM_DIRECT) mod ENTRIES_PER_SECTOR :: u32"
  note d = growingD [OF g]
  have nM: "n < MAX_BLOCKS" using n(2) by (simp add: MAX_BLOCKS_def SINGLE_LIMIT_def)
  note sp = block_split [OF nM refl]
  have nk: "60 + 128 * ?k = n" "?k < 40" using block_single(3) [OF n(2,1)] n(3) by linarith+
  have w: "?w = 0" using sp(4) [OF n(1)] n(3) by (metis unat_eq_zero)
  have r1: "room st \<noteq> {}" using r by auto
  have lv: "length (?v s) = 512" by (rule cview_length [OF d(9)])
  have k128: "SINGLE_AT + ?k < 128" using nk(2) by (simp add: SINGLE_AT_def)
  have w0: "get_word (?v s) (SINGLE_AT + ?k) = 0" using d(6) nk by (simp add: growable_def)
  obtain st1 y v1 where q: "grow_direct alloc c (SINGLE_AT + ?k) st = Inr (st1, True)" "took {y} st st1" "y \<in> room st" "y \<noteq> s"
      "moved (own st) (cache st) (cache st1) v1 (locks (cache st))"
      "\<forall>x. x \<notin> own st \<longrightarrow> v1 x = (?v(s := put_word (?v s) (SINGLE_AT + ?k) y, y := zeros)) x"
    by (rule grow_direct_ok [OF d(1,2) r1 d(3,4) k128 w0])
  have o1: "own st1 = own st" "room st1 = room st - {y}" "ready st1" "cold st1" using q(2) by (simp_all add: took_def)
  note m1 = movedD [OF q(5)]
  have yo: "y \<noteq> 0" "y < blk_size (fs_device (cache st))" "y \<notin> own st" using room_ok [OF d(1) q(3)] by simp_all
  have yh: "\<not> holds (cache st1) i y" for i using m1(6) [of i y] d(2) q(3) yo(3) by (auto simp: cold_def)
  have ys: "y \<notin> sectors ?v s (n * 512)" using d(10) q(3) by blast
  have v1: "cview (cache st1) y = zeros" "cview (cache st1) s = put_word (?v s) (SINGLE_AT + ?k) y"
    using q(4,6) m1(2) yo(3) d(7) by auto
  have r2: "room st1 \<noteq> {}"
  proof
    assume "room st1 = {}"
    then have "room st \<subseteq> {y}" using o1(2) by blast
    then have "card (room st) \<le> card {y}" by (intro card_mono) simp_all
    then show False using r by simp
  qed
  have ly: "locks (cache st1) y = FREE" using cview_not_held(2) [OF yh] by (simp add: FREE_def)
  have z: "get_word (cview (cache st1) y) (unat (0::u32)) = 0" by (simp add: v1(1) get_word_zeros)
  obtain st2 t v where p: "bindR (with_cache (cache_write_block y) st1) (\<lambda>(st, i). bindR (ASSERT ((0::u32) < ENTRIES_PER_SECTOR)) (\<lambda>_.
       bindR (grow_direct alloc i (unat (0::u32)) st) (\<lambda>(st, ok).
       if \<not> ok then Inr (st, False) else Inr (on_cache (cache_write_end i) st, True)))) = Inr (st2, True)"
      "took {t} st1 st2" "t \<in> room st1" "moved (insert y (own st1)) (cache st1) (cache st2) v (locks (cache st1))"
      "\<forall>x. x \<notin> own st1 \<longrightarrow> v x = ((cview (cache st1))(y := put_word (cview (cache st1) y) (unat (0::u32)) t, t := zeros)) x"
    by (rule grow_in_block [OF o1(3,4) r2, of y 0]) (use d(5) m1(3,4) yo o1 ly z in simp_all)
  have t: "t \<in> room st" "t \<noteq> y" using p(3) o1(2) by auto
  have to: "t \<notin> own st" using room_ok [OF d(1) t(1)] by simp
  have ts: "t \<notin> sectors ?v s (n * 512)" using d(10) t(1) by blast
  have tns: "t \<noteq> s" using ts by (auto simp: sectors_blocks)
  have pv: "v x = (?v(s := put_word (?v s) (SINGLE_AT + ?k) y, y := put_word zeros 0 t, t := zeros)) x" if "x \<notin> own st" for x
    using p(5) q(6) m1(2) that o1(1) v1(1) q(4) t(2) tns by auto
  have vs: "v s = put_word (?v s) (SINGLE_AT + ?k) y" "v y = put_word zeros 0 t" "v t = zeros"
    using pv d(7) yo(3) to q(4) t(2) tns by simp_all
  have gs: "i < 128 \<Longrightarrow> get_word (v s) i = (if i = SINGLE_AT + ?k then y else get_word (?v s) i)" for i
    unfolding vs(1) by (rule get_put_word(1) [OF lv k128])
  have gy: "i < 128 \<Longrightarrow> get_word (v y) i = (if i = 0 then t else 0)" for i
    unfolding vs(2) using get_put_word(1) [of zeros 0 i t] get_word_zeros [of i] by simp
  have sk: "single v s k = (if k = ?k then y else single ?v s k)" if "k < 40" for k
    using gs [of "SINGLE_AT + k"] that by (simp add: SINGLE_AT_def)
  have n128: "60 + 128 * k = n \<longleftrightarrow> k = ?k" for k using nk(1) by linarith
  have "tree_step ?v v s n t y"
    unfolding tree_step_def
  proof (intro conjI allI impI)
    fix m assume m: "m < n"
    have "block_index ?v s m \<in> sectors ?v s (n * 512)" using m by (auto simp: sectors_blocks)
    then show "v (block_index ?v s m) = ?v (block_index ?v s m)"
      using pv [of "block_index ?v s m"] ts ys d(10) data_not_index(2) [OF d(6) m m path_self] by auto
  next
    fix k i assume k: "60 + 128 * k \<le> n" "i < (128::nat)"
    have k40: "k < 40" using k(1) n(2) by (simp add: SINGLE_LIMIT_def)
    show "get_word (v (single v s k)) i = (if 60 + 128 * k + i = n then t else if 60 + 128 * k = n then 0 else get_word (?v (single ?v s k)) i)"
    proof (cases "k = ?k")
      case True
      then show ?thesis using gy [OF k(2)] nk sk [OF k40] by simp
    next
      case False
      then have kn: "60 + 128 * k < n" using k(1) n128 [of k] by linarith
      have "single ?v s k \<in> path ?v s (60 + 128 * k)" using block_single(2) [of "60 + 128 * k" ?v s] kn n(2) by simp
      then have "single ?v s k \<in> sectors ?v s (n * 512)" using kn by (auto simp: sectors_blocks)
      moreover have "single ?v s k \<noteq> s"
        using d(6) apart_single [of n ?v s] kn by (auto simp: growable_def dest: spec [of _ "60 + 128 * k"])
      ultimately have "v (single ?v s k) = ?v (single ?v s k)" using pv [of "single ?v s k"] d(10) ts ys by auto
      moreover have "60 + 128 * k + i \<noteq> n"
      proof
        assume "60 + 128 * k + i = n"
        then have "n - 60 = 128 * k + i" by simp
        then show False using False k(2) by simp
      qed
      ultimately show ?thesis using sk [OF k40] False n128 by simp
    qed
  next
    fix m assume "m < (60::nat)"
    then show "get_word (v s) m = (if m = n then t else get_word (?v s) m)" using gs [of m] n(1) by (simp add: SINGLE_AT_def)
  next
    fix k assume "k < (40::nat)"
    then show "single v s k = (if 60 + 128 * k = n then y else single ?v s k)" using sk n128 by simp
  qed (rule vs)
  moreover have "fresh_step ?v s n t y" using ts ys t(2) by (simp add: fresh_step_def)
  moreover have m2: "moved (insert y (own st)) (cache st1) (cache st2) v (locks (cache st))" using p(4) o1(1) m1(3) by simp
  have "moved (insert y (own st)) (cache st) (cache st2) v (locks (cache st))"
    by (rule moved_trans [OF moved_mono [OF q(5)] m2]) auto
  then have "moved (own st \<union> sectors ?v s (n * 512) \<union> {y, t}) (cache st) (cache st2) v (locks (cache st))"
    by (rule moved_mono) blast
  moreover have "\<forall>i. 100 \<le> i \<longrightarrow> i < 128 \<longrightarrow> get_word (v s) i = get_word (?v s) i"
    using gs nk(2) by (simp add: SINGLE_AT_def)
  moreover have "\<forall>x. x \<notin> own st \<union> sectors ?v s (n * 512) \<union> {y, t} \<longrightarrow> v x = ?v x" using pv by (auto simp: sectors_blocks)
  moreover have "took {y, t} st st2" using took_trans [OF q(2) p(2)] by (simp add: insert_commute)
  moreover have "card {y, t} \<le> 2" by (simp add: card_insert_le_m1)
  ultimately have "grew st st2 s n" unfolding grew_def by (intro exI [of _ "{y, t}"] exI [of _ v] exI [of _ t] exI [of _ y]) simp
  moreover have "cell c (SINGLE_AT + ?k) st1 = y"
  proof -
    have h: "holds (cache st1) c s" by (rule m1(5) [OF d(3)]) (simp add: d(4) WRITE_def FREE_def)
    have "get_word (put_word (?v s) (SINGLE_AT + ?k) y) (SINGLE_AT + ?k) = y" using get_put_word(1) [OF lv k128 k128] by simp
    then show ?thesis using cview_holds(1) [OF m1(1) h] v1(2) by (simp add: cell_def bdata_def)
  qed
  then have "grow_block alloc c (of_nat n) st = Inr (st2, True)"
    using p(1) q(1) sp(2,3,5) n(1) nk(2) w by (simp add: grow_block_def grow_indirect_def Let_def)
  ultimately show ?thesis by blast
qed

lemma grow_block_ok:
  assumes "growing st c s n" "n < SINGLE_LIMIT" "2 \<le> card (room st)"
  obtains st' where "grow_block alloc c (of_nat n) st = Inr (st', True)" "grew st st' s n"
proof -
  have "room st \<noteq> {}" using assms(3) by auto
  then show ?thesis
    using that grow_first_blocks [OF assms(1)] grow_old_indirect [OF assms(1) _ assms(2)] grow_new_indirect [OF assms(1) _ assms(2) _ assms(3)]
    by (metis not_le)
qed

text \<open>Several blocks one after the other.\<close>

definition extended :: "fsys \<Rightarrow> fsys \<Rightarrow> u32 \<Rightarrow> nat \<Rightarrow> nat \<Rightarrow> bool" where
  "extended st st' s n n' \<longleftrightarrow> (\<exists>A v'. took A st st' \<and> card A \<le> 2 * (n' - n) \<and>
     moved (own st \<union> sectors (cview (cache st)) s (n * 512) \<union> A) (cache st) (cache st') v' (locks (cache st)) \<and>
     sectors v' s (n' * 512) \<subseteq> sectors (cview (cache st)) s (n * 512) \<union> A \<and>
     bytes v' s (n' * 512) = bytes (cview (cache st)) s (n * 512) @ concat (replicate (n' - n) zeros) \<and>
     (\<forall>k. 100 \<le> k \<longrightarrow> k < 128 \<longrightarrow> get_word (v' s) k = get_word (cview (cache st) s) k) \<and>
     (\<forall>x. x \<notin> own st \<union> sectors (cview (cache st)) s (n * 512) \<union> A \<longrightarrow> v' x = cview (cache st) x))"

lemma extended_refl: "ready st \<Longrightarrow> cold st \<Longrightarrow> extended st st s n n"
  unfolding extended_def
  using ready_inv [of st] moved_refl [of "cache st"]
  by (intro exI [of _ "{}"] exI [of _ "cview (cache st)"]) (simp add: took_def)

lemma extended_trans:
  assumes "extended st st1 s n n1" "extended st1 st2 s n1 n2" "n \<le> n1" "n1 \<le> n2"
  shows "extended st st2 s n n2"
proof -
  let ?v = "cview (cache st)" and ?v1 = "cview (cache st1)"
  obtain A v1 where a: "took A st st1" "card A \<le> 2 * (n1 - n)"
     "moved (own st \<union> sectors ?v s (n * 512) \<union> A) (cache st) (cache st1) v1 (locks (cache st))"
     "sectors v1 s (n1 * 512) \<subseteq> sectors ?v s (n * 512) \<union> A"
     "bytes v1 s (n1 * 512) = bytes ?v s (n * 512) @ concat (replicate (n1 - n) zeros)"
     "\<forall>k. 100 \<le> k \<longrightarrow> k < 128 \<longrightarrow> get_word (v1 s) k = get_word (?v s) k"
     "\<forall>x. x \<notin> own st \<union> sectors ?v s (n * 512) \<union> A \<longrightarrow> v1 x = ?v x"
    using assms(1) unfolding extended_def by (elim exE conjE)
  obtain B v2 where b: "took B st1 st2" "card B \<le> 2 * (n2 - n1)"
     "moved (own st1 \<union> sectors ?v1 s (n1 * 512) \<union> B) (cache st1) (cache st2) v2 (locks (cache st1))"
     "sectors v2 s (n2 * 512) \<subseteq> sectors ?v1 s (n1 * 512) \<union> B"
     "bytes v2 s (n2 * 512) = bytes ?v1 s (n1 * 512) @ concat (replicate (n2 - n1) zeros)"
     "\<forall>k. 100 \<le> k \<longrightarrow> k < 128 \<longrightarrow> get_word (v2 s) k = get_word (?v1 s) k"
     "\<forall>x. x \<notin> own st1 \<union> sectors ?v1 s (n1 * 512) \<union> B \<longrightarrow> v2 x = ?v1 x"
    using assms(2) unfolding extended_def by (elim exE conjE)
  have v1: "?v1 = v1" "locks (cache st1) = locks (cache st)" using movedD [OF a(3)] by simp_all
  have o1: "own st1 = own st" using a(1) by (simp add: took_def)
  let ?T = "own st \<union> sectors ?v s (n * 512) \<union> (A \<union> B)"
  have "moved ?T (cache st) (cache st2) v2 (locks (cache st))"
  proof (rule moved_trans)
    show "moved ?T (cache st) (cache st1) v1 (locks (cache st))" by (rule moved_mono [OF a(3)]) blast
    show "moved ?T (cache st1) (cache st2) v2 (locks (cache st))"
      by (rule moved_mono [OF b(3) [unfolded v1(2)]]) (use a(4) in \<open>auto simp: v1 o1\<close>)
  qed
  moreover have "card (A \<union> B) \<le> 2 * (n2 - n)" using card_Un_le [of A B] a(2) b(2) assms(3,4) by linarith
  moreover have "sectors v2 s (n2 * 512) \<subseteq> sectors ?v s (n * 512) \<union> (A \<union> B)" using a(4) b(4) v1(1) by blast
  moreover have "bytes v2 s (n2 * 512) = bytes ?v s (n * 512) @ concat (replicate (n2 - n) zeros)"
  proof -
    have "n2 - n = (n1 - n) + (n2 - n1)" using assms(3,4) by simp
    then show ?thesis using a(5) b(5) v1(1) by (simp add: replicate_add)
  qed
  moreover have "\<forall>k. 100 \<le> k \<longrightarrow> k < 128 \<longrightarrow> get_word (v2 s) k = get_word (?v s) k" using a(6) b(6) v1(1) by simp
  moreover have "\<forall>x. x \<notin> ?T \<longrightarrow> v2 x = ?v x"
  proof (intro allI impI)
    fix x assume x: "x \<notin> ?T"
    then have "v1 x = ?v x" using a(7) by simp
    moreover have "x \<notin> sectors v1 s (n1 * 512)" using subsetD [OF a(4), of x] x by auto
    then have "v2 x = ?v1 x" using b(7) x by (simp add: v1(1) o1)
    ultimately show "v2 x = ?v x" by (simp add: v1(1))
  qed
  ultimately show ?thesis using took_trans [OF a(1) b(1)] unfolding extended_def by (intro exI [of _ "A \<union> B"] exI [of _ v2] conjI)
qed

lemma grew_sectors:
  assumes st: "tree_step v v' s n t y" and n: "n < SINGLE_LIMIT" and f: "fresh_step v s n t y"
    and A: "t \<in> A" "60 \<le> n \<longrightarrow> (n - 60) mod 128 = 0 \<longrightarrow> y \<in> A"
  shows "sectors v' s (Suc n * 512) \<subseteq> sectors v s (n * 512) \<union> A"
proof
  fix x assume "x \<in> sectors v' s (Suc n * 512)"
  then consider "x = s" | m where "m < n" "x = block_index v' s m \<or> x \<in> path v' s m" | "x = block_index v' s n" | "x \<in> path v' s n"
    unfolding sectors_blocks by (auto simp: less_Suc_eq)
  then show "x \<in> sectors v s (n * 512) \<union> A"
  proof cases
    case 2
    then show ?thesis using tree_step_index(1,2) [OF st n] by (auto simp: sectors_blocks)
  next
    case 4
    then show ?thesis using path_step(1) [OF st n f] A(2) by (auto split: if_splits)
  qed (use tree_step_index(3) [OF st n] A(1) in \<open>auto simp: sectors_blocks\<close>)
qed

lemma grew_growing:
  assumes g: "growing st c s n" and gr: "grew st st' s n" and n: "n < SINGLE_LIMIT"
  shows "growing st' c s (Suc n)" "extended st st' s n (Suc n)"
proof -
  let ?v = "cview (cache st)"
  note d = growingD [OF g]
  obtain A v' t y where a: "took A st st'" "card A \<le> 2" "t \<in> A" "60 \<le> n \<longrightarrow> (n - 60) mod 128 = 0 \<longrightarrow> y \<in> A"
     "moved (own st \<union> sectors ?v s (n * 512) \<union> A) (cache st) (cache st') v' (locks (cache st))"
     "tree_step ?v v' s n t y" "fresh_step ?v s n t y"
     "\<forall>k. 100 \<le> k \<longrightarrow> k < 128 \<longrightarrow> get_word (v' s) k = get_word (?v s) k"
     "\<forall>x. x \<notin> own st \<union> sectors ?v s (n * 512) \<union> A \<longrightarrow> v' x = ?v x"
    using gr unfolding grew_def by (elim exE conjE)
  note m = movedD [OF a(5)]
  have sec: "sectors v' s (Suc n * 512) \<subseteq> sectors ?v s (n * 512) \<union> A" by (rule grew_sectors [OF a(6) n a(7,3,4)])
  have tk: "A \<subseteq> room st" "room st' = room st - A" "own st' = own st" "ready st'" "cold st'" using a(1) by (simp_all add: took_def)
  have "holds (cache st') c s" by (rule m(5) [OF d(3)]) (simp add: d(4) WRITE_def FREE_def)
  moreover have "growable v' s (Suc n)" by (rule growable_step [OF a(6) n a(7) d(6)])
  moreover have "x \<noteq> 0 \<and> x < blk_size (fs_device (cache st)) \<and> locks (cache st) x = FREE \<and> x \<notin> own st \<and> x \<notin> room st - A"
    if x: "x \<in> sectors v' s (Suc n * 512) - {s}" for x
  proof (cases "x \<in> A")
    case True
    then have "x \<in> room st" using tk(1) by blast
    then show ?thesis using room_ok [OF d(1)] room_free [OF d(2)] True by simp
  next
    case False
    then have "x \<in> sectors ?v s (n * 512)" "x \<noteq> s" using sec x by auto
    then show ?thesis using d(10,11) by simp
  qed
  ultimately show "growing st' c s (Suc n)" using tk d(4,5) m by (simp add: growing_def)
  show "extended st st' s n (Suc n)"
    unfolding extended_def using a(1,2,5,8,9) sec bytes_step [OF a(6) n] by (intro exI [of _ A] exI [of _ v'] conjI) simp_all
qed

lemma extend_loop_ok:
  assumes "growing st c s n" "n + num \<le> SINGLE_LIMIT" "2 * num \<le> card (room st)"
  shows "\<exists>st'. extend_loop alloc num c (of_nat n - 1) st = Inr (st', True) \<and> extended st st' s n (n + num) \<and> growing st' c s (n + num)"
  using assms
proof (induction num arbitrary: st n)
  case 0
  then show ?case using extended_refl growingD(1,2) [OF 0(1)] by simp
next
  case (Suc num)
  have n: "n < SINGLE_LIMIT" "2 \<le> card (room st)" using Suc.prems(2,3) by simp_all
  obtain st1 where g: "grow_block alloc c (of_nat n) st = Inr (st1, True)" "grew st st1 s n"
    by (rule grow_block_ok [OF Suc.prems(1) n])
  note gg = grew_growing [OF Suc.prems(1) g(2) n(1)]
  obtain A where A: "took A st st1" "card A \<le> 2" using g(2) unfolding grew_def by blast
  have "2 * num \<le> card (room st1)"
  proof -
    have "card (room st) - card A \<le> card (room st - A)" using finite_subset by (intro diff_card_le_card_Diff) simp
    moreover have "room st1 = room st - A" using A(1) by (simp add: took_def)
    ultimately show ?thesis using A(2) Suc.prems(3) by simp
  qed
  moreover have "Suc n + num \<le> SINGLE_LIMIT" using Suc.prems(2) by simp
  ultimately obtain st2 where st2: "extend_loop alloc num c (of_nat (Suc n) - 1) st1 = Inr (st2, True)"
      "extended st1 st2 s (Suc n) (Suc n + num)" "growing st2 c s (Suc n + num)"
    using Suc.IH [OF gg(1)] by blast
  have "extended st st2 s n (n + Suc num)" using extended_trans [OF gg(2) st2(2)] by simp
  moreover have "extend_loop alloc (Suc num) c (of_nat n - 1) st = Inr (st2, True)" using g(1) st2(1) by simp
  ultimately show ?case using st2(3) by auto
qed

definition nblocks :: "(u32 \<Rightarrow> u8 list) \<Rightarrow> u32 \<Rightarrow> nat" where
  "nblocks v s = (flen v s + 511) div 512"

text \<open>A file that is at rest and may grow.\<close>

definition file_at :: "fsys \<Rightarrow> u32 \<Rightarrow> bool" where
  "file_at st s \<longleftrightarrow> ready st \<and> cold st \<and> card (held (locks (cache st))) \<le> 58 \<and>
     usable (cache st) s (flen (cview (cache st)) s) \<and> 0 \<le> disk_length (cview (cache st) s) \<and>
     growable (cview (cache st)) s (nblocks (cview (cache st)) s) \<and>
     sectors (cview (cache st)) s (flen (cview (cache st)) s) \<inter> (own st \<union> room st) = {}"

lemma file_atD:
  assumes "file_at st s"
  shows "ready st" "cold st" "card (held (locks (cache st))) \<le> 58" "usable (cache st) s (flen (cview (cache st)) s)"
    "0 \<le> disk_length (cview (cache st) s)" "growable (cview (cache st)) s (nblocks (cview (cache st)) s)"
    "x \<in> sectors (cview (cache st)) s (nblocks (cview (cache st)) s * 512) \<Longrightarrow>
       x \<notin> own st \<and> x \<notin> room st \<and> x \<noteq> 0 \<and> x < blk_size (fs_device (cache st)) \<and> locks (cache st) x = FREE"
    "sectors (cview (cache st)) s (nblocks (cview (cache st)) s * 512) = sectors (cview (cache st)) s (flen (cview (cache st)) s)"
proof -
  show s: "sectors (cview (cache st)) s (nblocks (cview (cache st)) s * 512) = sectors (cview (cache st)) s (flen (cview (cache st)) s)"
    unfolding nblocks_def round_up_nat(1) [symmetric] by (rule round_same)
  show u: "usable (cache st) s (flen (cview (cache st)) s)" using assms by (simp add: file_at_def)
  show "x \<notin> own st \<and> x \<notin> room st \<and> x \<noteq> 0 \<and> x < blk_size (fs_device (cache st)) \<and> locks (cache st) x = FREE"
    if "x \<in> sectors (cview (cache st)) s (nblocks (cview (cache st)) s * 512)" for x
    using that assms usableD(5,7,8) [OF u] unfolding s file_at_def by blast
qed (use assms in \<open>simp_all add: file_at_def\<close>)

text \<open>\<open>inode_extend\<close> adds \<open>num\<close> blocks of zeros behind the last block.\<close>

lemma inode_extend_ok:
  assumes f: "file_at st s" and s: "i_sector inode = s" and num: "nblocks (cview (cache st)) s + num \<le> SINGLE_LIMIT" "2 * num \<le> card (room st)"
  obtains st' where "inode_extend alloc inode (of_nat num) st = Inr (st', True)"
    "extended st st' s (nblocks (cview (cache st)) s) (nblocks (cview (cache st)) s + num)"
    "growable (cview (cache st')) s (nblocks (cview (cache st)) s + num)"
proof -
  let ?c = "cache st" and ?v = "cview (cache st)"
  let ?n = "nblocks ?v s"
  note d = file_atD [OF f]
  note u = usableD [OF d(4)]
  have ss: "s \<in> sectors ?v s (?n * 512)" by (simp add: sectors_def)
  note sf = d(7) [OF ss]
  let ?T = "own st \<union> sectors ?v s (?n * 512)"
  obtain c1 i where w: "cache_write_block s ?c = Inr (c1, i)" "bdata i c1 = ?v s" "holds c1 i s"
      "moved {s} ?c c1 ?v ((locks ?c)(s := WRITE))" "card (held (locks c1)) \<le> Suc (card (held (locks ?c)))"
    by (rule write_block [OF u(1), where s = s and T = "{s}"]) (use sf d(3) in \<open>simp_all add: CACHE_BLOCKS_def\<close>)
  note m1 = movedD [OF w(4)]
  let ?st1 = "st\<lparr>cache := c1\<rparr>"
  have t1: "took {} st ?st1"
    by (rule took_cache [OF d(1,2) w(4)]) (use sf own_free [OF d(1)] w(5) d(3) m1(3) in auto)
  then have o1: "own ?st1 = own st" "room ?st1 = room st" "ready ?st1" "cold ?st1" by (simp_all add: took_def)
  have "growing ?st1 i s ?n"
    unfolding growing_def using o1 w(3,5) m1 d(3,6,7) by simp
  from extend_loop_ok [OF this num(1)] num(2) o1(2) obtain st2 where
    e: "extend_loop alloc num i (of_nat ?n - 1) ?st1 = Inr (st2, True)" "extended ?st1 st2 s ?n (?n + num)" "growing st2 i s (?n + num)"
    by (metis (no_types))
  obtain A v2 where a: "took A ?st1 st2" "card A \<le> 2 * (?n + num - ?n)"
     "moved (own ?st1 \<union> sectors (cview (cache ?st1)) s (?n * 512) \<union> A) (cache ?st1) (cache st2) v2 (locks (cache ?st1))"
     "sectors v2 s ((?n + num) * 512) \<subseteq> sectors (cview (cache ?st1)) s (?n * 512) \<union> A"
     "bytes v2 s ((?n + num) * 512) = bytes (cview (cache ?st1)) s (?n * 512) @ concat (replicate (?n + num - ?n) zeros)"
     "\<forall>k. 100 \<le> k \<longrightarrow> k < 128 \<longrightarrow> get_word (v2 s) k = get_word (cview (cache ?st1) s) k"
     "\<forall>x. x \<notin> own ?st1 \<union> sectors (cview (cache ?st1)) s (?n * 512) \<union> A \<longrightarrow> v2 x = cview (cache ?st1) x"
    using e(2) unfolding extended_def by (elim exE conjE)
  have c1: "cview (cache ?st1) = ?v" using m1(2) by simp
  have m2: "moved (?T \<union> A) c1 (cache st2) v2 (locks c1)" using a(3) o1(1) m1(2) by simp
  let ?c3 = "cache_write_end i (cache st2)"
  have m3: "moved (?T \<union> A) ?c ?c3 v2 (locks ?c)"
    by (rule write_end [OF moved_mono [OF w(4)] _ w(3) m2]) (use ss sf in auto)
  note g2 = growingD [OF e(3)]
  have e3: "moved {} (cache st2) ?c3 v2 (locks ?c)"
    using quiet_same [OF cache_write_end_ok [OF g2(9,3,4)], of "{}"] movedD [OF m2] m1(3) sf by (simp add: fun_upd_idem)
  have "took {} st2 (st2\<lparr>cache := ?c3\<rparr>)"
    by (rule took_cache [OF g2(1,2) e3]) (use movedD(2) [OF m2] a(1) o1(1) own_free [OF d(1)] d(3) in \<open>auto simp: took_def\<close>)
  from took_trans [OF took_trans [OF t1 a(1)] this] have tk: "took A st (st2\<lparr>cache := ?c3\<rparr>)" by simp
  have "extended st (st2\<lparr>cache := ?c3\<rparr>) s ?n (?n + num)"
    unfolding extended_def using tk a(2) m3 a(4-7) unfolding c1 o1(1) by (intro exI [of _ A] exI [of _ v2]) simp
  moreover have "growable (cview (cache (st2\<lparr>cache := ?c3\<rparr>))) s (?n + num)"
    using g2(6) movedD(2) [OF m2] movedD(2) [OF m3] by simp
  moreover have "inode_extend alloc inode (of_nat num) st = Inr (st2\<lparr>cache := ?c3\<rparr>, True)"
  proof -
    have "word_of_int (CEIL (disk_length (?v s)) 512 - 1) = (of_nat ?n - 1 :: u32)"
      using CEIL_nat [OF d(5)] by (simp add: nblocks_def flen_def)
    moreover have "unat (of_nat num :: u32) = num" using num(1) by (simp add: SINGLE_LIMIT_def unat_of_nat)
    ultimately show ?thesis using w(1,2) u(3) e(1) by (simp add: inode_extend_def s on_cache_def)
  qed
  ultimately show ?thesis using that by blast
qed

lemma ready_step:
  assumes r: "ready st" "cold st" and m: "moved T (cache st) c v (locks (cache st))" and o: "\<And>x. x \<in> own st \<Longrightarrow> v x = cview (cache st) x"
    and T: "T \<inter> room st = {}" and f: "\<And>a. a \<in> nodes st \<Longrightarrow> f a = inodes st a"
  shows "ready (st\<lparr>inodes := f, cache := c\<rparr>)" "cold (st\<lparr>inodes := f, cache := c\<rparr>)" "room (st\<lparr>inodes := f, cache := c\<rparr>) = room st"
    "own (st\<lparr>inodes := f, cache := c\<rparr>) = own st" "nodes (st\<lparr>inodes := f, cache := c\<rparr>) = nodes st"
proof -
  have s: "ready (st\<lparr>inodes := f, cache := c\<rparr>) \<and> room (st\<lparr>inodes := f, cache := c\<rparr>) = room st \<and>
      own (st\<lparr>inodes := f, cache := c\<rparr>) = own st \<and> nodes (st\<lparr>inodes := f, cache := c\<rparr>) = nodes st"
    by (rule ready_stable [OF r(1) m]) (use o f own_free [OF r(1)] ready_inv [OF r(1)] in auto)
  then show "ready (st\<lparr>inodes := f, cache := c\<rparr>)" "room (st\<lparr>inodes := f, cache := c\<rparr>) = room st"
    "own (st\<lparr>inodes := f, cache := c\<rparr>) = own st" "nodes (st\<lparr>inodes := f, cache := c\<rparr>) = nodes st" by simp_all
  show "cold (st\<lparr>inodes := f, cache := c\<rparr>)"
    using r(2) movedD(6) [OF m] T s unfolding cold_def by auto blast
qed

lemma file_at_touch:
  assumes f: "file_at st s" and m: "moved T (cache st) c (cview (cache st)) (locks (cache st))" and T: "T \<inter> room st = {}"
    and n: "\<And>a. a \<in> nodes st \<Longrightarrow> f a = inodes st a"
  shows "file_at (st\<lparr>inodes := f, cache := c\<rparr>) s" "own (st\<lparr>inodes := f, cache := c\<rparr>) = own st"
    "room (st\<lparr>inodes := f, cache := c\<rparr>) = room st" "nodes (st\<lparr>inodes := f, cache := c\<rparr>) = nodes st"
proof -
  note r = ready_step [OF file_atD(1,2) [OF f] m refl T n]
  show "own (st\<lparr>inodes := f, cache := c\<rparr>) = own st" "room (st\<lparr>inodes := f, cache := c\<rparr>) = room st"
    "nodes (st\<lparr>inodes := f, cache := c\<rparr>) = nodes st" using r by simp_all
  show "file_at (st\<lparr>inodes := f, cache := c\<rparr>) s"
    using f r movedD(2,3) [OF m] usable_moved [OF file_atD(4) [OF f] m] by (simp add: file_at_def)
qed

text \<open>The sectors of the file after it has been extended.\<close>

lemma extended_usable:
  assumes f: "file_at st s" and e: "extended st st' s (nblocks (cview (cache st)) s) n'" and n': "n' * 512 = round_up N"
    and g: "growable (cview (cache st')) s n'"
  shows "usable (cache st') s N" "blocks_apart (cview (cache st')) s N"
    "sectors (cview (cache st')) s N \<inter> (own st' \<union> room st') = {}" "locks (cache st') = locks (cache st)"
    "N \<le> MAX_BLOCKS * 512"
proof -
  let ?v = "cview (cache st)" and ?v' = "cview (cache st')"
  let ?n = "nblocks ?v s"
  note d = file_atD [OF f]
  obtain A where a: "took A st st'" "moved (own st \<union> sectors ?v s (?n * 512) \<union> A) (cache st) (cache st') ?v' (locks (cache st))"
     "sectors ?v' s (n' * 512) \<subseteq> sectors ?v s (?n * 512) \<union> A"
     "\<forall>k. 100 \<le> k \<longrightarrow> k < 128 \<longrightarrow> get_word (?v' s) k = get_word (?v s) k"
    using e movedD(2) unfolding extended_def by metis
  note m = movedD [OF a(2)]
  show "locks (cache st') = locks (cache st)" by (rule m(3))
  have ss: "sectors ?v' s N \<subseteq> sectors ?v s (?n * 512) \<union> A" using a(3) unfolding n' round_same .
  have tk: "A \<subseteq> room st" "room st' = room st - A" "own st' = own st" using a(1) by (simp_all add: took_def)
  have ok: "x \<noteq> 0 \<and> x < blk_size (fs_device (cache st)) \<and> locks (cache st) x = FREE \<and> x \<notin> own st \<and> x \<notin> room st - A"
    if x: "x \<in> sectors ?v' s N" for x
  proof (cases "x \<in> A")
    case True
    then have "x \<in> room st" using tk(1) by blast
    then show ?thesis using room_ok [OF d(1)] room_free [OF d(2)] True by simp
  next
    case False
    then have "x \<in> sectors ?v s (?n * 512)" using ss x by auto
    then show ?thesis using d(7) by simp
  qed
  have "n' \<le> SINGLE_LIMIT" using g by (simp add: growable_def)
  then have "n' * 512 \<le> SINGLE_LIMIT * 512" by simp
  moreover have "N \<le> n' * 512" unfolding n' by (rule round_up_ge)
  ultimately show N: "N \<le> MAX_BLOCKS * 512" by (simp add: SINGLE_LIMIT_def MAX_BLOCKS_def)
  have "is_valid_inode (?v' s)" using a(4) usableD(3) [OF d(4)] by (simp add: is_valid_inode_def MAGIC_AT_def)
  then show "usable (cache st') s N" using m ok N d(3) by (simp add: usable_def file_shape_def)
  show "blocks_apart ?v' s N" using g unfolding growable_def n' round_same by simp
  show "sectors ?v' s N \<inter> (own st' \<union> room st') = {}" using ok tk by auto
qed

text \<open>The last steps of a write: the bytes and the new length.\<close>

lemma write_bytes_and_length:
  assumes u: "usable c s N" and ap: "blocks_apart (cview c) s N" and s: "i_sector inode = s"
    and off: "0 \<le> off" "0 \<le> sz" "nat off + nat sz = N" "nat sz \<le> length buf" and N: "N \<le> MAX_BLOCKS * 512"
  obtains c5 c6 v where "write_loop (Suc (nat sz)) inode buf sz off c = Inr (c5, sz)" "inode_set_length inode (sz + off) c5 = Inr (c6, ())"
    "moved (sectors (cview c) s N) c c6 v (locks c)" "flen v s = N" "disk_length (v s) = int N"
    "bytes v s (round_up N) = overwrite (bytes (cview c) s (round_up N)) (nat off) (take (nat sz) buf)"
    "\<forall>t. t \<notin> insert s (data_blocks (cview c) s N) \<longrightarrow> v t = cview c t"
    "v s = put_word (cview c s) LENGTH_AT (word_of_int (int N))"
proof -
  let ?v = "cview c" and ?T = "sectors (cview c) s N"
  note d = usableD [OF u]
  have ss: "s \<in> ?T" by (simp add: sectors_def)
  have "\<exists>st' v. write_loop (Suc (nat sz)) inode buf sz off c = Inr (st', sz) \<and> moved ?T c st' v (locks c) \<and>
      bytes v s (round_up N) = overwrite (bytes ?v s (round_up N)) (nat off) (take (nat sz) buf) \<and>
      (\<forall>t. t \<notin> data_blocks ?v s (round_up N) \<longrightarrow> v t = ?v t)"
    by (rule write_loop_ok [OF usable_round(1) [OF u round_up_ge order_refl] _ s off(1,2)]) (use ap off round_up_ge [of N] in \<open>simp_all add: round_same\<close>)
  then obtain c5 v where wl: "write_loop (Suc (nat sz)) inode buf sz off c = Inr (c5, sz)" "moved ?T c c5 v (locks c)"
      "bytes v s (round_up N) = overwrite (bytes ?v s (round_up N)) (nat off) (take (nat sz) buf)"
      "\<forall>t. t \<notin> data_blocks ?v s N \<longrightarrow> v t = ?v t"
    unfolding round_same by blast
  note m5 = movedD [OF wl(2)]
  have vs: "v s = ?v s" using wl(4) inode_not_data [OF ap] by blast
  have lv: "length (v s) = 512" using cview_length [OF d(1), of s] vs by simp
  obtain c6 where sl: "inode_set_length inode (sz + off) c5 = Inr (c6, ())"
      "moved ?T c5 c6 (v(s := put_word (v s) LENGTH_AT (word_of_int (sz + off)))) (locks c)"
    by (rule set_length_ok [of c5 inode s ?T "sz + off", unfolded m5(2,3)]) (use m5 d(2) s d(5,7,8) [OF ss] ss in simp_all)
  have w: "word_of_int (sz + off) = (word_of_int (int N) :: u32)" using off by (metis add.commute int_nat_eq of_nat_add)
  let ?v' = "v(s := put_word (v s) LENGTH_AT (word_of_int (int N)))"
  have m6: "moved ?T c c6 ?v' (locks c)" by (rule moved_trans [OF wl(2) sl(2) [unfolded w]])
  have dl: "disk_length (put_word (v s) LENGTH_AT (word_of_int (int N))) = int N"
    using N by (intro disk_length_put [OF lv]) (simp_all add: MAX_BLOCKS_def)
  note dc = data_change [where v' = v, OF ap, OF wl(4) [rule_format]]
  have "s \<notin> data_blocks v s N" using inode_not_data [OF ap] dc(5) by simp
  then have "bytes ?v' s (round_up N) = overwrite (bytes ?v s (round_up N)) (nat off) (take (nat sz) buf)"
    using bytes_put_length [where v = v and s = s and N = "round_up N", OF lv] dc(6) round_up_max [OF N] wl(3) by (simp add: round_same)
  moreover have "flen ?v' s = N" using dl by (simp add: flen_def)
  moreover have "\<forall>t. t \<notin> insert s (data_blocks ?v s N) \<longrightarrow> ?v' t = ?v t" using wl(4) by simp
  ultimately show ?thesis using that [OF wl(1) sl(1) m6] dl vs by simp
qed

text \<open>The content is what the blocks hold up to the new length.\<close>

lemma overwrite_take: "k + length d = N \<Longrightarrow> k \<le> length x \<Longrightarrow> take N (overwrite x k d) = overwrite (take N x) k d"
  by (auto simp: overwrite_def min_def)

lemma inode_write_grow:
  assumes f: "file_at st s" and a: "inodes st a = Some inode" "i_sector inode = s" "deny_write_cnt inode = 0" "\<not> extension_lock inode"
      "a \<notin> nodes st"
    and off: "0 \<le> off" "0 \<le> sz" "nat sz \<le> length buf" "nat off + nat sz = N" "flen (cview (cache st)) s \<le> N"
    and n': "n' = (N + 511) div 512" "n' \<le> SINGLE_LIMIT" "2 * (n' - nblocks (cview (cache st)) s) \<le> card (room st)"
  obtains st' A where "inode_write_at alloc a buf sz off st = Inr (st', sz)" "file_at st' s"
    "flen (cview (cache st')) s = N" "bytes (cview (cache st')) s (n' * 512) = overwrite (bytes (cview (cache st)) s
       (nblocks (cview (cache st)) s * 512) @ concat (replicate (n' - nblocks (cview (cache st)) s) zeros)) (nat off) (take (nat sz) buf)"
    "A \<subseteq> room st" "room st' = room st - A" "card A \<le> 2 * (n' - nblocks (cview (cache st)) s)" "own st' = own st" "nodes st' = nodes st"
    "\<forall>x. x \<notin> own st \<union> sectors (cview (cache st)) s (flen (cview (cache st)) s) \<union> A \<longrightarrow> cview (cache st') x = cview (cache st) x"
    "locks (cache st') = locks (cache st)" "inodes st' = inodes st" "open_inodes st' = open_inodes st" "open_files st' = open_files st"
proof -
  let ?c = "cache st" and ?v = "cview (cache st)"
  let ?n = "nblocks ?v s" and ?i = "inode\<lparr>extension_lock := True\<rparr>" and ?L = "flen ?v s"
  note d = file_atD [OF f]
  note u = usableD [OF d(4)]
  have ss: "s \<in> sectors ?v s ?L" by (simp add: sectors_def)
  have sr: "s \<notin> room st" using d(7,8) ss by blast
  have dl: "disk_length (?v s) = int ?L" using d(5) by (simp add: flen_def)
  \<comment> \<open>the three readings of the length\<close>
  have len: "\<exists>c'. inode_length inode c = Inr (c', int ?L) \<and> moved {s} ?c c' ?v (locks ?c)"
    if m: "moved {s} ?c c ?v (locks ?c)" for c
  proof -
    note u' = usableD [OF usable_moved [OF d(4) m]] and md = movedD [OF m]
    have r: "readable c s" using u'(6) [of s] md(2) ss by simp
    obtain c' where "inode_length inode c = Inr (c', int ?L)" "moved {s} c c' ?v (locks ?c)"
      using inode_length_ok [OF u'(1,2) a(2) r, of "{s}"] md(2,3) dl by auto
    then show ?thesis using moved_trans [OF m] by blast
  qed
  have m0: "moved {s} ?c ?c ?v (locks ?c)" by (rule moved_refl [OF u(1)])
  obtain c1 where l1: "inode_length inode ?c = Inr (c1, int ?L)" "moved {s} ?c c1 ?v (locks ?c)" using len [OF m0] by blast
  obtain c2 where l2: "inode_length inode c1 = Inr (c2, int ?L)" "moved {s} ?c c2 ?v (locks ?c)" using len [OF l1(2)] by blast
  obtain c3 where l3: "inode_length inode c2 = Inr (c3, int ?L)" "moved {s} ?c c3 ?v (locks ?c)" using len [OF l2(2)] by blast
  let ?st3 = "st\<lparr>inodes := (inodes st)(a \<mapsto> ?i), cache := c3\<rparr>"
  have T: "{s} \<inter> room st = {}" using sr by simp
  have f3: "file_at ?st3 s" "own ?st3 = own st" "room ?st3 = room st" "nodes ?st3 = nodes st"
    by (rule file_at_touch [OF f l3(2) T]; use a(5) in auto)+
  have v3: "cview (cache ?st3) = ?v" "locks (cache ?st3) = locks ?c" using movedD [OF l3(2)] by simp_all
  have nn: "?n \<le> n'" using off(5) unfolding n'(1) nblocks_def by (intro div_le_mono) simp
  define num where "num = n' - ?n"
  have num: "?n + num = n'" using nn by (simp add: num_def)
  obtain st4 where e: "inode_extend alloc inode (of_nat num) ?st3 = Inr (st4, True)" "extended ?st3 st4 s ?n n'"
      "growable (cview (cache st4)) s n'"
    by (rule inode_extend_ok [OF f3(1) a(2), of num, unfolded v3 num]) (use n'(2,3) f3(3) in \<open>simp_all add: num_def\<close>)
  have rn: "n' * 512 = round_up N" by (simp add: n'(1) round_up_def)
  note x = extended_usable [OF f3(1), unfolded v3, OF e(2) rn e(3)]
  obtain A where A: "took A ?st3 st4" "card A \<le> 2 * (n' - ?n)"
     "bytes (cview (cache st4)) s (n' * 512) = bytes ?v s (?n * 512) @ concat (replicate (n' - ?n) zeros)"
     "\<forall>x. x \<notin> own st \<union> sectors ?v s (?n * 512) \<union> A \<longrightarrow> cview (cache st4) x = ?v x"
     "sectors (cview (cache st4)) s (n' * 512) \<subseteq> sectors ?v s (?n * 512) \<union> A"
    using e(2) movedD(2) unfolding extended_def v3 f3(2) by metis
  have tk: "A \<subseteq> room st" "room st4 = room st - A" "own st4 = own st" "nodes st4 = nodes st" "ready st4" "cold st4"
      "inodes st4 = (inodes st)(a \<mapsto> ?i)" "open_inodes st4 = open_inodes st" "open_files st4 = open_files st"
    using A(1) f3 by (simp_all add: took_def)
  obtain c5 c6 v where w: "write_loop (Suc (nat sz)) inode buf sz off (cache st4) = Inr (c5, sz)"
      "inode_set_length inode (sz + off) c5 = Inr (c6, ())"
      "moved (sectors (cview (cache st4)) s N) (cache st4) c6 v (locks (cache st4))" "flen v s = N" "disk_length (v s) = int N"
      "bytes v s (round_up N) = overwrite (bytes (cview (cache st4)) s (round_up N)) (nat off) (take (nat sz) buf)"
      "\<forall>t. t \<notin> insert s (data_blocks (cview (cache st4)) s N) \<longrightarrow> v t = cview (cache st4) t"
      "v s = put_word (cview (cache st4) s) LENGTH_AT (word_of_int (int N))"
    by (rule write_bytes_and_length [OF x(1,2) a(2) off(1,2,4,3) x(5)])
  let ?st' = "st4\<lparr>inodes := inodes st, cache := c6\<rparr>"
  have so: "insert s (data_blocks (cview (cache st4)) s N) \<subseteq> sectors (cview (cache st4)) s N"
    by (auto simp: data_blocks_def sectors_def)
  have ov: "v y = cview (cache st4) y" if "y \<in> own st4" for y
  proof -
    have "y \<notin> sectors (cview (cache st4)) s N" using that x(3) by auto
    then show ?thesis using subsetD [OF so, of y] w(7) by blast
  qed
  have T4: "sectors (cview (cache st4)) s N \<inter> room st4 = {}" using x(3) by auto
  have nd: "inodes st b = inodes st4 b" if "b \<in> nodes st4" for b using that tk(4,7) a(5) by auto
  note rs = ready_step [where f = "inodes st", OF tk(5,6) w(3) ov T4 nd]
  have v': "cview (cache ?st') = v" "locks (cache ?st') = locks ?c" using movedD [OF w(3)] x(4) by simp_all
  have l4: "length (cview (cache st4) s) = 512" by (rule cview_length [OF usableD(1) [OF x(1)]])
  have gw: "get_word (v s) k = get_word (cview (cache st4) s) k" if "k < 101 \<or> k = MAGIC_AT" for k
    unfolding w(8) using get_put_word(1) [OF l4, of LENGTH_AT k] that by (auto simp: LENGTH_AT_def MAGIC_AT_def)
  have kp: "growable v s n'" "sectors v s (n' * 512) = sectors (cview (cache st4)) s (n' * 512)"
    by (rule index_kept [OF e(3)]; use gw w(7) in \<open>simp add: rn round_same\<close>)+
  then have sec: "sectors v s N = sectors (cview (cache st4)) s N" unfolding rn round_same by simp
  have us: "usable c6 s N"
    using x(1) movedD [OF w(3)] sec gw [of MAGIC_AT] by (simp add: usable_def file_shape_def is_valid_inode_def)
  have nb: "nblocks v s = n'" by (simp add: nblocks_def w(4) n'(1))
  have "file_at ?st' s"
    unfolding file_at_def v' w(4) nb using rs us kp(1) sec w(5) d(3) x(3) by simp
  moreover have "inode_write_at alloc a buf sz off st = Inr (?st', sz)"
  proof (rule write_at_extending [OF a(1,3,4) _ _ l1(1) l2(1) l3(1)])
    have so: "sz + off = int N" using off by linarith
    show "wrap32 (sz + off) = sz + off" unfolding so using x(5) by (intro wrap32_small) (simp_all add: MAX_BLOCKS_def)
    show "int ?L \<le> sz + off" unfolding so using off(5) by simp
    have "CEIL (sz + off) 512 - CEIL (int ?L) 512 = int num"
      using CEIL_nat [of "int N"] CEIL_nat [of "int ?L"] nn by (simp add: so n'(1) [symmetric] nblocks_def [symmetric] num_def of_nat_diff)
    then show "inode_extend alloc inode (word_of_int (CEIL (sz + off) 512 - CEIL (int ?L) 512)) ?st3 = Inr (st4, True)" using e(1) by simp
  qed (use tk(7) w(1,2) in simp_all)
  moreover have "bytes v s (n' * 512) = overwrite (bytes ?v s (?n * 512) @ concat (replicate (n' - ?n) zeros)) (nat off) (take (nat sz) buf)"
    using w(6) A(3) by (simp only: rn)
  moreover have "\<forall>x. x \<notin> own st \<union> sectors ?v s ?L \<union> A \<longrightarrow> v x = ?v x"
  proof (intro allI impI)
    fix y assume y: "y \<notin> own st \<union> sectors ?v s ?L \<union> A"
    have "y \<notin> sectors (cview (cache st4)) s N"
      using subsetD [OF A(5), of y] y unfolding rn round_same d(8) by auto
    then have "v y = cview (cache st4) y" using w(7) so by blast
    then show "v y = ?v y" using A(4) y d(8) by simp
  qed
  ultimately show ?thesis
    using that [of ?st' A] w(4) tk rs A(2) v' by simp
qed

end

end
