(* ===== verification/Free_Map_File.thy ===== *)
theory Free_Map_File
  imports File_Growth
begin

text \<open>
  The free map in its file. Allocating a sector writes the whole map into the file of sector 1, which is
  as long as the map and so is never extended: \<open>allocate_sector\<close> is a source of sectors in the sense of
  \<open>sector_source\<close>, with the sectors of this file as its own, and one level of recursion is enough.
\<close>

declare neq0_conv [iff del] bot_nat_0.not_eq_extremum [simp del]

section \<open>The state of the free map\<close>

definition map_own :: "fsys \<Rightarrow> u32 set" where
  "map_own st = sectors (cview (cache st)) FREE_MAP_SECTOR (flen (cview (cache st)) FREE_MAP_SECTOR)"

definition map_room :: "fsys \<Rightarrow> u32 set" where
  "map_room st = {t. unat t < fm_slots (fmap st) \<and> unat t \<notin> fm_used (fmap st) \<and> t < blk_size (fs_device (cache st))}"

definition map_nodes :: "fsys \<Rightarrow> addr set" where
  "map_nodes st = {a. \<exists>f x. free_map_file (fmap st) = Some f \<and> open_files st f = Some x \<and> a = f_inode x}"

definition map_open :: "fsys \<Rightarrow> bool" where
  "map_open st \<longleftrightarrow> (\<exists>f x nd. free_map_file (fmap st) = Some f \<and> open_files st f = Some x \<and> inodes st (f_inode x) = Some nd \<and>
     i_sector nd = FREE_MAP_SECTOR \<and> deny_write_cnt nd = 0 \<and> \<not> extension_lock nd)"

definition map_ready :: "fsys \<Rightarrow> bool" where
  "map_ready st \<longleftrightarrow> fm_inv (fmap st) \<and> map_open st \<and>
     usable (cache st) FREE_MAP_SECTOR (flen (cview (cache st)) FREE_MAP_SECTOR) \<and>
     blocks_apart (cview (cache st)) FREE_MAP_SECTOR (flen (cview (cache st)) FREE_MAP_SECTOR) \<and>
     0 \<le> disk_length (cview (cache st) FREE_MAP_SECTOR) \<and>
     flen (cview (cache st)) FREE_MAP_SECTOR = unat (byte_cnt (bit_cnt (free_map (fmap st)))) \<and>
     0 \<in> fm_used (fmap st) \<and> unat ` map_own st \<subseteq> fm_used (fmap st)"

lemma unat_byte_cnt: "wf_bitmap b \<Longrightarrow> unat (byte_cnt (bit_cnt b)) \<le> length (bitmap_bytes b)"
proof -
  assume wf: "wf_bitmap b"
  let ?n = "unat (bit_cnt b)"
  have "bit_cnt b + 32 - 1 = bit_cnt b + 31" by simp
  moreover have "unat (bit_cnt b + 31) = (?n + 31) mod 2 ^ 32" by (simp add: unat_word_ariths)
  moreover have "(?n + 31) mod 2 ^ 32 \<le> ?n + 31" by (rule mod_less_eq_dividend)
  ultimately have "unat (bit_cnt b + 32 - 1) \<le> ?n + 31" by argo
  then have "unat (elem_cnt (bit_cnt b)) \<le> (?n + 31) div 32" by (simp add: elem_cnt_def unat_div div_le_mono)
  also have "\<dots> \<le> length (bits b)"
  proof -
    have "?n + 31 < Suc (length (bits b)) * 32" using wf by (simp add: wf_bitmap_def)
    then have "(?n + 31) div 32 < Suc (length (bits b))" by (rule less_mult_imp_div_less)
    then show ?thesis by simp
  qed
  finally have e: "unat (elem_cnt (bit_cnt b)) \<le> length (bits b)" .
  have "unat (byte_cnt (bit_cnt b)) \<le> 4 * unat (elem_cnt (bit_cnt b))"
    unfolding byte_cnt_def by (simp add: unat_word_ariths mod_less_eq_dividend)
  moreover have "length (bitmap_bytes b) = 4 * length (bits b)" by (simp add: bitmap_bytes_def length_concat o_def sum_list_triv)
  ultimately show ?thesis using e by simp
qed

section \<open>Writing the map\<close>

lemma map_readyD:
  assumes "map_ready st"
  shows "fm_inv (fmap st)" "map_open st" "usable (cache st) FREE_MAP_SECTOR (flen (cview (cache st)) FREE_MAP_SECTOR)"
    "blocks_apart (cview (cache st)) FREE_MAP_SECTOR (flen (cview (cache st)) FREE_MAP_SECTOR)"
    "0 \<le> disk_length (cview (cache st) FREE_MAP_SECTOR)"
    "flen (cview (cache st)) FREE_MAP_SECTOR = unat (byte_cnt (bit_cnt (free_map (fmap st))))"
    "0 \<in> fm_used (fmap st)" "t \<in> map_own st \<Longrightarrow> unat t \<in> fm_used (fmap st)"
  using assms by (auto simp: map_ready_def)

text \<open>Everything but the bits themselves.\<close>

lemma map_write:
  assumes r: "map_ready st" and fm: "fmap st' = (fmap st)\<lparr>free_map := b\<rparr>" "wf_bitmap b" "bit_cnt b = bit_cnt (free_map (fmap st))"
    and st': "cache st' = cache st" "inodes st' = inodes st" "open_files st' = open_files st"
    and f: "free_map_file (fmap st) = Some f"
  obtains c v where "bitmap_write alloc b f st' = Inr (st'\<lparr>cache := c\<rparr>, True)" "moved (map_own st) (cache st) c v (locks (cache st))"
    "\<forall>x. x \<notin> map_own st \<longrightarrow> v x = cview (cache st) x" "usable c FREE_MAP_SECTOR (flen (cview (cache st)) FREE_MAP_SECTOR)"
    "blocks_apart v FREE_MAP_SECTOR (flen (cview (cache st)) FREE_MAP_SECTOR)" "v FREE_MAP_SECTOR = cview (cache st) FREE_MAP_SECTOR"
    "sectors v FREE_MAP_SECTOR (flen (cview (cache st)) FREE_MAP_SECTOR) = map_own st"
proof -
  let ?v = "cview (cache st)" and ?s = FREE_MAP_SECTOR
  let ?N = "flen ?v ?s"
  note d = map_readyD [OF r]
  note u = usableD [OF d(3)]
  obtain x nd where x: "open_files st f = Some x" "inodes st (f_inode x) = Some nd" "i_sector nd = ?s" "deny_write_cnt nd = 0"
      "\<not> extension_lock nd" using d(2) f by (auto simp: map_open_def)
  have N: "?N = unat (byte_cnt (bit_cnt b))" using d(6) fm(3) by simp
  have lN: "?N \<le> length (bitmap_bytes b)" unfolding N by (rule unat_byte_cnt [OF fm(2)])
  have sz: "sint (byte_cnt (bit_cnt b)) = int ?N"
    using u(4) unfolding N by (intro sint_eq_unat) (simp add: MAX_BLOCKS_def)
  obtain c v where w: "inode_write_at alloc (f_inode x) (bitmap_bytes b) (int ?N) 0 st' = Inr (st'\<lparr>cache := c\<rparr>, int ?N)"
      "moved (map_own st) (cache st) c v (locks (cache st))" "flen v ?s = ?N"
      "v ?s = put_word (?v ?s) LENGTH_AT (word_of_int (int ?N))"
      "\<forall>t. t \<notin> insert ?s (data_blocks ?v ?s ?N) \<longrightarrow> v t = ?v t"
    by (rule inode_write_within [where st = st' and s = ?s and a = "f_inode x" and N = ?N and T = "map_own st" and buf = "bitmap_bytes b"
        and alloc = alloc and off = 0 and sz = "int ?N", unfolded st'])
      (use d(3-5) x lN round_up_blocks in \<open>simp_all add: map_own_def round_up_def\<close>)
  have dl: "disk_length (?v ?s) = int ?N" using d(5) by (simp add: flen_def)
  have vs: "v ?s = ?v ?s" using w(4) put_disk_length [OF cview_length [OF u(1), of ?s]] by (simp only: dl)
  have ch: "\<forall>t. t \<notin> data_blocks ?v ?s ?N \<longrightarrow> v t = ?v t" using w(5) vs by (metis insertE)
  note uc = usable_change [OF d(3,4) w(2) ch]
  have cv: "cview c = v" using movedD(2) [OF w(2)] .
  have so: "data_blocks ?v ?s ?N \<subseteq> map_own st" by (auto simp: data_blocks_def map_own_def sectors_def)
  have "bitmap_write alloc b f st' = Inr (st'\<lparr>cache := c\<rparr>, True)"
    using w(1) x(1) sz by (simp add: bitmap_write_def file_write_at_def fil_def st')
  moreover have "\<forall>x. x \<notin> map_own st \<longrightarrow> v x = ?v x" using ch so by blast
  moreover have "sectors v ?s ?N = map_own st" using uc(3) by (simp add: cv map_own_def)
  ultimately show ?thesis using that [of c v] w(2) uc(1,2) vs cv by simp
qed

lemma scan_of_allocate:
  assumes "free_map_allocate True fm = Inr (fm\<lparr>free_map := b\<rparr>, Some t)"
  shows "bitmap_scan_and_flip (free_map fm) 0 1 False = Inr (b, t)" "t \<noteq> BITMAP_ERROR"
proof -
  obtain b' t' where s: "bitmap_scan_and_flip (free_map fm) 0 1 False = Inr (b', t')"
    using assms by (cases "bitmap_scan_and_flip (free_map fm) 0 1 False") (auto simp: free_map_allocate_def)
  have "fm\<lparr>free_map := b'\<rparr> = fm\<lparr>free_map := b\<rparr>" "t' = t" "t' \<noteq> BITMAP_ERROR"
    using assms by (auto simp: free_map_allocate_def s split: if_splits)
  moreover from this(1) have "b' = b" by (metis free_map_state.select_convs(1) free_map_state.surjective free_map_state.update_convs(1))
  ultimately show "bitmap_scan_and_flip (free_map fm) 0 1 False = Inr (b, t)" "t \<noteq> BITMAP_ERROR" using s by simp_all
qed

lemma map_stable:
  assumes r: "map_ready st" and m: "moved T (cache st) c v L" and o: "\<forall>x\<in>map_own st. v x = cview (cache st) x \<and> L x = FREE"
    and card: "card (held L) \<le> 60" and f: "\<forall>a\<in>map_nodes st. f a = inodes st a"
  shows "map_ready (st\<lparr>inodes := f, cache := c\<rparr>) \<and> map_room (st\<lparr>inodes := f, cache := c\<rparr>) = map_room st \<and>
    map_own (st\<lparr>inodes := f, cache := c\<rparr>) = map_own st \<and> map_nodes (st\<lparr>inodes := f, cache := c\<rparr>) = map_nodes st"
proof -
  let ?v = "cview (cache st)" and ?s = FREE_MAP_SECTOR and ?st = "st\<lparr>inodes := f, cache := c\<rparr>"
  let ?N = "flen ?v ?s"
  note d = map_readyD [OF r] and md = movedD [OF m]
  have vs: "v ?s = ?v ?s" using o by (simp add: map_own_def sectors_def)
  have i: "block_index v ?s n = block_index ?v ?s n" "path v ?s n = path ?v ?s n"
      "60 \<le> n \<Longrightarrow> indirect v ?s ((n - 60) div 128) = indirect ?v ?s ((n - 60) div 128)" if n: "n * 512 < ?N" for n
  proof -
    have "t \<in> path ?v ?s n \<Longrightarrow> v t = ?v t" for t using o n by (auto simp: map_own_def sectors_def)
    from index_cong [of ?v ?s n v, OF this] show "block_index v ?s n = block_index ?v ?s n" "path v ?s n = path ?v ?s n"
      "60 \<le> n \<Longrightarrow> indirect v ?s ((n - 60) div 128) = indirect ?v ?s ((n - 60) div 128)" by simp_all
  qed
  have fl: "flen v ?s = ?N" by (simp add: flen_def vs)
  have sec: "sectors v ?s ?N = sectors ?v ?s ?N" unfolding sectors_def using i by (intro arg_cong [where f = "insert ?s"] SUP_cong) auto
  have own: "map_own ?st = map_own st" using md(2) fl sec by (simp add: map_own_def)
  have "blocks_apart v ?s ?N" using d(4) i vs by (simp add: blocks_apart_def)
  moreover have "usable c ?s ?N"
    using d(3) md o card sec vs by (simp add: usable_def file_shape_def map_own_def)
  moreover have "map_open ?st" using d(2) f by (auto simp: map_open_def map_nodes_def)
  ultimately have "map_ready ?st" using d md(2) fl vs own by (auto simp: map_ready_def)
  then show ?thesis using own md(4) by (simp add: map_room_def map_nodes_def)
qed

lemma allocate_sector_ok:
  assumes r: "map_ready st" and ne: "map_room st \<noteq> {}"
  shows "\<exists>st' t v. allocate_sector (Suc n) st = Inr (st', Some t) \<and> t \<in> map_room st \<and>
      map_room st' = map_room st - {t} \<and> map_own st' = map_own st \<and> map_nodes st' = map_nodes st \<and> map_ready st' \<and>
      moved (map_own st) (cache st) (cache st') v (locks (cache st)) \<and> (\<forall>x. x \<notin> map_own st \<longrightarrow> v x = cview (cache st) x) \<and>
      inodes st' = inodes st \<and> open_inodes st' = open_inodes st \<and> open_files st' = open_files st"
proof -
  let ?fm = "fmap st" and ?s = FREE_MAP_SECTOR
  note d = map_readyD [OF r]
  obtain t0 where t0: "unat t0 < fm_slots ?fm" "unat t0 \<notin> fm_used ?fm" "t0 < blk_size (fs_device (cache st))"
    using ne by (auto simp: map_room_def)
  then have "fm_used ?fm \<noteq> {..<fm_slots ?fm}" by blast
  from free_map_allocate_first [OF d(1) this] obtain i b where
    i: "i < fm_slots ?fm" "i \<notin> fm_used ?fm" "{..<i} \<subseteq> fm_used ?fm" "unat (of_nat i :: u32) = i"
     "free_map_allocate True ?fm = Inr (?fm\<lparr>free_map := b\<rparr>, Some (of_nat i))" "wf_bitmap b"
     "bit_cnt b = bit_cnt (free_map ?fm)" "abs_bits b = (abs_bits (free_map ?fm))[i := True]" by blast
  let ?t = "of_nat i :: u32" and ?st1 = "st\<lparr>fmap := ?fm\<lparr>free_map := b\<rparr>\<rparr>"
  note sc = scan_of_allocate [OF i(5)]
  have "i \<le> unat t0" using i(3) t0(2) by (metis lessThan_iff not_le subsetD)
  then have room: "?t \<in> map_room st" using i(1,2,4) t0(3) by (simp add: map_room_def word_less_nat_alt)
  have used: "fm_used (?fm\<lparr>free_map := b\<rparr>) = insert i (fm_used ?fm)" "fm_slots (?fm\<lparr>free_map := b\<rparr>) = fm_slots ?fm"
    using i by (auto simp: fm_defs nth_list_update)
  obtain f where f: "free_map_file ?fm = Some f" using d(2) by (auto simp: map_open_def)
  obtain c v where w: "bitmap_write (allocate_sector n) b f ?st1 = Inr (?st1\<lparr>cache := c\<rparr>, True)"
      "moved (map_own st) (cache st) c v (locks (cache st))" "\<forall>x. x \<notin> map_own st \<longrightarrow> v x = cview (cache st) x"
      "usable c ?s (flen (cview (cache st)) ?s)" "blocks_apart v ?s (flen (cview (cache st)) ?s)" "v ?s = cview (cache st) ?s"
      "sectors v ?s (flen (cview (cache st)) ?s) = map_own st"
    by (rule map_write [OF r _ i(6,7) _ _ _ f, of ?st1 "allocate_sector n"]) simp_all
  let ?st' = "?st1\<lparr>cache := c\<rparr>"
  have run: "allocate_sector (Suc n) st = Inr (?st', Some ?t)" using sc f w(1) by simp
  have cv: "cview c = v" "blk_size (fs_device c) = blk_size (fs_device (cache st))" using movedD [OF w(2)] by simp_all
  have fl: "flen v ?s = flen (cview (cache st)) ?s" by (simp add: flen_def w(6))
  have own: "map_own ?st' = map_own st" using w(7) by (simp add: map_own_def cv fl)
  have ro: "map_room ?st' = map_room st - {?t}"
    using used cv(2) i(4) by (auto simp: map_room_def unsigned_word_eqI)
  have "map_open ?st'" using d(2) by (auto simp: map_open_def)
  moreover have "fm_inv (?fm\<lparr>free_map := b\<rparr>)" using d(1) i(6) by (simp add: fm_inv_def)
  moreover have "0 \<in> fm_used (?fm\<lparr>free_map := b\<rparr>)" "unat ` map_own st \<subseteq> fm_used (?fm\<lparr>free_map := b\<rparr>)"
    using d(7,8) used(1) by auto
  ultimately have "map_ready ?st'" using d(5,6) w(4,5,6) own cv fl i(7) by (simp add: map_ready_def)
  then show ?thesis
    using run room ro own w(2,3) by (intro exI [of _ ?st'] exI [of _ ?t] exI [of _ v]) (simp add: map_nodes_def)
qed

interpretation disk: sector_source "allocate_sector (Suc n)" map_room map_own map_nodes map_ready for n
proof
  fix st t assume r: "map_ready st" and t: "t \<in> map_room st"
  note d = map_readyD [OF r]
  have "t \<noteq> 0" using d(7) t by (auto simp: map_room_def)
  moreover have "t \<notin> map_own st" using d(8) t by (auto simp: map_room_def)
  ultimately show "t \<noteq> 0 \<and> t < blk_size (fs_device (cache st)) \<and> t \<notin> map_own st" using t by (simp add: map_room_def)
next
  fix st assume r: "map_ready st"
  show "cache_inv (cache st) \<and> card (held (locks (cache st))) \<le> 60" using usableD(1,2) [OF map_readyD(3) [OF r]] by simp
next
  fix st x assume r: "map_ready st" "x \<in> map_own st"
  then show "locks (cache st) x = FREE" using usableD(5) [OF map_readyD(3) [OF r(1)]] by (simp add: map_own_def)
qed (rule allocate_sector_ok, assumption+, rule map_stable)


end
