(* ===== verification/File_Properties.thy ===== *)
theory File_Properties
  imports Free_Map_File
begin

text \<open>
  The properties of inodes and files: a file is an array of bytes that grows when it is written behind
  its end.
\<close>

declare neq0_conv [iff del] bot_nat_0.not_eq_extremum [simp del]

section \<open>Files at rest\<close>

text \<open>
  New blocks are cleared on the device and not in the cache, so they read as zeros only if the cache has no
  copy of them from an earlier use. \<open>free_uncached\<close> says that it holds no free sector at all: true after
  \<open>cache_init\<close> and kept by the reads and writes below, but not by removing a file whose sectors are cached or by
  reading ahead into a free sector.
\<close>

definition free_uncached :: "fsys \<Rightarrow> bool" where
  "free_uncached st \<longleftrightarrow> (\<forall>t\<in>map_room st. \<forall>i. \<not> holds (cache st) i t)"

text \<open>A file at rest: nobody uses it, its sectors are its own, and the free map has room to let it grow.\<close>

definition file_at_rest :: "fsys \<Rightarrow> u32 \<Rightarrow> bool" where
  "file_at_rest st s \<longleftrightarrow> map_ready st \<and> free_uncached st \<and>
     card (held (locks (cache st))) \<le> 58 \<and> usable (cache st) s (flen (cview (cache st)) s) \<and>
     0 \<le> disk_length (cview (cache st) s) \<and> growable (cview (cache st)) s ((flen (cview (cache st)) s + 511) div 512) \<and>
     sectors (cview (cache st)) s (flen (cview (cache st)) s) \<inter> (map_own st \<union> map_room st) = {}"

text \<open>The rest of the last block of a file, behind the end of the file, holds zeros.\<close>

definition zero_tail :: "(u32 \<Rightarrow> u8 list) \<Rightarrow> u32 \<Rightarrow> bool" where
  "zero_tail v s \<longleftrightarrow> bytes v s (round_up (flen v s)) = content v s @ replicate (round_up (flen v s) - flen v s) 0"

lemma file_at_rest_iff: "file_at_rest st s = disk.file_at st s"
  by (simp add: file_at_rest_def free_uncached_def disk.file_at_def disk.cold_def disk.nblocks_def)

lemma content_cong:
  assumes "\<And>t. t \<in> sectors v s (flen v s) \<Longrightarrow> v' t = v t"
  shows "content v' s = content v s" "flen v' s = flen v s"
proof -
  have s: "v' s = v s" by (rule assms) (simp add: sectors_def)
  then show f: "flen v' s = flen v s" by (simp add: flen_def)
  have "v' (block_index v' s (i div 512)) = v (block_index v s (i div 512))" if i: "i < flen v s" for i
  proof -
    have "t \<in> path v s (i div 512) \<Longrightarrow> v' t = v t" for t using assms sectors_block(3) [OF i] by blast
    then have "block_index v' s (i div 512) = block_index v s (i div 512)" by (rule index_cong(1))
    moreover have "v' (block_index v s (i div 512)) = v (block_index v s (i div 512))" by (rule assms) (rule sectors_block(2) [OF i])
    ultimately show ?thesis by simp
  qed
  then show "content v' s = content v s" by (simp add: content_def f bytes_def)
qed

section \<open>Properties\<close>

text \<open>A disk with the free map in sectors 1 and 3, and a file of \<open>len\<close> bytes in sectors 4 and 5, the first of them \<open>bs\<close>.\<close>

definition sample_inode :: "nat \<Rightarrow> u32 \<Rightarrow> u8 list" where
  "sample_inode len b = put_word (put_word (put_word zeros 0 b) LENGTH_AT (of_nat len)) MAGIC_AT INODE_MAGIC"

definition sample_disk :: "nat \<Rightarrow> u8 list \<Rightarrow> medium block" where
  "sample_disk len bs = \<lparr>blk_type = BLOCK_FILESYS, blk_size = 32, blk_ops = medium_operations,
     blk_aux = (\<lambda>_. zeros)(1 := sample_inode 4 3, 4 := sample_inode len 5, 5 := overwrite zeros 0 bs),
     read_cnt = 0, write_cnt = 0\<rparr>"

definition sample_fs :: "nat \<Rightarrow> u8 list \<Rightarrow> fsys" where
  "sample_fs len bs = \<lparr>cache = cache_init (sample_disk len bs), fmap = \<lparr>free_map = \<lparr>bit_cnt = 32, bits = [63]\<rparr>, free_map_file = Some 1\<rparr>,
     inodes = [10 \<mapsto> \<lparr>i_sector = 1, open_cnt = 1, removed = False, deny_write_cnt = 0, extension_lock = False\<rparr>,
       20 \<mapsto> \<lparr>i_sector = 4, open_cnt = 1, removed = False, deny_write_cnt = 0, extension_lock = False\<rparr>],
     open_inodes = [20, 10], open_files = [1 \<mapsto> \<lparr>f_inode = 10, f_pos = 0, f_deny_write = False, f_is_dir = False\<rparr>]\<rparr>"

lemma sample_inode_words:
  shows "length (sample_inode len b) = 512" "get_word (sample_inode len b) 0 = b"
    "0 < k \<Longrightarrow> k < 101 \<Longrightarrow> get_word (sample_inode len b) k = 0"
    "get_word (sample_inode len b) LENGTH_AT = of_nat len" "is_valid_inode (sample_inode len b)"
proof -
  let ?a = "put_word zeros 0 b" and ?c = "put_word (put_word zeros 0 b) LENGTH_AT (of_nat len)"
  have a: "length ?a = 512" "k < 128 \<Longrightarrow> get_word ?a k = (if k = 0 then b else 0)" for k
    using get_put_word [of zeros 0 k b] get_put_word(2) [of zeros 0 0 b] get_word_zeros [of k] by simp_all
  have c: "length ?c = 512" "k < 128 \<Longrightarrow> get_word ?c k = (if k = LENGTH_AT then of_nat len else get_word ?a k)" for k
    using get_put_word [OF a(1), of LENGTH_AT k "of_nat len"] get_put_word(2) [OF a(1), of LENGTH_AT 0] by (simp_all add: LENGTH_AT_def)
  have m: "k < 128 \<Longrightarrow> get_word (sample_inode len b) k = (if k = MAGIC_AT then INODE_MAGIC else get_word ?c k)" for k
    unfolding sample_inode_def using get_put_word(1) [OF c(1), of MAGIC_AT k] by (simp add: MAGIC_AT_def)
  show "length (sample_inode len b) = 512" unfolding sample_inode_def using get_put_word(2) [OF c(1), of MAGIC_AT 0] by (simp add: MAGIC_AT_def)
  show "get_word (sample_inode len b) 0 = b" using m a c by (simp add: MAGIC_AT_def LENGTH_AT_def)
  show "0 < k \<Longrightarrow> k < 101 \<Longrightarrow> get_word (sample_inode len b) k = 0" using m [of k] a(2) [of k] c(2) [of k] by (simp add: MAGIC_AT_def LENGTH_AT_def)
  show "get_word (sample_inode len b) LENGTH_AT = of_nat len" using m [of LENGTH_AT] c by (simp add: MAGIC_AT_def LENGTH_AT_def)
  show "is_valid_inode (sample_inode len b)" using m [of MAGIC_AT] by (simp add: is_valid_inode_def MAGIC_AT_def)
qed

text \<open>A file of at most one block on a disk.\<close>

lemma one_block_file:
  assumes v: "v s = sample_inode len b" and len: "0 < len" "len \<le> 512" and s: "s \<noteq> b" and lb: "len \<le> length (v b)"
  shows "flen v s = len" "disk_length (v s) = int len" "sectors v s len = {s, b}" "blocks_apart v s len" "growable v s 1"
    "is_valid_inode (v s)" "bytes v s len = take len (v b)" 
proof -
  have u: "unat (of_nat len :: u32) = len" using len(2) by (simp add: unat_of_nat)
  show d: "disk_length (v s) = int len" using len(2) sint_eq_unat [of "of_nat len"] by (simp add: v disk_length_def sample_inode_words u)
  then show "flen v s = len" by (simp add: flen_def)
  have b0: "block_index v s 0 = b" "path v s 0 = {s}" by (simp_all add: block_index_def path_def v sample_inode_words)
  have n: "n * 512 < len \<longleftrightarrow> n = 0" for n using len by auto
  show "sectors v s len = {s, b}" by (simp add: sectors_def n b0) blast
  show ap: "blocks_apart v s len" using s by (simp add: blocks_apart_def n b0)
  show "is_valid_inode (v s)" by (simp add: v sample_inode_words)
  have "blocks_apart v s (1 * 512)" using s by (auto simp: blocks_apart_def b0)
  then show "growable v s 1"
    by (simp add: growable_def SINGLE_LIMIT_def v sample_inode_words SINGLE_AT_def)
  show "bytes v s len = take len (v b)"
  proof (rule nth_equalityI)
    fix i assume "i < length (bytes v s len)"
    then have "i < len" by simp
    then show "bytes v s len ! i = take len (v b) ! i" using len(2) by (simp add: bytes_def b0)
  qed (use len lb in simp)
qed

lemma bit_63: "bit (63 :: u32) i \<longleftrightarrow> i < 6"
proof -
  have "bit (mask 6 :: u32) i \<longleftrightarrow> i < 6" by (auto simp: bit_mask_iff)
  moreover have "(mask 6 :: u32) = 63" by (simp add: mask_eq_exp_minus_1)
  ultimately show ?thesis by (simp only:)
qed

lemma card_words: "card {t :: u32. 6 \<le> t \<and> t < 32} = 26"
proof -
  have "{t :: u32. 6 \<le> t \<and> t < 32} = of_nat ` {6..<32}"
    by (auto simp: word_le_nat_alt word_less_nat_alt unat_of_nat intro!: image_eqI [of _ _ "unat _"])
  moreover have "inj_on (of_nat :: nat \<Rightarrow> u32) {6..<32}"
  proof (rule inj_onI)
    fix x y :: nat assume xy: "x \<in> {6..<32}" "y \<in> {6..<32}" "(of_nat x :: u32) = of_nat y"
    have "unat (of_nat x :: u32) = x" "unat (of_nat y :: u32) = y" using xy(1,2) by (simp_all add: unat_of_nat)
    then show "x = y" using xy(3) by metis
  qed
  ultimately show ?thesis by (simp add: card_image)
qed

lemma sample_disk_ok: "length bs \<le> 512 \<Longrightarrow> device_ok (sample_disk len bs)"
  by (simp add: device_ok_def sample_disk_def BLOCK_SECTOR_SIZE_def sample_inode_words)

lemma sample_cache:
  assumes "length bs \<le> 512"
  shows "cache_inv (cache (sample_fs len bs))" "locks (cache (sample_fs len bs)) = (\<lambda>_. FREE)"
    "cview (cache (sample_fs len bs)) = blk_aux (sample_disk len bs)" "fs_device (cache (sample_fs len bs)) = sample_disk len bs"
    "blk_size (sample_disk len bs) = 32" "\<not> holds (cache (sample_fs len bs)) i t"
proof -
  note c = cache_init_inv [OF sample_disk_ok [OF assms]]
  show "cache_inv (cache (sample_fs len bs))" "locks (cache (sample_fs len bs)) = (\<lambda>_. FREE)"
    "cview (cache (sample_fs len bs)) = blk_aux (sample_disk len bs)" using c by (simp_all add: sample_fs_def)
  show "fs_device (cache (sample_fs len bs)) = sample_disk len bs" "blk_size (sample_disk len bs) = 32"
    by (simp_all add: sample_fs_def sample_disk_def cache_init_def)
  show "\<not> holds (cache (sample_fs len bs)) i t"
    by (auto simp: holds_def sample_fs_def blk_def cache_init_def empty_block_def)
qed

lemma sample_file:
  assumes len: "0 < len" "len \<le> 512" and bs: "length bs \<le> 512"
  shows "flen (cview (cache (sample_fs len bs))) 1 = 4" "sectors (cview (cache (sample_fs len bs))) 1 4 = {1, 3}"
    "flen (cview (cache (sample_fs len bs))) 4 = len" "sectors (cview (cache (sample_fs len bs))) 4 len = {4, 5}"
    "content (cview (cache (sample_fs len bs))) 4 = take len (overwrite zeros 0 bs)"
    "file_at_rest (sample_fs len bs) 4"
    "fm_used (fmap (sample_fs len bs)) = {..<6}" "fm_slots (fmap (sample_fs len bs)) = 32"
    "map_own (sample_fs len bs) = {1, 3}" "map_nodes (sample_fs len bs) = {10}" "t \<in> map_room (sample_fs len bs) \<longleftrightarrow> 6 \<le> t \<and> t < 32"
    "card (map_room (sample_fs len bs)) = 26"
proof -
  let ?v = "cview (cache (sample_fs len bs))" and ?st = "sample_fs len bs"
  note sc = sample_cache [OF bs]
  have v: "?v 1 = sample_inode 4 3" "?v 4 = sample_inode len 5" "?v 5 = overwrite zeros 0 bs" "?v 3 = zeros"
    by (simp_all add: sc sample_disk_def)
  have l: "length (?v t) = 512" for t by (rule cview_length [OF sc(1)])
  have lt: "(4::nat) \<le> length (?v 3)" "len \<le> length (?v 5)" using len by (simp_all add: l)
  note a = one_block_file [where v = ?v, OF v(1) _ _ _ lt(1)] and b = one_block_file [where v = ?v, OF v(2) len _ lt(2)]
  show f: "flen ?v 1 = 4" "sectors ?v 1 4 = {1, 3}" "flen ?v 4 = len" "sectors ?v 4 len = {4, 5}"
    "content ?v 4 = take len (overwrite zeros 0 bs)"
    using a(1,3) b(1,3,7) by (simp_all add: content_def v(3))
  have sl: "fm_slots (fmap ?st) = 32" by (simp add: fm_slots_def sample_fs_def)
  have us: "fm_used (fmap ?st) = {..<6}"
  proof -
    have "abs_bits (free_map (fmap ?st)) ! i = bit (63 :: u32) i" if "i < 32" for i
      using that by (simp add: sample_fs_def abs_bits_def bit_at_def)
    then have "i < 32 \<and> abs_bits (free_map (fmap ?st)) ! i \<longleftrightarrow> i < 6" for i using bit_63 [of i] by auto
    then show ?thesis unfolding fm_used_def sl by blast
  qed
  have r: "t \<in> map_room ?st \<longleftrightarrow> 6 \<le> t \<and> t < 32" for t
    by (auto simp: map_room_def sl us sc word_less_nat_alt word_le_nat_alt)
  have o: "map_own ?st = {1, 3}" "map_nodes ?st = {10}" using f by (simp_all add: map_own_def FREE_MAP_SECTOR_def map_nodes_def) (simp add: sample_fs_def)
  show "fm_used (fmap ?st) = {..<6}" "fm_slots (fmap ?st) = 32" "map_own ?st = {1, 3}" "map_nodes ?st = {10}"
    "t \<in> map_room ?st \<longleftrightarrow> 6 \<le> t \<and> t < 32" using us sl o r by simp_all
  have "map_room ?st = {t. 6 \<le> t \<and> t < 32}" using r by blast
  then show "card (map_room ?st) = 26" using card_words by simp
  have "map_open ?st" "fm_inv (fmap ?st)" by (simp_all add: map_open_def sample_fs_def FREE_MAP_SECTOR_def fm_inv_def wf_bitmap_def)
  moreover have "4 = unat (byte_cnt (bit_cnt (free_map (fmap ?st))))" by (simp add: sample_fs_def byte_cnt_def elem_cnt_def)
  moreover have us: "usable (cache ?st) 1 4" "usable (cache ?st) 4 len"
    using a(3,6) b(3,6) len by (simp_all add: usable_def sc file_shape_def MAX_BLOCKS_def held_def)
  ultimately have "map_ready ?st" using a(2,4) us o f by (simp add: map_ready_def FREE_MAP_SECTOR_def \<open>fm_used (fmap ?st) = {..<6}\<close>)
  moreover have "(len + 511) div 512 = 1" by (rule div_nat_eqI) (use len in simp_all)
  ultimately show "file_at_rest ?st 4"
    using b(2,5) us f o r by (simp add: file_at_rest_def free_uncached_def sc(2,6) held_def disjoint_iff)
qed

section \<open>Reading and writing in place\<close>

definition file_in_place :: "fsys \<Rightarrow> u32 \<Rightarrow> bool" where
  "file_in_place st s \<longleftrightarrow> usable (cache st) s (flen (cview (cache st)) s) \<and> blocks_apart (cview (cache st)) s (flen (cview (cache st)) s) \<and>
     0 \<le> disk_length (cview (cache st) s)"

definition other_files_same :: "fsys \<Rightarrow> u32 \<Rightarrow> fsys \<Rightarrow> bool" where
  "other_files_same st s st' \<longleftrightarrow>
     (\<forall>s'. sectors (cview (cache st)) s' (flen (cview (cache st)) s') \<inter> sectors (cview (cache st)) s (flen (cview (cache st)) s) = {} \<longrightarrow>
        content (cview (cache st')) s' = content (cview (cache st)) s')"

lemma at_rest_in_place: "file_at_rest st s \<Longrightarrow> file_in_place st s"
proof -
  assume f: "file_at_rest st s"
  let ?v = "cview (cache st)"
  have "n * 512 < flen ?v s \<Longrightarrow> n * 512 < (flen ?v s + 511) div 512 * 512" for n
    using round_up_ge [of "flen ?v s"] unfolding round_up_def by linarith
  moreover have "blocks_apart ?v s ((flen ?v s + 511) div 512 * 512)" using f by (simp add: file_at_rest_def growable_def)
  ultimately have "blocks_apart ?v s (flen ?v s)" unfolding blocks_apart_def by blast
  then show ?thesis using f by (simp add: file_in_place_def file_at_rest_def)
qed

lemma write_in_place_moved:
  assumes f: "file_in_place st s" and a: "inodes st a = Some inode" "i_sector inode = s" "deny_write_cnt inode = 0" "\<not> extension_lock inode"
    and off: "0 \<le> off" "0 \<le> sz" "nat off + nat sz \<le> flen (cview (cache st)) s" "nat sz \<le> length buf"
  obtains c v where "inode_write_at alloc a buf sz off st = Inr (st\<lparr>cache := c\<rparr>, sz)"
    "moved (sectors (cview (cache st)) s (flen (cview (cache st)) s)) (cache st) c v (locks (cache st))"
    "flen v s = flen (cview (cache st)) s" "content v s = overwrite (content (cview (cache st)) s) (nat off) (take (nat sz) buf)"
    "v s = cview (cache st) s" "\<forall>t. t \<notin> data_blocks (cview (cache st)) s (flen (cview (cache st)) s) \<longrightarrow> v t = cview (cache st) t"
proof -
  let ?v = "cview (cache st)"
  let ?N = "flen ?v s" and ?T = "sectors ?v s (flen ?v s)"
  have u: "usable (cache st) s ?N" and ap: "blocks_apart ?v s ?N" and len: "0 \<le> disk_length (?v s)" using f by (simp_all add: file_in_place_def)
  obtain c v where w: "inode_write_at alloc a buf sz off st = Inr (st\<lparr>cache := c\<rparr>, sz)"
      "moved ?T (cache st) c v (locks (cache st))" "flen v s = ?N"
      "content v s = overwrite (bytes ?v s ?N) (nat off) (take (nat sz) buf)"
      "v s = put_word (?v s) LENGTH_AT (word_of_int (int ?N))"
      "\<forall>t. t \<notin> insert s (data_blocks ?v s ?N) \<longrightarrow> v t = ?v t"
    by (rule inode_write_within [OF u ap len a off(1,2) _ off(4), where N = ?N and T = ?T and alloc = alloc])
      (use off(3) in \<open>simp_all add: round_up_ge max_absorb1 order_trans [OF _ round_up_ge]\<close>)
  have dl: "disk_length (?v s) = int ?N" using len by (simp add: flen_def)
  have vs: "v s = ?v s" using w(5) put_disk_length [OF cview_length [OF usableD(1) [OF u], of s]] by (simp only: dl)
  then have "\<forall>t. t \<notin> data_blocks ?v s ?N \<longrightarrow> v t = ?v t" using w(6) by (metis insertE)
  then show ?thesis using that [of c v] w(1-4) vs by (simp add: content_def)
qed

lemma data_in_sectors: "data_blocks v s N \<subseteq> sectors v s N"
  by (auto simp: data_blocks_def sectors_def)

lemma write_in_place:
  assumes f: "file_in_place st s" and a: "inodes st a = Some inode" "i_sector inode = s" "deny_write_cnt inode = 0" "\<not> extension_lock inode"
    and off: "0 \<le> off" "0 \<le> sz" "nat off + nat sz \<le> flen (cview (cache st)) s" "nat sz \<le> length buf"
  shows "\<exists>c. inode_write_at alloc a buf sz off st = Inr (st\<lparr>cache := c\<rparr>, sz) \<and>
    content (cview c) s = overwrite (content (cview (cache st)) s) (nat off) (take (nat sz) buf) \<and>
    file_in_place (st\<lparr>cache := c\<rparr>) s \<and> other_files_same st s (st\<lparr>cache := c\<rparr>) \<and> locks c = locks (cache st)"
proof -
  let ?v = "cview (cache st)"
  let ?N = "flen ?v s" and ?T = "sectors ?v s (flen ?v s)"
  have u: "usable (cache st) s ?N" and ap: "blocks_apart ?v s ?N" and len: "0 \<le> disk_length (?v s)" using f by (simp_all add: file_in_place_def)
  obtain c v where w: "inode_write_at alloc a buf sz off st = Inr (st\<lparr>cache := c\<rparr>, sz)" "moved ?T (cache st) c v (locks (cache st))"
      "flen v s = ?N" "content v s = overwrite (content ?v s) (nat off) (take (nat sz) buf)"
      "v s = ?v s" "\<forall>t. t \<notin> data_blocks ?v s ?N \<longrightarrow> v t = ?v t" by (rule write_in_place_moved [OF f a off])
  note uc = usable_change [OF u ap w(2,6)] and m = movedD [OF w(2)]
  have "content v s' = content ?v s'" if "sectors ?v s' (flen ?v s') \<inter> ?T = {}" for s'
    using that w(6) data_in_sectors [of ?v s ?N] by (intro content_cong(1)) blast
  then have "other_files_same st s (st\<lparr>cache := c\<rparr>)" using m(2) by (simp add: other_files_same_def)
  then show ?thesis using w(1,3,4,5) uc(1,2) m(2,3) len by (intro exI [of _ c]) (simp add: file_in_place_def)
qed

text \<open>A file stays at rest when only its bytes change.\<close>

lemma rest_kept:
  assumes f: "file_at_rest st s" and m: "moved (sectors (cview (cache st)) s (flen (cview (cache st)) s)) (cache st) c v (locks (cache st))"
    and v: "v s = cview (cache st) s" "\<forall>t. t \<notin> data_blocks (cview (cache st)) s (flen (cview (cache st)) s) \<longrightarrow> v t = cview (cache st) t"
  shows "file_at_rest (st\<lparr>cache := c\<rparr>) s" "map_room (st\<lparr>cache := c\<rparr>) = map_room st" "map_own (st\<lparr>cache := c\<rparr>) = map_own st"
    "map_nodes (st\<lparr>cache := c\<rparr>) = map_nodes st"
proof -
  let ?v = "cview (cache st)"
  let ?N = "flen ?v s" and ?n = "(flen ?v s + 511) div 512"
  note fd = f [unfolded file_at_rest_def]
  have ap: "blocks_apart ?v s ?N" using at_rest_in_place [OF f] by (simp add: file_in_place_def)
  have u: "usable (cache st) s ?N" using fd by simp
  note uc = usable_change [OF u ap m v(2)] and md = movedD [OF m]
  have o: "v x = ?v x" if "x \<in> map_own st" for x
    using that fd v(2) data_in_sectors [of ?v s ?N] by blast
  have T: "sectors ?v s ?N \<inter> map_room st = {}" using fd by blast
  have cold: "disk.cold st" using fd by (simp add: disk.cold_def free_uncached_def)
  note r = disk.ready_step [where f = "inodes st", OF _ cold m o T refl]
  have st: "st\<lparr>inodes := inodes st, cache := c\<rparr> = st\<lparr>cache := c\<rparr>" by simp
  show room: "map_room (st\<lparr>cache := c\<rparr>) = map_room st" "map_own (st\<lparr>cache := c\<rparr>) = map_own st" "map_nodes (st\<lparr>cache := c\<rparr>) = map_nodes st"
    using r(3-5) [unfolded st] fd by simp_all
  have fl: "flen v s = ?N" by (simp add: flen_def v(1))
  have db: "data_blocks ?v s (?n * 512) = data_blocks ?v s ?N" using round_up_blocks [of _ ?N] by (simp add: data_blocks_def round_up_def)
  have "growable v s ?n" by (rule index_kept(1) [where v = ?v]) (use fd v db in simp_all)
  then show "file_at_rest (st\<lparr>cache := c\<rparr>) s"
    using fd r(1,2) [unfolded st] uc(1,3) md(2,3) fl v(1) room unfolding file_at_rest_def free_uncached_def disk.cold_def by simp
qed

text \<open>C12. A file is an array of bytes. Reading \<open>sz\<close> bytes at \<open>off\<close> inside a file returns these bytes of its
  content and changes no file, and writing replaces them, changes nothing of any file with other
  sectors and leaves no sector locked, whatever the alignment of \<open>off\<close> and \<open>sz\<close> to sectors.\<close>

theorem inode_read_write:
  assumes f: "file_in_place st s" and a: "inodes st a = Some inode" "i_sector inode = s" "deny_write_cnt inode = 0" "\<not> extension_lock inode"
    and off: "0 \<le> off" "0 \<le> sz" "nat off + nat sz \<le> flen (cview (cache st)) s" "nat sz \<le> length buf"
  shows "(\<exists>c. inode_read_at inode sz off (cache st) = Inr (c, take (nat sz) (drop (nat off) (content (cview (cache st)) s))) \<and>
        cview c = cview (cache st) \<and> locks c = locks (cache st) \<and> file_in_place (st\<lparr>cache := c\<rparr>) s) \<and>
    (\<exists>c. inode_write_at alloc a buf sz off st = Inr (st\<lparr>cache := c\<rparr>, sz) \<and>
        content (cview c) s = overwrite (content (cview (cache st)) s) (nat off) (take (nat sz) buf) \<and>
        file_in_place (st\<lparr>cache := c\<rparr>) s \<and> other_files_same st s (st\<lparr>cache := c\<rparr>) \<and> locks c = locks (cache st))"
proof -
  let ?v = "cview (cache st)"
  have u: "usable (cache st) s (flen ?v s)" and len: "0 \<le> disk_length (?v s)" using f by (simp_all add: file_in_place_def)
  have e: "end_ok (sectors ?v s (flen ?v s)) (cache st) s (nat off) (nat sz)" using off(3) by (simp add: end_ok_def)
  obtain c where r: "inode_read_at inode sz off (cache st) = Inr (c, take (nat sz) (drop (nat off) (content ?v s)))"
      "moved (sectors ?v s (flen ?v s)) (cache st) c ?v (locks (cache st))"
    by (rule inode_read_at_ok [OF u len a(2) off(1,2) e order_refl])
  have "file_in_place (st\<lparr>cache := c\<rparr>) s"
    using f usable_moved [OF u r(2)] movedD(2) [OF r(2)] by (simp add: file_in_place_def)
  then show ?thesis using r(1) movedD [OF r(2)] write_in_place [OF f a off] by simp
qed

lemma sample_node: "inodes (sample_fs len bs) 20 = Some \<lparr>i_sector = 4, open_cnt = 1, removed = False, deny_write_cnt = 0, extension_lock = False\<rparr>"
  by (simp add: sample_fs_def)

abbreviation five_fs :: fsys where
  "five_fs \<equiv> sample_fs 5 [1, 2, 3, 4, 5]"

lemma five_file:
  shows "flen (cview (cache five_fs)) 4 = 5" "content (cview (cache five_fs)) 4 = [1, 2, 3, 4, 5]" "file_at_rest five_fs 4"
    "map_nodes five_fs = {10}" "card (map_room five_fs) = 26" "file_in_place five_fs 4"
  using sample_file [of 5 "[1, 2, 3, 4, 5]"] at_rest_in_place [of five_fs 4] by (simp_all add: overwrite_def)

theorem inode_read_write_witness:
  "\<exists>c d. inode_read_at \<lparr>i_sector = 4, open_cnt = 1, removed = False, deny_write_cnt = 0, extension_lock = False\<rparr> 2 3 (cache five_fs) = Inr (c, [4, 5]) \<and>
     inode_write_at (allocate_sector 1) 20 [9, 8] 2 1 five_fs = Inr (five_fs\<lparr>cache := d\<rparr>, 2) \<and>
     content (cview d) 4 = [1, 9, 8, 4, 5]"
proof -
  have "nat 3 + nat 2 \<le> flen (cview (cache five_fs)) 4" "nat 1 + nat 2 \<le> flen (cview (cache five_fs)) 4" by (simp_all add: five_file)
  then show ?thesis
    using inode_read_write [OF five_file(6) sample_node, of 3 2 "[9, 8]" "allocate_sector 1"]
      inode_read_write [OF five_file(6) sample_node, of 1 2 "[9, 8]" "allocate_sector 1"]
    by (auto simp: five_file overwrite_def)
qed

section \<open>Writing behind the end\<close>

text \<open>The bytes of all blocks after a write: the blocks before, zeros for the new ones, and the bytes written.\<close>

lemma write_grows_blocks:
  assumes f: "file_at_rest st s" and a: "inodes st a = Some inode" "i_sector inode = s" "deny_write_cnt inode = 0" "\<not> extension_lock inode"
      "a \<notin> map_nodes st"
    and off: "0 \<le> off" "0 \<le> sz" "nat sz \<le> length buf" "nat off + nat sz = N" "flen (cview (cache st)) s \<le> N"
    and n: "n = (flen (cview (cache st)) s + 511) div 512" "n' = (N + 511) div 512" "n' \<le> SINGLE_LIMIT" "2 * (n' - n) \<le> card (map_room st)"
  shows "\<exists>st' A. inode_write_at (allocate_sector (Suc d)) a buf sz off st = Inr (st', sz) \<and> file_at_rest st' s \<and>
     flen (cview (cache st')) s = N \<and>
     bytes (cview (cache st')) s (n' * 512) =
       overwrite (bytes (cview (cache st)) s (n * 512) @ concat (replicate (n' - n) zeros)) (nat off) (take (nat sz) buf) \<and>
     A \<subseteq> map_room st \<and> map_room st' = map_room st - A \<and> card A \<le> 2 * (n' - n) \<and>
     (\<forall>s'. sectors (cview (cache st)) s' (flen (cview (cache st)) s') \<inter>
         (map_own st \<union> sectors (cview (cache st)) s (flen (cview (cache st)) s) \<union> A) = {} \<longrightarrow>
       content (cview (cache st')) s' = content (cview (cache st)) s') \<and>
     locks (cache st') = locks (cache st) \<and> inodes st' = inodes st \<and> map_nodes st' = map_nodes st"
proof -
  let ?v = "cview (cache st)"
  have nb: "disk.nblocks ?v s = n" by (simp add: disk.nblocks_def n(1))
  obtain st' A where w: "inode_write_at (allocate_sector (Suc d)) a buf sz off st = Inr (st', sz)" "disk.file_at st' s"
    "flen (cview (cache st')) s = N" "bytes (cview (cache st')) s (n' * 512) = overwrite (bytes ?v s (n * 512) @
       concat (replicate (n' - n) zeros)) (nat off) (take (nat sz) buf)"
    "A \<subseteq> map_room st" "map_room st' = map_room st - A" "card A \<le> 2 * (n' - n)" "map_nodes st' = map_nodes st"
    "\<forall>x. x \<notin> map_own st \<union> sectors ?v s (flen ?v s) \<union> A \<longrightarrow> cview (cache st') x = ?v x"
    "locks (cache st') = locks (cache st)" "inodes st' = inodes st"
    by (rule disk.inode_write_grow [OF f [unfolded file_at_rest_iff] a off n(2,3), unfolded nb, OF n(4)])
  have "content (cview (cache st')) s' = content ?v s'"
    if "sectors ?v s' (flen ?v s') \<inter> (map_own st \<union> sectors ?v s (flen ?v s) \<union> A) = {}" for s'
    using that w(9) by (intro content_cong(1)) blast
  then show ?thesis using w by (intro exI [of _ st'] exI [of _ A]) (simp add: file_at_rest_iff)
qed

lemma length_zero_blocks: "length (concat (replicate k zeros)) = k * 512" "concat (replicate k zeros) = replicate (k * 512) 0"
  by (induction k) (simp_all add: zeros_def replicate_add [symmetric] add.commute)

lemma grown_length:
  assumes "n = (L + 511) div 512" "n' = (N + 511) div 512" "L \<le> N"
  shows "n \<le> n'" "n * 512 = round_up L" "n' * 512 = round_up N" "n * 512 + (n' - n) * 512 = round_up N"
proof -
  show "n \<le> n'" unfolding assms(1,2) using assms(3) by (intro div_le_mono) simp
  then show "n * 512 = round_up L" "n' * 512 = round_up N" "n * 512 + (n' - n) * 512 = round_up N"
    by (simp_all add: assms(1,2) round_up_def add_mult_distrib [symmetric])
qed

lemma grown_content:
  assumes b: "bytes v' s (n' * 512) = overwrite (bytes v s (n * 512) @ concat (replicate (n' - n) zeros)) k d"
    and f: "flen v' s = N" "k + length d = N" "flen v s \<le> N" and n: "n = (flen v s + 511) div 512" "n' = (N + 511) div 512"
  shows "content v' s = overwrite (take N (bytes v s (n * 512) @ concat (replicate (n' - n) zeros))) k d"
    "zero_tail v s \<Longrightarrow> content v' s = overwrite (content v s @ replicate (N - flen v s) 0) k d \<and> zero_tail v' s"
proof -
  let ?x = "bytes v s (n * 512) @ concat (replicate (n' - n) zeros)"
  note g = grown_length [OF n f(3)]
  have lx: "length ?x = round_up N" using g(4) by (simp add: length_zero_blocks)
  have c: "content v' s = take N (overwrite ?x k d)"
    unfolding content_def f(1) using bytes_take [of N "n' * 512" v' s] b g(3) round_up_ge [of N] by simp
  then show c': "content v' s = overwrite (take N ?x) k d"
    using disk.overwrite_take [OF f(2), of ?x] lx round_up_ge [of N] f(2) by simp
  assume z: "zero_tail v s"
  have "?x = content v s @ replicate (round_up N - flen v s) 0"
    using z g(2,4) round_up_ge [of "flen v s"] unfolding zero_tail_def
    by (simp add: length_zero_blocks replicate_add [symmetric])
  then have x: "take N ?x = content v s @ replicate (N - flen v s) 0" "drop N ?x = replicate (round_up N - N) 0"
    using f(3) round_up_ge [of N] by (simp_all add: min_def)
  have "bytes v' s (round_up N) = take N (overwrite ?x k d) @ drop N (overwrite ?x k d)" using b g(3) by simp
  moreover have "drop N (overwrite ?x k d) = drop N ?x"
    using f(2) lx round_up_ge [of N] by (simp add: overwrite_def)
  ultimately show "content v' s = overwrite (content v s @ replicate (N - flen v s) 0) k d \<and> zero_tail v' s"
    using c c' x f(1) by (simp add: zero_tail_def)
qed

lemma write_grows:
  assumes f: "file_at_rest st s" and a: "inodes st a = Some inode" "i_sector inode = s" "deny_write_cnt inode = 0" "\<not> extension_lock inode"
      "a \<notin> map_nodes st"
    and off: "0 \<le> off" "0 \<le> sz" "nat sz \<le> length buf" "nat off + nat sz = N" "flen (cview (cache st)) s \<le> N"
    and n: "n = (flen (cview (cache st)) s + 511) div 512" "n' = (N + 511) div 512" "n' \<le> SINGLE_LIMIT" "2 * (n' - n) \<le> card (map_room st)"
  shows "\<exists>st' A. inode_write_at (allocate_sector (Suc d)) a buf sz off st = Inr (st', sz) \<and> file_at_rest st' s \<and>
     flen (cview (cache st')) s = N \<and>
     content (cview (cache st')) s =
       overwrite (take N (bytes (cview (cache st)) s (n * 512) @ concat (replicate (n' - n) zeros))) (nat off) (take (nat sz) buf) \<and>
     (zero_tail (cview (cache st)) s \<longrightarrow>
       content (cview (cache st')) s = overwrite (content (cview (cache st)) s @ replicate (N - flen (cview (cache st)) s) 0)
         (nat off) (take (nat sz) buf) \<and> zero_tail (cview (cache st')) s) \<and>
     A \<subseteq> map_room st \<and> map_room st' = map_room st - A \<and> card A \<le> 2 * (n' - n) \<and>
     (\<forall>s'. sectors (cview (cache st)) s' (flen (cview (cache st)) s') \<inter>
         (map_own st \<union> sectors (cview (cache st)) s (flen (cview (cache st)) s) \<union> A) = {} \<longrightarrow>
       content (cview (cache st')) s' = content (cview (cache st)) s') \<and>
     locks (cache st') = locks (cache st) \<and> inodes st' = inodes st \<and> map_nodes st' = map_nodes st"
proof -
  obtain st' A where w: "inode_write_at (allocate_sector (Suc d)) a buf sz off st = Inr (st', sz)" "file_at_rest st' s"
     "flen (cview (cache st')) s = N" "bytes (cview (cache st')) s (n' * 512) =
       overwrite (bytes (cview (cache st)) s (n * 512) @ concat (replicate (n' - n) zeros)) (nat off) (take (nat sz) buf)"
     "A \<subseteq> map_room st" "map_room st' = map_room st - A" "card A \<le> 2 * (n' - n)"
     "\<forall>s'. sectors (cview (cache st)) s' (flen (cview (cache st)) s') \<inter>
         (map_own st \<union> sectors (cview (cache st)) s (flen (cview (cache st)) s) \<union> A) = {} \<longrightarrow>
       content (cview (cache st')) s' = content (cview (cache st)) s'"
     "locks (cache st') = locks (cache st)" "inodes st' = inodes st" "map_nodes st' = map_nodes st"
    using write_grows_blocks [OF assms, of d] by (elim exE conjE)
  have "nat off + length (take (nat sz) buf) = N" using off(3,4) by simp
  note c = grown_content [OF w(4,3) this off(5) n(1,2)]
  show ?thesis using w(1-3) c w(5-) by (intro exI [of _ st'] exI [of _ A] conjI impI) simp_all
qed

text \<open>C11. Writing up to byte \<open>N\<close> at or behind the end of a file, on a disk with room in the free map and no free
  sector in the cache (part of \<open>file_at_rest\<close>), extends the file: its length becomes \<open>N\<close>, and its content
  is what its blocks held, the rest of its last block included, followed by zeros for the new blocks, with
  the bytes written in place at \<open>off\<close>. When the rest of the last block is zero (\<open>zero_tail\<close>), that is the old
  content followed by zeros and the bytes written, and the rest of the new last block is zero again, so
  that this holds write after write. At most two sectors are taken from the free map per new block, the file
  and the free map are again as the write needs them, and no other file changes.\<close>

theorem inode_write_extends:
  assumes f: "file_at_rest st s" and a: "inodes st a = Some inode" "i_sector inode = s" "deny_write_cnt inode = 0" "\<not> extension_lock inode"
      "a \<notin> map_nodes st"
    and off: "0 \<le> off" "0 \<le> sz" "nat sz \<le> length buf" "nat off + nat sz = N" "flen (cview (cache st)) s \<le> N"
    and n: "n = (flen (cview (cache st)) s + 511) div 512" "n' = (N + 511) div 512" "n' \<le> SINGLE_LIMIT" "2 * (n' - n) \<le> card (map_room st)"
  shows "\<exists>st' A. inode_write_at (allocate_sector (Suc d)) a buf sz off st = Inr (st', sz) \<and> file_at_rest st' s \<and>
     flen (cview (cache st')) s = N \<and>
     content (cview (cache st')) s =
       overwrite (take N (bytes (cview (cache st)) s (n * 512) @ concat (replicate (n' - n) zeros))) (nat off) (take (nat sz) buf) \<and>
     (zero_tail (cview (cache st)) s \<longrightarrow>
       content (cview (cache st')) s = overwrite (content (cview (cache st)) s @ replicate (N - flen (cview (cache st)) s) 0)
         (nat off) (take (nat sz) buf) \<and> zero_tail (cview (cache st')) s) \<and>
     A \<subseteq> map_room st \<and> map_room st' = map_room st - A \<and> card A \<le> 2 * (n' - n) \<and>
     (\<forall>s'. sectors (cview (cache st)) s' (flen (cview (cache st)) s') \<inter>
         (map_own st \<union> sectors (cview (cache st)) s (flen (cview (cache st)) s) \<union> A) = {} \<longrightarrow>
       content (cview (cache st')) s' = content (cview (cache st)) s') \<and>
     locks (cache st') = locks (cache st) \<and> inodes st' = inodes st \<and> map_nodes st' = map_nodes st"
  by (rule write_grows [OF assms])

lemma five_zero_tail: "zero_tail (cview (cache five_fs)) 4"
proof -
  let ?v = "cview (cache five_fs)"
  have v: "?v = blk_aux (sample_disk 5 [1, 2, 3, 4, 5])" using sample_cache(3) [of "[1, 2, 3, 4, 5]" 5] by simp
  have b0: "block_index ?v 4 0 = 5" by (simp add: block_index_def v sample_disk_def sample_inode_words)
  have d: "?v 5 = [1, 2, 3, 4, 5] @ replicate 507 0" by (simp add: v sample_disk_def overwrite_def zeros_def)
  have "bytes ?v 4 512 = ?v 5"
  proof (rule nth_equalityI)
    fix i assume "i < length (bytes ?v 4 512)"
    then have "i < 512" by simp
    then show "bytes ?v 4 512 ! i = ?v 5 ! i" by (simp add: bytes_def b0)
  qed (simp add: d)
  moreover have "round_up 5 = 512" by (simp add: round_up_def)
  ultimately show ?thesis by (simp add: zero_tail_def five_file d)
qed

theorem inode_write_extends_witness:
  "\<exists>st'. inode_write_at (allocate_sector 1) 20 [7, 7] 2 600 five_fs = Inr (st', 2) \<and> flen (cview (cache st')) 4 = 602 \<and>
     content (cview (cache st')) 4 = [1, 2, 3, 4, 5] @ replicate 595 0 @ [7, 7] \<and> zero_tail (cview (cache st')) 4"
proof -
  let ?v = "cview (cache five_fs)"
  have n: "1 = (flen ?v 4 + 511) div 512" "2 = (602 + 511) div (512::nat)" "2 \<le> SINGLE_LIMIT" "2 * (2 - 1) \<le> card (map_room five_fs)"
    by (simp_all add: five_file SINGLE_LIMIT_def)
  obtain st' where w: "inode_write_at (allocate_sector (Suc 0)) 20 [7, 7] 2 600 five_fs = Inr (st', 2)" "flen (cview (cache st')) 4 = 602"
      "content (cview (cache st')) 4 = overwrite ([1, 2, 3, 4, 5] @ replicate 597 0) 600 [7, 7]" "zero_tail (cview (cache st')) 4"
    using inode_write_extends [OF five_file(3) sample_node _ _ _ _ _ _ _ _ _ n, where buf = "[7, 7]" and off = 600 and sz = 2 and d = 0]
      five_zero_tail by (auto simp: five_file)
  then show ?thesis by (simp add: overwrite_def)
qed

end
