(* ===== verification/File_Errors.thy ===== *)
theory File_Errors
  imports File_Properties
begin

text \<open>
  Executions of \<^verbatim>\<open>filesys/inode.c\<close> in which extending or creating a file halts the kernel.
\<close>

declare neq0_conv [iff del] bot_nat_0.not_eq_extremum [simp del]

section \<open>Growing into the doubly indirect blocks\<close>

lemma grow_block_again:
  assumes n: "SINGLE_LIMIT < n" "n < SINGLE_LIMIT + 128" and d: "cell c DOUBLE_AT st \<noteq> 0"
  shows "grow_block alloc c (of_nat n) st = Inl Assertion_failure"
proof -
  have u: "unat (of_nat n :: u32) = n" using n by (simp add: unat_of_nat SINGLE_LIMIT_def)
  have nb: "unat (of_nat n - NUM_DIRECT) = n - 60"
    using n u by (simp add: unat_sub_if' NUM_DIRECT_def SINGLE_LIMIT_def)
  have "(n - 60) div 128 = 40"
    by (rule div_nat_eqI) (use n in \<open>simp_all add: SINGLE_LIMIT_def\<close>)
  then have "unat ((of_nat n - NUM_DIRECT) div ENTRIES_PER_SECTOR) = 40" by (simp add: unat_div nb ENTRIES_PER_SECTOR_def)
  then have "(of_nat n - NUM_DIRECT) div ENTRIES_PER_SECTOR = NUM_SINGLE_INDIRECT"
    by (intro unsigned_word_eqI) (simp add: NUM_SINGLE_INDIRECT_def)
  moreover have "\<not> of_nat n < NUM_DIRECT" using n u by (simp add: word_less_nat_alt NUM_DIRECT_def SINGLE_LIMIT_def)
  ultimately show ?thesis using d by (simp add: grow_block_def Let_def grow_double_indirect_def grow_direct_def ASSERT_def)
qed

text \<open>C22. A file that grows reaches into the doubly indirect sectors once and no further: \<open>grow_double_indirect\<close>
  allocates the doubly indirect sector whenever \<open>index1\<close> is 0, not only for the first block, and
  \<open>grow_direct\<close> asserts that it is not there yet. A file with between 1 and 127 blocks behind the singly
  indirect ones cannot be extended by another block: every write that needs one halts the kernel.\<close>

theorem grow_double_indirect_halts:
  assumes inv: "cache_inv (cache st)" "card (held (locks (cache st))) \<le> 60"
    and s: "s \<noteq> 0" "s < blk_size (fs_device (cache st))" "locks (cache st) s = FREE"
    and fl: "is_valid_inode (cview (cache st) s)" "disk_length (cview (cache st) s) = int L" "get_word (cview (cache st) s) DOUBLE_AT \<noteq> 0"
    and n: "n = (L + 511) div 512" "SINGLE_LIMIT < n" "n < SINGLE_LIMIT + 128"
    and a: "inodes st a = Some inode" "i_sector inode = s" "deny_write_cnt inode = 0" "\<not> extension_lock inode"
    and off: "sz + off = int N" "n < (N + 511) div 512" "N < 2147483648"
  shows "inode_write_at alloc a buf sz off st = Inl Assertion_failure"
proof -
  let ?c = "cache st" and ?v = "cview (cache st)" and ?i = "inode\<lparr>extension_lock := True\<rparr>"
  have len: "\<exists>c'. inode_length inode c = Inr (c', int L) \<and> moved {s} ?c c' ?v (locks ?c)"
    if m: "moved {s} ?c c ?v (locks ?c)" for c
  proof -
    note md = movedD [OF m]
    have r: "readable c s" using s md by (simp add: readable_def)
    obtain c' where "inode_length inode c = Inr (c', int L)" "moved {s} c c' ?v (locks ?c)"
      using inode_length_ok [OF md(1) _ a(2) r, of "{s}"] md(2,3) fl(2) inv(2) by auto
    then show ?thesis using moved_trans [OF m] by blast
  qed
  have m0: "moved {s} ?c ?c ?v (locks ?c)" by (rule moved_refl [OF inv(1)])
  obtain c1 where l1: "inode_length inode ?c = Inr (c1, int L)" "moved {s} ?c c1 ?v (locks ?c)" using len [OF m0] by blast
  obtain c2 where l2: "inode_length inode c1 = Inr (c2, int L)" "moved {s} ?c c2 ?v (locks ?c)" using len [OF l1(2)] by blast
  obtain c3 where l3: "inode_length inode c2 = Inr (c3, int L)" "moved {s} ?c c3 ?v (locks ?c)" using len [OF l2(2)] by blast
  note m3 = movedD [OF l3(2)]
  obtain c4 i where w: "cache_write_block s c3 = Inr (c4, i)" "bdata i c4 = cview c3 s"
    by (rule write_block [OF m3(1), where s = s and T = "{s}"]) (use s inv(2) m3(3,4) in \<open>simp_all add: CACHE_BLOCKS_def\<close>)
  let ?st3 = "st\<lparr>inodes := (inodes st)(a \<mapsto> ?i), cache := c3\<rparr>"
  obtain num where num: "(N + 511) div 512 - n = Suc num" using off(2) by (metis diff_is_0_eq leD nat.exhaust)
  have "L < N"
  proof (rule ccontr)
    assume "\<not> L < N"
    then have "(N + 511) div 512 \<le> (L + 511) div 512" by (intro div_le_mono) simp
    then show False using off(2) n(1) by simp
  qed
  have "CEIL (int N) 512 - CEIL (int L) 512 = int (Suc num)"
  proof -
    have "int ((N + 511) div 512) - int n = int (Suc num)" using num off(2) by linarith
    then show ?thesis using CEIL_nat [of "int N"] CEIL_nat [of "int L"] n(1) by simp
  qed
  then have k: "word_of_int (CEIL (int N) 512) - word_of_int (CEIL (int L) 512) = (of_nat (Suc num) :: u32)"
    by (metis of_int_of_nat_eq wi_hom_sub)
  have "N + 511 < 2147484160" using off(3) by simp
  then have Nb: "(N + 511) div 512 < 4194305" by (intro less_mult_imp_div_less) simp
  then have un: "unat (of_nat (Suc num) :: u32) = Suc num" using num by (simp add: unat_of_nat del: of_nat_Suc)
  have "word_of_int (CEIL (int L) 512 - 1) + (1 :: u32) = of_nat n" using CEIL_nat [of "int L"] n(1) by simp
  then have "inode_extend alloc inode (of_nat (Suc num)) ?st3 = Inl Assertion_failure"
    using w [unfolded m3(2)] fl grow_block_again [OF n(2,3), of i "?st3\<lparr>cache := c4\<rparr>" alloc]
    by (simp add: inode_extend_def a(2) with_cache_def un ASSERT_def cell_def del: of_nat_Suc)
  then show ?thesis
    using a l1(1) l2(1) l3(1) \<open>L < N\<close> off(3) wrap32_small [of "int N"] k
    by (simp add: inode_write_at_def ino_def with_cache_def set_ino_def off(1) ASSERT_def Let_def del: of_nat_Suc)
qed

definition sample_long :: "u8 list" where
  "sample_long = put_word (put_word (put_word zeros DOUBLE_AT 9) LENGTH_AT 2652672) MAGIC_AT INODE_MAGIC"

lemma sample_long_words:
  shows "length sample_long = 512" "get_word sample_long DOUBLE_AT = 9" "disk_length sample_long = 2652672" "is_valid_inode sample_long"
proof -
  let ?a = "put_word zeros DOUBLE_AT 9" and ?b = "put_word (put_word zeros DOUBLE_AT 9) LENGTH_AT 2652672"
  have a: "length ?a = 512" "get_word ?a DOUBLE_AT = 9"
    using get_put_word [of zeros DOUBLE_AT DOUBLE_AT 9] by (simp_all add: DOUBLE_AT_def)
  have b: "length ?b = 512" "get_word ?b DOUBLE_AT = 9" "get_word ?b LENGTH_AT = 2652672"
    using get_put_word [OF a(1), of LENGTH_AT DOUBLE_AT 2652672] get_put_word [OF a(1), of LENGTH_AT LENGTH_AT 2652672] a(2)
    by (simp_all add: DOUBLE_AT_def LENGTH_AT_def)
  have c: "get_word sample_long k = (if k = MAGIC_AT then INODE_MAGIC else get_word ?b k)" if "k < 128" for k
    unfolding sample_long_def using get_put_word(1) [OF b(1), of MAGIC_AT k] that by (simp add: MAGIC_AT_def)
  show "length sample_long = 512" unfolding sample_long_def using get_put_word(2) [OF b(1), of MAGIC_AT 0] by (simp add: MAGIC_AT_def)
  show "get_word sample_long DOUBLE_AT = 9" using c [of DOUBLE_AT] b by (simp add: DOUBLE_AT_def MAGIC_AT_def)
  show "disk_length sample_long = 2652672" using c [of LENGTH_AT] b by (simp add: disk_length_def LENGTH_AT_def MAGIC_AT_def)
  show "is_valid_inode sample_long" using c [of MAGIC_AT] by (simp add: is_valid_inode_def MAGIC_AT_def)
qed

abbreviation five_disk :: "medium block" where
  "five_disk \<equiv> sample_disk 5 [1, 2, 3, 4, 5]"

lemma five_disk_ok: "device_ok five_disk" "blk_size five_disk = 32"
  using sample_disk_ok [of "[1, 2, 3, 4, 5]"] sample_cache(5) [of "[1, 2, 3, 4, 5]"] by simp_all

definition sample_long_fs :: fsys where
  "sample_long_fs = five_fs\<lparr>cache := cache_init (five_disk\<lparr>blk_aux := (blk_aux five_disk)(4 := sample_long)\<rparr>)\<rparr>"

theorem grow_double_indirect_halts_witness:
  "disk_length (cview (cache sample_long_fs) 4) = 2652672 \<and>
   inode_write_at (allocate_sector 1) 20 [7] 1 2652672 sample_long_fs = Inl Assertion_failure"
proof -
  have "device_ok (five_disk\<lparr>blk_aux := (blk_aux five_disk)(4 := sample_long)\<rparr>)"
    using five_disk_ok(1) sample_long_words(1) by (simp add: device_ok_def BLOCK_SECTOR_SIZE_def)
  note c = cache_init_inv [OF this]
  have v: "cview (cache sample_long_fs) 4 = sample_long" using c(3) by (simp add: sample_long_fs_def)
  have i: "cache_inv (cache sample_long_fs)" "locks (cache sample_long_fs) = (\<lambda>_. FREE)" using c(1,2) by (simp_all add: sample_long_fs_def)
  have d: "blk_size (fs_device (cache sample_long_fs)) = 32" by (simp add: sample_long_fs_def cache_init_def five_disk_ok)
  have n: "inodes sample_long_fs 20 = Some \<lparr>i_sector = 4, open_cnt = 1, removed = False, deny_write_cnt = 0, extension_lock = False\<rparr>"
    using sample_node by (simp add: sample_long_fs_def)
  have "inode_write_at (allocate_sector 1) 20 [7] 1 2652672 sample_long_fs = Inl Assertion_failure"
    by (rule grow_double_indirect_halts [where s = 4 and L = 2652672 and n = 5181 and N = 2652673, OF i(1) _ _ _ _ _ _ _ _ _ _ n])
      (simp_all add: i(2) v d sample_long_words held_def SINGLE_LIMIT_def)
  then show ?thesis by (simp add: v sample_long_words)
qed

section \<open>Creating a file in a sector that is cached\<close>

lemma clear_cached:
  assumes inv: "cache_inv (cache st)" and h: "holds (cache st) i s" "dirty (blk (cache st) i)" "s < blk_size (fs_device (cache st))"
  obtains c where "clear_sector s st = Inr (st\<lparr>cache := c\<rparr>)" "cache_inv c" "cview c s = cview (cache st) s" "locks c = locks (cache st)"
    "blk_size (fs_device c) = blk_size (fs_device (cache st))"
proof -
  let ?c = "cache st"
  obtain d where d: "block_write (fs_device ?c) s zeros = Inr d" "blk_aux d = (blk_aux (fs_device ?c))(s := zeros)"
      "blk_size d = blk_size (fs_device ?c)" "device_ok d"
    using device_transfer(2) [OF cache_invD(2) [OF inv] h(3), of zeros] by (auto simp: BLOCK_SECTOR_SIZE_def)
  let ?c' = "?c\<lparr>fs_device := d\<rparr>"
  have hh: "holds ?c' = holds ?c" by (simp add: holds_def fun_eq_iff)
  have "block_ok d (blk ?c j)" if j: "j < CACHE_BLOCKS" for j
  proof (cases "j = i")
    case False
    then have "valid (blk ?c j) \<Longrightarrow> csector (blk ?c j) \<noteq> s" using cache_invD(4) [OF inv, of j s i] h(1) j by (auto simp: holds_def)
    then show ?thesis using cache_invD(3) [OF inv j] d(2,3) by (auto simp: block_ok_def)
  qed (use cache_invD(3) [OF inv j] d(3) h(2) in \<open>auto simp: block_ok_def\<close>)
  then have inv': "cache_inv ?c'" using inv d(4) hh by (simp add: cache_inv_def)
  have "locks ?c' = locks ?c" unfolding locks_def hh by (auto simp: blk_def fun_eq_iff)
  moreover have "cview ?c' s = cview ?c s" using cview_holds(1) [OF inv h(1)] cview_holds(1) [OF inv', of i s] h(1) by (simp add: hh)
  moreover have "clear_sector s st = Inr (st\<lparr>cache := ?c'\<rparr>)"
    using d(1) by (simp add: clear_sector_def block_clear_def zeros_def BLOCK_SECTOR_SIZE_def on_cache_def)
  ultimately show ?thesis using that [of ?c'] inv' d(3) by simp
qed

text \<open>\<open>grow_direct\<close> clears past the cache too: when the sector it is given is dirty in the cache, the new block of
  the file reads as the bytes the cache still has from an earlier use. This is why \<open>file_at_rest\<close> asks that
  no free sector is cached.\<close>

lemma grow_direct_stale:
  assumes a: "cell c k st = 0" "alloc st = Inr (st1, Some t)" and st2: "st2 = set_cell c k t st1"
    and h: "cache_inv (cache st2)" "holds (cache st2) i t" "dirty (blk (cache st2) i)" "t < blk_size (fs_device (cache st2))"
  shows "\<exists>st'. grow_direct alloc c k st = Inr (st', True) \<and> cview (cache st') t = cview (cache st2) t"
proof -
  obtain c' where "clear_sector t st2 = Inr (st2\<lparr>cache := c'\<rparr>)" "cview c' t = cview (cache st2) t"
    by (rule clear_cached [OF h])
  then show ?thesis using a by (intro exI [of _ "st2\<lparr>cache := c'\<rparr>"]) (simp add: grow_direct_def ASSERT_def st2)
qed

text \<open>C23. \<open>inode_create\<close> clears the sector of the new inode on the device, past the cache, and then takes the
  block from the cache. When the cache still has the sector, with an old inode that has a first block,
  as after a file was written, removed and its sector allocated again, the new inode starts with
  the old sector numbers, and the first allocation of a file that is not empty fails its assertion.\<close>

theorem inode_create_stale:
  assumes inv: "cache_inv (cache st)" "card (held (locks (cache st))) \<le> 60"
    and s: "s \<noteq> 0" "s < blk_size (fs_device (cache st))" "locks (cache st) s = FREE"
    and h: "holds (cache st) i s" "dirty (blk (cache st) i)" "get_word (cview (cache st) s) 0 \<noteq> 0" and len: "0 < len"
  shows "inode_create alloc s len st = Inl Assertion_failure"
proof -
  let ?v = "cview (cache st)"
  obtain c where c: "clear_sector s st = Inr (st\<lparr>cache := c\<rparr>)" "cache_inv c" "cview c s = ?v s" "locks c = locks (cache st)"
    "blk_size (fs_device c) = blk_size (fs_device (cache st))" by (rule clear_cached [OF inv(1) h(1,2) s(2)])
  obtain c1 j where w: "cache_write_block s c = Inr (c1, j)" "bdata j c1 = cview c s" "holds c1 j s"
      "moved {s} c c1 (cview c) ((locks c)(s := WRITE))"
    by (rule write_block [OF c(2), where s = s and T = "{s}"]) (use s inv(2) c in \<open>simp_all add: CACHE_BLOCKS_def\<close>)
  note m = movedD [OF w(4)]
  have l: "length (?v s) = 512" by (rule cview_length [OF inv(1)])
  let ?d = "put_word (?v s) LENGTH_AT (word_of_int len)"
  let ?st1 = "set_cell j LENGTH_AT (word_of_int len) (st\<lparr>cache := c1\<rparr>)"
  have ld: "length ?d = 512" "get_word ?d 0 = get_word (?v s) 0" using get_put_word [OF l, of LENGTH_AT 0] by (simp_all add: LENGTH_AT_def)
  have j: "j < CACHE_BLOCKS" "length (buffer c1) = CACHE_BLOCKS" using w(3) cache_invD(1) [OF m(1)] by (simp_all add: holds_def)
  have b: "bdata j (put_data j d c') = d" if "length (buffer c') = CACHE_BLOCKS" for d c'
    using that j(1) by (simp add: bdata_def put_data_def blk_upd)
  have lp: "length (buffer (put_data j d c')) = length (buffer c')" for d c' by (simp add: put_data_def upd_blk_def)
  have b1: "bdata j (cache ?st1) = ?d" using w(2) c(3) j(2) by (simp add: set_cell_def on_cache_def b)
  have "cell j 0 (set_cell j MAGIC_AT INODE_MAGIC ?st1) = get_word (put_word ?d MAGIC_AT INODE_MAGIC) 0"
    unfolding cell_def set_cell_def [of j MAGIC_AT] b1 using j(2) by (simp add: on_cache_def b lp set_cell_def)
  also have "\<dots> \<noteq> 0" using get_put_word(1) [OF ld(1), of MAGIC_AT 0] ld(2) h(3) by (simp add: MAGIC_AT_def)
  finally have "allocate_direct alloc j 0 len (set_cell j MAGIC_AT INODE_MAGIC ?st1) = Inl Assertion_failure"
    using len by (simp add: allocate_direct_def ASSERT_def)
  then show ?thesis
    using c(1) w(1) len by (simp add: inode_create_def with_cache_def ASSERT_def eval_nat_numeral(3) [of num.One] numeral_eq_Suc)
qed

definition sample_cached :: fsys where
  "sample_cached = five_fs\<lparr>cache := (cache five_fs)\<lparr>buffer := (replicate CACHE_BLOCKS empty_block)
     [0 := empty_block\<lparr>valid := True, cdata := sample_inode 5 5, csector := 4, dirty := True\<rparr>]\<rparr>\<rparr>"

theorem inode_create_stale_witness: "inode_create (allocate_sector 1) 4 100 sample_cached = Inl Assertion_failure"
proof -
  let ?c = "cache sample_cached"
  have b: "blk ?c i = (if i = 0 then empty_block\<lparr>valid := True, cdata := sample_inode 5 5, csector := 4, dirty := True\<rparr> else empty_block)"
    if "i < CACHE_BLOCKS" for i using that by (simp add: sample_cached_def blk_def nth_list_update)
  have h: "holds ?c i t \<longleftrightarrow> i = 0 \<and> t = 4" for i t
    using b [of i] by (cases "i = 0") (auto simp: holds_def empty_block_def CACHE_BLOCKS_def)
  have d: "fs_device ?c = five_disk" by (simp add: sample_cached_def sample_cache(4))
  have "block_ok five_disk (blk ?c i)" if "i < CACHE_BLOCKS" for i
    using b [OF that] by (simp add: block_ok_def unlocked_def empty_block_def sample_inode_words five_disk_ok BLOCK_SECTOR_SIZE_def)
  then have inv: "cache_inv ?c"
    using five_disk_ok(1) h d by (simp add: cache_inv_def) (simp add: sample_cached_def)
  have l: "locks ?c = (\<lambda>_. FREE)"
  proof
    fix t show "locks ?c t = FREE"
    proof (cases "t = 4")
      case True
      then show ?thesis using cview_holds(2) [OF inv, of 0 4] h b [of 0] by (simp add: empty_block_def FREE_def CACHE_BLOCKS_def)
    next
      case False
      then show ?thesis using cview_not_held(2) [of ?c t] h by (simp add: FREE_def)
    qed
  qed
  have v: "cview ?c 4 = sample_inode 5 5" using cview_holds(1) [OF inv, of 0 4] h b [of 0] by (simp add: CACHE_BLOCKS_def)
  show ?thesis
    by (rule inode_create_stale [OF inv, where i = 0])
      (use h b [of 0] in \<open>simp_all add: l v d five_disk_ok(2) sample_inode_words held_def CACHE_BLOCKS_def\<close>)
qed

end
