(* ===== verification/Directory_Properties.thy ===== *)
theory Directory_Properties
  imports Directory File_Errors
begin

text \<open>
  A directory is a map from names to sectors: what \<open>dir_find\<close> returns and what \<open>dir_add\<close> changes, with
  entries that may lie across two sectors and a file that grows.
\<close>

declare neq0_conv [iff del] bot_nat_0.not_eq_extremum [simp del]

section \<open>The entries of a directory\<close>

definition slot_of :: "u8 list \<Rightarrow> nat \<Rightarrow> u8 list" where
  "slot_of bs k = take 24 (drop (24 * k) bs)"

definition entries :: "u8 list \<Rightarrow> u8 list list" where
  "entries bs = map (slot_of bs) [0..<length bs div 24]"

definition hit :: "u8 list \<Rightarrow> u8 list \<Rightarrow> bool" where
  "hit name e \<longleftrightarrow> e_in_use e \<and> name = e_name e"

definition dir_map :: "u8 list \<Rightarrow> u8 list \<rightharpoonup> u32 \<times> bool" where
  "dir_map bs name = map_option (\<lambda>e. (e_inode_sector e, e_is_dir e)) (find (hit name) (entries bs))"

lemma length_entry: "k < length bs div 24 \<Longrightarrow> length (slot_of bs k) = 24"
proof -
  assume "k < length bs div 24"
  then have "24 * Suc k \<le> length bs" using less_eq_div_iff_mult_less_eq [of 24 "Suc k" "length bs"] by (simp add: mult.commute Suc_le_eq)
  then show ?thesis by (simp add: slot_of_def)
qed

lemma entry_end: "24 dvd length bs \<Longrightarrow> length bs div 24 \<le> k \<Longrightarrow> slot_of bs k = []"
  by (auto simp: slot_of_def)

text \<open>Replacing a slot, and adding one at the end.\<close>

lemma entries_write:
  assumes "k < length bs div 24" "length e = 24"
  shows "entries (overwrite bs (24 * k) e) = (entries bs)[k := e]"
proof (rule nth_equalityI)
  have k: "24 * Suc k \<le> length bs"
    using assms(1) less_eq_div_iff_mult_less_eq [of 24 "Suc k" "length bs"] by (simp add: mult.commute Suc_le_eq)
  then have l: "length (overwrite bs (24 * k) e) = length bs" using assms(2) by simp
  show "length (entries (overwrite bs (24 * k) e)) = length ((entries bs)[k := e])" by (simp add: entries_def l)
  fix i assume "i < length (entries (overwrite bs (24 * k) e))"
  then have i: "i < length bs div 24" by (simp add: entries_def l)
  then have i24: "24 * Suc i \<le> length bs"
    using less_eq_div_iff_mult_less_eq [of 24 "Suc i" "length bs"] by (simp add: mult.commute Suc_le_eq)
  have "slot_of (overwrite bs (24 * k) e) i = (if i = k then e else slot_of bs i)"
  proof (rule nth_equalityI)
    show "length (slot_of (overwrite bs (24 * k) e) i) = length (if i = k then e else slot_of bs i)"
      using length_entry [of i "overwrite bs (24 * k) e"] length_entry [OF i] i assms(2) by (simp add: l)
    fix j assume "j < length (slot_of (overwrite bs (24 * k) e) i)"
    then have j: "j < 24" by (simp add: slot_of_def)
    have n: "overwrite bs (24 * k) e ! (24 * i + j) = (if 24 * k \<le> 24 * i + j \<and> 24 * i + j < 24 * k + length e then e ! (24 * i + j - 24 * k) else bs ! (24 * i + j))"
      by (rule nth_overwrite) (use k i24 j assms(2) in simp_all)
    have "24 * k \<le> 24 * i + j \<and> 24 * i + j < 24 * k + 24 \<longleftrightarrow> i = k" using j by auto
    then show "slot_of (overwrite bs (24 * k) e) i ! j = (if i = k then e else slot_of bs i) ! j"
      using j n i24 assms(2) by (simp add: slot_of_def l)
  qed
  then show "entries (overwrite bs (24 * k) e) ! i = (entries bs)[k := e] ! i"
    using i by (simp add: entries_def l nth_list_update)
qed

lemma entries_append:
  assumes "24 dvd length bs" "length e = 24"
  shows "entries (bs @ e) = entries bs @ [e]"
proof -
  obtain n where n: "length bs = 24 * n" using assms(1) by blast
  have "slot_of (bs @ e) k = slot_of bs k" if "k < n" for k using that n by (simp add: slot_of_def)
  moreover have "slot_of (bs @ e) n = e" using n assms(2) by (simp add: slot_of_def)
  ultimately show ?thesis using n assms(2) by (simp add: entries_def)
qed

text \<open>An entry that is not in use gives way to a new one.\<close>

lemma find_append: "find P (xs @ ys) = (case find P xs of None \<Rightarrow> find P ys | Some x \<Rightarrow> Some x)"
  by (induction xs) auto

lemma dir_map_set:
  assumes ent: "entries bs = xs @ old @ ys" "entries bs' = xs @ e # ys" and old: "\<forall>x\<in>set old. \<not> e_in_use x"
    and new: "e_in_use e" "e_name e = name" and none: "dir_map bs name = None"
  shows "dir_map bs' = (dir_map bs)(name \<mapsto> (e_inode_sector e, e_is_dir e))"
proof
  fix n
  have fo: "find (hit n) old = None" using old by (auto simp: find_None_iff hit_def)
  have he: "hit n e \<longleftrightarrow> n = name" using new by (auto simp: hit_def)
  have no: "find (hit name) xs = None" "find (hit name) ys = None"
    using none ent(1) by (auto simp: dir_map_def find_None_iff)
  show "dir_map bs' n = ((dir_map bs)(name \<mapsto> (e_inode_sector e, e_is_dir e))) n"
    using fo he no by (auto simp: dir_map_def ent find_append split: option.splits)
qed

lemma fill_entry_ok:
  assumes "length e = 24" "0 < length name" "length name \<le> 14" "0 \<notin> set name"
  shows "length (fill_entry e name sector is_dir) = 24" "e_in_use (fill_entry e name sector is_dir)"
    "e_name (fill_entry e name sector is_dir) = name" "e_inode_sector (fill_entry e name sector is_dir) = sector"
    "e_is_dir (fill_entry e name sector is_dir) = is_dir"
proof -
  let ?f = "fill_entry e name sector is_dir"
  define tl where "tl = (drop (5 + length name) (e[19 := 1]))[15 - length name := of_bool is_dir :: u8]"
  have n: "take 14 name = name" using assms(3) by simp
  have s: "16 - length name = Suc (15 - length name)" using assms(3) by simp
  have f: "?f = word_bytes sector @ name @ [0] @ tl"
    using assms(1,3) n by (auto simp: fill_entry_def strlcpy_to_def NAME_MAX_def overwrite_def tl_def list_update_append s)
  have lt: "length tl = 19 - length name" using assms(1,3) by (simp add: tl_def)
  then show "length ?f = 24" using assms(3) by (simp add: f)
  have "tl ! (14 - length name) = 1" "tl ! (15 - length name) = of_bool is_dir" using assms(1,3) by (simp_all add: tl_def)
  moreover have "?f ! 19 = tl ! (14 - length name)" "?f ! 20 = tl ! (15 - length name)" using assms(3) by (simp_all add: f nth_append)
  ultimately show "e_in_use ?f" "e_is_dir ?f = is_dir" by (simp_all add: e_in_use_def e_is_dir_def)
  have "takeWhile (\<lambda>c. c \<noteq> 0) (name @ [0] @ tl) = name" using assms(4) by (subst takeWhile_append2) auto
  then show "e_name ?f = name" by (simp add: e_name_def f)
  show "e_inode_sector ?f = sector" by (simp add: e_inode_sector_def f)
qed

section \<open>Reading entries\<close>

text \<open>
  An open directory: its file is at rest and has whole entries only, in direct blocks, with room in
  them for the one behind the last.
\<close>

definition dir_at_rest :: "filesys \<Rightarrow> addr \<Rightarrow> u32 \<Rightarrow> bool" where
  "dir_at_rest st d s \<longleftrightarrow> d \<noteq> 0 \<and> (\<exists>x nd. dirs st d = Some x \<and> inodes (files st) (d_inode x) = Some nd \<and> i_sector nd = s \<and>
     deny_write_cnt nd = 0 \<and> \<not> extension_lock nd \<and> d_inode x \<notin> map_nodes (files st)) \<and>
     file_at_rest (files st) s \<and> 24 dvd flen (cview (cache (files st))) s \<and> flen (cview (cache (files st))) s + 24 \<le> 30720"

abbreviation dir_bytes :: "filesys \<Rightarrow> u32 \<Rightarrow> u8 list" where
  "dir_bytes st s \<equiv> content (cview (cache (files st))) s"

lemma read_entry_ok:
  assumes f: "file_at_rest (files st) s" and a: "inodes (files st) a = Some nd" "i_sector nd = s"
    and len: "24 dvd flen (cview (cache (files st))) s" "flen (cview (cache (files st))) s + 24 \<le> 30720"
    and k: "24 * k \<le> flen (cview (cache (files st))) s"
  obtains c where "read_entry a (int (24 * k)) st = Inr (st\<lparr>files := (files st)\<lparr>cache := c\<rparr>\<rparr>, slot_of (dir_bytes st s) k)"
    "moved (sectors (cview (cache (files st))) s (flen (cview (cache (files st))) s)) (cache (files st)) c (cview (cache (files st))) (locks (cache (files st)))"
proof -
  let ?c = "cache (files st)" and ?v = "cview (cache (files st))"
  let ?N = "flen ?v s"
  have u: "usable ?c s ?N" and dl: "0 \<le> disk_length (?v s)" using f by (simp_all add: file_at_rest_def)
  have "max (24 * k) ?N = ?N" using k by simp
  moreover have "?N div 512 < 60" using len(2) by (intro less_mult_imp_div_less) simp
  moreover have "s \<in> sectors ?v s ?N" by (simp add: sectors_def)
  ultimately have e: "end_ok (sectors ?v s ?N) ?c s (nat (int (24 * k))) (nat 24)"
    using usableD(6) [OF u, of s] by (auto simp: end_ok_def Let_def MAX_BLOCKS_def path_def)
  obtain c where r: "inode_read_at nd 24 (int (24 * k)) ?c = Inr (c, take (nat 24) (drop (nat (int (24 * k))) (content ?v s)))"
      "moved (sectors ?v s ?N) ?c c ?v (locks ?c)"
    by (rule inode_read_at_ok [OF u dl a(2) _ _ e order_refl]) simp_all
  have "nat (24 * int k) = 24 * k" by simp
  with r show ?thesis
    using that [of c] a(1) by (simp add: read_entry_def with_files_def ino_def with_cache_def ENTRY_SIZE_def slot_of_def)
qed

text \<open>Reading keeps everything.\<close>

definition kept :: "filesys \<Rightarrow> u32 \<Rightarrow> filesys \<Rightarrow> bool" where
  "kept st s st' \<longleftrightarrow> (\<exists>c. st' = st\<lparr>files := (files st)\<lparr>cache := c\<rparr>\<rparr> \<and>
     moved (sectors (cview (cache (files st))) s (flen (cview (cache (files st))) s)) (cache (files st)) c (cview (cache (files st))) (locks (cache (files st))))"

lemma keptD:
  assumes "kept st s st'"
  shows "cview (cache (files st')) = cview (cache (files st))" "locks (cache (files st')) = locks (cache (files st))"
    "inodes (files st') = inodes (files st)" "dirs st' = dirs st" "file_at_rest (files st) s \<Longrightarrow> file_at_rest (files st') s"
    "file_at_rest (files st) s \<Longrightarrow> map_nodes (files st') = map_nodes (files st)"
    "file_at_rest (files st) s \<Longrightarrow> map_room (files st') = map_room (files st)" "file_at_rest (files st) s \<Longrightarrow> map_own (files st') = map_own (files st)"
    "dir_at_rest st d s \<Longrightarrow> dir_at_rest st' d s"
proof -
  obtain c where c: "st' = st\<lparr>files := (files st)\<lparr>cache := c\<rparr>\<rparr>"
    "moved (sectors (cview (cache (files st))) s (flen (cview (cache (files st))) s)) (cache (files st)) c (cview (cache (files st))) (locks (cache (files st)))"
    using assms by (auto simp: kept_def)
  show v: "cview (cache (files st')) = cview (cache (files st))" "locks (cache (files st')) = locks (cache (files st))"
    "inodes (files st') = inodes (files st)" "dirs st' = dirs st" using movedD(2,3) [OF c(2)] c(1) by simp_all
  show r: "file_at_rest (files st) s \<Longrightarrow> file_at_rest (files st') s" "file_at_rest (files st) s \<Longrightarrow> map_nodes (files st') = map_nodes (files st)"
    "file_at_rest (files st) s \<Longrightarrow> map_room (files st') = map_room (files st)" "file_at_rest (files st) s \<Longrightarrow> map_own (files st') = map_own (files st)"
    using rest_kept [OF _ c(2) refl] by (simp_all add: c(1))
  show "dir_at_rest st d s \<Longrightarrow> dir_at_rest st' d s" using r(1,2) by (simp add: dir_at_rest_def v)
qed

lemma kept_refl: "file_at_rest (files st) s \<Longrightarrow> kept st s st"
  unfolding kept_def using moved_refl [of "cache (files st)"]
  by (intro exI [of _ "cache (files st)"]) (simp add: file_at_rest_def usable_def)

lemma kept_trans: "kept st s st1 \<Longrightarrow> kept st1 s st2 \<Longrightarrow> kept st s st2"
proof -
  assume a: "kept st s st1" "kept st1 s st2"
  note d = keptD [OF a(1)]
  let ?T = "sectors (cview (cache (files st))) s (flen (cview (cache (files st))) s)"
  obtain c1 where c1: "st1 = st\<lparr>files := (files st)\<lparr>cache := c1\<rparr>\<rparr>"
    "moved ?T (cache (files st)) c1 (cview (cache (files st))) (locks (cache (files st)))" using a(1) by (auto simp: kept_def)
  obtain c2 where c2: "st2 = st1\<lparr>files := (files st1)\<lparr>cache := c2\<rparr>\<rparr>"
    "moved ?T (cache (files st1)) c2 (cview (cache (files st))) (locks (cache (files st)))" using a(2) unfolding kept_def d by blast
  have "moved ?T (cache (files st)) c2 (cview (cache (files st))) (locks (cache (files st)))"
    by (rule moved_trans [OF c1(2)]) (use c1(1) c2(2) in simp_all)
  then show ?thesis unfolding kept_def using c1(1) c2(1) by (intro exI [of _ c2]) simp
qed

definition found :: "u8 list \<Rightarrow> u8 list \<Rightarrow> nat \<Rightarrow> (u8 list \<times> int) option \<Rightarrow> bool" where
  "found name bs k r \<longleftrightarrow> (case r of
     None \<Rightarrow> \<forall>j. k \<le> j \<longrightarrow> j < length bs div 24 \<longrightarrow> \<not> hit name (slot_of bs j)
   | Some (e, ofs) \<Rightarrow> \<exists>j. k \<le> j \<and> j < length bs div 24 \<and> e = slot_of bs j \<and> ofs = int (24 * j) \<and> hit name e \<and>
       (\<forall>i. k \<le> i \<longrightarrow> i < j \<longrightarrow> \<not> hit name (slot_of bs i)))"

lemma lookup_loop_ok:
  assumes "file_at_rest (files st) s" "inodes (files st) a = Some nd" "i_sector nd = s"
    and "24 dvd flen (cview (cache (files st))) s" "flen (cview (cache (files st))) s + 24 \<le> 30720"
    and "24 * k \<le> flen (cview (cache (files st))) s" "flen (cview (cache (files st))) s div 24 < n + k"
  shows "\<exists>st' r. lookup_loop n a name (int (24 * k)) st = Inr (st', r) \<and> kept st s st' \<and> found name (dir_bytes st s) k r"
  using assms
proof (induction n arbitrary: st k)
  case 0
  then show ?case using div_le_mono [of "24 * k" "flen (cview (cache (files st))) s" 24] by simp
next
  case (Suc n)
  let ?v = "cview (cache (files st))" and ?bs = "dir_bytes st s"
  let ?N = "flen ?v s"
  obtain c where r: "read_entry a (int (24 * k)) st = Inr (st\<lparr>files := (files st)\<lparr>cache := c\<rparr>\<rparr>, slot_of ?bs k)"
    "moved (sectors ?v s ?N) (cache (files st)) c ?v (locks (cache (files st)))"
    by (rule read_entry_ok [OF Suc.prems(1-6)])
  let ?st = "st\<lparr>files := (files st)\<lparr>cache := c\<rparr>\<rparr>"
  have kp: "kept st s ?st" unfolding kept_def using r(2) by blast
  note d = keptD [OF kp]
  show ?case
  proof (cases "24 * k < ?N")
    case True
    then have k: "k < ?N div 24" "24 * Suc k \<le> ?N" using Suc.prems(4) by auto
    have l: "length (slot_of ?bs k) = 24" using length_entry [of k ?bs] k(1) by simp
    show ?thesis
    proof (cases "hit name (slot_of ?bs k)")
      case True
      then have "lookup_loop (Suc n) a name (int (24 * k)) st = Inr (?st, Some (slot_of ?bs k, int (24 * k)))"
        using r(1) l by (simp add: ENTRY_SIZE_def hit_def)
      moreover have "found name ?bs k (Some (slot_of ?bs k, int (24 * k)))" using True k by (auto simp: found_def)
      ultimately show ?thesis using kp by blast
    next
      case False
      have o: "int (24 * k) + int ENTRY_SIZE = int (24 * Suc k)" by (simp add: ENTRY_SIZE_def)
      have "\<exists>st' r. lookup_loop n a name (int (24 * Suc k)) ?st = Inr (st', r) \<and> kept ?st s st' \<and> found name (dir_bytes ?st s) (Suc k) r"
        by (rule Suc.IH [OF d(5) [OF Suc.prems(1)] _ Suc.prems(3)]) (use Suc.prems k d in simp_all)
      then obtain st' q where q: "lookup_loop n a name (int (24 * Suc k)) ?st = Inr (st', q)" "kept ?st s st'" "found name ?bs (Suc k) q"
        unfolding d(1) by blast
      have "lookup_loop (Suc n) a name (int (24 * k)) st = Inr (st', q)"
        using r(1) l False q(1) unfolding lookup_loop.simps o by (auto simp: ENTRY_SIZE_def hit_def)
      moreover have "found name ?bs k q"
      proof -
        have "\<not> hit name (slot_of ?bs i)" if "k \<le> i" "Suc k \<le> i \<longrightarrow> \<not> hit name (slot_of ?bs i)" for i
          using that False by (cases "i = k") auto
        then show ?thesis using q(3) unfolding found_def by (auto split: option.splits) (meson Suc_leD)
      qed
      ultimately show ?thesis using kept_trans [OF kp q(2)] by blast
    qed
  next
    case False
    then have "?N div 24 \<le> k" using Suc.prems(4,6) by auto
    then have e: "slot_of ?bs k = []" and f: "found name ?bs k None" using entry_end [of ?bs k] Suc.prems(4) by (simp_all add: found_def)
    have "lookup_loop (Suc n) a name (int (24 * k)) st = Inr (?st, None)" using r(1) e by (simp add: ENTRY_SIZE_def)
    then show ?thesis using kp f by blast
  qed
qed

lemma find_first:
  assumes "k < length xs" "P (xs ! k)" "\<forall>i<k. \<not> P (xs ! i)"
  shows "find P xs = Some (xs ! k)"
  using assms by (auto simp: find_Some_iff)

lemma found_map:
  assumes "found name bs 0 r"
  shows "dir_map bs name = map_option (\<lambda>(e, _). (e_inode_sector e, e_is_dir e)) r" "r = None \<longleftrightarrow> dir_map bs name = None"
proof -
  show e: "dir_map bs name = map_option (\<lambda>(e, _). (e_inode_sector e, e_is_dir e)) r"
  proof (cases r)
    case None
    then have "find (hit name) (entries bs) = None" using assms by (auto simp: found_def find_None_iff entries_def)
    then show ?thesis by (simp add: dir_map_def None)
  next
    case (Some p)
    then obtain j where j: "j < length bs div 24" "fst p = slot_of bs j" "hit name (slot_of bs j)" "\<forall>i<j. \<not> hit name (slot_of bs i)"
      using assms by (cases p) (auto simp: found_def)
    then have "find (hit name) (entries bs) = Some (entries bs ! j)" by (intro find_first) (auto simp: entries_def)
    then show ?thesis using j(1,2) by (simp add: dir_map_def Some entries_def case_prod_beta)
  qed
  show "r = None \<longleftrightarrow> dir_map bs name = None" by (simp add: e)
qed

lemma dir_find_ok:
  assumes "dir_at_rest st d s"
  obtains st' r where "dir_find d name st = Inr (st', r)" "kept st s st'" "found name (dir_bytes st s) 0 r"
proof -
  obtain x nd where x: "dirs st d = Some x" "inodes (files st) (d_inode x) = Some nd" "i_sector nd = s"
    and r: "file_at_rest (files st) s" "24 dvd flen (cview (cache (files st))) s" "flen (cview (cache (files st))) s + 24 \<le> 30720" "d \<noteq> 0"
    using assms unfolding dir_at_rest_def by blast
  have "flen (cview (cache (files st))) s div 24 \<le> 30720 div 24" using r(3) by (intro div_le_mono) simp
  then have "flen (cview (cache (files st))) s div 24 < MAX_ENTRIES + 0" by (simp add: MAX_ENTRIES_def)
  from lookup_loop_ok [OF r(1) x(2,3) r(2,3) _ this, of name] show ?thesis
    using that x(1) r(4) by (auto simp: dir_find_def get_dir_def ASSERT_def)
qed

section \<open>Adding entries\<close>

text \<open>The first slot that is not in use, or the end.\<close>

definition free_slot :: "u8 list \<Rightarrow> nat \<Rightarrow> nat \<Rightarrow> bool" where
  "free_slot bs k j \<longleftrightarrow> k \<le> j \<and> j \<le> length bs div 24 \<and> (j < length bs div 24 \<longrightarrow> \<not> e_in_use (slot_of bs j))"

lemma slot_loop_ok:
  assumes "file_at_rest (files st) s" "inodes (files st) a = Some nd" "i_sector nd = s"
    and "24 dvd flen (cview (cache (files st))) s" "flen (cview (cache (files st))) s + 24 \<le> 30720"
    and "24 * k \<le> flen (cview (cache (files st))) s" "flen (cview (cache (files st))) s div 24 < n + k" "length e = 24"
  shows "\<exists>st' e' j. slot_loop n a e (int (24 * k)) st = Inr (st', e', int (24 * j)) \<and> kept st s st' \<and> length e' = 24 \<and>
     free_slot (dir_bytes st s) k j"
  using assms
proof (induction n arbitrary: st k e)
  case 0
  then show ?case using div_le_mono [of "24 * k" "flen (cview (cache (files st))) s" 24] by simp
next
  case (Suc n)
  let ?v = "cview (cache (files st))" and ?bs = "dir_bytes st s"
  let ?N = "flen ?v s"
  obtain c where r: "read_entry a (int (24 * k)) st = Inr (st\<lparr>files := (files st)\<lparr>cache := c\<rparr>\<rparr>, slot_of ?bs k)"
    "moved (sectors ?v s ?N) (cache (files st)) c ?v (locks (cache (files st)))"
    by (rule read_entry_ok [OF Suc.prems(1-6)])
  let ?st = "st\<lparr>files := (files st)\<lparr>cache := c\<rparr>\<rparr>"
  have kp: "kept st s ?st" unfolding kept_def using r(2) by blast
  note d = keptD [OF kp]
  show ?case
  proof (cases "24 * k < ?N")
    case True
    then have k: "k < ?N div 24" "24 * Suc k \<le> ?N" using Suc.prems(4) by auto
    have l: "length (slot_of ?bs k) = 24" using length_entry [of k ?bs] k(1) by simp
    have ov: "overwrite e 0 (slot_of ?bs k) = slot_of ?bs k" using l Suc.prems(8) by (simp add: overwrite_def)
    show ?thesis
    proof (cases "e_in_use (slot_of ?bs k)")
      case False
      then have "slot_loop (Suc n) a e (int (24 * k)) st = Inr (?st, slot_of ?bs k, int (24 * k))"
        using r(1) l by (simp add: ENTRY_SIZE_def ov)
      moreover have "free_slot ?bs k k" using False k by (simp add: free_slot_def)
      ultimately show ?thesis using kp l by blast
    next
      case True
      have o: "int (24 * k) + int ENTRY_SIZE = int (24 * Suc k)" by (simp add: ENTRY_SIZE_def)
      have "\<exists>st' e' j. slot_loop n a (slot_of ?bs k) (int (24 * Suc k)) ?st = Inr (st', e', int (24 * j)) \<and> kept ?st s st' \<and>
          length e' = 24 \<and> free_slot (dir_bytes ?st s) (Suc k) j"
        by (rule Suc.IH [OF d(5) [OF Suc.prems(1)] _ Suc.prems(3)]) (use Suc.prems k d l in simp_all)
      then obtain st' e' j where q: "slot_loop n a (slot_of ?bs k) (int (24 * Suc k)) ?st = Inr (st', e', int (24 * j))" "kept ?st s st'"
          "length e' = 24" "free_slot ?bs (Suc k) j"
        unfolding d(1) by blast
      have "slot_loop (Suc n) a e (int (24 * k)) st = Inr (st', e', int (24 * j))"
        using r(1) l True q(1) unfolding slot_loop.simps o by (simp add: ENTRY_SIZE_def ov)
      moreover have "free_slot ?bs k j" using q(4) by (simp add: free_slot_def)
      ultimately show ?thesis using kept_trans [OF kp q(2)] q(3) by blast
    qed
  next
    case False
    then have "?N div 24 \<le> k" "k \<le> ?N div 24" using Suc.prems(4,6) by auto
    then have e: "slot_of ?bs k = []" and f: "free_slot ?bs k k" using entry_end [of ?bs k] Suc.prems(4) by (simp_all add: free_slot_def)
    have "slot_loop (Suc n) a e (int (24 * k)) st = Inr (?st, e, int (24 * k))" using r(1) e by (simp add: ENTRY_SIZE_def overwrite_def)
    then show ?thesis using kp f Suc.prems(8) by blast
  qed
qed

text \<open>Other files: those that share no sector with the directory and the free map.\<close>

definition others_kept :: "filesys \<Rightarrow> u32 \<Rightarrow> filesys \<Rightarrow> bool" where
  "others_kept st s st' \<longleftrightarrow> (\<forall>s'. sectors (cview (cache (files st))) s' (flen (cview (cache (files st))) s') \<inter>
       (map_own (files st) \<union> map_room (files st) \<union> sectors (cview (cache (files st))) s (flen (cview (cache (files st))) s)) = {} \<longrightarrow>
     dir_bytes st' s' = dir_bytes st s')"

definition put_slot :: "nat \<Rightarrow> u8 list \<Rightarrow> u8 list list \<Rightarrow> u8 list list" where
  "put_slot j e es = (if j < length es then es[j := e] else es @ [e])"

lemma write_slot_inside:
  assumes r: "file_at_rest (files st) s" "inodes (files st) a = Some nd" "i_sector nd = s" "deny_write_cnt nd = 0" "\<not> extension_lock nd"
    and j: "j < flen (cview (cache (files st))) s div 24" and e: "length e = 24"
  shows "\<exists>st'. with_files (inode_write_at ALLOC a e 24 (int (24 * j))) st = Inr (st', 24) \<and> file_at_rest (files st') s \<and>
     flen (cview (cache (files st'))) s = flen (cview (cache (files st))) s \<and>
     entries (dir_bytes st' s) = put_slot j e (entries (dir_bytes st s)) \<and> others_kept st s st' \<and> dirs st' = dirs st \<and>
     inodes (files st') = inodes (files st) \<and> map_nodes (files st') = map_nodes (files st) \<and> locks (cache (files st')) = locks (cache (files st))"
proof -
  let ?v = "cview (cache (files st))"
  let ?N = "flen ?v s"
  have "24 * Suc j \<le> ?N"
    using j less_eq_div_iff_mult_less_eq [of 24 "Suc j" ?N] by (simp add: mult.commute Suc_le_eq)
  then have off: "0 \<le> int (24 * j)" "0 \<le> (24 :: int)" "nat (int (24 * j)) + nat 24 \<le> ?N" "nat 24 \<le> length e" using e by simp_all
  obtain c v where w: "inode_write_at ALLOC a e 24 (int (24 * j)) (files st) = Inr ((files st)\<lparr>cache := c\<rparr>, 24)"
    "moved (sectors ?v s ?N) (cache (files st)) c v (locks (cache (files st)))" "flen v s = ?N"
    "content v s = overwrite (content ?v s) (nat (int (24 * j))) (take (nat 24) e)"
    "v s = ?v s" "\<forall>t. t \<notin> data_blocks ?v s ?N \<longrightarrow> v t = ?v t"
    by (rule write_in_place_moved [OF at_rest_in_place [OF r(1)] r(2-5) off])
  note k = rest_kept [OF r(1) w(2,5,6)] and m = movedD [OF w(2)]
  have "content v s' = content ?v s'" if "sectors ?v s' (flen ?v s') \<inter> sectors ?v s ?N = {}" for s'
    using that w(6) data_in_sectors [of ?v s ?N] by (intro content_cong(1)) blast
  then have "others_kept st s (st\<lparr>files := (files st)\<lparr>cache := c\<rparr>\<rparr>)" using m(2) by (simp add: others_kept_def Int_Un_distrib)
  moreover have "content v s = overwrite (content ?v s) (24 * j) e" using w(4) e by (simp only: nat_int) simp
  then have "entries (content v s) = put_slot j e (entries (content ?v s))"
    using entries_write [of j "content ?v s" e] j e by (simp add: put_slot_def entries_def)
  ultimately show ?thesis
    using w(1,3) k(1,4) m(2,3) by (intro exI [of _ "st\<lparr>files := (files st)\<lparr>cache := c\<rparr>\<rparr>"]) (simp add: with_files_def)
qed

lemma write_slot_end:
  assumes r: "file_at_rest (files st) s" "inodes (files st) a = Some nd" "i_sector nd = s" "deny_write_cnt nd = 0" "\<not> extension_lock nd"
      "a \<notin> map_nodes (files st)"
    and len: "24 dvd flen (cview (cache (files st))) s" "flen (cview (cache (files st))) s + 24 \<le> 30720"
    and room: "2 \<le> card (map_room (files st))" and j: "24 * j = flen (cview (cache (files st))) s" and e: "length e = 24"
  shows "\<exists>st'. with_files (inode_write_at ALLOC a e 24 (int (24 * j))) st = Inr (st', 24) \<and> file_at_rest (files st') s \<and>
     flen (cview (cache (files st'))) s = flen (cview (cache (files st))) s + 24 \<and>
     entries (dir_bytes st' s) = put_slot j e (entries (dir_bytes st s)) \<and> others_kept st s st' \<and> dirs st' = dirs st \<and>
     inodes (files st') = inodes (files st) \<and> map_nodes (files st') = map_nodes (files st) \<and> locks (cache (files st')) = locks (cache (files st))"
proof -
  let ?v = "cview (cache (files st))"
  let ?N = "flen ?v s"
  let ?n = "(?N + 511) div 512" and ?n' = "(?N + 24 + 511) div 512"
  have nn: "?n' \<le> Suc ?n"
  proof -
    have "?n' \<le> (?N + 511 + 512) div 512" by (intro div_le_mono) simp
    then show ?thesis by simp
  qed
  have "?n' \<le> (30720 + 511) div 512" using len(2) by (intro div_le_mono) simp
  then have lim: "?n' \<le> SINGLE_LIMIT" by (simp add: SINGLE_LIMIT_def)
  have "\<exists>st' A. inode_write_at (allocate_sector (Suc 1)) a e 24 (int (24 * j)) (files st) = Inr (st', 24) \<and> file_at_rest st' s \<and>
     flen (cview (cache st')) s = ?N + 24 \<and>
     content (cview (cache st')) s =
       overwrite (take (?N + 24) (bytes ?v s (?n * 512) @ concat (replicate (?n' - ?n) zeros))) (nat (int (24 * j))) (take (nat 24) e) \<and>
     (zero_tail ?v s \<longrightarrow> content (cview (cache st')) s = overwrite (content ?v s @ replicate (?N + 24 - ?N) 0) (nat (int (24 * j))) (take (nat 24) e) \<and>
       zero_tail (cview (cache st')) s) \<and>
     A \<subseteq> map_room (files st) \<and> map_room st' = map_room (files st) - A \<and> card A \<le> 2 * (?n' - ?n) \<and>
     (\<forall>s'. sectors ?v s' (flen ?v s') \<inter> (map_own (files st) \<union> sectors ?v s ?N \<union> A) = {} \<longrightarrow> content (cview (cache st')) s' = content ?v s') \<and>
     locks (cache st') = locks (cache (files st)) \<and> inodes st' = inodes (files st) \<and> map_nodes st' = map_nodes (files st)"
    by (rule write_grows [OF r(1-6)]) (use lim nn room j e in \<open>simp_all\<close>)
  then obtain f A where w: "inode_write_at ALLOC a e 24 (int (24 * j)) (files st) = Inr (f, 24)" "file_at_rest f s" "flen (cview (cache f)) s = ?N + 24"
     "content (cview (cache f)) s = overwrite (take (?N + 24) (bytes ?v s (?n * 512) @ concat (replicate (?n' - ?n) zeros))) (nat (int (24 * j))) (take (nat 24) e)"
     "A \<subseteq> map_room (files st)" "\<forall>s'. sectors ?v s' (flen ?v s') \<inter> (map_own (files st) \<union> sectors ?v s ?N \<union> A) = {} \<longrightarrow> content (cview (cache f)) s' = content ?v s'"
     "locks (cache f) = locks (cache (files st))" "inodes f = inodes (files st)"
     "map_nodes f = map_nodes (files st)"
    unfolding ALLOC_def by (auto simp: numeral_2_eq_2)
  have ge: "?N \<le> ?n * 512" using round_up_ge [of ?N] by (simp add: round_up_def)
  have "content (cview (cache f)) s = content ?v s @ e"
  proof -
    define X where "X = bytes ?v s (?n * 512) @ concat (replicate (?n' - ?n) zeros)"
    have t: "take ?N X = content ?v s" using ge bytes_take [OF ge, of ?v s] by (simp add: content_def X_def)
    have "content (cview (cache f)) s = overwrite (take (?N + 24) X) ?N e" using w(4) e by (simp only: X_def nat_int j) simp
    then show ?thesis using t e by (simp add: overwrite_def)
  qed
  then have "entries (content (cview (cache f)) s) = put_slot j e (entries (content ?v s))"
    using entries_append [of "content ?v s" e] len(1) e j by (simp add: put_slot_def entries_def)
  moreover have "others_kept st s (st\<lparr>files := f\<rparr>)" unfolding others_kept_def
  proof (intro allI impI)
    fix s' assume "sectors ?v s' (flen ?v s') \<inter> (map_own (files st) \<union> map_room (files st) \<union> sectors ?v s ?N) = {}"
    then have "sectors ?v s' (flen ?v s') \<inter> (map_own (files st) \<union> sectors ?v s ?N \<union> A) = {}" using w(5) by blast
    then show "dir_bytes (st\<lparr>files := f\<rparr>) s' = content ?v s'" using w(6) by simp
  qed
  ultimately show ?thesis
    using w by (intro exI [of _ "st\<lparr>files := f\<rparr>"]) (simp add: with_files_def)
qed

lemma put_slot_map:
  assumes "free_slot bs 0 j" "24 dvd length bs" "entries bs' = put_slot j e (entries bs)" "e_in_use e" "e_name e = name" "dir_map bs name = None"
  shows "dir_map bs' = (dir_map bs)(name \<mapsto> (e_inode_sector e, e_is_dir e))"
proof (cases "j < length bs div 24")
  case True
  have l: "length (entries bs) = length bs div 24" by (simp add: entries_def)
  have "entries bs = take j (entries bs) @ [entries bs ! j] @ drop (Suc j) (entries bs)" using True l by (simp add: id_take_nth_drop)
  moreover have "entries bs' = take j (entries bs) @ e # drop (Suc j) (entries bs)"
    using assms(3) True l by (simp add: put_slot_def upd_conv_take_nth_drop)
  moreover have "\<not> e_in_use (entries bs ! j)" using assms(1) True by (simp add: free_slot_def entries_def)
  ultimately show ?thesis using assms(4-6) by (intro dir_map_set [where old = "[entries bs ! j]"]) auto
next
  case False
  then have "entries bs' = entries bs @ [e]" using assms(3) by (simp add: put_slot_def entries_def)
  then show ?thesis using assms(4-6) by (intro dir_map_set [where old = "[]" and xs = "entries bs" and ys = "[]"]) auto
qed

lemma dir_add_ok:
  assumes r: "dir_at_rest st d s" and room: "2 \<le> card (map_room (files st))" and len: "flen (cview (cache (files st))) s + 48 \<le> 30720"
    and g: "length garbage = 24" and name: "0 < length name" "length name \<le> 14" "0 \<notin> set name"
  shows "\<exists>st'. dir_add garbage d name sector is_dir st = Inr (st', dir_map (dir_bytes st s) name = None) \<and> dir_at_rest st' d s \<and> others_kept st s st' \<and>
     dir_map (dir_bytes st' s) = (if dir_map (dir_bytes st s) name = None then (dir_map (dir_bytes st s))(name \<mapsto> (sector, is_dir))
       else dir_map (dir_bytes st s))"
proof -
  obtain st1 q where f: "dir_find d name st = Inr (st1, q)" "kept st s st1" "found name (dir_bytes st s) 0 q" by (rule dir_find_ok [OF r])
  note k1 = keptD [OF f(2)]
  have d: "d \<noteq> 0" using r by (simp add: dir_at_rest_def)
  show ?thesis
  proof (cases "q = None")
    case False
    then have m: "dir_map (dir_bytes st s) name \<noteq> None" using found_map(2) [OF f(3)] by simp
    have "dir_add garbage d name sector is_dir st = Inr (st1, False)" using f(1) False d name by (simp add: dir_add_def ASSERT_def NAME_MAX_def)
    moreover have "others_kept st s st1" unfolding others_kept_def k1 by simp
    ultimately show ?thesis using m k1(1) k1(9) [OF r] by (intro exI [of _ st1]) auto
  next
    case True
    then have none: "dir_map (dir_bytes st s) name = None" using found_map(2) [OF f(3)] by simp
    have r1: "dir_at_rest st1 d s" by (rule k1(9) [OF r])
    obtain x nd where x: "dirs st1 d = Some x" "inodes (files st1) (d_inode x) = Some nd" "i_sector nd = s" "deny_write_cnt nd = 0"
        "\<not> extension_lock nd" "d_inode x \<notin> map_nodes (files st1)"
      and rr: "file_at_rest (files st1) s" "24 dvd flen (cview (cache (files st1))) s" "flen (cview (cache (files st1))) s + 24 \<le> 30720"
      using r1 unfolding dir_at_rest_def by blast
    have "flen (cview (cache (files st1))) s div 24 \<le> 30720 div 24" using rr(3) by (intro div_le_mono) simp
    then have n: "flen (cview (cache (files st1))) s div 24 < MAX_ENTRIES + 0" by (simp add: MAX_ENTRIES_def)
    from slot_loop_ok [OF rr(1) x(2,3) rr(2,3) _ n g] obtain st2 e j where
      sl: "slot_loop MAX_ENTRIES (d_inode x) garbage 0 st1 = Inr (st2, e, int (24 * j))" "kept st1 s st2" "length e = 24"
       "free_slot (dir_bytes st1 s) 0 j" by auto
    have kp: "kept st s st2" by (rule kept_trans [OF f(2) sl(2)])
    note k2 = keptD [OF kp]
    have rest: "file_at_rest (files st) s" using r by (simp add: dir_at_rest_def)
    let ?e = "fill_entry e name sector is_dir"
    note fe = fill_entry_ok [OF sl(3) name, of sector is_dir]
    have nd2: "inodes (files st2) (d_inode x) = Some nd" using x(2) keptD(3) [OF sl(2)] by simp
    have nn2: "d_inode x \<notin> map_nodes (files st2)" using x(6) keptD(6) [OF sl(2) rr(1)] by simp
    have fs: "free_slot (dir_bytes st s) 0 j" using sl(4) k1(1) by simp
    have dv: "24 dvd flen (cview (cache (files st))) s" using rr(2) k1(1) by simp
    have "\<exists>st'. with_files (inode_write_at ALLOC (d_inode x) ?e 24 (int (24 * j))) st2 = Inr (st', 24) \<and> file_at_rest (files st') s \<and>
       flen (cview (cache (files st'))) s \<le> flen (cview (cache (files st2))) s + 24 \<and> 24 dvd flen (cview (cache (files st'))) s \<and>
       entries (dir_bytes st' s) = put_slot j ?e (entries (dir_bytes st2 s)) \<and> others_kept st2 s st' \<and> dirs st' = dirs st2 \<and>
       inodes (files st') = inodes (files st2) \<and> map_nodes (files st') = map_nodes (files st2)"
    proof (cases "j < flen (cview (cache (files st2))) s div 24")
      case True
      show ?thesis using write_slot_inside [OF k2(5) [OF rest] nd2 x(3-5) True fe(1)] dv k2(1) by auto
    next
      case False
      then have "24 * j = flen (cview (cache (files st2))) s" using fs dv k2(1) by (auto simp: free_slot_def)
      from write_slot_end [OF k2(5) [OF rest] nd2 x(3-5) nn2 _ _ _ this fe(1)] show ?thesis
        using dv k2(1) k2(7) [OF rest] room len by auto
    qed
    then obtain st' where w: "with_files (inode_write_at ALLOC (d_inode x) ?e 24 (int (24 * j))) st2 = Inr (st', 24)" "file_at_rest (files st') s"
       "flen (cview (cache (files st'))) s \<le> flen (cview (cache (files st))) s + 24" "24 dvd flen (cview (cache (files st'))) s"
       "entries (dir_bytes st' s) = put_slot j ?e (entries (dir_bytes st s))" "others_kept st2 s st'" "dirs st' = dirs st2"
       "inodes (files st') = inodes (files st2)" "map_nodes (files st') = map_nodes (files st2)" unfolding k2(1) by blast
    have "dir_add garbage d name sector is_dir st = Inr (st', True)"
      using f(1) True d name x(1) sl(1) w(1) by (simp add: dir_add_def ASSERT_def NAME_MAX_def get_dir_def ENTRY_SIZE_def)
    moreover have "dir_map (dir_bytes st' s) = (dir_map (dir_bytes st s))(name \<mapsto> (sector, is_dir))"
      using put_slot_map [OF fs _ w(5) fe(2,3) none] dv fe(4,5) by simp
    moreover have "dir_at_rest st' d s"
      unfolding dir_at_rest_def using w x keptD(3,4,6) [OF sl(2)] rr(1) d len nn2 nd2 by auto
    moreover have "others_kept st s st'" using w(6) unfolding others_kept_def k2(1) k2(7,8) [OF rest] .
    ultimately show ?thesis using none by auto
  qed
qed

section \<open>Properties\<close>

text \<open>C13. A directory is a map from names to inodes. \<open>lookup\<close> returns the entry the map has under a name, or
  none, and changes nothing. \<open>dir_add\<close> adds a name of 1 to 14 characters that is not in the map, in a
  free slot or behind the last one, where the file of the directory grows; it refuses a name that is
  there. No other file changes.\<close>

theorem dir_add_lookup:
  assumes r: "dir_at_rest st d s" and room: "2 \<le> card (map_room (files st))" and len: "flen (cview (cache (files st))) s + 48 \<le> 30720"
    and g: "length garbage = 24" and name: "0 < length name" "length name \<le> 14" "0 \<notin> set name"
  shows "(\<exists>st' q. dir_find d n st = Inr (st', q) \<and> dir_at_rest st' d s \<and> cview (cache (files st')) = cview (cache (files st)) \<and>
       map_option (\<lambda>(e, _). (e_inode_sector e, e_is_dir e)) q = dir_map (dir_bytes st s) n) \<and>
     (\<exists>st'. dir_add garbage d name sector is_dir st = Inr (st', dir_map (dir_bytes st s) name = None) \<and> dir_at_rest st' d s \<and> others_kept st s st' \<and>
       dir_map (dir_bytes st' s) = (if dir_map (dir_bytes st s) name = None then (dir_map (dir_bytes st s))(name \<mapsto> (sector, is_dir))
         else dir_map (dir_bytes st s)))"
proof -
  obtain st1 q where f: "dir_find d n st = Inr (st1, q)" "kept st s st1" "found n (dir_bytes st s) 0 q" by (rule dir_find_ok [OF r])
  then have "\<exists>st' q. dir_find d n st = Inr (st', q) \<and> dir_at_rest st' d s \<and> cview (cache (files st')) = cview (cache (files st)) \<and>
       map_option (\<lambda>(e, _). (e_inode_sector e, e_is_dir e)) q = dir_map (dir_bytes st s) n"
    using keptD(1,9) [OF f(2)] found_map(1) [OF f(3)] r by auto
  then show ?thesis using dir_add_ok [OF assms] by blast
qed

definition sample_dir :: filesys where
  "sample_dir = \<lparr>files = sample_fs 48 [], dirs = [30 \<mapsto> \<lparr>d_inode = 20, d_pos = 0\<rparr>]\<rparr>"

lemma sample_dir_ok:
  shows "dir_at_rest sample_dir 30 4" "card (map_room (files sample_dir)) = 26" "flen (cview (cache (files sample_dir))) 4 = 48"
    "dir_map (dir_bytes sample_dir 4) n = None"
proof -
  note f = sample_file [of 48 "[]"]
  show l: "card (map_room (files sample_dir)) = 26" "flen (cview (cache (files sample_dir))) 4 = 48" using f by (simp_all add: sample_dir_def)
  show "dir_at_rest sample_dir 30 4"
    unfolding dir_at_rest_def using f l sample_node [of 48 "[]"] by (simp add: sample_dir_def)
  have "dir_bytes sample_dir 4 = replicate 48 0" using f(5) by (simp add: sample_dir_def overwrite_def zeros_def)
  then have "entries (dir_bytes sample_dir 4) = [replicate 24 0, replicate 24 0]" by (simp add: entries_def slot_of_def upt_rec)
  then show "dir_map (dir_bytes sample_dir 4) n = None" by (simp add: dir_map_def hit_def e_in_use_def)
qed

theorem dir_add_lookup_witness:
  "\<exists>st'. dir_add (replicate 24 7) 30 [97, 98] 9 False sample_dir = Inr (st', True) \<and> dir_map (dir_bytes st' 4) [97, 98] = Some (9, False) \<and>
     dir_map (dir_bytes st' 4) [97] = None"
  using dir_add_lookup [OF sample_dir_ok(1), of "replicate 24 7" "[97, 98]" "[97]" 9 False] by (auto simp: sample_dir_ok)

section \<open>Paths\<close>

lemma rest_inodes:
  assumes f: "file_at_rest st s" and n: "\<And>a. a \<in> map_nodes st \<Longrightarrow> g a = inodes st a"
  shows "file_at_rest (st\<lparr>inodes := g\<rparr>) s" "map_nodes (st\<lparr>inodes := g\<rparr>) = map_nodes st"
proof -
  have "cache_inv (cache st)" using f by (simp add: file_at_rest_def usable_def)
  from moved_refl [OF this, of "{}"] have m: "moved {} (cache st) (cache st) (cview (cache st)) (locks (cache st))" .
  note t = disk.file_at_touch [OF f [unfolded file_at_rest_iff] m _ n]
  show "file_at_rest (st\<lparr>inodes := g\<rparr>) s" using t(1) by (simp add: file_at_rest_iff)
  show "map_nodes (st\<lparr>inodes := g\<rparr>) = map_nodes st" using t(4) by simp
qed

text \<open>A path without a slash is a name in the working directory.\<close>

lemma resolve_name:
  assumes o: "dir_reopen m d st = Inr (st1, d')" and name: "0 < length name" "length name \<le> 14" "47 \<notin> set name"
  shows "resolve_path m d name st = Inr (st1, Some (d', name))"
proof -
  have t: "takeWhile (\<lambda>c. c \<noteq> 47) name = name" using name(3) by (auto simp: takeWhile_eq_all_conv)
  have "resolve_loop m name d' st1 = Inr (st1, Some (d', name))"
    using name(1,2) unfolding resolve_loop.simps [of m name] t by (simp add: NAME_MAX_def Let_def)
  moreover obtain a as where "name = a # as" "a \<noteq> 47" "as = [] \<or> hd as \<noteq> 47"
    using name by (cases name) (auto simp: hd_in_set, metis hd_in_set list.sel(1))
  ultimately show ?thesis using o by (auto simp: resolve_path_def Let_def)
qed

text \<open>The working directory opened once more.\<close>

lemma dir_reopen_ok:
  assumes r: "dir_at_rest st d s" and x: "dirs st d = Some x" "inodes (files st) (d_inode x) = Some nd" "d_inode x \<noteq> 0"
    and m: "\<And>st. m st \<noteq> 0"
  obtains st' d' where "dir_reopen m d st = Inr (st', d')" "dir_at_rest st' d' s" "dir_bytes st' s = dir_bytes st s"
    "dirs st' d' = Some \<lparr>d_inode = d_inode x, d_pos = 0\<rparr>" "inodes (files st') (d_inode x) = Some (nd\<lparr>open_cnt := open_cnt nd + 1\<rparr>)"
proof -
  let ?g = "(inodes (files st))(d_inode x \<mapsto> nd\<lparr>open_cnt := open_cnt nd + 1\<rparr>)"
  let ?st1 = "st\<lparr>files := (files st)\<lparr>inodes := ?g\<rparr>\<rparr>"
  let ?d = "m ?st1"
  let ?st2 = "?st1\<lparr>dirs := (dirs st)(?d \<mapsto> \<lparr>d_inode = d_inode x, d_pos = 0\<rparr>)\<rparr>"
  have nd: "i_sector nd = s" "deny_write_cnt nd = 0" "\<not> extension_lock nd" "d_inode x \<notin> map_nodes (files st)" "file_at_rest (files st) s"
    using r x by (auto simp: dir_at_rest_def)
  have k: "file_at_rest ((files st)\<lparr>inodes := ?g\<rparr>) s" "map_nodes ((files st)\<lparr>inodes := ?g\<rparr>) = map_nodes (files st)"
    by (rule rest_inodes [OF nd(5)]; use nd(4) in auto)+
  have "dir_at_rest ?st2 ?d s" unfolding dir_at_rest_def using k nd m r by (simp add: dir_at_rest_def)
  moreover have "dir_reopen m d st = Inr (?st2, ?d)"
    using x m by (simp add: dir_reopen_def get_dir_def with_files_def inode_reopen_def ASSERT_def ino_def set_ino_def dir_open_def Let_def)
  ultimately show ?thesis using that [of ?st2 ?d] by simp
qed

text \<open>C21. A path that starts with \<open>./\<close> never resolves. \<open>resolve_path\<close> skips the dot only, so that the path
  goes on with a slash: the first component is empty, and it is looked up in the working directory,
  which has no entry with an empty name. The same name without \<open>./\<close> resolves to the working directory.\<close>

theorem resolve_dot_slash_fails:
  assumes r: "dir_at_rest st d s" and x: "dirs st d = Some x" "inodes (files st) (d_inode x) = Some nd" "d_inode x \<noteq> 0" "0 < open_cnt nd"
    and e: "dir_map (dir_bytes st s) [] = None" and m: "\<And>st. m st \<noteq> 0"
    and name: "0 < length name" "length name \<le> 14" "47 \<notin> set name"
  shows "(\<exists>st'. resolve_path m d ([46, 47] @ name) st = Inr (st', None)) \<and>
     (\<exists>st' d'. resolve_path m d name st = Inr (st', Some (d', name)) \<and> dir_at_rest st' d' s \<and> dir_bytes st' s = dir_bytes st s)"
proof -
  obtain st1 d' where o: "dir_reopen m d st = Inr (st1, d')" "dir_at_rest st1 d' s" "dir_bytes st1 s = dir_bytes st s"
    "dirs st1 d' = Some \<lparr>d_inode = d_inode x, d_pos = 0\<rparr>" "inodes (files st1) (d_inode x) = Some (nd\<lparr>open_cnt := open_cnt nd + 1\<rparr>)"
    by (rule dir_reopen_ok [OF r x(1-3) m])
  obtain st2 q where f: "dir_find d' [] st1 = Inr (st2, q)" "kept st1 s st2" "found [] (dir_bytes st1 s) 0 q" by (rule dir_find_ok [OF o(2)])
  have q: "q = None" using found_map(2) [OF f(3)] e o(3) by simp
  have d': "d' \<noteq> 0" using o(2) by (simp add: dir_at_rest_def)
  note k = keptD [OF f(2)]
  obtain st3 where c: "dir_close d' st2 = Inr st3"
    using d' o(4,5) x(3,4) k(3,4) by (simp add: dir_close_def get_dir_def on_files_def inode_close_def ino_def Let_def set_ino_def)
  have "resolve_loop m (47 # name) d' st1 = Inr (st3, None)"
    using f(1) q c d' by (subst resolve_loop.simps) (simp add: NAME_MAX_def dir_lookup_def ASSERT_def Let_def)
  then have "resolve_path m d ([46, 47] @ name) st = Inr (st3, None)" using o(1) by (simp add: resolve_path_def)
  moreover have "resolve_path m d name st = Inr (st1, Some (d', name))" by (rule resolve_name [OF o(1) name])
  ultimately show ?thesis using o(2,3) by blast
qed

theorem resolve_dot_slash_fails_witness:
  "(\<exists>st'. resolve_path (\<lambda>_. 40) 30 [46, 47, 97] sample_dir = Inr (st', None)) \<and>
   (\<exists>st' d'. resolve_path (\<lambda>_. 40) 30 [97] sample_dir = Inr (st', Some (d', [97])))"
proof -
  let ?nd = "\<lparr>i_sector = 4, open_cnt = 1, removed = False, deny_write_cnt = 0, extension_lock = False\<rparr>"
  have s: "dirs sample_dir 30 = Some \<lparr>d_inode = 20, d_pos = 0\<rparr>" "inodes (files sample_dir) (d_inode \<lparr>d_inode = 20, d_pos = 0\<rparr>) = Some ?nd"
    using sample_node [of 48 "[]"] by (simp_all add: sample_dir_def)
  have "(\<exists>st'. resolve_path (\<lambda>_. 40) 30 ([46, 47] @ [97]) sample_dir = Inr (st', None)) \<and>
     (\<exists>st' d'. resolve_path (\<lambda>_. 40) 30 [97] sample_dir = Inr (st', Some (d', [97])) \<and> dir_at_rest st' d' 4 \<and>
       dir_bytes st' 4 = dir_bytes sample_dir 4)"
    by (rule resolve_dot_slash_fails [OF sample_dir_ok(1) s]) (simp_all add: sample_dir_ok)
  then show ?thesis by auto
qed

section \<open>Opening a file by name\<close>

lemma find_open_total:
  assumes "\<And>a. a \<in> set as \<Longrightarrow> inodes st a \<noteq> None"
  shows "\<exists>r. find_open as sector st = Inr r \<and> (\<forall>a. r = Some a \<longrightarrow> a \<in> set as \<and> (\<exists>n. inodes st a = Some n \<and> i_sector n = sector))"
  using assms
proof (induction as)
  case (Cons a as)
  obtain n where n: "inodes st a = Some n" using Cons.prems [of a] by auto
  show ?case using Cons n by (auto simp: ino_def)
qed simp

text \<open>The inode of a sector is opened once more, or read; other inodes keep their place.\<close>

lemma open_inode_ok:
  assumes w: "\<And>a. a \<in> set (open_inodes (files st)) \<Longrightarrow> inodes (files st) a \<noteq> None \<and> a \<noteq> 0" and m: "m st \<noteq> 0"
  obtains as g a n where "open_inode m sector st = Inr (st\<lparr>files := (files st)\<lparr>inodes := g, open_inodes := as\<rparr>\<rparr>, a)" "a \<noteq> 0"
    "g a = Some n" "i_sector n = sector" "\<forall>b. b \<noteq> a \<longrightarrow> g b = inodes (files st) b" "a = m st \<or> (\<exists>k. inodes (files st) a = Some k \<and> n = k\<lparr>open_cnt := open_cnt k + 1\<rparr>)"
proof -
  obtain r where r: "find_open (open_inodes (files st)) sector (files st) = Inr r"
    "\<And>a. r = Some a \<Longrightarrow> a \<in> set (open_inodes (files st)) \<and> (\<exists>n. inodes (files st) a = Some n \<and> i_sector n = sector)"
    using find_open_total [of "open_inodes (files st)" "files st" sector] w by blast
  show thesis
  proof (cases r)
    case None
    let ?n = "\<lparr>i_sector = sector, open_cnt = 1, removed = False, deny_write_cnt = 0, extension_lock = False\<rparr>"
    have "open_inode m sector st = Inr (st\<lparr>files := (files st)\<lparr>inodes := (inodes (files st))(m st \<mapsto> ?n), open_inodes := m st # open_inodes (files st)\<rparr>\<rparr>, m st)"
      using r(1) None m by (simp add: open_inode_def with_files_def inode_open_def set_ino_def)
    then show ?thesis using that [of "m st # open_inodes (files st)" "(inodes (files st))(m st \<mapsto> ?n)" "m st" ?n] m by auto
  next
    case (Some a)
    obtain n where n: "inodes (files st) a = Some n" "i_sector n = sector" "a \<noteq> 0" using r(2) [OF Some] w by blast
    let ?n = "n\<lparr>open_cnt := open_cnt n + 1\<rparr>"
    have "open_inode m sector st = Inr (st\<lparr>files := (files st)\<lparr>inodes := (inodes (files st))(a \<mapsto> ?n), open_inodes := open_inodes (files st)\<rparr>\<rparr>, a)"
      using r(1) Some n by (simp add: open_inode_def with_files_def inode_open_def inode_reopen_def ASSERT_def ino_def set_ino_def)
    then show ?thesis using that [of "open_inodes (files st)" "(inodes (files st))(a \<mapsto> ?n)" a ?n] n by auto
  qed
qed

text \<open>\<open>filesys_open\<close> with a name that the working directory has: the new file stands for the inode of the entry. \<open>malloc\<close> never
  returns a null pointer or the inode of the working directory.\<close>

lemma filesys_open_ok:
  assumes r: "dir_at_rest st d s" and x: "dirs st d = Some x" "inodes (files st) (d_inode x) = Some nd" "d_inode x \<noteq> 0" "0 < open_cnt nd"
    and e: "dir_map (dir_bytes st s) name = Some (sector, is_dir)" and name: "0 < length name" "length name \<le> 14" "47 \<notin> set name"
    and w: "\<And>a. a \<in> set (open_inodes (files st)) \<Longrightarrow> inodes (files st) a \<noteq> None \<and> a \<noteq> 0"
    and m: "\<And>st. m st \<noteq> 0" "\<And>st. m st \<noteq> d_inode x"
  obtains st' f a n where "filesys_open m d name st = Inr (st', f)" "f \<noteq> 0"
    "open_files (files st') f = Some \<lparr>f_inode = a, f_pos = 0, f_deny_write = False, f_is_dir = is_dir\<rparr>"
    "inodes (files st') a = Some n" "i_sector n = sector" "\<forall>g. g \<noteq> f \<longrightarrow> open_files (files st') g = open_files (files st) g"
proof -
  let ?nd = "nd\<lparr>open_cnt := open_cnt nd + 1\<rparr>"
  obtain st1 d' where o: "dir_reopen m d st = Inr (st1, d')" "dir_at_rest st1 d' s" "dir_bytes st1 s = dir_bytes st s"
    "dirs st1 d' = Some \<lparr>d_inode = d_inode x, d_pos = 0\<rparr>" "inodes (files st1) (d_inode x) = Some ?nd"
    by (rule dir_reopen_ok [OF r x(1-3) m(1)])
  have o': "open_inodes (files st1) = open_inodes (files st)" "open_files (files st1) = open_files (files st)"
    "\<And>b. inodes (files st1) b = None \<longleftrightarrow> inodes (files st) b = None"
    using o(1) x m(1) by (auto simp: dir_reopen_def get_dir_def with_files_def inode_reopen_def ASSERT_def ino_def set_ino_def dir_open_def Let_def split: if_splits)
  obtain st2 q where f: "dir_find d' name st1 = Inr (st2, q)" "kept st1 s st2" "found name (dir_bytes st1 s) 0 q" by (rule dir_find_ok [OF o(2)])
  obtain e' ofs where q: "q = Some (e', ofs)" "e_inode_sector e' = sector" "e_is_dir e' = is_dir"
    using found_map(1) [OF f(3)] e o(3) by (cases q) auto
  obtain c where c: "st2 = st1\<lparr>files := (files st1)\<lparr>cache := c\<rparr>\<rparr>" using f(2) unfolding kept_def by blast
  have w2: "\<And>a. a \<in> set (open_inodes (files st2)) \<Longrightarrow> inodes (files st2) a \<noteq> None \<and> a \<noteq> 0" using w o'(1,3) c by simp
  obtain as g a n where i: "open_inode m sector st2 = Inr (st2\<lparr>files := (files st2)\<lparr>inodes := g, open_inodes := as\<rparr>\<rparr>, a)" "a \<noteq> 0"
    "g a = Some n" "i_sector n = sector" "\<forall>b. b \<noteq> a \<longrightarrow> g b = inodes (files st2) b"
    "a = m st2 \<or> (\<exists>k. inodes (files st2) a = Some k \<and> n = k\<lparr>open_cnt := open_cnt k + 1\<rparr>)"
    by (rule open_inode_ok [of st2 m sector, OF w2 m(1)])
  let ?st3 = "st2\<lparr>files := (files st2)\<lparr>inodes := g, open_inodes := as\<rparr>\<rparr>"
  have d': "d' \<noteq> 0" using o(2) by (simp add: dir_at_rest_def)
  have l: "dir_lookup m d' name st1 = Inr (?st3, a, is_dir)" using f(1) q i(1) d' by (simp add: dir_lookup_def ASSERT_def)
  obtain k where k: "g (d_inode x) = Some k" "1 < open_cnt k"
  proof (cases "a = d_inode x")
    case True
    then have "n = ?nd\<lparr>open_cnt := open_cnt nd + 1 + 1\<rparr>" using i(6) m(2) [of st2] o(5) c by auto
    then show ?thesis using that [of n] i(3) True x(4) by simp
  next
    case False
    then show ?thesis using that [of ?nd] i(5) o(5) c x(4) by simp
  qed
  let ?k = "k\<lparr>open_cnt := open_cnt k - 1\<rparr>"
  let ?st4 = "?st3\<lparr>files := (files ?st3)\<lparr>inodes := g(d_inode x \<mapsto> ?k)\<rparr>, dirs := (dirs ?st3)(d' := None)\<rparr>"
  have cl: "dir_close d' ?st3 = Inr ?st4"
    using d' o(4) x(3) k c by (simp add: dir_close_def get_dir_def on_files_def inode_close_def ino_def Let_def set_ino_def)
  let ?f = "m ?st4"
  let ?F = "\<lparr>f_inode = a, f_pos = 0, f_deny_write = False, f_is_dir = is_dir\<rparr>"
  let ?st5 = "?st4\<lparr>files := set_fil ?f ?F (files ?st4)\<rparr>"
  have "with_files (file_open RELEASE ?f a is_dir) ?st4 = Inr (?st5, ?f)" using i(2) m(1) by (simp add: with_files_def file_open_def)
  then have run: "filesys_open m d name st = Inr (?st5, ?f)" using resolve_name [OF o(1) name] l cl d' by (simp add: filesys_open_def)
  obtain n' where n': "inodes (files ?st5) a = Some n'" "i_sector n' = sector"
  proof (cases "a = d_inode x")
    case True
    then show ?thesis using that [of ?k] k i(3,4) by (simp add: set_fil_def)
  next
    case False
    then show ?thesis using that [of n] i(3,4) by (simp add: set_fil_def)
  qed
  show thesis
    by (rule that [OF run m(1) _ n']) (use o'(2) c in \<open>simp_all add: set_fil_def\<close>)
qed

end
