(* ===== verification/Arithmetic.thy ===== *)
theory Arithmetic
  imports Prelude "HOL-Library.Signed_Division"
begin

text \<open>
  \<^verbatim>\<open>lib/arithmetic.c\<close>: division of 64-bit numbers on a processor that divides 64 by 32 bits (\<open>divl\<close>). The
  routines are compared with the division of the numbers; the remainders turn out to be cut to 32
  bits.
\<close>

unbundle bit_operations_syntax

section \<open>Model\<close>

text \<open>The instruction traps when the divisor is zero or the quotient does not fit in 32 bits.\<close>

definition divl :: "u64 \<Rightarrow> u32 \<Rightarrow> u32 res" where
  "divl n d = (if d = 0 \<or> unat n div unat d \<ge> 2 ^ 32 then Inl Divide_error else Inr (of_nat (unat n div unat d)))"

definition nlz :: "u32 \<Rightarrow> nat" where
  "nlz x =
     (let (n, x) = (if x \<le> 0x0000FFFF then (16, push_bit 16 x) else (0, x));
          (n, x) = (if x \<le> 0x00FFFFFF then (n + 8, push_bit 8 x) else (n, x));
          (n, x) = (if x \<le> 0x0FFFFFFF then (n + 4, push_bit 4 x) else (n, x));
          (n, x) = (if x \<le> 0x3FFFFFFF then (n + 2, push_bit 2 x) else (n, x))
      in if x \<le> 0x7FFFFFFF then n + 1 else n)"

text \<open>\<open>n1 % d0\<close> traps as well when \<open>d0\<close> is zero.\<close>

definition udiv64 :: "u64 \<Rightarrow> u64 \<Rightarrow> u64 res" where
  "udiv64 n d =
     (if drop_bit 32 d = 0 then
        let b = push_bit 32 1 :: u64; n1 = ucast (drop_bit 32 n) :: u32; n0 = ucast n :: u32; d0 = ucast d :: u32 in
        if d0 = 0 then Inl Divide_error
        else bindR (divl (b * ucast (n1 mod d0) + ucast n0) d0) (\<lambda>q. Inr (ucast q + b * ucast (n1 div d0)))
      else if n < d then Inr 0
      else
        let d1 = ucast (drop_bit 32 d) :: u32; s = nlz d1 in
        bindR (divl (drop_bit 1 n) (ucast (drop_bit 32 (push_bit s d)))) (\<lambda>q.
        let q = ucast (drop_bit (31 - s) q) :: u64 in
        Inr (if n - (q - 1) * d < d then q - 1 else q)))"

definition umod64 :: "u64 \<Rightarrow> u64 \<Rightarrow> u32 res" where
  "umod64 n d = bindR (udiv64 n d) (\<lambda>q. Inr (ucast (n - d * q)))"

text \<open>Signed numbers are the words read with \<open>sint\<close>.\<close>

definition sdiv64 :: "u64 \<Rightarrow> u64 \<Rightarrow> u64 res" where
  "sdiv64 n d =
     (let n_abs = (if sint n \<ge> 0 then n else - n); d_abs = (if sint d \<ge> 0 then d else - d) in
      bindR (udiv64 n_abs d_abs) (\<lambda>q_abs. Inr (if (sint n < 0) = (sint d < 0) then q_abs else - q_abs)))"

definition smod64 :: "u64 \<Rightarrow> u64 \<Rightarrow> u32 res" where
  "smod64 n d = bindR (sdiv64 n d) (\<lambda>q. Inr (ucast (n - d * q)))"

definition divdi3 :: "u64 \<Rightarrow> u64 \<Rightarrow> u64 res" where "divdi3 n d = sdiv64 n d"
definition moddi3 :: "u64 \<Rightarrow> u64 \<Rightarrow> u64 res" where "moddi3 n d = bindR (smod64 n d) (\<lambda>r. Inr (scast r))"
definition udivdi3 :: "u64 \<Rightarrow> u64 \<Rightarrow> u64 res" where "udivdi3 n d = udiv64 n d"
definition umoddi3 :: "u64 \<Rightarrow> u64 \<Rightarrow> u64 res" where "umoddi3 n d = bindR (umod64 n d) (\<lambda>r. Inr (ucast r))"

section \<open>Leading zeros\<close>

lemma unat_push:
  fixes x :: "'a::len word"
  assumes "unat x * 2 ^ k < 2 ^ LENGTH('a)"
  shows "unat (push_bit k x) = unat x * 2 ^ k"
proof -
  have "unat (push_bit k x) = take_bit LENGTH('a) (push_bit k (unat x))" by (rule unsigned_push_bit_eq)
  also have "push_bit k (unat x) = unat x * 2 ^ k" by (rule push_bit_eq_mult)
  finally show ?thesis using assms by (simp only: take_bit_nat_eq_self)
qed

text \<open>One round: if the value is below \<open>2 ^ (32 - k)\<close> it is shifted by \<open>k\<close>.\<close>

definition nlz_round :: "nat \<Rightarrow> nat \<times> u32 \<Rightarrow> nat \<times> u32" where
  "nlz_round k p = (if unat (snd p) < 2 ^ (32 - k) then (fst p + k, push_bit k (snd p)) else p)"

lemma nlz_rounds: "nlz x = fst (nlz_round 1 (nlz_round 2 (nlz_round 4 (nlz_round 8 (nlz_round 16 (0, x))))))"
proof -
  have le: "y \<le> 0x0000FFFF \<longleftrightarrow> unat y < 2 ^ (32 - 16)" "y \<le> 0x00FFFFFF \<longleftrightarrow> unat y < 2 ^ (32 - 8)" "y \<le> 0x0FFFFFFF \<longleftrightarrow> unat y < 2 ^ (32 - 4)"
    "y \<le> 0x3FFFFFFF \<longleftrightarrow> unat y < 2 ^ (32 - 2)" "y \<le> 0x7FFFFFFF \<longleftrightarrow> unat y < 2 ^ (32 - 1)" for y :: u32
    by (auto simp: word_le_nat_alt)
  show ?thesis unfolding nlz_def le by (simp only: nlz_round_def Let_def case_prod_beta fst_conv snd_conv split: if_split) simp
qed

definition nlz_upto :: "u32 \<Rightarrow> nat \<Rightarrow> nat \<times> u32 \<Rightarrow> bool" where
  "nlz_upto x k p \<longleftrightarrow> unat (snd p) = unat x * 2 ^ fst p \<and> 2 ^ (32 - k) \<le> unat (snd p)"

lemma nlz_round_ok:
  assumes "nlz_upto x (2 * k) p" "k \<le> 16"
  shows "nlz_upto x k (nlz_round k p)"
proof (cases "unat (snd p) < 2 ^ (32 - k)")
  case True
  have "unat (snd p) * 2 ^ k < 2 ^ (32 - k) * 2 ^ k" using True by simp
  also have "\<dots> = 2 ^ 32" using assms(2) by (simp flip: power_add)
  finally have u: "unat (push_bit k (snd p)) = unat (snd p) * 2 ^ k" by (intro unat_push) simp
  have "2 ^ (32 - 2 * k) * 2 ^ k \<le> unat (snd p) * 2 ^ k" using assms(1) by (simp add: nlz_upto_def)
  then have "2 ^ (32 - k) \<le> unat (snd p) * 2 ^ k" using assms(2) by (simp flip: power_add)
  then show ?thesis using assms(1) u True by (simp add: nlz_upto_def nlz_round_def power_add)
qed (use assms in \<open>simp add: nlz_upto_def nlz_round_def\<close>)

lemma nlz_ok:
  assumes "x \<noteq> 0"
  shows "2 ^ 31 \<le> unat x * 2 ^ nlz x" "unat x * 2 ^ nlz x < 2 ^ 32" "nlz x \<le> 31"
proof -
  have "nlz_upto x (2 * 16) (0, x)" using assms by (simp add: nlz_upto_def Suc_le_eq unat_gt_0)
  then have "nlz_upto x (2 * 8) (nlz_round 16 (0, x))" by (simp add: nlz_round_ok)
  then have "nlz_upto x (2 * 4) (nlz_round 8 (nlz_round 16 (0, x)))" by (simp add: nlz_round_ok)
  then have "nlz_upto x (2 * 2) (nlz_round 4 (nlz_round 8 (nlz_round 16 (0, x))))" by (simp add: nlz_round_ok)
  then have "nlz_upto x (2 * 1) (nlz_round 2 (nlz_round 4 (nlz_round 8 (nlz_round 16 (0, x)))))" by (simp add: nlz_round_ok)
  then have r: "nlz_upto x 1 (nlz_round 1 (nlz_round 2 (nlz_round 4 (nlz_round 8 (nlz_round 16 (0, x))))))" by (rule nlz_round_ok) simp
  then show ge: "2 ^ 31 \<le> unat x * 2 ^ nlz x" unfolding nlz_rounds nlz_upto_def by simp
  have "unat x * 2 ^ nlz x = unat (snd (nlz_round 1 (nlz_round 2 (nlz_round 4 (nlz_round 8 (nlz_round 16 (0, x)))))))"
    using r unfolding nlz_rounds nlz_upto_def by simp
  then show lt: "unat x * 2 ^ nlz x < 2 ^ 32" using unsigned_less [of "snd (nlz_round 1 (nlz_round 2 (nlz_round 4 (nlz_round 8 (nlz_round 16 (0, x))))))"] by simp
  show "nlz x \<le> 31"
  proof (rule ccontr)
    assume "\<not> nlz x \<le> 31"
    then have "(2::nat) ^ 32 \<le> 2 ^ nlz x" by (intro power_increasing) simp_all
    moreover have "2 ^ nlz x \<le> unat x * 2 ^ nlz x" using assms by (simp add: Suc_le_eq unat_gt_0)
    ultimately show False using lt by linarith
  qed
qed

section \<open>Unsigned division\<close>

text \<open>The estimate with the divisor cut to its upper 32 bits is the quotient or one more.\<close>

lemma estimate:
  fixes n d k :: nat
  defines "D \<equiv> d div 2 ^ k * 2 ^ k"
  assumes n: "n < 2 ^ 64" and k: "0 < k" "k \<le> 32" and d: "2 ^ 31 \<le> d div 2 ^ k"
  shows "n div d \<le> n div D" "n div D \<le> Suc (n div d)"
proof -
  have "d mod 2 ^ k < 2 ^ k" by simp
  then have Dd: "D \<le> d" "d < D + 2 ^ k" unfolding D_def using div_mult_mod_eq [of d "2 ^ k"] by linarith+
  have D: "2 ^ (31 + k) \<le> D" unfolding D_def using d by (simp add: power_add)
  then have D0: "0 < D" using less_le_trans [of 0 "2 ^ (31 + k)" D] by simp
  show "n div d \<le> n div D" by (rule div_le_mono2 [OF D0 Dd(1)])
  define q where "q = n div D"
  have qD: "q * D \<le> n" unfolding q_def by simp
  have "q * 2 ^ (31 + k) < 2 ^ 64" using mult_le_mono2 [OF D, of q] qD n by linarith
  then have "q * 2 ^ (31 + k) < 2 ^ (33 - k) * 2 ^ (31 + k)" using k by (simp flip: power_add)
  then have q: "q < 2 ^ (33 - k)" by simp
  have "q * (d - D) \<le> 2 ^ (33 - k) * (2 ^ k - 1)" using q Dd by (intro mult_le_mono) linarith+
  also have "\<dots> = 2 ^ 33 - 2 ^ (33 - k)" using k by (simp add: right_diff_distrib' flip: power_add)
  also have "\<dots> \<le> d"
  proof (cases "k = 1")
    case True
    then show ?thesis using D Dd by simp
  next
    case False
    have "(2::nat) ^ 33 \<le> 2 ^ (31 + k)" by (rule power_increasing) (use k False in simp_all)
    then show ?thesis using D Dd by linarith
  qed
  finally have qd: "q * (d - D) \<le> d" .
  have "(q - 1) * d \<le> n"
  proof -
    have "q * d = q * D + q * (d - D)" using Dd(1) by (simp flip: distrib_left)
    then have "q * d \<le> n + d" using qD qd by linarith
    then show ?thesis by (cases q) simp_all
  qed
  then have "q - 1 \<le> n div d" using Dd D0 by (subst less_eq_div_iff_mult_less_eq) auto
  then show "n div D \<le> Suc (n div d)" unfolding q_def by linarith
qed

lemma divl_ok: "d \<noteq> 0 \<Longrightarrow> unat n div unat d < 2 ^ 32 \<Longrightarrow> divl n d = Inr (of_nat (unat n div unat d))"
  by (simp add: divl_def)

lemma unat_drop: "unat (drop_bit k x) = unat x div 2 ^ k"
  unfolding unat_drop_bit_eq by (rule drop_bit_eq_div)

lemma word64_eqI: "unat (x :: u64) = unat y \<Longrightarrow> x = y"
  by (rule unsigned_word_eqI)

lemma unat_less64: "unat (x :: u64) < 2 ^ 64"
  using unsigned_less [of x] by simp

lemma unat_down:
  assumes "unat (x :: u64) < 2 ^ 32"
  shows "unat (ucast x :: u32) = unat x"
  using assms by (simp only: unsigned_ucast_eq) (simp add: take_bit_nat_eq_self)

lemma unat_up: "unat (ucast (x :: u32) :: u64) = unat x"
proof -
  have "unat x < 2 ^ 32" using unsigned_less [where w = x and 'a = nat] by simp
  then have "unat x < 2 ^ 64" by simp
  then show ?thesis by (simp only: unsigned_ucast_eq) (simp add: take_bit_nat_eq_self)
qed

lemma unat_mult_add:
  fixes a b c :: u64
  assumes "unat a * unat b + unat c < 2 ^ 64"
  shows "unat (a * b + c) = unat a * unat b + unat c"
proof -
  have "unat a * unat b < 2 ^ 64" using assms by linarith
  then have m: "unat (a * b) = unat a * unat b" by (simp add: unat_word_ariths)
  then show ?thesis using assms by (simp add: unat_word_ariths(1) m)
qed

lemma unat_halves:
  fixes n :: u64
  shows "unat (ucast (drop_bit 32 n) :: u32) = unat n div 2 ^ 32" "unat (ucast n :: u32) = unat n mod 2 ^ 32"
proof -
  have "unat n div 2 ^ 32 < 2 ^ 32" using unat_less64 [of n] by (intro less_mult_imp_div_less) simp
  then show "unat (ucast (drop_bit 32 n) :: u32) = unat n div 2 ^ 32" by (simp only: unat_drop unat_down)
  show "unat (ucast n :: u32) = unat n mod 2 ^ 32" by (simp add: unsigned_ucast_eq take_bit_eq_mod)
qed

text \<open>The divisor fits in 32 bits.\<close>

lemma split_division:
  fixes N D b :: nat
  assumes "0 < D" "0 < b"
  shows "(b * (N div b mod D) + N mod b) div D + b * (N div b div D) = N div D"
proof -
  have "N = b * (N div b) + N mod b" by simp
  also have "b * (N div b) = b * (N div b mod D) + b * (N div b div D) * D"
    using mod_div_mult_eq [of "N div b" D] by (metis add_mult_distrib2 mult.assoc)
  finally have "N = b * (N div b mod D) + N mod b + b * (N div b div D) * D" by linarith
  then have "N div D = (b * (N div b mod D) + N mod b + b * (N div b div D) * D) div D" by simp
  then show ?thesis using assms(1) by simp
qed

lemma udiv64_small:
  assumes d: "d \<noteq> 0" "drop_bit 32 d = 0"
  shows "udiv64 n d = Inr (n div d)"
proof -
  define N D b where N: "N = unat n" and D: "D = unat d" and b: "b = (2 :: nat) ^ 32"
  have b0: "0 < b" "b * b = 2 ^ 64" by (simp_all add: b)
  have N64: "N < b * b" unfolding N b0 by (rule unat_less64)
  have "unat (drop_bit 32 d) = 0" using d(2) by simp
  then have "D div b = 0" unfolding unat_drop D b .
  then have Db: "D < b" using b0(1) by (simp only: div_eq_0_iff) auto
  have D0: "0 < D" using d(1) by (simp add: D unat_gt_0)
  let ?n1 = "ucast (drop_bit 32 n) :: u32" and ?n0 = "ucast n :: u32" and ?d0 = "ucast d :: u32"
  have n1: "unat ?n1 = N div b" and n0: "unat ?n0 = N mod b" unfolding N b by (rule unat_halves)+
  have d0: "unat ?d0 = D" using unat_down [of d] Db by (simp add: D b)
  have ub: "unat (push_bit 32 1 :: u64) = b" by (simp add: b)
  let ?r = "N div b mod D"
  have m: "unat (?n1 mod ?d0) = ?r" "unat (?n1 div ?d0) = N div b div D" by (simp_all add: unat_mod unat_div n1 d0)
  have "b * Suc ?r \<le> b * D" using D0 by (intro mult_le_mono2) (simp add: Suc_le_eq)
  moreover have "N mod b < b" using b0 by simp
  ultimately have lt: "b * ?r + N mod b < D * b" by (simp add: mult.commute)
  then have "b * ?r + N mod b < 2 ^ 64" using Db b0 mult_le_mono1 [of D b b] by linarith
  define X where "X = (push_bit 32 1 * ucast (?n1 mod ?d0) + ucast ?n0 :: u64)"
  have x: "unat X = b * ?r + N mod b"
    unfolding X_def using \<open>b * ?r + N mod b < 2 ^ 64\<close> unat_mult_add [of "push_bit 32 1" "ucast (?n1 mod ?d0)" "ucast ?n0"] unfolding ub unat_up m n0 by simp
  have q: "(b * ?r + N mod b) div D < b" using lt by (intro less_mult_imp_div_less) (simp add: mult.commute)
  have dd: "?d0 \<noteq> 0" using d0 D0 by auto
  let ?q = "of_nat ((b * ?r + N mod b) div D) :: u32"
  have dv: "divl X ?d0 = Inr ?q" using divl_ok [OF dd, of X] q unfolding x d0 b by simp
  have uq: "unat ?q = (b * ?r + N mod b) div D" using q by (simp add: unat_of_nat b)
  have "N div D < 2 ^ 64" using N64 b0 div_le_dividend [of N D] by linarith
  then have s: "unat (push_bit 32 1 :: u64) * unat (ucast (?n1 div ?d0) :: u64) + unat (ucast ?q :: u64) < 2 ^ 64"
    unfolding ub unat_up m uq using split_division [OF D0 b0(1), of N] by linarith
  have "unat (ucast ?q + push_bit 32 1 * ucast (?n1 div ?d0) :: u64) = N div D"
    using unat_mult_add [OF s] unfolding ub unat_up m uq using split_division [OF D0 b0(1), of N] by (simp add: add.commute)
  then have "ucast ?q + push_bit 32 1 * ucast (?n1 div ?d0) = n div d" by (intro word64_eqI) (simp add: unat_div N D)
  then show ?thesis using d(2) dd dv unfolding udiv64_def Let_def X_def [symmetric] by simp
qed

lemma udiv64_large:
  assumes d: "drop_bit 32 d \<noteq> 0"
  shows "udiv64 n d = Inr (n div d)"
proof (cases "n < d")
  case True
  then have "unat n div unat d = 0" by (simp add: word_less_nat_alt)
  then have "n div d = 0" by (intro word64_eqI) (simp add: unat_div)
  then show ?thesis using d True by (simp add: udiv64_def)
next
  case False
  define N D where N: "N = unat n" and D: "D = unat d"
  have DN: "D \<le> N" using False by (simp add: word_less_nat_alt N D)
  have N64: "N < 2 ^ 64" and D64: "D < 2 ^ 64" unfolding N D by (rule unat_less64)+
  let ?d1 = "ucast (drop_bit 32 d) :: u32"
  let ?s = "nlz ?d1"
  have d1: "unat ?d1 = D div 2 ^ 32" unfolding D by (rule unat_halves)
  have "unat (drop_bit 32 d) \<noteq> 0" using d by (simp only: unat_eq_0) simp
  then have "D div 2 ^ 32 \<noteq> 0" unfolding unat_drop D .
  then have "?d1 \<noteq> 0" using d1 by auto
  note s = nlz_ok [OF this, unfolded d1]
  define k where "k = 32 - ?s"
  have k: "0 < k" "k \<le> 32" "?s + k = 32" "31 - ?s + 1 = k" using s(3) by (simp_all add: k_def)
  have pk: "(2::nat) ^ ?s * 2 ^ k = 2 ^ 32" unfolding power_add [symmetric] k(3) ..
  \<comment> \<open>the divisor shifted up\<close>
  have "(D div 2 ^ 32) * 2 ^ ?s < 2 ^ k * 2 ^ ?s" using s(2) pk by (simp add: mult.commute)
  then have "D div 2 ^ 32 < 2 ^ k" by simp
  then have "D < 2 ^ k * 2 ^ 32" using less_mult_imp_div_less [of D "2 ^ k" "2 ^ 32"] div_less_iff_less_mult [of "2 ^ 32" D "2 ^ k"] by simp
  then have "D * 2 ^ ?s < 2 ^ k * 2 ^ 32 * 2 ^ ?s" by simp
  also have "\<dots> = 2 ^ ?s * 2 ^ k * 2 ^ 32" by simp
  also have "\<dots> = 2 ^ 64" unfolding pk by simp
  finally have ds: "unat (push_bit ?s d) = D * 2 ^ ?s" unfolding D by (intro unat_push) simp
  have kd: "D * 2 ^ ?s div 2 ^ 32 = D div 2 ^ k"
    using div_mult2_eq [of "D * 2 ^ ?s" "2 ^ ?s" "2 ^ k"] unfolding pk by simp
  let ?v = "ucast (drop_bit 32 (push_bit ?s d)) :: u32"
  have v: "unat ?v = D div 2 ^ k" unfolding unat_halves(1) ds by (rule kd)
  have v31: "2 ^ 31 \<le> D div 2 ^ k"
  proof -
    have "D div 2 ^ 32 * 2 ^ 32 * 2 ^ ?s \<le> D * 2 ^ ?s" by (intro mult_le_mono1) simp
    then have "D div 2 ^ 32 * 2 ^ ?s \<le> D * 2 ^ ?s div 2 ^ 32"
      by (subst less_eq_div_iff_mult_less_eq) (simp_all add: ac_simps)
    then show ?thesis using s(1) kd by linarith
  qed
  \<comment> \<open>the estimate\<close>
  have n2: "unat (drop_bit 1 n) = N div 2" unfolding unat_drop N by simp
  have "N div 2 < 2 ^ 32 * 2 ^ 31" using N64 by (intro less_mult_imp_div_less) simp
  also have "\<dots> \<le> 2 ^ 32 * (D div 2 ^ k)" using v31 by simp
  finally have q32: "N div 2 div (D div 2 ^ k) < 2 ^ 32" by (rule less_mult_imp_div_less)
  have v0: "?v \<noteq> 0" using v v31 by auto
  define q where "q = (of_nat (N div 2 div (D div 2 ^ k)) :: u32)"
  have dv: "divl (drop_bit 1 n) ?v = Inr q" using divl_ok [OF v0, of "drop_bit 1 n"] q32 unfolding n2 v q_def by blast
  define e where "e = (ucast (drop_bit (31 - ?s) q) :: u64)"
  have "unat q = N div 2 div (D div 2 ^ k)" using q32 by (simp add: q_def unat_of_nat)
  have ue: "unat e = N div (D div 2 ^ k * 2 ^ k)"
  proof -
    have "2 * (D div 2 ^ k) * 2 ^ (31 - ?s) = D div 2 ^ k * 2 ^ (31 - ?s + 1)" by simp
    then have "N div 2 div (D div 2 ^ k) div 2 ^ (31 - ?s) = N div (D div 2 ^ k * 2 ^ k)" unfolding k(4) by (simp only: div_mult2_eq [symmetric])
    then show ?thesis unfolding e_def unat_up unat_drop \<open>unat q = _\<close> .
  qed
  note est = estimate [OF N64 k(1,2) v31]
  have "1 \<le> N div D" using DN \<open>D div 2 ^ 32 \<noteq> 0\<close> by (subst less_eq_div_iff_mult_less_eq) (auto intro: Nat.gr0I)
  then have e1: "1 \<le> unat e" using est(1) ue by linarith
  then have em: "unat (e - 1) = unat e - 1" by (simp add: unat_sub word_le_nat_alt)
  have "(unat e - 1) * D \<le> N"
  proof -
    have "unat e - 1 \<le> N div D" using est(2) ue by linarith
    then have "(unat e - 1) * D \<le> N div D * D" by simp
    also have "\<dots> \<le> N" by simp
    finally show ?thesis .
  qed
  note le = this
  have "unat ((e - 1) * d) = (unat e - 1) * D" using le N64 em by (simp add: unat_word_ariths D)
  then have r: "unat (n - (e - 1) * d) = N - (unat e - 1) * D" using le by (simp add: unat_sub word_le_nat_alt N)
  have "unat (if n - (e - 1) * d < d then e - 1 else e) = N div D"
  proof (cases "unat e = N div D")
    case True
    have "unat e * D = (unat e - 1) * D + D" using e1 by (cases "unat e") simp_all
    moreover have "unat e * D \<le> N" unfolding True by simp
    ultimately have "D \<le> N - (unat e - 1) * D" by linarith
    then show ?thesis using True r by (simp add: word_less_nat_alt D)
  next
    case False
    then have u: "unat e - 1 = N div D" using est ue by linarith
    have "0 < D" using \<open>1 \<le> N div D\<close> by (cases D) simp_all
    then have "N - N div D * D < D" unfolding minus_div_mult_eq_mod by simp
    then show ?thesis using u r em by (simp add: word_less_nat_alt D)
  qed
  then have "(if n - (e - 1) * d < d then e - 1 else e) = n div d" by (intro word64_eqI) (simp add: unat_div N D)
  then show ?thesis using d False dv unfolding udiv64_def Let_def by (simp add: e_def [symmetric] split: if_splits)
qed

lemma udiv64_ok: "d \<noteq> 0 \<Longrightarrow> udiv64 n d = Inr (n div d)"
  using udiv64_small udiv64_large by blast

lemma udiv64_zero: "udiv64 n 0 = Inl Divide_error"
  by (simp add: udiv64_def Let_def)

section \<open>Signed division\<close>

text \<open>The magnitude the routines compute is the absolute value.\<close>

lemma magnitude:
  fixes x :: u64
  shows "int (unat (if sint x \<ge> 0 then x else - x)) = \<bar>sint x\<bar>"
proof -
  have r: "sint x < 2 ^ 63" "- (2 ^ 63) \<le> sint x" using sint_lt [of x] sint_ge [of x] by simp_all
  have "(if sint x \<ge> 0 then x else - x) = word_of_int \<bar>sint x\<bar>" by (simp add: abs_if)
  then have "int (unat (if sint x \<ge> 0 then x else - x)) = uint (word_of_int \<bar>sint x\<bar> :: u64)" by simp
  also have "\<dots> = \<bar>sint x\<bar> mod 2 ^ 64" by (simp only: uint_word_of_int) simp
  also have "\<dots> = \<bar>sint x\<bar>" using r by (intro mod_pos_pos_trivial) (simp_all add: abs_if)
  finally show ?thesis .
qed

lemma sdiv64_ok:
  assumes d: "d \<noteq> 0"
  shows "sdiv64 n d = Inr (word_of_int (sint n sdiv sint d))"
proof -
  define N D where N: "N = (if sint n \<ge> 0 then n else - n)" and D: "D = (if sint d \<ge> 0 then d else - d)"
  have D0: "D \<noteq> 0" using d by (simp add: D)
  have "uint (N div D) = int (unat N div unat D)" by (simp add: uint_div zdiv_int)
  also have "\<dots> = \<bar>sint n\<bar> div \<bar>sint d\<bar>" using magnitude [of n] magnitude [of d] by (simp add: N D zdiv_int)
  finally have q: "N div D = word_of_int (\<bar>sint n\<bar> div \<bar>sint d\<bar>)" by (metis word_of_int_uint)
  have s: "sint d \<noteq> 0"
  proof
    assume "sint d = 0"
    then have "word_of_int (sint d) = (0 :: u64)" by simp
    then show False using d by simp
  qed
  have "(if (sint n < 0) = (sint d < 0) then N div D else - (N div D)) = word_of_int (sint n sdiv sint d)"
    unfolding q signed_divide_int_def using s by (auto simp: sgn_if)
  then show ?thesis using udiv64_ok [OF D0, of N] by (simp add: sdiv64_def N [symmetric] D [symmetric] Let_def)
qed

text \<open>The remainders are computed from the quotient and then cut to 32 bits.\<close>

lemma cut_cast: "ucast (ucast x :: u32) = take_bit 32 (x :: u64)"
  by (rule bit_word_eqI) (simp add: bit_ucast_iff bit_take_bit_iff)

lemma umoddi3_eq: "umoddi3 n d = (if d = 0 then Inl Divide_error else Inr (take_bit 32 (n mod d)))"
  by (simp add: umoddi3_def umod64_def udiv64_ok udiv64_zero minus_mult_div_eq_mod cut_cast)

lemma moddi3_eq:
  "moddi3 n d = (if d = 0 then Inl Divide_error else Inr (signed_take_bit 31 (word_of_int (sint n smod sint d))))"
proof (cases "d = 0")
  case True
  then show ?thesis by (simp add: moddi3_def smod64_def sdiv64_def udiv64_zero Let_def)
next
  case False
  have c: "scast (ucast x :: u32) = signed_take_bit 31 x" for x :: u64
    by (rule bit_word_eqI) (simp add: bit_simps min_def)
  have "n - d * word_of_int (sint n sdiv sint d) = word_of_int (sint n) - word_of_int (sint d) * word_of_int (sint n sdiv sint d)" by simp
  also have "\<dots> = word_of_int (sint n - sint d * (sint n sdiv sint d))" by (simp only: wi_hom_mult wi_hom_sub)
  also have "sint n - sint d * (sint n sdiv sint d) = sint n smod sint d" by (rule minus_mult_sdiv_eq_smod)
  finally show ?thesis using False by (simp add: moddi3_def smod64_def sdiv64_ok c)
qed

text \<open>C17. The 64-bit quotients of the library are quotients: for every divisor that is not zero \<open>udiv64\<close>, which
  has only a division of 64 by 32 bits to work with, returns the quotient and never traps, and \<open>sdiv64\<close> the
  quotient cut towards zero (which wraps only for the smallest number divided by -1). Division by zero
  traps. So the routines the compiler calls for division, \<open>__udivdi3\<close> and \<open>__divdi3\<close>, divide. Those it
  calls for remainders do not return remainders in general: \<open>__umoddi3\<close> returns the lower 32 bits of the
  remainder, and \<open>__moddi3\<close> these 32 bits with their sign extended.\<close>

theorem division64_correct:
  "udiv64 n d = (if d = 0 then Inl Divide_error else Inr (n div d)) \<and>
   sdiv64 n d = (if d = 0 then Inl Divide_error else Inr (word_of_int (sint n sdiv sint d))) \<and>
   udivdi3 n d = (if d = 0 then Inl Divide_error else Inr (n div d)) \<and>
   divdi3 n d = (if d = 0 then Inl Divide_error else Inr (word_of_int (sint n sdiv sint d))) \<and>
   umoddi3 n d = (if d = 0 then Inl Divide_error else Inr (take_bit 32 (n mod d))) \<and>
   moddi3 n d = (if d = 0 then Inl Divide_error else Inr (signed_take_bit 31 (word_of_int (sint n smod sint d))))"
proof -
  have u: "udiv64 n d = (if d = 0 then Inl Divide_error else Inr (n div d))" by (simp add: udiv64_ok udiv64_zero)
  have s: "sdiv64 n d = (if d = 0 then Inl Divide_error else Inr (word_of_int (sint n sdiv sint d)))"
    by (simp add: sdiv64_ok) (simp add: sdiv64_def udiv64_zero Let_def)
  show ?thesis by (intro conjI) (simp_all only: udivdi3_def divdi3_def u s umoddi3_eq moddi3_eq)
qed

text \<open>The 64-bit remainders of the library are cut to 32 bits: \<open>umod64\<close> returns the lower half of the remainder,
  so that \<open>__umoddi3\<close> is right exactly when the remainder is below \<open>2 ^ 32\<close>.\<close>

theorem umoddi3_cut:
  "umoddi3 n d = (if d = 0 then Inl Divide_error else Inr (take_bit 32 (n mod d))) \<and>
   (umoddi3 n d = Inr (n mod d) \<longleftrightarrow> d \<noteq> 0 \<and> n mod d < 2 ^ 32) \<and>
   umoddi3 0x180000000 0x200000000 = Inr 0x80000000"
proof -
  have "take_bit 32 x = x \<longleftrightarrow> x < 2 ^ 32" for x :: u64
  proof -
    have "unat (take_bit 32 x) = unat x mod 2 ^ 32" by (simp only: unsigned_take_bit_eq) (simp add: take_bit_eq_mod)
    moreover have "unat x mod 2 ^ 32 = unat x \<longleftrightarrow> unat x < 2 ^ 32" using mod_less_divisor [of "2 ^ 32" "unat x"] by (metis mod_less zero_less_numeral zero_less_power)
    ultimately show ?thesis using word64_eqI [of "take_bit 32 x" x] by (auto simp: word_less_nat_alt)
  qed
  then show ?thesis by (simp add: umoddi3_eq)
qed

end
