(* ===== verification/C_String.thy ===== *)
theory C_String
  imports Memory
begin

text \<open>
  \<^verbatim>\<open>lib/string.c\<close> on bytes at 32-bit addresses, where pointers are and index arithmetic wraps. Loops that count
  down a \<open>size_t\<close> are recursive in that number; loops that look for the terminator of a string take a
  number of rounds, for which \<open>STRING_MAX\<close>, the size of the address space, is enough.
\<close>

declare neq0_conv [iff del] bot_nat_0.not_eq_extremum [simp del]

section \<open>Blocks of bytes\<close>

fun copy_up :: "nat \<Rightarrow> u32 \<Rightarrow> u32 \<Rightarrow> ram \<Rightarrow> ram \<times> u32" where
  "copy_up 0 dst src m = (m, dst)"
| "copy_up (Suc n) dst src m = copy_up n (dst + 1) (src + 1) (m(dst := m src))"

fun copy_down :: "nat \<Rightarrow> u32 \<Rightarrow> u32 \<Rightarrow> ram \<Rightarrow> ram \<times> u32" where
  "copy_down 0 dst src m = (m, dst)"
| "copy_down (Suc n) dst src m = copy_down n (dst - 1) (src - 1) (m(dst - 1 := m (src - 1)))"

definition memcpy :: "u32 \<Rightarrow> u32 \<Rightarrow> u32 \<Rightarrow> ram \<Rightarrow> (ram \<times> u32) res" where
  "memcpy dst src sz m =
     bindR (ASSERT (dst \<noteq> 0 \<or> sz = 0)) (\<lambda>_. bindR (ASSERT (src \<noteq> 0 \<or> sz = 0)) (\<lambda>_.
     Inr (fst (copy_up (unat sz) dst src m), dst)))"

text \<open>The pointer returned is the one the loop has moved.\<close>

definition memmove :: "u32 \<Rightarrow> u32 \<Rightarrow> u32 \<Rightarrow> ram \<Rightarrow> (ram \<times> u32) res" where
  "memmove dst src sz m =
     bindR (ASSERT (dst \<noteq> 0 \<or> sz = 0)) (\<lambda>_. bindR (ASSERT (src \<noteq> 0 \<or> sz = 0)) (\<lambda>_.
     Inr (if dst < src then copy_up (unat sz) dst src m else copy_down (unat sz) (dst + sz) (src + sz) m)))"

fun memcmp_loop :: "nat \<Rightarrow> u32 \<Rightarrow> u32 \<Rightarrow> ram \<Rightarrow> int" where
  "memcmp_loop 0 a b m = 0"
| "memcmp_loop (Suc n) a b m = (if m a \<noteq> m b then if m a > m b then 1 else - 1 else memcmp_loop n (a + 1) (b + 1) m)"

definition memcmp :: "u32 \<Rightarrow> u32 \<Rightarrow> u32 \<Rightarrow> ram \<Rightarrow> int res" where
  "memcmp a b sz m =
     bindR (ASSERT (a \<noteq> 0 \<or> sz = 0)) (\<lambda>_. bindR (ASSERT (b \<noteq> 0 \<or> sz = 0)) (\<lambda>_. Inr (memcmp_loop (unat sz) a b m)))"

fun memchr_loop :: "nat \<Rightarrow> u32 \<Rightarrow> u8 \<Rightarrow> ram \<Rightarrow> u32" where
  "memchr_loop 0 block ch m = 0"
| "memchr_loop (Suc n) block ch m = (if m block = ch then block else memchr_loop n (block + 1) ch m)"

definition memchr :: "u32 \<Rightarrow> u8 \<Rightarrow> u32 \<Rightarrow> ram \<Rightarrow> u32 res" where
  "memchr block ch sz m = bindR (ASSERT (block \<noteq> 0 \<or> sz = 0)) (\<lambda>_. Inr (memchr_loop (unat sz) block ch m))"

fun set_loop :: "nat \<Rightarrow> u32 \<Rightarrow> u8 \<Rightarrow> ram \<Rightarrow> ram" where
  "set_loop 0 dst c m = m"
| "set_loop (Suc n) dst c m = set_loop n (dst + 1) c (m(dst := c))"

definition memset :: "u32 \<Rightarrow> u8 \<Rightarrow> u32 \<Rightarrow> ram \<Rightarrow> (ram \<times> u32) res" where
  "memset dst c sz m = bindR (ASSERT (dst \<noteq> 0 \<or> sz = 0)) (\<lambda>_. Inr (set_loop (unat sz) dst c m, dst))"

section \<open>Strings\<close>

definition STRING_MAX :: nat where "STRING_MAX = 2 ^ 32"

fun strcmp_loop :: "nat \<Rightarrow> u32 \<Rightarrow> u32 \<Rightarrow> ram \<Rightarrow> int res" where
  "strcmp_loop 0 a b m = Inl Out_of_fuel"
| "strcmp_loop (Suc n) a b m =
     (if m a \<noteq> 0 \<and> m a = m b then strcmp_loop n (a + 1) (b + 1) m else Inr (if m a < m b then - 1 else if m a > m b then 1 else 0))"

definition strcmp :: "u32 \<Rightarrow> u32 \<Rightarrow> ram \<Rightarrow> int res" where
  "strcmp a b m = bindR (ASSERT (a \<noteq> 0)) (\<lambda>_. bindR (ASSERT (b \<noteq> 0)) (\<lambda>_. strcmp_loop STRING_MAX a b m))"

fun strchr_loop :: "nat \<Rightarrow> u32 \<Rightarrow> u8 \<Rightarrow> ram \<Rightarrow> u32 res" where
  "strchr_loop 0 s c m = Inl Out_of_fuel"
| "strchr_loop (Suc n) s c m = (if m s = c then Inr s else if m s = 0 then Inr 0 else strchr_loop n (s + 1) c m)"

definition strchr :: "u32 \<Rightarrow> u8 \<Rightarrow> ram \<Rightarrow> u32 res" where
  "strchr s c m = bindR (ASSERT (s \<noteq> 0)) (\<lambda>_. strchr_loop STRING_MAX s c m)"

text \<open>The scans of \<open>strcspn\<close> and \<open>strspn\<close>: up to the first character that is, or is not, in the other string.\<close>

fun span_loop :: "nat \<Rightarrow> bool \<Rightarrow> u32 \<Rightarrow> u32 \<Rightarrow> u32 \<Rightarrow> ram \<Rightarrow> u32 res" where
  "span_loop 0 stop s chars len m = Inl Out_of_fuel"
| "span_loop (Suc n) stop s chars len m =
     (if m (s + len) \<noteq> 0 then
        bindR (strchr chars (m (s + len)) m) (\<lambda>p. if (p \<noteq> 0) = stop then Inr len else span_loop n stop s chars (len + 1) m)
      else Inr len)"

definition strcspn :: "u32 \<Rightarrow> u32 \<Rightarrow> ram \<Rightarrow> u32 res" where
  "strcspn s stop m = span_loop STRING_MAX True s stop 0 m"

definition strspn :: "u32 \<Rightarrow> u32 \<Rightarrow> ram \<Rightarrow> u32 res" where
  "strspn s skip m = span_loop STRING_MAX False s skip 0 m"

fun strpbrk_loop :: "nat \<Rightarrow> u32 \<Rightarrow> u32 \<Rightarrow> ram \<Rightarrow> u32 res" where
  "strpbrk_loop 0 s stop m = Inl Out_of_fuel"
| "strpbrk_loop (Suc n) s stop m =
     (if m s \<noteq> 0 then bindR (strchr stop (m s) m) (\<lambda>p. if p \<noteq> 0 then Inr s else strpbrk_loop n (s + 1) stop m) else Inr 0)"

definition strpbrk :: "u32 \<Rightarrow> u32 \<Rightarrow> ram \<Rightarrow> u32 res" where
  "strpbrk s stop m = strpbrk_loop STRING_MAX s stop m"

fun strrchr_loop :: "nat \<Rightarrow> u32 \<Rightarrow> u8 \<Rightarrow> u32 \<Rightarrow> ram \<Rightarrow> u32 res" where
  "strrchr_loop 0 s c p m = Inl Out_of_fuel"
| "strrchr_loop (Suc n) s c p m = (if m s \<noteq> 0 then strrchr_loop n (s + 1) c (if m s = c then s else p) m else Inr p)"

definition strrchr :: "u32 \<Rightarrow> u8 \<Rightarrow> ram \<Rightarrow> u32 res" where
  "strrchr s c m = strrchr_loop STRING_MAX s c 0 m"

fun strlen_loop :: "nat \<Rightarrow> u32 \<Rightarrow> ram \<Rightarrow> u32 res" where
  "strlen_loop 0 p m = Inl Out_of_fuel"
| "strlen_loop (Suc n) p m = (if m p \<noteq> 0 then strlen_loop n (p + 1) m else Inr p)"

definition strlen :: "u32 \<Rightarrow> ram \<Rightarrow> u32 res" where
  "strlen s m = bindR (ASSERT (s \<noteq> 0)) (\<lambda>_. bindR (strlen_loop STRING_MAX s m) (\<lambda>p. Inr (p - s)))"

fun strnlen_loop :: "nat \<Rightarrow> u32 \<Rightarrow> u32 \<Rightarrow> ram \<Rightarrow> u32" where
  "strnlen_loop 0 s len m = len"
| "strnlen_loop (Suc n) s len m = (if m (s + len) \<noteq> 0 then strnlen_loop n s (len + 1) m else len)"

definition strnlen :: "u32 \<Rightarrow> u32 \<Rightarrow> ram \<Rightarrow> u32" where
  "strnlen s maxlen m = strnlen_loop (unat maxlen) s 0 m"

fun strstr_loop :: "nat \<Rightarrow> u32 \<Rightarrow> u32 \<Rightarrow> u32 \<Rightarrow> ram \<Rightarrow> u32 res" where
  "strstr_loop 0 hay needle len m = Inr 0"
| "strstr_loop (Suc n) hay needle len m =
     bindR (memcmp hay needle len m) (\<lambda>c. if c = 0 then Inr hay else strstr_loop n (hay + 1) needle len m)"

definition strstr :: "u32 \<Rightarrow> u32 \<Rightarrow> ram \<Rightarrow> u32 res" where
  "strstr hay needle m =
     bindR (strlen hay m) (\<lambda>hay_len. bindR (strlen needle m) (\<lambda>needle_len.
     if hay_len \<ge> needle_len then strstr_loop (Suc (unat (hay_len - needle_len))) hay needle needle_len m else Inr 0))"

definition strlcpy :: "u32 \<Rightarrow> u32 \<Rightarrow> u32 \<Rightarrow> ram \<Rightarrow> (ram \<times> u32) res" where
  "strlcpy dst src sz m =
     bindR (ASSERT (dst \<noteq> 0)) (\<lambda>_. bindR (ASSERT (src \<noteq> 0)) (\<lambda>_.
     bindR (strlen src m) (\<lambda>src_len.
     if sz > 0 then
       let dst_len = (if src_len < sz - 1 then src_len else sz - 1) in
       bindR (memcpy dst src dst_len m) (\<lambda>(m, _). Inr (m(dst + dst_len := 0), src_len))
     else Inr (m, src_len))))"

definition strlcat :: "u32 \<Rightarrow> u32 \<Rightarrow> u32 \<Rightarrow> ram \<Rightarrow> (ram \<times> u32) res" where
  "strlcat dst src sz m =
     bindR (ASSERT (dst \<noteq> 0)) (\<lambda>_. bindR (ASSERT (src \<noteq> 0)) (\<lambda>_.
     bindR (strlen src m) (\<lambda>src_len. bindR (strlen dst m) (\<lambda>dst_len.
     if sz > 0 \<and> dst_len < sz then
       let copy_cnt = (if src_len < sz - dst_len - 1 then src_len else sz - dst_len - 1) in
       bindR (memcpy (dst + dst_len) src copy_cnt m) (\<lambda>(m, _). Inr (m(dst + dst_len + copy_cnt := 0), src_len + dst_len))
     else Inr (m, src_len + dst_len)))))"

section \<open>Tokens\<close>

text \<open>The two scans of \<open>strtok_r\<close>. The first returns \<open>None\<close> at the end of the string.\<close>

fun skip_loop :: "nat \<Rightarrow> u32 \<Rightarrow> u32 \<Rightarrow> ram \<Rightarrow> (u32 \<times> bool) res" where
  "skip_loop 0 s delimiters m = Inl Out_of_fuel"
| "skip_loop (Suc n) s delimiters m =
     bindR (strchr delimiters (m s) m) (\<lambda>p.
     if p \<noteq> 0 then if m s = 0 then Inr (s, False) else skip_loop n (s + 1) delimiters m else Inr (s, True))"

fun token_loop :: "nat \<Rightarrow> u32 \<Rightarrow> u32 \<Rightarrow> ram \<Rightarrow> u32 res" where
  "token_loop 0 s delimiters m = Inl Out_of_fuel"
| "token_loop (Suc n) s delimiters m =
     bindR (strchr delimiters (m s) m) (\<lambda>p. if p = 0 then token_loop n (s + 1) delimiters m else Inr s)"

text \<open>\<open>save\<close> is \<open>*save_ptr\<close>; the results are the memory, the new \<open>*save_ptr\<close> and the token, 0 at the end.\<close>

definition strtok_r :: "u32 \<Rightarrow> u32 \<Rightarrow> u32 \<Rightarrow> ram \<Rightarrow> (ram \<times> u32 \<times> u32) res" where
  "strtok_r s delimiters save m =
     bindR (ASSERT (delimiters \<noteq> 0)) (\<lambda>_.
     let s = (if s = 0 then save else s) in
     bindR (ASSERT (s \<noteq> 0)) (\<lambda>_.
     bindR (skip_loop STRING_MAX s delimiters m) (\<lambda>(s, more).
     if \<not> more then Inr (m, s, 0)
     else
       bindR (token_loop STRING_MAX s delimiters m) (\<lambda>e.
       if m e \<noteq> 0 then Inr (m(e := 0), e + 1, s) else Inr (m, e, s)))))"

section \<open>Copying\<close>

lemma store_bytes_Cons:
  assumes "length bs < 2 ^ 32"
  shows "store_bytes m a (b # bs) = store_bytes (m(a := b)) (a + 1) bs"
proof
  fix x
  show "store_bytes m a (b # bs) x = store_bytes (m(a := b)) (a + 1) bs x"
  proof (cases "x = a")
    case True
    then have "x - (a + 1) = 4294967295" by simp
    then have "unat (x - (a + 1)) = 4294967295" by (simp only: unat_numeral) simp
    then show ?thesis using True assms by (simp add: store_bytes_def)
  next
    case False
    then have "x - a \<noteq> 0" by simp
    then obtain k where k: "unat (x - a) = Suc k" by (metis not0_implies_Suc unat_eq_0)
    have "x - (a + 1) = x - a - 1" by simp
    then have "unat (x - (a + 1)) = k" using k unat_minus_one [of "x - a"] \<open>x - a \<noteq> 0\<close> by (simp only: \<open>x - (a + 1) = x - a - 1\<close>) simp
    then show ?thesis using False k by (simp add: store_bytes_def)
  qed
qed

lemma store_bytes_snoc:
  assumes "length bs < 2 ^ 32"
  shows "store_bytes m a (bs @ [b]) = (store_bytes m a bs)(a + of_nat (length bs) := b)"
proof
  fix x
  have u: "unat (of_nat (length bs) :: u32) = length bs" using assms by (simp add: unat_of_nat)
  have "x = a + of_nat (length bs) \<longleftrightarrow> unat (x - a) = length bs"
  proof
    assume "unat (x - a) = length bs"
    then have "of_nat (unat (x - a)) = (of_nat (length bs) :: u32)" by simp
    then have "x - a = of_nat (length bs)" by simp
    then show "x = a + of_nat (length bs)" by (simp add: algebra_simps)
  qed (simp add: u)
  then show "store_bytes m a (bs @ [b]) x = ((store_bytes m a bs)(a + of_nat (length bs) := b)) x"
    by (auto simp: store_bytes_def nth_append)
qed

lemma load_bytes_Suc: "load_bytes m a (Suc n) = m a # load_bytes m (a + 1) n" "load_bytes m a (Suc n) = load_bytes m a n @ [m (a + of_nat n)]"
proof -
  show "load_bytes m a (Suc n) = m a # load_bytes m (a + 1) n"
    by (rule nth_equalityI) (auto simp: load_bytes_def nth_Cons' add.assoc simp del: upt_Suc)
  show "load_bytes m a (Suc n) = load_bytes m a n @ [m (a + of_nat n)]" by (simp add: load_bytes_def)
qed

text \<open>Copying upwards reads no byte that it has written before.\<close>

lemma copy_up_ok:
  assumes "\<forall>i j. i < j \<longrightarrow> j < n \<longrightarrow> dst + of_nat i \<noteq> src + of_nat j" "n < 2 ^ 32"
  shows "copy_up n dst src m = (store_bytes m dst (load_bytes m src n), dst + of_nat n)"
  using assms
proof (induction n arbitrary: dst src m)
  case (Suc n)
  let ?m = "m(dst := m src)"
  have "\<forall>i j. i < j \<longrightarrow> j < n \<longrightarrow> dst + 1 + of_nat i \<noteq> src + 1 + of_nat j"
  proof (intro allI impI)
    fix i j assume "i < j" "j < n"
    then show "dst + 1 + of_nat i \<noteq> src + 1 + of_nat j" using Suc.prems(1) [rule_format, of "Suc i" "Suc j"] by (simp add: add.assoc)
  qed
  then have "copy_up n (dst + 1) (src + 1) ?m = (store_bytes ?m (dst + 1) (load_bytes ?m (src + 1) n), dst + 1 + of_nat n)"
    using Suc.prems(2) by (intro Suc.IH) simp_all
  moreover have "load_bytes ?m (src + 1) n = load_bytes m (src + 1) n"
  proof -
    have "src + 1 + of_nat j \<noteq> dst" if "j < n" for j
    proof -
      have "dst + of_nat 0 \<noteq> src + of_nat (Suc j)" by (rule Suc.prems(1) [rule_format]) (use that in simp_all)
      then show ?thesis by (auto simp: add.assoc)
    qed
    then show ?thesis by (simp add: load_bytes_def)
  qed
  ultimately show ?case
    using Suc.prems(2) store_bytes_Cons [of "load_bytes m (src + 1) n" m dst "m src"] by (simp add: load_bytes_Suc(1) add.assoc)
qed (simp add: store_bytes_def load_bytes_def)

lemma copy_down_ok:
  assumes "\<forall>i j. j < i \<longrightarrow> i < n \<longrightarrow> dst + of_nat i \<noteq> src + of_nat j" "n < 2 ^ 32"
  shows "copy_down n (dst + of_nat n) (src + of_nat n) m = (store_bytes m dst (load_bytes m src n), dst)"
  using assms
proof (induction n arbitrary: m)
  case (Suc n)
  let ?m = "m(dst + of_nat n := m (src + of_nat n))"
  have "copy_down n (dst + of_nat n) (src + of_nat n) ?m = (store_bytes ?m dst (load_bytes ?m src n), dst)"
    using Suc.prems by (intro Suc.IH) auto
  moreover have "load_bytes ?m src n = load_bytes m src n"
  proof -
    have "src + of_nat j \<noteq> dst + of_nat n" if "j < n" for j
      by (rule not_sym, rule Suc.prems(1) [rule_format]) (use that in simp_all)
    then show ?thesis by (simp add: load_bytes_def)
  qed
  moreover have "store_bytes ?m dst (load_bytes m src n) = store_bytes m dst (load_bytes m src (Suc n))"
  proof -
    have "unat (of_nat n :: u32) = n" using Suc.prems(2) by (simp add: unat_of_nat)
    then have "store_bytes ?m dst (load_bytes m src n) = (store_bytes m dst (load_bytes m src n))(dst + of_nat n := m (src + of_nat n))"
      by (auto simp: store_bytes_def fun_eq_iff)
    then show ?thesis using Suc.prems(2) store_bytes_snoc [of "load_bytes m src n" m dst "m (src + of_nat n)"] by (simp add: load_bytes_Suc(2))
  qed
  ultimately show ?case by (simp add: algebra_simps)
qed (simp add: store_bytes_def load_bytes_def)

lemma memcpy_ok:
  assumes "\<forall>i j. i < j \<longrightarrow> j < unat sz \<longrightarrow> dst + of_nat i \<noteq> src + of_nat j" "dst \<noteq> 0" "src \<noteq> 0"
  shows "memcpy dst src sz m = Inr (store_bytes m dst (load_bytes m src (unat sz)), dst)"
proof -
  have "unat sz < 2 ^ 32" using unsigned_less [where w = sz and 'a = nat] by simp
  then show ?thesis using assms copy_up_ok [OF assms(1)] by (simp add: memcpy_def)
qed

text \<open>Addresses that do not wrap around.\<close>

lemma addr_less:
  fixes a b :: u32
  assumes "unat a + i < 2 ^ 32" "unat b + j < 2 ^ 32" "a + of_nat i = b + of_nat j"
  shows "unat a + i = unat b + j"
proof -
  have "unat (a + of_nat i) = unat a + i" if "unat a + i < 2 ^ 32" for a :: u32 and i
  proof -
    have "unat (of_nat i :: u32) = i" using that by (simp add: unat_of_nat)
    then show ?thesis using that by (simp add: unat_word_ariths)
  qed
  then show ?thesis using assms by metis
qed

text \<open>\<open>memmove\<close> copies blocks that overlap: what is at \<open>dst\<close> afterwards is what was at \<open>src\<close> before, and no other
  byte has changed. The pointer it returns is \<open>dst\<close> only when the copy ran downwards; otherwise it is the
  end of the block, which is not what its comment says.\<close>

theorem memmove_overlap:
  assumes "dst \<noteq> 0" "src \<noteq> 0" "unat dst + unat sz \<le> 2 ^ 32" "unat src + unat sz \<le> 2 ^ 32"
  shows "memmove dst src sz m = Inr (store_bytes m dst (load_bytes m src (unat sz)), if dst < src then dst + sz else dst)"
proof -
  have n: "unat sz < 2 ^ 32" using unsigned_less [where w = sz and 'a = nat] by simp
  have e: "unat dst + i = unat src + j" if "dst + of_nat i = src + of_nat j" "i < unat sz" "j < unat sz" for i j
    by (rule addr_less) (use that assms(3,4) in linarith)+
  show ?thesis
  proof (cases "dst < src")
    case True
    then have "\<forall>i j. i < j \<longrightarrow> j < unat sz \<longrightarrow> dst + of_nat i \<noteq> src + of_nat j"
      using e by (fastforce simp: word_less_nat_alt)
    from copy_up_ok [OF this n] show ?thesis using True assms(1,2) by (simp add: memmove_def)
  next
    case False
    then have "\<forall>i j. j < i \<longrightarrow> i < unat sz \<longrightarrow> dst + of_nat i \<noteq> src + of_nat j"
      using e by (fastforce simp: word_less_nat_alt)
    from copy_down_ok [OF this n] show ?thesis using False assms(1,2) by (simp add: memmove_def)
  qed
qed

theorem memmove_overlap_witness:
  "memmove 0x1001 0x1000 3 (\<lambda>a. ucast a) = Inr (store_bytes (\<lambda>a. ucast a) 0x1001 (load_bytes (\<lambda>a. ucast a) 0x1000 3), 0x1001)"
  using memmove_overlap [of "0x1001" "0x1000" 3 "\<lambda>a. ucast a"] by simp

section \<open>Strings in memory\<close>

definition string_at :: "ram \<Rightarrow> u32 \<Rightarrow> u8 list \<Rightarrow> bool" where
  "string_at m p s \<longleftrightarrow> p \<noteq> 0 \<and> unat p + length s < 2 ^ 32 \<and> 0 \<notin> set s \<and> load_bytes m p (Suc (length s)) = s @ [0]"

lemma string_at_Cons: "string_at m p (c # s) \<Longrightarrow> m p = c \<and> c \<noteq> 0 \<and> string_at m (p + 1) s"
proof -
  assume a: "string_at m p (c # s)"
  then have "unat p + 1 < 2 ^ 32" by (simp add: string_at_def)
  then have "unat (p + 1) = unat p + 1" by (simp add: unat_word_ariths)
  moreover from this have "p + 1 \<noteq> 0" by auto
  ultimately show ?thesis using a by (auto simp: string_at_def load_bytes_Suc(1) [of _ _ "Suc _"] simp del: load_bytes_Suc(2))
qed

lemma string_at_Nil: "string_at m p [] \<Longrightarrow> m p = 0"
  by (simp add: string_at_def load_bytes_Suc(1)) 

lemma strlen_loop_ok: "string_at m p s \<Longrightarrow> length s < n \<Longrightarrow> strlen_loop n p m = Inr (p + of_nat (length s))"
proof (induction s arbitrary: n p)
  case Nil
  then show ?case using string_at_Nil by (cases n) simp_all
next
  case (Cons c s)
  then obtain k where k: "n = Suc k" by (cases n) simp_all
  show ?case using string_at_Cons [OF Cons.prems(1)] Cons.IH [of "p + 1" k] Cons.prems(2) k by (simp add: add.assoc)
qed

lemma strlen_ok: "string_at m p s \<Longrightarrow> strlen p m = Inr (of_nat (length s))"
proof -
  assume a: "string_at m p s"
  have "length s < STRING_MAX" "p \<noteq> 0" using a by (simp_all add: string_at_def STRING_MAX_def)
  then show ?thesis using strlen_loop_ok [OF a] by (simp add: strlen_def)
qed

text \<open>C37. \<open>strlcpy\<close> into a buffer of \<open>sz\<close> bytes that does not overlap the source leaves the string there, cut to
  \<open>sz - 1\<close> characters and always terminated, changes nothing outside the buffer, and returns the length of the
  source.\<close>

theorem strlcpy_cuts:
  assumes s: "string_at m src s" and d: "dst \<noteq> 0" "0 < sz" "unat dst + unat sz \<le> 2 ^ 32"
    and apart: "unat dst + unat sz \<le> unat src \<or> unat src + length s < unat dst"
  defines "r \<equiv> take (unat sz - 1) s"
  shows "strlcpy dst src sz m = Inr (store_bytes m dst (r @ [0]), of_nat (length s)) \<and>
     string_at (store_bytes m dst (r @ [0])) dst r \<and> string_at (store_bytes m dst (r @ [0])) src s"
proof -
  let ?m = "store_bytes m dst (r @ [0])"
  have sz: "unat sz \<noteq> 0" "unat sz < 2 ^ 32" using d(2) unsigned_less [where w = sz and 'a = nat] by (simp_all add: word_less_nat_alt)
  have sd: "src \<noteq> 0" "unat src + length s < 2 ^ 32" "0 \<notin> set s" "load_bytes m src (Suc (length s)) = s @ [0]"
    using s by (simp_all add: string_at_def)
  have lr: "length r = min (length s) (unat sz - 1)" "length r \<le> length s" "length r < unat sz" using sz by (auto simp: r_def)
  define dl where "dl = (if of_nat (length s) < sz - 1 then of_nat (length s) else sz - 1)"
  have u: "unat (of_nat (length s) :: u32) = length s" "unat (sz - 1) = unat sz - 1" using sd(2) d(2) by (simp_all add: unat_of_nat unat_minus_one)
  then have dl: "unat dl = length r" by (auto simp: dl_def word_less_nat_alt lr(1))
  have lm: "load_bytes m src (length r) = r"
  proof -
    have "load_bytes m src (length r) = take (length r) (load_bytes m src (Suc (length s)))" using lr(2) by (simp add: load_bytes_def take_map)
    then show ?thesis using sd(4) lr(2) by (simp add: r_def min_def)
  qed
  have far: "dst + of_nat i \<noteq> src + of_nat j" if "i < unat sz" "j \<le> length s" for i j
    using addr_less [of dst i src j] that d(3) sd(2) apart by auto
  have "memcpy dst src dl m = Inr (store_bytes m dst r, dst)"
    using memcpy_ok [of dl dst src m] far lr(2,3) d(1) sd(1) dl lm by auto
  moreover have "of_nat (unat dl) = (of_nat (length r) :: u32)" by (simp only: dl)
  then have "dst + dl = dst + of_nat (length r)" by simp
  ultimately have run: "strlcpy dst src sz m = Inr (?m, of_nat (length s))"
    using d(1,2) sd(1) strlen_ok [OF s] lr sz store_bytes_snoc [of r m dst 0] by (simp add: strlcpy_def dl_def [symmetric] Let_def)
  have "load_bytes ?m dst (Suc (length r)) = r @ [0]" using load_store_bytes [of "r @ [0]" m dst] lr(3) sz(2) by simp
  then have "string_at ?m dst r" using d lr sd(3) by (auto simp: string_at_def r_def dest: in_set_takeD)
  moreover have "load_bytes ?m src (Suc (length s)) = load_bytes m src (Suc (length s))"
  proof -
    have "?m (src + of_nat j) = m (src + of_nat j)" if "j \<le> length s" for j
    proof -
      have "\<not> unat (src + of_nat j - dst) < unat sz"
      proof
        assume a: "unat (src + of_nat j - dst) < unat sz"
        have "dst + of_nat (unat (src + of_nat j - dst)) = src + of_nat j" by simp
        then show False using far [OF a that] by blast
      qed
      then show ?thesis using lr(3) by (simp add: store_bytes_def)
    qed
    then show ?thesis by (simp add: load_bytes_def less_Suc_eq_le)
  qed
  then have "string_at ?m src s" using s by (simp add: string_at_def)
  ultimately show ?thesis using run by simp
qed

theorem strlcpy_cuts_witness:
  "\<exists>m'. strlcpy 0x2000 0x1000 4 (store_bytes (\<lambda>_. 0) 0x1000 [97, 98, 99, 100, 101]) = Inr (m', 5) \<and> string_at m' 0x2000 [97, 98, 99]"
proof -
  let ?m = "store_bytes (\<lambda>_. 0) 0x1000 [97, 98, 99, 100, 101] :: ram"
  have "string_at ?m 0x1000 [97, 98, 99, 100, 101]" by (simp add: string_at_def load_bytes_def store_bytes_def upt_rec)
  from strlcpy_cuts [OF this, where dst = "0x2000" and sz = 4] show ?thesis by auto
qed

end
