(* ===== verification/Program_Start.thy ===== *)
theory Program_Start
  imports C_String Arithmetic
begin

text \<open>
  The command line of a new process (\<open>start_process\<close> in \<^verbatim>\<open>userprog/process.c\<close>): it is cut into words in place, copied to the
  top of the user stack, and pointers to the words are pushed below it, as the C calling convention
  wants them for \<open>main (argc, argv)\<close>.
\<close>

declare neq0_conv [iff del] bot_nat_0.not_eq_extremum [simp del]

unbundle bit_operations_syntax

section \<open>Model\<close>

definition MAX_ARGS :: nat where "MAX_ARGS = 100"

text \<open>
  The loop over the characters of the command line, which is the rest of the string; the results are the
  string as it is changed, the offsets of the words and the number of characters passed.
\<close>

fun parse_loop :: "u8 list \<Rightarrow> bool \<Rightarrow> nat list \<Rightarrow> nat \<Rightarrow> u8 list \<Rightarrow> u8 list \<times> nat list \<times> nat" where
  "parse_loop [] in_word argv num_chars done = (done, argv, num_chars)"
| "parse_loop (c # cs) in_word argv num_chars done =
     (if length argv < MAX_ARGS - 1 then
        let (in_word, argv, c) = (if \<not> in_word \<and> c \<noteq> 32 then (True, argv @ [num_chars], c)
              else if in_word \<and> c = 32 then (False, argv, 0) else (in_word, argv, c));
            num_chars = num_chars + 1 in
        if PGSIZE \<le> (length argv + 5) * 4 + num_chars then (done @ c # cs, argv, num_chars)
        else parse_loop cs in_word argv num_chars (done @ [c])
      else (done @ c # cs, argv, num_chars))"

text \<open>Pushing words, the first one first.\<close>

fun push_words :: "u32 list \<Rightarrow> u32 \<Rightarrow> ram \<Rightarrow> ram \<times> u32" where
  "push_words [] esp m = (m, esp)"
| "push_words (w # ws) esp m = push_words ws (esp - 4) (store32 m (esp - 4) w)"

text \<open>
  \<open>m\<close> is the memory of the process. The word pushed behind the pointers is the address of the first of
  them, and the last one the return address.
\<close>

definition push_args :: "u8 list \<Rightarrow> nat list \<Rightarrow> nat \<Rightarrow> u32 \<Rightarrow> ram \<Rightarrow> ram \<times> u32" where
  "push_args file_name argv num_chars esp m =
     (let num_chars = num_chars + 1;
          esp = esp - 1 - of_nat num_chars;
          m = (store_bytes m esp (take num_chars (file_name @ [0])))(esp + of_nat num_chars := 0);
          args = map (\<lambda>i. esp + of_nat i) argv @ [0];
          (m, esp) = push_words (rev args) (esp AND 0xFFFFFFFC) m
      in push_words [esp, of_nat (length argv), 0] esp m)"

definition start_args :: "u8 list \<Rightarrow> u32 \<Rightarrow> ram \<Rightarrow> ram \<times> u32" where
  "start_args file_name esp m =
     (let (file_name, argv, num_chars) = parse_loop file_name False [] 0 [] in push_args file_name argv num_chars esp m)"

section \<open>Words of a command line\<close>

text \<open>The words between spaces, with their offsets.\<close>

function toks :: "nat \<Rightarrow> u8 list \<Rightarrow> (nat \<times> u8 list) list" where
  "toks k [] = []"
| "toks k (c # cs) =
     (if c = 32 then toks (Suc k) cs
      else let w = c # takeWhile (\<lambda>x. x \<noteq> 32) cs in (k, w) # toks (k + length w) (dropWhile (\<lambda>x. x \<noteq> 32) cs))"
  by pat_completeness auto
termination
  by (relation "measure (\<lambda>(k, cs). length cs)") (auto simp: le_imp_less_Suc length_dropWhile_le)

fun blank :: "bool \<Rightarrow> u8 list \<Rightarrow> u8 list" where
  "blank w [] = []"
| "blank w (c # cs) = (if w \<and> c = 32 then 0 # blank False cs else c # blank (w \<or> c \<noteq> 32) cs)"

fun starts :: "bool \<Rightarrow> nat \<Rightarrow> u8 list \<Rightarrow> nat list" where
  "starts w k [] = []"
| "starts w k (c # cs) = (if \<not> w \<and> c \<noteq> 32 then k # starts True (Suc k) cs else starts (w \<and> c \<noteq> 32) (Suc k) cs)"

lemma length_blank [simp]: "length (blank w cs) = length cs"
  by (induction w cs rule: blank.induct) auto

lemma parse_loop_ok:
  assumes "length argv + length (starts w k cs) < MAX_ARGS - 1" "4 * (length argv + length (starts w k cs)) + 20 + k + length cs < PGSIZE"
  shows "parse_loop cs w argv k done = (done @ blank w cs, argv @ starts w k cs, k + length cs)"
  using assms
proof (induction cs arbitrary: w argv k "done")
  case (Cons c cs)
  show ?case
  proof (cases "\<not> w \<and> c \<noteq> 32")
    case True
    then show ?thesis using Cons.IH [of "argv @ [k]" True "Suc k" "done @ [c]"] Cons.prems by (simp add: MAX_ARGS_def PGSIZE_def)
  next
    case False
    then show ?thesis
      using Cons.IH [of argv "w \<and> c \<noteq> 32" "Suc k" "done @ [if w \<and> c = 32 then 0 else c]"] Cons.prems
      by (auto simp: MAX_ARGS_def PGSIZE_def)
  qed
qed simp

lemma starts_word: "starts True k cs = starts False (k + length (takeWhile (\<lambda>x. x \<noteq> 32) cs)) (dropWhile (\<lambda>x. x \<noteq> 32) cs)"
  by (induction cs arbitrary: k) auto

lemma starts_toks: "starts False k cs = map fst (toks k cs)"
  by (induction k cs rule: toks.induct) (auto simp: Let_def starts_word)

lemma blank_word: "blank True cs = takeWhile (\<lambda>x. x \<noteq> 32) cs @ (case dropWhile (\<lambda>x. x \<noteq> 32) cs of [] \<Rightarrow> [] | c # r \<Rightarrow> 0 # blank False r)"
  by (induction cs) (auto split: list.splits)

text \<open>In the string as it is changed, every word is followed by a zero.\<close>

lemma toks_blank:
  assumes "(i, w) \<in> set (toks k cs)"
  shows "\<exists>j. i = k + j \<and> j + length w \<le> length cs \<and> w \<noteq> [] \<and> 32 \<notin> set w \<and> set w \<subseteq> set cs \<and>
     take (Suc (length w)) (drop j (blank False cs @ [0])) = w @ [0]"
  using assms
proof (induction k cs rule: toks.induct)
  case (2 k c cs)
  show ?case
  proof (cases "c = 32")
    case True
    then obtain j where "i = Suc k + j" "j + length w \<le> length cs" "w \<noteq> []" "32 \<notin> set w" "set w \<subseteq> set cs"
      "take (Suc (length w)) (drop j (blank False cs @ [0])) = w @ [0]" using 2 by auto
    then show ?thesis using True by (intro exI [of _ "Suc j"]) auto
  next
    case False
    let ?u = "takeWhile (\<lambda>x. x \<noteq> 32) cs" and ?r = "dropWhile (\<lambda>x. x \<noteq> 32) cs"
    have l: "length cs = length ?u + length ?r" by (metis length_append takeWhile_dropWhile_id)
    have s: "set ?u \<subseteq> set cs" "set ?r \<subseteq> set cs" "32 \<notin> set ?u" by (auto dest: set_takeWhileD set_dropWhileD)
    have b: "blank False (c # cs) = c # ?u @ (case ?r of [] \<Rightarrow> [] | c # r \<Rightarrow> 0 # blank False r)" using False by (simp add: blank_word)
    show ?thesis
    proof (cases "(i, w) = (k, c # ?u)")
      case True
      then show ?thesis using False b l s by (intro exI [of _ 0]) (auto split: list.splits)
    next
      case F: False
      then have m: "(i, w) \<in> set (toks (k + length (c # ?u)) ?r)" using 2(3) False by (auto simp: Let_def)
      obtain j where j: "i = k + length (c # ?u) + j" "j + length w \<le> length ?r" "w \<noteq> []" "32 \<notin> set w" "set w \<subseteq> set ?r"
         "take (Suc (length w)) (drop j (blank False ?r @ [0])) = w @ [0]"
        using 2(2) [OF False refl m] by blast
      obtain a r where r: "?r = a # r" using j(2,3) by (cases ?r) auto
      have "a = 32" using r hd_dropWhile [of "\<lambda>x. x \<noteq> 32" cs] by (metis list.distinct(1) list.sel(1))
      then have bf: "blank False ?r = 32 # blank False r" by (simp add: r)
      have "j \<noteq> 0"
      proof
        assume "j = 0"
        then have "w @ [0] = take (Suc (length w)) (32 # blank False r @ [0])" using j(6) bf by simp
        then have "hd w = 32" using j(3) by (cases w) simp_all
        then show False using j(3,4) by (cases w) simp_all
      qed
      then obtain j' where j': "j = Suc j'" using not0_implies_Suc by blast
      have "take (Suc (length w)) (drop (length (c # ?u) + j) (blank False (c # cs) @ [0])) = w @ [0]"
        using j(6) unfolding b r bf j' by (simp add: r \<open>a = 32\<close>)
      then show ?thesis using j(1-5) l s(2) by (intro exI [of _ "length (c # ?u) + j"]) auto
    qed
  qed
qed simp

section \<open>The stack\<close>

text \<open>Pushing changes the words below the stack pointer and nothing else.\<close>

lemma load32_cong: "(\<And>i. i < 4 \<Longrightarrow> m (a + of_nat i) = m' (a + of_nat i)) \<Longrightarrow> load32 m a = load32 m' a"
  unfolding load32_def by (metis load_bytes_cong)

lemma load32_store32: "load32 (store32 m a w) a = w"
  using load_store_bytes [of "word_bytes w" m a] by (simp add: load32_def store32_def)

lemma push_words_ok:
  assumes "4 * length ws \<le> unat esp"
  shows "\<exists>m'. push_words ws esp m = (m', esp - of_nat (4 * length ws)) \<and>
     (\<forall>x. unat x < unat esp - 4 * length ws \<or> unat esp \<le> unat x \<longrightarrow> m' x = m x) \<and>
     (\<forall>i < length ws. load32 m' (esp - of_nat (4 * Suc i)) = ws ! i)"
  using assms
proof (induction ws arbitrary: esp m)
  case (Cons w ws)
  have e: "unat (esp - 4) = unat esp - 4" using Cons.prems by (simp add: unat_sub word_le_nat_alt)
  have b: "unat esp < 2 ^ 32" using unsigned_less [where w = esp and 'a = nat] by simp
  let ?m = "store32 m (esp - 4) w"
  have le: "4 * length ws \<le> unat (esp - 4)" using Cons.prems e by simp
  obtain m' where m': "push_words ws (esp - 4) ?m = (m', esp - 4 - of_nat (4 * length ws))"
    "\<And>x. unat x < unat (esp - 4) - 4 * length ws \<or> unat (esp - 4) \<le> unat x \<Longrightarrow> m' x = ?m x"
    "\<And>i. i < length ws \<Longrightarrow> load32 m' (esp - 4 - of_nat (4 * Suc i)) = ws ! i"
    using Cons.IH [of "esp - 4" ?m, OF le] by blast
  have st: "?m x = m x" if "unat x < unat esp - 4 \<or> unat esp \<le> unat x" for x
    using store_bytes_nat [of "esp - 4" "word_bytes w" m x] that e b Cons.prems by (auto simp: store32_def)
  have "m' x = m x" if "unat x < unat esp - 4 * length (w # ws) \<or> unat esp \<le> unat x" for x
  proof -
    have "m' x = ?m x" using that by (intro m'(2)) (auto simp: e)
    also have "\<dots> = m x" using that by (intro st) auto
    finally show ?thesis .
  qed
  moreover have "load32 m' (esp - of_nat (4 * Suc i)) = (w # ws) ! i" if i: "i < length (w # ws)" for i
  proof (cases i)
    case 0
    have "m' (esp - 4 + of_nat j) = ?m (esp - 4 + of_nat j)" if "j < 4" for j
    proof (rule m'(2))
      have "unat (of_nat j :: u32) = j" using that by (simp add: unat_of_nat)
      then have "unat (esp - 4 + of_nat j) = unat (esp - 4) + j" using e b that Cons.prems by (simp add: unat_word_ariths)
      then show "unat (esp - 4 + of_nat j) < unat (esp - 4) - 4 * length ws \<or> unat (esp - 4) \<le> unat (esp - 4 + of_nat j)" by simp
    qed
    then have "load32 m' (esp - 4) = load32 ?m (esp - 4)" by (rule load32_cong)
    then show ?thesis using 0 by (simp add: load32_store32)
  next
    case (Suc k)
    then show ?thesis using m'(3) [of k] i by (simp add: algebra_simps)
  qed
  ultimately show ?case using m'(1) by (auto simp: algebra_simps)
qed simp

lemma align4: "unat (w AND 0xFFFFFFFC :: u32) = unat w div 4 * 4"
proof -
  have "(0xFFFFFFFC :: u32) = NOT (mask 2)" by (simp add: mask_eq_decr_exp)
  then have "w AND 0xFFFFFFFC = w AND NOT (mask 2)" by (simp only:)
  also have "\<dots> = push_bit 2 (drop_bit 2 w)"
  proof -
    have "Suc (Suc (n - 2)) = n" if "2 \<le> n" for n :: nat using that by simp
    then show ?thesis by (intro bit_word_eqI) (auto simp: bit_simps)
  qed
  finally have "w AND 0xFFFFFFFC = push_bit 2 (drop_bit 2 w)" .
  moreover have "unat w < 2 ^ 32" using unsigned_less [where w = w and 'a = nat] by simp
  ultimately show ?thesis using unat_push [of "drop_bit 2 w" 2] unat_drop [of 2 w] by simp
qed

lemma unat_below: "n \<le> unat w \<Longrightarrow> unat (w - of_nat n :: u32) = unat w - n"
proof -
  assume n: "n \<le> unat w"
  moreover have "unat w < 2 ^ 32" using unsigned_less [where w = w and 'a = nat] by simp
  ultimately have "unat (of_nat n :: u32) = n" by (simp add: unat_of_nat)
  then show ?thesis using n by (simp add: unat_sub word_le_nat_alt)
qed

lemma unat_above: "unat w + n < 2 ^ 32 \<Longrightarrow> unat (w + of_nat n :: u32) = unat w + n"
  by (simp add: unat_word_ariths unat_of_nat)

lemma load_bytes_stored:
  assumes "i + n \<le> length bs" "length bs \<le> 2 ^ 32"
  shows "load_bytes (store_bytes m a bs) (a + of_nat i) n = take n (drop i bs)"
proof (rule nth_equalityI)
  fix j assume j: "j < length (load_bytes (store_bytes m a bs) (a + of_nat i) n)"
  then have "i + j < length bs" using assms by simp
  then have "unat (of_nat (i + j) :: u32) = i + j" using assms(2) unat_of_nat [of "i + j", where 'a = 32] by simp
  then show "load_bytes (store_bytes m a bs) (a + of_nat i) n ! j = take n (drop i bs) ! j"
    using j \<open>i + j < length bs\<close> by (simp add: load_bytes_def store_bytes_def add.assoc)
qed (use assms in simp)

text \<open>The words that are pushed after the strings.\<close>

lemma push_args_stack:
  assumes esp: "unat esp = 0xc0000000 - 1" and sz: "length f + 4 * length argv + 22 \<le> PGSIZE"
  defines "e \<equiv> esp - of_nat (length f + 2)"
  shows "\<exists>m' esp'. push_args f argv (length f) esp m = (m', esp') \<and>
     unat esp' = unat e div 4 * 4 - 4 * length argv - 16 \<and>
     load32 m' esp' = 0 \<and> load32 m' (esp' + 4) = of_nat (length argv) \<and> load32 m' (esp' + 8) = esp' + 12 \<and>
     (\<forall>i < length argv. load32 m' (esp' + 12 + 4 * of_nat i) = e + of_nat (argv ! i)) \<and>
     load32 m' (esp' + 12 + 4 * of_nat (length argv)) = 0 \<and>
     (\<forall>x. unat x < unat esp' \<or> unat e \<le> unat x \<longrightarrow> m' x = store_bytes m e (f @ [0, 0]) x)"
proof -
  let ?n = "length argv" and ?m = "store_bytes m e (f @ [0, 0])"
  define e1 where "e1 = e AND 0xFFFFFFFC"
  define args where "args = map (\<lambda>i. e + of_nat i) argv @ [0]"
  have e: "unat e = 0xc0000000 - 1 - (length f + 2)" unfolding e_def using esp sz unat_below [of "length f + 2" esp] by (simp add: PGSIZE_def)
  have e1: "unat e1 = unat e div 4 * 4" "unat e1 \<le> unat e" "4096 \<le> unat e1"
    using align4 [of e] e sz by (simp_all add: e1_def PGSIZE_def)
  have l: "length (rev args) = Suc ?n" "4 * length (rev args) \<le> unat e1" using sz e1(3) by (simp_all add: args_def PGSIZE_def)
  define e2 where "e2 = e1 - of_nat (4 * length (rev args))"
  have e2: "unat e2 = unat e1 - 4 * Suc ?n" "4 * length [e2, of_nat ?n, 0] \<le> unat e2"
    using unat_below [OF l(2)] l(1) e1(3) sz by (simp_all add: e2_def PGSIZE_def)
  obtain m2 where m2: "push_words (rev args) e1 ?m = (m2, e2)"
    "\<And>x. unat x < unat e2 \<or> unat e1 \<le> unat x \<Longrightarrow> m2 x = ?m x"
    "\<And>i. i < Suc ?n \<Longrightarrow> load32 m2 (e1 - of_nat (4 * Suc i)) = rev args ! i"
    using push_words_ok [OF l(2), of ?m] l(1) e2(1) unfolding e2_def [symmetric] by auto
  obtain m3 where m3: "push_words [e2, of_nat ?n, 0] e2 m2 = (m3, e2 - 12)"
    "\<And>x. unat x < unat e2 - 12 \<or> unat e2 \<le> unat x \<Longrightarrow> m3 x = m2 x"
    "\<And>i. i < 3 \<Longrightarrow> load32 m3 (e2 - of_nat (4 * Suc i)) = [e2, of_nat ?n, 0] ! i"
    using push_words_ok [OF e2(2), of m2] by auto
  have run: "push_args f argv (length f) esp m = (m3, e2 - 12)"
  proof -
    have "length (f @ [0]) < 2 ^ 32" using sz by (simp add: PGSIZE_def)
    from store_bytes_snoc [OF this, of m e 0]
    have "(store_bytes m e (f @ [0]))(esp - 1 := 0) = ?m" by (simp add: e_def algebra_simps)
    moreover have "esp - 1 - of_nat (length f + 1) = e" by (simp add: e_def)
    ultimately show ?thesis using m2(1) m3(1) by (simp add: push_args_def Let_def e1_def args_def)
  qed
  have u3: "unat (e2 - 12) = unat e2 - 12" using e2(2) unat_below [of 12 e2] by simp
  have ptr: "load32 m3 (e2 + 4 * of_nat i) = args ! i" if i: "i < Suc ?n" for i
  proof -
    have "e2 + of_nat (4 * i) = e1 - of_nat (4 * Suc (?n - i))"
    proof -
      have "4 * Suc ?n = 4 * i + 4 * Suc (?n - i)" using i by simp
      then have "of_nat (4 * Suc ?n) = (of_nat (4 * i) + of_nat (4 * Suc (?n - i)) :: u32)" by (metis of_nat_add)
      then show ?thesis unfolding e2_def l(1) by (simp add: algebra_simps del: of_nat_Suc of_nat_mult)
    qed
    then have "load32 m2 (e2 + of_nat (4 * i)) = rev args ! (?n - i)" using m2(3) [of "?n - i"] by simp
    also have "\<dots> = args ! i" using i l(1) by (simp add: rev_nth)
    finally have "load32 m2 (e2 + of_nat (4 * i)) = args ! i" .
    moreover have "load32 m3 (e2 + of_nat (4 * i)) = load32 m2 (e2 + of_nat (4 * i))"
    proof (rule load32_cong)
      fix j :: nat assume "j < 4"
      moreover have "4 * Suc ?n \<le> unat e1" "unat e1 < 0xc0000000" using l e1(2) e by simp_all
      ultimately have "unat e2 + (4 * i + j) < 2 ^ 32" using i e2(1) by simp
      from unat_above [OF this] have "unat e2 \<le> unat (e2 + of_nat (4 * i + j))" by simp
      then show "m3 (e2 + of_nat (4 * i) + of_nat j) = m2 (e2 + of_nat (4 * i) + of_nat j)" using m3(2) by (simp add: add.assoc)
    qed
    ultimately show ?thesis by simp
  qed
  have "m3 x = ?m x" if "unat x < unat (e2 - 12) \<or> unat e \<le> unat x" for x
  proof -
    have "m3 x = m2 x" using that u3 e1(2) e2(1) by (intro m3(2)) auto
    also have "\<dots> = ?m x" using that u3 e1(2) by (intro m2(2)) auto
    finally show ?thesis .
  qed
  moreover have "load32 m3 (e2 - 12 + 12 + 4 * of_nat i) = e + of_nat (argv ! i)" if "i < ?n" for i
    using ptr [of i] that by (simp add: args_def nth_append)
  moreover have "load32 m3 (e2 - 12 + 12 + 4 * of_nat ?n) = 0" using ptr [of ?n] by (simp add: args_def nth_append)
  moreover have "load32 m3 (e2 - 12) = 0" "load32 m3 (e2 - 12 + 4) = of_nat ?n" "load32 m3 (e2 - 12 + 8) = e2 - 12 + 12"
    using m3(3) [of 0] m3(3) [of 1] m3(3) [of 2] by simp_all
  moreover have "unat (e2 - 12) = unat e div 4 * 4 - 4 * ?n - 16" using u3 e2(1) e1(1) by simp
  ultimately show ?thesis using run by blast
qed

lemma word_on_stack:
  assumes s: "0 \<notin> set s" "length s \<le> PGSIZE" and w: "(i, w) \<in> set (toks 0 s)" and e: "unat e = 0xc0000000 - 3 - length s"
    and m: "\<And>x. unat e \<le> unat x \<Longrightarrow> m' x = store_bytes m e (blank False s @ [0, 0]) x"
  shows "string_at m' (e + of_nat i) w"
proof -
  let ?m = "store_bytes m e (blank False s @ [0, 0])"
  have t: "i + length w \<le> length s" "set w \<subseteq> set s" "take (Suc (length w)) (drop i (blank False s @ [0])) = w @ [0]"
    using toks_blank [OF w] by auto
  have up: "unat (e + of_nat j) = unat e + j" if "j \<le> length s + 1" for j
    using that e s(2) by (intro unat_above) (simp add: PGSIZE_def)
  have "m' (e + of_nat i + of_nat j) = ?m (e + of_nat i + of_nat j)" if "j < Suc (length w)" for j
    using m [of "e + of_nat (i + j)"] up [of "i + j"] that t(1) by (simp add: add.assoc)
  then have "load_bytes m' (e + of_nat i) (Suc (length w)) = load_bytes ?m (e + of_nat i) (Suc (length w))" by (rule load_bytes_cong)
  also have "\<dots> = take (Suc (length w)) (drop i (blank False s @ [0, 0]))"
    using t(1) s(2) by (intro load_bytes_stored) (simp_all add: PGSIZE_def)
  also have "\<dots> = w @ [0]"
  proof -
    have "take k [0, 0] = take k [0 :: u8]" if "k \<le> 1" for k using that by (cases k) simp_all
    from this [of "Suc (length w + i) - length s"] show ?thesis using t by simp
  qed
  finally have "load_bytes m' (e + of_nat i) (Suc (length w)) = w @ [0]" .
  moreover have "unat (e + of_nat i) = unat e + i" using up t(1) by simp
  ultimately show ?thesis using s e t(1,2) by (auto simp: string_at_def PGSIZE_def unat_eq_0 [symmetric])
qed

text \<open>C16. The stack of a new process whose command line has fewer than 99 words and fits into a page with
  its pointers: the stack pointer is aligned and stays in the page that is mapped; from it upwards
  there are a zero return address, \<open>argc\<close>, the address of \<open>argv\<close> and \<open>argv\<close> itself, which has the address of
  every word of the line, in order and terminated in memory, and ends with a null pointer. Nothing
  outside the page changes.\<close>

theorem args_on_stack:
  assumes s: "0 \<notin> set s" and n: "length (toks 0 s) < MAX_ARGS - 1" "length s + 4 * length (toks 0 s) + 22 \<le> PGSIZE"
  defines "argc \<equiv> length (toks 0 s)"
  shows "\<exists>m' esp. start_args s (PHYS_BASE - 1) m = (m', esp) \<and> unat esp mod 4 = 0 \<and> unat PHYS_BASE \<le> unat esp + PGSIZE \<and>
     load32 m' esp = 0 \<and> load32 m' (esp + 4) = of_nat argc \<and> load32 m' (esp + 8) = esp + 12 \<and>
     (\<forall>i < argc. string_at m' (load32 m' (esp + 12 + 4 * of_nat i)) (snd (toks 0 s ! i))) \<and>
     load32 m' (esp + 12 + 4 * of_nat argc) = 0 \<and>
     (\<forall>x. unat x + PGSIZE < unat PHYS_BASE \<or> unat PHYS_BASE \<le> unat x \<longrightarrow> m' x = m x)"
proof -
  let ?f = "blank False s" and ?argv = "map fst (toks 0 s)" and ?esp = "PHYS_BASE - 1"
  have u: "unat PHYS_BASE = 0xc0000000" "unat ?esp = 0xc0000000 - 1" by (simp_all add: PHYS_BASE_def)
  define e where "e = ?esp - of_nat (length ?f + 2)"
  have e: "unat e = 0xc0000000 - 3 - length s" using unat_below [of "length ?f + 2" ?esp] u n(2) by (simp add: e_def PGSIZE_def)
  have run: "start_args s ?esp m = push_args ?f ?argv (length ?f) ?esp m"
    using parse_loop_ok [of "[]" False 0 s "[]"] n by (simp add: start_args_def starts_toks)
  have "length ?f + 4 * length ?argv + 22 \<le> PGSIZE" using n(2) by simp
  from push_args_stack [OF u(2) this, of m] obtain m' esp where
    p: "push_args ?f ?argv (length ?f) ?esp m = (m', esp)" "unat esp = unat e div 4 * 4 - 4 * argc - 16"
    "load32 m' esp = 0" "load32 m' (esp + 4) = of_nat argc" "load32 m' (esp + 8) = esp + 12"
    "\<And>i. i < argc \<Longrightarrow> load32 m' (esp + 12 + 4 * of_nat i) = e + of_nat (?argv ! i)"
    "load32 m' (esp + 12 + 4 * of_nat argc) = 0"
    "\<And>x. unat x < unat esp \<or> unat e \<le> unat x \<Longrightarrow> m' x = store_bytes m e (?f @ [0, 0]) x"
    unfolding e_def [symmetric] argc_def length_map by blast
  have l: "4 * argc + length s + 22 \<le> 4096" using n(2) by (simp add: argc_def PGSIZE_def)
  then have "unat esp = 4 * (unat e div 4 - argc - 4)" using p(2) by simp
  then have a: "unat esp mod 4 = 0" by simp
  have lo: "unat e \<le> unat e div 4 * 4 + 3" by simp
  then have b: "unat PHYS_BASE \<le> unat esp + PGSIZE" using p(2) l e u(1) unfolding PGSIZE_def by linarith
  have "string_at m' (load32 m' (esp + 12 + 4 * of_nat i)) (snd (toks 0 s ! i))" if i: "i < argc" for i
  proof -
    have "(?argv ! i, snd (toks 0 s ! i)) \<in> set (toks 0 s)" using i nth_mem [of i "toks 0 s"] by (simp add: argc_def)
    from word_on_stack [OF s _ this e, of m' m] p(6) [OF i] p(8) n(2) show ?thesis by simp
  qed
  moreover have "m' x = m x" if x: "unat x + PGSIZE < unat PHYS_BASE \<or> unat PHYS_BASE \<le> unat x" for x
  proof -
    have "m' x = store_bytes m e (?f @ [0, 0]) x" using x b e u(1) by (intro p(8)) auto
    also have "\<dots> = m x" using x e u(1) l store_bytes_nat [of e "?f @ [0, 0]" m x] by (auto simp: PGSIZE_def)
    finally show ?thesis .
  qed
  ultimately show ?thesis using run p(1,3,4,5,7) a b by auto
qed

theorem args_on_stack_witness:
  "\<exists>m' esp. start_args [108, 115, 32, 32, 45, 108] (PHYS_BASE - 1) (\<lambda>_. 7) = (m', esp) \<and> load32 m' (esp + 4) = 2 \<and>
     string_at m' (load32 m' (esp + 12)) [108, 115] \<and> string_at m' (load32 m' (esp + 12 + 4)) [45, 108]"
proof -
  let ?s = "[108, 115, 32, 32, 45, 108] :: u8 list"
  have t: "toks 0 ?s = [(0, [108, 115]), (4, [45, 108])]" by (simp add: Let_def)
  have "0 \<notin> set ?s" "length (toks 0 ?s) < MAX_ARGS - 1" "length ?s + 4 * length (toks 0 ?s) + 22 \<le> PGSIZE"
    unfolding t by (simp_all add: MAX_ARGS_def PGSIZE_def)
  from args_on_stack [OF this, of "\<lambda>_. 7"] obtain m' esp where
    r: "start_args ?s (PHYS_BASE - 1) (\<lambda>_. 7) = (m', esp)" "load32 m' (esp + 4) = 2"
    "\<And>i. i < 2 \<Longrightarrow> string_at m' (load32 m' (esp + 12 + 4 * of_nat i)) (snd ([(0 :: nat, [108, 115]), (4, [45, 108])] ! i))"
    unfolding t by auto
  show ?thesis using r(1,2) r(3) [of 0] r(3) [of 1] by auto
qed


end
