(* ===== verification/Process_Table.thy ===== *)
theory Process_Table
  imports Kernel_List Virtual_Memory
begin

text \<open>
  The process table of \<^verbatim>\<open>userprog/process.c\<close>: entries are taken from and returned to a list of free ones, and the
  same list element links a process into the children of its parent. The lists are those of
  \<open>Kernel_List\<close>, on a heap of list elements, so that an element that is still linked elsewhere is seen. One thread
  runs at a time; waiting for a process that still runs is the outcome \<open>Blocked\<close>, and the wake-up by the child, with
  the flag \<open>blocked\<close> that asks for it, is not followed. A child is run when its parent sleeps; that it may start
  before, as soon as its thread is created, is not among the executions.
\<close>

declare neq0_conv [iff del] bot_nat_0.not_eq_extremum [simp del]

section \<open>Model\<close>

definition MAX_PROCESSES :: nat where "MAX_PROCESSES = 512"
definition INIT_PID :: int where "INIT_PID = 0"
definition PID_ERROR :: int where "PID_ERROR = - 1"
definition MAX_FILES :: nat where "MAX_FILES = 16"
definition MAX_MMAPPINGS :: nat where "MAX_MMAPPINGS = 16"

record process =
  p_thread_ptr :: addr
  p_pid :: int
  parent_pid :: int
  working_dir :: addr
  p_files :: "int list"
  p_mmappings :: "int list"
  supp_page_table :: "hash option"
  p_file :: addr
  return_code :: int
  running :: bool
  p_valid :: bool
  p_blocked :: bool
  loaded :: bool
  load_success :: bool

text \<open>
  The name of a process, which is only printed, is left out. The heap has the elements of the list of free entries, of the entries, and of their lists of children.
  The addresses are some that differ. The last two members are \<open>thread_current ()\<close> and its \<open>pid\<close>.
\<close>

record ptab =
  lists :: heap
  process_table :: "process list"
  cur_thread :: addr
  cur_pid :: int

definition free_list :: list_struct where "free_list = \<lparr>head = 1, tail = 2\<rparr>"
definition elem :: "nat \<Rightarrow> addr" where "elem i = 3 + 3 * i"
definition children :: "nat \<Rightarrow> list_struct" where "children i = \<lparr>head = 4 + 3 * i, tail = 5 + 3 * i\<rparr>"

text \<open>\<open>list_entry\<close>. An element that belongs to no process gives a pointer into neighbouring
  memory in the code, and is an invalid access here.\<close>

definition list_entry :: "addr \<Rightarrow> nat res" where
  "list_entry e = (if 3 \<le> e \<and> e mod 3 = 0 \<and> e div 3 \<le> MAX_PROCESSES then Inr (e div 3 - 1) else Inl Invalid_access)"

definition upd_process :: "nat \<Rightarrow> (process \<Rightarrow> process) \<Rightarrow> ptab \<Rightarrow> ptab" where
  "upd_process i f st = st\<lparr>process_table := (process_table st)[i := f (process_table st ! i)]\<rparr>"

definition process_current :: "ptab \<Rightarrow> nat" where
  "process_current st = nat (cur_pid st)"

definition process_table_get :: "bool \<Rightarrow> ('d, 'f) vm \<Rightarrow> ptab \<Rightarrow> (ptab \<times> int) res" where
  "process_table_get malloc_ok vm st =
     bindR (list_empty (lists st) free_list) (\<lambda>e.
     if e then Inr (st, PID_ERROR)
     else
       bindR (list_pop_back (lists st) free_list) (\<lambda>(h, e).
       bindR (list_entry e) (\<lambda>i.
       bindR (ASSERT (\<not> p_valid (process_table st ! i))) (\<lambda>_.
       bindR (list_init h (children i)) (\<lambda>h.
       Inr (upd_process i (\<lambda>p. p\<lparr>p_valid := True, p_blocked := False, running := False, loaded := False, p_file := 0,
              parent_pid := cur_pid st, p_files := replicate MAX_FILES (- 1), p_mmappings := replicate MAX_MMAPPINGS (- 1),
              supp_page_table := init_supp_page_table malloc_ok vm\<rparr>) (st\<lparr>lists := h\<rparr>),
            p_pid (process_table st ! i)))))))"

definition process_table_free :: "nat \<Rightarrow> ptab \<Rightarrow> ptab res" where
  "process_table_free i st =
     bindR (ASSERT (p_valid (process_table st ! i))) (\<lambda>_.
     bindR (list_remove (lists st) (elem i)) (\<lambda>(h, _).
     bindR (list_push_back h free_list (elem i)) (\<lambda>h.
     Inr (upd_process i (\<lambda>p. p\<lparr>p_valid := False\<rparr>) (st\<lparr>lists := h\<rparr>)))))"

text \<open>The loop of \<open>process_init\<close>, whose \<open>i\<close> is one less than the number of rounds left.\<close>

fun init_loop :: "nat \<Rightarrow> ptab \<Rightarrow> ptab res" where
  "init_loop 0 st = Inr st"
| "init_loop (Suc i) st =
     bindR (list_push_back (lists st) free_list (elem i)) (\<lambda>h.
     init_loop i (upd_process i (\<lambda>p. p\<lparr>p_pid := int i, p_valid := False\<rparr>) (st\<lparr>lists := h\<rparr>)))"

definition process_init :: "bool \<Rightarrow> ('d, 'f) vm \<Rightarrow> ptab \<Rightarrow> ptab res" where
  "process_init malloc_ok vm st =
     bindR (list_init (lists st) free_list) (\<lambda>h.
     bindR (init_loop MAX_PROCESSES (st\<lparr>lists := h\<rparr>)) (\<lambda>st.
     bindR (process_table_get malloc_ok vm st) (\<lambda>(st, pid).
     bindR (ASSERT (pid = INIT_PID)) (\<lambda>_.
     Inr (upd_process (nat INIT_PID) (\<lambda>p. p\<lparr>p_thread_ptr := cur_thread st\<rparr>) (st\<lparr>cur_pid := pid\<rparr>))))))"

text \<open>The list has at most one element per process, so the rounds are enough.\<close>

definition process_count :: "ptab \<Rightarrow> nat res" where
  "process_count st = list_size (Suc MAX_PROCESSES) (lists st) free_list"

text \<open>
  \<open>process_execute\<close> up to the point where the parent sleeps until the child is loaded, and from there to its end. The arguments
  are what \<open>palloc_get_page\<close>, \<open>thread_create_ptr\<close> and \<open>dir_reopen\<close> return; the command line is copied to the page, which is
  not part of the table. Between the two parts the new thread runs.
\<close>

definition add_child :: "nat \<Rightarrow> ptab \<Rightarrow> ptab res" where
  "add_child i st = bindR (list_push_back (lists st) (children (process_current st)) (elem i)) (\<lambda>h. Inr (st\<lparr>lists := h\<rparr>))"

definition execute_begin :: "addr \<Rightarrow> addr \<Rightarrow> addr \<Rightarrow> bool \<Rightarrow> ('d, 'f) vm \<Rightarrow> ptab \<Rightarrow> (ptab \<times> int) res" where
  "execute_begin fn_copy thread dir malloc_ok vm st =
     (if fn_copy = 0 then Inr (st, PID_ERROR)
      else
        bindR (process_table_get malloc_ok vm st) (\<lambda>(st, pid).
        if pid = PID_ERROR then Inr (st, pid)
        else
          let st = upd_process (nat pid) (\<lambda>p. p\<lparr>p_thread_ptr := thread\<rparr>) st in
          if thread = 0 then bindR (process_table_free (nat pid) st) (\<lambda>st. Inr (st, PID_ERROR))
          else
            let st = upd_process (nat pid) (\<lambda>p. p\<lparr>working_dir := dir\<rparr>) st in
            Inr (if loaded (process_table st ! nat pid) then st else upd_process (nat pid) (\<lambda>p. p\<lparr>p_blocked := True\<rparr>) st, pid)))"

definition execute_end :: "int \<Rightarrow> ptab \<Rightarrow> (ptab \<times> int) res" where
  "execute_end pid st =
     bindR (ASSERT (loaded (process_table st ! nat pid))) (\<lambda>_.
     if \<not> load_success (process_table st ! nat pid) then Inr (st, PID_ERROR)
     else bindR (add_child (nat pid) st) (\<lambda>st. Inr (st, pid)))"

text \<open>A thread that is unblocked is returned. A process without a parent has no entry for one.\<close>

definition parent_thread :: "nat \<Rightarrow> ptab \<Rightarrow> addr option res" where
  "parent_thread i st =
     (let parent = parent_pid (process_table st ! i) in
      if parent < 0 then Inl Invalid_access else Inr (Some (p_thread_ptr (process_table st ! nat parent))))"

text \<open>\<open>start_process\<close> when \<open>load\<close> has returned.\<close>

definition start_loaded :: "bool \<Rightarrow> ptab \<Rightarrow> (ptab \<times> addr option) res" where
  "start_loaded success st =
     (let i = process_current st;
          st = upd_process i (\<lambda>p. p\<lparr>running := True, load_success := success, loaded := True\<rparr>) st in
      if p_blocked (process_table st ! i) then
        bindR (parent_thread i st) (\<lambda>t. Inr (upd_process i (\<lambda>p. p\<lparr>p_blocked := False\<rparr>) st, t))
      else Inr (st, None))"

definition process_wait :: "int \<Rightarrow> ptab \<Rightarrow> (ptab \<times> int) res" where
  "process_wait child_id st =
     (if child_id < 0 \<or> child_id > int MAX_PROCESSES - 1 \<or> \<not> p_valid (process_table st ! nat child_id) \<or>
         parent_pid (process_table st ! nat child_id) \<noteq> cur_pid st then Inr (st, - 1)
      else if running (process_table st ! nat child_id) then Inl Blocked
      else bindR (process_table_free (nat child_id) st) (\<lambda>st'. Inr (st', return_code (process_table st ! nat child_id))))"

text \<open>
  The part of \<open>process_exit\<close> that works on the table, without the memory and the files of the process: \<open>child_loop\<close> goes through the children with \<open>list_next\<close>. The
  thread that is woken is returned.
\<close>

fun child_loop :: "nat \<Rightarrow> addr \<Rightarrow> addr \<Rightarrow> ptab \<Rightarrow> ptab res" where
  "child_loop 0 e stop st = Inl Out_of_fuel"
| "child_loop (Suc n) e stop st =
     (if e = stop then Inr st
      else
        bindR (list_entry e) (\<lambda>i.
        bindR (if running (process_table st ! i) then Inr (upd_process i (\<lambda>p. p\<lparr>parent_pid := - 1\<rparr>) st)
               else process_table_free i st) (\<lambda>st.
        bindR (list_next (lists st) e) (\<lambda>e. child_loop n e stop st))))"

definition exit_children :: "nat \<Rightarrow> ptab \<Rightarrow> ptab res" where
  "exit_children i st =
     bindR (list_empty (lists st) (children i)) (\<lambda>none.
     if none then Inr st
     else bindR (list_begin (lists st) (children i)) (\<lambda>e. child_loop (Suc MAX_PROCESSES) e (list_end (children i)) st))"

definition process_exit_table :: "int \<Rightarrow> ptab \<Rightarrow> (ptab \<times> addr option) res" where
  "process_exit_table code st =
     (let i = process_current st in
      bindR (exit_children i (upd_process i (\<lambda>p. p\<lparr>return_code := code\<rparr>) st)) (\<lambda>st.
      bindR (if parent_pid (process_table st ! i) = - 1 then process_table_free i st else Inr st) (\<lambda>st.
      if p_blocked (process_table st ! i) then
        bindR (parent_thread i st) (\<lambda>t. Inr (upd_process i (\<lambda>p. p\<lparr>p_blocked := False, running := False\<rparr>) st, t))
      else Inr (upd_process i (\<lambda>p. p\<lparr>running := False\<rparr>) st, None))))"

section \<open>The lists of the table\<close>

text \<open>
  \<open>fr\<close> are the free entries, in the order of the list, and \<open>kids i\<close> the children of process \<open>i\<close>. The entries that are not free
  are the valid ones, and no process is in two lists.
\<close>

definition ptab_ok :: "nat list \<Rightarrow> (nat \<Rightarrow> nat list) \<Rightarrow> ptab \<Rightarrow> bool" where
  "ptab_ok fr kids st \<longleftrightarrow>
     length (process_table st) = MAX_PROCESSES \<and> {1..<3 + 3 * MAX_PROCESSES} \<subseteq> dom (lists st) \<and>
     wf_list (lists st) free_list (map elem fr) \<and>
     (\<forall>i < MAX_PROCESSES. p_pid (process_table st ! i) = int i) \<and>
     set fr = {i. i < MAX_PROCESSES \<and> \<not> p_valid (process_table st ! i)} \<and>
     (\<forall>i < MAX_PROCESSES. p_valid (process_table st ! i) \<longrightarrow> wf_list (lists st) (children i) (map elem (kids i)) \<and>
        (\<forall>c \<in> set (kids i). c < MAX_PROCESSES \<and> p_valid (process_table st ! c)) \<and>
        (\<forall>j < MAX_PROCESSES. j \<noteq> i \<longrightarrow> p_valid (process_table st ! j) \<longrightarrow> set (kids i) \<inter> set (kids j) = {}))"

lemma node_mod: "elem i mod 3 = 0" "head (children i) mod 3 = 1" "tail (children i) mod 3 = 2" "head free_list mod 3 = 1" "tail free_list mod 3 = 2"
proof -
  have "(4 + 3 * i) mod 3 = 4 mod 3" "(5 + 3 * i) mod 3 = 5 mod 3" by (rule mod_mult_self2)+
  then show "head (children i) mod 3 = 1" "tail (children i) mod 3 = 2" by (simp_all add: children_def)
qed (simp_all add: elem_def free_list_def)

lemma other_mod: "a mod 3 \<noteq> b mod 3 \<Longrightarrow> a \<noteq> (b :: nat)"
  by blast

lemma elem_apart [simp]:
  "elem i \<noteq> head (children j)" "elem i \<noteq> tail (children j)" "elem i \<noteq> head free_list" "elem i \<noteq> tail free_list"
  "head (children i) \<noteq> elem j" "tail (children i) \<noteq> elem j" "head free_list \<noteq> elem i" "tail free_list \<noteq> elem i"
  "head (children i) \<noteq> tail (children j)" "tail (children i) \<noteq> head (children j)" "head free_list \<noteq> tail (children i)"
  "tail free_list \<noteq> head (children i)" "head (children i) \<noteq> tail free_list" "tail (children i) \<noteq> head free_list" "head free_list \<noteq> tail free_list"
  by (rule other_mod, simp add: node_mod)+

lemma node_eq [simp]:
  "elem i = elem j \<longleftrightarrow> i = j" "head (children i) = head (children j) \<longleftrightarrow> i = j" "tail (children i) = tail (children j) \<longleftrightarrow> i = j"
  "head free_list \<noteq> head (children i)" "tail free_list \<noteq> tail (children i)" "head (children i) \<noteq> head free_list"
  "tail (children i) \<noteq> tail free_list" "head (children i) \<noteq> 0" "tail (children i) \<noteq> 0" "elem i \<noteq> 0"
  by (simp_all add: elem_def children_def free_list_def)

lemma not_elem [simp]:
  "head (children i) \<notin> elem ` X" "tail (children i) \<notin> elem ` X" "head free_list \<notin> elem ` X" "tail free_list \<notin> elem ` X"
  by (simp_all add: image_iff)

lemma list_entry_elem [simp]: "list_entry (elem i) = (if i < MAX_PROCESSES then Inr i else Inl Invalid_access)"
proof -
  have "elem i mod 3 = 0" "elem i div 3 = Suc i" "3 \<le> elem i" by (simp_all add: elem_def)
  then show ?thesis by (simp add: list_entry_def Suc_le_eq)
qed

lemma ptab_okD:
  assumes "ptab_ok fr kids st"
  shows "length (process_table st) = MAX_PROCESSES" "{1..<3 + 3 * MAX_PROCESSES} \<subseteq> dom (lists st)"
    "wf_list (lists st) free_list (map elem fr)" "i < MAX_PROCESSES \<Longrightarrow> p_pid (process_table st ! i) = int i"
    "set fr = {i. i < MAX_PROCESSES \<and> \<not> p_valid (process_table st ! i)}"
    "i < MAX_PROCESSES \<Longrightarrow> p_valid (process_table st ! i) \<Longrightarrow> wf_list (lists st) (children i) (map elem (kids i))"
    "i < MAX_PROCESSES \<Longrightarrow> p_valid (process_table st ! i) \<Longrightarrow> c \<in> set (kids i) \<Longrightarrow> c < MAX_PROCESSES \<and> p_valid (process_table st ! c)"
    "i < MAX_PROCESSES \<Longrightarrow> p_valid (process_table st ! i) \<Longrightarrow> j < MAX_PROCESSES \<Longrightarrow> j \<noteq> i \<Longrightarrow> p_valid (process_table st ! j) \<Longrightarrow>
       set (kids i) \<inter> set (kids j) = {}"
  using assms unfolding ptab_ok_def by blast+

lemma node_dom:
  assumes "ptab_ok fr kids st" "i < MAX_PROCESSES"
  shows "elem i \<in> dom (lists st)" "head (children i) \<in> dom (lists st)" "tail (children i) \<in> dom (lists st)"
proof -
  have "elem i \<in> {1..<3 + 3 * MAX_PROCESSES}" "head (children i) \<in> {1..<3 + 3 * MAX_PROCESSES}" "tail (children i) \<in> {1..<3 + 3 * MAX_PROCESSES}"
    using assms(2) by (simp_all add: elem_def children_def)
  note this [THEN subsetD [OF ptab_okD(2) [OF assms(1)]]]
  then show "elem i \<in> dom (lists st)" "head (children i) \<in> dom (lists st)" "tail (children i) \<in> dom (lists st)" .
qed

text \<open>Changing some nodes of the heap keeps the lists that have none of them.\<close>

lemma list_keep:
  assumes "wf_list h l xs" "frame S h h'" "S \<inter> nodes l xs = {}"
  shows "wf_list h' l xs"
  using assms wf_list_frame by blast

lemma nodes_apart:
  "set xs \<inter> set ys = {} \<Longrightarrow> nodes free_list (map elem xs) \<inter> nodes (children i) (map elem ys) = {}"
  "set xs \<inter> set ys = {} \<Longrightarrow> i \<noteq> j \<Longrightarrow> nodes (children j) (map elem xs) \<inter> nodes (children i) (map elem ys) = {}"
  by auto

lemma distinct_free: "ptab_ok fr kids st \<Longrightarrow> distinct fr"
  using wf_list_distinct [OF ptab_okD(3)] by (simp add: distinct_map)

lemma distinct_kids: "ptab_ok fr kids st \<Longrightarrow> i < MAX_PROCESSES \<Longrightarrow> p_valid (process_table st ! i) \<Longrightarrow> distinct (kids i)"
  using wf_list_distinct [OF ptab_okD(6)] by (simp add: distinct_map)

section \<open>Operations on a well-formed table\<close>

text \<open>What \<open>process_table_get\<close> makes of an entry.\<close>

definition fresh_process :: "bool \<Rightarrow> ('d, 'f) vm \<Rightarrow> int \<Rightarrow> process \<Rightarrow> process" where
  "fresh_process malloc_ok vm parent p =
     p\<lparr>p_valid := True, p_blocked := False, running := False, loaded := False, p_file := 0, parent_pid := parent,
       p_files := replicate MAX_FILES (- 1), p_mmappings := replicate MAX_MMAPPINGS (- 1),
       supp_page_table := init_supp_page_table malloc_ok vm\<rparr>"

lemma get_ok:
  assumes ok: "ptab_ok (fr @ [i]) kids st"
  shows "\<exists>h. process_table_get malloc_ok vm st = Inr (upd_process i (fresh_process malloc_ok vm (cur_pid st)) (st\<lparr>lists := h\<rparr>), int i) \<and>
     ptab_ok fr (kids(i := [])) (upd_process i (fresh_process malloc_ok vm (cur_pid st)) (st\<lparr>lists := h\<rparr>))"
proof -
  note d = ptab_okD [OF ok]
  let ?v = "\<lambda>j. p_valid (process_table st ! j)"
  have "i \<in> set (fr @ [i])" by simp
  then have i: "i < MAX_PROCESSES" "\<not> ?v i" unfolding d(5) by simp_all
  obtain h1 where h1: "list_pop_back (lists st) free_list = Inr (h1, elem i)" "wf_list h1 free_list (map elem fr)"
    "frame (nodes free_list (map elem fr)) (lists st) h1" using list_pop_back_wf [of "lists st" free_list "map elem fr" "elem i"] d(3) by auto
  have dom1: "dom h1 = dom (lists st)" by (rule frame_dom [OF h1(3)])
  obtain h2 where h2: "list_init h1 (children i) = Inr h2" "wf_list h2 (children i) []" "frame {head (children i), tail (children i)} h1 h2"
    using list_init_wf [of "children i" h1] node_dom [OF ok i(1)] dom1 by auto
  let ?st = "upd_process i (fresh_process malloc_ok vm (cur_pid st)) (st\<lparr>lists := h2\<rparr>)"
  have run: "process_table_get malloc_ok vm st = Inr (?st, int i)"
    using list_empty_wf [OF d(3)] h1(1) h2(1) i d(4) [OF i(1)] by (simp add: process_table_get_def fresh_process_def [abs_def])
  have pr: "process_table ?st ! j = (if j = i then fresh_process malloc_ok vm (cur_pid st) (process_table st ! i) else process_table st ! j)" for j
    using i d(1) by (simp add: upd_process_def nth_list_update)
  have nf: "distinct (fr @ [i])" by (rule distinct_free [OF ok])
  have fr2: "wf_list h2 free_list (map elem fr)"
    using wf_list_frame [OF h2(3), of free_list "map elem fr"] h1(2) by simp
  have kid: "wf_list h2 (children j) (map elem (kids j))" if j: "j < MAX_PROCESSES" "?v j" "j \<noteq> i" for j
  proof -
    have "set fr \<inter> set (kids j) = {}" using d(7) [OF j(1,2)] d(5) by auto
    then have "wf_list h1 (children j) (map elem (kids j))"
      by (intro list_keep [OF d(6) [OF j(1,2)] h1(3)] nodes_apart)
    then show ?thesis using j(3) by (intro list_keep [OF _ h2(3)]) auto
  qed
  have "ptab_ok fr (kids(i := [])) ?st"
    unfolding ptab_ok_def
  proof (intro conjI allI impI ballI)
    show "length (process_table ?st) = MAX_PROCESSES" using d(1) by (simp add: upd_process_def)
    show "{1..<3 + 3 * MAX_PROCESSES} \<subseteq> dom (lists ?st)" using d(2) dom1 frame_dom [OF h2(3)] by (simp add: upd_process_def)
    show "wf_list (lists ?st) free_list (map elem fr)" using fr2 by (simp add: upd_process_def)
    show "p_pid (process_table ?st ! j) = int j" if "j < MAX_PROCESSES" for j using d(4) that by (simp add: pr fresh_process_def)
    have "set fr = set (fr @ [i]) - {i}" using nf by auto
    then show "set fr = {j. j < MAX_PROCESSES \<and> \<not> p_valid (process_table ?st ! j)}" unfolding d(5) pr by (auto simp: fresh_process_def)
  next
    fix j assume j: "j < MAX_PROCESSES" "p_valid (process_table ?st ! j)"
    then have v: "j \<noteq> i \<Longrightarrow> ?v j" by (simp add: pr)
    show "wf_list (lists ?st) (children j) (map elem ((kids(i := [])) j))"
      using h2(2) kid [OF j(1) v] by (cases "j = i") (simp_all add: upd_process_def)
    show "c < MAX_PROCESSES" "p_valid (process_table ?st ! c)" if "c \<in> set ((kids(i := [])) j)" for c
      using that d(7) [OF j(1) v, of c] by (cases "j = i"; simp add: pr fresh_process_def)+
    show "set ((kids(i := [])) j) \<inter> set ((kids(i := [])) k) = {}"
      if "k < MAX_PROCESSES" "k \<noteq> j" "p_valid (process_table ?st ! k)" for k
      using d(8) [OF j(1) v that(1,2)] that(3) by (cases "j = i"; cases "k = i"; simp add: pr)
  qed
  then show ?thesis using run by blast
qed

text \<open>A process that is in no list of children becomes the last child of another.\<close>

lemma add_child_ok:
  assumes ok: "ptab_ok fr kids st" and p: "p < MAX_PROCESSES" "p_valid (process_table st ! p)" "process_current st = p"
    and c: "c < MAX_PROCESSES" "p_valid (process_table st ! c)" "\<And>j. j < MAX_PROCESSES \<Longrightarrow> p_valid (process_table st ! j) \<Longrightarrow> c \<notin> set (kids j)"
  shows "\<exists>h. add_child c st = Inr (st\<lparr>lists := h\<rparr>) \<and> ptab_ok fr (kids(p := kids p @ [c])) (st\<lparr>lists := h\<rparr>)"
proof -
  note d = ptab_okD [OF ok]
  let ?v = "\<lambda>j. p_valid (process_table st ! j)"
  have "detached (lists st) (children p) (map elem (kids p)) (elem c)"
    using node_dom(1) [OF ok c(1)] c(3) [OF p(1,2)] by (auto simp: detached_def)
  then obtain h where h: "list_push_back (lists st) (children p) (elem c) = Inr h" "wf_list h (children p) (map elem (kids p) @ [elem c])"
    "frame (insert (elem c) (nodes (children p) (map elem (kids p)))) (lists st) h" using list_push_back_wf [OF d(6) [OF p(1,2)]] by blast
  have "c \<notin> set fr" using c(2) d(5) by simp
  moreover have "set (kids p) \<inter> set fr = {}" using d(7) [OF p(1,2)] d(5) by auto
  ultimately have fr: "wf_list h free_list (map elem fr)" by (intro list_keep [OF d(3) h(3)]) auto
  have kj: "wf_list h (children j) (map elem (kids j))" if j: "j < MAX_PROCESSES" "?v j" "j \<noteq> p" for j
    using d(8) [OF p(1,2) j(1,3,2)] c(3) [OF j(1,2)] j(3)
    by (intro list_keep [OF d(6) [OF j(1,2)] h(3)]) auto
  let ?k = "kids(p := kids p @ [c])" and ?st = "st\<lparr>lists := h\<rparr>"
  have sub: "set (?k j) = (if j = p then insert c (set (kids p)) else set (kids j))" for j by simp
  have "ptab_ok fr ?k ?st"
    unfolding ptab_ok_def
  proof (intro conjI allI impI ballI)
    show "length (process_table ?st) = MAX_PROCESSES" "{1..<3 + 3 * MAX_PROCESSES} \<subseteq> dom (lists ?st)"
      "wf_list (lists ?st) free_list (map elem fr)" "set fr = {j. j < MAX_PROCESSES \<and> \<not> p_valid (process_table ?st ! j)}"
      using d(1,2,5) frame_dom [OF h(3)] fr by simp_all
    show "p_pid (process_table ?st ! j) = int j" if "j < MAX_PROCESSES" for j using d(4) that by simp
  next
    fix j assume j: "j < MAX_PROCESSES" "p_valid (process_table ?st ! j)"
    then have v: "?v j" by simp
    show "wf_list (lists ?st) (children j) (map elem (?k j))" using h(2) kj [OF j(1) v] by (cases "j = p") simp_all
    show "x < MAX_PROCESSES" "p_valid (process_table ?st ! x)" if "x \<in> set (?k j)" for x
      using that d(7) [OF j(1) v, of x] c(1,2) by (auto simp: sub split: if_splits)
    show "set (?k j) \<inter> set (?k i) = {}" if i: "i < MAX_PROCESSES" "i \<noteq> j" "p_valid (process_table ?st ! i)" for i
    proof -
      have "set (kids j) \<inter> set (kids i) = {}" "c \<notin> set (kids j)" "c \<notin> set (kids i)" using d(8) [OF j(1) v i(1,2)] c(3) i j(1) v by simp_all
      then show ?thesis using i(2) by (auto simp: sub split: if_splits)
    qed
  qed
  then show ?thesis using h(1) p(3) by (auto simp: add_child_def)
qed

text \<open>A child is given back.\<close>

lemma free_ok:
  assumes ok: "ptab_ok fr kids st" and p: "p < MAX_PROCESSES" "p_valid (process_table st ! p)" "kids p = as @ c # bs" "c \<noteq> p"
  shows "\<exists>h. process_table_free c st = Inr (upd_process c (\<lambda>x. x\<lparr>p_valid := False\<rparr>) (st\<lparr>lists := h\<rparr>)) \<and>
     ptab_ok (fr @ [c]) (kids(p := as @ bs)) (upd_process c (\<lambda>x. x\<lparr>p_valid := False\<rparr>) (st\<lparr>lists := h\<rparr>)) \<and> list_next h (elem c) = Inr (tail free_list)"
proof -
  note d = ptab_okD [OF ok]
  let ?v = "\<lambda>j. p_valid (process_table st ! j)"
  have c: "c < MAX_PROCESSES" "?v c" using d(7) [OF p(1,2)] p(3) by auto
  have wf: "wf_list (lists st) (children p) (map elem as @ elem c # map elem bs)" using d(6) [OF p(1,2)] p(3) by simp
  have nd: "c \<notin> set (as @ bs)" using distinct_kids [OF ok p(1,2)] p(3) by simp
  obtain h1 where h1: "list_remove (lists st) (elem c) = Inr (h1, hd (map elem bs @ [tail (children p)]))"
    "wf_list h1 (children p) (map elem (as @ bs))" "frame (nodes (children p) (map elem (as @ bs))) (lists st) h1"
    using list_remove_wf [OF wf] by auto
  have pf: "set (as @ c # bs) \<inter> set fr = {}" using d(7) [OF p(1,2)] d(5) p(3) by auto
  then have f1: "wf_list h1 free_list (map elem fr)"
    by (intro list_keep [OF d(3) h1(3)]) auto
  have "detached h1 free_list (map elem fr) (elem c)"
    using node_dom(1) [OF ok c(1)] frame_dom [OF h1(3)] pf by (auto simp: detached_def)
  then obtain h2 where h2: "list_push_back h1 free_list (elem c) = Inr h2" "wf_list h2 free_list (map elem (fr @ [c]))"
    "frame (insert (elem c) (nodes free_list (map elem fr))) h1 h2" using list_push_back_wf [OF f1] by auto
  let ?st = "upd_process c (\<lambda>x. x\<lparr>p_valid := False\<rparr>) (st\<lparr>lists := h2\<rparr>)"
  have run: "process_table_free c st = Inr ?st" using c h1(1) h2(1) by (simp add: process_table_free_def)
  have pr: "process_table ?st ! j = (if j = c then (process_table st ! c)\<lparr>p_valid := False\<rparr> else process_table st ! j)" for j
    using c d(1) by (simp add: upd_process_def nth_list_update)
  have kp: "wf_list h2 (children p) (map elem (as @ bs))"
    using pf nd by (intro list_keep [OF h1(2) h2(3)]) auto
  have kj: "wf_list h2 (children j) (map elem (kids j))" if j: "j < MAX_PROCESSES" "?v j" "j \<noteq> p" for j
  proof -
    have a: "set (as @ c # bs) \<inter> set (kids j) = {}" using d(8) [OF p(1,2) j(1,3,2)] p(3) by simp
    have b: "set fr \<inter> set (kids j) = {}" using d(7) [OF j(1,2)] d(5) by auto
    have "wf_list h1 (children j) (map elem (kids j))" using a j(3) by (intro list_keep [OF d(6) [OF j(1,2)] h1(3)]) auto
    then show ?thesis using a b by (intro list_keep [OF _ h2(3)]) auto
  qed
  have "ptab_ok (fr @ [c]) (kids(p := as @ bs)) ?st"
    unfolding ptab_ok_def
  proof (intro conjI allI impI ballI)
    show "length (process_table ?st) = MAX_PROCESSES" using d(1) by (simp add: upd_process_def)
    show "{1..<3 + 3 * MAX_PROCESSES} \<subseteq> dom (lists ?st)" using d(2) frame_dom [OF h1(3)] frame_dom [OF h2(3)] by (simp add: upd_process_def)
    show "wf_list (lists ?st) free_list (map elem (fr @ [c]))" using h2(2) by (simp add: upd_process_def)
    show "p_pid (process_table ?st ! j) = int j" if "j < MAX_PROCESSES" for j using d(4) that c by (simp add: pr)
    show "set (fr @ [c]) = {j. j < MAX_PROCESSES \<and> \<not> p_valid (process_table ?st ! j)}" unfolding pr using d(5) c by auto
  next
    fix j assume j: "j < MAX_PROCESSES" "p_valid (process_table ?st ! j)"
    then have v: "?v j" "j \<noteq> c" by (simp_all add: pr split: if_splits)
    have sub: "set ((kids(p := as @ bs)) k) \<subseteq> set (kids k) - {c}" if "k < MAX_PROCESSES" "?v k" for k
      using nd p(3) d(8) [OF p(1,2) that(1) _ that(2)] by (cases "k = p") auto
    show "wf_list (lists ?st) (children j) (map elem ((kids(p := as @ bs)) j))"
      using kp kj [OF j(1) v(1)] by (cases "j = p") (simp_all add: upd_process_def)
    show "x < MAX_PROCESSES" "p_valid (process_table ?st ! x)" if "x \<in> set ((kids(p := as @ bs)) j)" for x
      using that sub [OF j(1) v(1)] d(7) [OF j(1) v(1), of x] by (auto simp: pr)
    show "set ((kids(p := as @ bs)) j) \<inter> set ((kids(p := as @ bs)) k) = {}"
      if k: "k < MAX_PROCESSES" "k \<noteq> j" "p_valid (process_table ?st ! k)" for k
    proof -
      have "?v k" using k(3) by (simp add: pr split: if_splits)
      then show ?thesis using sub [OF j(1) v(1)] sub [OF k(1)] d(8) [OF j(1) v(1) k(1,2)] by blast
    qed
  qed
  moreover have "list_next h2 (elem c) = Inr (tail free_list)" using wf_list_next [of h2 free_list "map elem fr" "elem c" "[]"] h2(2) by simp
  ultimately show ?thesis using run by blast
qed


text \<open>Members that the lists do not depend on.\<close>

lemma upd_ok:
  assumes ok: "ptab_ok fr kids st" and f: "\<And>p. p_valid (f p) = p_valid p" "\<And>p. p_pid (f p) = p_pid p"
  shows "ptab_ok fr kids (upd_process i f st)"
proof -
  have n: "process_table (upd_process i f st) ! j = (if j = i \<and> i < length (process_table st) then f (process_table st ! i) else process_table st ! j)" for j
    by (cases "i < length (process_table st)") (auto simp: upd_process_def nth_list_update list_update_beyond not_less)
  have u: "p_valid (process_table (upd_process i f st) ! j) = p_valid (process_table st ! j)"
    "p_pid (process_table (upd_process i f st) ! j) = p_pid (process_table st ! j)" for j
    unfolding n using f(1) [of "process_table st ! i"] f(2) [of "process_table st ! i"] by (auto split: if_splits)
  have l: "length (process_table (upd_process i f st)) = length (process_table st)" "lists (upd_process i f st) = lists st"
    by (simp_all add: upd_process_def)
  show ?thesis using ok unfolding ptab_ok_def u l .
qed

lemma cur_ok: "ptab_ok fr kids (st\<lparr>cur_pid := c\<rparr>) \<longleftrightarrow> ptab_ok fr kids st"
  by (simp add: ptab_ok_def)

lemma upd_process_nth [simp]:
  "i < length (process_table st) \<Longrightarrow> process_table (upd_process i f st) ! j = (if j = i then f (process_table st ! i) else process_table st ! j)"
  "length (process_table (upd_process i f st)) = length (process_table st)" "lists (upd_process i f st) = lists st"
  "cur_pid (upd_process i f st) = cur_pid st"
  by (simp_all add: upd_process_def nth_list_update)

text \<open>A process that has been created and has not been loaded: \<open>i\<close> is in no list.\<close>

lemma execute_begin_ok:
  assumes ok: "ptab_ok (fr @ [i]) kids st" and a: "fn_copy \<noteq> 0" "thread \<noteq> 0"
  shows "\<exists>st'. execute_begin fn_copy thread dir malloc_ok vm st = Inr (st', int i) \<and> ptab_ok fr (kids(i := [])) st' \<and> i < MAX_PROCESSES \<and>
     process_table st' ! i = (fresh_process malloc_ok vm (cur_pid st) (process_table st ! i))\<lparr>p_thread_ptr := thread, working_dir := dir, p_blocked := True\<rparr> \<and>
     (\<forall>j. j \<noteq> i \<longrightarrow> process_table st' ! j = process_table st ! j) \<and> cur_pid st' = cur_pid st"
proof -
  have i: "i < MAX_PROCESSES" "length (process_table st) = MAX_PROCESSES" using ptab_okD(1,5) [OF ok] by auto
  obtain h where h: "process_table_get malloc_ok vm st = Inr (upd_process i (fresh_process malloc_ok vm (cur_pid st)) (st\<lparr>lists := h\<rparr>), int i)"
    "ptab_ok fr (kids(i := [])) (upd_process i (fresh_process malloc_ok vm (cur_pid st)) (st\<lparr>lists := h\<rparr>))" using get_ok [OF ok] by blast
  let ?s = "upd_process i (fresh_process malloc_ok vm (cur_pid st)) (st\<lparr>lists := h\<rparr>)"
  let ?s' = "upd_process i (\<lambda>p. p\<lparr>p_blocked := True\<rparr>) (upd_process i (\<lambda>p. p\<lparr>working_dir := dir\<rparr>) (upd_process i (\<lambda>p. p\<lparr>p_thread_ptr := thread\<rparr>) ?s))"
  have "execute_begin fn_copy thread dir malloc_ok vm st = Inr (?s', int i)"
    using a i h(1) by (simp add: execute_begin_def PID_ERROR_def Let_def fresh_process_def)
  moreover have "ptab_ok fr (kids(i := [])) ?s'" by (intro upd_ok h(2)) simp_all
  ultimately show ?thesis using i by auto
qed


text \<open>The end of a process that has no children: its parent may be waiting.\<close>

lemma process_exit_childless:
  assumes ok: "ptab_ok fr kids st" and i: "cur_pid st = int i" "i < MAX_PROCESSES" "p_valid (process_table st ! i)" "kids i = []"
    and p: "parent_pid (process_table st ! i) = int p"
  shows "process_exit_table code st =
     Inr (upd_process i (\<lambda>x. x\<lparr>return_code := code, p_blocked := False, running := False\<rparr>) st,
       if p_blocked (process_table st ! i)
       then Some (p_thread_ptr (process_table (upd_process i (\<lambda>x. x\<lparr>return_code := code\<rparr>) st) ! p)) else None)"
proof -
  note d = ptab_okD [OF ok]
  have e: "list_empty (lists st) (children i) = Inr True" using list_empty_wf [OF d(6) [OF i(2,3)]] i(4) by simp
  have u: "upd_process i f (upd_process i g st) = upd_process i (\<lambda>x. f (g x)) st" for f g
    using i(2) d(1) by (simp add: upd_process_def)
  have b: "upd_process i (\<lambda>x. x\<lparr>return_code := code, running := False\<rparr>) st = upd_process i (\<lambda>x. x\<lparr>return_code := code, p_blocked := False, running := False\<rparr>) st"
    if "\<not> p_blocked (process_table st ! i)"
  proof -
    have "(process_table st ! i)\<lparr>return_code := code, running := False\<rparr> = (process_table st ! i)\<lparr>return_code := code, p_blocked := False, running := False\<rparr>"
      using that by (simp add: process.equality)
    then show ?thesis by (simp add: upd_process_def)
  qed
  show ?thesis
    using i d(1) e p b by (auto simp: process_exit_table_def process_current_def exit_children_def Let_def parent_thread_def u)
qed

text \<open>The entry of a child while it is created and loaded.\<close>

lemma exec_started:
  assumes ok: "ptab_ok (fr @ [i]) kids st" and p: "cur_pid st = int p" "p < MAX_PROCESSES" "p_valid (process_table st ! p)"
    and a: "fn_copy \<noteq> 0" "thread \<noteq> 0"
  shows "\<exists>st1 st2. execute_begin fn_copy thread dir malloc_ok vm st = Inr (st1, int i) \<and>
     start_loaded success (st1\<lparr>cur_pid := int i\<rparr>) = Inr (st2, Some (p_thread_ptr (process_table st ! p))) \<and>
     ptab_ok fr (kids(i := [])) st2 \<and> i < MAX_PROCESSES \<and> i \<noteq> p \<and>
     (p_valid (process_table st2 ! i) \<and> parent_pid (process_table st2 ! i) = int p \<and> \<not> p_blocked (process_table st2 ! i) \<and>
      loaded (process_table st2 ! i) \<and> load_success (process_table st2 ! i) = success) \<and>
     (\<forall>j. j \<noteq> i \<longrightarrow> process_table st2 ! j = process_table st ! j) \<and>
     (\<forall>j < MAX_PROCESSES. p_valid (process_table st2 ! j) \<longrightarrow> i \<notin> set ((kids(i := [])) j))"
proof -
  note d = ptab_okD [OF ok]
  have i: "i < MAX_PROCESSES" "\<not> p_valid (process_table st ! i)" "i \<noteq> p" using d(5) p(3) by auto
  obtain st1 where s1: "execute_begin fn_copy thread dir malloc_ok vm st = Inr (st1, int i)" "ptab_ok fr (kids(i := [])) st1"
    "process_table st1 ! i = (fresh_process malloc_ok vm (int p) (process_table st ! i))\<lparr>p_thread_ptr := thread, working_dir := dir, p_blocked := True\<rparr>"
    "\<And>j. j \<noteq> i \<Longrightarrow> process_table st1 ! j = process_table st ! j" "cur_pid st1 = int p"
    using execute_begin_ok [OF ok a, of dir malloc_ok vm] unfolding p(1) by blast
  have l1: "length (process_table st1) = MAX_PROCESSES" by (rule ptab_okD(1) [OF s1(2)])
  let ?st2 = "upd_process i (\<lambda>x. x\<lparr>running := True, load_success := success, loaded := True, p_blocked := False\<rparr>) (st1\<lparr>cur_pid := int i\<rparr>)"
  have s2: "start_loaded success (st1\<lparr>cur_pid := int i\<rparr>) = Inr (?st2, Some (p_thread_ptr (process_table st ! p)))"
    using i l1 s1(3,4) by (simp add: start_loaded_def process_current_def Let_def parent_thread_def fresh_process_def) (simp add: upd_process_def)
  have "ptab_ok fr (kids(i := [])) ?st2" by (intro upd_ok) (simp_all add: cur_ok s1(2))
  moreover have "i \<notin> set ((kids(i := [])) j)" if "j < MAX_PROCESSES" "p_valid (process_table ?st2 ! j)" for j
    using d(7) [of j i] that i l1 s1(4) by (cases "j = i") auto
  moreover have "process_table ?st2 ! i = (process_table st1 ! i)\<lparr>running := True, load_success := success, loaded := True, p_blocked := False\<rparr>"
    "\<forall>j. j \<noteq> i \<longrightarrow> process_table ?st2 ! j = process_table st ! j" using i(1) l1 s1(4) by simp_all
  ultimately show ?thesis using s1(1,3) s2 i(1,3) by (intro exI [of _ st1] exI [of _ ?st2]) (simp add: fresh_process_def)
qed

text \<open>It becomes a child of its parent and ends.\<close>

lemma exec_exited:
  assumes ok: "ptab_ok (fr @ [i]) kids st" and p: "cur_pid st = int p" "p < MAX_PROCESSES" "p_valid (process_table st ! p)"
    and a: "fn_copy \<noteq> 0" "thread \<noteq> 0"
  shows "\<exists>st1 st2 st3 st4. execute_begin fn_copy thread dir malloc_ok vm st = Inr (st1, int i) \<and>
     start_loaded True (st1\<lparr>cur_pid := int i\<rparr>) = Inr (st2, Some (p_thread_ptr (process_table st ! p))) \<and>
     execute_end (int i) (st2\<lparr>cur_pid := int p\<rparr>) = Inr (st3, int i) \<and>
     process_exit_table code (st3\<lparr>cur_pid := int i\<rparr>) = Inr (st4, None) \<and>
     ptab_ok fr (kids(i := [], p := kids p @ [i])) st4 \<and> i < MAX_PROCESSES \<and> i \<noteq> p \<and>
     (p_valid (process_table st4 ! i) \<and> parent_pid (process_table st4 ! i) = int p \<and> \<not> running (process_table st4 ! i) \<and>
      return_code (process_table st4 ! i) = code) \<and>
     (\<forall>j. j \<noteq> i \<longrightarrow> process_table st4 ! j = process_table st ! j)"
proof -
  obtain st1 st2 where s: "execute_begin fn_copy thread dir malloc_ok vm st = Inr (st1, int i)"
    "start_loaded True (st1\<lparr>cur_pid := int i\<rparr>) = Inr (st2, Some (p_thread_ptr (process_table st ! p)))"
    "ptab_ok fr (kids(i := [])) st2" and i: "i < MAX_PROCESSES" "i \<noteq> p" and
    e: "p_valid (process_table st2 ! i)" "parent_pid (process_table st2 ! i) = int p" "\<not> p_blocked (process_table st2 ! i)"
      "loaded (process_table st2 ! i)" "load_success (process_table st2 ! i)" "\<And>j. j \<noteq> i \<Longrightarrow> process_table st2 ! j = process_table st ! j"
    and loose: "\<And>j. j < MAX_PROCESSES \<Longrightarrow> p_valid (process_table st2 ! j) \<Longrightarrow> i \<notin> set ((kids(i := [])) j)"
    using exec_started [OF ok p a, of dir malloc_ok vm True] by blast
  let ?st2 = "st2\<lparr>cur_pid := int p\<rparr>"
  have v: "p_valid (process_table ?st2 ! p)" "process_current ?st2 = p" "p_valid (process_table ?st2 ! i)"
    using p(3) i(2) e(1,6) by (simp_all add: process_current_def)
  have "ptab_ok fr (kids(i := [])) ?st2" using s(3) by (simp only: cur_ok)
  from add_child_ok [OF this p(2) v(1,2) i(1) v(3)] loose obtain h where h: "add_child i ?st2 = Inr (?st2\<lparr>lists := h\<rparr>)"
    "ptab_ok fr ((kids(i := []))(p := (kids(i := [])) p @ [i])) (?st2\<lparr>lists := h\<rparr>)" by auto
  let ?st3 = "?st2\<lparr>lists := h\<rparr>" and ?k = "kids(i := [], p := kids p @ [i])"
  have s3: "execute_end (int i) ?st2 = Inr (?st3, int i)" using h(1) e(4,5) by (simp add: execute_end_def)
  have o3: "ptab_ok fr ?k (?st3\<lparr>cur_pid := int i\<rparr>)" using h(2) i(2) unfolding cur_ok by simp
  have l: "length (process_table st2) = MAX_PROCESSES" by (rule ptab_okD(1) [OF s(3)])
  let ?st4 = "upd_process i (\<lambda>x. x\<lparr>return_code := code, p_blocked := False, running := False\<rparr>) (?st3\<lparr>cur_pid := int i\<rparr>)"
  have s4: "process_exit_table code (?st3\<lparr>cur_pid := int i\<rparr>) = Inr (?st4, None)"
    using process_exit_childless [OF o3, of i p] i e by simp
  have o4: "ptab_ok fr ?k ?st4" by (rule upd_ok [OF o3]) simp_all
  have "process_table ?st4 ! i = (process_table st2 ! i)\<lparr>return_code := code, p_blocked := False, running := False\<rparr>"
    "\<forall>j. j \<noteq> i \<longrightarrow> process_table ?st4 ! j = process_table st ! j" using i(1) l e(6) by simp_all
  then show ?thesis using s(1,2) s3 s4 o4 i e(1,2)
    by (intro exI [of _ st1] exI [of _ st2] exI [of _ ?st3] exI [of _ ?st4]) simp
qed

text \<open>C15. From the start to the end of a child process: \<open>process_execute\<close> takes the last free entry and returns its number
  once the child has been loaded, which wakes the parent; the child exits with a code; \<open>process_wait\<close> returns
  that code and gives the entry back. Afterwards the table is well formed with the same free entries, the children of all other processes
  are what they were and no other entry has changed.\<close>

theorem exec_wait_code:
  assumes ok: "ptab_ok (fr @ [i]) kids st" and p: "cur_pid st = int p" "p < MAX_PROCESSES" "p_valid (process_table st ! p)"
    and a: "fn_copy \<noteq> 0" "thread \<noteq> 0"
  shows "\<exists>st1 st2 st3 st4 st5. execute_begin fn_copy thread dir malloc_ok vm st = Inr (st1, int i) \<and>
     start_loaded True (st1\<lparr>cur_pid := int i\<rparr>) = Inr (st2, Some (p_thread_ptr (process_table st ! p))) \<and>
     execute_end (int i) (st2\<lparr>cur_pid := int p\<rparr>) = Inr (st3, int i) \<and>
     process_exit_table code (st3\<lparr>cur_pid := int i\<rparr>) = Inr (st4, None) \<and>
     process_wait (int i) (st4\<lparr>cur_pid := int p\<rparr>) = Inr (st5, code) \<and>
     ptab_ok (fr @ [i]) (kids(i := [])) st5 \<and> (\<forall>j. j \<noteq> i \<longrightarrow> process_table st5 ! j = process_table st ! j)"
proof -
  obtain st1 st2 st3 st4 where s: "execute_begin fn_copy thread dir malloc_ok vm st = Inr (st1, int i)"
    "start_loaded True (st1\<lparr>cur_pid := int i\<rparr>) = Inr (st2, Some (p_thread_ptr (process_table st ! p)))"
    "execute_end (int i) (st2\<lparr>cur_pid := int p\<rparr>) = Inr (st3, int i)" "process_exit_table code (st3\<lparr>cur_pid := int i\<rparr>) = Inr (st4, None)"
    "ptab_ok fr (kids(i := [], p := kids p @ [i])) st4" and i: "i < MAX_PROCESSES" "i \<noteq> p" and
    e: "p_valid (process_table st4 ! i)" "parent_pid (process_table st4 ! i) = int p" "\<not> running (process_table st4 ! i)"
      "return_code (process_table st4 ! i) = code" "\<And>j. j \<noteq> i \<Longrightarrow> process_table st4 ! j = process_table st ! j"
    using exec_exited [OF ok p a, of dir malloc_ok vm code] by blast
  let ?k = "kids(i := [], p := kids p @ [i])" and ?st4 = "st4\<lparr>cur_pid := int p\<rparr>"
  have "ptab_ok fr ?k ?st4" using s(5) by (simp only: cur_ok)
  moreover have "p_valid (process_table ?st4 ! p)" using p(3) e(5) i(2) by simp
  ultimately obtain h where h: "process_table_free i ?st4 = Inr (upd_process i (\<lambda>x. x\<lparr>p_valid := False\<rparr>) (?st4\<lparr>lists := h\<rparr>))"
     "ptab_ok (fr @ [i]) (?k(p := kids p @ [])) (upd_process i (\<lambda>x. x\<lparr>p_valid := False\<rparr>) (?st4\<lparr>lists := h\<rparr>))"
    using free_ok [of fr ?k ?st4 p "kids p" i "[]"] p(2) i(2) by auto
  let ?st5 = "upd_process i (\<lambda>x. x\<lparr>p_valid := False\<rparr>) (?st4\<lparr>lists := h\<rparr>)"
  have s5: "process_wait (int i) ?st4 = Inr (?st5, code)" using h(1) i(1) e(1-4) by (simp add: process_wait_def)
  have "?k(p := kids p @ []) = kids(i := [])" using i(2) by auto
  then have "ptab_ok (fr @ [i]) (kids(i := [])) ?st5" using h(2) by simp
  moreover have "\<forall>j. j \<noteq> i \<longrightarrow> process_table ?st5 ! j = process_table st ! j" using i(1) ptab_okD(1) [OF s(5)] e(5) by simp
  ultimately show ?thesis using s(1-4) s5 by blast
qed

section \<open>The initial table\<close>

lemma init_loop_ok:
  assumes "wf_list (lists st) free_list (map elem fr)" "length (process_table st) = MAX_PROCESSES" "{1..<3 + 3 * MAX_PROCESSES} \<subseteq> dom (lists st)"
    "k \<le> MAX_PROCESSES" "set fr \<inter> {..<k} = {}"
  shows "\<exists>st'. init_loop k st = Inr st' \<and> wf_list (lists st') free_list (map elem (fr @ rev [0..<k])) \<and> dom (lists st') = dom (lists st) \<and>
     length (process_table st') = MAX_PROCESSES \<and> cur_pid st' = cur_pid st \<and> cur_thread st' = cur_thread st \<and>
     (\<forall>j < MAX_PROCESSES. process_table st' ! j = (if j < k then (process_table st ! j)\<lparr>p_pid := int j, p_valid := False\<rparr> else process_table st ! j))"
  using assms
proof (induction k arbitrary: st fr)
  case (Suc k)
  have "elem k \<in> {1..<3 + 3 * MAX_PROCESSES}" using Suc.prems(4) by (simp add: elem_def)
  then have "elem k \<in> dom (lists st)" using Suc.prems(3) by blast
  moreover have "k \<notin> set fr" using Suc.prems(5) by auto
  ultimately have "detached (lists st) free_list (map elem fr) (elem k)" by (auto simp: detached_def)
  from list_push_back_wf [OF Suc.prems(1) this] obtain h where "list_push_back (lists st) free_list (elem k) = Inr h"
    "wf_list h free_list (map elem fr @ [elem k])" "frame (insert (elem k) (nodes free_list (map elem fr))) (lists st) h" by blast
  then have h: "list_push_back (lists st) free_list (elem k) = Inr h" "wf_list h free_list (map elem (fr @ [k]))" "dom h = dom (lists st)"
    using frame_dom by simp_all
  let ?st = "upd_process k (\<lambda>p. p\<lparr>p_pid := int k, p_valid := False\<rparr>) (st\<lparr>lists := h\<rparr>)"
  have k: "k < MAX_PROCESSES" using Suc.prems(4) by simp
  have "wf_list (lists ?st) free_list (map elem (fr @ [k]))" "length (process_table ?st) = MAX_PROCESSES"
    "{1..<3 + 3 * MAX_PROCESSES} \<subseteq> dom (lists ?st)" "k \<le> MAX_PROCESSES" "set (fr @ [k]) \<inter> {..<k} = {}"
    using h Suc.prems by (simp_all add: upd_process_def) auto
  from Suc.IH [OF this] obtain st' where st': "init_loop k ?st = Inr st'" "wf_list (lists st') free_list (map elem ((fr @ [k]) @ rev [0..<k]))"
    "dom (lists st') = dom (lists ?st)" "length (process_table st') = MAX_PROCESSES" "cur_pid st' = cur_pid ?st" "cur_thread st' = cur_thread ?st"
    "\<And>j. j < MAX_PROCESSES \<Longrightarrow> process_table st' ! j = (if j < k then (process_table ?st ! j)\<lparr>p_pid := int j, p_valid := False\<rparr> else process_table ?st ! j)"
    by blast
  have "process_table st' ! j = (if j < Suc k then (process_table st ! j)\<lparr>p_pid := int j, p_valid := False\<rparr> else process_table st ! j)"
    if "j < MAX_PROCESSES" for j
    using st'(7) [OF that] k Suc.prems(2) by (auto simp: upd_process_def nth_list_update less_Suc_eq)
  then show ?case using st'(1-6) h by (auto simp: upd_process_def)
qed simp

text \<open>\<open>process_init\<close> gives the initial thread entry 0; all others are free, and the last one in the list is 1.\<close>

lemma process_init_ok:
  assumes l: "length (process_table st) = MAX_PROCESSES" and d: "{1..<3 + 3 * MAX_PROCESSES} \<subseteq> dom (lists st)"
  shows "\<exists>st'. process_init malloc_ok vm st = Inr st' \<and> ptab_ok (rev [1..<MAX_PROCESSES]) (\<lambda>_. []) st' \<and> cur_pid st' = int 0 \<and> p_valid (process_table st' ! 0)"
proof -
  have "head free_list \<in> {1..<3 + 3 * MAX_PROCESSES}" "tail free_list \<in> {1..<3 + 3 * MAX_PROCESSES}" by (simp_all add: free_list_def)
  then have "head free_list \<in> dom (lists st)" "tail free_list \<in> dom (lists st)" using d by blast+
  then obtain h where h: "list_init (lists st) free_list = Inr h" "wf_list h free_list (map elem [])" "dom h = dom (lists st)"
    using list_init_wf [of free_list "lists st"] frame_dom by (auto simp: free_list_def)
  obtain st1 where s1: "init_loop MAX_PROCESSES (st\<lparr>lists := h\<rparr>) = Inr st1" "wf_list (lists st1) free_list (map elem (rev [0..<MAX_PROCESSES]))"
    "dom (lists st1) = dom (lists st)" "length (process_table st1) = MAX_PROCESSES"
    "\<And>j. j < MAX_PROCESSES \<Longrightarrow> process_table st1 ! j = (process_table st ! j)\<lparr>p_pid := int j, p_valid := False\<rparr>"
    using init_loop_ok [of "st\<lparr>lists := h\<rparr>" "[]" MAX_PROCESSES] h l d by auto
  have "0 < MAX_PROCESSES" by (simp add: MAX_PROCESSES_def)
  from upt_conv_Cons [OF this] have M: "[0..<MAX_PROCESSES] = 0 # [1..<MAX_PROCESSES]" by simp
  have ok: "ptab_ok (rev [1..<MAX_PROCESSES] @ [0]) (\<lambda>_. []) st1"
    using s1 d M by (auto simp: ptab_ok_def MAX_PROCESSES_def [THEN arg_cong, of "\<lambda>n. 0 < n"])
  obtain h2 where h2: "process_table_get malloc_ok vm st1 = Inr (upd_process 0 (fresh_process malloc_ok vm (cur_pid st1)) (st1\<lparr>lists := h2\<rparr>), int 0)"
    "ptab_ok (rev [1..<MAX_PROCESSES]) ((\<lambda>_. [])(0 := [])) (upd_process 0 (fresh_process malloc_ok vm (cur_pid st1)) (st1\<lparr>lists := h2\<rparr>))"
    using get_ok [OF ok] by blast
  let ?st2 = "upd_process 0 (fresh_process malloc_ok vm (cur_pid st1)) (st1\<lparr>lists := h2\<rparr>)"
  let ?st3 = "upd_process 0 (\<lambda>p. p\<lparr>p_thread_ptr := cur_thread ?st2\<rparr>) (?st2\<lparr>cur_pid := int 0\<rparr>)"
  have "process_init malloc_ok vm st = Inr ?st3" using h(1) s1(1) h2(1) by (simp add: process_init_def INIT_PID_def)
  moreover have "ptab_ok (rev [1..<MAX_PROCESSES]) (\<lambda>_. []) ?st3"
  proof -
    have "((\<lambda>_. [])(0 := [])) = (\<lambda>_ :: nat. [] :: nat list)" by (rule ext) simp
    then have "ptab_ok (rev [1..<MAX_PROCESSES]) (\<lambda>_. []) ?st2" using h2(2) by simp
    then show ?thesis by (intro upd_ok) (simp_all add: cur_ok)
  qed
  moreover have "0 < MAX_PROCESSES" by (simp add: MAX_PROCESSES_def)
  ultimately show ?thesis using s1(4) by (auto simp: fresh_process_def)
qed


definition sample_ptab :: ptab where
  "sample_ptab = \<lparr>lists = (\<lambda>_. Some \<lparr>elem_prev = 0, elem_next = 0\<rparr>),
     process_table = replicate MAX_PROCESSES \<lparr>p_thread_ptr = 0, p_pid = 0, parent_pid = 0, working_dir = 0, p_files = [], p_mmappings = [],
       supp_page_table = None, p_file = 0, return_code = 0, running = False, p_valid = False, p_blocked = False, loaded = False, load_success = False\<rparr>,
     cur_thread = 7, cur_pid = 0\<rparr>"

lemma sample_init:
  "\<exists>st. process_init True vm sample_ptab = Inr st \<and> ptab_ok (rev [2..<MAX_PROCESSES] @ [1]) (\<lambda>_. []) st \<and> cur_pid st = int 0 \<and> p_valid (process_table st ! 0)"
proof -
  have "length (process_table sample_ptab) = MAX_PROCESSES" "{1..<3 + 3 * MAX_PROCESSES} \<subseteq> dom (lists sample_ptab)"
    by (auto simp: sample_ptab_def)
  note init = process_init_ok [OF this, of True vm]
  have "1 < MAX_PROCESSES" by (simp add: MAX_PROCESSES_def)
  from upt_conv_Cons [OF this] have "rev [1..<MAX_PROCESSES] = rev [2..<MAX_PROCESSES] @ [1]" by (simp add: numeral_2_eq_2)
  then show ?thesis using init by (simp only:)
qed

theorem exec_wait_code_witness:
  "\<forall>vm :: (unit, unit) vm. \<exists>st st1 st2 st3 st4 st5. process_init True vm sample_ptab = Inr st \<and>
     execute_begin 4096 20 5 True vm st = Inr (st1, 1) \<and> execute_end 1 (st2\<lparr>cur_pid := 0\<rparr>) = Inr (st3, 1) \<and>
     process_exit_table 42 (st3\<lparr>cur_pid := 1\<rparr>) = Inr (st4, None) \<and> process_wait 1 (st4\<lparr>cur_pid := 0\<rparr>) = Inr (st5, 42)"
proof
  fix vm :: "(unit, unit) vm"
  obtain st where st: "process_init True vm sample_ptab = Inr st" "ptab_ok (rev [2..<MAX_PROCESSES] @ [1]) (\<lambda>_. []) st"
    "cur_pid st = int 0" "p_valid (process_table st ! 0)" using sample_init by blast
  have "0 < MAX_PROCESSES" by (simp add: MAX_PROCESSES_def)
  moreover have "(4096 :: nat) \<noteq> 0" "(20 :: nat) \<noteq> 0" by simp_all
  ultimately obtain st1 st2 st3 st4 st5 where "execute_begin 4096 20 5 True vm st = Inr (st1, int 1)"
    "execute_end (int 1) (st2\<lparr>cur_pid := int 0\<rparr>) = Inr (st3, int 1)" "process_exit_table 42 (st3\<lparr>cur_pid := int 1\<rparr>) = Inr (st4, None)"
    "process_wait (int 1) (st4\<lparr>cur_pid := int 0\<rparr>) = Inr (st5, 42)"
    using exec_wait_code [OF st(2,3) _ st(4), of 4096 20 5 True vm 42] by blast
  then show "\<exists>st st1 st2 st3 st4 st5. process_init True vm sample_ptab = Inr st \<and>
     execute_begin 4096 20 5 True vm st = Inr (st1, 1) \<and> execute_end 1 (st2\<lparr>cur_pid := 0\<rparr>) = Inr (st3, 1) \<and>
     process_exit_table 42 (st3\<lparr>cur_pid := 1\<rparr>) = Inr (st4, None) \<and> process_wait 1 (st4\<lparr>cur_pid := 0\<rparr>) = Inr (st5, 42)"
    unfolding semiring_1_class.of_nat_simps(1) of_nat_1 using st(1) by blast
qed

section \<open>Defects\<close>

text \<open>The loop over the children up to the first that has ended.\<close>

lemma child_loop_zombie:
  assumes "ptab_ok fr kids st" "p < MAX_PROCESSES" "p_valid (process_table st ! p)" "kids p = xs @ as @ z # bs" "z \<noteq> p"
    "\<forall>a \<in> set as. running (process_table st ! a)" "\<not> running (process_table st ! z)" "Suc (length as) < n"
  shows "child_loop n (elem (hd (as @ [z]))) (tail (children p)) st = Inl Invalid_access"
  using assms
proof (induction as arbitrary: xs st n)
  case Nil
  obtain m where n: "n = Suc (Suc m)" using Nil.prems(8) by (cases n; cases "n - 1") auto
  have z: "z < MAX_PROCESSES" using ptab_okD(7) [OF Nil.prems(1-3)] Nil.prems(4) by simp
  obtain h where h: "process_table_free z st = Inr (upd_process z (\<lambda>x. x\<lparr>p_valid := False\<rparr>) (st\<lparr>lists := h\<rparr>))" "list_next h (elem z) = Inr (tail free_list)"
    using free_ok [OF Nil.prems(1-3), of xs z bs] Nil.prems(4,5) by auto
  have "list_entry (tail free_list) = Inl Invalid_access" by (simp add: list_entry_def free_list_def)
  then show ?case using n h z Nil.prems(7) by simp
next
  case (Cons a as)
  obtain m where n: "n = Suc m" "Suc (length as) < m" using Cons.prems(8) by (cases n) auto
  note d = ptab_okD [OF Cons.prems(1)]
  have a: "a < MAX_PROCESSES" using d(7) [OF Cons.prems(2,3)] Cons.prems(4) by simp
  have "distinct (kids p)" by (rule distinct_kids [OF Cons.prems(1-3)])
  then have az: "z \<noteq> a" using Cons.prems(4) by auto
  let ?st = "upd_process a (\<lambda>p. p\<lparr>parent_pid := - 1\<rparr>) st"
  have "wf_list (lists st) (children p) (map elem xs @ elem a # map elem (as @ z # bs))" using d(6) [OF Cons.prems(2,3)] Cons.prems(4) by simp
  from wf_list_next(2) [OF this] have nx: "list_next (lists st) (elem a) = Inr (elem (hd (as @ [z])))" by (cases as) simp_all
  have "child_loop m (elem (hd (as @ [z]))) (tail (children p)) ?st = Inl Invalid_access"
  proof (rule Cons.IH [of ?st "xs @ [a]"])
    show "ptab_ok fr kids ?st" by (intro upd_ok Cons.prems) simp_all
    show "kids p = (xs @ [a]) @ as @ z # bs" using Cons.prems(4) by simp
    show "\<forall>a \<in> set as. running (process_table ?st ! a)" using Cons.prems(6) a d(1) by auto
    show "\<not> running (process_table ?st ! z)" using Cons.prems(7) a d(1) az by simp
    show "p_valid (process_table ?st ! p)" using Cons.prems(3) a d(1) by (cases "p = a") simp_all
  qed (use Cons.prems n in simp_all)
  then show ?case using n(1) nx a Cons.prems(6) by simp
qed

text \<open>C39. A process cannot exit while one of its children has ended and nobody has waited for it: \<open>process_exit\<close> gives the
  entry of that child back in the middle of the loop over the children, \<open>list_next\<close> then follows the child into the list of free
  entries, and the loop takes the end of that list for a process.\<close>

theorem exit_unreaped_child:
  assumes ok: "ptab_ok fr kids st" and p: "cur_pid st = int p" "p < MAX_PROCESSES" "p_valid (process_table st ! p)"
    and k: "kids p = as @ z # bs" "z \<noteq> p" "p \<notin> set as" "\<forall>a \<in> set as. running (process_table st ! a)" "\<not> running (process_table st ! z)"
  shows "process_exit_table code st = Inl Invalid_access"
proof -
  note d = ptab_okD [OF ok]
  let ?st = "upd_process p (\<lambda>x. x\<lparr>return_code := code\<rparr>) st"
  have ok': "ptab_ok fr kids ?st" by (rule upd_ok [OF ok]) simp_all
  have v: "p_valid (process_table ?st ! p)" using p d(1) by simp
  have wf: "wf_list (lists st) (children p) (map elem (as @ z # bs))" using d(6) [OF p(2,3)] k(1) by simp
  have "set (kids p) \<subseteq> {..<MAX_PROCESSES}" using d(7) [OF p(2,3)] by auto
  from card_mono [OF _ this] distinct_card [OF distinct_kids [OF ok p(2,3)]] have "length (as @ z # bs) \<le> MAX_PROCESSES" using k(1) by simp
  then have n: "Suc (length as) < Suc MAX_PROCESSES" by simp
  have "child_loop (Suc MAX_PROCESSES) (elem (hd (as @ [z]))) (tail (children p)) ?st = Inl Invalid_access"
    using p(2) d(1) k by (intro child_loop_zombie [OF ok' p(2) v, of "[]" as z bs] n) simp_all
  moreover have "hd (map elem (as @ z # bs) @ [tail (children p)]) = elem (hd (as @ [z]))" by (cases as) simp_all
  ultimately show ?thesis
    using list_empty_wf [OF wf] list_begin_wf [OF wf] p(1) by (simp add: process_exit_table_def process_current_def exit_children_def list_end_def Let_def)
qed


theorem exit_unreaped_child_witness:
  "\<forall>vm :: (unit, unit) vm. \<exists>st st1 st2 st3 st4. process_init True vm sample_ptab = Inr st \<and>
     execute_begin 4096 20 5 True vm st = Inr (st1, 1) \<and> execute_end 1 (st2\<lparr>cur_pid := 0\<rparr>) = Inr (st3, 1) \<and>
     process_exit_table 42 (st3\<lparr>cur_pid := 1\<rparr>) = Inr (st4, None) \<and> process_exit_table 0 (st4\<lparr>cur_pid := 0\<rparr>) = Inl Invalid_access"
proof
  fix vm :: "(unit, unit) vm"
  obtain st where st: "process_init True vm sample_ptab = Inr st" "ptab_ok (rev [2..<MAX_PROCESSES] @ [1]) (\<lambda>_. []) st"
    "cur_pid st = int 0" "p_valid (process_table st ! 0)" using sample_init by blast
  have m: "0 < MAX_PROCESSES" by (simp add: MAX_PROCESSES_def)
  have "(4096 :: nat) \<noteq> 0" "(20 :: nat) \<noteq> 0" by simp_all
  from exec_exited [OF st(2,3) m st(4) this, of 5 True vm 42]
  obtain st1 st2 st3 st4 where s: "execute_begin 4096 20 5 True vm st = Inr (st1, int 1)"
    "execute_end (int 1) (st2\<lparr>cur_pid := int 0\<rparr>) = Inr (st3, int 1)" "process_exit_table 42 (st3\<lparr>cur_pid := int 1\<rparr>) = Inr (st4, None)" and
    o: "ptab_ok (rev [2..<MAX_PROCESSES]) ((\<lambda>_. [])(1 := [], 0 := [] @ [1])) st4" "\<not> running (process_table st4 ! 1)"
    "\<And>j. j \<noteq> 1 \<Longrightarrow> process_table st4 ! j = process_table st ! j" by blast
  have "process_exit_table 0 (st4\<lparr>cur_pid := int 0\<rparr>) = Inl Invalid_access"
    using o(1) o(2) o(3) [of 0] st(4) m
    by (intro exit_unreaped_child [where fr = "rev [2..<MAX_PROCESSES]" and kids = "(\<lambda>_. [])(1 := [], 0 := [] @ [1])" and p = 0 and as = "[]" and z = 1 and bs = "[]"])
      (simp_all add: cur_ok)
  with s show "\<exists>st st1 st2 st3 st4. process_init True vm sample_ptab = Inr st \<and>
     execute_begin 4096 20 5 True vm st = Inr (st1, 1) \<and> execute_end 1 (st2\<lparr>cur_pid := 0\<rparr>) = Inr (st3, 1) \<and>
     process_exit_table 42 (st3\<lparr>cur_pid := 1\<rparr>) = Inr (st4, None) \<and> process_exit_table 0 (st4\<lparr>cur_pid := 0\<rparr>) = Inl Invalid_access"
    unfolding semiring_1_class.of_nat_simps(1) of_nat_1 using st(1) by blast
qed

text \<open>C40. A program that cannot be loaded costs an entry of the table for ever: when the child has exited and \<open>process_execute\<close>
  has returned \<open>PID_ERROR\<close>, its entry is not free, and no process has it as a child, so that nobody can wait for it.\<close>

theorem failed_load_leaks:
  assumes ok: "ptab_ok (fr @ [i]) kids st" and p: "cur_pid st = int p" "p < MAX_PROCESSES" "p_valid (process_table st ! p)"
    and a: "fn_copy \<noteq> 0" "thread \<noteq> 0"
  shows "\<exists>st1 st2 st3. execute_begin fn_copy thread dir malloc_ok vm st = Inr (st1, int i) \<and>
     start_loaded False (st1\<lparr>cur_pid := int i\<rparr>) = Inr (st2, Some (p_thread_ptr (process_table st ! p))) \<and>
     process_exit_table (- 1) (st2\<lparr>cur_pid := int i\<rparr>) = Inr (st3, None) \<and>
     execute_end (int i) (st3\<lparr>cur_pid := int p\<rparr>) = Inr (st3\<lparr>cur_pid := int p\<rparr>, PID_ERROR) \<and>
     ptab_ok fr (kids(i := [])) st3 \<and> process_count st3 = Inr (length fr) \<and> process_count st = Inr (length fr + 1) \<and>
     p_valid (process_table st3 ! i) \<and> (\<forall>j < MAX_PROCESSES. p_valid (process_table st3 ! j) \<longrightarrow> i \<notin> set ((kids(i := [])) j))"
proof -
  obtain st1 st2 where s: "execute_begin fn_copy thread dir malloc_ok vm st = Inr (st1, int i)"
    "start_loaded False (st1\<lparr>cur_pid := int i\<rparr>) = Inr (st2, Some (p_thread_ptr (process_table st ! p)))"
    "ptab_ok fr (kids(i := [])) st2" and i: "i < MAX_PROCESSES" "i \<noteq> p" and
    e: "p_valid (process_table st2 ! i)" "parent_pid (process_table st2 ! i) = int p" "\<not> p_blocked (process_table st2 ! i)"
      "loaded (process_table st2 ! i)" "\<not> load_success (process_table st2 ! i)"
    and loose: "\<And>j. j < MAX_PROCESSES \<Longrightarrow> p_valid (process_table st2 ! j) \<Longrightarrow> i \<notin> set ((kids(i := [])) j)"
    using exec_started [OF ok p a, of dir malloc_ok vm False] by blast
  have l: "length (process_table st2) = MAX_PROCESSES" by (rule ptab_okD(1) [OF s(3)])
  have o2: "ptab_ok fr (kids(i := [])) (st2\<lparr>cur_pid := int i\<rparr>)" using s(3) by (simp only: cur_ok)
  let ?st3 = "upd_process i (\<lambda>x. x\<lparr>return_code := - 1, p_blocked := False, running := False\<rparr>) (st2\<lparr>cur_pid := int i\<rparr>)"
  have s3: "process_exit_table (- 1) (st2\<lparr>cur_pid := int i\<rparr>) = Inr (?st3, None)"
    using process_exit_childless [OF o2, of i p] i e by simp
  have o3: "ptab_ok fr (kids(i := [])) ?st3" by (rule upd_ok [OF o2]) simp_all
  have n: "process_table ?st3 ! i = (process_table st2 ! i)\<lparr>return_code := - 1, p_blocked := False, running := False\<rparr>"
    "\<And>j. p_valid (process_table ?st3 ! j) = p_valid (process_table st2 ! j)" using i(1) l by simp_all
  have cnt: "process_count x = Inr (length xs)" if "ptab_ok xs ks x" for xs ks x
  proof -
    have "set xs \<subseteq> {..<MAX_PROCESSES}" using ptab_okD(5) [OF that] by auto
    from card_mono [OF _ this] distinct_card [OF distinct_free [OF that]] have "length xs \<le> MAX_PROCESSES" by simp
    then show ?thesis using list_size_wf [OF ptab_okD(3) [OF that]] by (simp add: process_count_def)
  qed
  have "execute_end (int i) (?st3\<lparr>cur_pid := int p\<rparr>) = Inr (?st3\<lparr>cur_pid := int p\<rparr>, PID_ERROR)" using n(1) e(4,5) by (simp add: execute_end_def)
  then show ?thesis using s(1,2) s3 o3 n e(1) loose cnt [OF ok] cnt [OF o3]
    by (intro exI [of _ st1] exI [of _ st2] exI [of _ ?st3]) simp
qed

theorem failed_load_leaks_witness:
  "\<forall>vm :: (unit, unit) vm. \<exists>st st1 st2 st3. process_init True vm sample_ptab = Inr st \<and> process_count st = Inr 511 \<and>
     execute_begin 4096 20 5 True vm st = Inr (st1, 1) \<and> start_loaded False (st1\<lparr>cur_pid := 1\<rparr>) = Inr (st2, Some (p_thread_ptr (process_table st ! 0))) \<and>
     process_exit_table (- 1) (st2\<lparr>cur_pid := 1\<rparr>) = Inr (st3, None) \<and> process_count st3 = Inr 510"
proof
  fix vm :: "(unit, unit) vm"
  obtain st where st: "process_init True vm sample_ptab = Inr st" "ptab_ok (rev [2..<MAX_PROCESSES] @ [1]) (\<lambda>_. []) st"
    "cur_pid st = int 0" "p_valid (process_table st ! 0)" using sample_init by blast
  have m: "0 < MAX_PROCESSES" by (simp add: MAX_PROCESSES_def)
  have l: "length (rev [2..<MAX_PROCESSES]) = 510" "(510 :: nat) + 1 = 511" by (simp_all add: MAX_PROCESSES_def)
  have "(4096 :: nat) \<noteq> 0" "(20 :: nat) \<noteq> 0" by simp_all
  from failed_load_leaks [OF st(2,3) m st(4) this, of 5 True vm] st(1)
  show "\<exists>st st1 st2 st3. process_init True vm sample_ptab = Inr st \<and> process_count st = Inr 511 \<and>
     execute_begin 4096 20 5 True vm st = Inr (st1, 1) \<and> start_loaded False (st1\<lparr>cur_pid := 1\<rparr>) = Inr (st2, Some (p_thread_ptr (process_table st ! 0))) \<and>
     process_exit_table (- 1) (st2\<lparr>cur_pid := 1\<rparr>) = Inr (st3, None) \<and> process_count st3 = Inr 510"
    unfolding l semiring_1_class.of_nat_simps(1) of_nat_1 by blast
qed


end
