(* ===== verification/File_Descriptors.thy ===== *)
theory File_Descriptors
  imports C_String Process_Table Directory_Properties
begin

text \<open>
  System calls on files and directories (\<^verbatim>\<open>userprog/syscall.c\<close>). A process has a table of descriptors, whose entries are indices
  of the table of all open files, or -1. The calls that transfer data (\<open>read\<close>, \<open>write\<close>) and that map files are not here, since they
  work on the pages of the process. User memory is a partial map of bytes, with a predicate for
  the ones that can be written; how a page fault fills it is not modelled.
\<close>

declare neq0_conv [iff del] bot_nat_0.not_eq_extremum [simp del]

section \<open>Model\<close>

definition MAX_GLOBAL_FILES :: nat where "MAX_GLOBAL_FILES = MAX_PROCESSES * 2"
definition EXIT_FAILURE :: int where "EXIT_FAILURE = - 1"

record sys =
  fs :: filesys
  all_files :: "addr list"
  procs :: ptab
  umem :: "u32 \<rightharpoonup> u8"
  uwrite :: "u32 \<Rightarrow> bool"

text \<open>A result \<open>None\<close> is the end of the calling process by \<open>thread_exit\<close>.\<close>

type_synonym 'a call = "(sys \<times> 'a option) res"

definition exit_failure :: "sys \<Rightarrow> 'a call" where "exit_failure st = Inr (st, None)"
definition return :: "'a \<Rightarrow> sys \<Rightarrow> 'a call" where "return x st = Inr (st, Some x)"

definition with_fs :: "(filesys \<Rightarrow> (filesys \<times> 'a) res) \<Rightarrow> sys \<Rightarrow> (sys \<times> 'a) res" where
  "with_fs f st = bindR (f (fs st)) (\<lambda>(x, y). Inr (st\<lparr>fs := x\<rparr>, y))"

definition on_fs :: "(filesys \<Rightarrow> filesys res) \<Rightarrow> sys \<Rightarrow> sys res" where
  "on_fs f st = bindR (f (fs st)) (\<lambda>x. Inr (st\<lparr>fs := x\<rparr>))"

subsection \<open>User memory\<close>

definition get_user :: "u32 \<Rightarrow> sys \<Rightarrow> int" where
  "get_user a st = (case umem st a of None \<Rightarrow> - 1 | Some b \<Rightarrow> int (unat b))"

definition put_user :: "u32 \<Rightarrow> u8 \<Rightarrow> sys \<Rightarrow> sys \<times> bool" where
  "put_user a b st = (if umem st a \<noteq> None \<and> uwrite st a then (st\<lparr>umem := (umem st)(a \<mapsto> b)\<rparr>, True) else (st, False))"

definition r_valid :: "u32 \<Rightarrow> sys \<Rightarrow> bool" where
  "r_valid a st \<longleftrightarrow> a \<noteq> 0 \<and> is_user_vaddr a \<and> get_user a st \<noteq> - 1"

definition w_valid :: "u32 \<Rightarrow> sys \<Rightarrow> sys \<times> bool" where
  "w_valid a st =
     (if a = 0 \<or> is_kernel_vaddr a then (st, False)
      else let byte = get_user a st in if byte = - 1 then (st, False) else put_user a (word_of_int byte) st)"

definition getArg :: "nat \<Rightarrow> u32 \<Rightarrow> sys \<Rightarrow> u32 call" where
  "getArg argnum esp st =
     (let addr = esp + 4 * of_nat argnum in
      if \<not> r_valid addr st then exit_failure st
      else case w_valid addr st of (st, ok) \<Rightarrow>
        if \<not> ok then exit_failure st
        else case those (map (\<lambda>i. umem st (addr + of_nat i)) [0..<4]) of None \<Rightarrow> Inl Invalid_access | Some bs \<Rightarrow> return (le_word bs) st)"

text \<open>A string argument, which the kernel reads where it is; only its first byte has been checked before.\<close>

fun ustring :: "nat \<Rightarrow> u32 \<Rightarrow> sys \<Rightarrow> u8 list res" where
  "ustring 0 a st = Inl Out_of_fuel"
| "ustring (Suc n) a st = (case umem st a of
     None \<Rightarrow> Inl Invalid_access
   | Some c \<Rightarrow> if c = 0 then Inr [] else bindR (ustring n (a + 1) st) (\<lambda>s. Inr (c # s)))"

fun store_user :: "u32 \<Rightarrow> u8 list \<Rightarrow> sys \<Rightarrow> sys res" where
  "store_user a [] st = Inr st"
| "store_user a (b # bs) st = (case put_user a b st of (st, ok) \<Rightarrow> if ok then store_user (a + 1) bs st else Inl Invalid_access)"

subsection \<open>Descriptors\<close>

text \<open>The loops that look for an unused entry of a table with \<open>n\<close> entries.\<close>

function first_free :: "(nat \<Rightarrow> bool) \<Rightarrow> nat \<Rightarrow> nat \<Rightarrow> nat" where
  "first_free free n i = (if i < n \<and> \<not> free i then first_free free n (Suc i) else i)"
  by pat_completeness auto
termination
  by (relation "measure (\<lambda>(free, n, i). n - i)") auto

declare first_free.simps [simp del]

definition proc :: "sys \<Rightarrow> process" where
  "proc st = process_table (procs st) ! process_current (procs st)"

definition set_fd :: "nat \<Rightarrow> int \<Rightarrow> sys \<Rightarrow> sys" where
  "set_fd fd v st = st\<lparr>procs := upd_process (process_current (procs st)) (\<lambda>p. p\<lparr>p_files := (p_files p)[fd := v]\<rparr>) (procs st)\<rparr>"

definition open_file :: "malloc \<Rightarrow> u32 \<Rightarrow> sys \<Rightarrow> int call" where
  "open_file m upath st =
     (if \<not> r_valid upath st then exit_failure st
      else
        let fd = first_free (\<lambda>i. p_files (proc st) ! i = - 1) MAX_FILES 2 in
        if fd = MAX_FILES then return EXIT_FAILURE st
        else
          bindR (ustring STRING_MAX upath st) (\<lambda>s.
          bindR (with_fs (filesys_open m (working_dir (proc st)) s) st) (\<lambda>(st, f).
          if f = 0 then return EXIT_FAILURE st
          else
            let slot = first_free (\<lambda>i. all_files st ! i = 0) MAX_GLOBAL_FILES 0 in
            if slot = MAX_GLOBAL_FILES then bindR (on_fs (on_files (file_close RELEASE f)) st) (return EXIT_FAILURE)
            else return (int fd) (set_fd fd (int slot) (st\<lparr>all_files := (all_files st)[slot := f]\<rparr>)))))"

text \<open>The file a descriptor stands for; \<open>None\<close> if the number is out of range or the entry is -1.\<close>

definition fd_index :: "int \<Rightarrow> sys \<Rightarrow> int option" where
  "fd_index fd st =
     (if fd \<ge> 0 \<and> fd < int MAX_FILES \<and> p_files (proc st) ! nat fd \<noteq> - 1 then Some (p_files (proc st) ! nat fd) else None)"

definition fd_file :: "int \<Rightarrow> sys \<Rightarrow> addr option" where
  "fd_file fd st = (case fd_index fd st of None \<Rightarrow> None | Some i \<Rightarrow> if all_files st ! nat i \<noteq> 0 then Some (all_files st ! nat i) else None)"

definition filesize :: "int \<Rightarrow> sys \<Rightarrow> int call" where
  "filesize fd st = (case fd_file fd st of
     None \<Rightarrow> return (- 1) st
   | Some f \<Rightarrow> bindR (with_fs (with_files (file_length f)) st) (\<lambda>(st, n). return n st))"

text \<open>There is no semicolon after \<open>return\<close>, so \<open>file_seek\<close> is called when the pointer is null, and only then.\<close>

definition seek :: "int \<Rightarrow> u32 \<Rightarrow> sys \<Rightarrow> sys res" where
  "seek fd position st = (case fd_index fd st of
     None \<Rightarrow> Inr st
   | Some i \<Rightarrow> if all_files st ! nat i = 0 then on_fs (on_files (file_seek (all_files st ! nat i) (sint position))) st else Inr st)"

definition tell :: "int \<Rightarrow> sys \<Rightarrow> int res" where
  "tell fd st = (case fd_file fd st of None \<Rightarrow> Inr (- 1) | Some f \<Rightarrow> file_tell f (files (fs st)))"

definition close_file :: "int \<Rightarrow> sys \<Rightarrow> sys res" where
  "close_file fd st =
     (if fd \<ge> 0 \<and> fd < int MAX_FILES then
        bindR (case fd_index fd st of
            None \<Rightarrow> Inr st
          | Some i \<Rightarrow> bindR (on_fs (on_files (file_close RELEASE (all_files st ! nat i))) st) (\<lambda>st. Inr (st\<lparr>all_files := (all_files st)[nat i := 0]\<rparr>)))
          (\<lambda>st. Inr (set_fd (nat fd) (- 1) st))
      else Inr st)"

fun close_loop :: "nat \<Rightarrow> int \<Rightarrow> sys \<Rightarrow> sys res" where
  "close_loop 0 fd st = Inr st"
| "close_loop (Suc n) fd st = bindR (close_file fd st) (close_loop n (fd + 1))"

definition free_open_files :: "sys \<Rightarrow> sys res" where
  "free_open_files st = close_loop MAX_FILES 0 st"

subsection \<open>Names\<close>

definition create_dir_entry :: "malloc \<Rightarrow> u8 list \<Rightarrow> u32 \<Rightarrow> u32 \<Rightarrow> bool \<Rightarrow> sys \<Rightarrow> bool call" where
  "create_dir_entry m garbage upath initial_size is_dir st =
     (if \<not> r_valid upath st then exit_failure st
      else
        bindR (ustring STRING_MAX upath st) (\<lambda>s.
        bindR (with_fs (filesys_create m garbage (working_dir (proc st)) s (sint initial_size) is_dir) st) (\<lambda>(st, ok). return ok st)))"

definition create :: "malloc \<Rightarrow> u8 list \<Rightarrow> u32 \<Rightarrow> u32 \<Rightarrow> sys \<Rightarrow> bool call" where
  "create m garbage upath initial_size = create_dir_entry m garbage upath initial_size False"

definition mkdir :: "malloc \<Rightarrow> u8 list \<Rightarrow> u32 \<Rightarrow> sys \<Rightarrow> bool call" where
  "mkdir m garbage upath = create_dir_entry m garbage upath 4 True"

definition remove_file :: "malloc \<Rightarrow> u32 \<Rightarrow> sys \<Rightarrow> bool call" where
  "remove_file m upath st =
     (if \<not> r_valid upath st then exit_failure st
      else
        bindR (ustring STRING_MAX upath st) (\<lambda>s.
        bindR (with_fs (filesys_remove m (working_dir (proc st)) s) st) (\<lambda>(st, ok). return ok st)))"

subsection \<open>Directories\<close>

text \<open>
  An open directory is a \<open>struct file\<close> that is cast to \<open>struct dir\<close>: both begin with the inode and the position. The cast
  makes it visible as a directory while \<open>f\<close> runs, and takes the position back.
\<close>

definition cast_dir :: "addr \<Rightarrow> (filesys \<Rightarrow> (filesys \<times> 'a) res) \<Rightarrow> filesys \<Rightarrow> (filesys \<times> 'a) res" where
  "cast_dir p f st =
     bindR (fil p (files st)) (\<lambda>x.
     bindR (f (st\<lparr>dirs := (dirs st)(p \<mapsto> \<lparr>d_inode = f_inode x, d_pos = f_pos x\<rparr>)\<rparr>)) (\<lambda>(st', r).
     bindR (get_dir p st') (\<lambda>d.
     bindR (fil p (files st')) (\<lambda>x.
     Inr (st'\<lparr>dirs := (dirs st')(p := dirs st p), files := set_fil p (x\<lparr>f_pos := d_pos d\<rparr>) (files st')\<rparr>, r)))))"

definition file_of :: "addr \<Rightarrow> sys \<Rightarrow> file_struct res" where
  "file_of f st = fil f (files (fs st))"

definition chdir :: "malloc \<Rightarrow> u32 \<Rightarrow> sys \<Rightarrow> bool call" where
  "chdir m upath st =
     (if \<not> r_valid upath st then exit_failure st
      else
        bindR (ustring STRING_MAX upath st) (\<lambda>s.
        bindR (with_fs (filesys_open m (working_dir (proc st)) s) st) (\<lambda>(st, f).
        if f = 0 then return False st
        else
          bindR (file_of f st) (\<lambda>x.
          if \<not> file_is_dir x then bindR (on_fs (on_files (file_close RELEASE f)) st) (return False)
          else
            bindR (with_fs (cast_dir f (dir_reopen m f)) st) (\<lambda>(st, new_dir).
            bindR (on_fs (on_files (file_close RELEASE f)) st) (\<lambda>st.
            let old_dir = working_dir (proc st);
                st = st\<lparr>procs := upd_process (process_current (procs st)) (\<lambda>p. p\<lparr>working_dir := new_dir\<rparr>) (procs st)\<rparr> in
            bindR (on_fs (dir_close old_dir) st) (return True)))))))"

text \<open>The position in the directory grows in each round.\<close>

fun readdir_call_loop :: "nat \<Rightarrow> addr \<Rightarrow> u32 \<Rightarrow> sys \<Rightarrow> (sys \<times> bool) res" where
  "readdir_call_loop 0 f name st = Inl Out_of_fuel"
| "readdir_call_loop (Suc n) f name st =
     bindR (with_fs (cast_dir f (dir_readdir f)) st) (\<lambda>(st, r). case r of
       None \<Rightarrow> Inr (st, False)
     | Some s \<Rightarrow>
         bindR (store_user name (s @ [0]) st) (\<lambda>st.
         if s = PATH_WD \<or> s = PATH_PARENT then readdir_call_loop n f name st else Inr (st, True)))"

definition readdir :: "int \<Rightarrow> u32 \<Rightarrow> sys \<Rightarrow> bool call" where
  "readdir fd name st = (case w_valid name st of (st, ok) \<Rightarrow>
     if \<not> ok then exit_failure st
     else case fd_file fd st of
       None \<Rightarrow> return False st
     | Some f \<Rightarrow>
         bindR (file_of f st) (\<lambda>x.
         if file_is_dir x then bindR (readdir_call_loop MAX_ENTRIES f name st) (\<lambda>(st, status). return status st) else return False st))"

definition isdir :: "int \<Rightarrow> sys \<Rightarrow> bool res" where
  "isdir fd st = (case fd_file fd st of None \<Rightarrow> Inr False | Some f \<Rightarrow> bindR (file_of f st) (\<lambda>x. Inr (file_is_dir x)))"

definition inumber :: "int \<Rightarrow> sys \<Rightarrow> (sys \<times> int) res" where
  "inumber fd st = (case fd_file fd st of
     None \<Rightarrow> Inr (st, - 1)
   | Some f \<Rightarrow> bindR (with_fs (cast_dir f (\<lambda>s. bindR (filesys_get_inumber f s) (\<lambda>n. Inr (s, n)))) st) (\<lambda>(st, n). Inr (st, sint n)))"

section \<open>Tables of descriptors\<close>

text \<open>
  Every process has a table of \<open>MAX_FILES\<close> entries; an entry that is not -1 is the index of an open file, and no two
  entries, of whatever processes, have the same index.
\<close>

definition fd_entry :: "sys \<Rightarrow> nat \<Rightarrow> nat \<Rightarrow> int" where
  "fd_entry st i fd = p_files (process_table (procs st) ! i) ! fd"

abbreviation live :: "sys \<Rightarrow> nat \<Rightarrow> bool" where
  "live st i \<equiv> i < MAX_PROCESSES \<and> p_valid (process_table (procs st) ! i)"

definition tables_ok :: "sys \<Rightarrow> bool" where
  "tables_ok st \<longleftrightarrow> length (all_files st) = MAX_GLOBAL_FILES \<and> length (process_table (procs st)) = MAX_PROCESSES \<and>
     live st (process_current (procs st)) \<and>
     (\<forall>i. live st i \<longrightarrow> length (p_files (process_table (procs st) ! i)) = MAX_FILES) \<and>
     (\<forall>i fd. live st i \<longrightarrow> fd < MAX_FILES \<longrightarrow> fd_entry st i fd \<noteq> - 1 \<longrightarrow>
        0 \<le> fd_entry st i fd \<and> fd_entry st i fd < int MAX_GLOBAL_FILES \<and> all_files st ! nat (fd_entry st i fd) \<noteq> 0) \<and>
     (\<forall>i fd j k. live st i \<longrightarrow> fd < MAX_FILES \<longrightarrow> live st j \<longrightarrow> k < MAX_FILES \<longrightarrow> fd_entry st i fd = fd_entry st j k \<longrightarrow>
        fd_entry st i fd \<noteq> - 1 \<longrightarrow> i = j \<and> fd = k)"

lemma tables_okD:
  assumes "tables_ok st"
  shows "length (all_files st) = MAX_GLOBAL_FILES" "length (process_table (procs st)) = MAX_PROCESSES" "live st (process_current (procs st))"
    "live st i \<Longrightarrow> length (p_files (process_table (procs st) ! i)) = MAX_FILES"
    "live st i \<Longrightarrow> fd < MAX_FILES \<Longrightarrow> fd_entry st i fd \<noteq> - 1 \<Longrightarrow>
       0 \<le> fd_entry st i fd \<and> fd_entry st i fd < int MAX_GLOBAL_FILES \<and> all_files st ! nat (fd_entry st i fd) \<noteq> 0"
    "live st i \<Longrightarrow> fd < MAX_FILES \<Longrightarrow> live st j \<Longrightarrow> k < MAX_FILES \<Longrightarrow> fd_entry st i fd = fd_entry st j k \<Longrightarrow> fd_entry st i fd \<noteq> - 1 \<Longrightarrow> i = j \<and> fd = k"
  using assms unfolding tables_ok_def by blast+

lemma tables_cong: "all_files st' = all_files st \<Longrightarrow> procs st' = procs st \<Longrightarrow> tables_ok st' = tables_ok st"
  by (simp add: tables_ok_def fd_entry_def)

text \<open>The calls of the file system do not touch the tables.\<close>

lemma with_fs_tables: "with_fs f st = Inr (st', x) \<Longrightarrow> all_files st' = all_files st \<and> procs st' = procs st"
  by (auto simp: with_fs_def bindR_eq_Inr)

lemma on_fs_tables: "on_fs f st = Inr st' \<Longrightarrow> all_files st' = all_files st \<and> procs st' = procs st"
  by (auto simp: on_fs_def bindR_eq_Inr)

lemma put_user_tables: "put_user a b st = (st', ok) \<Longrightarrow> all_files st' = all_files st \<and> procs st' = procs st"
  by (auto simp: put_user_def split: if_splits)

lemma w_valid_tables: "w_valid a st = (st', ok) \<Longrightarrow> all_files st' = all_files st \<and> procs st' = procs st"
  by (auto simp: w_valid_def Let_def split: if_splits dest: put_user_tables)

lemma store_user_tables: "store_user a bs st = Inr st' \<Longrightarrow> all_files st' = all_files st \<and> procs st' = procs st"
  by (induction a bs st rule: store_user.induct) (auto split: prod.splits if_splits dest: put_user_tables)

text \<open>One entry of the current process changes.\<close>

lemma set_fd_entry:
  assumes "process_current (procs st) < length (process_table (procs st))" "fd < length (p_files (process_table (procs st) ! process_current (procs st)))"
  shows "fd_entry (set_fd fd v st) i k = (if i = process_current (procs st) \<and> k = fd then v else fd_entry st i k)"
    "p_valid (process_table (procs (set_fd fd v st)) ! i) = p_valid (process_table (procs st) ! i)"
    "length (p_files (process_table (procs (set_fd fd v st)) ! i)) = length (p_files (process_table (procs st) ! i))"
    "process_current (procs (set_fd fd v st)) = process_current (procs st)" "all_files (set_fd fd v st) = all_files st"
    "length (process_table (procs (set_fd fd v st))) = length (process_table (procs st))"
proof -
  let ?c = "process_current (procs st)"
  have p: "process_table (procs (set_fd fd v st)) ! j =
     (if j = ?c then (process_table (procs st) ! ?c)\<lparr>p_files := (p_files (process_table (procs st) ! ?c))[fd := v]\<rparr> else process_table (procs st) ! j)" for j
    using assms(1) by (simp add: set_fd_def)
  show "fd_entry (set_fd fd v st) i k = (if i = ?c \<and> k = fd then v else fd_entry st i k)"
    using assms(2) by (auto simp: fd_entry_def p nth_list_update)
  show "p_valid (process_table (procs (set_fd fd v st)) ! i) = p_valid (process_table (procs st) ! i)"
    "length (p_files (process_table (procs (set_fd fd v st)) ! i)) = length (p_files (process_table (procs st) ! i))" by (simp_all add: p)
  show "process_current (procs (set_fd fd v st)) = ?c" "all_files (set_fd fd v st) = all_files st"
    "length (process_table (procs (set_fd fd v st))) = length (process_table (procs st))"
    by (simp_all add: set_fd_def process_current_def)
qed

text \<open>A descriptor gets a slot that nobody uses, or is taken away with its slot; the other entries keep theirs.\<close>

lemma set_fd_ok:
  assumes ok: "tables_ok st" and fd: "fd < MAX_FILES" and l: "length xs = MAX_GLOBAL_FILES"
    and v: "v \<noteq> - 1 \<Longrightarrow> 0 \<le> v \<and> v < int MAX_GLOBAL_FILES \<and> xs ! nat v \<noteq> 0"
    and other: "\<And>i k. live st i \<Longrightarrow> k < MAX_FILES \<Longrightarrow> fd_entry st i k \<noteq> - 1 \<Longrightarrow> (i, k) \<noteq> (process_current (procs st), fd) \<Longrightarrow>
       xs ! nat (fd_entry st i k) \<noteq> 0 \<and> fd_entry st i k \<noteq> v"
  shows "tables_ok (set_fd fd v (st\<lparr>all_files := xs\<rparr>))"
proof -
  note d = tables_okD [OF ok]
  let ?c = "process_current (procs st)" and ?st = "st\<lparr>all_files := xs\<rparr>"
  have "?c < length (process_table (procs ?st))" "fd < length (p_files (process_table (procs ?st) ! ?c))"
    using d(2,3) d(4) [OF d(3)] fd by simp_all
  note e = set_fd_entry [where st = ?st and fd = fd and v = v, simplified, OF this [simplified]]
  have entry: "fd_entry (set_fd fd v ?st) i k = (if i = ?c \<and> k = fd then v else fd_entry st i k)" for i k
    unfolding e(1) by (simp add: fd_entry_def)
  show ?thesis
    unfolding tables_ok_def entry e(2-)
  proof (intro conjI allI impI)
    show "length xs = MAX_GLOBAL_FILES" "length (process_table (procs st)) = MAX_PROCESSES" by (rule l, rule d(2))
    show "?c < MAX_PROCESSES" "p_valid (process_table (procs st) ! ?c)" using d(3) by simp_all
    show "length (p_files (process_table (procs st) ! i)) = MAX_FILES" if "live st i" for i using d(4) that by blast
  next
    fix i k assume a: "live st i" "k < MAX_FILES" and n: "(if i = ?c \<and> k = fd then v else fd_entry st i k) \<noteq> - 1"
    show "0 \<le> (if i = ?c \<and> k = fd then v else fd_entry st i k)" "(if i = ?c \<and> k = fd then v else fd_entry st i k) < int MAX_GLOBAL_FILES"
      "xs ! nat (if i = ?c \<and> k = fd then v else fd_entry st i k) \<noteq> 0"
      using v other [OF a] d(5) [OF a] n by (auto split: if_splits)
  next
    fix i k j q assume a: "live st i" "k < MAX_FILES" "live st j" "q < MAX_FILES"
      and eq: "(if i = ?c \<and> k = fd then v else fd_entry st i k) = (if j = ?c \<and> q = fd then v else fd_entry st j q)"
      and n: "(if i = ?c \<and> k = fd then v else fd_entry st i k) \<noteq> - 1"
    show "i = j" "k = q"
      using other [OF a(1,2)] other [OF a(3,4)] d(6) [OF a] eq n by (auto split: if_splits)
  qed
qed

lemma first_free_ok:
  "i \<le> n \<Longrightarrow> i \<le> first_free free n i \<and> first_free free n i \<le> n \<and> (first_free free n i < n \<longrightarrow> free (first_free free n i)) \<and>
     (\<forall>j. i \<le> j \<and> j < first_free free n i \<longrightarrow> \<not> free j)"
proof (induction free n i rule: first_free.induct)
  case (1 free n i)
  show ?case
  proof (cases "i < n \<and> \<not> free i")
    case True
    then have "first_free free n i = first_free free n (Suc i)" by (subst first_free.simps) simp
    then show ?thesis using 1(1) [OF True] True by (auto simp: Suc_le_eq dest: le_neq_implies_less)
  next
    case False
    then have "first_free free n i = i" by (subst first_free.simps) auto
    then show ?thesis using False 1(2) by auto
  qed
qed

lemma entry_free: "tables_ok st \<Longrightarrow> p_files (proc st) ! k = fd_entry st (process_current (procs st)) k"
  by (simp add: fd_entry_def proc_def)

text \<open>Opening: the first unused descriptor from 2 on and the first unused slot are taken.\<close>

lemma open_file_eval:
  assumes ok: "tables_ok st" and p: "r_valid upath st" "ustring STRING_MAX upath st = Inr s"
    and o: "filesys_open m (working_dir (proc st)) s (fs st) = Inr (x, f)" "f \<noteq> 0"
    and fd: "fd < MAX_FILES" "fd = first_free (\<lambda>i. p_files (proc st) ! i = - 1) MAX_FILES 2"
    and slot: "slot < MAX_GLOBAL_FILES" "slot = first_free (\<lambda>i. all_files st ! i = 0) MAX_GLOBAL_FILES 0"
  shows "open_file m upath st = Inr (set_fd fd (int slot) (st\<lparr>fs := x, all_files := (all_files st)[slot := f]\<rparr>), Some (int fd))"
  using p o fd slot by (simp add: open_file_def with_fs_def return_def Let_def)

lemma tables_open:
  assumes ok: "tables_ok st" and fd: "fd < MAX_FILES" and slot: "slot < MAX_GLOBAL_FILES" "all_files st ! slot = 0" and f: "f \<noteq> 0"
  shows "tables_ok (set_fd fd (int slot) (st\<lparr>all_files := (all_files st)[slot := f]\<rparr>))"
proof (rule set_fd_ok [OF ok fd])
  note d = tables_okD [OF ok]
  show "length ((all_files st)[slot := f]) = MAX_GLOBAL_FILES" using d(1) by simp
  show "0 \<le> int slot \<and> int slot < int MAX_GLOBAL_FILES \<and> (all_files st)[slot := f] ! nat (int slot) \<noteq> 0" using slot f d(1) by simp
  fix i k assume a: "live st i" "k < MAX_FILES" "fd_entry st i k \<noteq> - 1"
  from d(5) [OF this] slot(2) have "nat (fd_entry st i k) \<noteq> slot" by auto
  then show "(all_files st)[slot := f] ! nat (fd_entry st i k) \<noteq> 0 \<and> fd_entry st i k \<noteq> int slot"
    using d(5) [OF a] by (auto simp: nth_list_update)
qed

lemma tables_close:
  assumes ok: "tables_ok st" and fd: "fd < MAX_FILES" and v: "fd_entry st (process_current (procs st)) fd = int i"
  shows "tables_ok (set_fd fd (- 1) (st\<lparr>all_files := (all_files st)[i := 0]\<rparr>))"
proof (rule set_fd_ok [OF ok fd])
  note d = tables_okD [OF ok]
  show "length ((all_files st)[i := 0]) = MAX_GLOBAL_FILES" using d(1) by simp
  fix j k assume a: "live st j" "k < MAX_FILES" "fd_entry st j k \<noteq> - 1" "(j, k) \<noteq> (process_current (procs st), fd)"
  then have "fd_entry st j k \<noteq> int i" using d(6) [OF a(1,2) d(3) fd] v by auto
  then have "nat (fd_entry st j k) \<noteq> i" using d(5) [OF a(1-3)] by auto
  then show "(all_files st)[i := 0] ! nat (fd_entry st j k) \<noteq> 0 \<and> fd_entry st j k \<noteq> - 1" using d(5) [OF a(1-3)] a(3) by (auto simp: nth_list_update)
qed simp

lemma close_file_ok:
  assumes ok: "tables_ok st" and c: "close_file fd st = Inr st'"
  shows "tables_ok st'"
proof (cases "fd \<ge> 0 \<and> fd < int MAX_FILES")
  case rng: True
  let ?c = "process_current (procs st)"
  have fd: "nat fd < MAX_FILES" "int (nat fd) = fd" using rng by (simp_all add: nat_less_iff)
  note d = tables_okD [OF ok]
  have e: "p_files (proc st) ! nat fd = fd_entry st ?c (nat fd)" by (rule entry_free [OF ok])
  show ?thesis
  proof (cases "fd_entry st ?c (nat fd) = - 1")
    case True
    then have "fd_index fd st = None" by (simp add: fd_index_def e)
    then have "st' = set_fd (nat fd) (- 1) st" using c rng by (simp add: close_file_def)
    moreover have "tables_ok (set_fd (nat fd) (- 1) (st\<lparr>all_files := all_files st\<rparr>))"
      by (rule set_fd_ok [OF ok fd(1) d(1)]) (use d(5) in auto)
    ultimately show ?thesis by simp
  next
    case False
    let ?i = "nat (fd_entry st ?c (nat fd))"
    have i: "fd_entry st ?c (nat fd) = int ?i" using d(5) [OF d(3) fd(1) False] by simp
    have "fd_index fd st = Some (fd_entry st ?c (nat fd))" using False rng by (simp add: fd_index_def e)
    then obtain st1 where st1: "on_fs (on_files (file_close RELEASE (all_files st ! ?i))) st = Inr st1"
      "st' = set_fd (nat fd) (- 1) (st1\<lparr>all_files := (all_files st1)[?i := 0]\<rparr>)"
      using c rng by (auto simp: close_file_def bindR_eq_Inr)
    have t: "all_files st1 = all_files st" "procs st1 = procs st" using on_fs_tables [OF st1(1)] by simp_all
    have "tables_ok st1" using ok tables_cong [OF t] by simp
    then have "tables_ok (set_fd (nat fd) (- 1) (st1\<lparr>all_files := (all_files st1)[?i := 0]\<rparr>))"
      by (rule tables_close [OF _ fd(1)]) (use i t in \<open>simp add: fd_entry_def\<close>)
    then show ?thesis using st1(2) by simp
  qed
next
  case False
  then have "close_file fd st = Inr st" by (auto simp: close_file_def)
  then show ?thesis using c ok by simp
qed


lemma open_file_typed:
  assumes ok: "tables_ok st" and o: "open_file m upath st = Inr (st', r)"
  shows "tables_ok st'"
proof -
  let ?fd = "first_free (\<lambda>i. p_files (proc st) ! i = - 1) MAX_FILES 2"
  have fd: "?fd \<le> MAX_FILES" using first_free_ok [of 2 MAX_FILES] by (simp add: MAX_FILES_def)
  consider "st' = st" | s x f where "ustring STRING_MAX upath st = Inr s" "with_fs (filesys_open m (working_dir (proc st)) s) st = Inr (x, f)" "?fd \<noteq> MAX_FILES"
      "(if f = 0 then return EXIT_FAILURE x
        else let slot = first_free (\<lambda>i. all_files x ! i = 0) MAX_GLOBAL_FILES 0 in
          if slot = MAX_GLOBAL_FILES then bindR (on_fs (on_files (file_close RELEASE f)) x) (return EXIT_FAILURE)
          else return (int ?fd) (set_fd ?fd (int slot) (x\<lparr>all_files := (all_files x)[slot := f]\<rparr>))) = Inr (st', r)"
    using o unfolding open_file_def exit_failure_def return_def Let_def by (auto simp: bindR_eq_Inr split: if_splits)
  then show ?thesis
  proof cases
    case 1
    then show ?thesis using ok by simp
  next
    case (2 s x f)
    have t: "all_files x = all_files st" "procs x = procs st" using with_fs_tables [OF 2(2)] by simp_all
    have okx: "tables_ok x" using ok tables_cong [OF t] by simp
    let ?slot = "first_free (\<lambda>i. all_files x ! i = 0) MAX_GLOBAL_FILES 0"
    have sl: "?slot \<le> MAX_GLOBAL_FILES" "?slot < MAX_GLOBAL_FILES \<longrightarrow> all_files x ! ?slot = 0" using first_free_ok [of 0] by blast+
    consider "f = 0" "st' = x" | "f \<noteq> 0" "?slot = MAX_GLOBAL_FILES" "on_fs (on_files (file_close RELEASE f)) x = Inr st'"
      | "f \<noteq> 0" "?slot < MAX_GLOBAL_FILES" "st' = set_fd ?fd (int ?slot) (x\<lparr>all_files := (all_files x)[?slot := f]\<rparr>)"
      using 2(4) sl(1) by (auto simp: return_def Let_def bindR_eq_Inr split: if_splits)
    then show ?thesis
    proof cases
      case a: 2
      then show ?thesis using tables_cong on_fs_tables okx by metis
    next
      case a: 3
      then show ?thesis using tables_open [OF okx _ a(2) _ a(1), of ?fd] sl(2) fd 2(3) by simp
    qed (use okx in simp)
  qed
qed

lemma close_loop_ok: "tables_ok st \<Longrightarrow> close_loop n fd st = Inr st' \<Longrightarrow> tables_ok st'"
proof (induction n arbitrary: fd st)
  case (Suc n)
  obtain st1 where st1: "close_file fd st = Inr st1" "close_loop n (fd + 1) st1 = Inr st'" using Suc.prems(2) by (auto simp: bindR_eq_Inr)
  from Suc.IH [OF close_file_ok [OF Suc.prems(1) st1(1)] st1(2)] show ?case .
qed simp

lemma readdir_loop_tables: "readdir_call_loop n f name st = Inr (st', b) \<Longrightarrow> all_files st' = all_files st \<and> procs st' = procs st"
proof (induction n arbitrary: st)
  case (Suc n)
  obtain st1 r where r: "with_fs (cast_dir f (dir_readdir f)) st = Inr (st1, r)"
    "(case r of None \<Rightarrow> Inr (st1, False) | Some s \<Rightarrow> bindR (store_user name (s @ [0]) st1) (\<lambda>st.
         if s = PATH_WD \<or> s = PATH_PARENT then readdir_call_loop n f name st else Inr (st, True))) = Inr (st', b)"
    using Suc.prems by (auto simp: bindR_eq_Inr)
  note t = with_fs_tables [OF r(1)]
  show ?case
  proof (cases r)
    case None
    then show ?thesis using r(2) t by simp
  next
    case (Some s)
    then obtain st2 where st2: "store_user name (s @ [0]) st1 = Inr st2"
      "(if s = PATH_WD \<or> s = PATH_PARENT then readdir_call_loop n f name st2 else Inr (st2, True)) = Inr (st', b)"
      using r(2) by (auto simp: bindR_eq_Inr)
    then show ?thesis using Suc.IH [of st2] t store_user_tables [OF st2(1)] by (auto split: if_splits)
  qed
qed simp

lemma readdir_tables: "readdir fd name st = Inr (st', r) \<Longrightarrow> all_files st' = all_files st \<and> procs st' = procs st"
proof -
  assume a: "readdir fd name st = Inr (st', r)"
  obtain st1 ok where w: "w_valid name st = (st1, ok)" by fastforce
  have "all_files st' = all_files st1 \<and> procs st' = procs st1"
    using a w by (auto simp: readdir_def exit_failure_def return_def bindR_eq_Inr split: if_splits option.splits dest: readdir_loop_tables)
  then show ?thesis using w_valid_tables [OF w] by simp
qed

section \<open>Properties\<close>

text \<open>C18. The tables stay well typed: after every call that opens, closes, reads or changes names, each descriptor of each process
  is -1 or the index of a slot with an open file, and no slot has two descriptors.\<close>

theorem descriptors_typed:
  assumes ok: "tables_ok st"
  shows "(\<forall>st' r. open_file m upath st = Inr (st', r) \<longrightarrow> tables_ok st') \<and> (\<forall>st'. close_file fd st = Inr st' \<longrightarrow> tables_ok st') \<and>
     (\<forall>st'. free_open_files st = Inr st' \<longrightarrow> tables_ok st') \<and> (\<forall>st' r. filesize fd st = Inr (st', r) \<longrightarrow> tables_ok st') \<and>
     (\<forall>st' r. create_dir_entry m garbage upath sz is_dir st = Inr (st', r) \<longrightarrow> tables_ok st') \<and>
     (\<forall>st' r. remove_file m upath st = Inr (st', r) \<longrightarrow> tables_ok st') \<and> (\<forall>st' r. readdir fd upath st = Inr (st', r) \<longrightarrow> tables_ok st')"
proof (intro conjI allI impI)
  have keep: "tables_ok st'" if "all_files st' = all_files st" "procs st' = procs st" for st' using tables_cong [OF that] ok by simp
  show "tables_ok st'" if "open_file m upath st = Inr (st', r)" for st' r by (rule open_file_typed [OF ok that])
  show "tables_ok st'" if "close_file fd st = Inr st'" for st' by (rule close_file_ok [OF ok that])
  show "tables_ok st'" if "free_open_files st = Inr st'" for st' using close_loop_ok [OF ok that [unfolded free_open_files_def]] .
  show "tables_ok st'" if "filesize fd st = Inr (st', r)" for st' r
    using that by (intro keep) (auto simp: filesize_def return_def bindR_eq_Inr split: option.splits dest: with_fs_tables)
  show "tables_ok st'" if "create_dir_entry m garbage upath sz is_dir st = Inr (st', r)" for st' r
    using that by (intro keep) (auto simp: create_dir_entry_def exit_failure_def return_def bindR_eq_Inr split: if_splits dest: with_fs_tables)
  show "tables_ok st'" if "remove_file m upath st = Inr (st', r)" for st' r
    using that by (intro keep) (auto simp: remove_file_def exit_failure_def return_def bindR_eq_Inr split: if_splits dest: with_fs_tables)
  show "tables_ok st'" if "readdir fd upath st = Inr (st', r)" for st' r
    using readdir_tables [OF that] keep by blast
qed

text \<open>C38. The system call \<open>seek\<close> does nothing, whatever descriptor and position it gets: with well-formed tables, the test for a null pointer
  that guards \<open>file_seek\<close> is never true. What \<open>tell\<close> returns for the descriptor is the position it had before.\<close>

theorem seek_ignored:
  assumes ok: "tables_ok st"
  shows "seek fd position st = Inr st \<and> bindR (seek fd position st) (tell fd) = tell fd st"
proof -
  note d = tables_okD [OF ok]
  have "all_files st ! nat i \<noteq> 0" if "fd_index fd st = Some i" for i
  proof -
    have i: "0 \<le> fd" "fd < int MAX_FILES" "fd_entry st (process_current (procs st)) (nat fd) \<noteq> - 1" "i = fd_entry st (process_current (procs st)) (nat fd)"
      using that entry_free [OF ok] by (simp_all add: fd_index_def split: if_splits)
    then show ?thesis using d(5) [OF d(3), of "nat fd"] by (simp add: nat_less_iff)
  qed
  then have "seek fd position st = Inr st" by (auto simp: seek_def split: option.splits)
  then show ?thesis by simp
qed


text \<open>C14. \<open>open\<close> with the name of an entry of the working directory, when the process has an unused descriptor and the kernel an unused slot: the
  call returns the first unused descriptor from 2 on. It stands for a new file at position 0 on the inode of the entry; every other
  descriptor stands for the file it stood for, and the tables stay well formed.\<close>

theorem open_existing:
  assumes ok: "tables_ok st" and d: "working_dir (proc st) = d"
    and r: "dir_at_rest (fs st) d s" "dirs (fs st) d = Some x" "inodes (files (fs st)) (d_inode x) = Some nd" "d_inode x \<noteq> 0" "0 < open_cnt nd"
    and e: "dir_map (dir_bytes (fs st) s) name = Some (sector, is_dir)" and name: "0 < length name" "length name \<le> 14" "47 \<notin> set name"
    and w: "\<And>a. a \<in> set (open_inodes (files (fs st))) \<Longrightarrow> inodes (files (fs st)) a \<noteq> None \<and> a \<noteq> 0"
    and m: "\<And>x. m x \<noteq> 0" "\<And>st. m st \<noteq> d_inode x"
    and p: "r_valid upath st" "ustring STRING_MAX upath st = Inr name"
    and room: "2 \<le> k" "k < MAX_FILES" "p_files (proc st) ! k = - 1" "q < MAX_GLOBAL_FILES" "all_files st ! q = 0"
  shows "\<exists>st' fd f a n. open_file m upath st = Inr (st', Some (int fd)) \<and> tables_ok st' \<and>
     2 \<le> fd \<and> fd < MAX_FILES \<and> p_files (proc st) ! fd = - 1 \<and> (\<forall>j. 2 \<le> j \<and> j < fd \<longrightarrow> p_files (proc st) ! j \<noteq> - 1) \<and>
     fd_file (int fd) st' = Some f \<and> inodes (files (fs st')) a = Some n \<and> i_sector n = sector \<and>
     open_files (files (fs st')) f = Some \<lparr>f_inode = a, f_pos = 0, f_deny_write = False, f_is_dir = is_dir\<rparr> \<and>
     (\<forall>g. g \<noteq> f \<longrightarrow> open_files (files (fs st')) g = open_files (files (fs st)) g) \<and> (\<forall>j. j \<noteq> int fd \<longrightarrow> fd_file j st' = fd_file j st)"
proof -
  note t = tables_okD [OF ok]
  let ?c = "process_current (procs st)"
  obtain y f a n where o: "filesys_open m d name (fs st) = Inr (y, f)" "f \<noteq> 0"
    "open_files (files y) f = Some \<lparr>f_inode = a, f_pos = 0, f_deny_write = False, f_is_dir = is_dir\<rparr>"
    "inodes (files y) a = Some n" "i_sector n = sector" "\<forall>g. g \<noteq> f \<longrightarrow> open_files (files y) g = open_files (files (fs st)) g"
    by (rule filesys_open_ok [OF r e name w m])
  define fd where "fd = first_free (\<lambda>i. p_files (proc st) ! i = - 1) MAX_FILES 2"
  define slot where "slot = first_free (\<lambda>i. all_files st ! i = 0) MAX_GLOBAL_FILES 0"
  have "2 \<le> MAX_FILES" by (simp add: MAX_FILES_def)
  note ff = first_free_ok [OF this, of "\<lambda>i. p_files (proc st) ! i = - 1", folded fd_def]
  have "fd \<le> k" using ff room(1,3) not_le by blast
  then have fd: "2 \<le> fd" "fd < MAX_FILES" "p_files (proc st) ! fd = - 1" "\<forall>j. 2 \<le> j \<and> j < fd \<longrightarrow> p_files (proc st) ! j \<noteq> - 1"
    using ff room(2) by auto
  note fs = first_free_ok [of 0 MAX_GLOBAL_FILES "\<lambda>i. all_files st ! i = 0", folded slot_def]
  have "slot \<le> q" using fs room(5) not_le by blast
  then have slot: "slot < MAX_GLOBAL_FILES" "all_files st ! slot = 0" using fs room(4) by auto
  let ?xs = "(all_files st)[slot := f]"
  let ?st1 = "st\<lparr>fs := y, all_files := ?xs\<rparr>"
  let ?st = "set_fd fd (int slot) ?st1"
  have run: "open_file m upath st = Inr (?st, Some (int fd))"
    by (rule open_file_eval [OF ok p _ o(2) fd(2) fd_def slot(1) slot_def]) (simp add: d o(1))
  have ok1: "tables_ok (st\<lparr>fs := y\<rparr>)" using ok tables_cong [of "st\<lparr>fs := y\<rparr>" st] by simp
  have tok: "tables_ok ?st" using tables_open [OF ok1 fd(2) slot(1) _ o(2)] slot(2) by simp
  have "?c < length (process_table (procs ?st1))" "fd < length (p_files (process_table (procs ?st1) ! ?c))"
    using t(2,3) t(4) [OF t(3)] fd(2) by simp_all
  note se = set_fd_entry [where st = ?st1 and fd = fd and v = "int slot", simplified, OF this [simplified]]
  have entry: "p_files (proc ?st) ! j = (if j = fd then int slot else p_files (proc st) ! j)" for j
    unfolding entry_free [OF tok] se(1,4) entry_free [OF ok] by (simp add: fd_entry_def)
  have xs: "all_files ?st = ?xs" using se(5) by simp
  have f1: "fd_file (int fd) ?st = Some f" using fd(2) slot(1) t(1) o(2) by (simp add: fd_file_def fd_index_def entry xs)
  have f2: "fd_file j ?st = fd_file j st" if j: "j \<noteq> int fd" for j
  proof (cases "0 \<le> j \<and> j < int MAX_FILES \<and> p_files (proc st) ! nat j \<noteq> - 1")
    case True
    then have "nat j \<noteq> fd" "nat j < MAX_FILES" using j by auto
    moreover have "nat (p_files (proc st) ! nat j) \<noteq> slot"
      using t(5) [OF t(3) \<open>nat j < MAX_FILES\<close>] True slot(2) by (auto simp: entry_free [OF ok])
    ultimately show ?thesis using True by (simp add: fd_file_def fd_index_def entry xs)
  next
    case False
    then have "fd_index j ?st = None" "fd_index j st = None" using j by (auto simp: fd_index_def entry)
    then show ?thesis by (simp add: fd_file_def)
  qed
  have "fs ?st = y" by (simp add: set_fd_def)
  then show ?thesis using run tok fd f1 f2 o(3,4,5,6) by (intro exI [of _ ?st] exI [of _ fd] exI [of _ f] exI [of _ a] exI [of _ n]) simp
qed


section \<open>A sample system\<close>

definition sample_entry :: "u8 list" where
  "sample_entry = [9, 0, 0, 0, 97, 98] @ replicate 13 0 @ [1, 0, 0, 0, 0]"

definition sample_process :: process where
  "sample_process = \<lparr>p_thread_ptr = 0, p_pid = 0, parent_pid = 0, working_dir = 30, p_files = (replicate MAX_FILES (- 1))[2 := 0],
     p_mmappings = replicate MAX_MMAPPINGS (- 1), supp_page_table = None, p_file = 0, return_code = 0, running = True, p_valid = True,
     p_blocked = False, loaded = True, load_success = True\<rparr>"

definition sample_sys :: sys where
  "sample_sys = \<lparr>fs = \<lparr>files = sample_fs 48 sample_entry, dirs = [30 \<mapsto> \<lparr>d_inode = 20, d_pos = 0\<rparr>]\<rparr>,
     all_files = (replicate MAX_GLOBAL_FILES 0)[0 := 1],
     procs = \<lparr>lists = (\<lambda>_. None), process_table = (replicate MAX_PROCESSES (sample_process\<lparr>p_valid := False\<rparr>))[0 := sample_process],
       cur_thread = 7, cur_pid = 0\<rparr>,
     umem = [0x8048000 \<mapsto> 97, 0x8048001 \<mapsto> 98, 0x8048002 \<mapsto> 0], uwrite = (\<lambda>_. True)\<rparr>"

lemma sample_proc: "process_current (procs sample_sys) = 0" "proc sample_sys = sample_process"
  "process_table (procs sample_sys) ! i = (if i = 0 then sample_process else sample_process\<lparr>p_valid := False\<rparr>)" if "i < MAX_PROCESSES"
  using that by (simp_all add: sample_sys_def process_current_def proc_def MAX_PROCESSES_def nth_list_update)

lemma sample_tables: "tables_ok sample_sys"
proof -
  have M: "0 < MAX_PROCESSES" "0 < MAX_GLOBAL_FILES" by (simp_all add: MAX_PROCESSES_def MAX_GLOBAL_FILES_def)
  note p = sample_proc [OF M(1)]
  have live: "live sample_sys i \<longleftrightarrow> i = 0" for i using M sample_proc(3) [of i] by (auto simp: sample_process_def split: if_splits)
  have e: "fd_entry sample_sys 0 k = (if k = 2 then 0 else - 1)" if "k < MAX_FILES" for k
    using that M sample_proc(3) [of 0] by (auto simp: fd_entry_def sample_process_def nth_list_update MAX_FILES_def)
  have a: "all_files sample_sys ! nat 0 \<noteq> 0" "length (all_files sample_sys) = MAX_GLOBAL_FILES" "length (process_table (procs sample_sys)) = MAX_PROCESSES"
    using M by (simp_all add: sample_sys_def)
  have l: "length (p_files (process_table (procs sample_sys) ! 0)) = MAX_FILES" using M sample_proc(3) [of 0] by (simp add: sample_process_def)
  show ?thesis
    unfolding tables_ok_def live p(1)
  proof (intro conjI allI impI)
    show "0 \<le> fd_entry sample_sys i k" "fd_entry sample_sys i k < int MAX_GLOBAL_FILES" "all_files sample_sys ! nat (fd_entry sample_sys i k) \<noteq> 0"
      if "i = 0" "k < MAX_FILES" "fd_entry sample_sys i k \<noteq> - 1" for i k
      using that e [OF that(2)] a M by (auto split: if_splits)
    show "i = j" "k = q" if "i = 0" "k < MAX_FILES" "j = 0" "q < MAX_FILES" "fd_entry sample_sys i k = fd_entry sample_sys j q"
      "fd_entry sample_sys i k \<noteq> - 1" for i k j q
      using that e [OF that(2)] e [OF that(4)] by (auto split: if_splits)
  qed (use a l in auto)
qed

theorem descriptors_typed_witness: "\<exists>st'. close_file 2 sample_sys = Inr st' \<and> tables_ok st'"
proof -
  have M: "0 < MAX_PROCESSES" "0 < MAX_GLOBAL_FILES" by (simp_all add: MAX_PROCESSES_def MAX_GLOBAL_FILES_def)
  have "fd_index 2 sample_sys = Some 0" using sample_proc [OF M(1)] by (simp add: fd_index_def MAX_FILES_def sample_process_def)
  moreover have "all_files sample_sys ! nat 0 = 1" using M by (simp add: sample_sys_def)
  moreover have "\<exists>y. file_close RELEASE 1 (files (fs sample_sys)) = Inr y"
    by (simp add: sample_sys_def sample_fs_def file_close_def file_allow_write_def fil_def inode_close_def ino_def set_ino_def Let_def ASSERT_def)
  ultimately obtain st' where st': "close_file 2 sample_sys = Inr st'" by (auto simp: close_file_def on_fs_def on_files_def MAX_FILES_def)
  then show ?thesis using descriptors_typed [OF sample_tables, of "\<lambda>_. 40" 0 2 "[]" 0 False] by blast
qed

theorem seek_ignored_witness: "seek 2 5 sample_sys = Inr sample_sys"
  using seek_ignored [OF sample_tables] by simp


theorem open_existing_witness:
  "\<exists>st' fd. open_file (\<lambda>_. 40) 0x8048000 sample_sys = Inr (st', Some (int fd)) \<and> 2 \<le> fd \<and> tables_ok st' \<and> fd_file 2 st' = Some 1"
proof -
  let ?fs = "fs sample_sys"
  let ?nd = "\<lparr>i_sector = 4, open_cnt = 1, removed = False, deny_write_cnt = 0, extension_lock = False\<rparr>"
  have M: "0 < MAX_PROCESSES" "0 < MAX_GLOBAL_FILES" "1 < MAX_GLOBAL_FILES" by (simp_all add: MAX_PROCESSES_def MAX_GLOBAL_FILES_def)
  have le: "length sample_entry = 24" by (simp add: sample_entry_def)
  note f = sample_file [of 48 sample_entry]
  have fl: "files ?fs = sample_fs 48 sample_entry" "dirs ?fs = [30 \<mapsto> \<lparr>d_inode = 20, d_pos = 0\<rparr>]" by (simp_all add: sample_sys_def)
  have r: "dir_at_rest ?fs 30 4"
    unfolding dir_at_rest_def fl using f le sample_node [of 48 sample_entry] by simp
  have x: "dirs ?fs 30 = Some \<lparr>d_inode = 20, d_pos = 0\<rparr>" "inodes (files ?fs) (d_inode \<lparr>d_inode = 20, d_pos = 0\<rparr>) = Some ?nd"
    unfolding fl using sample_node by simp_all
  have "dir_bytes ?fs 4 = sample_entry @ replicate 24 0" unfolding fl using f(5) le by (simp add: overwrite_def zeros_def)
  then have "entries (dir_bytes ?fs 4) = [sample_entry, replicate 24 0]" using le by (simp add: entries_def slot_of_def upt_rec)
  then have e: "dir_map (dir_bytes ?fs 4) [97, 98] = Some (9, False)"
    by (simp add: dir_map_def hit_def sample_entry_def e_in_use_def e_name_def e_inode_sector_def e_is_dir_def le_word_def nth_append)
  have w: "inodes (files ?fs) a \<noteq> None \<and> a \<noteq> 0" if "a \<in> set (open_inodes (files ?fs))" for a
    using that unfolding fl by (auto simp: sample_fs_def)
  have S: "STRING_MAX = Suc (Suc (Suc 4294967293))" by (simp add: STRING_MAX_def)
  have u: "ustring (Suc (Suc (Suc n))) 0x8048000 sample_sys = Inr [97, 98]" for n by (simp add: sample_sys_def)
  have "ustring STRING_MAX 0x8048000 sample_sys = Inr [97, 98]" unfolding S by (rule u)
  moreover have "r_valid 0x8048000 sample_sys" by (simp add: r_valid_def is_user_vaddr_def PHYS_BASE_def get_user_def sample_sys_def)
  ultimately have p: "r_valid 0x8048000 sample_sys" "ustring STRING_MAX 0x8048000 sample_sys = Inr [97, 98]" by simp_all
  have q: "all_files sample_sys ! 1 = 0" "p_files (proc sample_sys) ! 3 = - 1" "working_dir (proc sample_sys) = 30"
    using M sample_proc [OF M(1)] by (simp_all add: sample_sys_def sample_process_def MAX_FILES_def)
  have "fd_file 2 sample_sys = Some 1" using M sample_proc [OF M(1)]
    by (simp add: fd_file_def fd_index_def MAX_FILES_def sample_process_def) (simp add: sample_sys_def)
  moreover have "p_files (proc sample_sys) ! 2 \<noteq> - 1" using sample_proc [OF M(1)] by (simp add: sample_process_def MAX_FILES_def)
  moreover have "\<exists>st' fd f a n. open_file (\<lambda>_. 40) 0x8048000 sample_sys = Inr (st', Some (int fd)) \<and> tables_ok st' \<and>
     2 \<le> fd \<and> fd < MAX_FILES \<and> p_files (proc sample_sys) ! fd = - 1 \<and> (\<forall>j. 2 \<le> j \<and> j < fd \<longrightarrow> p_files (proc sample_sys) ! j \<noteq> - 1) \<and>
     fd_file (int fd) st' = Some f \<and> inodes (files (fs st')) a = Some n \<and> i_sector n = 9 \<and>
     open_files (files (fs st')) f = Some \<lparr>f_inode = a, f_pos = 0, f_deny_write = False, f_is_dir = False\<rparr> \<and>
     (\<forall>g. g \<noteq> f \<longrightarrow> open_files (files (fs st')) g = open_files (files ?fs) g) \<and> (\<forall>j. j \<noteq> int fd \<longrightarrow> fd_file j st' = fd_file j sample_sys)"
    by (rule open_existing [OF sample_tables q(3) r x _ _ e _ _ _ w _ _ p, where k = 3 and q = 1])
      (use q M in \<open>simp_all add: MAX_FILES_def\<close>)
  ultimately obtain st' fd where o: "open_file (\<lambda>_. 40) 0x8048000 sample_sys = Inr (st', Some (int fd))" "2 \<le> fd" "tables_ok st'"
    "\<forall>j. j \<noteq> int fd \<longrightarrow> fd_file j st' = fd_file j sample_sys" "fd \<noteq> 2" "fd_file 2 sample_sys = Some 1" by metis
  then have "fd_file 2 st' = Some 1" by simp
  then show ?thesis using o(1-3) by blast
qed

end
