(* ===== verification/Spec2Isabelle.thy ===== *)
theory Spec2Isabelle
  imports Kernel_List_Properties Free_Map Swap Lock_Invariant Cache_Properties Supp_Page_Table Frame_Table Directory_Properties Arithmetic Program_Start File_Descriptors
begin

text \<open>
  Verification of \<^verbatim>\<open>Kernel-Sanders\<close>, an instructional kernel for the 80x86 that descends from Pintos. All
  file names are relative to \<^verbatim>\<open>src/src\<close>.

  \<^bold>\<open>The program and its model.\<close> The kernel has, from the bottom up, library code (\<^verbatim>\<open>lib\<close>), threads with
  their synchronisation (\<^verbatim>\<open>threads\<close>, \<^verbatim>\<open>devices/timer.c\<close>), physical and virtual memory (\<^verbatim>\<open>threads/palloc.c\<close>,
  \<^verbatim>\<open>userprog/pagedir.c\<close>, \<^verbatim>\<open>vm\<close>), block devices (\<^verbatim>\<open>devices/block.c\<close>, \<^verbatim>\<open>devices/partition.c\<close>) and a file system on them
  (\<^verbatim>\<open>filesys\<close>). Each function of the source is a definition of the same name, or of a similar one where
  the name is taken; loops are recursive functions of their own. A function that can fail returns
  \<open>'a res\<close> (\<open>Prelude\<close>): \<open>Inl\<close> with the reason a failed assertion, a panic, an access through a bad pointer, or
  a wait that nobody else can end here, \<open>Inr\<close> with the new state and the result otherwise. Structures
  are records, enumerations datatypes, \<open>uint32_t\<close>, \<open>size_t\<close> and \<open>block_sector_t\<close> are \<open>32 word\<close>, bytes are
  \<open>8 word\<close>; \<open>int\<close> and \<open>off_t\<close> are integers, with the reduction to 32 bits written out where it matters.

  \<^bold>\<open>Library.\<close>
  \<^item> \<open>Kernel_List\<close>, \<open>Kernel_List_Order\<close>, \<open>Kernel_List_Sort\<close>, \<open>Kernel_List_Properties\<close>: \<^verbatim>\<open>lib/kernel/list.c\<close>, doubly linked lists
    on a heap of nodes with two sentinels. Every operation is related to the list of the interior
    nodes; sorting is an in-place merge sort, shown to be total, sorted and stable.
  \<^item> \<open>Hash_Table\<close>: \<^verbatim>\<open>lib/kernel/hash.c\<close>, shown to be a map, with the bounds of \<open>rehash\<close>.
  \<^item> \<open>Bitmap\<close>: \<^verbatim>\<open>lib/kernel/bitmap.c\<close>, shown to be a list of truth values.
  \<^item> \<open>Fixed_Point\<close>: \<^verbatim>\<open>threads/fixed_point.c\<close>.
  \<^item> \<open>Arithmetic\<close>: \<^verbatim>\<open>lib/arithmetic.c\<close>, 64-bit division. The quotients are shown to agree with those of numbers,
    the remainders to be cut to 32 bits.
  \<^item> \<open>C_String\<close>: \<^verbatim>\<open>lib/string.c\<close> on bytes of memory, with overlapping moves and bounded copies.

  \<^bold>\<open>Threads.\<close> \<open>Thread_Model\<close> has \<^verbatim>\<open>threads/thread.c\<close>, \<^verbatim>\<open>threads/synch.c\<close>, the interrupt flag of
  \<^verbatim>\<open>threads/interrupt.c\<close> and \<^verbatim>\<open>devices/timer.c\<close>. A thread carries the code it has still to run, and a step runs the
  current thread to its next scheduling point or takes a timer interrupt. \<open>Thread_Steps\<close> and
  \<open>Thread_Invariant\<close> show that every step keeps the invariant of the scheduler; \<open>Thread_Properties\<close> and
  \<open>Lock_Invariant\<close> draw the conclusions for all reachable states: each thread is in exactly the list its status
  names, and a lock has at most one holder. Two defects are executions of the model: priority
  donation can run for ever, and \<open>cond_signal\<close> fails its assertion when no waiter of the condition sleeps
  yet (\<open>cond_signal_cases\<close> has all its outcomes).

  \<^bold>\<open>Memory.\<close> \<open>Memory\<close> has \<^verbatim>\<open>threads/vaddr.h\<close>, \<^verbatim>\<open>threads/pte.h\<close> and byte-wise access to physical memory; \<open>Palloc\<close> the page
  allocator with its two pools; \<open>Pagedir\<close> page directories as words of that memory, shown to be maps
  from user pages to frames, and \<open>Address_Spaces\<close> that several of them do not disturb each other.
  \<open>Virtual_Memory\<close> has \<^verbatim>\<open>vm/page.c\<close> and \<^verbatim>\<open>vm/frame.c\<close>; \<open>Supp_Page_Table\<close> shows the supplemental page table to be a
  map, \<open>Frame_Table\<close> that the choice of a victim ends and respects pinned frames; \<open>Swap\<close> has \<^verbatim>\<open>vm/swap.c\<close>, shown to be a
  store of pages on a block device.

  \<^bold>\<open>Devices and files.\<close>
  \<^item> \<open>Block_Device\<close>: block devices and partitions. The locale \<open>sector_store\<close> is the contract of a driver
    (a read returns what was last written); the medium, a partition and the buffer cache satisfy it.
  \<^item> \<open>Buffer_Cache\<close>, \<open>Cache_Invariant\<close>, \<open>Cache_Properties\<close>: \<^verbatim>\<open>filesys/cache.c\<close>. \<open>cview\<close> is the device as seen through
    the cache, \<open>locks\<close> the reader and writer locks of its sectors.
  \<^item> \<open>Free_Map\<close>: the bits of \<^verbatim>\<open>filesys/free-map.c\<close>, with the outcome of writing them as an argument, as an
    allocator in the sense of the locale of slots it shares with \<open>Palloc\<close>; \<open>Inode\<close> has the
    same functions with the write to the free map's file.
  \<^item> \<open>Inode\<close>: \<^verbatim>\<open>filesys/inode.c\<close>, \<^verbatim>\<open>filesys/file.c\<close>, the free map in its file. \<open>Inode_Index\<close> computes \<open>byte_to_sector\<close> from the
    words of the index sectors; \<open>File_Content\<close> shows a file to be an array of bytes (\<open>content\<close>) for reading
    and for writing in place; \<open>File_Tree\<close> and \<open>File_Growth\<close> show that it grows by zeros, for any
    allocation that satisfies the locale \<open>sector_source\<close>; \<open>Free_Map_File\<close> interprets the locale with the
    free map. \<open>File_Properties\<close> and \<open>File_Errors\<close> have the results.
  \<^item> \<open>Directory\<close>: \<^verbatim>\<open>filesys/directory.c\<close> and \<^verbatim>\<open>filesys/filesys.c\<close>; \<open>Directory_Properties\<close> shows a directory to be a map from names to
    inodes, through the file it is kept in.

  \<^bold>\<open>Processes.\<close>
  \<^item> \<open>Process_Table\<close>: the process table of \<^verbatim>\<open>userprog/process.c\<close>, on the lists of \<open>Kernel_List\<close>. \<open>process_execute\<close> is split where the
    parent sleeps, \<open>start_process\<close> and \<open>process_exit\<close> have the parts that work on the table. \<open>ptab_ok\<close> is the well-formed
    table; it is kept by creating, waiting for and ending a child. Two theorems show executions that go wrong.
  \<^item> \<open>Program_Start\<close>: the part of \<open>start_process\<close> that cuts the command line into words and builds the initial stack of
    a program, shown to be what \<open>main (argc, argv)\<close> expects.
  \<^item> \<open>File_Descriptors\<close>: the system calls of \<^verbatim>\<open>userprog/syscall.c\<close> on descriptors, names and directories, on the file system and the
    process table. User memory is a partial map of bytes.

  \<^bold>\<open>Bounds and fuel.\<close> Loops that end for a reason the recursion does not show take a number of rounds: \<open>read_loop\<close> and
  \<open>write_loop\<close> one more than the bytes asked for, since each round moves at least one; the loops over
  directory entries \<open>MAX_ENTRIES\<close>, the number of entries in \<open>2 ^ 31\<close> bytes; \<open>allocate_sector\<close> the depth of its
  recursion, where 1 is enough because the free map's file is never extended. The properties prove that
  these functions return, so they never run out. Loops that may run for ever (\<open>donate_loop\<close>,
  \<open>frame_choose_victim\<close>) have theorems that say when they end and when no number of rounds is enough.

  \<^bold>\<open>Scope of the results.\<close> The file system is modelled as one thread runs it; the locks of the cache are there, but
  a wait is an outcome, not a switch. \<open>inode_write_extends\<close> covers files up to the end of the singly
  indirect blocks; behind that a file that grows block by block halts the kernel (\<open>grow_double_indirect_halts\<close>, for 1 to
  127 blocks). It and \<open>dir_add_lookup\<close> suppose (\<open>file_at_rest\<close>) that the cache holds no free sector
  (\<open>free_uncached\<close>), since the code clears new blocks past the cache: a sector that is freed, or read ahead, and allocated
  while it is still cached shows old bytes (\<open>grow_direct_stale\<close>, \<open>inode_create_stale\<close>). A file grows by the rest of its last block
  before it grows by cleared blocks; \<open>zero_tail\<close> says when these bytes are zeros, and extending a file keeps it.
  \<open>dir_add_lookup\<close> covers directories in direct blocks. What \<open>malloc\<close> and \<open>calloc\<close> return is an argument.
  The medium under the driver interface is an ideal disk. The kernel is started with the priority scheduler
  (\<open>power_on\<close> has \<open>thread_mlfqs\<close> false, the default of the command line); the functions of the other scheduler are modelled
  and have lemmas of their own. \<open>lock_release\<close> clears the holder and ups the semaphore in one step, so a switch between these two
  statements of \<^verbatim>\<open>synch.c\<close> is not among the steps. The reload of the page directory register has no effect, as the
  translation buffer is not modelled. In the process table a child runs when its parent sleeps, although it may
  start as soon as it is created; waiting for a child that still runs is the outcome \<open>Blocked\<close>, without the
  flag the code sets before it blocks; and a list element that belongs to no process is an invalid access, where the code would
  go on with whatever is beside it in memory.

  \<^bold>\<open>Not modelled.\<close> Drivers that only do port input and output (IDE, keyboard, serial line, display, clock chips),
  the interrupt and segment descriptor tables, start-up and the kernel command line, the user-side
  system call stubs (inline assembly), test programs and examples, the shell for the host, the boot game and the
  host utilities. Of \<^verbatim>\<open>userprog\<close>, loading of executables, page faults and the
  calls that transfer data between user memory and files are not modelled; formatted output (\<^verbatim>\<open>lib/stdio.c\<close>), the block
  allocator of \<^verbatim>\<open>threads/malloc.c\<close> and \<^verbatim>\<open>lib/stdlib.c\<close> are not either.
\<close>

end
